(* ===== verification/Prelude.thy ===== *)
theory Prelude
  imports Main "HOL-Library.Word"
begin

text \<open>
  Shared vocabulary of the dioOS development: machine integers at their C widths, the
  byte-addressed memory, and the word and memory lemmas that every component uses.
  Addresses are 64-bit words, so pointer arithmetic wraps as it does on the machine.
\<close>

unbundle bit_operations_syntax

subsection \<open>Machine integers and memory\<close>

type_synonym u8 = "8 word"
type_synonym u16 = "16 word"
type_synonym u32 = "32 word"
type_synonym u64 = "64 word"
type_synonym addr = "64 word"

text \<open>Byte memory: every address holds a byte; a store is a function update.\<close>

type_synonym mem = "addr \<Rightarrow> u8"

definition load_bytes :: "mem \<Rightarrow> addr \<Rightarrow> nat \<Rightarrow> u8 list" where
  "load_bytes m p n = map (\<lambda>i. m (p + of_nat i)) [0..<n]"

text \<open>A store of a byte sequence: all bytes are known before the first is written.\<close>

definition store_bytes :: "mem \<Rightarrow> addr \<Rightarrow> u8 list \<Rightarrow> mem" where
  "store_bytes m p bs = (\<lambda>a. if unat (a - p) < length bs then bs ! unat (a - p) else m a)"

subsection \<open>Collections\<close>

named_theorems mem_simps \<open>rewriting of loads and stores\<close>
named_theorems word_nat \<open>word operations read as natural numbers under a no-overflow side condition\<close>

subsection \<open>Words as natural numbers\<close>

lemma unat_lt64 [simp]: "unat (x :: u64) < 18446744073709551616"
  using unsigned_less [of x] by simp

lemma unat_add64 [word_nat]:
  "unat (a :: u64) + unat b < 18446744073709551616 \<Longrightarrow> unat (a + b) = unat a + unat b"
  by (simp add: unat_word_ariths)

lemma unat_sub64 [word_nat]: "b \<le> (a :: u64) \<Longrightarrow> unat (a - b) = unat a - unat b"
  by (simp add: unat_sub_if' word_le_nat_alt)

lemma unat_of_nat64 [word_nat]: "n < 18446744073709551616 \<Longrightarrow> unat (of_nat n :: u64) = n"
  by (simp add: unat_of_nat)

lemma unat_diff64:
  "unat ((a :: u64) - b) = (if unat b \<le> unat a then unat a - unat b
     else 18446744073709551616 + unat a - unat b)"
  by (simp add: unat_sub_if' add.commute [of 18446744073709551616])

lemma unat_plus64:
  "unat ((a :: u64) + b) = (if unat a + unat b < 18446744073709551616 then unat a + unat b
     else unat a + unat b - 18446744073709551616)"
proof (cases "unat a + unat b < 18446744073709551616")
  case True
  then show ?thesis by (simp add: unat_word_ariths)
next
  case False
  have "(unat a + unat b) mod 18446744073709551616
      = (unat a + unat b - 18446744073709551616) mod 18446744073709551616"
    using False by (intro le_mod_geq) simp
  also have "\<dots> = unat a + unat b - 18446744073709551616"
    using unat_lt64 [of a] unat_lt64 [of b] by (intro mod_less) linarith
  finally show ?thesis using False by (simp add: unat_word_ariths)
qed

lemma unat_inc64: "i < (x :: u64) \<Longrightarrow> unat (i + 1) = Suc (unat i)"
proof -
  assume "i < x"
  then have "unat i < unat x" by (simp add: word_less_nat_alt)
  then have "unat i + 1 < 18446744073709551616" using unat_lt64 [of x] by linarith
  then show ?thesis using unat_add64 [of i 1] by simp
qed

lemma inc_le64: "i < (x :: u64) \<Longrightarrow> i \<le> i + 1 \<and> i + 1 \<le> x \<and> i < i + 1"
  using unat_inc64 [of i x] by (simp add: word_le_nat_alt word_less_nat_alt)

text \<open>The measure of every \<^verbatim>\<open>for (uint64_t i = a; i < e; i++)\<close> loop.\<close>

lemma for_measure64: "i < (e :: u64) \<Longrightarrow> unat e - unat (i + 1) < unat e - unat i"
  using unat_inc64 [of i e] by (simp add: word_less_nat_alt)

lemma unat_mul64 [word_nat]:
  "unat (a :: u64) * unat b < 18446744073709551616 \<Longrightarrow> unat (a * b) = unat a * unat b"
  by (simp add: unat_word_ariths)

lemma unat_frame_addr: "unat (i :: u64) * 4096 < 18446744073709551616 \<Longrightarrow>
    unat (i * 0x1000) = unat i * 4096"
  using unat_mul64 [of i "0x1000"] by simp

lemma frame_addr_div: "unat (i :: u64) * 4096 < 18446744073709551616 \<Longrightarrow> i * 0x1000 div 0x1000 = i"
  unfolding word_unat_eq_iff unat_div_distrib by (simp add: unat_frame_addr)

text \<open>A bound on the value is a bound on the highest bit.\<close>

lemma not_bit_small:
  fixes w :: "'a::len word"
  assumes "unat w < 2 ^ n" "n \<le> k"
  shows "\<not> bit w k"
proof
  assume "bit w k"
  then have "bit (unat w) k" by (simp add: bit_unsigned_iff)
  moreover have "unat w < 2 ^ k"
    using assms less_le_trans [OF assms(1) power_increasing [OF assms(2), of "2 :: nat"]] by simp
  ultimately show False by (simp add: bit_iff_odd)
qed

lemma and_plus_and_not: "(x AND w) + (x AND NOT w) = (x :: 'a::len word)"
proof -
  have "(x AND w) + (x AND NOT w) = (x AND w) OR (x AND NOT w)"
    by (rule disjunctive_add) (simp add: bit_and_iff bit_not_iff)
  also have "\<dots> = x" by (rule bit_eqI) (auto simp: bit_and_iff bit_or_iff bit_not_iff)
  finally show ?thesis .
qed

lemma unat_and_mask: "unat (x AND mask n :: 'a::len word) = unat x mod 2 ^ n"
  by (simp only: take_bit_eq_mask [symmetric] unsigned_take_bit_eq) (simp add: take_bit_eq_mod)

text \<open>Conversions between 32 and 64 bits.\<close>

lemma unat_lt32: "unat (x :: u32) < 4294967296"
  using unsigned_less [of x] by simp

lemma unat_zext32 [simp]: "unat (ucast (x :: u32) :: u64) = unat x"
proof -
  have "unat x < 2 ^ 64" using unat_lt32 [of x] by simp
  then show ?thesis by (simp add: unsigned_ucast_eq take_bit_nat_eq_self)
qed

lemma unat_trunc32: "unat (x :: u64) < 4294967296 \<Longrightarrow> unat (ucast x :: u32) = unat x"
  by (simp add: unsigned_ucast_eq take_bit_nat_eq_self)

lemma unat_add32 [word_nat]:
  "unat (a :: u32) + unat b < 4294967296 \<Longrightarrow> unat (a + b) = unat a + unat b"
  by (simp add: unat_word_ariths)

lemma option_eqI_Some: "(\<And>f. x = Some f \<longleftrightarrow> y = Some f) \<Longrightarrow> x = y"
  by (metis not_Some_eq)

subsection \<open>Loads and stores\<close>

lemma length_load_bytes [simp]: "length (load_bytes m p n) = n"
  by (simp add: load_bytes_def)

lemma nth_load_bytes [simp]: "i < n \<Longrightarrow> load_bytes m p n ! i = m (p + of_nat i)"
  by (simp add: load_bytes_def)

lemma load_bytes_cong:
  "(\<And>i. i < n \<Longrightarrow> m (p + of_nat i) = m' (q + of_nat i)) \<Longrightarrow> load_bytes m p n = load_bytes m' q n"
  by (simp add: load_bytes_def)

lemma store_load_bytes [mem_simps]:
  "store_bytes m d (load_bytes m s n) =
     (\<lambda>a. if unat (a - d) < n then m (s + (a - d)) else m a)"
  by (rule ext) (simp add: store_bytes_def)

lemma store_bytes_Nil [simp]: "store_bytes m p [] = m"
  by (simp add: store_bytes_def)

lemma store_bytes_single [simp]: "store_bytes m p [b] = m(p := b)"
  by (rule ext) (auto simp: store_bytes_def unat_eq_zero)

end
