(* ===== verification/Mem_Ops.thy ===== *)
theory Mem_Ops
  imports Prelude
begin

text \<open>
  The memory primitives of \<^verbatim>\<open>kernel/src/memory.cpp\<close>: the higher-half address
  translation and every variant of \<^verbatim>\<open>memcpy\<close>, \<^verbatim>\<open>memmove\<close>, \<^verbatim>\<open>memset\<close> and
  \<^verbatim>\<open>memcmp\<close>. A vector or 64-bit load followed by a store of the same width is a
  chunk copy: all bytes of the chunk are read before one is written.
\<close>

subsection \<open>Address translation\<close>

text \<open>\<^verbatim>\<open>MEMORY_BASE\<close> is a global set at boot from the loader; it is a parameter here.\<close>

definition physical_to_virtual :: "u64 \<Rightarrow> u64 \<Rightarrow> u64" where
  "physical_to_virtual memory_base addr = addr + memory_base"

definition virtual_to_physical :: "u64 \<Rightarrow> u64 \<Rightarrow> u64" where
  "virtual_to_physical memory_base addr =
     (if addr \<ge> memory_base then addr - memory_base else addr)"

definition MMIO_BASE :: "u64 \<Rightarrow> u64" where
  "MMIO_BASE memory_base = memory_base + 0x200000000000"

definition HEAP_BASE :: "u64 \<Rightarrow> u64" where
  "HEAP_BASE memory_base = memory_base + 0x100000000000"

definition get_virtual_device_mmio_address :: "u64 \<Rightarrow> u64 \<Rightarrow> u64" where
  "get_virtual_device_mmio_address memory_base physical = MMIO_BASE memory_base + physical"

subsection \<open>memcmp\<close>

fun memcmp_loop :: "mem \<Rightarrow> addr \<Rightarrow> addr \<Rightarrow> nat \<Rightarrow> int" where
  "memcmp_loop m s1 s2 0 = 0"
| "memcmp_loop m s1 s2 (Suc n) =
     (if m s1 \<noteq> m s2 then (if m s1 < m s2 then -1 else 1)
      else memcmp_loop m (s1 + 1) (s2 + 1) n)"

definition memcmp :: "mem \<Rightarrow> addr \<Rightarrow> addr \<Rightarrow> u64 \<Rightarrow> int" where
  "memcmp m s1 s2 n = memcmp_loop m s1 s2 (unat n)"

subsection \<open>Copy loops\<close>

text \<open>\<^verbatim>\<open>while (n--) *d++ = *s++;\<close>\<close>

fun copy_bytes_up :: "addr \<Rightarrow> addr \<Rightarrow> nat \<Rightarrow> mem \<Rightarrow> mem" where
  "copy_bytes_up d s 0 m = m"
| "copy_bytes_up d s (Suc n) m = copy_bytes_up (d + 1) (s + 1) n (m(d := m s))"

text \<open>\<^verbatim>\<open>while (n--) *(--d) = *(--s);\<close>\<close>

fun copy_bytes_down :: "addr \<Rightarrow> addr \<Rightarrow> nat \<Rightarrow> mem \<Rightarrow> mem" where
  "copy_bytes_down d s 0 m = m"
| "copy_bytes_down d s (Suc n) m = copy_bytes_down (d - 1) (s - 1) n (m(d - 1 := m (s - 1)))"

text \<open>One load and one store of \<open>k\<close> bytes.\<close>

definition copy_chunk :: "nat \<Rightarrow> addr \<Rightarrow> addr \<Rightarrow> mem \<Rightarrow> mem" where
  "copy_chunk k d s m = store_bytes m d (load_bytes m s k)"

text \<open>
  The chunked loops, for the widths 8 (scalar), 16 (SSE), 32 (AVX) and 64 (AVX-512):
  whole chunks while at least one fits, then single bytes. (A width of 0 occurs nowhere in
  the code; the guard keeps the recursion total.)
\<close>

function copy_up :: "nat \<Rightarrow> addr \<Rightarrow> addr \<Rightarrow> nat \<Rightarrow> mem \<Rightarrow> mem" where
  "copy_up k d s n m =
     (if 0 < k \<and> k \<le> n
      then copy_up k (d + of_nat k) (s + of_nat k) (n - k) (copy_chunk k d s m)
      else copy_bytes_up d s n m)"
  by pat_completeness auto
termination
  by (relation "measure (\<lambda>(k, d, s, n, m). n)") auto

function copy_down :: "nat \<Rightarrow> addr \<Rightarrow> addr \<Rightarrow> nat \<Rightarrow> mem \<Rightarrow> mem" where
  "copy_down k d s n m =
     (if 0 < k \<and> k \<le> n
      then copy_down k (d - of_nat k) (s - of_nat k) (n - k)
             (copy_chunk k (d - of_nat k) (s - of_nat k) m)
      else copy_bytes_down d s n m)"
  by pat_completeness auto
termination
  by (relation "measure (\<lambda>(k, d, s, n, m). n)") auto

declare copy_up.simps [simp del] copy_down.simps [simp del]

subsection \<open>memcpy and memmove\<close>

definition memcpy_scalar :: "addr \<Rightarrow> addr \<Rightarrow> u64 \<Rightarrow> mem \<Rightarrow> mem" where
  "memcpy_scalar dest src n m = copy_up 8 dest src (unat n) m"

definition memcpy_sse :: "addr \<Rightarrow> addr \<Rightarrow> u64 \<Rightarrow> mem \<Rightarrow> mem" where
  "memcpy_sse dest src n m = copy_up 16 dest src (unat n) m"

definition memcpy_avx :: "addr \<Rightarrow> addr \<Rightarrow> u64 \<Rightarrow> mem \<Rightarrow> mem" where
  "memcpy_avx dest src n m = copy_up 32 dest src (unat n) m"

definition memcpy_avx512 :: "addr \<Rightarrow> addr \<Rightarrow> u64 \<Rightarrow> mem \<Rightarrow> mem" where
  "memcpy_avx512 dest src n m = copy_up 64 dest src (unat n) m"

definition memmove_scalar :: "addr \<Rightarrow> addr \<Rightarrow> u64 \<Rightarrow> mem \<Rightarrow> mem" where
  "memmove_scalar dest src n m =
     (if dest = src then m
      else if dest < src then memcpy_scalar dest src n m
      else copy_down 8 (dest + n) (src + n) (unat n) m)"

definition memmove_sse :: "addr \<Rightarrow> addr \<Rightarrow> u64 \<Rightarrow> mem \<Rightarrow> mem" where
  "memmove_sse dest src n m =
     (if dest = src then m
      else if dest < src then memcpy_sse dest src n m
      else copy_down 16 (dest + n) (src + n) (unat n) m)"

definition memmove_avx :: "addr \<Rightarrow> addr \<Rightarrow> u64 \<Rightarrow> mem \<Rightarrow> mem" where
  "memmove_avx dest src n m =
     (if dest = src then m
      else if dest < src then memcpy_avx dest src n m
      else copy_down 32 (dest + n) (src + n) (unat n) m)"

definition memmove_avx512 :: "addr \<Rightarrow> addr \<Rightarrow> u64 \<Rightarrow> mem \<Rightarrow> mem" where
  "memmove_avx512 dest src n m =
     (if dest = src then m
      else if dest < src then memcpy_avx512 dest src n m
      else copy_down 64 (dest + n) (src + n) (unat n) m)"

text \<open>The feature globals of \<^verbatim>\<open>cpu.h\<close> that the dispatchers test.\<close>

record cpu_features =
  is_sse_enabled :: bool
  is_avx_enabled :: bool
  is_avx2_enabled :: bool
  is_avx512_enabled :: bool

definition memcpy :: "cpu_features \<Rightarrow> addr \<Rightarrow> addr \<Rightarrow> u64 \<Rightarrow> mem \<Rightarrow> mem" where
  "memcpy cpu dest src n m =
     (if is_avx512_enabled cpu then memcpy_avx512 dest src n m
      else if is_avx_enabled cpu then memcpy_avx dest src n m
      else if is_sse_enabled cpu then memcpy_sse dest src n m
      else memcpy_scalar dest src n m)"

definition memmove :: "cpu_features \<Rightarrow> addr \<Rightarrow> addr \<Rightarrow> u64 \<Rightarrow> mem \<Rightarrow> mem" where
  "memmove cpu dest src n m =
     (if n < 64 then memmove_scalar dest src n m
      else if is_avx512_enabled cpu then memmove_avx512 dest src n m
      else if is_avx_enabled cpu then memmove_avx dest src n m
      else if is_sse_enabled cpu then memmove_sse dest src n m
      else memmove_scalar dest src n m)"

subsection \<open>memset\<close>

text \<open>\<^verbatim>\<open>while (num--) *p++ = (uint8_t)value;\<close>\<close>

fun fill_bytes :: "addr \<Rightarrow> u8 \<Rightarrow> nat \<Rightarrow> mem \<Rightarrow> mem" where
  "fill_bytes p v 0 m = m"
| "fill_bytes p v (Suc n) m = fill_bytes (p + 1) v n (m(p := v))"

text \<open>Whole vectors of \<open>k\<close> equal bytes while one fits, then single bytes.\<close>

function fill_up :: "nat \<Rightarrow> addr \<Rightarrow> u8 \<Rightarrow> nat \<Rightarrow> mem \<Rightarrow> mem" where
  "fill_up k p v n m =
     (if 0 < k \<and> k \<le> n
      then fill_up k (p + of_nat k) v (n - k) (store_bytes m p (replicate k v))
      else fill_bytes p v n m)"
  by pat_completeness auto
termination
  by (relation "measure (\<lambda>(k, p, v, n, m). n)") auto

declare fill_up.simps [simp del]

text \<open>\<^verbatim>\<open>int value\<close> is a 32-bit value; its vector variants store its low byte.\<close>

definition memset_sse :: "addr \<Rightarrow> u32 \<Rightarrow> u64 \<Rightarrow> mem \<Rightarrow> mem" where
  "memset_sse start value num m = fill_up 16 start (ucast value) (unat num) m"

definition memset_avx :: "addr \<Rightarrow> u32 \<Rightarrow> u64 \<Rightarrow> mem \<Rightarrow> mem" where
  "memset_avx start value num m = fill_up 32 start (ucast value) (unat num) m"

definition memset_avx2 :: "addr \<Rightarrow> u32 \<Rightarrow> u64 \<Rightarrow> mem \<Rightarrow> mem" where
  "memset_avx2 start value num m = fill_up 32 start (ucast value) (unat num) m"

definition memset_avx512 :: "addr \<Rightarrow> u32 \<Rightarrow> u64 \<Rightarrow> mem \<Rightarrow> mem" where
  "memset_avx512 start value num m = fill_up 64 start (ucast value) (unat num) m"

text \<open>The little-endian bytes of a 32-bit store.\<close>

definition le32 :: "u32 \<Rightarrow> u8 list" where
  "le32 v = [ucast v, ucast (drop_bit 8 v), ucast (drop_bit 16 v), ucast (drop_bit 24 v)]"

text \<open>
  The scalar fallback stores \<^verbatim>\<open>value\<close> itself as a 32-bit word and, in the tail, the low
  byte of \<^verbatim>\<open>value & (0xFFL << (i % 4))\<close>: the shift is by bits, not bytes.
\<close>

function memset_scalar_loop :: "addr \<Rightarrow> u32 \<Rightarrow> nat \<Rightarrow> nat \<Rightarrow> mem \<Rightarrow> mem" where
  "memset_scalar_loop start value num i m =
     (if i < num then
        if 4 \<le> num - i
        then memset_scalar_loop start value num (i + 4)
               (store_bytes m (start + of_nat i) (le32 value))
        else memset_scalar_loop start value num (i + 1)
               (m(start + of_nat i := ucast ((scast value :: u64) AND push_bit (i mod 4) 0xFF)))
      else m)"
  by pat_completeness auto
termination
  by (relation "measure (\<lambda>(start, value, num, i, m). num - i)") auto

declare memset_scalar_loop.simps [simp del]

definition memset_scalar :: "addr \<Rightarrow> u32 \<Rightarrow> u64 \<Rightarrow> mem \<Rightarrow> mem" where
  "memset_scalar start value num m = memset_scalar_loop start value (unat num) 0 m"

definition memset :: "cpu_features \<Rightarrow> addr \<Rightarrow> u32 \<Rightarrow> u64 \<Rightarrow> mem \<Rightarrow> mem" where
  "memset cpu start value num m =
     (if is_avx512_enabled cpu then memset_avx512 start value num m
      else if is_avx2_enabled cpu then memset_avx2 start value num m
      else if is_avx_enabled cpu then memset_avx start value num m
      else if is_sse_enabled cpu then memset_sse start value num m
      else memset_scalar start value num m)"

subsection \<open>What a copy should do\<close>

text \<open>
  The specification: the bytes of the source, as they were before the call, at the
  destination, and nothing else changed.
\<close>

definition mem_copy :: "addr \<Rightarrow> addr \<Rightarrow> nat \<Rightarrow> mem \<Rightarrow> mem" where
  "mem_copy d s n m = (\<lambda>a. if unat (a - d) < n then m (s + (a - d)) else m a)"

definition mem_fill :: "addr \<Rightarrow> u8 \<Rightarrow> nat \<Rightarrow> mem \<Rightarrow> mem" where
  "mem_fill d v n m = (\<lambda>a. if unat (a - d) < n then v else m a)"

text \<open>
  Copying upwards is safe when no byte is written before it is read: the destination does
  not start inside the source (behind its first byte). Downwards: the reverse.
\<close>

definition up_ok :: "addr \<Rightarrow> addr \<Rightarrow> nat \<Rightarrow> bool" where
  "up_ok d s n \<longleftrightarrow> d = s \<or> n \<le> unat (d - s)"

lemma copy_chunk_mem_copy: "copy_chunk k d s m = mem_copy d s k m"
  by (simp add: copy_chunk_def mem_copy_def store_load_bytes)

lemma mem_copy_0 [simp]: "mem_copy d s 0 m = m"
  by (simp add: mem_copy_def)

lemma mem_copy_1: "mem_copy d s (Suc 0) m = m(d := m s)"
  by (rule ext) (auto simp: mem_copy_def unat_eq_zero)

lemma mem_copy_self [simp]: "mem_copy d d n m = m"
  by (rule ext) (simp add: mem_copy_def)

lemma unat_sub_add64:
  assumes "k < 18446744073709551616"
  shows "unat ((a :: u64) - (d + of_nat k)) =
    (if k \<le> unat (a - d) then unat (a - d) - k else 18446744073709551616 + unat (a - d) - k)"
proof -
  have "a - (d + of_nat k) = (a - d) - of_nat k" by simp
  then show ?thesis using assms by (simp only: unat_diff64 unat_of_nat64)
qed

text \<open>The two splitting lemmas carry every copy loop.\<close>

lemma mem_copy_split_up:
  assumes "k \<le> n" "n < 18446744073709551616" "up_ok d s n"
  shows "mem_copy (d + of_nat k) (s + of_nat k) (n - k) (mem_copy d s k m) = mem_copy d s n m"
proof (cases "d = s")
  case True
  then show ?thesis by simp
next
  case False
  with assms have ds: "n \<le> unat (d - s)" by (simp add: up_ok_def)
  show ?thesis
  proof (rule ext)
    fix a
    define x where "x = unat (a - d)"
    have k: "k < 18446744073709551616" using assms by simp
    have src: "s + of_nat k + (a - (d + of_nat k)) = s + (a - d)" by simp
    have y: "unat (s + (a - d) - d) = (if unat (d - s) \<le> x then x - unat (d - s)
        else 18446744073709551616 + x - unat (d - s))"
    proof -
      have "s + (a - d) - d = (a - d) - (d - s)" by simp
      then show ?thesis by (simp only: unat_diff64 x_def)
    qed
    define g where "g = unat (d - s)"
    have b: "x < 18446744073709551616" "g < 18446744073709551616" "n \<le> g"
      using ds by (simp_all only: x_def g_def unat_lt64)
    have far: "\<not> unat (s + (a - d) - d) < k" if "k \<le> x" "x < n"
      unfolding y g_def [symmetric] using b assms(1) that by simp
    show "mem_copy (d + of_nat k) (s + of_nat k) (n - k) (mem_copy d s k m) a
        = mem_copy d s n m a"
    proof (cases "k \<le> x")
      case True
      then have "x - k < n - k \<longleftrightarrow> x < n" using assms(1) by linarith
      then show ?thesis
        unfolding mem_copy_def src unat_sub_add64 [OF k] x_def [symmetric]
        using True far by simp
    next
      case False
      then have "\<not> 18446744073709551616 + x - k < n - k" using assms(1,2) by linarith
      then show ?thesis
        unfolding mem_copy_def src unat_sub_add64 [OF k] x_def [symmetric]
        using False assms(1) by simp
    qed
  qed
qed

lemma mem_copy_split_down:
  assumes "k \<le> n" "n < 18446744073709551616" "up_ok s d n"
  shows "mem_copy d s (n - k) (mem_copy (d + of_nat (n - k)) (s + of_nat (n - k)) k m)
    = mem_copy d s n m"
proof (cases "d = s")
  case True
  then show ?thesis by simp
next
  case False
  with assms have ds: "n \<le> unat (s - d)" by (simp add: up_ok_def)
  define j where "j = n - k"
  show ?thesis
  proof (rule ext)
    fix a
    define x where "x = unat (a - d)"
    have j: "j < 18446744073709551616" using assms by (simp add: j_def)
    have src: "s + of_nat j + (a - (d + of_nat j)) = s + (a - d)" for a by simp
    have y: "unat (s + (a - d) - d) = (if x + unat (s - d) < 18446744073709551616
        then x + unat (s - d) else x + unat (s - d) - 18446744073709551616)"
    proof -
      have "s + (a - d) - d = (a - d) + (s - d)" by simp
      then show ?thesis by (simp only: unat_plus64 x_def)
    qed
    define g where "g = unat (s - d)"
    have b: "x < 18446744073709551616" "g < 18446744073709551616" "n \<le> g"
      using ds by (simp_all only: x_def g_def unat_lt64)
    have far: "\<not> (j \<le> unat (s + (a - d) - d) \<and> unat (s + (a - d) - d) - j < k)"
      if "x < j"
    proof (cases "x + g < 18446744073709551616")
      case True
      then have "unat (s + (a - d) - d) = x + g" using y by (simp only: g_def if_True)
      then show ?thesis using b assms(1) j_def by linarith
    next
      case False
      then have "unat (s + (a - d) - d) = x + g - 18446744073709551616"
        using y by (simp only: g_def if_False)
      then show ?thesis using b that False by linarith
    qed
    have near: "\<not> (\<not> j \<le> unat (s + (a - d) - d) \<and>
        18446744073709551616 + unat (s + (a - d) - d) - j < k)"
      using assms(1,2) j_def by linarith
    show "mem_copy d s (n - k) (mem_copy (d + of_nat (n - k)) (s + of_nat (n - k)) k m) a
        = mem_copy d s n m a"
    proof (cases "x < j")
      case True
      then have "x < n" by (simp add: j_def)
      with True far near show ?thesis
        unfolding j_def [symmetric] mem_copy_def src unat_sub_add64 [OF j] x_def [symmetric]
        by auto
    next
      case False
      then have "x - j < k \<longleftrightarrow> x < n" using assms(1) j_def by linarith
      with False show ?thesis
        unfolding j_def [symmetric] mem_copy_def src unat_sub_add64 [OF j] x_def [symmetric]
        by simp
    qed
  qed
qed

lemma up_ok_shift: "up_ok d s n \<Longrightarrow> up_ok (d + c) (s + c) (n - k)"
  by (auto simp: up_ok_def)

lemma up_ok_unshift: "up_ok s d n \<Longrightarrow> up_ok (s - c) (d - c) (n - k)"
  by (auto simp: up_ok_def)

lemma copy_bytes_up_mem_copy:
  "n < 18446744073709551616 \<Longrightarrow> up_ok d s n \<Longrightarrow> copy_bytes_up d s n m = mem_copy d s n m"
proof (induction n arbitrary: d s m)
  case (Suc n)
  have "copy_bytes_up (d + 1) (s + 1) n (m(d := m s))
      = mem_copy (d + 1) (s + 1) n (mem_copy d s 1 m)"
    using Suc.prems up_ok_shift [of d s "Suc n" 1 1] by (simp add: Suc.IH mem_copy_1 fun_upd_def)
  also have "\<dots> = mem_copy d s (Suc n) m"
    using mem_copy_split_up [of 1 "Suc n" d s m] Suc.prems by simp
  finally show ?case by simp
qed simp

lemma copy_bytes_down_mem_copy:
  "n < 18446744073709551616 \<Longrightarrow> up_ok s d n \<Longrightarrow>
     copy_bytes_down d s n m = mem_copy (d - of_nat n) (s - of_nat n) n m"
proof (induction n arbitrary: d s m)
  case (Suc n)
  have "copy_bytes_down (d - 1) (s - 1) n (m(d - 1 := m (s - 1)))
      = mem_copy (d - 1 - of_nat n) (s - 1 - of_nat n) n (mem_copy (d - 1) (s - 1) 1 m)"
    using Suc.prems up_ok_unshift [of s d "Suc n" 1 1] by (simp add: Suc.IH mem_copy_1 fun_upd_def)
  also have "\<dots> = mem_copy (d - 1 - of_nat n) (s - 1 - of_nat n) (Suc n) m"
    using mem_copy_split_down [of 1 "Suc n" "s - 1 - of_nat n" "d - 1 - of_nat n" m] Suc.prems
    by (simp add: up_ok_def)
  finally show ?case by (simp add: algebra_simps)
qed simp

lemma copy_up_mem_copy:
  "n < 18446744073709551616 \<Longrightarrow> up_ok d s n \<Longrightarrow> copy_up k d s n m = mem_copy d s n m"
proof (induction k d s n m rule: copy_up.induct)
  case (1 k d s n m)
  show ?case
  proof (cases "0 < k \<and> k \<le> n")
    case True
    then have "copy_up k d s n m
        = mem_copy (d + of_nat k) (s + of_nat k) (n - k) (mem_copy d s k m)"
      using "1.IH" "1.prems" up_ok_shift [of d s n "of_nat k" k]
      by (simp add: copy_up.simps [of k d s n m] copy_chunk_mem_copy)
    then show ?thesis using mem_copy_split_up [of k n d s m] True "1.prems" by simp
  next
    case False
    then show ?thesis using "1.prems"
      by (auto simp: copy_up.simps [of k d s n m] copy_bytes_up_mem_copy)
  qed
qed

lemma copy_down_mem_copy:
  "n < 18446744073709551616 \<Longrightarrow> up_ok s d n \<Longrightarrow>
     copy_down k d s n m = mem_copy (d - of_nat n) (s - of_nat n) n m"
proof (induction k d s n m rule: copy_down.induct)
  case (1 k d s n m)
  show ?case
  proof (cases "0 < k \<and> k \<le> n")
    case True
    then have "copy_down k d s n m = mem_copy (d - of_nat k - of_nat (n - k))
        (s - of_nat k - of_nat (n - k)) (n - k) (mem_copy (d - of_nat k) (s - of_nat k) k m)"
      using "1.IH" "1.prems" up_ok_unshift [of s d n "of_nat k" k]
      by (simp add: copy_down.simps [of k d s n m] copy_chunk_mem_copy)
    then show ?thesis
      using mem_copy_split_down [of k n "s - of_nat n" "d - of_nat n" m] True "1.prems"
        up_ok_unshift [of s d n "of_nat n" 0]
      by (simp add: of_nat_diff)
  next
    case False
    then show ?thesis using "1.prems"
      by (auto simp: copy_down.simps [of k d s n m] copy_bytes_down_mem_copy)
  qed
qed

subsection \<open>Correctness of the dispatchers\<close>

text \<open>Pointers whose regions do not wrap around the address space.\<close>

definition no_wrap :: "addr \<Rightarrow> u64 \<Rightarrow> bool" where
  "no_wrap p n \<longleftrightarrow> unat p + unat n \<le> 18446744073709551616"

definition disjoint_regions :: "addr \<Rightarrow> addr \<Rightarrow> u64 \<Rightarrow> bool" where
  "disjoint_regions d s n \<longleftrightarrow> unat d + unat n \<le> unat s \<or> unat s + unat n \<le> unat d"

lemma below_up_ok: "d < s \<Longrightarrow> no_wrap s n \<Longrightarrow> up_ok d s (unat n)"
  using unat_lt64 [of d]
  unfolding up_ok_def no_wrap_def unat_diff64 word_less_nat_alt by auto

lemma disjoint_up_ok: "disjoint_regions d s n \<Longrightarrow> no_wrap s n \<Longrightarrow> up_ok d s (unat n)"
  unfolding up_ok_def no_wrap_def unat_diff64 disjoint_regions_def by auto

lemmas memcpy_variants = memcpy_scalar_def memcpy_sse_def memcpy_avx_def memcpy_avx512_def
lemmas memmove_variants =
  memmove_scalar_def memmove_sse_def memmove_avx_def memmove_avx512_def

lemma memcpy_mem_copy: "up_ok d s (unat n) \<Longrightarrow> memcpy cpu d s n m = mem_copy d s (unat n) m"
  by (simp add: memcpy_def memcpy_variants copy_up_mem_copy)

lemma copy_down_region:
  "s < d \<Longrightarrow> no_wrap d n \<Longrightarrow>
     copy_down k (d + n) (s + n) (unat n) m = mem_copy d s (unat n) m"
  using copy_down_mem_copy [of "unat n" "s + n" "d + n" k m]
    up_ok_shift [OF below_up_ok [of s d n], of n 0]
  by simp

lemma memmove_mem_copy:
  assumes "no_wrap d n" "no_wrap s n"
  shows "memmove cpu d s n m = mem_copy d s (unat n) m"
proof (cases d s rule: linorder_cases)
  case less
  then show ?thesis using below_up_ok [OF less assms(2)]
    by (simp add: memmove_def memmove_variants memcpy_variants copy_up_mem_copy)
next
  case equal
  then show ?thesis by (simp add: memmove_def memmove_variants)
next
  case greater
  then show ?thesis using copy_down_region [OF greater assms(1)]
    by (simp add: memmove_def memmove_variants less_not_sym)
qed

lemma mem_copy_load: "n < 18446744073709551616 \<Longrightarrow>
    load_bytes (mem_copy d s n m) d n = load_bytes m s n"
  by (rule load_bytes_cong) (simp add: mem_copy_def unat_of_nat64)

lemma load_bytes_append:
  "load_bytes m p (i + j) = load_bytes m p i @ load_bytes m (p + of_nat i) j"
proof (rule nth_equalityI)
  fix l assume l: "l < length (load_bytes m p (i + j))"
  have "of_nat i + of_nat (l - i) = (of_nat l :: u64)" if "\<not> l < i"
    using that by (simp flip: of_nat_add)
  then show "load_bytes m p (i + j) ! l = (load_bytes m p i @ load_bytes m (p + of_nat i) j) ! l"
    using l by (auto simp: nth_append add.assoc)
qed simp

lemma load_mem_copy_other:
  assumes "unat d + n \<le> unat p \<or> unat p + k \<le> unat d" "unat d + n \<le> 18446744073709551616"
    and "unat p + k \<le> 18446744073709551616"
  shows "load_bytes (mem_copy d s n m) p k = load_bytes m p k"
proof (rule load_bytes_cong)
  fix i assume i: "i < k"
  have p: "unat (p + of_nat i) = unat p + i"
    using i assms(3) by (subst unat_plus64) (simp add: unat_of_nat64)
  have "\<not> unat (p + of_nat i - d) < n"
    unfolding unat_diff64 p using assms i unat_lt64 [of d] by auto
  then show "mem_copy d s n m (p + of_nat i) = m (p + of_nat i)" by (simp add: mem_copy_def)
qed

lemma store_bytes_append:
  assumes "length xs + length ys \<le> 18446744073709551616"
  shows "store_bytes (store_bytes m p xs) (p + of_nat (length xs)) ys = store_bytes m p (xs @ ys)"
proof (cases "length xs < 18446744073709551616")
  case True
  show ?thesis
    using assms by (auto simp: store_bytes_def fun_eq_iff unat_sub_add64 [OF True] nth_append)
next
  case False
  then have "length ys = 0" using assms by linarith
  then show ?thesis by simp
qed

lemma load_stored: "length bs \<le> 18446744073709551616 \<Longrightarrow> load_bytes (store_bytes m p bs) p (length bs) = bs"
  by (rule nth_equalityI) (simp_all add: store_bytes_def unat_of_nat64)

subsection \<open>Words as bytes\<close>

text \<open>The bytes of a word, lowest first, and back.\<close>

definition le_bytes :: "nat \<Rightarrow> 'a::len word \<Rightarrow> u8 list" where
  "le_bytes n w = map (\<lambda>i. ucast (drop_bit (8 * i) w)) [0..<n]"

fun le_word :: "u8 list \<Rightarrow> 'a::len word" where
  "le_word [] = 0"
| "le_word (b # bs) = ucast b OR push_bit 8 (le_word bs)"

lemma bit_le_word:
  "bit (le_word bs :: 'a::len word) i \<longleftrightarrow> i < LENGTH('a) \<and> i div 8 < length bs \<and> bit (bs ! (i div 8)) (i mod 8)"
proof (induction bs arbitrary: i)
  case (Cons b bs)
  show ?case
  proof (cases "i < 8")
    case True
    then show ?thesis by (simp add: bit_or_iff bit_push_bit_iff bit_unsigned_iff)
  next
    case False
    then have "i div 8 = Suc ((i - 8) div 8)" "(i - 8) mod 8 = i mod 8"
      by (simp_all add: le_div_geq le_mod_geq)
    moreover have "\<not> bit b i" using False not_bit_small [of b 8 i] unsigned_less [of b] by simp
    ultimately show ?thesis using False
      by (auto simp: bit_or_iff bit_push_bit_iff bit_unsigned_iff Cons.IH)
  qed
qed simp

lemma le_bytes_word:
  assumes "length bs = n" "8 * n \<le> LENGTH('a::len)"
  shows "le_bytes n (le_word bs :: 'a word) = bs"
proof (rule nth_equalityI)
  fix i assume i: "i < length (le_bytes n (le_word bs :: 'a word))"
  then have i: "i < n" by (simp add: le_bytes_def)
  have "bit (ucast (drop_bit (8 * i) (le_word bs :: 'a word)) :: u8) k = bit (bs ! i) k" if "k < 8" for k
  proof -
    have "8 * i + k < LENGTH('a)" using i that assms(2) by linarith
    then show ?thesis using that i assms(1)
      by (simp add: bit_unsigned_iff bit_drop_bit_eq bit_le_word)
  qed
  then have "(ucast (drop_bit (8 * i) (le_word bs :: 'a word)) :: u8) = bs ! i"
    by (intro bit_eqI) simp
  then show "le_bytes n (le_word bs :: 'a word) ! i = bs ! i" using i by (simp add: le_bytes_def)
qed (simp add: le_bytes_def assms)

subsection \<open>memset\<close>

lemma mem_fill_0 [simp]: "mem_fill d v 0 m = m"
  by (simp add: mem_fill_def)

lemma mem_fill_1: "m(d := v) = mem_fill d v (Suc 0) m"
  by (rule ext) (auto simp: mem_fill_def unat_eq_zero)

lemma store_replicate: "store_bytes m d (replicate k v) = mem_fill d v k m"
  by (rule ext) (simp add: store_bytes_def mem_fill_def)

lemma mem_fill_split:
  assumes "k \<le> n" "n < 18446744073709551616"
  shows "mem_fill (d + of_nat k) v (n - k) (mem_fill d v k m) = mem_fill d v n m"
proof (rule ext)
  fix a
  define x where "x = unat (a - d)"
  have k: "k < 18446744073709551616" using assms by simp
  show "mem_fill (d + of_nat k) v (n - k) (mem_fill d v k m) a = mem_fill d v n m a"
    using assms unfolding mem_fill_def unat_sub_add64 [OF k] x_def [symmetric] by auto
qed

lemma fill_bytes_mem_fill:
  "n < 18446744073709551616 \<Longrightarrow> fill_bytes d v n m = mem_fill d v n m"
proof (induction n arbitrary: d m)
  case (Suc n)
  then show ?case using mem_fill_split [of 1 "Suc n" d v m]
    by (simp add: mem_fill_1 del: fun_upd_apply)
qed simp

lemma fill_up_mem_fill:
  "n < 18446744073709551616 \<Longrightarrow> fill_up k d v n m = mem_fill d v n m"
proof (induction k d v n m rule: fill_up.induct)
  case (1 k d v n m)
  then show ?case using mem_fill_split [of k n d v m]
    by (simp add: fill_up.simps [of k d v n m] fill_bytes_mem_fill store_replicate)
qed

lemmas memset_variants = memset_sse_def memset_avx_def memset_avx2_def memset_avx512_def

text \<open>What the scalar fallback stores at offset \<open>j\<close> of \<open>num\<close>.\<close>

definition scalar_fill_byte :: "u32 \<Rightarrow> nat \<Rightarrow> nat \<Rightarrow> u8" where
  "scalar_fill_byte v num j =
     (if j - j mod 4 + 4 \<le> num then le32 v ! (j mod 4)
      else ucast ((scast v :: u64) AND push_bit (j mod 4) 0xFF))"

lemma scalar_word_byte:
  assumes "i mod 4 = 0" "i + 4 \<le> num" "i \<le> x" "x < i + 4"
  shows "scalar_fill_byte v num x = le32 v ! (x - i)"
proof -
  obtain q where q: "i = 4 * q" using assms(1) by (auto simp: mod_eq_0_iff_dvd)
  define r where "r = x - i"
  have "x = 4 * q + r" "r < 4" using assms q by (auto simp: r_def)
  moreover have "4 * q + 4 \<le> num" using assms q by linarith
  ultimately show ?thesis using q by (simp add: scalar_fill_byte_def)
qed

lemma scalar_tail_byte:
  assumes "num - num mod 4 \<le> i" "i < num"
  shows "scalar_fill_byte v num i = ucast ((scast v :: u64) AND push_bit (i mod 4) 0xFF)"
proof -
  define q where "q = num div 4"
  have q: "num = 4 * q + num mod 4" by (simp add: q_def)
  have "num mod 4 < 4" by simp
  with q assms have "i div 4 = q" by linarith
  then have "i - i mod 4 = 4 * q" using minus_mod_eq_mult_div [of i 4] by simp
  then have "\<not> i - i mod 4 + 4 \<le> num" using q \<open>num mod 4 < 4\<close> by linarith
  then show ?thesis by (simp add: scalar_fill_byte_def)
qed

lemma store_le32:
  assumes "i + 4 < 18446744073709551616"
  shows "store_bytes m (start + of_nat i) (le32 v) a =
    (if i \<le> unat (a - start) \<and> unat (a - start) < i + 4 then le32 v ! (unat (a - start) - i)
     else m a)"
proof -
  define x where "x = unat (a - start)"
  have i: "i < 18446744073709551616" using assms by simp
  have "x < 18446744073709551616" unfolding x_def by (rule unat_lt64)
  then show ?thesis
    using assms unfolding store_bytes_def unat_sub_add64 [OF i] x_def [symmetric]
    by (auto simp: le32_def)
qed

lemma offset_eq_iff:
  assumes "i < 18446744073709551616"
  shows "(a :: u64) = start + of_nat i \<longleftrightarrow> unat (a - start) = i"
proof
  assume "unat (a - start) = i"
  then have "of_nat (unat (a - start)) = (of_nat i :: u64)" by simp
  then show "a = start + of_nat i" by (simp add: algebra_simps)
qed (simp add: assms unat_of_nat64)

text \<open>The loop from index \<open>i\<close>, which is a word boundary or already in the tail.\<close>

definition scalar_index_ok :: "nat \<Rightarrow> nat \<Rightarrow> bool" where
  "scalar_index_ok num i \<longleftrightarrow> i \<le> num \<and> (i mod 4 = 0 \<or> num - num mod 4 \<le> i)"

lemma scalar_index_word:
  assumes "scalar_index_ok num i" "i + 4 \<le> num"
  shows "i mod 4 = 0"
proof -
  have "num mod 4 < 4" by simp
  then have "\<not> num - num mod 4 \<le> i" using assms(2) by linarith
  then show ?thesis using assms(1) by (simp add: scalar_index_ok_def)
qed

lemma scalar_index_tail:
  assumes "scalar_index_ok num i" "\<not> i + 4 \<le> num"
  shows "num - num mod 4 \<le> i"
proof -
  have "num - num mod 4 \<le> i" if "i mod 4 = 0"
  proof -
    have i: "i = 4 * (i div 4)" using that by presburger
    have "num div 4 \<le> (4 * (i div 4) + 3) div 4" using assms(2) i by (intro div_le_mono) linarith
    then have "num div 4 \<le> i div 4" by simp
    then show ?thesis using i minus_mod_eq_mult_div [of num 4] by linarith
  qed
  then show ?thesis using assms(1) by (auto simp: scalar_index_ok_def)
qed

lemma memset_scalar_loop_eq:
  "num < 18446744073709551616 \<Longrightarrow> scalar_index_ok num i \<Longrightarrow>
   memset_scalar_loop start v num i m =
     (\<lambda>a. if i \<le> unat (a - start) \<and> unat (a - start) < num
          then scalar_fill_byte v num (unat (a - start)) else m a)"
proof (induction start v num i m rule: memset_scalar_loop.induct)
  case (1 start v num i m)
  note unfold = memset_scalar_loop.simps [of start v num i m]
  consider (stop) "\<not> i < num" | (word) "i + 4 \<le> num" | (byte) "i < num" "\<not> i + 4 \<le> num"
    by linarith
  then show ?case
  proof cases
    case stop
    then show ?thesis by (intro ext) (auto simp: unfold)
  next
    case word
    have i: "i mod 4 = 0" "i + 4 < 18446744073709551616"
      using scalar_index_word [OF "1.prems"(2) word] "1.prems" word by auto
    have IH: "memset_scalar_loop start v num (i + 4) (store_bytes m (start + of_nat i) (le32 v)) =
       (\<lambda>a. if i + 4 \<le> unat (a - start) \<and> unat (a - start) < num
          then scalar_fill_byte v num (unat (a - start))
          else store_bytes m (start + of_nat i) (le32 v) a)"
      using word "1.prems" i by (intro "1.IH"(1)) (auto simp: scalar_index_ok_def)
    show ?thesis
      using word scalar_word_byte [OF i(1) word]
      by (intro ext) (auto simp: unfold IH store_le32 [OF i(2)])
  next
    case byte
    have i: "i < 18446744073709551616" using "1.prems" byte by simp
    have tail: "num - num mod 4 \<le> i" by (rule scalar_index_tail [OF "1.prems"(2) byte(2)])
    have IH: "memset_scalar_loop start v num (Suc i)
         (m(start + of_nat i := ucast ((scast v :: u64) AND push_bit (i mod 4) 0xFF))) =
       (\<lambda>a. if i + 1 \<le> unat (a - start) \<and> unat (a - start) < num
          then scalar_fill_byte v num (unat (a - start))
          else (m(start + of_nat i := ucast ((scast v :: u64) AND push_bit (i mod 4) 0xFF))) a)"
      using byte "1.prems" tail "1.IH"(2) by (simp add: scalar_index_ok_def fun_upd_def)
    show ?thesis
      using byte scalar_tail_byte [OF tail byte(1), of v]
      by (intro ext) (auto simp: unfold IH offset_eq_iff [OF i])
  qed
qed

lemma memset_scalar_eq:
  "memset_scalar start v num m =
     (\<lambda>a. if unat (a - start) < unat num
          then scalar_fill_byte v (unat num) (unat (a - start)) else m a)"
  unfolding memset_scalar_def by (subst memset_scalar_loop_eq) (simp_all add: scalar_index_ok_def)

lemma scalar_fill_byte_0: "scalar_fill_byte 0 num j = 0"
proof -
  have "j mod 4 \<in> {0, 1, 2, 3}" by auto
  then show ?thesis by (auto simp: scalar_fill_byte_def le32_def)
qed

lemma memset_mem_fill:
  "is_sse_enabled cpu \<or> is_avx_enabled cpu \<or> is_avx2_enabled cpu \<or> is_avx512_enabled cpu \<or> v = 0 \<Longrightarrow>
   memset cpu start v num m = mem_fill start (ucast v) (unat num) m"
  by (auto simp: memset_def memset_variants fill_up_mem_fill memset_scalar_eq
      scalar_fill_byte_0 mem_fill_def)

subsection \<open>Properties\<close>

text \<open>C1: For every combination of CPU features and every pair of regions that stay inside the
  address space, overlapping or not, \<^verbatim>\<open>memmove\<close> leaves at the destination exactly the bytes
  the source held before the call, and changes no other byte.\<close>

theorem memmove_correct:
  assumes "no_wrap dest n" and "no_wrap src n"
  shows "memmove cpu dest src n m =
    (\<lambda>a. if unat (a - dest) < unat n then m (src + (a - dest)) else m a)"
  using memmove_mem_copy [OF assms] by (simp add: mem_copy_def)

theorem memmove_correct_witness:
  "memmove \<lparr>is_sse_enabled = False, is_avx_enabled = False, is_avx2_enabled = False,
      is_avx512_enabled = False\<rparr> 2 0 4 (\<lambda>a. ucast a) 5 = 3"
proof -
  have "no_wrap 2 4" "no_wrap 0 4" by (simp_all add: no_wrap_def)
  then show ?thesis by (simp add: memmove_correct)
qed

text \<open>With any vector extension, \<^verbatim>\<open>memset\<close> fills exactly its region with the low
  byte of the value. Without one, the byte at offset \<open>j\<close> is byte \<open>j mod 4\<close> of the
  32-bit value (and, in a tail of less than four bytes, the value with its low \<open>j mod 4\<close>
  bits cleared), so the fallback is a byte fill for the value 0 and for it only in general.\<close>

theorem memset_correct:
  "memset cpu start value num m =
     (\<lambda>a. if unat (a - start) < unat num
          then if is_sse_enabled cpu \<or> is_avx_enabled cpu \<or> is_avx2_enabled cpu \<or> is_avx512_enabled cpu
               then ucast value
               else if value = 0 then 0
               else scalar_fill_byte value (unat num) (unat (a - start))
          else m a)"
proof (cases "is_sse_enabled cpu \<or> is_avx_enabled cpu \<or> is_avx2_enabled cpu \<or>
    is_avx512_enabled cpu \<or> value = 0")
  case True
  then show ?thesis using memset_mem_fill [OF True] by (auto simp: mem_fill_def)
next
  case False
  then show ?thesis by (intro ext) (simp add: memset_def memset_scalar_eq)
qed

text \<open>
  The scalar fallback is not a byte fill: of a value 1 it stores the bytes 1, 0, 0, 0.
\<close>

lemma memset_scalar_not_fill:
  "load_bytes (memset \<lparr>is_sse_enabled = False, is_avx_enabled = False, is_avx2_enabled = False,
      is_avx512_enabled = False\<rparr> 0 1 5 (\<lambda>a. 7)) 0 6 = [1, 0, 0, 0, 1, 7]"
  by (simp add: memset_def memset_scalar_eq load_bytes_def scalar_fill_byte_def le32_def
      upt_rec scast_eq)

end
