(* ===== verification/Page_Frames.thy ===== *)
theory Page_Frames
  imports Mem_Ops
begin

text \<open>
  The physical frame allocator of \<^verbatim>\<open>kernel/src/paging/PageFrameAllocator.cpp\<close>: one
  \<^verbatim>\<open>page_struct\<close> per 4 KiB frame with a lock bit and a reference count, byte counters for
  free, used and reserved memory, first-fit allocation of one frame or of a run of frames,
  and reference counting that frees a frame. Each operation runs under the allocator's
  spinlock with interrupts off, so it is one step of the model (the lock itself is the
  subject of the synchronisation theory); \<^verbatim>\<open>MEMORY_BASE\<close> is the parameter \<open>mb\<close>.
\<close>

subsection \<open>State\<close>

record page_struct =
  reference_count :: u8
  page_flags :: u8

definition PAGE_FLAGS_LOCKED :: u8 where
  "PAGE_FLAGS_LOCKED = 1"

text \<open>
  The table is indexed by frame number. Only the entries below \<open>total_pages\<close> belong to it;
  the bounds checks of the code let the index \<open>total_pages\<close> through, so that entry is the
  memory right behind the table.
\<close>

record pfa =
  total_memory :: u64
  free_memory :: u64
  used_memory :: u64
  reserved_memory :: u64
  total_pages :: u64
  last_free_index :: u64
  page_table :: "u64 \<Rightarrow> page_struct"

text \<open>The address of a call is physical or, from \<^verbatim>\<open>MEMORY_BASE\<close> on, virtual.\<close>

definition page_index :: "u64 \<Rightarrow> u64 \<Rightarrow> u64" where
  "page_index mb page =
     (if page \<ge> mb then virtual_to_physical mb page else page) div 0x1000"

subsection \<open>Lock bits\<close>

definition LockPage :: "u64 \<Rightarrow> u64 \<Rightarrow> pfa \<Rightarrow> bool \<times> pfa" where
  "LockPage mb page s =
     (let i = page_index mb page in
      if i > total_pages s then (False, s)
      else (True, s\<lparr>page_table := (page_table s)(i :=
              (page_table s i)\<lparr>page_flags := page_flags (page_table s i) OR PAGE_FLAGS_LOCKED\<rparr>)\<rparr>))"

definition UnlockPage :: "u64 \<Rightarrow> u64 \<Rightarrow> pfa \<Rightarrow> bool \<times> pfa" where
  "UnlockPage mb page s =
     (let i = page_index mb page in
      if i > total_pages s then (False, s)
      else (True, s\<lparr>page_table := (page_table s)(i :=
              (page_table s i)\<lparr>page_flags := page_flags (page_table s i) AND NOT PAGE_FLAGS_LOCKED\<rparr>)\<rparr>))"

definition IsLocked :: "u64 \<Rightarrow> u64 \<Rightarrow> pfa \<Rightarrow> bool" where
  "IsLocked mb page s =
     (let i = page_index mb page in
      if i > total_pages s then False
      else page_flags (page_table s i) AND PAGE_FLAGS_LOCKED \<noteq> 0)"

text \<open>The loops stop at the first frame that is out of bounds, with the frames before it done.\<close>

fun LockPages :: "u64 \<Rightarrow> u64 \<Rightarrow> nat \<Rightarrow> pfa \<Rightarrow> bool \<times> pfa" where
  "LockPages mb page 0 s = (True, s)"
| "LockPages mb page (Suc n) s =
     (case LockPage mb page s of
        (False, s') \<Rightarrow> (False, s')
      | (True, s') \<Rightarrow> LockPages mb (page + 0x1000) n s')"

fun UnlockPages :: "u64 \<Rightarrow> u64 \<Rightarrow> nat \<Rightarrow> pfa \<Rightarrow> bool \<times> pfa" where
  "UnlockPages mb page 0 s = (True, s)"
| "UnlockPages mb page (Suc n) s =
     (case UnlockPage mb page s of
        (False, s') \<Rightarrow> (False, s')
      | (True, s') \<Rightarrow> UnlockPages mb (page + 0x1000) n s')"

subsection \<open>Reservations\<close>

definition ReservePage :: "u64 \<Rightarrow> u64 \<Rightarrow> pfa \<Rightarrow> bool \<times> pfa" where
  "ReservePage mb page s =
     LockPage mb page (s\<lparr>reserved_memory := reserved_memory s + 0x1000,
                         free_memory := free_memory s - 0x1000\<rparr>)"

definition ReservePages :: "u64 \<Rightarrow> u64 \<Rightarrow> u64 \<Rightarrow> pfa \<Rightarrow> bool \<times> pfa" where
  "ReservePages mb page amount s =
     LockPages mb page (unat amount)
       (s\<lparr>reserved_memory := reserved_memory s + amount * 0x1000,
          free_memory := free_memory s - amount * 0x1000\<rparr>)"

definition UnreservePage :: "u64 \<Rightarrow> u64 \<Rightarrow> pfa \<Rightarrow> bool \<times> pfa" where
  "UnreservePage mb page s =
     UnlockPage mb page (s\<lparr>reserved_memory := reserved_memory s - 0x1000,
                           free_memory := free_memory s + 0x1000\<rparr>)"

definition UnreservePages :: "u64 \<Rightarrow> u64 \<Rightarrow> u64 \<Rightarrow> pfa \<Rightarrow> bool \<times> pfa" where
  "UnreservePages mb page amount s =
     UnlockPages mb page (unat amount)
       (s\<lparr>reserved_memory := reserved_memory s - amount * 0x1000,
          free_memory := free_memory s + amount * 0x1000\<rparr>)"

subsection \<open>Reference counts\<close>

definition GetReferenceCount :: "u64 \<Rightarrow> u64 \<Rightarrow> pfa \<Rightarrow> int" where
  "GetReferenceCount mb page s =
     (let i = page_index mb page in
      if i > total_pages s then 0 else uint (reference_count (page_table s i)))"

text \<open>The \<^verbatim>\<open>int\<close> argument is truncated to the 8-bit field.\<close>

definition SetReferenceCount :: "u64 \<Rightarrow> u64 \<Rightarrow> int \<Rightarrow> pfa \<Rightarrow> bool \<times> pfa" where
  "SetReferenceCount mb page ref_cnt s =
     (let i = page_index mb page in
      if i > total_pages s then (False, s)
      else (True, s\<lparr>page_table := (page_table s)(i :=
              (page_table s i)\<lparr>reference_count := of_int ref_cnt\<rparr>)\<rparr>))"

definition IncreaseReferenceCount :: "u64 \<Rightarrow> u64 \<Rightarrow> pfa \<Rightarrow> pfa" where
  "IncreaseReferenceCount mb page s =
     (let i = page_index mb page in
      if i > total_pages s then s
      else s\<lparr>page_table := (page_table s)(i :=
              (page_table s i)\<lparr>reference_count := reference_count (page_table s i) + 1\<rparr>)\<rparr>)"

subsection \<open>Freeing\<close>

definition FreePage :: "u64 \<Rightarrow> u64 \<Rightarrow> pfa \<Rightarrow> pfa" where
  "FreePage mb page s =
     (if page < 1048576 then s
      else
        let s1 = s\<lparr>free_memory := free_memory s + 0x1000, used_memory := used_memory s - 0x1000\<rparr>;
            s2 = snd (UnlockPage mb page s1);
            index = virtual_to_physical mb page div 0x1000
        in if index < last_free_index s2 then s2\<lparr>last_free_index := index\<rparr> else s2)"

fun FreePages_loop :: "u64 \<Rightarrow> u64 \<Rightarrow> nat \<Rightarrow> pfa \<Rightarrow> pfa" where
  "FreePages_loop mb page 0 s = s"
| "FreePages_loop mb page (Suc n) s = FreePages_loop mb (page + 0x1000) n (FreePage mb page s)"

definition FreePages :: "u64 \<Rightarrow> u64 \<Rightarrow> u64 \<Rightarrow> pfa \<Rightarrow> pfa" where
  "FreePages mb page amount s = FreePages_loop mb page (unat amount) s"

definition DecreaseReferenceCount :: "u64 \<Rightarrow> u64 \<Rightarrow> pfa \<Rightarrow> pfa" where
  "DecreaseReferenceCount mb page s =
     (let i = page_index mb page in
      if i > total_pages s then s
      else
        let e = page_table s i;
            e' = (if reference_count e > 0 then e\<lparr>reference_count := reference_count e - 1\<rparr> else e);
            s' = s\<lparr>page_table := (page_table s)(i := e')\<rparr>
        in if reference_count e' = 0 then FreePage mb page s' else s')"

subsection \<open>What an operation leaves alone\<close>

named_theorems pfa_frame \<open>fields an operation of the allocator does not change\<close>

lemma LockPage_total_pages [simp]: "total_pages (snd (LockPage mb p s)) = total_pages s"
  by (simp add: LockPage_def Let_def)

lemma UnlockPage_total_pages [simp]: "total_pages (snd (UnlockPage mb p s)) = total_pages s"
  by (simp add: UnlockPage_def Let_def)

lemma SetReferenceCount_total_pages [simp]:
  "total_pages (snd (SetReferenceCount mb p c s)) = total_pages s"
  by (simp add: SetReferenceCount_def Let_def)

lemma LockPages_total_pages [simp]: "total_pages (snd (LockPages mb p n s)) = total_pages s"
proof (induction n arbitrary: p s)
  case (Suc n)
  then show ?case by (auto split: prod.splits bool.splits dest!: arg_cong [of _ _ snd])
qed simp

subsection \<open>Allocation\<close>

text \<open>The result 0 means that no frame was found; the callers see \<^verbatim>\<open>physical_to_virtual(0)\<close>.\<close>

function request_page_loop :: "u64 \<Rightarrow> u64 \<Rightarrow> pfa \<Rightarrow> u64 \<times> pfa" where
  "request_page_loop mb i s =
     (if i < total_pages s then
        let page = i * 0x1000 in
        if IsLocked mb page s then request_page_loop mb (i + 1) s
        else
          let r = LockPage mb page s in
          if \<not> fst r then request_page_loop mb (i + 1) (snd r)
          else (page, snd (SetReferenceCount mb page 1
                 ((snd r)\<lparr>free_memory := free_memory (snd r) - 0x1000,
                          used_memory := used_memory (snd r) + 0x1000\<rparr>)))
      else (0, s))"
  by pat_completeness auto
termination
  by (relation "measure (\<lambda>(mb, i, s). unat (total_pages s) - unat i)")
    (auto simp: for_measure64)

declare request_page_loop.simps [simp del]

definition RequestPage :: "u64 \<Rightarrow> pfa \<Rightarrow> u64 \<times> pfa" where
  "RequestPage mb s =
     (let (ret, s') = request_page_loop mb (last_free_index s) s
      in (physical_to_virtual mb ret, s'))"

text \<open>The first locked frame of \<open>[b, e)\<close>: the inner loop of \<^verbatim>\<open>RequestPages\<close>.\<close>

function first_locked :: "u64 \<Rightarrow> u64 \<Rightarrow> u64 \<Rightarrow> pfa \<Rightarrow> u64 option" where
  "first_locked mb b e s =
     (if b < e then
        if IsLocked mb (b * 0x1000) s then Some b else first_locked mb (b + 1) e s
      else None)"
  by pat_completeness auto
termination
  by (relation "measure (\<lambda>(mb, b, e, s). unat e - unat b)")
    (auto simp: for_measure64)

declare first_locked.simps [simp del]

function set_counts :: "u64 \<Rightarrow> u64 \<Rightarrow> u64 \<Rightarrow> pfa \<Rightarrow> pfa" where
  "set_counts mb b e s =
     (if b < e then set_counts mb (b + 1) e (snd (SetReferenceCount mb (b * 0x1000) 1 s)) else s)"
  by pat_completeness auto
termination
  by (relation "measure (\<lambda>(mb, b, e, s). unat e - unat b)")
    (auto simp: for_measure64)

declare set_counts.simps [simp del]

lemma first_locked_bounds: "first_locked mb b e s = Some l \<Longrightarrow> b \<le> l \<and> l < e"
proof (induction mb b e s rule: first_locked.induct)
  case (1 mb b e s)
  show ?case
  proof (cases "b < e \<and> \<not> IsLocked mb (b * 0x1000) s")
    case True
    then have "b + 1 \<le> l \<and> l < e" using "1.IH" "1.prems" by (simp add: first_locked.simps [of mb b e s])
    moreover have "b \<le> b + 1" using True inc_le64 by blast
    ultimately show ?thesis by auto
  next
    case False
    then show ?thesis using "1.prems" by (auto simp: first_locked.simps [of mb b e s] split: if_splits)
  qed
qed

function request_pages_loop :: "u64 \<Rightarrow> u64 \<Rightarrow> u64 \<Rightarrow> pfa \<Rightarrow> u64 \<times> pfa" where
  "request_pages_loop mb amount i s =
     (if i < total_pages s then
        let page = i * 0x1000 in
        if IsLocked mb page s then request_pages_loop mb amount (i + 1) s
        else
          case first_locked mb i (i + amount) s of
            Some b \<Rightarrow> request_pages_loop mb amount (b + 1) s
          | None \<Rightarrow>
              let r = LockPages mb page (unat amount) s in
              if \<not> fst r then request_pages_loop mb amount (i + 1) (snd r)
              else (let s' = set_counts mb i (i + amount) (snd r) in
                    (page, s'\<lparr>free_memory := free_memory s' - amount * 0x1000,
                              used_memory := used_memory s' + amount * 0x1000\<rparr>))
      else (0, s))"
  by pat_completeness auto
termination
proof (relation "measure (\<lambda>(mb, amount, i, s). unat (total_pages s) - unat i)", goal_cases)
  case (4 mb amount i s page b)
  from first_locked_bounds [OF 4(4)] have "i \<le> b" "b < i + amount" by auto
  then have "unat (b + 1) = Suc (unat b)" "unat i \<le> unat b"
    by (auto simp: unat_inc64 word_le_nat_alt)
  then show ?case using 4(1) by (simp add: word_less_nat_alt)
qed (auto simp: for_measure64)

declare request_pages_loop.simps [simp del]

definition RequestPages :: "u64 \<Rightarrow> u64 \<Rightarrow> pfa \<Rightarrow> u64 \<times> pfa" where
  "RequestPages mb amount s =
     (let (ret, s') = request_pages_loop mb amount (last_free_index s) s
      in (physical_to_virtual mb ret, s'))"

subsection \<open>Initialisation from the boot loader's memory map\<close>

record memmap_entry =
  me_base :: u64
  me_length :: u64
  me_type :: u64

definition LIMINE_MEMMAP_USABLE :: u64 where
  "LIMINE_MEMMAP_USABLE = 0"

definition SIZEOF_page_struct :: u64 where
  "SIZEOF_page_struct = 8"

definition DIV_ROUND_UP :: "u64 \<Rightarrow> u64 \<Rightarrow> u64" where
  "DIV_ROUND_UP x al = (x + al - 1) div al"

text \<open>Where the application processors' trampoline goes: two globals of the same file.\<close>

record trampoline =
  ap_trampoline_base :: u64
  ap_trampoline_region_size :: u64

fun memmap_totals :: "memmap_entry list \<Rightarrow> u64 \<Rightarrow> u64 \<Rightarrow> u64 \<times> u64" where
  "memmap_totals [] tot highest = (tot, highest)"
| "memmap_totals (e # es) tot highest =
     memmap_totals es (tot + me_length e)
       (if me_base e + me_length e > highest then me_base e + me_length e else highest)"

text \<open>The base of the first usable region that can hold the table, 0 if there is none.\<close>

fun find_table_mem :: "memmap_entry list \<Rightarrow> u64 \<Rightarrow> u64" where
  "find_table_mem [] needed = 0"
| "find_table_mem (e # es) needed =
     (if me_type e \<noteq> LIMINE_MEMMAP_USABLE then find_table_mem es needed
      else if me_length e \<ge> needed then me_base e
      else find_table_mem es needed)"

text \<open>The table after \<^verbatim>\<open>memset\<close> and the loop that marks every frame as locked.\<close>

definition lock_all :: "u64 \<Rightarrow> (u64 \<Rightarrow> page_struct) \<Rightarrow> u64 \<Rightarrow> page_struct" where
  "lock_all pages tbl = (\<lambda>i. if i < pages
     then \<lparr>reference_count = 0, page_flags = 0 OR PAGE_FLAGS_LOCKED\<rparr> else tbl i)"

text \<open>The direct unlock loop over the frames \<open>[start, start + count)\<close>.\<close>

fun unlock_range :: "u64 \<Rightarrow> nat \<Rightarrow> (u64 \<Rightarrow> page_struct) \<Rightarrow> u64 \<Rightarrow> page_struct" where
  "unlock_range start 0 tbl = tbl"
| "unlock_range start (Suc n) tbl =
     unlock_range (start + 1) n
       (tbl(start := (tbl start)\<lparr>page_flags := page_flags (tbl start) AND NOT PAGE_FLAGS_LOCKED\<rparr>))"

definition usable_frames :: "u64 \<Rightarrow> memmap_entry \<Rightarrow> u64" where
  "usable_frames pages e =
     (let start_frame = me_base e div 0x1000; page_count = me_length e div 0x1000
      in if start_frame + page_count > pages then pages - start_frame else page_count)"

fun unlock_usable :: "u64 \<Rightarrow> memmap_entry list \<Rightarrow> trampoline \<times> pfa \<Rightarrow> trampoline \<times> pfa" where
  "unlock_usable blob_size [] (t, s) = (t, s)"
| "unlock_usable blob_size (e # es) (t, s) =
     (if me_type e \<noteq> LIMINE_MEMMAP_USABLE then unlock_usable blob_size es (t, s)
      else unlock_usable blob_size es
        (if me_base e < ap_trampoline_base t \<and> me_length e > blob_size
         then \<lparr>ap_trampoline_base = me_base e, ap_trampoline_region_size = me_length e\<rparr> else t,
         s\<lparr>page_table := unlock_range (me_base e div 0x1000)
              (unat (usable_frames (total_pages s) e)) (page_table s),
           reserved_memory := reserved_memory s - me_length e,
           free_memory := free_memory s + me_length e\<rparr>))"

definition Initialize ::
  "u64 \<Rightarrow> memmap_entry list \<Rightarrow> u64 \<Rightarrow> trampoline \<times> pfa \<Rightarrow> bool \<times> trampoline \<times> pfa" where
  "Initialize mb memmap blob_size st =
     (let (t, s) = st;
          (tot, highest) = memmap_totals memmap 0 0;
          s1 = s\<lparr>total_memory := tot, free_memory := 0, reserved_memory := 0, used_memory := 0,
                 total_pages := highest div 0x1000\<rparr>;
          memory_needed = SIZEOF_page_struct * total_pages s1;
          table_mem = find_table_mem memmap memory_needed
      in if table_mem = 0 then (False, t, s1)
         else
           let s2 = s1\<lparr>page_table := lock_all (total_pages s1) (page_table s1),
                       reserved_memory := total_memory s1\<rparr>;
               (t', s3) = unlock_usable blob_size memmap (t, s2);
               s4 = snd (ReservePages mb 0 (DIV_ROUND_UP (1 * 1024 * 1024) 0x1000) s3);
               s5 = snd (ReservePages mb (physical_to_virtual mb table_mem)
                      (DIV_ROUND_UP memory_needed 0x1000) s4);
               s6 = snd (ReservePages mb (ap_trampoline_base t') (DIV_ROUND_UP blob_size 0x1000) s5)
           in (True, t', s6))"

subsection \<open>Accounting: no operation creates or loses memory\<close>

definition accounted :: "pfa \<Rightarrow> u64" where
  "accounted s = free_memory s + used_memory s + reserved_memory s"

text \<open>The two facts every accounting proof needs of an operation's counters.\<close>

definition same_counters :: "pfa \<Rightarrow> pfa \<Rightarrow> bool" where
  "same_counters s t \<longleftrightarrow> free_memory t = free_memory s \<and> used_memory t = used_memory s \<and>
     reserved_memory t = reserved_memory s \<and> total_memory t = total_memory s"

lemma same_counters_refl [simp]: "same_counters s s"
  by (simp add: same_counters_def)

lemma same_counters_trans: "same_counters s t \<Longrightarrow> same_counters t u \<Longrightarrow> same_counters s u"
  by (simp add: same_counters_def)

lemma same_counters_Lock [pfa_frame]: "same_counters s (snd (LockPage mb p s))"
  by (simp add: same_counters_def LockPage_def Let_def)

lemma same_counters_Unlock [pfa_frame]: "same_counters s (snd (UnlockPage mb p s))"
  by (simp add: same_counters_def UnlockPage_def Let_def)

lemma same_counters_SetRef [pfa_frame]: "same_counters s (snd (SetReferenceCount mb p c s))"
  by (simp add: same_counters_def SetReferenceCount_def Let_def)

lemma same_counters_LockPages [pfa_frame]: "same_counters s (snd (LockPages mb p n s))"
proof (induction n arbitrary: p s)
  case (Suc n)
  obtain b s' where r: "LockPage mb p s = (b, s')" by force
  have "same_counters s s'" using same_counters_Lock [of s mb p] by (simp add: r)
  then show ?case using Suc.IH [of s' "p + 0x1000"]
    by (cases b) (auto simp: r intro: same_counters_trans)
qed simp

lemma same_counters_UnlockPages [pfa_frame]: "same_counters s (snd (UnlockPages mb p n s))"
proof (induction n arbitrary: p s)
  case (Suc n)
  obtain b s' where r: "UnlockPage mb p s = (b, s')" by force
  have "same_counters s s'" using same_counters_Unlock [of s mb p] by (simp add: r)
  then show ?case using Suc.IH [of s' "p + 0x1000"]
    by (cases b) (auto simp: r intro: same_counters_trans)
qed simp

lemma same_counters_set_counts [pfa_frame]: "same_counters s (set_counts mb b e s)"
proof (induction mb b e s rule: set_counts.induct)
  case (1 mb b e s)
  then show ?case using same_counters_SetRef [of s mb "b * 0x1000" 1]
    by (auto simp: set_counts.simps [of mb b e s] intro: same_counters_trans)
qed

lemma same_counters_accounted: "same_counters s t \<Longrightarrow> accounted t = accounted s"
  by (simp add: same_counters_def accounted_def)

lemma request_page_loop_accounted:
  "accounted (snd (request_page_loop mb i s)) = accounted s \<and>
   total_memory (snd (request_page_loop mb i s)) = total_memory s"
proof (induction mb i s rule: request_page_loop.induct)
  case (1 mb i s)
  note lock = same_counters_Lock [of s mb "i * 0x1000"]
  let ?t = "(snd (LockPage mb (i * 0x1000) s))\<lparr>free_memory := free_memory (snd (LockPage mb (i * 0x1000) s)) - 0x1000,
      used_memory := used_memory (snd (LockPage mb (i * 0x1000) s)) + 0x1000\<rparr>"
  note count = same_counters_SetRef [of ?t mb "i * 0x1000" 1]
  show ?case using "1.IH" lock count
    by (auto simp: request_page_loop.simps [of mb i s] Let_def same_counters_def accounted_def)
qed

lemma request_pages_loop_accounted:
  "accounted (snd (request_pages_loop mb amount i s)) = accounted s \<and>
   total_memory (snd (request_pages_loop mb amount i s)) = total_memory s"
proof (induction mb amount i s rule: request_pages_loop.induct)
  case (1 mb amount i s)
  note lock = same_counters_LockPages [of s mb "i * 0x1000" "unat amount"]
  note count = same_counters_set_counts [of "snd (LockPages mb (i * 0x1000) (unat amount) s)"
      mb i "i + amount"]
  show ?case using "1.IH" lock count
    by (auto simp: request_pages_loop.simps [of mb amount i s] Let_def same_counters_def
        accounted_def split: option.splits)
qed

lemma FreePage_accounted:
  "accounted (FreePage mb page s) = accounted s \<and>
   total_memory (FreePage mb page s) = total_memory s"
  using same_counters_Unlock [of "s\<lparr>free_memory := free_memory s + 0x1000,
      used_memory := used_memory s - 0x1000\<rparr>" mb page]
  by (auto simp: FreePage_def Let_def same_counters_def accounted_def)

lemma FreePages_loop_accounted:
  "accounted (FreePages_loop mb page n s) = accounted s \<and>
   total_memory (FreePages_loop mb page n s) = total_memory s"
  by (induction n arbitrary: page s) (simp_all add: FreePage_accounted)

lemma DecreaseReferenceCount_accounted:
  "accounted (DecreaseReferenceCount mb page s) = accounted s \<and>
   total_memory (DecreaseReferenceCount mb page s) = total_memory s"
  by (simp add: DecreaseReferenceCount_def Let_def FreePage_accounted) (simp add: accounted_def)

lemma IncreaseReferenceCount_accounted:
  "accounted (IncreaseReferenceCount mb page s) = accounted s \<and>
   total_memory (IncreaseReferenceCount mb page s) = total_memory s"
  by (simp add: IncreaseReferenceCount_def Let_def accounted_def)

subsection \<open>Operations as data\<close>

datatype pfa_op =
    Op_LockPages u64 u64
  | Op_UnlockPages u64 u64
  | Op_ReservePage u64
  | Op_ReservePages u64 u64
  | Op_UnreservePage u64
  | Op_UnreservePages u64 u64
  | Op_RequestPage
  | Op_RequestPages u64
  | Op_FreePage u64
  | Op_FreePages u64 u64
  | Op_SetReferenceCount u64 int
  | Op_IncreaseReferenceCount u64
  | Op_DecreaseReferenceCount u64

fun pfa_exec :: "u64 \<Rightarrow> pfa_op \<Rightarrow> pfa \<Rightarrow> pfa" where
  "pfa_exec mb (Op_LockPages p n) s = snd (LockPages mb p (unat n) s)"
| "pfa_exec mb (Op_UnlockPages p n) s = snd (UnlockPages mb p (unat n) s)"
| "pfa_exec mb (Op_ReservePage p) s = snd (ReservePage mb p s)"
| "pfa_exec mb (Op_ReservePages p n) s = snd (ReservePages mb p n s)"
| "pfa_exec mb (Op_UnreservePage p) s = snd (UnreservePage mb p s)"
| "pfa_exec mb (Op_UnreservePages p n) s = snd (UnreservePages mb p n s)"
| "pfa_exec mb Op_RequestPage s = snd (RequestPage mb s)"
| "pfa_exec mb (Op_RequestPages n) s = snd (RequestPages mb n s)"
| "pfa_exec mb (Op_FreePage p) s = FreePage mb p s"
| "pfa_exec mb (Op_FreePages p n) s = FreePages mb p n s"
| "pfa_exec mb (Op_SetReferenceCount p c) s = snd (SetReferenceCount mb p c s)"
| "pfa_exec mb (Op_IncreaseReferenceCount p) s = IncreaseReferenceCount mb p s"
| "pfa_exec mb (Op_DecreaseReferenceCount p) s = DecreaseReferenceCount mb p s"

lemma reserve_accounted:
  "accounted (snd (ReservePages mb p n s)) = accounted s"
  "total_memory (snd (ReservePages mb p n s)) = total_memory s"
  using same_counters_LockPages [of "s\<lparr>reserved_memory := reserved_memory s + n * 0x1000,
      free_memory := free_memory s - n * 0x1000\<rparr>" mb p "unat n"]
  by (simp_all add: ReservePages_def same_counters_def accounted_def)

lemma unreserve_accounted:
  "accounted (snd (UnreservePages mb p n s)) = accounted s"
  "total_memory (snd (UnreservePages mb p n s)) = total_memory s"
  using same_counters_UnlockPages [of "s\<lparr>reserved_memory := reserved_memory s - n * 0x1000,
      free_memory := free_memory s + n * 0x1000\<rparr>" mb p "unat n"]
  by (simp_all add: UnreservePages_def same_counters_def accounted_def)

lemma LockPages_1: "snd (LockPages mb p 1 s) = snd (LockPage mb p s)"
  by (simp split: prod.splits bool.splits)

lemma UnlockPages_1: "snd (UnlockPages mb p 1 s) = snd (UnlockPage mb p s)"
  by (simp split: prod.splits bool.splits)

lemma ReservePage_eq: "snd (ReservePage mb p s) = snd (ReservePages mb p 1 s)"
  using LockPages_1 by (simp add: ReservePage_def ReservePages_def del: LockPages.simps)

lemma UnreservePage_eq: "snd (UnreservePage mb p s) = snd (UnreservePages mb p 1 s)"
  using UnlockPages_1 by (simp add: UnreservePage_def UnreservePages_def del: UnlockPages.simps)

lemma pfa_exec_accounted:
  "accounted (pfa_exec mb op s) = accounted s \<and> total_memory (pfa_exec mb op s) = total_memory s"
proof (cases op)
  case (Op_LockPages p n)
  then show ?thesis using same_counters_LockPages [of s mb p "unat n"]
    by (simp add: same_counters_def accounted_def)
next
  case (Op_UnlockPages p n)
  then show ?thesis using same_counters_UnlockPages [of s mb p "unat n"]
    by (simp add: same_counters_def accounted_def)
next
  case (Op_SetReferenceCount p c)
  then show ?thesis using same_counters_SetRef [of s mb p c]
    by (simp add: same_counters_def accounted_def)
qed (simp_all add: ReservePage_eq UnreservePage_eq reserve_accounted unreserve_accounted
    RequestPage_def RequestPages_def request_page_loop_accounted request_pages_loop_accounted
    FreePage_accounted FreePages_def FreePages_loop_accounted DecreaseReferenceCount_accounted
    split_beta IncreaseReferenceCount_accounted)

lemma pfa_run_accounted:
  "accounted (fold (pfa_exec mb) ops s) = accounted s \<and>
   total_memory (fold (pfa_exec mb) ops s) = total_memory s"
  by (induction ops arbitrary: s) (simp_all add: pfa_exec_accounted)

lemma unlock_usable_accounted:
  "accounted (snd (unlock_usable b es ts)) = accounted (snd ts) \<and>
   total_memory (snd (unlock_usable b es ts)) = total_memory (snd ts)"
  by (induction b es ts rule: unlock_usable.induct) (auto simp: accounted_def)

lemma Initialize_accounted:
  assumes "Initialize mb memmap blob (t, s) = (True, t', s')"
  shows "accounted s' = total_memory s'"
  using assms
  by (auto simp: Initialize_def Let_def reserve_accounted unlock_usable_accounted split_beta
      split: if_splits) (simp add: accounted_def)

subsection \<open>Frames as a map from indices\<close>

text \<open>
  Physical memory lies below the higher half, so the address of a frame of the table is
  never taken for a virtual address (and its virtual address does not wrap); it has less
  than 52 bits, as page-table entries require. \<open>pfa_ok\<close> leaves room for one frame
  beyond the end, which the bounds checks of the code let through.
\<close>

definition pfa_ok :: "u64 \<Rightarrow> pfa \<Rightarrow> bool" where
  "pfa_ok mb s \<longleftrightarrow> (unat (total_pages s) + 1) * 4096 < unat mb \<and>
     unat mb + (unat (total_pages s) + 1) * 4096 < 18446744073709551616 \<and>
     unat (total_pages s) < 1099511627776"

definition frame_locked :: "pfa \<Rightarrow> u64 \<Rightarrow> bool" where
  "frame_locked s i \<longleftrightarrow> page_flags (page_table s i) AND PAGE_FLAGS_LOCKED \<noteq> 0"

definition lock_frame :: "u64 \<Rightarrow> pfa \<Rightarrow> pfa" where
  "lock_frame i s = s\<lparr>page_table := (page_table s)(i :=
     (page_table s i)\<lparr>page_flags := page_flags (page_table s i) OR PAGE_FLAGS_LOCKED\<rparr>)\<rparr>"

definition unlock_frame :: "u64 \<Rightarrow> pfa \<Rightarrow> pfa" where
  "unlock_frame i s = s\<lparr>page_table := (page_table s)(i :=
     (page_table s i)\<lparr>page_flags := page_flags (page_table s i) AND NOT PAGE_FLAGS_LOCKED\<rparr>)\<rparr>"

definition set_count :: "u64 \<Rightarrow> u8 \<Rightarrow> pfa \<Rightarrow> pfa" where
  "set_count i c s = s\<lparr>page_table := (page_table s)(i :=
     (page_table s i)\<lparr>reference_count := c\<rparr>)\<rparr>"

lemma locked_bit: "x AND PAGE_FLAGS_LOCKED \<noteq> 0 \<longleftrightarrow> bit x 0"
  by (simp add: PAGE_FLAGS_LOCKED_def and_one_eq odd_iff_mod_2_eq_one bit_0)

lemma frame_locked_bit: "frame_locked s i \<longleftrightarrow> bit (page_flags (page_table s i)) 0"
  by (simp only: frame_locked_def locked_bit)

lemma frame_locked_lock [simp]: "frame_locked (lock_frame i s) j \<longleftrightarrow> j = i \<or> frame_locked s j"
  by (simp add: frame_locked_bit lock_frame_def bit_or_iff PAGE_FLAGS_LOCKED_def)

lemma frame_locked_unlock [simp]:
  "frame_locked (unlock_frame i s) j \<longleftrightarrow> j \<noteq> i \<and> frame_locked s j"
  by (simp add: frame_locked_bit unlock_frame_def bit_and_iff bit_not_iff PAGE_FLAGS_LOCKED_def)

lemma frame_locked_set_count [simp]: "frame_locked (set_count i c s) j \<longleftrightarrow> frame_locked s j"
  by (simp add: frame_locked_def set_count_def)

lemma frame_locked_counters [simp]:
  "frame_locked (s\<lparr>free_memory := f\<rparr>) i \<longleftrightarrow> frame_locked s i"
  "frame_locked (s\<lparr>used_memory := u\<rparr>) i \<longleftrightarrow> frame_locked s i"
  "frame_locked (s\<lparr>last_free_index := l\<rparr>) i \<longleftrightarrow> frame_locked s i"
  by (simp_all add: frame_locked_def)

lemma frame_ops_total [simp]:
  "total_pages (lock_frame i s) = total_pages s"
  "total_pages (unlock_frame i s) = total_pages s"
  "total_pages (set_count i c s) = total_pages s"
  by (simp_all add: lock_frame_def unlock_frame_def set_count_def)

lemma page_index_physical: "unat i * 4096 < unat mb \<Longrightarrow> page_index mb (i * 0x1000) = i"
proof -
  assume a: "unat i * 4096 < unat mb"
  then have lt: "unat i * 4096 < 18446744073709551616" using unat_lt64 [of mb] by linarith
  have "\<not> mb \<le> i * 0x1000" using a by (simp add: word_le_nat_alt unat_frame_addr [OF lt])
  then show ?thesis by (simp add: page_index_def frame_addr_div [OF lt])
qed

lemma page_index_virtual:
  assumes "unat i * 4096 + unat mb < 18446744073709551616"
  shows "page_index mb (physical_to_virtual mb (i * 0x1000)) = i"
proof -
  have lt: "unat i * 4096 < 18446744073709551616" using assms by simp
  have "unat (i * 0x1000 + mb) = unat i * 4096 + unat mb"
    using assms by (simp add: unat_add64 unat_frame_addr [OF lt])
  then have "mb \<le> i * 0x1000 + mb" by (simp add: word_le_nat_alt)
  then show ?thesis
    by (simp add: page_index_def physical_to_virtual_def virtual_to_physical_def frame_addr_div [OF lt])
qed

lemma LockPage_frame: "page_index mb p \<le> total_pages s \<Longrightarrow>
    LockPage mb p s = (True, lock_frame (page_index mb p) s)"
  by (simp add: LockPage_def lock_frame_def Let_def not_less)

lemma UnlockPage_frame: "page_index mb p \<le> total_pages s \<Longrightarrow>
    UnlockPage mb p s = (True, unlock_frame (page_index mb p) s)"
  by (simp add: UnlockPage_def unlock_frame_def Let_def not_less)

lemma IsLocked_frame: "page_index mb p \<le> total_pages s \<Longrightarrow>
    IsLocked mb p s \<longleftrightarrow> frame_locked s (page_index mb p)"
  by (simp add: IsLocked_def frame_locked_def not_less)

lemma SetReferenceCount_frame: "page_index mb p \<le> total_pages s \<Longrightarrow>
    SetReferenceCount mb p c s = (True, set_count (page_index mb p) (of_int c) s)"
  by (simp add: SetReferenceCount_def set_count_def Let_def not_less)

lemmas frame_simps = LockPage_frame UnlockPage_frame IsLocked_frame SetReferenceCount_frame

subsection \<open>First-fit allocation of one frame\<close>

definition claim_frame :: "u64 \<Rightarrow> pfa \<Rightarrow> pfa" where
  "claim_frame i s = set_count i 1 ((lock_frame i s)\<lparr>
     free_memory := free_memory s - 0x1000, used_memory := used_memory s + 0x1000\<rparr>)"

lemma claim_frame_fields [simp]:
  "total_pages (claim_frame i s) = total_pages s"
  "last_free_index (claim_frame i s) = last_free_index s"
  "frame_locked (claim_frame i s) j \<longleftrightarrow> j = i \<or> frame_locked s j"
  by (simp_all add: claim_frame_def set_count_def lock_frame_def)
    (simp add: frame_locked_def PAGE_FLAGS_LOCKED_def and_one_eq odd_iff_mod_2_eq_one [symmetric]
      bit_simps flip: bit_0)

lemma frame_in_range: "pfa_ok mb s \<Longrightarrow> i \<le> total_pages s \<Longrightarrow> unat i * 4096 < unat mb"
  unfolding pfa_ok_def word_le_nat_alt by auto

lemma page_index_ok: "pfa_ok mb s \<Longrightarrow> i \<le> total_pages s \<Longrightarrow> page_index mb (i * 0x1000) = i"
  by (rule page_index_physical) (rule frame_in_range)

lemma page_index_ok_virtual:
  "pfa_ok mb s \<Longrightarrow> i \<le> total_pages s \<Longrightarrow>
     page_index mb (physical_to_virtual mb (i * 0x1000)) = i"
  by (rule page_index_virtual) (simp add: pfa_ok_def word_le_nat_alt)

lemma request_page_step:
  assumes "pfa_ok mb s" "i < total_pages s"
  shows "request_page_loop mb i s =
    (if frame_locked s i then request_page_loop mb (i + 1) s else (i * 0x1000, claim_frame i s))"
proof -
  have idx: "page_index mb (i * 0x1000) = i"
    using assms by (intro page_index_ok) auto
  have "i \<le> total_pages s" using assms(2) by simp
  then show ?thesis using assms(2)
    by (simp add: request_page_loop.simps [of mb i s] Let_def frame_simps idx
        claim_frame_def lock_frame_def)
qed

lemma request_page_loop_cases:
  assumes "pfa_ok mb s"
  shows "(\<exists>j. i \<le> j \<and> j < total_pages s \<and> \<not> frame_locked s j \<and>
            (\<forall>k. i \<le> k \<and> k < j \<longrightarrow> frame_locked s k) \<and>
            request_page_loop mb i s = (j * 0x1000, claim_frame j s)) \<or>
         (\<forall>k. i \<le> k \<and> k < total_pages s \<longrightarrow> frame_locked s k) \<and>
            request_page_loop mb i s = (0, s)"
proof (induction "unat (total_pages s) - unat i" arbitrary: i rule: less_induct)
  case less
  show ?case
  proof (cases "i < total_pages s")
    case True
    note step = request_page_step [OF assms True]
    show ?thesis
    proof (cases "frame_locked s i")
      case True
      have later: "i \<le> k \<longleftrightarrow> k = i \<or> i + 1 \<le> k" for k
        using unat_inc64 [OF \<open>i < total_pages s\<close>] by (auto simp: word_le_nat_alt word_unat_eq_iff)
      show ?thesis
        using less [OF for_measure64 [OF \<open>i < total_pages s\<close>]] True step later by auto
    next
      case False
      then show ?thesis using step \<open>i < total_pages s\<close> by (intro disjI1 exI [of _ i]) auto
    qed
  next
    case False
    then show ?thesis by (auto simp: request_page_loop.simps [of mb i s])
  qed
qed

subsection \<open>The interface the rest of memory management relies on\<close>

text \<open>
  A source of frames: a request takes some free frame out of the pool and returns its
  virtual address; with an empty pool it returns the virtual address of frame 0 and changes
  nothing (the callers cannot tell, their null checks never hold).
\<close>

locale frame_source =
  fixes request :: "'s \<Rightarrow> u64 \<times> 's"
    and free_frames :: "'s \<Rightarrow> u64 set"
    and ok :: "'s \<Rightarrow> bool"
    and base :: u64
  assumes ok_request: "ok s \<Longrightarrow> ok (snd (request s))"
    and request_some: "ok s \<Longrightarrow> free_frames s \<noteq> {} \<Longrightarrow>
      \<exists>p \<in> free_frames s. fst (request s) = p + base \<and>
        free_frames (snd (request s)) = free_frames s - {p}"
    and request_none: "ok s \<Longrightarrow> free_frames s = {} \<Longrightarrow> request s = (base, s)"
    and frame_aligned: "ok s \<Longrightarrow> p \<in> free_frames s \<Longrightarrow> p AND 0xffffffffff000 = p"
begin

fun requests :: "nat \<Rightarrow> 's \<Rightarrow> u64 list \<times> 's" where
  "requests 0 s = ([], s)"
| "requests (Suc n) s =
     (let (v, s1) = request s; (vs, s2) = requests n s1 in (v # vs, s2))"

lemma free_request_subset: "ok s \<Longrightarrow> free_frames (snd (request s)) \<subseteq> free_frames s"
  using request_some [of s] request_none [of s] by (cases "free_frames s = {}") auto

lemma requests_from_pool:
  "ok s \<Longrightarrow> finite (free_frames s) \<Longrightarrow> n \<le> card (free_frames s) \<Longrightarrow>
   distinct (fst (requests n s)) \<and>
   set (fst (requests n s)) \<subseteq> (\<lambda>p. p + base) ` free_frames s \<and>
   free_frames (snd (requests n s)) = free_frames s - (\<lambda>v. v - base) ` set (fst (requests n s))"
proof (induction n arbitrary: s)
  case (Suc n)
  obtain v s1 where r: "request s = (v, s1)" by force
  have ne: "free_frames s \<noteq> {}" using Suc.prems by auto
  obtain p where p: "p \<in> free_frames s" "v = p + base" "free_frames s1 = free_frames s - {p}"
    using request_some [OF Suc.prems(1) ne] by (auto simp: r)
  obtain vs s2 where rs: "requests n s1 = (vs, s2)" by force
  have "ok s1" using ok_request [OF Suc.prems(1)] by (simp add: r)
  moreover have "n \<le> card (free_frames s1)" "finite (free_frames s1)" using Suc.prems p by simp_all
  ultimately have IH: "distinct vs" "set vs \<subseteq> (\<lambda>p. p + base) ` free_frames s1"
      "free_frames s2 = free_frames s1 - (\<lambda>v. v - base) ` set vs"
    using Suc.IH [of s1] by (auto simp: rs)
  then show ?case using p by (auto simp: r rs)
qed simp

end

definition free_frame_set :: "pfa \<Rightarrow> u64 set" where
  "free_frame_set s = (\<lambda>i. i * 0x1000) `
     {i. last_free_index s \<le> i \<and> i < total_pages s \<and> \<not> frame_locked s i}"

lemma pfa_ok_claim [simp]: "pfa_ok mb (claim_frame i s) = pfa_ok mb s"
  by (simp add: pfa_ok_def)

lemma frame_addr_inj:
  assumes "pfa_ok mb s" "i \<le> total_pages s" "j \<le> total_pages s" "i * 0x1000 = j * 0x1000"
  shows "i = j"
proof -
  have "page_index mb (i * 0x1000) = page_index mb (j * 0x1000)" by (simp only: assms(4))
  then show ?thesis by (simp only: page_index_ok [OF assms(1,2)] page_index_ok [OF assms(1,3)])
qed

lemma free_frame_set_claim:
  assumes "pfa_ok mb s" "j < total_pages s"
  shows "free_frame_set (claim_frame j s) = free_frame_set s - {j * 0x1000}"
proof -
  let ?F = "{i. last_free_index s \<le> i \<and> i < total_pages s \<and> \<not> frame_locked s i}"
  have inj: "inj_on (\<lambda>i. i * 0x1000) {i. i < total_pages s}"
    using frame_addr_inj [OF assms(1)] by (intro inj_onI) (simp add: less_imp_le)
  have "free_frame_set (claim_frame j s) = (\<lambda>i. i * 0x1000) ` (?F - {j})"
    unfolding free_frame_set_def claim_frame_fields by (rule arg_cong [of _ _ "image _"]) auto
  also have "\<dots> = (\<lambda>i. i * 0x1000) ` ?F - (\<lambda>i. i * 0x1000) ` {j}"
    using assms(2) by (intro inj_on_image_set_diff [OF inj]) auto
  finally show ?thesis by (simp add: free_frame_set_def)
qed

lemma frame_addr_masked:
  assumes "unat (i :: u64) < 1099511627776"
  shows "(i * 0x1000) AND 0xffffffffff000 = i * 0x1000"
proof -
  have "i * 0x1000 = push_bit 12 i" by (simp add: push_bit_eq_mult)
  moreover have "push_bit 12 i AND 0xffffffffff000 = push_bit 12 i"
  proof (rule bit_word_eqI)
    fix n assume n: "n < LENGTH(64)"
    have hi: "\<not> bit i k" if "40 \<le> k" for k
      using not_bit_small [of i 40 k] assms that by simp
    have mask: "(0xffffffffff000 :: u64) = push_bit 12 (mask 40)"
      by (simp add: mask_eq_exp_minus_1 push_bit_eq_mult)
    have "bit (0xffffffffff000 :: u64) n \<longleftrightarrow> 12 \<le> n \<and> n < 52"
      unfolding mask bit_push_bit_iff bit_mask_iff using n by auto
    then show "bit (push_bit 12 i AND 0xffffffffff000) n = bit (push_bit 12 i) n"
      using hi by (cases "n < 52") (auto simp: bit_and_iff bit_push_bit_iff)
  qed
  ultimately show ?thesis by simp
qed

lemma RequestPage_cases:
  assumes "pfa_ok mb s"
  shows "(\<exists>j. last_free_index s \<le> j \<and> j < total_pages s \<and> \<not> frame_locked s j \<and>
            (\<forall>k. last_free_index s \<le> k \<and> k < j \<longrightarrow> frame_locked s k) \<and>
            RequestPage mb s = (physical_to_virtual mb (j * 0x1000), claim_frame j s)) \<or>
         (\<forall>k. last_free_index s \<le> k \<and> k < total_pages s \<longrightarrow> frame_locked s k) \<and>
            RequestPage mb s = (physical_to_virtual mb 0, s)"
  using request_page_loop_cases [OF assms, of "last_free_index s"]
  by (fastforce simp: RequestPage_def)

interpretation pfa_source: frame_source "RequestPage mb" free_frame_set "pfa_ok mb" mb for mb
proof
  fix s :: pfa
  assume ok: "pfa_ok mb s"
  note cases = RequestPage_cases [OF ok]
  from cases show "pfa_ok mb (snd (RequestPage mb s))" using ok by auto
  show "RequestPage mb s = (mb, s)" if "free_frame_set s = {}"
    using cases that by (auto simp: free_frame_set_def physical_to_virtual_def)
  show "\<exists>p \<in> free_frame_set s. fst (RequestPage mb s) = p + mb \<and>
      free_frame_set (snd (RequestPage mb s)) = free_frame_set s - {p}"
    if "free_frame_set s \<noteq> {}"
    using cases that free_frame_set_claim [OF ok]
    by (auto simp: free_frame_set_def physical_to_virtual_def)
  show "p AND 0xffffffffff000 = p" if "p \<in> free_frame_set s" for p
  proof -
    from that obtain i where i: "p = i * 0x1000" "i < total_pages s"
      by (auto simp: free_frame_set_def)
    then have "unat i < 1099511627776" using ok by (simp add: pfa_ok_def word_less_nat_alt)
    then show ?thesis using frame_addr_masked i by simp
  qed
qed

subsection \<open>Runs of frames\<close>

fun lock_run :: "u64 \<Rightarrow> nat \<Rightarrow> pfa \<Rightarrow> pfa" where
  "lock_run i 0 s = s"
| "lock_run i (Suc n) s = lock_run (i + 1) n (lock_frame i s)"

text \<open>Index \<open>k\<close> is one of the \<open>n\<close> indices from \<open>i\<close> on.\<close>

definition in_run :: "u64 \<Rightarrow> nat \<Rightarrow> u64 \<Rightarrow> bool" where
  "in_run i n k \<longleftrightarrow> unat i \<le> unat k \<and> unat k < unat i + n"

lemma in_run_0 [simp]: "\<not> in_run i 0 k"
  by (simp add: in_run_def)

lemma in_run_Suc:
  assumes "unat i + n < 18446744073709551616"
  shows "in_run i (Suc n) k \<longleftrightarrow> k = i \<or> in_run (i + 1) n k"
proof (cases n)
  case 0
  then show ?thesis by (auto simp: in_run_def word_unat_eq_iff)
next
  case (Suc m)
  then have "unat (i + 1) = unat i + 1" using assms unat_add64 [of i 1] by simp
  then show ?thesis by (auto simp: in_run_def word_unat_eq_iff)
qed

lemma lock_run_total [simp]: "total_pages (lock_run i n s) = total_pages s"
  by (induction i n s rule: lock_run.induct) simp_all

lemma lock_run_locked:
  "unat i + n \<le> 18446744073709551616 \<Longrightarrow>
     frame_locked (lock_run i n s) k \<longleftrightarrow> in_run i n k \<or> frame_locked s k"
proof (induction i n s rule: lock_run.induct)
  case (2 i n s)
  have "unat (i + 1) + n \<le> 18446744073709551616"
    using "2.prems" unat_plus64 [of i 1] by (auto split: if_splits)
  then show ?case using "2.IH" in_run_Suc [of i n k] "2.prems" by auto
qed simp

lemma pfa_ok_lock [simp]: "pfa_ok mb (lock_frame i s) = pfa_ok mb s"
  by (simp add: pfa_ok_def)

lemma pfa_ok_lock_run [simp]: "pfa_ok mb (lock_run i n s) = pfa_ok mb s"
  by (simp add: pfa_ok_def)

lemma past_end_index:
  assumes "pfa_ok mb s"
  shows "page_index mb ((total_pages s + 1) * 0x1000) = total_pages s + 1"
    and "total_pages s < total_pages s + 1"
proof -
  have u: "unat (total_pages s + 1) = unat (total_pages s) + 1"
    using assms unat_add64 [of "total_pages s" 1] by (simp add: pfa_ok_def)
  then show "page_index mb ((total_pages s + 1) * 0x1000) = total_pages s + 1"
    using assms by (intro page_index_physical) (simp add: pfa_ok_def)
  show "total_pages s < total_pages s + 1" using u by (simp add: word_less_nat_alt)
qed

text \<open>
  Locking a run from a frame of the table: complete if the run ends at index
  \<open>total_pages\<close> at the latest, otherwise cut off there.
\<close>

lemma LockPages_run:
  assumes "pfa_ok mb s" "unat i \<le> unat (total_pages s) + 1"
  shows "LockPages mb (i * 0x1000) n s =
    (if unat i + n \<le> unat (total_pages s) + 1 then (True, lock_run i n s)
     else (False, lock_run i (unat (total_pages s) + 1 - unat i) s))"
  using assms
proof (induction n arbitrary: i s)
  case (Suc n)
  show ?case
  proof (cases "i \<le> total_pages s")
    case True
    have i1: "unat (i + 1) = unat i + 1"
      using True Suc.prems unat_add64 [of i 1] by (simp add: pfa_ok_def word_le_nat_alt)
    have addr: "i * 0x1000 + 0x1000 = (i + 1) * 0x1000" by (simp add: distrib_right)
    have "LockPages mb (i * 0x1000) (Suc n) s = LockPages mb ((i + 1) * 0x1000) n (lock_frame i s)"
      using LockPage_frame [of mb "i * 0x1000" s] True
      by (simp only: LockPages.simps page_index_ok [OF Suc.prems(1) True] prod.case if_True addr
          bool.case)
    also have "\<dots> = (if unat i + 1 + n \<le> unat (total_pages s) + 1
        then (True, lock_run (i + 1) n (lock_frame i s))
        else (False, lock_run (i + 1) (unat (total_pages s) + 1 - (unat i + 1)) (lock_frame i s)))"
      using Suc.IH [of "lock_frame i s" "i + 1"] Suc.prems True
      by (simp only: i1 pfa_ok_lock frame_ops_total) (simp add: word_le_nat_alt)
    moreover have "unat (total_pages s) + 1 - unat i = Suc (unat (total_pages s) + 1 - (unat i + 1))"
      using True by (simp add: word_le_nat_alt)
    ultimately show ?thesis by simp
  next
    case False
    then have "unat i = unat (total_pages s) + 1" using Suc.prems by (simp add: word_le_nat_alt)
    moreover have "unat (total_pages s + 1) = unat (total_pages s) + 1"
      using Suc.prems unat_add64 [of "total_pages s" 1] by (simp add: pfa_ok_def)
    ultimately have i: "i = total_pages s + 1" by (simp add: word_unat_eq_iff)
    have "LockPage mb (i * 0x1000) s = (False, s)"
      using past_end_index [OF Suc.prems(1)] by (simp add: LockPage_def Let_def i)
    then show ?thesis using i \<open>unat i = unat (total_pages s) + 1\<close> by simp
  qed
qed simp

lemma set_counts_fields [simp]:
  "frame_locked (set_counts mb b e s) k \<longleftrightarrow> frame_locked s k"
  "total_pages (set_counts mb b e s) = total_pages s"
proof (induction mb b e s rule: set_counts.induct)
  case (1 mb b e s)
  have "frame_locked (snd (SetReferenceCount mb p c t)) k = frame_locked t k" for p c t
    by (simp add: SetReferenceCount_def frame_locked_def Let_def)
  moreover note set_counts.simps [of mb b e s]
  ultimately show "frame_locked (set_counts mb b e s) k \<longleftrightarrow> frame_locked s k"
      "total_pages (set_counts mb b e s) = total_pages s"
    using "1.IH" by simp_all
qed

lemma first_locked_None:
  assumes "pfa_ok mb s" "first_locked mb b e s = None" "b \<le> k" "k < e" "k \<le> total_pages s"
  shows "\<not> frame_locked s k"
  using assms
proof (induction mb b e s rule: first_locked.induct)
  case (1 mb b e s)
  have lt: "b < e" using "1.prems" by simp
  then have b: "\<not> IsLocked mb (b * 0x1000) s" "first_locked mb (b + 1) e s = None"
    using "1.prems" by (auto simp: first_locked.simps [of mb b e s] split: if_splits)
  show ?case
  proof (cases "k = b")
    case True
    then show ?thesis using b IsLocked_frame page_index_ok "1.prems" by metis
  next
    case False
    then have "b + 1 \<le> k" using "1.prems" unat_inc64 [OF lt]
      by (auto simp: word_le_nat_alt word_unat_eq_iff)
    then show ?thesis using "1.IH" lt b "1.prems" by blast
  qed
qed

text \<open>One round of the outer loop, on frames of the table.\<close>

definition claim_run :: "u64 \<Rightarrow> u64 \<Rightarrow> u64 \<Rightarrow> pfa \<Rightarrow> pfa" where
  "claim_run mb i amount s =
     (let s' = set_counts mb i (i + amount) (lock_run i (unat amount) s)
      in s'\<lparr>free_memory := free_memory s' - amount * 0x1000,
            used_memory := used_memory s' + amount * 0x1000\<rparr>)"

lemma claim_run_fields [simp]:
  "total_pages (claim_run mb i amount s) = total_pages s"
  "frame_locked (claim_run mb i amount s) k \<longleftrightarrow> frame_locked (lock_run i (unat amount) s) k"
  by (simp_all add: claim_run_def Let_def)

lemma request_pages_step:
  assumes "pfa_ok mb s" "i < total_pages s"
  shows "request_pages_loop mb amount i s =
    (if frame_locked s i then request_pages_loop mb amount (i + 1) s
     else case first_locked mb i (i + amount) s of
       Some b \<Rightarrow> request_pages_loop mb amount (b + 1) s
     | None \<Rightarrow>
         if unat i + unat amount \<le> unat (total_pages s) + 1
         then (i * 0x1000, claim_run mb i amount s)
         else request_pages_loop mb amount (i + 1)
                (lock_run i (unat (total_pages s) + 1 - unat i) s))"
proof -
  have le: "i \<le> total_pages s" using assms(2) by simp
  have "unat i \<le> unat (total_pages s) + 1" using le by (simp add: word_le_nat_alt)
  note run = LockPages_run [OF assms(1) this, of "unat amount"]
  have "IsLocked mb (i * 0x1000) s = frame_locked s i"
    using IsLocked_frame [of mb "i * 0x1000" s] page_index_ok [OF assms(1) le] le by simp
  then show ?thesis using assms(2)
    unfolding request_pages_loop.simps [of mb amount i s] Let_def run claim_run_def
    by (simp split: option.split)
qed

lemma lock_run_mono: "frame_locked s k \<Longrightarrow> frame_locked (lock_run i n s) k"
  by (induction i n s rule: lock_run.induct) simp_all

text \<open>
  A successful request: the run was unlocked before, is locked after, ends at index
  \<open>total_pages\<close> at the latest, and no frame becomes unlocked.
\<close>

lemma request_pages_loop_run:
  assumes "pfa_ok mb s" "0 < amount" "request_pages_loop mb amount i s = (r, t)" "r \<noteq> 0"
  shows "\<exists>j. r = j * 0x1000 \<and> i \<le> j \<and> j < total_pages s \<and>
    unat j + unat amount \<le> unat (total_pages s) + 1 \<and>
    (\<forall>k. in_run j (unat amount) k \<longrightarrow> \<not> frame_locked s k \<and> frame_locked t k) \<and>
    (\<forall>k. frame_locked s k \<longrightarrow> frame_locked t k)"
  using assms
proof (induction mb amount i s rule: request_pages_loop.induct)
  case (1 mb amount i s)
  show ?case
  proof (cases "i < total_pages s")
    case False
    then show ?thesis using "1.prems" by (simp add: request_pages_loop.simps [of mb amount i s])
  next
    case True
    note step = request_pages_step [OF "1.prems"(1) True, of amount]
    have inc: "i \<le> j" if "i + 1 \<le> j" for j using that inc_le64 [OF True] by (meson order_trans)
    have le: "i \<le> total_pages s" using True by simp
    have locked: "IsLocked mb (i * 0x1000) s = frame_locked s i"
      using IsLocked_frame [of mb "i * 0x1000" s] page_index_ok [OF "1.prems"(1) le] le by simp
    consider (skip) "frame_locked s i"
      | (hit) b where "\<not> frame_locked s i" "first_locked mb i (i + amount) s = Some b"
      | (fits) "\<not> frame_locked s i" "first_locked mb i (i + amount) s = None"
          "unat i + unat amount \<le> unat (total_pages s) + 1"
      | (cut) "\<not> frame_locked s i" "first_locked mb i (i + amount) s = None"
          "\<not> unat i + unat amount \<le> unat (total_pages s) + 1"
      by (cases "first_locked mb i (i + amount) s") auto
    then show ?thesis
    proof cases
      case skip
      then show ?thesis using "1.IH"(1) [OF True refl] "1.prems" step locked inc by auto
    next
      case hit
      have b: "i \<le> b" "b < i + amount" using first_locked_bounds [OF hit(2)] by auto
      then have "i \<le> j" if "b + 1 \<le> j" for j
        using that inc_le64 [OF b(2)] by (meson order_trans)
      then show ?thesis
        using "1.IH"(3) [OF True refl _ hit(2)] "1.prems" step hit locked by auto
    next
      case fits
      have "unat i + unat amount < 18446744073709551616"
        using fits(3) "1.prems"(1) by (simp add: pfa_ok_def)
      then have e: "unat (i + amount) = unat i + unat amount" by (rule unat_add64)
      have "\<not> frame_locked s k" if "in_run i (unat amount) k" for k
        using that fits e first_locked_None [OF "1.prems"(1) fits(2), of k]
        by (simp add: in_run_def word_le_nat_alt word_less_nat_alt)
      moreover have "r = i * 0x1000" "t = claim_run mb i amount s"
        using "1.prems"(3) step fits by auto
      moreover have "unat i + unat amount \<le> 18446744073709551616"
        using fits(3) "1.prems"(1) by (simp add: pfa_ok_def)
      ultimately show ?thesis using True fits(3)
        by (intro exI [of _ i]) (simp add: lock_run_locked)
    next
      case cut
      let ?n = "unat (total_pages s) + 1 - unat i"
      have "LockPages mb (i * 0x1000) (unat amount) s = (False, lock_run i ?n s)"
        using LockPages_run [OF "1.prems"(1), of i "unat amount"] le cut(3)
        by (simp add: word_le_nat_alt)
      then have "\<exists>j. r = j * 0x1000 \<and> i + 1 \<le> j \<and> j < total_pages s \<and>
          unat j + unat amount \<le> unat (total_pages s) + 1 \<and>
          (\<forall>k. in_run j (unat amount) k \<longrightarrow>
             \<not> frame_locked (lock_run i ?n s) k \<and> frame_locked t k) \<and>
          (\<forall>k. frame_locked (lock_run i ?n s) k \<longrightarrow> frame_locked t k)"
        using "1.IH"(2) [OF True refl _ cut(2) refl] "1.prems" step cut locked by simp
      then show ?thesis using inc lock_run_mono by blast
    qed
  qed
qed

text \<open>When every remaining frame is locked, the loop runs to the end and changes nothing.\<close>

lemma request_pages_loop_full:
  assumes "pfa_ok mb s" "\<And>k. i \<le> k \<Longrightarrow> k < total_pages s \<Longrightarrow> frame_locked s k"
  shows "request_pages_loop mb amount i s = (0, s)"
  using assms(2)
proof (induction "unat (total_pages s) - unat i" arbitrary: i rule: less_induct)
  case less
  show ?case
  proof (cases "i < total_pages s")
    case True
    have "frame_locked s k" if "i + 1 \<le> k" "k < total_pages s" for k
      using that less.prems inc_le64 [OF True] by (meson order_trans)
    then have "request_pages_loop mb amount (i + 1) s = (0, s)"
      using less.hyps [OF for_measure64 [OF True]] by blast
    then show ?thesis using request_pages_step [OF assms(1) True] less.prems True by simp
  next
    case False
    then show ?thesis by (simp add: request_pages_loop.simps [of mb amount i s])
  qed
qed

subsection \<open>Reference counting\<close>

definition count_of :: "pfa \<Rightarrow> u64 \<Rightarrow> u8" where
  "count_of s i = reference_count (page_table s i)"

lemma set_count_twice [simp]: "set_count i c (set_count i d s) = set_count i c s"
  by (simp add: set_count_def)

lemma set_count_same [simp]: "set_count i (count_of s i) s = s"
  by (simp add: set_count_def count_of_def)

lemma count_of_set_count [simp]: "count_of (set_count i c s) i = c"
  by (simp add: count_of_def set_count_def)

lemma Increase_frame: "page_index mb p \<le> total_pages s \<Longrightarrow>
    IncreaseReferenceCount mb p s = set_count (page_index mb p) (count_of s (page_index mb p) + 1) s"
  by (simp add: IncreaseReferenceCount_def set_count_def count_of_def Let_def not_less)

lemma Decrease_frame:
  assumes "page_index mb p \<le> total_pages s"
  shows "DecreaseReferenceCount mb p s =
    (let i = page_index mb p; c = count_of s i in
     if c > 1 then set_count i (c - 1) s else FreePage mb p (set_count i 0 s))"
proof -
  define c where "c = count_of s (page_index mb p)"
  have "set_count (page_index mb p) 0 s = s" if "c = 0"
    using that set_count_same [of "page_index mb p" s] by (simp add: c_def)
  moreover have "c > 1 \<or> c = 1 \<or> c = 0" by (auto simp: word_less_nat_alt word_unat_eq_iff)
  moreover have "c - 1 \<noteq> 0" if "c > 1" using that by auto
  ultimately show ?thesis using assms c_def
    by (auto simp: DecreaseReferenceCount_def set_count_def count_of_def Let_def not_less
        word_gt_0)
qed

lemma Increase_iterate:
  "page_index mb p \<le> total_pages s \<Longrightarrow>
   (IncreaseReferenceCount mb p ^^ n) s =
     set_count (page_index mb p) (count_of s (page_index mb p) + of_nat n) s"
proof (induction n)
  case (Suc n)
  then show ?case by (simp add: Increase_frame add.assoc add.commute [of 1])
qed simp

lemma Decrease_iterate:
  "page_index mb p \<le> total_pages s \<Longrightarrow> m < 256 \<Longrightarrow> k < m \<Longrightarrow>
   (DecreaseReferenceCount mb p ^^ k) (set_count (page_index mb p) (of_nat m) s) =
     set_count (page_index mb p) (of_nat (m - k)) s"
proof (induction k)
  case (Suc k)
  have gt: "(of_nat (m - k) :: u8) > 1"
    using Suc.prems by (simp add: word_less_nat_alt unat_of_nat del: of_nat_diff)
  have pred: "(of_nat (m - k) :: u8) - 1 = of_nat (m - Suc k)"
    using Suc.prems by (simp add: of_nat_diff)
  show ?case using Suc gt by (simp add: Decrease_frame pred algebra_simps)
qed simp

text \<open>Freeing a frame through an address that is not in the first MiB.\<close>

lemma FreePage_frame:
  assumes "1048576 \<le> p" "page_index mb p \<le> total_pages s"
  shows "page_table (FreePage mb p s) = page_table (unlock_frame (page_index mb p) s)"
    and "free_memory (FreePage mb p s) = free_memory s + 0x1000"
    and "used_memory (FreePage mb p s) = used_memory s - 0x1000"
    and "total_pages (FreePage mb p s) = total_pages s"
proof -
  have "\<not> p < 1048576" using assms(1) by simp
  then show "page_table (FreePage mb p s) = page_table (unlock_frame (page_index mb p) s)"
      "free_memory (FreePage mb p s) = free_memory s + 0x1000"
      "used_memory (FreePage mb p s) = used_memory s - 0x1000"
      "total_pages (FreePage mb p s) = total_pages s"
    using assms(2) by (simp_all add: FreePage_def Let_def UnlockPage_frame unlock_frame_def)
qed

lemma Decrease_last:
  assumes "1048576 \<le> p" "page_index mb p \<le> total_pages s" "c \<le> 1"
  shows "DecreaseReferenceCount mb p (set_count (page_index mb p) c s) =
    FreePage mb p (set_count (page_index mb p) 0 s)"
  using assms Decrease_frame [of mb p "set_count (page_index mb p) c s"] by (simp add: Let_def)

subsection \<open>Properties\<close>

text \<open>C2: \<^verbatim>\<open>RequestPage\<close> is first fit: it returns the virtual address of the lowest
  unlocked frame from \<^verbatim>\<open>last_free_index\<close> on, and marks exactly that frame locked with
  reference count 1 and one frame moved from free to used; only if every such frame is locked
  does it return the virtual address of frame 0, and then it changes nothing.\<close>

theorem RequestPage_first_fit:
  assumes "pfa_ok mb s"
  shows "(\<exists>j. last_free_index s \<le> j \<and> j < total_pages s \<and> \<not> frame_locked s j \<and>
            (\<forall>k. last_free_index s \<le> k \<and> k < j \<longrightarrow> frame_locked s k) \<and>
            RequestPage mb s = (j * 0x1000 + mb,
              s\<lparr>page_table := (page_table s)(j := \<lparr>reference_count = 1,
                   page_flags = page_flags (page_table s j) OR PAGE_FLAGS_LOCKED\<rparr>),
                free_memory := free_memory s - 0x1000, used_memory := used_memory s + 0x1000\<rparr>)) \<or>
         (\<forall>k. last_free_index s \<le> k \<and> k < total_pages s \<longrightarrow> frame_locked s k) \<and>
            RequestPage mb s = (mb, s)"
proof -
  have "claim_frame j s = s\<lparr>page_table := (page_table s)(j := \<lparr>reference_count = 1,
        page_flags = page_flags (page_table s j) OR PAGE_FLAGS_LOCKED\<rparr>),
      free_memory := free_memory s - 0x1000, used_memory := used_memory s + 0x1000\<rparr>" for j
    by (cases "page_table s j") (simp add: claim_frame_def set_count_def lock_frame_def)
  then show ?thesis using RequestPage_cases [OF assms] by (simp add: physical_to_virtual_def)
qed

text \<open>A small memory for the witnesses: eight frames, of which the first two are locked.\<close>

definition example_pfa :: pfa where
  "example_pfa = \<lparr>total_memory = 0x8000, free_memory = 0x6000, used_memory = 0,
     reserved_memory = 0x2000, total_pages = 8, last_free_index = 0,
     page_table = (\<lambda>i. \<lparr>reference_count = 0, page_flags = (if i < 2 then 1 else 0)\<rparr>)\<rparr>"

lemma example_ok: "pfa_ok 0xffff800000000000 example_pfa"
  by (simp add: pfa_ok_def example_pfa_def)

lemma example_locked: "frame_locked example_pfa i \<longleftrightarrow> i < 2"
  by (simp add: frame_locked_def example_pfa_def PAGE_FLAGS_LOCKED_def)

theorem RequestPage_first_fit_witness:
  "fst (RequestPage 0xffff800000000000 example_pfa) = 0xffff800000002000"
  using RequestPage_first_fit [OF example_ok]
proof (elim disjE exE conjE)
  fix j
  assume "\<not> frame_locked example_pfa j"
    and "\<forall>k. last_free_index example_pfa \<le> k \<and> k < j \<longrightarrow> frame_locked example_pfa k"
    and r: "RequestPage 0xffff800000000000 example_pfa = (j * 0x1000 + 0xffff800000000000,
      example_pfa\<lparr>page_table := (page_table example_pfa)(j := \<lparr>reference_count = 1,
          page_flags = page_flags (page_table example_pfa j) OR PAGE_FLAGS_LOCKED\<rparr>),
        free_memory := free_memory example_pfa - 0x1000,
        used_memory := used_memory example_pfa + 0x1000\<rparr>)"
  then have "\<not> j < 2" "\<not> 2 < j"
    by (auto simp only: example_locked dest!: spec [of _ 2]) (simp_all add: example_pfa_def)
  then have "j = 2" by (simp add: not_less le_less)
  then show ?thesis using r by simp
next
  assume "\<forall>k. last_free_index example_pfa \<le> k \<and> k < total_pages example_pfa \<longrightarrow>
    frame_locked example_pfa k"
  then have False
    by (auto simp only: example_locked dest!: spec [of _ 2]) (simp_all add: example_pfa_def)
  then show ?thesis ..
qed

text \<open>C3: Memory is conserved: after a successful initialisation and any sequence of allocator
  operations, with any arguments, free, used and reserved bytes add up to the total of the
  loader's memory map.\<close>

theorem pfa_conserves_memory:
  assumes "Initialize mb memmap blob_size (t, s) = (True, t', s')"
  shows "accounted (fold (pfa_exec mb) ops s') = total_memory (fold (pfa_exec mb) ops s')"
  using Initialize_accounted [OF assms] by (simp add: pfa_run_accounted)

lemma Initialize_succeeds:
  "find_table_mem memmap (SIZEOF_page_struct * (snd (memmap_totals memmap 0 0) div 0x1000)) \<noteq> 0
     \<Longrightarrow> fst (Initialize mb memmap blob st)"
  by (simp add: Initialize_def Let_def split_beta)

theorem pfa_conserves_memory_witness:
  "let st = Initialize 0xffff800000000000 [\<lparr>me_base = 0x100000, me_length = 0x800000, me_type = 0\<rparr>]
       0x200 (\<lparr>ap_trampoline_base = -1, ap_trampoline_region_size = 0\<rparr>, example_pfa);
     s = fold (pfa_exec 0xffff800000000000) [Op_RequestPages 3, Op_FreePage 0xffff800000200000]
       (snd (snd st))
   in fst st \<and> accounted s = total_memory s"
proof -
  let ?mm = "[\<lparr>me_base = 0x100000, me_length = 0x800000, me_type = 0\<rparr>]"
  obtain t' s' where i: "Initialize 0xffff800000000000 ?mm 0x200
      (\<lparr>ap_trampoline_base = -1, ap_trampoline_region_size = 0\<rparr>, example_pfa) = (True, t', s')"
    using Initialize_succeeds [of ?mm "0xffff800000000000" "0x200"
        "(\<lparr>ap_trampoline_base = -1, ap_trampoline_region_size = 0\<rparr>, example_pfa)"]
    by (cases "Initialize 0xffff800000000000 ?mm 0x200
        (\<lparr>ap_trampoline_base = -1, ap_trampoline_region_size = 0\<rparr>, example_pfa)")
      (simp add: SIZEOF_page_struct_def LIMINE_MEMMAP_USABLE_def)
  show ?thesis using pfa_conserves_memory [OF i] by (simp only: i Let_def fst_conv snd_conv)
qed

text \<open>C4: A run handed out by \<^verbatim>\<open>RequestPages\<close> consists of frames that were all unlocked
  before the call and are all locked after it; the call unlocks no frame; the run starts
  inside the table and ends at index \<^verbatim>\<open>total_pages\<close> at the latest.\<close>

theorem RequestPages_run:
  assumes "pfa_ok mb s" "0 < amount"
    and "RequestPages mb amount s = (v, t)" "v \<noteq> physical_to_virtual mb 0"
  shows "\<exists>j. v = physical_to_virtual mb (j * 0x1000) \<and>
    last_free_index s \<le> j \<and> j < total_pages s \<and>
    unat j + unat amount \<le> unat (total_pages s) + 1 \<and>
    (\<forall>k. unat j \<le> unat k \<and> unat k < unat j + unat amount \<longrightarrow>
       \<not> frame_locked s k \<and> frame_locked t k) \<and>
    (\<forall>k. frame_locked s k \<longrightarrow> frame_locked t k)"
proof -
  obtain r where r: "request_pages_loop mb amount (last_free_index s) s = (r, t)"
      "v = physical_to_virtual mb r"
    using assms(3) by (auto simp: RequestPages_def split: prod.splits)
  with assms(4) have "r \<noteq> 0" by auto
  from request_pages_loop_run [OF assms(1,2) r(1) this] show ?thesis
    by (auto simp: r(2) in_run_def)
qed

text \<open>The example memory after two frames were handed out.\<close>

definition example_pfa2 :: pfa where
  "example_pfa2 = example_pfa\<lparr>last_free_index := 6\<rparr>"

lemma example2_ok: "pfa_ok 0xffff800000000000 example_pfa2"
  by (simp add: pfa_ok_def example_pfa2_def example_pfa_def)

lemma example2_locked: "frame_locked example_pfa2 i \<longleftrightarrow> i < 2"
  using example_locked by (simp add: example_pfa2_def)

lemma example2_fields: "last_free_index example_pfa2 = 6" "total_pages example_pfa2 = 8"
  by (simp_all add: example_pfa2_def example_pfa_def)

lemma example2_first_locked: "first_locked 0xffff800000000000 6 8 example_pfa2 = None"
  by (simp add: first_locked.simps IsLocked_def page_index_def example_pfa2_def example_pfa_def
      PAGE_FLAGS_LOCKED_def Let_def)

theorem RequestPages_run_witness:
  "\<exists>j. fst (RequestPages 0xffff800000000000 2 example_pfa2) =
      physical_to_virtual 0xffff800000000000 (j * 0x1000) \<and> j = 6"
proof -
  let ?r = "RequestPages 0xffff800000000000 2 example_pfa2"
  have "request_pages_loop 0xffff800000000000 2 6 example_pfa2
      = (6 * 0x1000, claim_run 0xffff800000000000 6 2 example_pfa2)"
    using request_pages_step [OF example2_ok, of 6 2]
    by (simp add: example2_fields example2_locked example2_first_locked)
  then have f: "fst ?r = physical_to_virtual 0xffff800000000000 0x6000"
    by (simp add: RequestPages_def example2_fields)
  obtain v t where r: "?r = (v, t)" by force
  have "v \<noteq> physical_to_virtual 0xffff800000000000 0"
    using f r by (simp add: physical_to_virtual_def)
  from RequestPages_run [OF example2_ok _ r this]
  obtain j where "v = physical_to_virtual 0xffff800000000000 (j * 0x1000)" "6 \<le> j" "j < 8"
    by (auto simp: example2_fields)
  moreover from this have "j = 6 \<or> j = 7"
    by (auto simp: word_le_nat_alt word_less_nat_alt word_unat_eq_iff)
  ultimately show ?thesis using f r by (auto simp: physical_to_virtual_def)
qed

text \<open>When the unlocked frames \<open>l .. total_pages\<close> are one run and it is asked for whole.\<close>

lemma first_locked_free:
  assumes "pfa_ok mb s" "unat e * 4096 \<le> unat mb"
    and "\<And>k. b \<le> k \<Longrightarrow> k \<le> total_pages s \<Longrightarrow> \<not> frame_locked s k"
  shows "first_locked mb b e s = None"
  using assms(2,3)
proof (induction mb b e s rule: first_locked.induct)
  case (1 mb b e s)
  show ?case
  proof (cases "b < e")
    case True
    have idx: "page_index mb (b * 0x1000) = b"
      using True "1.prems"(1) by (intro page_index_physical) (simp add: word_less_nat_alt)
    have "\<not> IsLocked mb (b * 0x1000) s"
      using "1.prems"(2) [of b] by (auto simp: IsLocked_def frame_locked_def idx not_less)
    moreover have "first_locked mb (b + 1) e s = None"
      using "1.IH" "1.prems" True calculation inc_le64 [OF True] by (meson order_trans)
    ultimately show ?thesis by (simp add: first_locked.simps [of mb b e s])
  next
    case False
    then show ?thesis by (simp add: first_locked.simps [of mb b e s])
  qed
qed

text \<open>At the end of memory the off-by-one bounds check shows. If all frames from
  \<^verbatim>\<open>last_free_index\<close> on are free (and so is the entry behind the table), a request for one
  frame more than there are succeeds, with a run whose last frame does not exist; a larger
  request fails, but leaves every one of those frames locked although no one owns them.\<close>

theorem RequestPages_tail:
  assumes "pfa_ok mb s" "last_free_index s < total_pages s"
    and "\<And>k. last_free_index s \<le> k \<Longrightarrow> k \<le> total_pages s \<Longrightarrow> \<not> frame_locked s k"
    and "(unat (last_free_index s) + unat amount) * 4096 \<le> unat mb"
  shows "(unat amount = unat (total_pages s) + 1 - unat (last_free_index s) \<longrightarrow>
      fst (RequestPages mb amount s) = physical_to_virtual mb (last_free_index s * 0x1000)) \<and>
    (unat amount > unat (total_pages s) + 1 - unat (last_free_index s) \<longrightarrow>
      fst (RequestPages mb amount s) = physical_to_virtual mb 0 \<and>
      (\<forall>k. last_free_index s \<le> k \<and> k < total_pages s \<longrightarrow>
         frame_locked (snd (RequestPages mb amount s)) k))"
proof -
  let ?l = "last_free_index s"
  have lt: "unat ?l < unat (total_pages s)" using assms(2) by (simp add: word_less_nat_alt)
  have e: "unat (?l + amount) = unat ?l + unat amount"
    using le_less_trans [OF assms(4) unat_lt64] by (intro unat_add64) simp
  have none: "first_locked mb ?l (?l + amount) s = None"
    using assms(3,4) e by (intro first_locked_free [OF assms(1)]) auto
  have "\<not> frame_locked s ?l" using assms(2,3) by simp
  note step = request_pages_step [OF assms(1,2), of amount, unfolded none, simplified this]
  have exact: "fst (RequestPages mb amount s) = physical_to_virtual mb (?l * 0x1000)"
    if "unat amount = unat (total_pages s) + 1 - unat ?l"
    using that lt by (simp add: RequestPages_def step)
  have "fst (RequestPages mb amount s) = physical_to_virtual mb 0 \<and>
      (\<forall>k. ?l \<le> k \<and> k < total_pages s \<longrightarrow> frame_locked (snd (RequestPages mb amount s)) k)"
    if big: "unat amount > unat (total_pages s) + 1 - unat ?l"
  proof -
    let ?n = "unat (total_pages s) + 1 - unat ?l"
    have bound: "unat ?l + ?n \<le> 18446744073709551616"
      using assms(1) lt by (simp add: pfa_ok_def)
    have locked: "frame_locked (lock_run ?l ?n s) k" if "?l \<le> k" "k < total_pages s" for k
      unfolding lock_run_locked [OF bound] in_run_def
      using that by (simp add: word_le_nat_alt word_less_nat_alt)
    have "request_pages_loop mb amount (?l + 1) (lock_run ?l ?n s) = (0, lock_run ?l ?n s)"
      using assms(1) locked inc_le64 [OF assms(2)]
      by (intro request_pages_loop_full) (auto intro: order_trans)
    moreover have "\<not> unat ?l + unat amount \<le> unat (total_pages s) + 1" using big lt by linarith
    ultimately have "request_pages_loop mb amount ?l s = (0, lock_run ?l ?n s)"
      by (simp only: step if_False option.case)
    then show ?thesis using locked by (simp add: RequestPages_def)
  qed
  with exact show ?thesis by blast
qed

theorem RequestPages_tail_witness:
  "fst (RequestPages 0xffff800000000000 3 example_pfa2) =
     physical_to_virtual 0xffff800000000000 0x6000 \<and>
   frame_locked (snd (RequestPages 0xffff800000000000 4 example_pfa2)) 7"
proof -
  have free: "\<not> frame_locked example_pfa2 k" if "last_free_index example_pfa2 \<le> k" for k
    using that by (auto simp: example2_locked example2_fields word_le_nat_alt word_less_nat_alt)
  note tail = RequestPages_tail [OF example2_ok]
  show ?thesis using tail [of 3] tail [of 4] free
    by (simp add: example2_fields)
qed

text \<open>A frame with \<open>c\<close> references that gains \<open>n\<close> more stays locked and out of the
  pool through the first \<open>c + n - 1\<close> drops, whatever is between them, and is unlocked and
  returned to the pool exactly by drop \<open>c + n\<close>; this holds as long as the 8-bit count does
  not overflow.\<close>

theorem refcount_frees_at_last:
  assumes "1048576 \<le> page" and "page_index mb page \<le> total_pages s"
    and "reference_count (page_table s (page_index mb page)) = of_nat c"
    and "0 < c" and "c + n < 256"
  shows "(\<forall>k < c + n. frame_locked ((DecreaseReferenceCount mb page ^^ k)
             ((IncreaseReferenceCount mb page ^^ n) s)) (page_index mb page)
           = frame_locked s (page_index mb page) \<and>
         free_memory ((DecreaseReferenceCount mb page ^^ k)
             ((IncreaseReferenceCount mb page ^^ n) s)) = free_memory s) \<and>
    (let t = (DecreaseReferenceCount mb page ^^ (c + n)) ((IncreaseReferenceCount mb page ^^ n) s)
     in \<not> frame_locked t (page_index mb page) \<and> free_memory t = free_memory s + 0x1000 \<and>
        (\<forall>j. j \<noteq> page_index mb page \<longrightarrow> page_table t j = page_table s j))"
proof -
  let ?i = "page_index mb page"
  have inc: "(IncreaseReferenceCount mb page ^^ n) s = set_count ?i (of_nat (c + n)) s"
    using Increase_iterate [OF assms(2)] assms(3) by (simp add: count_of_def)
  note dec = Decrease_iterate [OF assms(2,5)]
  have last: "(DecreaseReferenceCount mb page ^^ (c + n)) (set_count ?i (of_nat (c + n)) s)
      = FreePage mb page (set_count ?i 0 s)"
  proof -
    have "c + n = Suc (c + n - 1)" using assms(4) by simp
    then have "(DecreaseReferenceCount mb page ^^ (c + n)) (set_count ?i (of_nat (c + n)) s)
        = DecreaseReferenceCount mb page (set_count ?i (of_nat (c + n - (c + n - 1))) s)"
      using dec [of "c + n - 1"] by (metis comp_apply diff_less funpow.simps(2) lessI zero_less_Suc)
    then show ?thesis using Decrease_last [OF assms(1,2), of 1] assms(4) by simp
  qed
  have freed: "page_table (FreePage mb page (set_count ?i 0 s)) = page_table (unlock_frame ?i (set_count ?i 0 s))"
      "free_memory (FreePage mb page (set_count ?i 0 s)) = free_memory s + 0x1000"
    using FreePage_frame [OF assms(1), of mb "set_count ?i 0 s"] assms(2)
    by (simp_all add: set_count_def)
  have "\<not> frame_locked (FreePage mb page (set_count ?i 0 s)) ?i"
    using frame_locked_unlock [of ?i "set_count ?i 0 s" ?i] freed(1) by (simp add: frame_locked_def)
  then show ?thesis unfolding inc last Let_def
    using freed dec by (auto simp: set_count_def unlock_frame_def frame_locked_def)
qed

theorem refcount_frees_at_last_witness:
  "let s = example_pfa\<lparr>total_pages := 0x300,
         page_table := (\<lambda>i. \<lparr>reference_count = 1, page_flags = 1\<rparr>)\<rparr>
   in \<not> frame_locked ((DecreaseReferenceCount 0xffff800000000000 0x200000 ^^ (1 + 2))
        ((IncreaseReferenceCount 0xffff800000000000 0x200000 ^^ 2) s)) 0x200"
proof -
  let ?s = "example_pfa\<lparr>total_pages := 0x300,
    page_table := (\<lambda>i. \<lparr>reference_count = 1, page_flags = 1\<rparr>)\<rparr>"
  have i: "page_index 0xffff800000000000 0x200000 = 0x200" by (simp add: page_index_def)
  have h: "(1048576 :: u64) \<le> 0x200000" "page_index 0xffff800000000000 0x200000 \<le> total_pages ?s"
      "reference_count (page_table ?s (page_index 0xffff800000000000 0x200000)) = of_nat 1"
      "0 < (1 :: nat)" "(1 :: nat) + 2 < 256"
    by (simp_all add: i)
  show ?thesis using refcount_frees_at_last [OF h] unfolding i Let_def by blast
qed

text \<open>The reference count is a byte and is not checked on the way up: the 256th reference
  wraps it to 0, and the next single drop frees the frame under its 255 remaining users.\<close>

theorem refcount_wraps:
  assumes "1048576 \<le> page" and "page_index mb page \<le> total_pages s"
    and "reference_count (page_table s (page_index mb page)) = 255"
  shows "GetReferenceCount mb page (IncreaseReferenceCount mb page s) = 0 \<and>
    \<not> frame_locked (DecreaseReferenceCount mb page (IncreaseReferenceCount mb page s))
       (page_index mb page)"
proof -
  let ?i = "page_index mb page"
  have "(255 :: u8) + 1 = 0" by simp
  then have inc: "IncreaseReferenceCount mb page s = set_count ?i 0 s"
    by (simp only: Increase_frame [OF assms(2)] count_of_def assms(3))
  have "page_table (FreePage mb page (set_count ?i 0 s)) = page_table (unlock_frame ?i (set_count ?i 0 s))"
    using FreePage_frame [OF assms(1), of mb "set_count ?i 0 s"] assms(2) by simp
  then have "\<not> frame_locked (FreePage mb page (set_count ?i 0 s)) ?i"
    using frame_locked_unlock [of ?i "set_count ?i 0 s" ?i] by (simp add: frame_locked_def)
  moreover have "GetReferenceCount mb page (set_count ?i 0 s) = 0"
    using count_of_set_count [of ?i 0 s] by (simp add: GetReferenceCount_def count_of_def Let_def)
  ultimately show ?thesis using Decrease_last [OF assms(1,2), of 0] by (simp add: inc)
qed

theorem refcount_wraps_witness:
  "\<not> frame_locked (DecreaseReferenceCount 0xffff800000000000 0x200000
      (IncreaseReferenceCount 0xffff800000000000 0x200000
        (example_pfa\<lparr>total_pages := 0x300, page_table := (\<lambda>i. \<lparr>reference_count = 255, page_flags = 1\<rparr>)\<rparr>)))
     0x200"
  using refcount_wraps [of "0x200000" "0xffff800000000000"
      "example_pfa\<lparr>total_pages := 0x300, page_table := (\<lambda>i. \<lparr>reference_count = 255, page_flags = 1\<rparr>)\<rparr>"]
  by (simp add: page_index_def)

end
