(* ===== verification/VM_Tracker.thy ===== *)
theory VM_Tracker
  imports Prelude
begin

text \<open>
  The virtual memory tracker of \<^verbatim>\<open>kernel/src/scheduling/task_scheduler/vm_tracker.cpp\<close>:
  the regions of an address space, kept in a list ordered by address. The singly linked
  \<^verbatim>\<open>vm_struct\<close> nodes are private to the tracker and each is reachable from one place only,
  so the chain is a list here; an allocation of a node always succeeds. \<^verbatim>\<open>exit\<close>, which
  needs the page tables, is modelled with them.
\<close>

subsection \<open>State\<close>

record vm_struct =
  vm_address :: u64
  vm_size :: u32
  vm_flags :: u32

record vm_tracker =
  vm_list :: "vm_struct list"
  total_marked_memory :: u64

definition VM_FLAG_RW :: u32 where "VM_FLAG_RW = push_bit 0 1"
definition VM_FLAG_US :: u32 where "VM_FLAG_US = push_bit 1 1"
definition VM_FLAG_WT :: u32 where "VM_FLAG_WT = push_bit 2 1"
definition VM_FLAG_CD :: u32 where "VM_FLAG_CD = push_bit 3 1"
definition VM_FLAG_NX :: u32 where "VM_FLAG_NX = push_bit 4 1"
definition VM_FLAG_DO_NOT_SHARE :: u32 where "VM_FLAG_DO_NOT_SHARE = push_bit 5 1"
definition VM_FLAG_COW :: u32 where "VM_FLAG_COW = push_bit 6 1"
definition VM_PENDING_COW :: u32 where "VM_PENDING_COW = push_bit 7 1"
definition VM_FLAG_DONT_FREE :: u32 where "VM_FLAG_DONT_FREE = push_bit 8 1"

definition vm_end :: "vm_struct \<Rightarrow> u64" where
  "vm_end v = vm_address v + ucast (vm_size v)"

subsection \<open>Marking a region\<close>

text \<open>The node goes in front of the first later node that does not have a smaller address.\<close>

fun insert_after :: "vm_struct \<Rightarrow> vm_struct list \<Rightarrow> vm_struct list" where
  "insert_after vm [] = [vm]"
| "insert_after vm (v # vs) =
     (if vm_address v < vm_address vm then v # insert_after vm vs else vm # v # vs)"

fun add_to_list :: "vm_struct \<Rightarrow> vm_struct list \<Rightarrow> vm_struct list" where
  "add_to_list vm [] = [vm]"
| "add_to_list vm (v # vs) =
     (if vm_address vm < vm_address v then vm # v # vs else v # insert_after vm vs)"

text \<open>
  The search of \<^verbatim>\<open>mark_allocation\<close> for a node that the region extends: \<open>None\<close> if the loop
  falls through. At its end, a node also swallows the next one if they now touch.
\<close>

fun extend_node :: "u64 \<Rightarrow> u32 \<Rightarrow> u32 \<Rightarrow> vm_struct list \<Rightarrow> vm_struct list option" where
  "extend_node va sz flags [] = None"
| "extend_node va sz flags (vm # vs) =
     (let at_end = vm_end vm = va;
          at_start = va + ucast sz = vm_address vm;
          extends = (at_end \<or> at_start) \<and> vm_flags vm = flags
      in if \<not> extends then map_option (Cons vm) (extend_node va sz flags vs)
         else if at_start
         then Some (vm\<lparr>vm_address := va, vm_size := vm_size vm + sz\<rparr> # vs)
         else let vm' = vm\<lparr>vm_size := vm_size vm + sz\<rparr> in
           case vs of
             [] \<Rightarrow> Some [vm']
           | victim # vs' \<Rightarrow>
               if vm_address victim = vm_end vm' \<and> vm_flags victim = flags
               then Some (vm'\<lparr>vm_size := vm_size vm' + vm_size victim\<rparr> # vs')
               else Some (vm' # vs))"

definition mark_allocation :: "u64 \<Rightarrow> u32 \<Rightarrow> u32 \<Rightarrow> vm_tracker \<Rightarrow> vm_tracker" where
  "mark_allocation va sz flags t =
     (let t' = t\<lparr>total_marked_memory := total_marked_memory t + ucast sz\<rparr> in
      case extend_node va sz flags (vm_list t') of
        Some vs \<Rightarrow> t'\<lparr>vm_list := vs\<rparr>
      | None \<Rightarrow> t'\<lparr>vm_list := add_to_list
            \<lparr>vm_address = va, vm_size = sz, vm_flags = flags\<rparr> (vm_list t')\<rparr>)"

subsection \<open>Removing a region\<close>

text \<open>What \<^verbatim>\<open>_handle_trimming\<close> leaves of a node that the range cuts: a prefix, a suffix or both.\<close>

definition handle_trimming :: "vm_struct \<Rightarrow> u64 \<Rightarrow> u64 \<Rightarrow> vm_struct list" where
  "handle_trimming target start stop =
     (let vma_start = vm_address target; vma_end = vm_end target in
      if start > vma_start then
        let t1 = target\<lparr>vm_size := ucast (start - vma_start)\<rparr> in
        if stop \<ge> vma_end then [t1]
        else [t1, \<lparr>vm_address = stop, vm_size = ucast (vma_end - stop), vm_flags = vm_flags t1\<rparr>]
      else if stop < vma_end
      then [target\<lparr>vm_address := stop, vm_size := ucast (vma_end - stop)\<rparr>]
      else [target])"

text \<open>The loop that \<^verbatim>\<open>remove_allocation\<close> and \<^verbatim>\<open>change_flags\<close> share.\<close>

fun cut_range :: "u64 \<Rightarrow> u64 \<Rightarrow> vm_struct list \<Rightarrow> vm_struct list" where
  "cut_range start stop [] = []"
| "cut_range start stop (vm # vs) =
     (let vma_start = vm_address vm; vma_end = vm_end vm;
          full_overlap = (vma_start \<ge> start \<and> vma_end \<le> stop);
          overlaps = (\<not> (stop \<le> vma_start \<or> start \<ge> vma_end));
          trim = (overlaps \<and> \<not> full_overlap)
      in if full_overlap then cut_range start stop vs
         else if trim then handle_trimming vm start stop @ cut_range start stop vs
         else vm # cut_range start stop vs)"

definition remove_allocation :: "u64 \<Rightarrow> u32 \<Rightarrow> vm_tracker \<Rightarrow> vm_tracker" where
  "remove_allocation va sz t =
     t\<lparr>vm_list := cut_range va (va + ucast sz) (vm_list t),
       total_marked_memory := total_marked_memory t - ucast sz\<rparr>"

definition change_flags :: "u64 \<Rightarrow> u32 \<Rightarrow> u32 \<Rightarrow> vm_tracker \<Rightarrow> vm_tracker" where
  "change_flags start sz new_flags t =
     mark_allocation start sz new_flags
       (t\<lparr>vm_list := cut_range start (start + ucast sz) (vm_list t)\<rparr>)"

subsection \<open>Look-up and copying\<close>

definition in_vm :: "u64 \<Rightarrow> vm_struct \<Rightarrow> bool" where
  "in_vm va v \<longleftrightarrow> va \<ge> vm_address v \<and> va < vm_end v"

definition get_page :: "u64 \<Rightarrow> vm_tracker \<Rightarrow> vm_struct option" where
  "get_page va t = find (in_vm va) (vm_list t)"

text \<open>The return type is \<^verbatim>\<open>uint8_t\<close>.\<close>

definition get_flags :: "u64 \<Rightarrow> vm_tracker \<Rightarrow> u8" where
  "get_flags va t = (case find (in_vm va) (vm_list t) of Some v \<Rightarrow> ucast (vm_flags v) | None \<Rightarrow> 0)"

fun copy_vmm_loop :: "vm_struct list \<Rightarrow> vm_tracker \<Rightarrow> vm_tracker" where
  "copy_vmm_loop [] dest = dest"
| "copy_vmm_loop (vm # vs) dest =
     (if vm_flags vm AND VM_FLAG_DO_NOT_SHARE \<noteq> 0 then copy_vmm_loop vs dest
      else copy_vmm_loop vs (mark_allocation (vm_address vm) (vm_size vm) (vm_flags vm) dest))"

definition copy_vmm :: "vm_tracker \<Rightarrow> vm_tracker \<Rightarrow> vm_tracker" where
  "copy_vmm dest src = copy_vmm_loop (vm_list src) dest"

subsection \<open>The invariant and the map a tracker stands for\<close>

text \<open>A region as a natural-number interval; it is not empty and does not wrap.\<close>

abbreviation lo :: "vm_struct \<Rightarrow> nat" where
  "lo v \<equiv> unat (vm_address v)"

abbreviation hi :: "vm_struct \<Rightarrow> nat" where
  "hi v \<equiv> unat (vm_address v) + unat (vm_size v)"

definition vm_ok :: "vm_struct \<Rightarrow> bool" where
  "vm_ok v \<longleftrightarrow> vm_size v \<noteq> 0 \<and> hi v < 18446744073709551616"

text \<open>Well-formed: sound regions in address order that do not overlap.\<close>

definition vm_wf :: "vm_struct list \<Rightarrow> bool" where
  "vm_wf vs \<longleftrightarrow> (\<forall>v \<in> set vs. vm_ok v) \<and> sorted_wrt (\<lambda>v w. hi v \<le> lo w) vs"

definition covers :: "vm_struct list \<Rightarrow> u64 \<Rightarrow> u32 \<Rightarrow> bool" where
  "covers vs a f \<longleftrightarrow> (\<exists>v \<in> set vs. lo v \<le> unat a \<and> unat a < hi v \<and> vm_flags v = f)"

text \<open>The abstraction: which addresses are tracked, and with which flags.\<close>

definition flags_at :: "vm_struct list \<Rightarrow> u64 \<Rightarrow> u32 option" where
  "flags_at vs a = map_option vm_flags (find (in_vm a) vs)"

lemma vm_wf_Cons: "vm_wf (v # vs) \<longleftrightarrow> vm_ok v \<and> (\<forall>w \<in> set vs. hi v \<le> lo w) \<and> vm_wf vs"
  by (auto simp: vm_wf_def)

lemma vm_wf_Nil [simp]: "vm_wf []"
  by (simp add: vm_wf_def)

lemma covers_Cons: "covers (v # vs) a f \<longleftrightarrow>
    lo v \<le> unat a \<and> unat a < hi v \<and> vm_flags v = f \<or> covers vs a f"
  by (auto simp: covers_def)

lemma covers_Nil [simp]: "\<not> covers [] a f"
  by (simp add: covers_def)

lemma vm_ok_pos: "vm_ok v \<Longrightarrow> 0 < unat (vm_size v)"
  by (simp add: vm_ok_def unat_gt_0)

lemma vm_end_unat: "vm_ok v \<Longrightarrow> unat (vm_end v) = hi v"
  by (simp add: vm_end_def vm_ok_def unat_add64)

lemma in_vm_iff: "vm_ok v \<Longrightarrow> in_vm a v \<longleftrightarrow> lo v \<le> unat a \<and> unat a < hi v"
  by (simp add: in_vm_def word_le_nat_alt word_less_nat_alt vm_end_unat)

lemma covers_lo: "covers vs a f \<Longrightarrow> \<exists>v \<in> set vs. lo v \<le> unat a"
  by (auto simp: covers_def)

lemma flags_at_covers: "vm_wf vs \<Longrightarrow> flags_at vs a = Some f \<longleftrightarrow> covers vs a f"
proof (induction vs)
  case (Cons v vs)
  have ok: "vm_ok v" and later: "\<And>w. w \<in> set vs \<Longrightarrow> hi v \<le> lo w" and wf: "vm_wf vs"
    using Cons.prems by (auto simp: vm_wf_Cons)
  show ?case
  proof (cases "in_vm a v")
    case True
    then have "\<not> covers vs a f" using covers_lo [of vs a f] later ok by (fastforce simp: in_vm_iff)
    then show ?thesis using True ok by (simp add: flags_at_def covers_Cons in_vm_iff)
  next
    case False
    then show ?thesis using Cons.IH [OF wf] ok by (auto simp: flags_at_def covers_Cons in_vm_iff)
  qed
qed (simp add: flags_at_def)

lemma flags_at_eqI:
  assumes "vm_wf vs" "\<And>f. covers vs a f \<longleftrightarrow> r = Some f"
  shows "flags_at vs a = r"
  using assms by (intro option_eqI_Some) (simp add: flags_at_covers)

subsection \<open>Cutting a range out\<close>

text \<open>
  The nodes that remain of one node: sound, in order, inside the node, and covering what
  the node covered outside the range.
\<close>

definition cut_node :: "u64 \<Rightarrow> u64 \<Rightarrow> vm_struct \<Rightarrow> vm_struct list" where
  "cut_node start stop vm = cut_range start stop [vm]"

lemma cut_range_concat: "cut_range start stop vs = concat (map (cut_node start stop) vs)"
  by (induction vs) (auto simp: cut_node_def Let_def)

lemma trunc_le32: "unat (x :: u64) \<le> unat (y :: u32) \<Longrightarrow> unat (ucast x :: u32) = unat x"
  using unat_lt32 [of y] by (intro unat_trunc32) simp

lemma cut_node_cases:
  assumes "vm_ok v" "unat start \<le> unat stop"
  obtains (full) "unat start \<le> lo v" "hi v \<le> unat stop" "cut_node start stop v = []"
    | (out) "unat stop \<le> lo v \<or> hi v \<le> unat start" "cut_node start stop v = [v]"
    | (prefix) w where "lo v < unat start" "unat start < hi v" "hi v \<le> unat stop"
        "cut_node start stop v = [w]" "lo w = lo v" "hi w = unat start" "vm_flags w = vm_flags v"
    | (suffix) w where "unat start \<le> lo v" "lo v < unat stop" "unat stop < hi v"
        "cut_node start stop v = [w]" "lo w = unat stop" "hi w = hi v" "vm_flags w = vm_flags v"
    | (both) w u where "lo v < unat start" "unat start < hi v" "unat stop < hi v"
        "cut_node start stop v = [w, u]" "lo w = lo v" "hi w = unat start" "vm_flags w = vm_flags v"
        "lo u = unat stop" "hi u = hi v" "vm_flags u = vm_flags v"
proof -
  have e: "unat (vm_end v) = hi v" by (rule vm_end_unat [OF assms(1)])
  note cmp = word_le_nat_alt word_less_nat_alt e
  have pre: "unat (ucast (start - vm_address v) :: u32) = unat start - lo v"
    if "lo v < unat start" "unat start < hi v"
    using that trunc_le32 [of "start - vm_address v" "vm_size v"]
    by (simp add: unat_sub64 word_le_nat_alt)
  have suf: "unat (ucast (vm_end v - stop) :: u32) = hi v - unat stop"
    if "lo v \<le> unat stop" "unat stop < hi v"
    using that trunc_le32 [of "vm_end v - stop" "vm_size v"]
    by (simp add: unat_sub64 word_le_nat_alt e)
  consider "unat start \<le> lo v" "hi v \<le> unat stop"
    | "unat stop \<le> lo v \<or> hi v \<le> unat start" "\<not> (unat start \<le> lo v \<and> hi v \<le> unat stop)"
    | "lo v < unat start" "unat start < hi v" "hi v \<le> unat stop"
    | "unat start \<le> lo v" "lo v < unat stop" "unat stop < hi v"
    | "lo v < unat start" "unat start < hi v" "unat stop < hi v"
    using assms(2) by linarith
  then show ?thesis
  proof cases
    case 1
    then show ?thesis by (intro full) (simp_all add: cut_node_def Let_def cmp)
  next
    case 2
    then show ?thesis by (intro out) (auto simp: cut_node_def Let_def cmp)
  next
    case 3
    then show ?thesis using pre
      by (intro prefix [of "v\<lparr>vm_size := ucast (start - vm_address v)\<rparr>"])
        (simp_all add: cut_node_def handle_trimming_def Let_def cmp)
  next
    case 4
    then show ?thesis using suf
      by (intro suffix [of "v\<lparr>vm_address := stop, vm_size := ucast (vm_end v - stop)\<rparr>"])
        (simp_all add: cut_node_def handle_trimming_def Let_def cmp)
  next
    case 5
    then show ?thesis using pre suf assms(2)
      by (intro both [of "v\<lparr>vm_size := ucast (start - vm_address v)\<rparr>"
            "\<lparr>vm_address = stop, vm_size = ucast (vm_end v - stop), vm_flags = vm_flags v\<rparr>"])
        (simp_all add: cut_node_def handle_trimming_def Let_def cmp)
  qed
qed

lemma vm_ok_iff: "vm_ok v \<longleftrightarrow> lo v < hi v \<and> hi v < 18446744073709551616"
  by (simp add: vm_ok_def unat_gt_0)

lemma cut_node_spec:
  assumes "vm_ok v" "unat start \<le> unat stop"
  shows "vm_wf (cut_node start stop v) \<and>
    (\<forall>w \<in> set (cut_node start stop v). lo v \<le> lo w \<and> hi w \<le> hi v) \<and>
    (\<forall>a f. covers (cut_node start stop v) a f \<longleftrightarrow>
       covers [v] a f \<and> \<not> (unat start \<le> unat a \<and> unat a < unat stop))"
  using assms
proof (cases rule: cut_node_cases)
  case (prefix w)
  then show ?thesis unfolding prefix(4) vm_wf_Cons covers_Cons vm_ok_iff
    using assms by (auto simp: vm_ok_iff)
next
  case (suffix w)
  then show ?thesis unfolding suffix(4) vm_wf_Cons covers_Cons vm_ok_iff
    using assms by (auto simp: vm_ok_iff)
next
  case (both w u)
  then show ?thesis unfolding both(4) vm_wf_Cons covers_Cons vm_ok_iff
    using assms by (auto simp: vm_ok_iff)
qed (use assms in \<open>auto simp: covers_Cons vm_wf_Cons\<close>)

lemma vm_wf_append: "vm_wf (xs @ ys) \<longleftrightarrow>
    vm_wf xs \<and> vm_wf ys \<and> (\<forall>x \<in> set xs. \<forall>y \<in> set ys. hi x \<le> lo y)"
  by (auto simp: vm_wf_def sorted_wrt_append)

lemma covers_append: "covers (xs @ ys) a f \<longleftrightarrow> covers xs a f \<or> covers ys a f"
  by (auto simp: covers_def)

lemma cut_range_Cons: "cut_range start stop (v # vs) = cut_node start stop v @ cut_range start stop vs"
  by (simp add: cut_range_concat)

lemma cut_range_spec:
  assumes "vm_wf vs" "unat start \<le> unat stop"
  shows "vm_wf (cut_range start stop vs) \<and>
    (\<forall>w \<in> set (cut_range start stop vs). \<exists>v \<in> set vs. lo v \<le> lo w \<and> hi w \<le> hi v) \<and>
    (\<forall>a f. covers (cut_range start stop vs) a f \<longleftrightarrow>
       covers vs a f \<and> \<not> (unat start \<le> unat a \<and> unat a < unat stop))"
  using assms(1)
proof (induction vs)
  case (Cons v vs)
  have v: "vm_ok v" "\<And>w. w \<in> set vs \<Longrightarrow> hi v \<le> lo w" "vm_wf vs"
    using Cons.prems by (auto simp: vm_wf_Cons)
  note node = cut_node_spec [OF v(1) assms(2)] and IH = Cons.IH [OF v(3)]
  have order: "hi x \<le> lo y"
    if x: "x \<in> set (cut_node start stop v)" and y: "y \<in> set (cut_range start stop vs)" for x y
  proof -
    obtain w where "w \<in> set vs" "lo w \<le> lo y" using IH y by blast
    moreover have "hi x \<le> hi v" using node x by blast
    ultimately show ?thesis using v(2) by fastforce
  qed
  have wf: "vm_wf (cut_range start stop (v # vs))"
    unfolding cut_range_Cons vm_wf_append using node IH order by blast
  have inside: "\<forall>w \<in> set (cut_range start stop (v # vs)). \<exists>u \<in> set (v # vs). lo u \<le> lo w \<and> hi w \<le> hi u"
    unfolding cut_range_Cons using node IH by fastforce
  have "covers (cut_range start stop (v # vs)) a f \<longleftrightarrow>
      covers (v # vs) a f \<and> \<not> (unat start \<le> unat a \<and> unat a < unat stop)" for a f
    unfolding cut_range_Cons covers_append using node IH by (auto simp: covers_Cons)
  with wf inside show ?case by blast
qed simp

subsection \<open>Inserting and extending\<close>

text \<open>A region that overlaps no tracked one.\<close>

definition vm_free :: "u64 \<Rightarrow> u32 \<Rightarrow> vm_struct list \<Rightarrow> bool" where
  "vm_free va sz vs \<longleftrightarrow> (\<forall>v \<in> set vs. hi v \<le> unat va \<or> unat va + unat sz \<le> lo v)"

lemma insert_after_spec:
  "vm_wf vs \<Longrightarrow> vm_ok n \<Longrightarrow> vm_free (vm_address n) (vm_size n) vs \<Longrightarrow>
     vm_wf (insert_after n vs) \<and> set (insert_after n vs) = insert n (set vs)"
proof (induction vs)
  case (Cons v vs)
  have pos: "0 < unat (vm_size n)" "0 < unat (vm_size v)"
    using Cons.prems vm_ok_pos by (auto simp: vm_wf_Cons)
  show ?case
  proof (cases "vm_address v < vm_address n")
    case True
    then have "hi v \<le> lo n" using Cons.prems pos by (auto simp: vm_free_def word_less_nat_alt)
    then show ?thesis using True Cons by (auto simp: vm_wf_Cons vm_free_def)
  next
    case False
    then have "hi n \<le> lo v" using Cons.prems pos by (auto simp: vm_free_def word_less_nat_alt)
    then show ?thesis using False Cons by (fastforce simp: vm_wf_Cons)
  qed
qed (simp add: vm_wf_Cons)

lemma add_to_list_spec:
  assumes "vm_wf vs" "vm_ok n" "vm_free (vm_address n) (vm_size n) vs"
  shows "vm_wf (add_to_list n vs) \<and> set (add_to_list n vs) = insert n (set vs)"
proof (cases vs)
  case Nil
  then show ?thesis using assms by (simp add: vm_wf_Cons)
next
  case (Cons v ws)
  have pos: "0 < unat (vm_size n)" "0 < unat (vm_size v)"
    using assms vm_ok_pos by (auto simp: vm_wf_Cons Cons)
  note ins = insert_after_spec [of ws n]
  show ?thesis
  proof (cases "vm_address n < vm_address v")
    case True
    then have "hi n \<le> lo v" using assms pos by (auto simp: Cons vm_free_def word_less_nat_alt)
    then show ?thesis using True assms by (fastforce simp: Cons vm_wf_Cons)
  next
    case False
    then have "hi v \<le> lo n" using assms pos by (auto simp: Cons vm_free_def word_less_nat_alt)
    then show ?thesis using False assms ins by (auto simp: Cons vm_wf_Cons vm_free_def)
  qed
qed

text \<open>The bytes a tracker tracks; a merged node's 32-bit size cannot exceed it.\<close>

definition vm_bytes :: "vm_struct list \<Rightarrow> nat" where
  "vm_bytes vs = sum_list (map (\<lambda>v. unat (vm_size v)) vs)"

lemma vm_bytes_simps [simp]:
  "vm_bytes [] = 0" "vm_bytes (v # vs) = unat (vm_size v) + vm_bytes vs"
  by (simp_all add: vm_bytes_def)

text \<open>
  What extending may do to a list: it adds exactly the region; the nodes of the result keep
  their start, but for one that may start at the region's.
\<close>

definition extended :: "u64 \<Rightarrow> u32 \<Rightarrow> u32 \<Rightarrow> vm_struct list \<Rightarrow> vm_struct list \<Rightarrow> bool" where
  "extended va sz flags vs ws \<longleftrightarrow> vm_wf ws \<and>
    (\<forall>w \<in> set ws. (\<exists>v \<in> set vs. lo v = lo w) \<or>
       lo w = unat va \<and> (\<exists>v \<in> set vs. lo v = unat va + unat sz)) \<and>
    (\<forall>a f. covers ws a f \<longleftrightarrow>
       covers vs a f \<or> (unat va \<le> unat a \<and> unat a < unat va + unat sz \<and> f = flags))"

text \<open>The preconditions: the region is sound and free, and no merged size overflows.\<close>

definition markable :: "u64 \<Rightarrow> u32 \<Rightarrow> vm_struct list \<Rightarrow> bool" where
  "markable va sz vs \<longleftrightarrow> sz \<noteq> 0 \<and> unat va + unat sz < 18446744073709551616 \<and>
     vm_free va sz vs \<and> vm_bytes vs + unat sz < 4294967296"

lemma markable_tl: "markable va sz (v # vs) \<Longrightarrow> markable va sz vs"
  by (simp add: markable_def vm_free_def)

lemma markable_pos: "markable va sz vs \<Longrightarrow> 0 < unat sz"
  by (simp add: markable_def unat_gt_0)

lemma markable_grow: "markable va sz (v # vs) \<Longrightarrow>
    unat (vm_size v + sz) = unat (vm_size v) + unat sz"
  by (intro unat_add32) (simp add: markable_def)

lemma extended_other:
  assumes "vm_wf (v # vs)" "markable va sz (v # vs)" "extended va sz flags vs us"
  shows "extended va sz flags (v # vs) (v # us)"
proof -
  note wf = assms(1) [unfolded vm_wf_Cons] and IH = assms(3) [unfolded extended_def]
  have pos: "0 < unat sz" "0 < unat (vm_size v)"
    using markable_pos [OF assms(2)] wf vm_ok_pos by blast+
  have "hi v \<le> unat va" if "u \<in> set vs" "lo u = unat va + unat sz" for u
    using that wf assms(2) pos by (fastforce simp: vm_free_def markable_def)
  then have "hi v \<le> lo w" if "w \<in> set us" for w
    using IH wf that by fastforce
  then show ?thesis using IH wf unfolding extended_def by (auto simp: vm_wf_Cons covers_Cons)
qed

lemma extended_front:
  assumes "vm_wf (v # vs)" "markable va sz (v # vs)"
    and "unat va + unat sz = lo v" "vm_flags v = flags"
  shows "extended va sz flags (v # vs) (v\<lparr>vm_address := va, vm_size := vm_size v + sz\<rparr> # vs)"
  using assms(1,3,4) markable_grow [OF assms(2)] markable_pos [OF assms(2)]
  by (auto simp: extended_def vm_wf_Cons covers_Cons vm_ok_def word_unat_eq_iff)

text \<open>The grown node at the end of which the region starts, and what follows it.\<close>

lemma extended_back:
  assumes "vm_wf (v # vs)" "markable va sz (v # vs)" "hi v = unat va" "vm_flags v = flags"
  shows "extended va sz flags (v # vs) (v\<lparr>vm_size := vm_size v + sz\<rparr> # vs)"
    and "vm_ok (v\<lparr>vm_size := vm_size v + sz\<rparr>)"
proof -
  note wf = assms(1) [unfolded vm_wf_Cons] and grow = markable_grow [OF assms(2)]
  show ok: "vm_ok (v\<lparr>vm_size := vm_size v + sz\<rparr>)"
    using assms(2,3) grow markable_pos [OF assms(2)]
    by (simp add: vm_ok_def word_unat_eq_iff markable_def)
  have "lo v + (unat (vm_size v) + unat sz) \<le> lo w" if w: "w \<in> set vs" for w
  proof -
    have "hi v \<le> lo w" "0 < unat (vm_size w)" using wf w vm_ok_pos by (auto simp: vm_wf_def)
    then show ?thesis using assms(2,3) w by (fastforce simp: vm_free_def markable_def)
  qed
  then show "extended va sz flags (v # vs) (v\<lparr>vm_size := vm_size v + sz\<rparr> # vs)"
    using wf assms(3,4) grow ok by (auto simp: extended_def vm_wf_Cons covers_Cons)
qed

lemma extended_merge:
  assumes "vm_wf (v # u # us)" "markable va sz (v # u # us)" "hi v = unat va" "vm_flags v = flags"
    and "lo u = unat va + unat sz" "vm_flags u = flags"
  shows "extended va sz flags (v # u # us)
    (v\<lparr>vm_size := vm_size v + sz + vm_size u\<rparr> # us)"
proof -
  have "unat (vm_size v + sz + vm_size u) = unat (vm_size v) + unat sz + unat (vm_size u)"
    using assms(2) markable_grow [OF assms(2)] by (subst unat_add32) (simp_all add: markable_def)
  then show ?thesis using assms markable_pos [OF assms(2)]
    by (auto simp: extended_def vm_wf_Cons covers_Cons vm_ok_def word_unat_eq_iff)
qed

lemma extend_node_cases:
  assumes "extend_node va sz flags (v # vs) = Some ws"
  obtains (other) us where "extend_node va sz flags vs = Some us" "ws = v # us"
    | (front) "va + ucast sz = vm_address v" "vm_flags v = flags"
        "ws = v\<lparr>vm_address := va, vm_size := vm_size v + sz\<rparr> # vs"
    | (merge) u us where "vs = u # us" "vm_end v = va" "vm_flags v = flags" "vm_flags u = flags"
        "vm_address u = vm_end (v\<lparr>vm_size := vm_size v + sz\<rparr>)"
        "ws = v\<lparr>vm_size := vm_size v + sz + vm_size u\<rparr> # us"
    | (grow) "vm_end v = va" "vm_flags v = flags" "ws = v\<lparr>vm_size := vm_size v + sz\<rparr> # vs"
proof (cases "(vm_end v = va \<or> va + ucast sz = vm_address v) \<and> vm_flags v = flags")
  case False
  then show ?thesis using assms other by (auto simp: Let_def)
next
  case True
  show ?thesis
  proof (cases "va + ucast sz = vm_address v")
    case at_start: True
    then show ?thesis using assms True front by (simp add: Let_def)
  next
    case not_start: False
    show ?thesis
    proof (cases vs)
      case Nil
      then show ?thesis using assms True not_start grow by (simp add: Let_def)
    next
      case (Cons u us)
      then show ?thesis using assms True not_start grow merge [of u us]
        by (simp add: Let_def split: if_splits)
    qed
  qed
qed

lemma extend_node_spec:
  "vm_wf vs \<Longrightarrow> markable va sz vs \<Longrightarrow> extend_node va sz flags vs = Some ws \<Longrightarrow>
     extended va sz flags vs ws"
proof (induction vs arbitrary: ws)
  case (Cons v vs)
  note wf = Cons.prems(1) and free = Cons.prems(2)
  have at_end: "vm_end v = va \<longleftrightarrow> hi v = unat va"
    using vm_end_unat [of v] wf by (simp add: word_unat_eq_iff vm_wf_Cons)
  have stop: "unat (va + ucast sz) = unat va + unat sz"
    using free by (simp add: unat_add64 markable_def)
  have at_start: "va + ucast sz = vm_address v \<longleftrightarrow> unat va + unat sz = lo v"
    by (simp only: word_unat_eq_iff stop)
  from Cons.prems(3) show ?case
  proof (cases rule: extend_node_cases)
    case (other us)
    moreover have "vm_wf vs" using wf by (simp add: vm_wf_Cons)
    ultimately show ?thesis
      using extended_other [OF wf free] Cons.IH markable_tl [OF free] by blast
  next
    case front
    then show ?thesis using extended_front [OF wf free] at_start by simp
  next
    case (merge u us)
    have "hi v = unat va" using merge at_end by simp
    moreover have "lo u = unat va + unat sz"
      using vm_end_unat [OF extended_back(2) [OF wf free calculation merge(3)]]
        markable_grow [OF free] merge(5) calculation by simp
    ultimately show ?thesis using extended_merge [of v u us va sz flags] wf free merge by simp
  next
    case grow
    then show ?thesis using extended_back(1) [OF wf free] at_end by simp
  qed
qed simp

subsection \<open>Regions as an interface\<close>

text \<open>
  What the rest of the kernel relies on: marking a free region overrides the map on the
  region, cutting a range undefines it there, and both keep the invariant. Replacing the
  flags of a range, as \<^verbatim>\<open>change_flags\<close> does, is a client of the two.
\<close>

locale region_map =
  fixes mark :: "u64 \<Rightarrow> u32 \<Rightarrow> u32 \<Rightarrow> 'm \<Rightarrow> 'm"
    and cut :: "u64 \<Rightarrow> u64 \<Rightarrow> 'm \<Rightarrow> 'm"
    and at :: "'m \<Rightarrow> u64 \<Rightarrow> u32 option"
    and wf :: "'m \<Rightarrow> bool"
    and can_mark :: "u64 \<Rightarrow> u32 \<Rightarrow> 'm \<Rightarrow> bool"
    and room :: "u32 \<Rightarrow> 'm \<Rightarrow> bool"
  assumes wf_mark: "wf m \<Longrightarrow> can_mark va sz m \<Longrightarrow> wf (mark va sz fl m)"
    and at_mark: "wf m \<Longrightarrow> can_mark va sz m \<Longrightarrow> at (mark va sz fl m) a =
      (if unat va \<le> unat a \<and> unat a < unat va + unat sz then Some fl else at m a)"
    and wf_cut: "wf m \<Longrightarrow> unat start \<le> unat stop \<Longrightarrow> wf (cut start stop m)"
    and at_cut: "wf m \<Longrightarrow> unat start \<le> unat stop \<Longrightarrow> at (cut start stop m) a =
      (if unat start \<le> unat a \<and> unat a < unat stop then None else at m a)"
    and can_mark_cut: "wf m \<Longrightarrow> sz \<noteq> 0 \<Longrightarrow> unat va + unat sz < 18446744073709551616 \<Longrightarrow> room sz m \<Longrightarrow>
      can_mark va sz (cut va (va + ucast sz) m)"
begin

definition replace :: "u64 \<Rightarrow> u32 \<Rightarrow> u32 \<Rightarrow> 'm \<Rightarrow> 'm" where
  "replace va sz fl m = mark va sz fl (cut va (va + ucast sz) m)"

lemma replace_spec:
  assumes "wf m" "sz \<noteq> 0" "unat va + unat sz < 18446744073709551616" "room sz m"
  shows "wf (replace va sz fl m)"
    and "at (replace va sz fl m) a =
      (if unat va \<le> unat a \<and> unat a < unat va + unat sz then Some fl else at m a)"
proof -
  have stop: "unat (va + ucast sz) = unat va + unat sz" using assms(3) by (simp add: unat_add64)
  then have le: "unat va \<le> unat (va + ucast sz)" by simp
  note cut = wf_cut [OF assms(1) le] and can = can_mark_cut [OF assms]
  show "wf (replace va sz fl m)" unfolding replace_def by (rule wf_mark [OF cut can])
  show "at (replace va sz fl m) a =
      (if unat va \<le> unat a \<and> unat a < unat va + unat sz then Some fl else at m a)"
    by (simp add: replace_def at_mark [OF cut can] at_cut [OF assms(1) le] stop)
qed

end

definition mark_list :: "u64 \<Rightarrow> u32 \<Rightarrow> u32 \<Rightarrow> vm_struct list \<Rightarrow> vm_struct list" where
  "mark_list va sz flags vs = vm_list (mark_allocation va sz flags
     \<lparr>vm_list = vs, total_marked_memory = 0\<rparr>)"

lemma mark_allocation_list: "vm_list (mark_allocation va sz flags t) = mark_list va sz flags (vm_list t)"
  by (simp add: mark_list_def mark_allocation_def Let_def split: option.split)

lemma mark_list_spec:
  assumes "vm_wf vs" "markable va sz vs"
  shows "vm_wf (mark_list va sz flags vs) \<and>
    (\<forall>a f. covers (mark_list va sz flags vs) a f \<longleftrightarrow>
       covers vs a f \<or> (unat va \<le> unat a \<and> unat a < unat va + unat sz \<and> f = flags))"
proof (cases "extend_node va sz flags vs")
  case None
  let ?n = "\<lparr>vm_address = va, vm_size = sz, vm_flags = flags\<rparr>"
  have "vm_wf (add_to_list ?n vs) \<and> set (add_to_list ?n vs) = insert ?n (set vs)"
    using assms by (intro add_to_list_spec) (auto simp: markable_def vm_ok_def)
  then show ?thesis using None by (auto simp: mark_list_def mark_allocation_def covers_def)
next
  case (Some ws)
  then show ?thesis using extend_node_spec [OF assms Some]
    by (simp add: mark_list_def mark_allocation_def extended_def)
qed

lemma flags_at_mark:
  assumes "vm_wf vs" "markable va sz vs"
  shows "flags_at (mark_list va sz flags vs) a =
    (if unat va \<le> unat a \<and> unat a < unat va + unat sz then Some flags else flags_at vs a)"
proof (rule flags_at_eqI)
  note spec = mark_list_spec [OF assms, of flags]
  show "vm_wf (mark_list va sz flags vs)" using spec by blast
  have "\<not> covers vs a f" if "unat va \<le> unat a" "unat a < unat va + unat sz" for f
    using that assms(2) by (fastforce simp: covers_def markable_def vm_free_def)
  then show "covers (mark_list va sz flags vs) a f \<longleftrightarrow>
      (if unat va \<le> unat a \<and> unat a < unat va + unat sz then Some flags else flags_at vs a) = Some f" for f
    using spec flags_at_covers [OF assms(1)] by auto
qed

lemma flags_at_cut:
  assumes "vm_wf vs" "unat start \<le> unat stop"
  shows "flags_at (cut_range start stop vs) a =
    (if unat start \<le> unat a \<and> unat a < unat stop then None else flags_at vs a)"
  using cut_range_spec [OF assms] flags_at_covers [OF assms(1)] by (intro flags_at_eqI) auto

lemma vm_bytes_append: "vm_bytes (xs @ ys) = vm_bytes xs + vm_bytes ys"
  by (simp add: vm_bytes_def)

lemma cut_node_bytes:
  assumes "vm_ok v" "unat start \<le> unat stop"
  shows "vm_bytes (cut_node start stop v) \<le> unat (vm_size v)"
  using assms
proof (cases rule: cut_node_cases)
  case (both w u)
  then show ?thesis unfolding both(4) using assms(2) by simp
qed auto

lemma cut_range_bytes:
  "vm_wf vs \<Longrightarrow> unat start \<le> unat stop \<Longrightarrow> vm_bytes (cut_range start stop vs) \<le> vm_bytes vs"
proof (induction vs)
  case (Cons v vs)
  have "vm_bytes (cut_node start stop v) \<le> unat (vm_size v)"
    using Cons.prems by (intro cut_node_bytes) (simp_all add: vm_wf_Cons)
  moreover have "vm_bytes (cut_range start stop vs) \<le> vm_bytes vs"
    using Cons by (simp add: vm_wf_Cons)
  ultimately show ?case unfolding cut_range_Cons vm_bytes_append by simp
qed simp

lemma vm_free_covers: "vm_wf vs \<Longrightarrow>
    (\<And>a f. unat va \<le> unat a \<Longrightarrow> unat a < unat va + unat sz \<Longrightarrow> \<not> covers vs a f) \<Longrightarrow>
    sz \<noteq> 0 \<Longrightarrow> vm_free va sz vs"
proof (unfold vm_free_def, rule ballI, rule ccontr)
  fix v
  assume wf: "vm_wf vs" and v: "v \<in> set vs" and sz: "sz \<noteq> 0"
    and none: "\<And>a f. unat va \<le> unat a \<Longrightarrow> unat a < unat va + unat sz \<Longrightarrow> \<not> covers vs a f"
    and overlap: "\<not> (hi v \<le> unat va \<or> unat va + unat sz \<le> lo v)"
  have pos: "0 < unat (vm_size v)" "0 < unat sz"
    using wf v sz vm_ok_pos by (auto simp: vm_wf_def unat_gt_0)
  let ?a = "if va \<le> vm_address v then vm_address v else va"
  have "covers vs ?a (vm_flags v)"
    using v overlap pos by (auto simp: covers_def word_le_nat_alt intro!: bexI [of _ v])
  then show False using none [of ?a "vm_flags v"] overlap pos
    by (auto simp: word_le_nat_alt split: if_splits)
qed

interpretation vm_map: region_map mark_list cut_range flags_at vm_wf markable
  "\<lambda>sz vs. vm_bytes vs + unat sz < 4294967296"
proof
  fix vs :: "vm_struct list" and va :: u64 and sz :: u32
  assume wf: "vm_wf vs" and sz: "sz \<noteq> 0" and fits: "unat va + unat sz < 18446744073709551616"
    and room: "vm_bytes vs + unat sz < 4294967296"
  have stop: "unat (va + ucast sz) = unat va + unat sz" using fits by (simp add: unat_add64)
  then have le: "unat va \<le> unat (va + ucast sz)" by simp
  have "vm_free va sz (cut_range va (va + ucast sz) vs)"
    using cut_range_spec [OF wf le] sz by (intro vm_free_covers) (auto simp: stop)
  then show "markable va sz (cut_range va (va + ucast sz) vs)"
    using cut_range_bytes [OF wf le] room sz fits by (simp add: markable_def)
qed (simp_all add: mark_list_spec flags_at_mark cut_range_spec flags_at_cut)

subsection \<open>The operations on the map\<close>

text \<open>C5: \<^verbatim>\<open>mark_allocation\<close> of a free region (with room in the 32-bit sizes) keeps the regions
  ordered and disjoint, whether it extends a neighbour, joins two or inserts a node, and from
  then on exactly the addresses of the region have the new flags.\<close>

theorem mark_allocation_overrides:
  assumes "vm_wf (vm_list t)" "markable va sz (vm_list t)"
  shows "vm_wf (vm_list (mark_allocation va sz flags t)) \<and>
    flags_at (vm_list (mark_allocation va sz flags t)) a =
      (if unat va \<le> unat a \<and> unat a < unat va + unat sz then Some flags
       else flags_at (vm_list t) a)"
  unfolding mark_allocation_list
  using vm_map.wf_mark [OF assms] vm_map.at_mark [OF assms] by blast

definition demo_regions :: "vm_struct list" where
  "demo_regions = [\<lparr>vm_address = 0x1000, vm_size = 0x1000, vm_flags = 3\<rparr>,
     \<lparr>vm_address = 0x3000, vm_size = 0x2000, vm_flags = 3\<rparr>]"

lemmas demo_simps = demo_regions_def vm_wf_def vm_ok_def markable_def vm_free_def flags_at_def
  in_vm_def vm_end_def

theorem mark_allocation_overrides_witness:
  "let t = mark_allocation 0x2000 0x1000 3 \<lparr>vm_list = demo_regions, total_marked_memory = 0x3000\<rparr>
   in vm_wf (vm_list t) \<and> flags_at (vm_list t) 0x2fff = Some 3 \<and>
      vm_list t = [\<lparr>vm_address = 0x1000, vm_size = 0x4000, vm_flags = 3\<rparr>]"
  using mark_allocation_overrides [of "\<lparr>vm_list = demo_regions, total_marked_memory = 0x3000\<rparr>"
      "0x2000" "0x1000" 3 "0x2fff"]
  by (simp add: demo_simps mark_allocation_def Let_def)

text \<open>C6: \<^verbatim>\<open>remove_allocation\<close> untracks exactly the range, cutting the regions that straddle
  its ends, keeps the regions ordered and disjoint, and changes no other address.\<close>

theorem remove_allocation_cuts:
  assumes "vm_wf (vm_list t)" "unat va + unat sz < 18446744073709551616"
  shows "vm_wf (vm_list (remove_allocation va sz t)) \<and>
    flags_at (vm_list (remove_allocation va sz t)) a =
      (if unat va \<le> unat a \<and> unat a < unat va + unat sz then None
       else flags_at (vm_list t) a)"
proof -
  have stop: "unat (va + ucast sz) = unat va + unat sz" using assms(2) by (simp add: unat_add64)
  then have le: "unat va \<le> unat (va + ucast sz)" by simp
  show ?thesis
    using vm_map.wf_cut [OF assms(1) le] vm_map.at_cut [OF assms(1) le, of a]
    by (simp add: remove_allocation_def stop)
qed

theorem remove_allocation_cuts_witness:
  "let t = remove_allocation 0x3800 0x1000 \<lparr>vm_list = demo_regions, total_marked_memory = 0x3000\<rparr>
   in vm_wf (vm_list t) \<and> flags_at (vm_list t) 0x4000 = None \<and> length (vm_list t) = 3"
  using remove_allocation_cuts [of "\<lparr>vm_list = demo_regions, total_marked_memory = 0x3000\<rparr>"
      "0x3800" "0x1000" "0x4000"]
  by (simp add: demo_simps remove_allocation_def handle_trimming_def Let_def)

text \<open>\<^verbatim>\<open>change_flags\<close> on any range, tracked, untracked or mixed, makes exactly the addresses
  of the range carry the new flags and leaves every other address as it was, with the regions
  ordered and disjoint.\<close>

theorem change_flags_overrides:
  assumes "vm_wf (vm_list t)" "sz \<noteq> 0" "unat va + unat sz < 18446744073709551616"
    and "vm_bytes (vm_list t) + unat sz < 4294967296"
  shows "vm_wf (vm_list (change_flags va sz flags t)) \<and>
    flags_at (vm_list (change_flags va sz flags t)) a =
      (if unat va \<le> unat a \<and> unat a < unat va + unat sz then Some flags
       else flags_at (vm_list t) a)"
  using vm_map.replace_spec [OF assms, of flags]
  by (simp add: change_flags_def mark_allocation_list vm_map.replace_def)

theorem change_flags_overrides_witness:
  "let t = change_flags 0x1800 0x2000 7 \<lparr>vm_list = demo_regions, total_marked_memory = 0x3000\<rparr>
   in vm_wf (vm_list t) \<and> flags_at (vm_list t) 0x3000 = Some 7 \<and>
      map vm_address (vm_list t) = [0x1000, 0x1800, 0x3800]"
  using change_flags_overrides [of "\<lparr>vm_list = demo_regions, total_marked_memory = 0x3000\<rparr>"
      "0x2000" "0x1800" 7 "0x3000"]
  by (simp add: demo_simps change_flags_def mark_allocation_def handle_trimming_def Let_def)

subsection \<open>Copying an address space\<close>

lemma insert_after_bytes: "vm_bytes (insert_after n vs) = unat (vm_size n) + vm_bytes vs"
  by (induction vs) auto

lemma add_to_list_bytes: "vm_bytes (add_to_list n vs) = unat (vm_size n) + vm_bytes vs"
  by (cases vs) (auto simp: insert_after_bytes)

lemma extend_node_bytes:
  "vm_bytes vs + unat sz < 4294967296 \<Longrightarrow> extend_node va sz flags vs = Some ws \<Longrightarrow>
     vm_bytes ws = vm_bytes vs + unat sz"
proof (induction vs arbitrary: ws)
  case (Cons v vs)
  have grow: "unat (vm_size v + sz) = unat (vm_size v) + unat sz"
    using Cons.prems(1) by (intro unat_add32) simp
  from Cons.prems(2) show ?case
  proof (cases rule: extend_node_cases)
    case (other us)
    then show ?thesis using Cons by simp
  next
    case (merge u us)
    then show ?thesis using Cons.prems(1) grow unat_add32 [of "vm_size v + sz" "vm_size u"] by simp
  qed (simp_all add: grow)
qed simp

lemma mark_list_bytes:
  assumes "markable va sz vs"
  shows "vm_bytes (mark_list va sz flags vs) = vm_bytes vs + unat sz"
  using assms extend_node_bytes [of vs sz va flags]
  by (cases "extend_node va sz flags vs")
    (simp_all add: mark_list_def mark_allocation_def markable_def add_to_list_bytes)

lemma mark_list_hi:
  assumes "vm_wf vs" "markable va sz vs" "\<forall>v \<in> set vs. hi v \<le> n" "unat va + unat sz \<le> n"
  shows "\<forall>w \<in> set (mark_list va sz flags vs). hi w \<le> n"
proof
  fix w
  assume w: "w \<in> set (mark_list va sz flags vs)"
  note spec = mark_list_spec [OF assms(1,2), of flags]
  have ok: "vm_ok w" using w spec by (simp add: vm_wf_def)
  let ?a = "of_nat (hi w - 1) :: u64"
  have a: "unat ?a = hi w - 1" using ok by (intro unat_of_nat64) (unfold vm_ok_def, linarith)
  then have "covers (mark_list va sz flags vs) ?a (vm_flags w)"
    using w ok vm_ok_pos [OF ok] by (auto simp: covers_def intro!: bexI [of _ w])
  then have "covers vs ?a (vm_flags w) \<or> unat ?a < unat va + unat sz" using spec by blast
  then have "hi w - 1 < n" using assms(3,4) a by (fastforce simp: covers_def)
  then show "hi w \<le> n" by simp
qed

abbreviation shared :: "u32 \<Rightarrow> bool" where
  "shared f \<equiv> f AND VM_FLAG_DO_NOT_SHARE = 0"

lemma copy_vmm_loop_spec:
  "vm_wf vs \<Longrightarrow> vm_wf (vm_list d) \<Longrightarrow> (\<forall>x \<in> set (vm_list d). \<forall>v \<in> set vs. hi x \<le> lo v) \<Longrightarrow>
     vm_bytes (vm_list d) + vm_bytes vs < 4294967296 \<Longrightarrow>
     vm_wf (vm_list (copy_vmm_loop vs d)) \<and>
     (\<forall>a f. covers (vm_list (copy_vmm_loop vs d)) a f \<longleftrightarrow>
        covers (vm_list d) a f \<or> covers vs a f \<and> shared f)"
proof (induction vs arbitrary: d)
  case (Cons v vs)
  note prems = Cons.prems
  have wf: "vm_wf vs" and ok: "vm_ok v" and later: "\<And>w. w \<in> set vs \<Longrightarrow> hi v \<le> lo w"
    using prems(1) by (auto simp: vm_wf_Cons)
  show ?case
  proof (cases "shared (vm_flags v)")
    case False
    then show ?thesis using Cons.IH [OF wf prems(2)] prems(3,4) by (auto simp: covers_Cons)
  next
    case True
    let ?d = "mark_allocation (vm_address v) (vm_size v) (vm_flags v) d"
    have can: "markable (vm_address v) (vm_size v) (vm_list d)"
      using prems(3,4) ok by (auto simp: markable_def vm_free_def vm_ok_def)
    note spec = mark_list_spec [OF prems(2) can, of "vm_flags v"]
    have "\<forall>w \<in> set (vm_list ?d). hi w \<le> hi v"
      using prems(3) by (intro mark_list_hi [OF prems(2) can, folded mark_allocation_list] ballI)
        (auto intro: order_trans [of _ "lo v"])
    then have "\<forall>x \<in> set (vm_list ?d). \<forall>w \<in> set vs. hi x \<le> lo w"
      using later by (blast intro: order_trans)
    moreover have "vm_bytes (vm_list ?d) + vm_bytes vs < 4294967296"
      using prems(4) by (simp add: mark_allocation_list mark_list_bytes [OF can])
    moreover have "vm_wf (vm_list ?d)" using spec by (simp add: mark_allocation_list)
    ultimately show ?thesis
      using Cons.IH [OF wf, of ?d] True spec by (auto simp: covers_Cons mark_allocation_list)
  qed
qed simp

text \<open>\<^verbatim>\<open>copy_vmm\<close> into an empty tracker gives the child exactly the parent's regions,
  address by address and with the parent's flags, except the regions marked do-not-share.\<close>

theorem copy_vmm_shares:
  assumes "vm_wf (vm_list src)" "vm_list dest = []" "vm_bytes (vm_list src) < 4294967296"
  shows "vm_wf (vm_list (copy_vmm dest src)) \<and>
    flags_at (vm_list (copy_vmm dest src)) a =
      (case flags_at (vm_list src) a of
         Some f \<Rightarrow> if f AND VM_FLAG_DO_NOT_SHARE = 0 then Some f else None
       | None \<Rightarrow> None)"
proof -
  have spec: "vm_wf (vm_list (copy_vmm dest src)) \<and>
      (\<forall>a f. covers (vm_list (copy_vmm dest src)) a f \<longleftrightarrow> covers (vm_list src) a f \<and> shared f)"
    using copy_vmm_loop_spec [of "vm_list src" dest] assms by (simp add: copy_vmm_def)
  then have "covers (vm_list (copy_vmm dest src)) a f \<longleftrightarrow> flags_at (vm_list src) a = Some f \<and> shared f" for f
    using flags_at_covers [OF assms(1)] by blast
  then show ?thesis using spec
    by (cases "flags_at (vm_list src) a") (auto intro!: flags_at_eqI)
qed

theorem copy_vmm_shares_witness:
  "let src = \<lparr>vm_list = \<lparr>vm_address = 0x8000, vm_size = 0x1000, vm_flags = 0x21\<rparr> # [],
              total_marked_memory = 0x1000\<rparr>;
       src' = src\<lparr>vm_list := demo_regions @ vm_list src\<rparr>;
       t = copy_vmm \<lparr>vm_list = [], total_marked_memory = 0\<rparr> src'
   in vm_wf (vm_list t) \<and> flags_at (vm_list t) 0x8000 = None \<and> flags_at (vm_list src') 0x8000 = Some 0x21"
  using copy_vmm_shares [of
      "\<lparr>vm_list = demo_regions @ [\<lparr>vm_address = 0x8000, vm_size = 0x1000, vm_flags = 0x21\<rparr>],
        total_marked_memory = 0x1000\<rparr>" "\<lparr>vm_list = [], total_marked_memory = 0\<rparr>" "0x8000"]
  by (simp add: demo_simps VM_FLAG_DO_NOT_SHARE_def Let_def)

end
