(* ===== verification/Page_Tables.thy ===== *)
theory Page_Tables
  imports Page_Frames VM_Tracker "HOL-Library.Sublist"
begin

text \<open>
  The page tables of \<^verbatim>\<open>kernel/src/paging/PageEntry.cpp\<close>, \<^verbatim>\<open>PageMapIndexer.cpp\<close> and
  \<^verbatim>\<open>PageTableManager.cpp\<close>, and the tracker's \<^verbatim>\<open>exit\<close>, which walks them. The memory the
  tables live in is a map from a table's virtual address and an index to the 64-bit entry:
  every table is a page-aligned frame, so two tables share an entry only if they are one
  table. New tables come from the frame allocator and are noted in the tracker. A flush of
  the TLB is recorded in a log.
\<close>

subsection \<open>Entries\<close>

datatype PT_Flag = Present | Write | User | WriteThrough | CacheDisable | Accessed | LargerPages
  | Custom0 | Custom1 | Custom2 | NX

fun flag_bit :: "PT_Flag \<Rightarrow> nat" where
  "flag_bit Present = 0"
| "flag_bit Write = 1"
| "flag_bit User = 2"
| "flag_bit WriteThrough = 3"
| "flag_bit CacheDisable = 4"
| "flag_bit Accessed = 5"
| "flag_bit LargerPages = 7"
| "flag_bit Custom0 = 9"
| "flag_bit Custom1 = 10"
| "flag_bit Custom2 = 11"
| "flag_bit NX = 63"

definition FLAG_MASK :: u64 where "FLAG_MASK = 0xfff0000000000fff"
definition ADDR_MASK :: u64 where "ADDR_MASK = 0xffffffffff000"

definition is_flag_set :: "u64 \<Rightarrow> PT_Flag \<Rightarrow> bool" where
  "is_flag_set e flag \<longleftrightarrow> e AND push_bit (flag_bit flag) 1 \<noteq> 0"

definition set_flag :: "u64 \<Rightarrow> PT_Flag \<Rightarrow> bool \<Rightarrow> u64" where
  "set_flag e flag status =
     (if status then e OR push_bit (flag_bit flag) 1 else e AND NOT (push_bit (flag_bit flag) 1))"

definition get_address :: "u64 \<Rightarrow> u64" where
  "get_address e = e AND ADDR_MASK"

definition set_address :: "u64 \<Rightarrow> u64 \<Rightarrow> u64" where
  "set_address e address = (e AND FLAG_MASK) OR (address AND ADDR_MASK)"

subsection \<open>Indices\<close>

record PageMapIndexer =
  L3_i :: u64
  L2_i :: u64
  L1_i :: u64
  P_i :: u64

definition page_map_index :: "u64 \<Rightarrow> PageMapIndexer" where
  "page_map_index va =
     (let v12 = drop_bit 12 va; v21 = drop_bit 9 v12; v30 = drop_bit 9 v21; v39 = drop_bit 9 v30
      in \<lparr>L3_i = v39 AND 0x1ff, L2_i = v30 AND 0x1ff, L1_i = v21 AND 0x1ff, P_i = v12 AND 0x1ff\<rparr>)"

subsection \<open>The manager\<close>

record page_mem =
  frames :: pfa
  tables :: "u64 \<Rightarrow> u64 \<Rightarrow> u64"
  tlb_flushes :: "u64 list"

record PageTableManager =
  PML4 :: u64
  ptm_tracker :: "vm_tracker option"

definition set_entry :: "u64 \<Rightarrow> u64 \<Rightarrow> u64 \<Rightarrow> page_mem \<Rightarrow> page_mem" where
  "set_entry t i e s = s\<lparr>tables := (tables s)(t := (tables s t)(i := e))\<rparr>"

definition flush_tlb_single :: "u64 \<Rightarrow> page_mem \<Rightarrow> page_mem" where
  "flush_tlb_single va s = s\<lparr>tlb_flushes := va # tlb_flushes s\<rparr>"

definition PTM_ALLOCATE_PAGE ::
  "u64 \<Rightarrow> PageTableManager \<times> page_mem \<Rightarrow> u64 \<times> PageTableManager \<times> page_mem" where
  "PTM_ALLOCATE_PAGE mb st =
     (let (ptm, s) = st; (page, f) = RequestPage mb (frames s) in
      (page,
       ptm\<lparr>ptm_tracker := map_option
             (mark_allocation page 0x1000 (VM_FLAG_RW OR VM_FLAG_DO_NOT_SHARE)) (ptm_tracker ptm)\<rparr>,
       s\<lparr>frames := f\<rparr>))"

text \<open>The step from a table to the next level that \<^verbatim>\<open>MapMemory\<close> and \<^verbatim>\<open>SetMapping\<close> take three times.\<close>

definition next_table ::
  "u64 \<Rightarrow> u64 \<Rightarrow> u64 \<Rightarrow> PageTableManager \<times> page_mem \<Rightarrow> u64 \<times> PageTableManager \<times> page_mem" where
  "next_table mb t i st =
     (let e = tables (snd st) t i in
      if \<not> is_flag_set e Present then
        let (virt, ptm, s) = PTM_ALLOCATE_PAGE mb st;
            physical = virtual_to_physical mb virt;
            s1 = s\<lparr>tables := (tables s)(virt := (\<lambda>_. 0))\<rparr>;
            s2 = set_entry t i (set_address (tables s1 t i) physical) s1;
            s3 = set_entry t i (set_flag (tables s2 t i) Present True) s2;
            s4 = set_entry t i (set_flag (tables s3 t i) Write True) s3
        in (virt, ptm, s4)
      else (physical_to_virtual mb (get_address e), st))"

definition walk_alloc ::
  "u64 \<Rightarrow> u64 \<Rightarrow> PageTableManager \<times> page_mem \<Rightarrow> u64 \<times> PageTableManager \<times> page_mem" where
  "walk_alloc mb va st =
     (let index = page_map_index va;
          (L3, st3) = next_table mb (PML4 (fst st)) (L3_i index) st;
          (L2, st2) = next_table mb L3 (L2_i index) st3
      in next_table mb L2 (L1_i index) st2)"

definition MapMemory ::
  "u64 \<Rightarrow> u64 \<Rightarrow> u64 \<Rightarrow> PageTableManager \<times> page_mem \<Rightarrow> PageTableManager \<times> page_mem" where
  "MapMemory mb va pa st =
     (let (L1, ptm, s) = walk_alloc mb va st; i = P_i (page_map_index va);
          s1 = set_entry L1 i 0 s;
          s2 = set_entry L1 i (set_address (tables s1 L1 i) pa) s1;
          s3 = set_entry L1 i (set_flag (tables s2 L1 i) Present True) s2;
          s4 = set_entry L1 i (set_flag (tables s3 L1 i) Write True) s3
      in (ptm, flush_tlb_single va s4))"

definition SetMapping ::
  "u64 \<Rightarrow> u64 \<Rightarrow> u64 \<Rightarrow> PageTableManager \<times> page_mem \<Rightarrow> PageTableManager \<times> page_mem" where
  "SetMapping mb va val st =
     (let (L1, ptm, s) = walk_alloc mb va st; i = P_i (page_map_index va)
      in (ptm, flush_tlb_single va (set_entry L1 i val s)))"

text \<open>
  The read-only walk of \<^verbatim>\<open>Unmap\<close>, \<^verbatim>\<open>GetFlag\<close>, \<^verbatim>\<open>getPhysicalAddress\<close> and \<^verbatim>\<open>getMapping\<close>: the last
  table, or \<open>None\<close> where the code returns because a level is not present.
\<close>

definition walk :: "u64 \<Rightarrow> u64 \<Rightarrow> PageTableManager \<Rightarrow> page_mem \<Rightarrow> u64 option" where
  "walk mb va ptm s =
     (let index = page_map_index va;
          L3_Entry = tables s (PML4 ptm) (L3_i index);
          L3 = physical_to_virtual mb (get_address L3_Entry) in
      if \<not> is_flag_set L3_Entry Present then None else
      let L2_Entry = tables s L3 (L2_i index);
          L2 = physical_to_virtual mb (get_address L2_Entry) in
      if \<not> is_flag_set L2_Entry Present then None else
      let L1_Entry = tables s L2 (L1_i index);
          L1 = physical_to_virtual mb (get_address L1_Entry) in
      if \<not> is_flag_set L1_Entry Present then None else Some L1)"

definition Unmap :: "u64 \<Rightarrow> u64 \<Rightarrow> PageTableManager \<Rightarrow> page_mem \<Rightarrow> page_mem" where
  "Unmap mb va ptm s =
     (case walk mb va ptm s of
        None \<Rightarrow> s
      | Some L1 \<Rightarrow>
          let i = P_i (page_map_index va); page = tables s L1 i in
          if \<not> is_flag_set page Present then s
          else flush_tlb_single va (set_entry L1 i (set_flag page Present False) s))"

text \<open>The user flag, when it is set, is set on the way down too.\<close>

definition mark_user :: "PT_Flag \<Rightarrow> bool \<Rightarrow> u64 \<Rightarrow> u64 \<Rightarrow> page_mem \<Rightarrow> page_mem" where
  "mark_user flag status t i s =
     (if flag = User \<and> status then set_entry t i (set_flag (tables s t i) User True) s else s)"

definition SetFlag ::
  "u64 \<Rightarrow> u64 \<Rightarrow> PT_Flag \<Rightarrow> bool \<Rightarrow> PageTableManager \<Rightarrow> page_mem \<Rightarrow> page_mem" where
  "SetFlag mb va flag status ptm s =
     (let index = page_map_index va; mark = mark_user flag status; L4 = PML4 ptm in
      if \<not> is_flag_set (tables s L4 (L3_i index)) Present then s else
      let s1 = mark L4 (L3_i index) s;
          L3 = physical_to_virtual mb (get_address (tables s1 L4 (L3_i index))) in
      if \<not> is_flag_set (tables s1 L3 (L2_i index)) Present then s1 else
      let s2 = mark L3 (L2_i index) s1;
          L2 = physical_to_virtual mb (get_address (tables s2 L3 (L2_i index))) in
      if \<not> is_flag_set (tables s2 L2 (L1_i index)) Present then s2 else
      let s3 = mark L2 (L1_i index) s2;
          L1 = physical_to_virtual mb (get_address (tables s3 L2 (L1_i index)));
          page = tables s3 L1 (P_i index) in
      if \<not> is_flag_set page Present then s3 else
      flush_tlb_single va (set_entry L1 (P_i index) (set_flag page flag status) s3))"

definition GetFlag :: "u64 \<Rightarrow> u64 \<Rightarrow> PT_Flag \<Rightarrow> PageTableManager \<Rightarrow> page_mem \<Rightarrow> bool" where
  "GetFlag mb va flag ptm s =
     (case walk mb va ptm s of
        None \<Rightarrow> False
      | Some L1 \<Rightarrow>
          let L0_Entry = tables s L1 (P_i (page_map_index va)) in
          if \<not> is_flag_set L0_Entry Present then False else is_flag_set L0_Entry flag)"

definition getPhysicalAddress :: "u64 \<Rightarrow> u64 \<Rightarrow> PageTableManager \<Rightarrow> page_mem \<Rightarrow> u64" where
  "getPhysicalAddress mb va ptm s =
     (case walk mb va ptm s of
        None \<Rightarrow> 0
      | Some L1 \<Rightarrow>
          let L0_Entry = tables s L1 (P_i (page_map_index va)) in
          if \<not> is_flag_set L0_Entry Present then 0 else get_address L0_Entry)"

definition getMapping :: "u64 \<Rightarrow> u64 \<Rightarrow> PageTableManager \<Rightarrow> page_mem \<Rightarrow> u64" where
  "getMapping mb va ptm s =
     (case walk mb va ptm s of
        None \<Rightarrow> 0
      | Some L1 \<Rightarrow>
          let L0_Entry = tables s L1 (P_i (page_map_index va)) in
          if \<not> is_flag_set L0_Entry Present then 0 else L0_Entry)"

subsection \<open>Copying and leaving an address space\<close>

text \<open>A loop over the present entries of a table; each entry is read when its turn comes.\<close>

definition for_entries ::
  "u64 \<Rightarrow> (u64 \<Rightarrow> u64 \<Rightarrow> PageTableManager \<times> page_mem \<Rightarrow> PageTableManager \<times> page_mem) \<Rightarrow>
   PageTableManager \<times> page_mem \<Rightarrow> PageTableManager \<times> page_mem" where
  "for_entries t body st =
     fold (\<lambda>n st. let i = of_nat n; e = tables (snd st) t i in
       if \<not> is_flag_set e Present then st else body i e st) [0..<512] st"

definition CopyPTM ::
  "u64 \<Rightarrow> PageTableManager \<Rightarrow> PageTableManager \<times> page_mem \<Rightarrow> PageTableManager \<times> page_mem" where
  "CopyPTM mb src =
     for_entries (PML4 src) (\<lambda>PDP_i PDPEntry.
       let PDP = physical_to_virtual mb (get_address PDPEntry);
           virt_base_pml4 = push_bit 39 PDP_i in
       for_entries PDP (\<lambda>PD_i PDEntry.
         let PD = physical_to_virtual mb (get_address PDEntry);
             virt_base_pdp = virt_base_pml4 OR push_bit 30 PD_i in
         for_entries PD (\<lambda>PT_i PTEntry.
           let PT = physical_to_virtual mb (get_address PTEntry);
               virt_base_pt = virt_base_pdp OR push_bit 21 PT_i in
           for_entries PT (\<lambda>P_i P. SetMapping mb (virt_base_pt OR push_bit 12 P_i) P))))"

text \<open>One page of \<^verbatim>\<open>ClonePTM\<close>'s loop, with the flags of the source's region.\<close>

definition clone_page ::
  "u64 \<Rightarrow> PageTableManager \<Rightarrow> u64 \<Rightarrow> u32 \<times> PageTableManager \<times> page_mem \<Rightarrow>
   u32 \<times> PageTableManager \<times> page_mem" where
  "clone_page mb src virt st =
     (let (flags, dst, s) = st;
          physical = getPhysicalAddress mb virt src s;
          (flags1, dst1, s1) =
            (if flags AND VM_FLAG_COW \<noteq> 0 then
               let nflags = flags OR VM_PENDING_COW in
               (nflags,
                dst\<lparr>ptm_tracker := map_option (change_flags virt 0x1000 nflags) (ptm_tracker dst)\<rparr>,
                SetFlag mb virt Write False src s)
             else (flags, dst, s));
          (dst2, s2) = SetMapping mb virt (getMapping mb virt src s1) (dst1, s1);
          s3 = (if GetFlag mb virt User src s2 then SetFlag mb virt User True dst2 s2 else s2)
      in (flags1, dst2, s3\<lparr>frames := IncreaseReferenceCount mb physical (frames s3)\<rparr>))"

definition page_count :: "vm_struct \<Rightarrow> nat" where
  "page_count vm = (unat (vm_size vm) + 0xfff) div 0x1000"

fun clone_regions ::
  "u64 \<Rightarrow> PageTableManager \<Rightarrow> vm_struct list \<Rightarrow> PageTableManager \<times> page_mem \<Rightarrow>
   vm_struct list \<times> PageTableManager \<times> page_mem" where
  "clone_regions mb src [] st = ([], st)"
| "clone_regions mb src (vm # vs) st =
     (if vm_flags vm AND VM_FLAG_DO_NOT_SHARE \<noteq> 0
      then let (vs', st') = clone_regions mb src vs st in (vm # vs', st')
      else
        let (flags, st1) = fold (\<lambda>k. clone_page mb src (vm_address vm + of_nat k * 0x1000))
              [0..<page_count vm] (vm_flags vm, st);
            (vs', st') = clone_regions mb src vs st1
        in (vm\<lparr>vm_flags := flags\<rparr> # vs', st'))"

definition ClonePTM ::
  "u64 \<Rightarrow> PageTableManager \<Rightarrow> PageTableManager \<Rightarrow> page_mem \<Rightarrow>
   PageTableManager \<times> PageTableManager \<times> page_mem" where
  "ClonePTM mb dst src s =
     (let s1 = s\<lparr>tables := (tables s)(PML4 dst := (\<lambda>i.
            if 256 \<le> i \<and> i < 512 then tables s (PML4 src) i else tables s (PML4 dst) i))\<rparr>
      in case (ptm_tracker dst, ptm_tracker src) of
           (Some td, Some ts) \<Rightarrow>
             let dst1 = dst\<lparr>ptm_tracker := Some (copy_vmm td ts)\<rparr>;
                 (vs, dst2, s2) = clone_regions mb src (vm_list ts) (dst1, s1)
             in (dst2, src\<lparr>ptm_tracker := Some (ts\<lparr>vm_list := vs\<rparr>)\<rparr>, s2)
         | _ \<Rightarrow> (dst, src, s1))"

text \<open>
  The tracker's \<^verbatim>\<open>exit\<close>. Its page loop counts in an \<^verbatim>\<open>int\<close>: \<open>None\<close> stands for the
  undefined behaviour of counting beyond \<open>2 ^ 31\<close>.
\<close>

function exit_pages ::
  "u64 \<Rightarrow> PageTableManager \<Rightarrow> vm_struct \<Rightarrow> nat \<Rightarrow> page_mem \<Rightarrow> page_mem option" where
  "exit_pages mb ptm vm i s =
     (if i < unat (vm_size vm) then
        let physical = getPhysicalAddress mb (vm_address vm + of_nat i) ptm s;
            s' = s\<lparr>frames := DecreaseReferenceCount mb physical (frames s)\<rparr>
        in if i + 0x1000 \<ge> 2147483648 then None else exit_pages mb ptm vm (i + 0x1000) s'
      else Some s)"
  by pat_completeness auto
termination
  by (relation "measure (\<lambda>(mb, ptm, vm, i, s). unat (vm_size vm) - i)") auto

declare exit_pages.simps [simp del]

fun exit_loop ::
  "u64 \<Rightarrow> PageTableManager \<Rightarrow> bool \<Rightarrow> vm_struct list \<Rightarrow> page_mem \<Rightarrow> page_mem option" where
  "exit_loop mb ptm force [] s = Some s"
| "exit_loop mb ptm force (vm # vs) s =
     (if \<not> force \<and> vm_flags vm AND VM_FLAG_DONT_FREE \<noteq> 0 then exit_loop mb ptm force vs s
      else case exit_pages mb ptm vm 0 s of
        None \<Rightarrow> None
      | Some s' \<Rightarrow> exit_loop mb ptm force vs s')"

definition vm_tracker_exit ::
  "u64 \<Rightarrow> PageTableManager option \<Rightarrow> bool \<Rightarrow> vm_tracker \<Rightarrow> page_mem \<Rightarrow>
   (vm_tracker \<times> page_mem) option" where
  "vm_tracker_exit mb ptmv force t s =
     (case ptmv of
        None \<Rightarrow> Some (t, s)
      | Some ptm \<Rightarrow> map_option (\<lambda>s'. (t\<lparr>vm_list := []\<rparr>, s')) (exit_loop mb ptm force (vm_list t) s))"

subsection \<open>Bits of an entry\<close>

lemma bit_power64: "bit (2 ^ n :: u64) k \<longleftrightarrow> n = k \<and> k < 64"
  by (auto simp: bit_exp_iff)

lemma flag_bit_less: "flag_bit f < 64"
  by (cases f) simp_all

lemma flag_bit_outside: "12 \<le> flag_bit f \<Longrightarrow> \<not> flag_bit f < 52"
  by (cases f) simp_all

lemma is_flag_set_bit: "is_flag_set e f \<longleftrightarrow> bit e (flag_bit f)"
  using flag_bit_less [of f] by (simp add: is_flag_set_def and_exp_eq_0_iff_not_bit push_bit_eq_mult)

lemma bit_ADDR_MASK: "bit ADDR_MASK k \<longleftrightarrow> 12 \<le> k \<and> k < 52"
proof -
  have "ADDR_MASK = push_bit 12 (mask 40)"
    by (simp add: ADDR_MASK_def mask_eq_exp_minus_1 push_bit_eq_mult)
  then show ?thesis by (simp only: bit_push_bit_iff bit_mask_iff \<open>ADDR_MASK = _\<close>) auto
qed

lemma FLAG_MASK_not: "FLAG_MASK = NOT ADDR_MASK"
  by (simp add: FLAG_MASK_def ADDR_MASK_def)

lemmas entry_bits = bit_and_iff bit_or_iff bit_not_iff bit_ADDR_MASK FLAG_MASK_not bit_power64

text \<open>Setting a flag changes that flag alone; the address survives every change of an ordinary flag.\<close>

lemma flag_bit_inject: "flag_bit f = flag_bit g \<longleftrightarrow> f = g"
  by (cases f; cases g) simp_all

lemma is_flag_set_set_flag [simp]:
  "is_flag_set (set_flag e f b) g \<longleftrightarrow> (if f = g then b else is_flag_set e g)"
  using flag_bit_less [of g] flag_bit_inject [of f g]
  by (auto simp: is_flag_set_bit set_flag_def entry_bits)

lemma get_address_set_flag [simp]: "get_address (set_flag e f b) = get_address e"
  using flag_bit_outside [of f]
  by (intro bit_eqI) (auto simp: get_address_def set_flag_def entry_bits)

lemma get_address_set_address [simp]: "get_address (set_address e a) = a AND ADDR_MASK"
  by (rule bit_eqI) (auto simp: get_address_def set_address_def entry_bits)

lemma is_flag_set_set_address [simp]: "is_flag_set (set_address e a) f \<longleftrightarrow> is_flag_set e f"
  using flag_bit_less [of f] flag_bit_outside [of f]
  by (auto simp: is_flag_set_bit set_address_def entry_bits)

lemma is_flag_set_zero [simp]: "\<not> is_flag_set 0 f"
  by (simp add: is_flag_set_def)

text \<open>Two addresses have the same indices exactly if they agree on bits 12 to 47.\<close>

lemma bit_9bits: "bit (0x1ff :: u64) k \<longleftrightarrow> k < 9"
proof -
  have "(0x1ff :: u64) = mask 9" by (simp add: mask_eq_exp_minus_1)
  then show ?thesis by (simp only: bit_mask_iff) auto
qed

lemma bit_page_bits: "bit (0xfffffffff000 :: u64) k \<longleftrightarrow> 12 \<le> k \<and> k < 48"
proof -
  have "(0xfffffffff000 :: u64) = push_bit 12 (mask 36)"
    by (simp add: mask_eq_exp_minus_1 push_bit_eq_mult)
  then show ?thesis by (simp only: bit_push_bit_iff bit_mask_iff) auto
qed

definition same_page :: "u64 \<Rightarrow> u64 \<Rightarrow> bool" where
  "same_page va va' \<longleftrightarrow> va AND 0xfffffffff000 = va' AND 0xfffffffff000"

lemma slice_eq: "drop_bit n (va :: u64) AND 0x1ff = drop_bit n va' AND 0x1ff \<longleftrightarrow>
    (\<forall>k. n \<le> k \<and> k < n + 9 \<longrightarrow> bit va k = bit va' k)"
proof
  assume "drop_bit n va AND 0x1ff = drop_bit n va' AND 0x1ff"
  then have eq: "bit (drop_bit n va AND 0x1ff) j = bit (drop_bit n va' AND 0x1ff) j" for j
    by simp
  have "bit va k = bit va' k" if "n \<le> k" "k < n + 9" for k
    using eq [of "k - n"] that unfolding bit_and_iff bit_drop_bit_eq bit_9bits
    by (simp add: less_diff_conv2)
  then show "\<forall>k. n \<le> k \<and> k < n + 9 \<longrightarrow> bit va k = bit va' k" by blast
next
  assume "\<forall>k. n \<le> k \<and> k < n + 9 \<longrightarrow> bit va k = bit va' k"
  then show "drop_bit n va AND 0x1ff = drop_bit n va' AND 0x1ff"
    by (intro bit_eqI) (simp only: bit_and_iff bit_drop_bit_eq bit_9bits, auto)
qed

lemma page_slices: "12 \<le> k \<and> k < (48 :: nat) \<longleftrightarrow>
    (39 \<le> k \<and> k < 48) \<or> (30 \<le> k \<and> k < 39) \<or> (21 \<le> k \<and> k < 30) \<or> (12 \<le> k \<and> k < 21)"
  by linarith

lemma all_page_slices: "(\<forall>k. 12 \<le> k \<and> k < (48 :: nat) \<longrightarrow> Q k) \<longleftrightarrow>
    (\<forall>k. 39 \<le> k \<and> k < 48 \<longrightarrow> Q k) \<and> (\<forall>k. 30 \<le> k \<and> k < 39 \<longrightarrow> Q k) \<and>
    (\<forall>k. 21 \<le> k \<and> k < 30 \<longrightarrow> Q k) \<and> (\<forall>k. 12 \<le> k \<and> k < 21 \<longrightarrow> Q k)"
  unfolding page_slices by blast

lemma same_page_bits: "same_page va va' \<longleftrightarrow> (\<forall>k. 12 \<le> k \<and> k < 48 \<longrightarrow> bit va k = bit va' k)"
proof
  assume "same_page va va'"
  then have "bit (va AND 0xfffffffff000) k = bit (va' AND 0xfffffffff000) k" for k
    by (simp add: same_page_def)
  then show "\<forall>k. 12 \<le> k \<and> k < 48 \<longrightarrow> bit va k = bit va' k"
    unfolding bit_and_iff bit_page_bits by blast
next
  assume "\<forall>k. 12 \<le> k \<and> k < 48 \<longrightarrow> bit va k = bit va' k"
  then show "same_page va va'"
    unfolding same_page_def by (intro bit_eqI) (simp only: bit_and_iff bit_page_bits, auto)
qed

lemma page_map_index_eq: "page_map_index va = page_map_index va' \<longleftrightarrow> same_page va va'"
proof -
  have "page_map_index va = page_map_index va' \<longleftrightarrow>
      (\<forall>k. 12 \<le> k \<and> k < 48 \<longrightarrow> bit va k = bit va' k)"
    unfolding all_page_slices by (simp add: page_map_index_def slice_eq)
  then show ?thesis by (simp only: same_page_bits)
qed

subsection \<open>Paths and the tree of tables\<close>

type_synonym table_mem = "u64 \<Rightarrow> u64 \<Rightarrow> u64"

definition child :: "u64 \<Rightarrow> table_mem \<Rightarrow> u64 \<Rightarrow> u64 \<Rightarrow> u64 option" where
  "child mb T t i = (if is_flag_set (T t i) Present
     then Some (physical_to_virtual mb (get_address (T t i))) else None)"

text \<open>The table at the end of a path of indices, the last index first.\<close>

fun table_at :: "u64 \<Rightarrow> table_mem \<Rightarrow> u64 \<Rightarrow> u64 list \<Rightarrow> u64 option" where
  "table_at mb T root [] = Some root"
| "table_at mb T root (i # is) =
     (case table_at mb T root is of None \<Rightarrow> None | Some t \<Rightarrow> child mb T t i)"

definition path :: "u64 \<Rightarrow> u64 list" where
  "path va = (let x = page_map_index va in [L1_i x, L2_i x, L3_i x])"

lemma walk_table_at: "walk mb va ptm s = table_at mb (tables s) (PML4 ptm) (path va)"
  by (simp add: walk_def path_def child_def Let_def)

text \<open>What a path and a last index translate to; 0 is the code's answer for an absent page.\<close>

definition leaf :: "u64 \<Rightarrow> table_mem \<Rightarrow> u64 \<Rightarrow> u64 list \<Rightarrow> u64 \<Rightarrow> u64" where
  "leaf mb T root js p = (case table_at mb T root js of
     None \<Rightarrow> 0 | Some t \<Rightarrow> if is_flag_set (T t p) Present then T t p else 0)"

lemma getMapping_leaf:
  "getMapping mb va ptm s = leaf mb (tables s) (PML4 ptm) (path va) (P_i (page_map_index va))"
  by (simp add: getMapping_def leaf_def walk_table_at Let_def split: option.split)

lemma path_eq: "path va = path va' \<and> P_i (page_map_index va) = P_i (page_map_index va') \<longleftrightarrow>
    same_page va va'"
  unfolding page_map_index_eq [symmetric]
  by (cases "page_map_index va"; cases "page_map_index va'") (auto simp: path_def)

lemma length_path [simp]: "length (path va) = 3"
  by (simp add: path_def Let_def)

text \<open>
  The invariant: no table is reached by two paths (so an entry belongs to one place of the
  tree), and no table of the tree lies in a frame that is still free.
\<close>

definition tree :: "u64 \<Rightarrow> table_mem \<Rightarrow> u64 \<Rightarrow> bool" where
  "tree mb T root \<longleftrightarrow> (\<forall>js ks t. length js \<le> 3 \<and> length ks \<le> 3 \<and>
     table_at mb T root js = Some t \<and> table_at mb T root ks = Some t \<longrightarrow> js = ks)"

definition unused :: "u64 \<Rightarrow> table_mem \<Rightarrow> u64 \<Rightarrow> u64 \<Rightarrow> bool" where
  "unused mb T root v \<longleftrightarrow> (\<forall>js. length js \<le> 3 \<longrightarrow> table_at mb T root js \<noteq> Some v)"

definition pt_ok :: "u64 \<Rightarrow> PageTableManager \<Rightarrow> page_mem \<Rightarrow> bool" where
  "pt_ok mb ptm s \<longleftrightarrow> pfa_ok mb (frames s) \<and> tree mb (tables s) (PML4 ptm) \<and>
     (\<forall>p \<in> free_frame_set (frames s). unused mb (tables s) (PML4 ptm) (p + mb))"

subsection \<open>Hanging an empty table into the tree\<close>

text \<open>The entry \<open>i\<close> of table \<open>t\<close> gets the value \<open>e\<close>, which points to the cleared table \<open>v\<close>.\<close>

definition attach :: "table_mem \<Rightarrow> u64 \<Rightarrow> u64 \<Rightarrow> u64 \<Rightarrow> u64 \<Rightarrow> table_mem" where
  "attach T v t i e = T(v := (\<lambda>_. 0), t := (T t)(i := e))"

definition attachable :: "u64 \<Rightarrow> table_mem \<Rightarrow> u64 \<Rightarrow> u64 list \<Rightarrow> u64 \<Rightarrow> u64 \<Rightarrow> u64 \<Rightarrow> u64 \<Rightarrow> bool" where
  "attachable mb T root is v t i e \<longleftrightarrow> tree mb T root \<and> unused mb T root v \<and>
     table_at mb T root is = Some t \<and> length is \<le> 2 \<and> \<not> is_flag_set (T t i) Present \<and>
     is_flag_set e Present \<and> physical_to_virtual mb (get_address e) = v"

lemma attach_child:
  assumes "attachable mb T root is v t i e" "length js \<le> 3" "table_at mb T root js = Some u"
  shows "child mb (attach T v t i e) u j = (if j # js = i # is then Some v else child mb T u j)"
proof -
  have "u \<noteq> v" using assms by (auto simp: attachable_def unused_def)
  moreover have "u = t \<longleftrightarrow> js = is" using assms unfolding attachable_def tree_def by force
  ultimately show ?thesis using assms(1) by (auto simp: attachable_def attach_def child_def)
qed

lemma attach_table_at:
  assumes "attachable mb T root is v t i e"
  shows "length js \<le> 3 \<Longrightarrow> table_at mb (attach T v t i e) root js =
    (if js = i # is then Some v else if suffix (i # is) js then None else table_at mb T root js)"
proof (induction js)
  case (Cons j js)
  let ?T = "attach T v t i e"
  note IH = Cons.IH [OF order_trans [OF _ Cons.prems]]
  have "v \<noteq> t" using assms by (auto simp: attachable_def unused_def)
  then have fresh: "child mb ?T v j = None" by (simp add: child_def attach_def)
  have proper: "\<not> suffix (i # is) is" by (auto dest: suffix_length_le)
  consider "js = i # is" | "js \<noteq> i # is" "suffix (i # is) js" | "\<not> suffix (i # is) js" by blast
  then show ?case
  proof cases
    case 3
    then have same: "table_at mb ?T root js = table_at mb T root js" using IH by (auto simp: suffix_def)
    show ?thesis
    proof (cases "table_at mb T root js")
      case None
      then show ?thesis using 3 same assms by (auto simp: suffix_Cons attachable_def)
    next
      case (Some u)
      have "length js \<le> 3" using Cons.prems by simp
      then show ?thesis using attach_child [OF assms _ Some] Some same 3 by (auto simp: suffix_Cons)
    qed
  qed (use IH fresh proper in \<open>auto simp: suffix_Cons\<close>)
qed (simp add: suffix_def)

lemma attach_tree:
  assumes "attachable mb T root is v t i e"
  shows "tree mb (attach T v t i e) root"
  unfolding tree_def
proof (intro allI impI, elim conjE)
  fix js ks u
  assume len: "length js \<le> 3" "length ks \<le> 3"
    and at: "table_at mb (attach T v t i e) root js = Some u"
      "table_at mb (attach T v t i e) root ks = Some u"
  have "unused mb T root v" "tree mb T root" using assms by (simp_all add: attachable_def)
  then show "js = ks" using at len unfolding attach_table_at [OF assms len(1)]
      attach_table_at [OF assms len(2)] unused_def tree_def by (auto split: if_splits)
qed

lemma attach_unused:
  assumes "attachable mb T root is v t i e" "unused mb T root w" "w \<noteq> v"
  shows "unused mb (attach T v t i e) root w"
  using assms(2,3) by (auto simp: unused_def attach_table_at [OF assms(1)])

text \<open>No translation changes.\<close>

lemma attach_leaf:
  assumes "attachable mb T root is v t i e" "length js = 3"
  shows "leaf mb (attach T v t i e) root js p = leaf mb T root js p"
proof -
  have len: "length js \<le> 3" "length is \<le> 2" using assms by (simp_all add: attachable_def)
  have ne: "v \<noteq> t" using assms by (auto simp: attachable_def unused_def)
  have none: "table_at mb T root js = None" if "suffix (i # is) js"
  proof -
    have "table_at mb T root (i # is) = None" using assms by (simp add: attachable_def child_def)
    moreover have "table_at mb T root (ks @ ls) = None" if "table_at mb T root ls = None" for ks ls
      using that by (induction ks) simp_all
    ultimately show ?thesis using that by (auto simp: suffix_def)
  qed
  have "u \<noteq> t \<and> u \<noteq> v" if "table_at mb T root js = Some u" for u
  proof -
    have "js \<noteq> is" using assms(2) len(2) by auto
    then show ?thesis using that assms len unfolding attachable_def unused_def tree_def by force
  qed
  then show ?thesis using none ne unfolding leaf_def attach_table_at [OF assms(1) len(1)]
    by (auto simp: attach_def split: option.split)
qed

subsection \<open>Writing an entry of a last-level table\<close>

lemma leaf_write_table_at:
  assumes "tree mb T root" "table_at mb T root is = Some t" "length is = 3"
  shows "length js \<le> 3 \<Longrightarrow> table_at mb (T(t := (T t)(p := e))) root js = table_at mb T root js"
proof (induction js)
  case (Cons j js)
  have "u \<noteq> t" if "table_at mb T root js = Some u" for u
  proof -
    have "js \<noteq> is" using assms(3) Cons.prems by auto
    then show ?thesis using that assms Cons.prems unfolding tree_def by force
  qed
  then show ?case using Cons by (auto simp: child_def split: option.split)
qed simp

lemma leaf_write_leaf:
  assumes "tree mb T root" "table_at mb T root is = Some t" "length is = 3" "length js = 3"
  shows "leaf mb (T(t := (T t)(p := e))) root js q =
    (if js = is \<and> q = p then (if is_flag_set e Present then e else 0) else leaf mb T root js q)"
proof -
  have "u = t \<longleftrightarrow> js = is" if "table_at mb T root js = Some u" for u
    using that assms unfolding tree_def by force
  then show ?thesis using assms leaf_write_table_at [OF assms(1-3), of js p e]
    by (auto simp: leaf_def split: option.split)
qed

lemma leaf_write_ok:
  assumes "tree mb T root" "table_at mb T root is = Some t" "length is = 3"
  shows "tree mb (T(t := (T t)(p := e))) root \<and>
    (unused mb T root w \<longrightarrow> unused mb (T(t := (T t)(p := e))) root w)"
  using assms(1) leaf_write_table_at [OF assms, of _ p e] unfolding tree_def unused_def
  by (simp cong: conj_cong)

subsection \<open>Walking with allocation\<close>

text \<open>
  What the levels above the last may do to the state: at most \<open>n\<close> frames are used, the
  invariant is kept, no translation changes and nothing is flushed.
\<close>

definition grown ::
  "u64 \<Rightarrow> nat \<Rightarrow> PageTableManager \<times> page_mem \<Rightarrow> PageTableManager \<times> page_mem \<Rightarrow> bool" where
  "grown mb n st st' \<longleftrightarrow> PML4 (fst st') = PML4 (fst st) \<and> pt_ok mb (fst st') (snd st') \<and>
     tlb_flushes (snd st') = tlb_flushes (snd st) \<and>
     card (free_frame_set (frames (snd st))) \<le> card (free_frame_set (frames (snd st'))) + n \<and>
     (\<forall>js p. length js = 3 \<longrightarrow> leaf mb (tables (snd st')) (PML4 (fst st)) js p =
        leaf mb (tables (snd st)) (PML4 (fst st)) js p)"

lemma grown_trans: "grown mb n st st1 \<Longrightarrow> grown mb m st1 st2 \<Longrightarrow> grown mb (n + m) st st2"
  by (auto simp: grown_def)

lemma virtual_of_frame:
  "pfa_ok mb f \<Longrightarrow> p \<in> free_frame_set f \<Longrightarrow> virtual_to_physical mb (p + mb) = p"
proof -
  assume ok: "pfa_ok mb f" and "p \<in> free_frame_set f"
  then obtain i where i: "p = i * 0x1000" "i < total_pages f" by (auto simp: free_frame_set_def)
  then have "unat i * 4096 + unat mb < 18446744073709551616" "unat p = unat i * 4096"
    using ok unat_frame_addr [of i] by (auto simp: pfa_ok_def word_less_nat_alt)
  then have "mb \<le> p + mb" by (simp add: word_le_nat_alt unat_add64)
  then show ?thesis by (simp add: virtual_to_physical_def)
qed

text \<open>The entry that points to a new table.\<close>

definition table_entry :: "u64 \<Rightarrow> u64 \<Rightarrow> u64" where
  "table_entry e p = set_flag (set_flag (set_address e p) Present True) Write True"

lemma set_entry_twice [simp]: "set_entry t i e (set_entry t i e' s) = set_entry t i e s"
  by (simp add: set_entry_def)

lemma set_entry_read [simp]: "tables (set_entry t i e s) t i = e"
  by (simp add: set_entry_def)

lemma set_entry_attach: "v \<noteq> t \<Longrightarrow>
    set_entry t i e (s\<lparr>tables := (tables s)(v := (\<lambda>_. 0))\<rparr>) = s\<lparr>tables := attach (tables s) v t i e\<rparr>"
  by (simp add: set_entry_def attach_def)

lemma next_table_new:
  assumes "RequestPage mb (frames s) = (v, f)" "\<not> is_flag_set (tables s t i) Present" "v \<noteq> t"
  shows "\<exists>tr. next_table mb t i (ptm, s) = (v, ptm\<lparr>ptm_tracker := tr\<rparr>,
    s\<lparr>frames := f, tables := attach (tables s) v t i (table_entry (tables s t i) (virtual_to_physical mb v))\<rparr>)"
  using assms set_entry_attach [OF assms(3), of i _ "s\<lparr>frames := f\<rparr>"]
  by (auto simp: next_table_def PTM_ALLOCATE_PAGE_def table_entry_def Let_def)

lemma next_table_spec:
  assumes ok: "pt_ok mb ptm s" and at: "table_at mb (tables s) (PML4 ptm) is = Some t"
    and len: "length is \<le> 2" and free: "free_frame_set (frames s) \<noteq> {}"
  shows "\<exists>v st'. next_table mb t i (ptm, s) = (v, st') \<and> grown mb 1 (ptm, s) st' \<and>
    table_at mb (tables (snd st')) (PML4 ptm) (i # is) = Some v"
proof (cases "is_flag_set (tables s t i) Present")
  case True
  then show ?thesis using ok at by (simp add: next_table_def grown_def child_def)
next
  case False
  let ?T = "tables s" and ?root = "PML4 ptm"
  have pfa: "pfa_ok mb (frames s)" using ok by (simp add: pt_ok_def)
  obtain p f where p: "p \<in> free_frame_set (frames s)" "RequestPage mb (frames s) = (p + mb, f)"
      "free_frame_set f = free_frame_set (frames s) - {p}"
    using pfa_source.request_some [OF pfa free] by (metis prod.collapse)
  note phys = virtual_of_frame [OF pfa p(1)]
  define e where "e = table_entry (?T t i) p"
  have "physical_to_virtual mb (get_address e) = p + mb"
    using pfa_source.frame_aligned [OF pfa p(1)]
    by (simp add: e_def table_entry_def physical_to_virtual_def ADDR_MASK_def)
  moreover have fresh: "unused mb ?T ?root (p + mb)" using ok p(1) by (simp add: pt_ok_def)
  ultimately have att: "attachable mb ?T ?root is (p + mb) t i e"
    using ok at len False by (simp add: attachable_def pt_ok_def e_def table_entry_def)
  have "p + mb \<noteq> t" using fresh at len by (auto simp: unused_def)
  then obtain tr where step: "next_table mb t i (ptm, s) = (p + mb, ptm\<lparr>ptm_tracker := tr\<rparr>,
      s\<lparr>frames := f, tables := attach ?T (p + mb) t i e\<rparr>)"
    using next_table_new [OF p(2) False] phys by (auto simp: e_def)
  have "pfa_ok mb f" using pfa_source.ok_request [OF pfa] p(2) by simp
  moreover have "\<forall>q \<in> free_frame_set f. unused mb (attach ?T (p + mb) t i e) ?root (q + mb)"
    using ok p(3) by (auto simp: pt_ok_def intro!: attach_unused [OF att])
  ultimately have "grown mb 1 (ptm, s) (ptm\<lparr>ptm_tracker := tr\<rparr>,
      s\<lparr>frames := f, tables := attach ?T (p + mb) t i e\<rparr>)"
    using p(1,3) by (simp add: grown_def pt_ok_def attach_tree [OF att] attach_leaf [OF att])
  moreover have "table_at mb (attach ?T (p + mb) t i e) ?root (i # is) = Some (p + mb)"
    using attach_table_at [OF att, of "i # is"] len by simp
  ultimately show ?thesis using step by (simp del: table_at.simps)
qed

lemma walk_alloc_spec:
  assumes ok: "pt_ok mb ptm s" and free: "3 \<le> card (free_frame_set (frames s))"
  shows "\<exists>v st'. walk_alloc mb va (ptm, s) = (v, st') \<and> grown mb 3 (ptm, s) st' \<and>
    table_at mb (tables (snd st')) (PML4 ptm) (path va) = Some v"
proof -
  define x where "x = page_map_index va"
  have ne: "free_frame_set (frames t) \<noteq> {}" if "Suc 0 \<le> card (free_frame_set (frames t))" for t
    using that by auto
  obtain v3 p3 s3 where 3: "next_table mb (PML4 ptm) (L3_i x) (ptm, s) = (v3, p3, s3)"
      "grown mb 1 (ptm, s) (p3, s3)" "table_at mb (tables s3) (PML4 ptm) [L3_i x] = Some v3"
    using next_table_spec [OF ok, of "[]" "PML4 ptm" "L3_i x"] ne free by fastforce
  have "pt_ok mb p3 s3" "PML4 p3 = PML4 ptm" "2 \<le> card (free_frame_set (frames s3))"
    using 3(2) free by (simp_all add: grown_def)
  then obtain v2 p2 s2 where 2: "next_table mb v3 (L2_i x) (p3, s3) = (v2, p2, s2)"
      "grown mb 1 (p3, s3) (p2, s2)" "table_at mb (tables s2) (PML4 ptm) [L2_i x, L3_i x] = Some v2"
    using next_table_spec [of mb p3 s3 "[L3_i x]" v3 "L2_i x"] 3(3) ne by fastforce
  have "pt_ok mb p2 s2" "PML4 p2 = PML4 ptm" "1 \<le> card (free_frame_set (frames s2))"
    using 2(2) \<open>2 \<le> _\<close> \<open>PML4 p3 = _\<close> by (simp_all add: grown_def)
  then obtain v1 st1 where 1: "next_table mb v2 (L1_i x) (p2, s2) = (v1, st1)"
      "grown mb 1 (p2, s2) st1" "table_at mb (tables (snd st1)) (PML4 ptm) [L1_i x, L2_i x, L3_i x] = Some v1"
    using next_table_spec [of mb p2 s2 "[L2_i x, L3_i x]" v2 "L1_i x"] 2(3) ne by fastforce
  have "grown mb 3 (ptm, s) st1"
    using grown_trans [OF grown_trans [OF 3(2) 2(2)] 1(2)] by (simp add: numeral_3_eq_3)
  then show ?thesis using 1 2 3 by (simp add: walk_alloc_def path_def x_def Let_def)
qed

subsection \<open>Mapping a page\<close>

text \<open>Writing the last-level entry of an address whose table is at \<open>L1\<close>.\<close>

lemma set_leaf:
  assumes ok: "pt_ok mb ptm s" and at: "table_at mb (tables s) (PML4 ptm) (path va) = Some L1"
    and s': "s' = flush_tlb_single va (set_entry L1 (P_i (page_map_index va)) e s)"
  shows "pt_ok mb ptm s' \<and>
    (\<forall>va'. getMapping mb va' ptm s' =
      (if same_page va va' then (if is_flag_set e Present then e else 0) else getMapping mb va' ptm s))"
proof -
  let ?i = "P_i (page_map_index va)"
  have tree: "tree mb (tables s) (PML4 ptm)" using ok by (simp add: pt_ok_def)
  have T': "tables s' = (tables s)(L1 := (tables s L1)(?i := e))" and f: "frames s' = frames s"
    by (simp_all add: s' flush_tlb_single_def set_entry_def)
  have "pt_ok mb ptm s'"
    using ok leaf_write_ok [OF tree at length_path, of ?i e] unfolding pt_ok_def T' f by blast
  moreover have "getMapping mb va' ptm s' = (if same_page va va'
      then (if is_flag_set e Present then e else 0) else getMapping mb va' ptm s)" for va'
    unfolding getMapping_leaf T' leaf_write_leaf [OF tree at length_path length_path] path_eq [symmetric]
    by auto
  ultimately show ?thesis by blast
qed

lemma SetMapping_spec:
  assumes ok: "pt_ok mb ptm s" and free: "3 \<le> card (free_frame_set (frames s))"
    and r: "SetMapping mb va val (ptm, s) = (ptm', s')"
  shows "pt_ok mb ptm' s' \<and> tlb_flushes s' = va # tlb_flushes s \<and>
    card (free_frame_set (frames s)) \<le> card (free_frame_set (frames s')) + 3 \<and>
    (\<forall>va'. getMapping mb va' ptm' s' =
      (if same_page va va' then (if is_flag_set val Present then val else 0)
       else getMapping mb va' ptm s))"
proof -
  obtain v p1 s1 where w: "walk_alloc mb va (ptm, s) = (v, p1, s1)" and g: "grown mb 3 (ptm, s) (p1, s1)"
      and at: "table_at mb (tables s1) (PML4 ptm) (path va) = Some v"
    using walk_alloc_spec [OF ok free, of va] by (metis prod.collapse snd_conv)
  have p1: "PML4 p1 = PML4 ptm" "pt_ok mb p1 s1" using g by (simp_all add: grown_def)
  have r': "ptm' = p1" "s' = flush_tlb_single va (set_entry v (P_i (page_map_index va)) val s1)"
    using r by (simp_all add: SetMapping_def w Let_def)
  have "getMapping mb va' p1 s1 = getMapping mb va' ptm s" for va'
    using g by (simp add: getMapping_leaf grown_def)
  then show ?thesis using set_leaf [OF p1(2), of va v s' val] at p1 r' g
    by (simp add: grown_def flush_tlb_single_def set_entry_def)
qed

definition page_entry :: "u64 \<Rightarrow> u64" where
  "page_entry pa = set_flag (set_flag (set_address 0 pa) Present True) Write True"

lemma MapMemory_SetMapping: "MapMemory mb va pa st = SetMapping mb va (page_entry pa) st"
  by (simp add: MapMemory_def SetMapping_def page_entry_def Let_def split: prod.split)

lemma page_entry_value: "page_entry pa = (pa AND ADDR_MASK) OR 3"
  by (simp add: page_entry_def set_flag_def set_address_def FLAG_MASK_def or.assoc)

lemma page_entry_flags [simp]: "is_flag_set (page_entry pa) Present"
  by (simp add: page_entry_def)

lemma MapMemory_spec:
  assumes "pt_ok mb ptm s" "3 \<le> card (free_frame_set (frames s))"
    and "MapMemory mb va pa (ptm, s) = (ptm', s')"
  shows "pt_ok mb ptm' s' \<and> tlb_flushes s' = va # tlb_flushes s \<and>
    card (free_frame_set (frames s)) \<le> card (free_frame_set (frames s')) + 3 \<and>
    (\<forall>va'. getMapping mb va' ptm' s' =
      (if same_page va va' then (pa AND ADDR_MASK) OR 3 else getMapping mb va' ptm s))"
  using SetMapping_spec [OF assms(1,2) assms(3) [unfolded MapMemory_SetMapping]]
  by (simp add: page_entry_value [symmetric])

subsection \<open>Flags\<close>

lemma GetFlag_getMapping: "GetFlag mb va flag ptm s \<longleftrightarrow> is_flag_set (getMapping mb va ptm s) flag"
  by (simp add: GetFlag_def getMapping_def Let_def split: option.split)

lemma getPhysicalAddress_getMapping:
  "getPhysicalAddress mb va ptm s = get_address (getMapping mb va ptm s)"
  by (simp add: getPhysicalAddress_def getMapping_def get_address_def Let_def split: option.split)

text \<open>
  What marking entries above the last level may do: no table is reached differently, no
  last-level table changes, and no user flag is lost.
\<close>

definition marked :: "u64 \<Rightarrow> PageTableManager \<Rightarrow> page_mem \<Rightarrow> page_mem \<Rightarrow> bool" where
  "marked mb ptm s s' \<longleftrightarrow> frames s' = frames s \<and> tlb_flushes s' = tlb_flushes s \<and>
     (\<forall>t j. child mb (tables s') t j = child mb (tables s) t j) \<and>
     (\<forall>t js. length js = 3 \<and> table_at mb (tables s) (PML4 ptm) js = Some t \<longrightarrow>
        tables s' t = tables s t) \<and>
     (\<forall>t j. is_flag_set (tables s t j) User \<longrightarrow> is_flag_set (tables s' t j) User)"

lemma marked_refl [simp]: "marked mb ptm s s"
  by (simp add: marked_def)

lemma child_Present: "child mb T t i = child mb T' t' i' \<Longrightarrow>
    is_flag_set (T t i) Present = is_flag_set (T' t' i') Present"
  by (auto simp: child_def split: if_splits)

lemma marked_Present: "marked mb ptm s s' \<Longrightarrow>
    is_flag_set (tables s' t i) Present = is_flag_set (tables s t i) Present"
  by (rule child_Present [of mb]) (simp add: marked_def)

lemma marked_User: "marked mb ptm s s' \<Longrightarrow> is_flag_set (tables s t i) User \<Longrightarrow>
    is_flag_set (tables s' t i) User"
  unfolding marked_def by blast

lemma marked_leaf_table: "marked mb ptm s s' \<Longrightarrow> length js = 3 \<Longrightarrow>
    table_at mb (tables s) (PML4 ptm) js = Some t \<Longrightarrow> tables s' t = tables s t"
  unfolding marked_def by blast

lemma marked_table_at: "marked mb ptm s s' \<Longrightarrow>
    table_at mb (tables s') root js = table_at mb (tables s) root js"
  by (induction js) (simp_all add: marked_def split: option.split)

lemma marked_trans: "marked mb ptm s s1 \<Longrightarrow> marked mb ptm s1 s2 \<Longrightarrow> marked mb ptm s s2"
  using marked_table_at [of mb ptm s s1] by (simp add: marked_def)

lemma marked_ok: "marked mb ptm s s' \<Longrightarrow> pt_ok mb ptm s \<Longrightarrow> pt_ok mb ptm s'"
  using marked_table_at [of mb ptm s s']
  by (simp add: pt_ok_def tree_def unused_def marked_def)

lemma marked_getMapping: "marked mb ptm s s' \<Longrightarrow> getMapping mb va ptm s' = getMapping mb va ptm s"
  by (auto simp: getMapping_leaf leaf_def marked_table_at marked_leaf_table [of mb ptm s s' "path va"]
      split: option.split)

lemma mark_user_marked:
  assumes "pt_ok mb ptm s" "table_at mb (tables s) (PML4 ptm) is = Some t" "length is \<le> 2"
  shows "marked mb ptm s (mark_user flag status t i s)"
proof -
  have "u \<noteq> t" if "length js = 3" "table_at mb (tables s) (PML4 ptm) js = Some u" for u js
  proof -
    have "js \<noteq> is" using assms(3) that(1) by auto
    then show ?thesis using that assms unfolding pt_ok_def tree_def by force
  qed
  then show ?thesis by (auto simp: marked_def mark_user_def set_entry_def child_def)
qed

text \<open>The four entries of an address, present and open to user mode: what the processor checks.\<close>

fun user_path :: "u64 \<Rightarrow> table_mem \<Rightarrow> u64 \<Rightarrow> u64 list \<Rightarrow> bool" where
  "user_path mb T root [] \<longleftrightarrow> True"
| "user_path mb T root (i # is) \<longleftrightarrow> user_path mb T root is \<and>
     (\<exists>t. table_at mb T root is = Some t \<and> is_flag_set (T t i) Present \<and> is_flag_set (T t i) User)"

definition user_accessible :: "u64 \<Rightarrow> u64 \<Rightarrow> PageTableManager \<Rightarrow> page_mem \<Rightarrow> bool" where
  "user_accessible mb va ptm s \<longleftrightarrow>
     user_path mb (tables s) (PML4 ptm) (P_i (page_map_index va) # path va)"

lemma marked_user_path: "marked mb ptm s s' \<Longrightarrow> user_path mb (tables s) root js \<Longrightarrow>
    user_path mb (tables s') root js"
proof (induction js)
  case (Cons i js)
  then show ?case by (auto simp: marked_table_at marked_Present intro: marked_User)
qed simp

lemma mark_user_path:
  assumes "marked mb ptm s (mark_user User True t i s)"
    and "table_at mb (tables s) (PML4 ptm) is = Some t" "is_flag_set (tables s t i) Present"
    and "user_path mb (tables s) (PML4 ptm) is"
  shows "user_path mb (tables (mark_user User True t i s)) (PML4 ptm) (i # is)"
  using assms(3) marked_user_path [OF assms(1,4)] marked_table_at [OF assms(1), of "PML4 ptm" "is"] assms(2)
  by (simp add: mark_user_def)

lemma mark_step:
  assumes ok: "pt_ok mb ptm s" and at: "table_at mb (tables s) (PML4 ptm) is = Some t"
    and len: "length is \<le> 2" and present: "is_flag_set (tables s t i) Present"
    and s': "s' = mark_user flag status t i s"
  shows "marked mb ptm s s' \<and> pt_ok mb ptm s' \<and>
    table_at mb (tables s') (PML4 ptm) (i # is) = Some (physical_to_virtual mb (get_address (tables s' t i))) \<and>
    (flag = User \<and> status \<and> user_path mb (tables s) (PML4 ptm) is \<longrightarrow>
       user_path mb (tables s') (PML4 ptm) (i # is))"
proof -
  have m: "marked mb ptm s s'" unfolding s' by (rule mark_user_marked [OF ok at len])
  have "table_at mb (tables s') (PML4 ptm) (i # is) = Some (physical_to_virtual mb (get_address (tables s' t i)))"
    using at present by (simp add: marked_table_at [OF m] child_def marked_Present [OF m])
  moreover have "user_path mb (tables s') (PML4 ptm) (i # is)"
    if "flag = User \<and> status \<and> user_path mb (tables s) (PML4 ptm) is"
    using mark_user_path [of mb ptm s t i "is"] m at present that by (simp add: s' del: user_path.simps)
  ultimately show ?thesis using m marked_ok [OF m ok] by blast
qed

text \<open>The three levels of \<^verbatim>\<open>SetFlag\<close> as a recursion over the indices.\<close>

fun descend_mark ::
  "u64 \<Rightarrow> PT_Flag \<Rightarrow> bool \<Rightarrow> u64 list \<Rightarrow> u64 \<Rightarrow> page_mem \<Rightarrow> u64 option \<times> page_mem" where
  "descend_mark mb flag status [] t s = (Some t, s)"
| "descend_mark mb flag status (i # is) t s =
     (if \<not> is_flag_set (tables s t i) Present then (None, s)
      else let s' = mark_user flag status t i s in
        descend_mark mb flag status is (physical_to_virtual mb (get_address (tables s' t i))) s')"

lemma SetFlag_descend: "SetFlag mb va flag status ptm s =
    (case descend_mark mb flag status (rev (path va)) (PML4 ptm) s of
       (None, s3) \<Rightarrow> s3
     | (Some L1, s3) \<Rightarrow>
         let i = P_i (page_map_index va) in
         if \<not> is_flag_set (tables s3 L1 i) Present then s3
         else flush_tlb_single va (set_entry L1 i (set_flag (tables s3 L1 i) flag status) s3))"
  by (simp add: SetFlag_def path_def Let_def)

lemma table_at_None: "table_at mb T root js = None \<Longrightarrow> table_at mb T root (is @ js) = None"
  by (induction "is") simp_all

lemma descend_mark_spec:
  "pt_ok mb ptm s \<Longrightarrow> table_at mb (tables s) (PML4 ptm) js = Some t \<Longrightarrow>
   length is + length js \<le> 3 \<Longrightarrow> descend_mark mb flag status is t s = (r, s') \<Longrightarrow>
   marked mb ptm s s' \<and> r = table_at mb (tables s) (PML4 ptm) (rev is @ js) \<and>
   (flag = User \<and> status \<and> r \<noteq> None \<and> user_path mb (tables s) (PML4 ptm) js \<longrightarrow>
      user_path mb (tables s') (PML4 ptm) (rev is @ js))"
proof (induction "is" arbitrary: js t s)
  case (Cons i "is")
  note prems = Cons.prems
  show ?case
  proof (cases "is_flag_set (tables s t i) Present")
    case False
    then have "table_at mb (tables s) (PML4 ptm) (i # js) = None" using prems(2) by (simp add: child_def)
    then have "table_at mb (tables s) (PML4 ptm) (rev is @ i # js) = None" by (rule table_at_None)
    then show ?thesis using prems(4) False by auto
  next
    case True
    define s1 where "s1 = mark_user flag status t i s"
    have "length js \<le> 2" using prems(3) by simp
    note 1 = mark_step [OF prems(1,2) this True s1_def]
    then have m: "marked mb ptm s s1" by blast
    have d: "descend_mark mb flag status is (physical_to_virtual mb (get_address (tables s1 t i))) s1 = (r, s')"
      using prems(4) True by (simp add: s1_def Let_def)
    have "pt_ok mb ptm s1" "length is + length (i # js) \<le> 3"
        "table_at mb (tables s1) (PML4 ptm) (i # js) = Some (physical_to_virtual mb (get_address (tables s1 t i)))"
      using 1 prems(3) by simp_all
    note IH = Cons.IH [OF this(1,3,2) d]
    have "rev (i # is) @ js = rev is @ i # js" by simp
    then show ?thesis using IH 1 marked_trans [OF m] marked_table_at [OF m]
      by (simp only:) blast
  qed
qed auto

text \<open>What \<^verbatim>\<open>SetFlag\<close> makes of a page's entry.\<close>

definition flagged :: "u64 \<Rightarrow> PT_Flag \<Rightarrow> bool \<Rightarrow> u64" where
  "flagged e flag status = (let e' = set_flag e flag status in
     if is_flag_set e Present \<and> is_flag_set e' Present then e' else 0)"

lemma SetFlag_spec:
  assumes ok: "pt_ok mb ptm s"
  shows "pt_ok mb ptm (SetFlag mb va flag status ptm s) \<and>
    (\<forall>va'. getMapping mb va' ptm (SetFlag mb va flag status ptm s) =
      (if same_page va va' then flagged (getMapping mb va ptm s) flag status
       else getMapping mb va' ptm s))"
proof -
  obtain r s3 where d: "descend_mark mb flag status (rev (path va)) (PML4 ptm) s = (r, s3)" by force
  have m: "marked mb ptm s s3" and r: "r = table_at mb (tables s) (PML4 ptm) (path va)"
    using descend_mark_spec [OF ok _ _ d, of "[]"] by simp_all
  note ok3 = marked_ok [OF m ok] and get3 = marked_getMapping [OF m]
  let ?i = "P_i (page_map_index va)"
  have same: "getMapping mb va' ptm s = getMapping mb va ptm s" if "same_page va va'" for va'
    using that unfolding getMapping_leaf path_eq [symmetric] by metis
  show ?thesis
  proof (cases "\<exists>L1. r = Some L1 \<and> is_flag_set (tables s3 L1 ?i) Present")
    case False
    then have "getMapping mb va ptm s3 = 0"
      using r by (auto simp: getMapping_leaf leaf_def marked_table_at [OF m] split: option.split)
    moreover have "SetFlag mb va flag status ptm s = s3"
      using False by (simp add: SetFlag_descend d Let_def split: option.split)
    ultimately show ?thesis using ok3 get3 same by (auto simp: flagged_def Let_def)
  next
    case True
    then obtain L1 where L1: "r = Some L1" "is_flag_set (tables s3 L1 ?i) Present" by blast
    have at: "table_at mb (tables s3) (PML4 ptm) (path va) = Some L1"
      using L1 r by (simp add: marked_table_at [OF m])
    have "getMapping mb va ptm s = tables s3 L1 ?i"
      unfolding get3 [symmetric] using at L1 by (simp add: getMapping_leaf leaf_def)
    moreover have "SetFlag mb va flag status ptm s =
        flush_tlb_single va (set_entry L1 ?i (set_flag (tables s3 L1 ?i) flag status) s3)"
      using L1 by (simp add: SetFlag_descend d Let_def)
    ultimately show ?thesis
      using set_leaf [OF ok3 at] L1 get3 by (simp add: flagged_def Let_def)
  qed
qed

lemma SetFlag_user:
  assumes ok: "pt_ok mb ptm s" and mapped: "getMapping mb va ptm s \<noteq> 0"
  shows "user_accessible mb va ptm (SetFlag mb va User True ptm s) \<and>
    (\<forall>va'. user_accessible mb va' ptm s \<longrightarrow>
       user_accessible mb va' ptm (SetFlag mb va User True ptm s))"
proof -
  obtain r s3 where d: "descend_mark mb User True (rev (path va)) (PML4 ptm) s = (r, s3)" by force
  have m: "marked mb ptm s s3" and r: "r = table_at mb (tables s) (PML4 ptm) (path va)"
    and up: "r \<noteq> None \<longrightarrow> user_path mb (tables s3) (PML4 ptm) (path va)"
    using descend_mark_spec [OF ok _ _ d, of "[]"] by simp_all
  let ?i = "P_i (page_map_index va)"
  obtain L1 where L1: "table_at mb (tables s3) (PML4 ptm) (path va) = Some L1" "r = Some L1"
      "is_flag_set (tables s3 L1 ?i) Present"
    using mapped marked_getMapping [OF m, of va] r
    by (auto simp: getMapping_leaf leaf_def marked_table_at [OF m] split: option.splits if_splits)
  let ?s' = "mark_user User True L1 ?i s3"
  have T: "tables (SetFlag mb va User True ptm s) = tables ?s'"
    using L1 by (simp add: SetFlag_descend d Let_def mark_user_def flush_tlb_single_def)
  have tree: "tree mb (tables s3) (PML4 ptm)" using marked_ok [OF m ok] by (simp add: pt_ok_def)
  have at: "table_at mb (tables ?s') (PML4 ptm) js = table_at mb (tables s3) (PML4 ptm) js"
    if "length js \<le> 3" for js
    using leaf_write_table_at [OF tree L1(1) length_path that] by (simp add: mark_user_def set_entry_def)
  have keep: "is_flag_set (tables ?s' u j) f" if "is_flag_set (tables s3 u j) f" for u j f
    using that by (auto simp: mark_user_def set_entry_def)
  have mono: "user_path mb (tables ?s') (PML4 ptm) js"
    if "user_path mb (tables s3) (PML4 ptm) js" "length js \<le> 4" for js
    using that
  proof (induction js)
    case (Cons i js)
    then show ?case using keep at [of js] by (auto simp del: table_at.simps)
  qed simp
  have "user_path mb (tables ?s') (PML4 ptm) (?i # path va)"
    using mono [of "path va"] up L1 at [of "path va"] by (simp add: mark_user_def)
  moreover have "user_path mb (tables ?s') (PML4 ptm) js"
    if "user_path mb (tables s) (PML4 ptm) js" "length js \<le> 4" for js
    using mono marked_user_path [OF m] that by blast
  ultimately show ?thesis by (simp add: user_accessible_def T del: user_path.simps)
qed

subsection \<open>Unmapping\<close>

lemma Unmap_spec:
  assumes ok: "pt_ok mb ptm s"
  shows "pt_ok mb ptm (Unmap mb va ptm s) \<and>
    (\<forall>va'. getMapping mb va' ptm (Unmap mb va ptm s) =
      (if same_page va va' then 0 else getMapping mb va' ptm s))"
proof -
  let ?i = "P_i (page_map_index va)"
  have same: "getMapping mb va' ptm s = getMapping mb va ptm s" if "same_page va va'" for va'
    using that unfolding getMapping_leaf path_eq [symmetric] by metis
  show ?thesis
  proof (cases "\<exists>L1. walk mb va ptm s = Some L1 \<and> is_flag_set (tables s L1 ?i) Present")
    case False
    then have "getMapping mb va ptm s = 0" "Unmap mb va ptm s = s"
      by (auto simp: getMapping_def Unmap_def Let_def split: option.split)
    then show ?thesis using ok same by simp
  next
    case True
    then obtain L1 where L1: "walk mb va ptm s = Some L1" "is_flag_set (tables s L1 ?i) Present" by blast
    then have "Unmap mb va ptm s =
        flush_tlb_single va (set_entry L1 ?i (set_flag (tables s L1 ?i) Present False) s)"
      by (simp add: Unmap_def Let_def)
    then show ?thesis using set_leaf [OF ok L1(1) [unfolded walk_table_at]] by simp
  qed
qed

subsection \<open>An address space as an interface\<close>

text \<open>
  What the clients of the page tables rely on: mapping a page changes the translation of
  that page alone, while frames for tables last. A client's loop over pages then ends in
  the last mapping asked for.
\<close>

locale address_space =
  fixes map_page :: "u64 \<Rightarrow> u64 \<Rightarrow> 's \<Rightarrow> 's"
    and lookup :: "u64 \<Rightarrow> 's \<Rightarrow> u64"
    and ok :: "'s \<Rightarrow> bool"
    and credit :: "'s \<Rightarrow> nat"
    and same :: "u64 \<Rightarrow> u64 \<Rightarrow> bool"
    and entry :: "u64 \<Rightarrow> u64"
  assumes ok_map: "ok s \<Longrightarrow> 3 \<le> credit s \<Longrightarrow> ok (map_page va pa s)"
    and lookup_map: "ok s \<Longrightarrow> 3 \<le> credit s \<Longrightarrow>
      lookup a (map_page va pa s) = (if same va a then entry pa else lookup a s)"
    and credit_map: "ok s \<Longrightarrow> 3 \<le> credit s \<Longrightarrow> credit s \<le> credit (map_page va pa s) + 3"
begin

definition map_pages :: "(u64 \<times> u64) list \<Rightarrow> 's \<Rightarrow> 's" where
  "map_pages ps s = fold (\<lambda>(va, pa). map_page va pa) ps s"

lemma map_pages_lookup:
  "ok s \<Longrightarrow> 3 * length ps \<le> credit s \<Longrightarrow>
   ok (map_pages ps s) \<and> credit s \<le> credit (map_pages ps s) + 3 * length ps \<and>
   lookup a (map_pages ps s) =
     (case find (\<lambda>(va, pa). same va a) (rev ps) of Some (va, pa) \<Rightarrow> entry pa | None \<Rightarrow> lookup a s)"
proof (induction ps rule: rev_induct)
  case (snoc p ps)
  obtain va pa where p: "p = (va, pa)" by force
  have IH: "ok (map_pages ps s)" "credit s \<le> credit (map_pages ps s) + 3 * length ps"
      "lookup a (map_pages ps s) =
        (case find (\<lambda>(va, pa). same va a) (rev ps) of Some (va, pa) \<Rightarrow> entry pa | None \<Rightarrow> lookup a s)"
    using snoc by simp_all
  moreover have "3 \<le> credit (map_pages ps s)" using IH(2) snoc.prems(2) by simp
  moreover have "map_pages (ps @ [p]) s = map_page va pa (map_pages ps s)" by (simp add: map_pages_def p)
  ultimately show ?case using ok_map lookup_map credit_map [of "map_pages ps s" va pa] by (auto simp: p)
qed (simp add: map_pages_def)

end

definition st_ok :: "u64 \<Rightarrow> PageTableManager \<times> page_mem \<Rightarrow> bool" where
  "st_ok mb st \<longleftrightarrow> pt_ok mb (fst st) (snd st)"

definition st_lookup :: "u64 \<Rightarrow> u64 \<Rightarrow> PageTableManager \<times> page_mem \<Rightarrow> u64" where
  "st_lookup mb va st = getMapping mb va (fst st) (snd st)"

definition st_credit :: "PageTableManager \<times> page_mem \<Rightarrow> nat" where
  "st_credit st = card (free_frame_set (frames (snd st)))"

interpretation pt_space: address_space "MapMemory mb" "st_lookup mb" "st_ok mb" st_credit
  same_page "\<lambda>pa. (pa AND ADDR_MASK) OR 3" for mb
proof
  fix st :: "PageTableManager \<times> page_mem" and va pa a :: u64
  assume a: "st_ok mb st" "3 \<le> st_credit st"
  obtain ptm s where st: "st = (ptm, s)" by force
  obtain ptm' s' where r: "MapMemory mb va pa (ptm, s) = (ptm', s')" by force
  note spec = MapMemory_spec [of mb ptm s va pa ptm' s', OF _ _ r]
  show "st_ok mb (MapMemory mb va pa st)" "st_credit st \<le> st_credit (MapMemory mb va pa st) + 3"
      "st_lookup mb a (MapMemory mb va pa st) =
       (if same_page va a then (pa AND ADDR_MASK) OR 3 else st_lookup mb a st)"
    using spec a by (simp_all add: st_ok_def st_credit_def st_lookup_def st r)
qed

subsection \<open>The operations on the translation\<close>

definition example_ptm :: PageTableManager where
  "example_ptm = \<lparr>PML4 = 0xffff800000001000,
     ptm_tracker = Some \<lparr>vm_list = [], total_marked_memory = 0\<rparr>\<rparr>"

definition example_mem :: page_mem where
  "example_mem = \<lparr>frames = example_pfa, tables = (\<lambda>_ _. 0), tlb_flushes = []\<rparr>"

lemma table_at_zero: "table_at mb (\<lambda>_ _. 0) root js = (if js = [] then Some root else None)"
  by (induction js) (auto simp: child_def)

lemma example_free: "free_frame_set example_pfa = (\<lambda>i. i * 0x1000) ` {i. 2 \<le> i \<and> i < 8}"
proof -
  have "last_free_index example_pfa = 0" "total_pages example_pfa = 8" by (simp_all add: example_pfa_def)
  then show ?thesis by (auto simp: free_frame_set_def example_locked not_less)
qed

lemma example_free_card: "3 \<le> card (free_frame_set (frames example_mem))"
proof -
  have "{0x2000, 0x3000, 0x4000} \<subseteq> free_frame_set example_pfa"
    unfolding example_free by (force intro: image_eqI [of _ _ 2] image_eqI [of _ _ 3] image_eqI [of _ _ 4])
  then have "card {0x2000, 0x3000, 0x4000 :: u64} \<le> card (free_frame_set example_pfa)"
    by (intro card_mono) simp_all
  then show ?thesis by (simp add: example_mem_def)
qed

lemma example_pt_ok: "pt_ok 0xffff800000000000 example_ptm example_mem"
proof -
  have "p \<noteq> 0x1000" if p: "p \<in> free_frame_set example_pfa" for p
  proof
    assume "p = 0x1000"
    then obtain i :: u64 where i: "i * 0x1000 = 0x1000" "2 \<le> i" "i < 8"
      using p unfolding example_free by auto
    then have "unat (i * 0x1000) = unat i * 4096" by (intro unat_frame_addr) (simp add: word_less_nat_alt)
    then show False using i by (simp add: word_le_nat_alt)
  qed
  then show ?thesis
    by (auto simp: pt_ok_def tree_def unused_def table_at_zero example_ok example_mem_def example_ptm_def)
qed

text \<open>C7: \<^verbatim>\<open>MapMemory\<close> makes every address of the page translate to the frame, present and
  writable, changes the translation of no other page, flushes exactly the page from the TLB
  and keeps the tables a tree disjoint from the free frames.\<close>

theorem MapMemory_translates:
  assumes "pt_ok mb ptm s" "3 \<le> card (free_frame_set (frames s))"
    and "MapMemory mb va pa (ptm, s) = (ptm', s')"
  shows "pt_ok mb ptm' s' \<and> tlb_flushes s' = va # tlb_flushes s \<and>
    getMapping mb va' ptm' s' =
      (if same_page va va' then (pa AND ADDR_MASK) OR 3 else getMapping mb va' ptm s) \<and>
    getPhysicalAddress mb va' ptm' s' =
      (if same_page va va' then pa AND ADDR_MASK else getPhysicalAddress mb va' ptm s)"
proof -
  have "get_address ((pa AND ADDR_MASK) OR 3) = pa AND ADDR_MASK"
    by (simp add: page_entry_value [symmetric] page_entry_def)
  then show ?thesis using MapMemory_spec [OF assms] by (simp add: getPhysicalAddress_getMapping)
qed

theorem MapMemory_translates_witness:
  "let (ptm', s') = MapMemory 0xffff800000000000 0x400000 0x5000 (example_ptm, example_mem)
   in getMapping 0xffff800000000000 0x400fff ptm' s' = 0x5003 \<and>
      getPhysicalAddress 0xffff800000000000 0x400fff ptm' s' = 0x5000"
proof -
  obtain ptm' s' where r: "MapMemory 0xffff800000000000 0x400000 0x5000 (example_ptm, example_mem) = (ptm', s')"
    by force
  show ?thesis
    using MapMemory_translates [OF example_pt_ok example_free_card r, of "0x400fff"]
    by (simp add: r same_page_def ADDR_MASK_def)
qed

text \<open>C8: A loop of \<^verbatim>\<open>MapMemory\<close> calls, as the kernel maps the heap or a framebuffer, leaves
  every address translated by the last pair for its page, and untouched pages as they were.\<close>

theorem MapMemory_loop:
  assumes "pt_ok mb ptm s" "3 * length ps \<le> card (free_frame_set (frames s))"
    and "fold (\<lambda>(va, pa). MapMemory mb va pa) ps (ptm, s) = (ptm', s')"
  shows "getMapping mb a ptm' s' =
    (case find (\<lambda>(va, pa). same_page va a) (rev ps) of
       Some (va, pa) \<Rightarrow> (pa AND ADDR_MASK) OR 3
     | None \<Rightarrow> getMapping mb a ptm s)"
  using pt_space.map_pages_lookup [of mb "(ptm, s)" ps a] assms
  by (simp add: pt_space.map_pages_def st_ok_def st_credit_def st_lookup_def split: option.splits)

theorem MapMemory_loop_witness:
  "let (ptm', s') = fold (\<lambda>(va, pa). MapMemory 0xffff800000000000 va pa)
     [(0x400000, 0x5000)] (example_ptm, example_mem)
   in getMapping 0xffff800000000000 0x400123 ptm' s' = 0x5003"
proof -
  obtain ptm' s' where r: "fold (\<lambda>(va, pa). MapMemory 0xffff800000000000 va pa)
      [(0x400000, 0x5000)] (example_ptm, example_mem) = (ptm', s')" by force
  show ?thesis
    using MapMemory_loop [OF example_pt_ok _ r, of "0x400123"] example_free_card
    by (simp only: r) (simp add: same_page_def ADDR_MASK_def)
qed

text \<open>\<^verbatim>\<open>Unmap\<close> takes away the translation of the page, whatever it was, and no other.\<close>

theorem Unmap_forgets:
  assumes "pt_ok mb ptm s"
  shows "pt_ok mb ptm (Unmap mb va ptm s) \<and>
    getMapping mb va' ptm (Unmap mb va ptm s) = (if same_page va va' then 0 else getMapping mb va' ptm s)"
  using Unmap_spec [OF assms] by blast

theorem Unmap_forgets_witness:
  "getMapping 0xffff800000000000 0x400fff example_ptm
     (Unmap 0xffff800000000000 0x400000 example_ptm example_mem) = 0"
  using Unmap_forgets [OF example_pt_ok, of "0x400000" "0x400fff"] by (simp add: same_page_def)

text \<open>\<^verbatim>\<open>SetFlag\<close> changes the one flag of the one page (clearing \<^verbatim>\<open>Present\<close> unmaps it), and
  setting the user flag of a mapped page really opens it to user mode, in all four levels,
  without closing any other page.\<close>

theorem SetFlag_exact:
  assumes "pt_ok mb ptm s"
  shows "pt_ok mb ptm (SetFlag mb va flag status ptm s) \<and>
    getMapping mb va' ptm (SetFlag mb va flag status ptm s) =
      (if same_page va va' then flagged (getMapping mb va ptm s) flag status
       else getMapping mb va' ptm s) \<and>
    (getMapping mb va ptm s \<noteq> 0 \<and> flag = User \<and> status \<longrightarrow>
       user_accessible mb va ptm (SetFlag mb va flag status ptm s) \<and>
       (user_accessible mb va' ptm s \<longrightarrow>
          user_accessible mb va' ptm (SetFlag mb va flag status ptm s)))"
  using SetFlag_spec [OF assms] SetFlag_user [OF assms] by simp

theorem SetFlag_exact_witness:
  "let (ptm, s) = MapMemory 0xffff800000000000 0x400000 0x5000 (example_ptm, example_mem)
   in user_accessible 0xffff800000000000 0x400000 ptm
        (SetFlag 0xffff800000000000 0x400000 User True ptm s) \<and>
      getMapping 0xffff800000000000 0x400008 ptm
        (SetFlag 0xffff800000000000 0x400000 User True ptm s) = 0x5007"
proof -
  obtain ptm s where r: "MapMemory 0xffff800000000000 0x400000 0x5000 (example_ptm, example_mem) = (ptm, s)"
    by force
  have "pt_ok 0xffff800000000000 ptm s" "getMapping 0xffff800000000000 0x400000 ptm s = 0x5003"
    using MapMemory_spec [OF example_pt_ok example_free_card r] by (simp_all add: same_page_def ADDR_MASK_def)
  then show ?thesis using SetFlag_exact [of "0xffff800000000000" ptm s "0x400000" User True "0x400008"]
    by (simp add: r same_page_def flagged_def set_flag_def is_flag_set_def)
qed

subsection \<open>Out of frames\<close>

lemma table_entry_zero: "table_entry 0 0 = 3"
  by (simp add: table_entry_def set_address_def set_flag_def FLAG_MASK_def ADDR_MASK_def)

text \<open>With no free frame, a new table is physical frame 0.\<close>

lemma next_table_no_frame:
  assumes "pfa_ok mb (frames s)" "free_frame_set (frames s) = {}"
    and "\<not> is_flag_set (tables s t i) Present" "mb \<noteq> t"
  shows "\<exists>tr. next_table mb t i (ptm, s) = (mb, ptm\<lparr>ptm_tracker := tr\<rparr>,
    s\<lparr>tables := attach (tables s) mb t i (table_entry (tables s t i) 0)\<rparr>)"
proof -
  note none = pfa_source.request_none [OF assms(1,2)]
  show ?thesis using next_table_new [OF none assms(3,4), of ptm]
    by (simp add: virtual_to_physical_def)
qed

text \<open>The table is then its own child: the clearing of the next level erases it.\<close>

lemma next_table_self:
  assumes "pfa_ok mb (frames s)" "free_frame_set (frames s) = {}"
    and "\<not> is_flag_set (tables s mb i) Present"
  shows "\<exists>tr. next_table mb mb i (ptm, s) = (mb, ptm\<lparr>ptm_tracker := tr\<rparr>,
    s\<lparr>tables := (tables s)(mb := (\<lambda>_. 0)(i := 3))\<rparr>)"
proof -
  have "RequestPage mb (frames s) = (mb, frames s)"
    by (rule pfa_source.request_none [OF assms(1,2)])
  moreover have "set_entry mb i e (s\<lparr>tables := (tables s)(mb := (\<lambda>_. 0))\<rparr>) =
      s\<lparr>tables := (tables s)(mb := (\<lambda>_. 0)(i := e))\<rparr>" for e
    by (simp add: set_entry_def)
  ultimately show ?thesis using assms(3) table_entry_zero
    by (auto simp: next_table_def PTM_ALLOCATE_PAGE_def virtual_to_physical_def table_entry_def Let_def)
qed

text \<open>When a table is needed and no frame is free, \<^verbatim>\<open>MapMemory\<close> does not fail: physical frame
  0 becomes the table of every missing level, its contents are lost, each level erases the
  one before it in the same frame, and the address is still not mapped.\<close>

theorem MapMemory_out_of_frames:
  assumes "pfa_ok mb (frames s)" "free_frame_set (frames s) = {}" "PML4 ptm \<noteq> mb"
    and "x = page_map_index va" "L1_i x \<noteq> L2_i x" "P_i x \<noteq> L2_i x"
    and "tables s (PML4 ptm) (L3_i x) = 0"
    and "MapMemory mb va pa (ptm, s) = (ptm', s')"
  shows "tables s' (PML4 ptm) (L3_i x) = 3 \<and>
    tables s' mb = (\<lambda>_. 0)(L1_i x := 3, P_i x := (pa AND ADDR_MASK) OR 3) \<and>
    getMapping mb va ptm' s' = 0"
proof -
  obtain t3 where 3: "next_table mb (PML4 ptm) (L3_i x) (ptm, s) = (mb, ptm\<lparr>ptm_tracker := t3\<rparr>,
      s\<lparr>tables := attach (tables s) mb (PML4 ptm) (L3_i x) 3\<rparr>)"
    using next_table_no_frame [OF assms(1,2), of "PML4 ptm" "L3_i x" ptm] assms(3,7) table_entry_zero by auto
  let ?s3 = "s\<lparr>tables := attach (tables s) mb (PML4 ptm) (L3_i x) 3\<rparr>"
  obtain t2 where 2: "next_table mb mb (L2_i x) (ptm\<lparr>ptm_tracker := t3\<rparr>, ?s3) =
      (mb, ptm\<lparr>ptm_tracker := t2\<rparr>, s\<lparr>tables := (tables ?s3)(mb := (\<lambda>_. 0)(L2_i x := 3))\<rparr>)"
    using next_table_self [of mb ?s3 "L2_i x" "ptm\<lparr>ptm_tracker := t3\<rparr>"] assms(1-3)
    by (auto simp: attach_def)
  let ?s2 = "s\<lparr>tables := (tables ?s3)(mb := (\<lambda>_. 0)(L2_i x := 3))\<rparr>"
  obtain t1 where 1: "next_table mb mb (L1_i x) (ptm\<lparr>ptm_tracker := t2\<rparr>, ?s2) =
      (mb, ptm\<lparr>ptm_tracker := t1\<rparr>, s\<lparr>tables := (tables ?s2)(mb := (\<lambda>_. 0)(L1_i x := 3))\<rparr>)"
    using next_table_self [of mb ?s2 "L1_i x" "ptm\<lparr>ptm_tracker := t2\<rparr>"] assms(1-3,5) by auto
  let ?s1 = "s\<lparr>tables := (tables ?s2)(mb := (\<lambda>_. 0)(L1_i x := 3))\<rparr>"
  have s': "ptm' = ptm\<lparr>ptm_tracker := t1\<rparr>"
      "s' = flush_tlb_single va (set_entry mb (P_i x) (page_entry pa) ?s1)"
    using assms(8) 1 2 3 unfolding MapMemory_SetMapping SetMapping_def walk_alloc_def assms(4) [symmetric]
    by (simp_all add: Let_def)
  have T: "tables s' mb = (\<lambda>_. 0)(L1_i x := 3, P_i x := page_entry pa)"
      "tables s' (PML4 ptm) (L3_i x) = 3"
    using assms(3) by (simp_all add: s' flush_tlb_single_def set_entry_def attach_def)
  have "child mb (tables s') (PML4 ptm) (L3_i x) = Some mb"
    by (simp add: child_def T physical_to_virtual_def is_flag_set_def get_address_def ADDR_MASK_def)
  moreover have "child mb (tables s') mb (L2_i x) = None"
    using assms(5,6) by (simp add: child_def T)
  ultimately have "getMapping mb va ptm' s' = 0"
    using s'(1) by (simp add: getMapping_leaf leaf_def path_def assms(4) [symmetric] Let_def)
  then show ?thesis using T by (simp add: page_entry_value)
qed

theorem MapMemory_out_of_frames_witness:
  "let s = example_mem\<lparr>frames := example_pfa\<lparr>last_free_index := 8\<rparr>\<rparr>;
       (ptm', s') = MapMemory 0xffff800000000000 0x403000 0x5000 (example_ptm, s)
   in getMapping 0xffff800000000000 0x403000 ptm' s' = 0 \<and>
      tables s' 0xffff800000001000 0 = 3"
proof -
  let ?s = "example_mem\<lparr>frames := example_pfa\<lparr>last_free_index := 8\<rparr>\<rparr>"
  obtain ptm' s' where r: "MapMemory 0xffff800000000000 0x403000 0x5000 (example_ptm, ?s) = (ptm', s')"
    by force
  have "free_frame_set (frames ?s) = {}" "pfa_ok 0xffff800000000000 (frames ?s)"
    by (auto simp: free_frame_set_def pfa_ok_def example_pfa_def)
  then have "getMapping 0xffff800000000000 0x403000 ptm' s' = 0 \<and> tables s' 0xffff800000001000 0 = 3"
    using MapMemory_out_of_frames [of "0xffff800000000000" ?s example_ptm _ "0x403000", OF _ _ _ refl _ _ _ r]
    by (simp add: page_map_index_def Let_def example_ptm_def example_mem_def)
  then show ?thesis by (simp only: Let_def r prod.case)
qed

subsection \<open>Leaving an address space\<close>

lemma exit_pages_spec:
  assumes "unat (vm_size vm) \<le> 2147479552" "j \<le> page_count vm"
  shows "exit_pages mb ptm vm (4096 * j) s =
    Some (s\<lparr>frames := fold (\<lambda>k. DecreaseReferenceCount mb
      (getPhysicalAddress mb (vm_address vm + of_nat k * 0x1000) ptm s)) [j..<page_count vm] (frames s)\<rparr>)"
  using assms(2)
proof (induction "page_count vm - j" arbitrary: j s)
  case 0
  then have "j = page_count vm" by simp
  moreover have "\<not> 4096 * page_count vm < unat (vm_size vm)" by (simp add: page_count_def)
  ultimately show ?case by (simp add: exit_pages.simps)
next
  case (Suc n)
  then have j: "j < page_count vm" by simp
  then have in_range: "4096 * j < unat (vm_size vm)" by (simp add: page_count_def)
  let ?s = "s\<lparr>frames := DecreaseReferenceCount mb
    (getPhysicalAddress mb (vm_address vm + of_nat j * 0x1000) ptm s) (frames s)\<rparr>"
  have frames_only: "getPhysicalAddress mb va ptm (s\<lparr>frames := f\<rparr>) = getPhysicalAddress mb va ptm s" for va f
    by (simp add: getPhysicalAddress_getMapping getMapping_leaf)
  have "exit_pages mb ptm vm (4096 * j) s = exit_pages mb ptm vm (4096 * Suc j) ?s"
    using in_range assms(1) by (subst exit_pages.simps) (simp add: Let_def mult.commute add.commute)
  then show ?case using Suc.hyps(1) [of "Suc j" ?s] Suc.hyps(2) j
    by (simp add: frames_only upt_conv_Cons)
qed

definition kept :: "bool \<Rightarrow> vm_struct \<Rightarrow> bool" where
  "kept force vm \<longleftrightarrow> \<not> force \<and> vm_flags vm AND VM_FLAG_DONT_FREE \<noteq> 0"

text \<open>The pages of a list of regions, in order.\<close>

definition pages_of :: "vm_struct list \<Rightarrow> u64 list" where
  "pages_of vs = concat (map (\<lambda>vm. map (\<lambda>k. vm_address vm + of_nat k * 0x1000) [0..<page_count vm]) vs)"

lemma exit_loop_spec:
  "\<forall>vm \<in> set vs. unat (vm_size vm) \<le> 2147479552 \<Longrightarrow>
   exit_loop mb ptm force vs s = Some (s\<lparr>frames :=
     fold (\<lambda>va. DecreaseReferenceCount mb (getPhysicalAddress mb va ptm s))
       (pages_of (filter (\<lambda>vm. \<not> kept force vm) vs)) (frames s)\<rparr>)"
proof (induction vs arbitrary: s)
  case (Cons vm vs)
  have frames_only: "getPhysicalAddress mb va ptm (s\<lparr>frames := f\<rparr>) = getPhysicalAddress mb va ptm s" for va f
    by (simp add: getPhysicalAddress_getMapping getMapping_leaf)
  show ?case
  proof (cases "kept force vm")
    case True
    then show ?thesis using Cons by (simp add: kept_def)
  next
    case False
    then have "exit_loop mb ptm force (vm # vs) s =
        (case exit_pages mb ptm vm 0 s of None \<Rightarrow> None | Some s' \<Rightarrow> exit_loop mb ptm force vs s')"
      by (auto simp: kept_def)
    then show ?thesis using False Cons exit_pages_spec [of vm 0 mb ptm s]
      by (simp add: pages_of_def fold_map comp_def frames_only)
  qed
qed (simp add: pages_of_def)

text \<open>\<^verbatim>\<open>exit\<close> drops exactly one reference of the frame behind every page of every region that
  is to be freed, in order, and then forgets all regions: also those it kept because they
  are marked not to be freed, so that a later forced \<^verbatim>\<open>exit\<close> frees nothing more.\<close>

theorem exit_drops_references:
  assumes "\<forall>vm \<in> set (vm_list t). unat (vm_size vm) \<le> 2147479552"
  shows "\<exists>t' s'. vm_tracker_exit mb (Some ptm) force t s = Some (t', s') \<and>
    frames s' = fold (\<lambda>va. DecreaseReferenceCount mb (getPhysicalAddress mb va ptm s))
      (pages_of (filter (\<lambda>vm. force \<or> vm_flags vm AND VM_FLAG_DONT_FREE = 0) (vm_list t))) (frames s) \<and>
    tables s' = tables s \<and> vm_list t' = [] \<and>
    vm_tracker_exit mb (Some ptm) True t' s' = Some (t', s')"
  using exit_loop_spec [OF assms, of mb ptm force s]
  by (auto simp: vm_tracker_exit_def kept_def)

theorem exit_drops_references_witness:
  "\<exists>t' s'. vm_tracker_exit 0xffff800000000000 (Some example_ptm) False
     \<lparr>vm_list = [\<lparr>vm_address = 0x1000, vm_size = 0x1000, vm_flags = VM_FLAG_DONT_FREE\<rparr>],
       total_marked_memory = 0x1000\<rparr> example_mem = Some (t', s') \<and>
     frames s' = frames example_mem \<and> vm_list t' = []"
  using exit_drops_references [of "\<lparr>vm_list = [\<lparr>vm_address = 0x1000, vm_size = 0x1000,
      vm_flags = VM_FLAG_DONT_FREE\<rparr>], total_marked_memory = 0x1000\<rparr>" "0xffff800000000000"
      example_ptm False example_mem]
  by (auto simp: VM_FLAG_DONT_FREE_def pages_of_def)

end
