(* ===== verification/Heap_Pages.thy ===== *)
theory Heap_Pages
  imports Page_Tables
begin

text \<open>
  The pages below the kernel heap. The heap of \<^verbatim>\<open>kernel/src/memory/heap.cpp\<close> is a window of
  kernel addresses whose pages are requested from the frame allocator and mapped one by one
  as it grows. The theory says when such a window is backed (every page has a frame of its own,
  which is neither free nor a page table) and shows that mapping one more requested frame at its
  end keeps it backed.
\<close>

subsection \<open>What mapping leaves alone\<close>

text \<open>Free frames only become fewer, and what no table lies in stays clear of tables unless it was free.\<close>

definition frugal ::
  "u64 \<Rightarrow> PageTableManager \<times> page_mem \<Rightarrow> PageTableManager \<times> page_mem \<Rightarrow> bool" where
  "frugal mb st st' \<longleftrightarrow> PML4 (fst st') = PML4 (fst st) \<and>
     total_pages (frames (snd st')) = total_pages (frames (snd st)) \<and>
     free_frame_set (frames (snd st')) \<subseteq> free_frame_set (frames (snd st)) \<and>
     (\<forall>p. p \<notin> free_frame_set (frames (snd st)) \<and> unused mb (tables (snd st)) (PML4 (fst st)) (p + mb) \<longrightarrow>
        unused mb (tables (snd st')) (PML4 (fst st)) (p + mb))"

lemma frugal_trans: "frugal mb st st1 \<Longrightarrow> frugal mb st1 st2 \<Longrightarrow> frugal mb st st2"
  unfolding frugal_def by (metis (no_types, lifting) subset_iff)

lemma request_total: "pfa_ok mb f \<Longrightarrow> total_pages (snd (RequestPage mb f)) = total_pages f"
  using RequestPage_cases [of mb f] by auto

lemma next_table_frugal:
  assumes ok: "pt_ok mb ptm s" and at: "table_at mb (tables s) (PML4 ptm) is = Some t"
    and len: "length is \<le> 2" and free: "free_frame_set (frames s) \<noteq> {}"
  shows "frugal mb (ptm, s) (snd (next_table mb t i (ptm, s)))"
proof (cases "is_flag_set (tables s t i) Present")
  case True
  then show ?thesis by (simp add: next_table_def frugal_def)
next
  case False
  let ?T = "tables s" and ?root = "PML4 ptm"
  have pfa: "pfa_ok mb (frames s)" using ok by (simp add: pt_ok_def)
  obtain p f where p: "p \<in> free_frame_set (frames s)" "RequestPage mb (frames s) = (p + mb, f)"
      "free_frame_set f = free_frame_set (frames s) - {p}"
    using pfa_source.request_some [OF pfa free] by (metis prod.collapse)
  note phys = virtual_of_frame [OF pfa p(1)]
  define e where "e = table_entry (?T t i) p"
  have "physical_to_virtual mb (get_address e) = p + mb"
    using pfa_source.frame_aligned [OF pfa p(1)]
    by (simp add: e_def table_entry_def physical_to_virtual_def ADDR_MASK_def)
  moreover have fresh: "unused mb ?T ?root (p + mb)" using ok p(1) by (simp add: pt_ok_def)
  ultimately have att: "attachable mb ?T ?root is (p + mb) t i e"
    using ok at len False by (simp add: attachable_def pt_ok_def e_def table_entry_def)
  have "p + mb \<noteq> t" using fresh at len by (auto simp: unused_def)
  then obtain tr where step: "next_table mb t i (ptm, s) = (p + mb, ptm\<lparr>ptm_tracker := tr\<rparr>,
      s\<lparr>frames := f, tables := attach ?T (p + mb) t i e\<rparr>)"
    using next_table_new [OF p(2) False] phys by (auto simp: e_def)
  have "total_pages f = total_pages (frames s)" using request_total [OF pfa] p(2) by simp
  moreover have "unused mb (attach ?T (p + mb) t i e) ?root (q + mb)"
    if "q \<notin> free_frame_set (frames s)" "unused mb ?T ?root (q + mb)" for q
    using that p(1) by (intro attach_unused [OF att]) auto
  ultimately show ?thesis using p(3) by (auto simp: step frugal_def)
qed

lemma walk_alloc_frugal:
  assumes ok: "pt_ok mb ptm s" and free: "3 \<le> card (free_frame_set (frames s))"
  shows "frugal mb (ptm, s) (snd (walk_alloc mb va (ptm, s)))"
proof -
  define x where "x = page_map_index va"
  have ne: "free_frame_set (frames t) \<noteq> {}" if "Suc 0 \<le> card (free_frame_set (frames t))" for t
    using that by auto
  obtain v3 p3 s3 where 3: "next_table mb (PML4 ptm) (L3_i x) (ptm, s) = (v3, p3, s3)"
      "grown mb 1 (ptm, s) (p3, s3)" "table_at mb (tables s3) (PML4 ptm) [L3_i x] = Some v3"
    using next_table_spec [OF ok, of "[]" "PML4 ptm" "L3_i x"] ne free by fastforce
  have f3: "frugal mb (ptm, s) (p3, s3)"
    using next_table_frugal [OF ok, of "[]" "PML4 ptm" "L3_i x"] ne free 3(1) by fastforce
  have ok3: "pt_ok mb p3 s3" "PML4 p3 = PML4 ptm" "2 \<le> card (free_frame_set (frames s3))"
    using 3(2) free by (simp_all add: grown_def)
  then obtain v2 p2 s2 where 2: "next_table mb v3 (L2_i x) (p3, s3) = (v2, p2, s2)"
      "grown mb 1 (p3, s3) (p2, s2)" "table_at mb (tables s2) (PML4 ptm) [L2_i x, L3_i x] = Some v2"
    using next_table_spec [of mb p3 s3 "[L3_i x]" v3 "L2_i x"] 3(3) ne by fastforce
  have f2: "frugal mb (p3, s3) (p2, s2)"
    using next_table_frugal [of mb p3 s3 "[L3_i x]" v3 "L2_i x"] ok3 3(3) ne 2(1) by fastforce
  have ok2: "pt_ok mb p2 s2" "PML4 p2 = PML4 ptm" "1 \<le> card (free_frame_set (frames s2))"
    using 2(2) ok3 by (simp_all add: grown_def)
  have "frugal mb (p2, s2) (snd (next_table mb v2 (L1_i x) (p2, s2)))"
    using next_table_frugal [of mb p2 s2 "[L2_i x, L3_i x]" v2 "L1_i x"] ok2 2(3) ne by fastforce
  then have "frugal mb (ptm, s) (snd (next_table mb v2 (L1_i x) (p2, s2)))"
    by (rule frugal_trans [OF frugal_trans [OF f3 f2]])
  then show ?thesis using 3(1) 2(1) by (simp add: walk_alloc_def x_def Let_def)
qed

lemma MapMemory_frugal:
  assumes ok: "pt_ok mb ptm s" and free: "3 \<le> card (free_frame_set (frames s))"
  shows "frugal mb (ptm, s) (MapMemory mb va pa (ptm, s))"
proof -
  obtain v p1 s1 where w: "walk_alloc mb va (ptm, s) = (v, p1, s1)" and g: "grown mb 3 (ptm, s) (p1, s1)"
      and at: "table_at mb (tables s1) (PML4 ptm) (path va) = Some v"
    using walk_alloc_spec [OF ok free, of va] by (metis prod.collapse snd_conv)
  have f: "frugal mb (ptm, s) (p1, s1)" using walk_alloc_frugal [OF ok free, of va] by (simp add: w)
  have tree: "tree mb (tables s1) (PML4 ptm)" using g by (auto simp: grown_def pt_ok_def)
  let ?i = "P_i (page_map_index va)"
  have "MapMemory mb va pa (ptm, s) = (p1, flush_tlb_single va (set_entry v ?i (page_entry pa) s1))"
    by (simp add: MapMemory_SetMapping SetMapping_def w Let_def)
  then show ?thesis
    using f leaf_write_ok [OF tree at length_path, of ?i "page_entry pa"]
    by (auto simp: frugal_def flush_tlb_single_def set_entry_def)
qed

text \<open>Clearing a frame that no table lies in changes no translation.\<close>

lemma clear_table_at:
  assumes "unused mb T root v"
  shows "length js \<le> 3 \<Longrightarrow> table_at mb (T(v := z)) root js = table_at mb T root js"
proof (induction js)
  case (Cons j js)
  have "u \<noteq> v" if "table_at mb T root js = Some u" for u
    using assms that Cons.prems by (auto simp: unused_def)
  then show ?case using Cons by (auto simp: child_def split: option.split)
qed simp

lemma clear_unused:
  assumes ok: "pt_ok mb ptm s" and v: "unused mb (tables s) (PML4 ptm) v"
  shows "pt_ok mb ptm (s\<lparr>tables := (tables s)(v := z)\<rparr>) \<and>
    getMapping mb va ptm (s\<lparr>tables := (tables s)(v := z)\<rparr>) = getMapping mb va ptm s \<and>
    unused mb ((tables s)(v := z)) (PML4 ptm) w = unused mb (tables s) (PML4 ptm) w"
proof -
  note same = clear_table_at [OF v]
  have un: "unused mb ((tables s)(v := z)) (PML4 ptm) w = unused mb (tables s) (PML4 ptm) w" for w
    unfolding unused_def by (simp add: same cong: conj_cong imp_cong)
  have "tree mb ((tables s)(v := z)) (PML4 ptm)"
    using ok unfolding pt_ok_def tree_def by (simp add: same cong: conj_cong imp_cong)
  moreover have "u \<noteq> v" if "table_at mb (tables s) (PML4 ptm) (path va) = Some u" for u
    using v that unfolding unused_def by (metis length_path order_refl)
  ultimately show ?thesis using ok un same [of "path va"]
    by (auto simp: pt_ok_def getMapping_leaf leaf_def split: option.split)
qed

subsection \<open>Pages of kernel addresses\<close>

lemma high_bits:
  assumes "0xffff800000000000 \<le> (a :: u64)" "47 \<le> k" "k < 64"
  shows "bit a k"
proof -
  have "NOT a = 0xffffffffffffffff - a" by (simp add: not_eq_complement)
  moreover have "unat (0xffffffffffffffff - a) = 18446744073709551615 - unat a"
  proof (subst unat_sub64)
    have "unat a \<le> 18446744073709551615" using unat_lt64 [of a] by linarith
    then show "a \<le> 0xffffffffffffffff" by (simp add: word_le_nat_alt)
  qed simp
  ultimately have "unat (NOT a) < 2 ^ 47" using assms(1) unat_lt64 [of a] by (simp add: word_le_nat_alt)
  from not_bit_small [OF this assms(2)] show ?thesis using assms(3) by (simp add: bit_not_iff)
qed

lemma same_page_high:
  assumes "0xffff800000000000 \<le> a" "0xffff800000000000 \<le> b"
  shows "same_page a b \<longleftrightarrow> unat a div 4096 = unat b div 4096"
proof -
  have "unat a div 4096 = unat b div 4096 \<longleftrightarrow> drop_bit 12 a = drop_bit 12 b"
    by (simp add: word_unat_eq_iff unat_drop_bit_eq drop_bit_eq_div unat_div)
  also have "\<dots> \<longleftrightarrow> (\<forall>k. 12 \<le> k \<and> k < 64 \<longrightarrow> bit a k = bit b k)"
  proof
    assume e: "drop_bit 12 a = drop_bit 12 b"
    show "\<forall>k. 12 \<le> k \<and> k < 64 \<longrightarrow> bit a k = bit b k"
    proof (intro allI impI)
      fix k :: nat assume "12 \<le> k \<and> k < 64"
      then obtain j where "k = 12 + j" by (metis le_Suc_ex)
      then show "bit a k = bit b k" using arg_cong [OF e, of "\<lambda>w. bit w j"] by (simp add: bit_drop_bit_eq)
    qed
  next
    assume e: "\<forall>k. 12 \<le> k \<and> k < 64 \<longrightarrow> bit a k = bit b k"
    show "drop_bit 12 a = drop_bit 12 b"
    proof (rule bit_eqI)
      fix n
      show "bit (drop_bit 12 a) n = bit (drop_bit 12 b) n"
        using e [rule_format, of "12 + n"] bit_imp_le_length [of a "12 + n"] bit_imp_le_length [of b "12 + n"]
        by (cases "12 + n < 64") (auto simp: bit_drop_bit_eq)
    qed
  qed
  also have "\<dots> \<longleftrightarrow> same_page a b"
    unfolding same_page_bits
  proof (rule iffI; intro allI impI)
    fix k :: nat
    assume e: "\<forall>k. 12 \<le> k \<and> k < 48 \<longrightarrow> bit a k = bit b k" and k: "12 \<le> k \<and> k < 64"
    show "bit a k = bit b k"
    proof (cases "k < 48")
      case False
      then show ?thesis using high_bits [OF assms(1), of k] high_bits [OF assms(2), of k] k by simp
    qed (use e k in simp)
  qed simp
  finally show ?thesis by simp
qed

subsection \<open>Backed windows\<close>

definition heap_frame :: "u64 \<Rightarrow> u64 \<Rightarrow> PageTableManager \<times> page_mem \<Rightarrow> u64" where
  "heap_frame mb a v = get_address (st_lookup mb a v)"

text \<open>The address is mapped, to a frame of the machine that is neither free nor a page table.\<close>

definition page_backed :: "u64 \<Rightarrow> u64 \<Rightarrow> PageTableManager \<times> page_mem \<Rightarrow> bool" where
  "page_backed mb a v \<longleftrightarrow> is_flag_set (st_lookup mb a v) Present \<and>
     unat (heap_frame mb a v) < 4096 * unat (total_pages (frames (snd v))) \<and>
     heap_frame mb a v \<notin> free_frame_set (frames (snd v)) \<and>
     unused mb (tables (snd v)) (PML4 (fst v)) (heap_frame mb a v + mb)"

text \<open>
  The window from \<open>start\<close> to \<open>fin\<close>, whole pages of the upper half of the address space: every
  page is backed and no two pages share a frame. The direct map of the frames ends below the heap.
\<close>

definition backed :: "u64 \<Rightarrow> u64 \<Rightarrow> u64 \<Rightarrow> PageTableManager \<times> page_mem \<Rightarrow> bool" where
  "backed mb start fin v \<longleftrightarrow> st_ok mb v \<and>
     mb \<le> HEAP_BASE mb \<and> unat (total_pages (frames (snd v))) \<le> 4294967296 \<and>
     0xffff800000000000 \<le> start \<and> start \<le> fin \<and> 4096 dvd unat start \<and> 4096 dvd unat fin \<and>
     (\<forall>a. start \<le> a \<and> a < fin \<longrightarrow> page_backed mb a v) \<and>
     (\<forall>a b. start \<le> a \<and> a < fin \<and> start \<le> b \<and> b < fin \<and> heap_frame mb a v = heap_frame mb b v \<longrightarrow>
        unat a div 4096 = unat b div 4096)"

lemma backed_start:
  "st_ok mb v \<Longrightarrow> mb \<le> HEAP_BASE mb \<Longrightarrow> unat (total_pages (frames (snd v))) \<le> 4294967296 \<Longrightarrow>
   0xffff800000000000 \<le> start \<Longrightarrow> 4096 dvd unat start \<Longrightarrow> backed mb start start v"
  by (auto simp: backed_def)

lemma page_range:
  assumes "4096 dvd unat fin" "unat (fin :: u64) + 4096 < 18446744073709551616"
  shows "fin \<le> a \<and> a < fin + 0x1000 \<longleftrightarrow> unat a div 4096 = unat fin div 4096"
    and "a < fin + 0x1000 \<longleftrightarrow> a < fin \<or> unat a div 4096 = unat fin div 4096"
    and "a < fin \<Longrightarrow> unat a div 4096 \<noteq> unat fin div 4096"
proof -
  obtain k where k: "unat fin = 4096 * k" using assms(1) by (elim dvdE)
  have stop: "unat (fin + 0x1000) = 4096 * k + 4096" using assms(2) k by (simp add: unat_add64)
  show "fin \<le> a \<and> a < fin + 0x1000 \<longleftrightarrow> unat a div 4096 = unat fin div 4096"
    "a < fin + 0x1000 \<longleftrightarrow> a < fin \<or> unat a div 4096 = unat fin div 4096"
    "a < fin \<Longrightarrow> unat a div 4096 \<noteq> unat fin div 4096"
    unfolding word_less_nat_alt word_le_nat_alt stop k by (auto; presburger)+
qed

text \<open>One more requested frame, cleared or not, mapped at the end of the window.\<close>

lemma map_fresh_page:
  assumes win: "backed mb start fin (ptm, m)" and free: "4 \<le> card (free_frame_set (frames m))"
    and room: "unat fin + 4096 < 18446744073709551616"
    and req: "RequestPage mb (frames m) = (page, f)"
    and T: "T = tables m \<or> T = (tables m)(page := (\<lambda>_. 0))"
    and v: "v' = MapMemory mb fin (virtual_to_physical mb page) (ptm, m\<lparr>frames := f, tables := T\<rparr>)"
  shows "backed mb start (fin + 0x1000) v' \<and>
    card (free_frame_set (frames m)) \<le> card (free_frame_set (frames (snd v'))) + 4 \<and>
    unat mb \<le> unat page \<and> unat page + 4096 \<le> unat (HEAP_BASE mb)"
proof -
  let ?F = "free_frame_set (frames m)"
  have ok: "pt_ok mb ptm m" and mb: "mb \<le> HEAP_BASE mb" "unat (total_pages (frames m)) \<le> 4294967296"
    and hi: "0xffff800000000000 \<le> start" "start \<le> fin" and al: "4096 dvd unat start" "4096 dvd unat fin"
    using win by (simp_all add: backed_def st_ok_def)
  have pages: "page_backed mb a (ptm, m)" if "start \<le> a" "a < fin" for a
    using win that unfolding backed_def by blast
  have own: "unat a div 4096 = unat b div 4096"
    if "start \<le> a" "a < fin" "start \<le> b" "b < fin" "heap_frame mb a (ptm, m) = heap_frame mb b (ptm, m)" for a b
    using win that unfolding backed_def by blast
  have pfa: "pfa_ok mb (frames m)" using ok by (simp add: pt_ok_def)
  have "?F \<noteq> {}" using free by auto
  then obtain p where p: "p \<in> ?F" "page = p + mb" "free_frame_set f = ?F - {p}"
    using pfa_source.request_some [OF pfa] req by (metis fst_conv snd_conv)
  have phys: "virtual_to_physical mb page = p" unfolding p(2) by (rule virtual_of_frame [OF pfa p(1)])
  have mask: "p AND ADDR_MASK = p" using pfa_source.frame_aligned [OF pfa p(1)] by (simp add: ADDR_MASK_def)
  obtain i where i: "p = i * 0x1000" "i < total_pages (frames m)" using p(1) by (auto simp: free_frame_set_def)
  then have up: "unat p = unat i * 4096" "unat i < unat (total_pages (frames m))"
    using pfa unat_frame_addr [of i] by (auto simp: pfa_ok_def word_less_nat_alt)
  have page: "unat page = unat p + unat mb"
    using up pfa unfolding p(2) by (subst unat_add64) (auto simp: pfa_ok_def)
  have base: "unat (HEAP_BASE mb) = unat mb + 17592186044416"
    using mb(1) unat_plus64 [of mb "0x100000000000"] unfolding HEAP_BASE_def word_le_nat_alt
    by (simp split: if_splits)
  have fresh: "unused mb (tables m) (PML4 ptm) page" using ok p by (simp add: pt_ok_def)
  have fin: "finite ?F" using free by (metis card.infinite not_numeral_le_zero)
  have ok0: "pt_ok mb ptm (m\<lparr>frames := f\<rparr>)"
    using ok p(3) req pfa_source.ok_request [OF pfa] by (auto simp: pt_ok_def)
  define m1 where "m1 = m\<lparr>frames := f, tables := T\<rparr>"
  have m1: "pt_ok mb ptm m1" "getMapping mb a ptm m1 = getMapping mb a ptm m"
      "unused mb (tables m1) (PML4 ptm) w = unused mb (tables m) (PML4 ptm) w" for a w
    using T clear_unused [OF ok0, of page "\<lambda>_. 0"] fresh ok0 unfolding m1_def
    by (auto simp: getMapping_leaf)
  have F1: "free_frame_set (frames m1) = ?F - {p}" "total_pages (frames m1) = total_pages (frames m)"
    using p(3) req request_total [OF pfa] by (simp_all add: m1_def)
  then have card1: "card (free_frame_set (frames m1)) = card ?F - 1" using p(1) fin by simp
  obtain ptm' m' where r: "MapMemory mb fin p (ptm, m1) = (ptm', m')" by force
  have v': "v' = (ptm', m')" using v phys r by (simp add: m1_def)
  have three: "3 \<le> card (free_frame_set (frames m1))" using card1 free by simp
  note spec = MapMemory_spec [OF m1(1) three r]
  have fr: "frugal mb (ptm, m1) (ptm', m')" using MapMemory_frugal [OF m1(1) three, of fin p] r by simp
  have root: "PML4 ptm' = PML4 ptm" and sub: "free_frame_set (frames m') \<subseteq> ?F - {p}"
    and tot: "total_pages (frames m') = total_pages (frames m)"
    using fr F1 by (simp_all add: frugal_def)
  have clear: "unused mb (tables m') (PML4 ptm) (q + mb)"
    if "q \<notin> ?F - {p}" "unused mb (tables m) (PML4 ptm) (q + mb)" for q
    using that fr F1(1) m1(3) by (simp add: frugal_def)
  have look: "st_lookup mb a v' = (if unat a div 4096 = unat fin div 4096 then p OR 3
      else st_lookup mb a (ptm, m))" if "start \<le> a" for a
    using spec m1(2) same_page_high [of fin a] that hi mask by (auto simp: st_lookup_def v')
  have "get_address (page_entry p) = p" by (simp add: page_entry_def mask)
  then have addr: "get_address (p OR 3) = p" by (simp only: page_entry_value mask)
  have pres: "is_flag_set (p OR 3) Present" using page_entry_value [of p] page_entry_flags [of p] by (simp add: mask)
  have frame: "heap_frame mb a v' = (if unat a div 4096 = unat fin div 4096 then p
      else heap_frame mb a (ptm, m))" if "start \<le> a" for a
    using look [OF that] addr by (simp add: heap_frame_def)
  have old: "heap_frame mb a (ptm, m) \<noteq> p" if "start \<le> a" "a < fin" for a
    using pages [OF that] p(1) by (auto simp: page_backed_def)
  have new: "page_backed mb a v'" if "start \<le> a" "a < fin + 0x1000" for a
  proof (cases "unat a div 4096 = unat fin div 4096")
    case True
    then show ?thesis using frame [OF that(1)] look [OF that(1)] pres sub clear [of p] fresh p(2) up
      by (auto simp: page_backed_def v' tot root)
  next
    case False
    then have "a < fin" using page_range(2) [OF al(2) room] that(2) by blast
    from pages [OF that(1) this] show ?thesis
      using frame [OF that(1)] look [OF that(1)] False sub clear
      by (auto simp: page_backed_def v' tot root)
  qed
  have own': "unat a div 4096 = unat b div 4096"
    if "start \<le> a" "a < fin + 0x1000" "start \<le> b" "b < fin + 0x1000" "heap_frame mb a v' = heap_frame mb b v'" for a b
    using that frame own old page_range(2) [OF al(2) room] by (metis (no_types, lifting))
  have "start \<le> fin + 0x1000" "4096 dvd unat (fin + 0x1000)"
    using hi(2) al(2) room by (simp_all add: unat_add64 word_le_nat_alt)
  then have "backed mb start (fin + 0x1000) v'"
    using spec mb hi(1) al(1) new own' tot unfolding backed_def st_ok_def v' by simp
  moreover have "card ?F \<le> card (free_frame_set (frames m')) + 4" using spec card1 free by linarith
  moreover have "unat page + 4096 \<le> unat (HEAP_BASE mb)" using up mb(2) unfolding page base by linarith
  ultimately show ?thesis by (simp add: v' page)
qed

end
