(* ===== verification/Heap.thy ===== *)
theory Heap
  imports Heap_Pages
begin

text \<open>
  The kernel heap of \<^verbatim>\<open>kernel/src/memory/heap.cpp\<close>: first-fit allocation from a doubly linked
  list of segments whose headers lie in the heap itself, splitting, coalescing and growth
  page by page. Memory is seen through the headers: the model maps an address to the 48-byte
  \<^verbatim>\<open>heap_header\<close> stored there (headers are 16-byte aligned and never overlap in a sound heap);
  what callers write between the headers is not modelled. That a header can be found under its
  virtual address rests on the pages below: each must have a frame of its own, which is part of a
  sound heap and kept by every growth that finds frames enough. The lock around each call is left
  out, and so is the message printed on a double free. A loop that may run forever, over a
  corrupted list or with a wrapping counter, is a partial function, \<open>None\<close> standing for no
  return.
\<close>

subsection \<open>State\<close>

record heap_header =
  hdr_magic :: "u8 list"
  hdr_previous :: u64
  hdr_next :: u64
  hdr_size :: u64
  hdr_free :: bool

definition heap_magic :: "u8 list" where
  "heap_magic = [0x48, 0x45, 0x41, 0x50]"

definition SIZEOF_heap_header :: u64 where
  "SIZEOF_heap_header = 48"

record heap_state =
  headers :: "u64 \<Rightarrow> heap_header"
  heap_used :: u64
  heap_size :: u64
  heap_start :: u64
  heap_end :: u64
  LastHeapAddress :: u64
  heap_vm :: "PageTableManager \<times> page_mem"
  cleared_pages :: "u64 list"

text \<open>The last field collects the pages that growing the heap has cleared, under their addresses in
  the direct map, the latest first: the only bytes outside the heap and the page tables that it writes.\<close>

text \<open>All bytes zero, as \<^verbatim>\<open>memset\<close> leaves them.\<close>

definition zero_header :: heap_header where
  "zero_header = \<lparr>hdr_magic = [0, 0, 0, 0], hdr_previous = 0, hdr_next = 0, hdr_size = 0, hdr_free = False\<rparr>"

definition zero_headers :: "u64 \<Rightarrow> u64 \<Rightarrow> (u64 \<Rightarrow> heap_header) \<Rightarrow> u64 \<Rightarrow> heap_header" where
  "zero_headers start n hs = (\<lambda>a. if a - start < n then zero_header else hs a)"

definition upd_header :: "u64 \<Rightarrow> (heap_header \<Rightarrow> heap_header) \<Rightarrow> heap_state \<Rightarrow> heap_state" where
  "upd_header a f s = s\<lparr>headers := (headers s)(a := f (headers s a))\<rparr>"

subsection \<open>Segments\<close>

definition merge_forwards :: "u64 \<Rightarrow> heap_state \<Rightarrow> heap_state" where
  "merge_forwards this s =
     (let n = hdr_next (headers s this) in
      if hdr_magic (headers s n) \<noteq> heap_magic then s
      else
        let s1 = upd_header this (\<lambda>h. h\<lparr>hdr_size := hdr_size h + (hdr_size (headers s n) + SIZEOF_heap_header)\<rparr>) s;
            s2 = (if heap_end s1 = n then s1\<lparr>heap_end := this\<rparr> else s1);
            s3 = upd_header this (\<lambda>h. h\<lparr>hdr_next := hdr_next (headers s2 n)\<rparr>) s2;
            n' = hdr_next (headers s3 this)
        in if n' \<noteq> 0 then upd_header n' (\<lambda>h. h\<lparr>hdr_previous := this\<rparr>) s3 else s3)"

definition merge_backwards :: "u64 \<Rightarrow> heap_state \<Rightarrow> u64 \<times> heap_state" where
  "merge_backwards this s =
     (let new_hdr = hdr_previous (headers s this) in
      if hdr_magic (headers s new_hdr) \<noteq> heap_magic then (this, s)
      else
        let s1 = upd_header new_hdr (\<lambda>h. h\<lparr>hdr_size := hdr_size h + (hdr_size (headers s this) + SIZEOF_heap_header)\<rparr>) s;
            s2 = (if heap_end s1 = this then s1\<lparr>heap_end := new_hdr\<rparr> else s1);
            s3 = upd_header new_hdr (\<lambda>h. h\<lparr>hdr_next := hdr_next (headers s2 this)\<rparr>) s2;
            n' = hdr_next (headers s3 new_hdr);
            s4 = (if n' \<noteq> 0 then upd_header n' (\<lambda>h. h\<lparr>hdr_previous := new_hdr\<rparr>) s3 else s3)
        in (new_hdr, s4))"

definition split_segment :: "u64 \<Rightarrow> u64 \<Rightarrow> u64 \<Rightarrow> heap_state \<Rightarrow> heap_state" where
  "split_segment mb split_size this s =
     (let sz = hdr_size (headers s this) in
      if split_size \<ge> sz then s
      else if sz - split_size \<le> SIZEOF_heap_header then s
      else
        let new = this + split_size + SIZEOF_heap_header;
            s1 = upd_header new (\<lambda>_. zero_header\<lparr>hdr_magic := heap_magic,
                   hdr_size := sz - (split_size + SIZEOF_heap_header), hdr_free := True\<rparr>) s;
            s2 = upd_header this (\<lambda>h. h\<lparr>hdr_size := split_size\<rparr>) s1;
            s3 = upd_header new (\<lambda>h. h\<lparr>hdr_previous := this, hdr_next := hdr_next (headers s2 this)\<rparr>) s2;
            n = hdr_next (headers s3 this);
            s4 = (if n \<noteq> 0 \<and> n \<ge> HEAP_BASE mb then upd_header n (\<lambda>h. h\<lparr>hdr_previous := new\<rparr>) s3 else s3);
            s5 = upd_header this (\<lambda>h. h\<lparr>hdr_next := new\<rparr>) s4
        in if heap_end s5 = this then s5\<lparr>heap_end := new\<rparr> else s5)"

subsection \<open>Growth\<close>

text \<open>A page is requested and mapped at the end of the heap; \<^verbatim>\<open>RequestPage\<close> never yields null.\<close>

definition map_heap_page :: "u64 \<Rightarrow> u64 \<Rightarrow> heap_state \<Rightarrow> heap_state" where
  "map_heap_page mb page s =
     s\<lparr>heap_vm := MapMemory mb (LastHeapAddress s) (virtual_to_physical mb page) (heap_vm s)\<rparr>"

definition request_heap_page :: "u64 \<Rightarrow> heap_state \<Rightarrow> u64 \<times> heap_state" where
  "request_heap_page mb s =
     (let (ptm, m) = heap_vm s; (page, f) = RequestPage mb (frames m)
      in (page, s\<lparr>heap_vm := (ptm, m\<lparr>frames := f\<rparr>)\<rparr>))"

text \<open>\<^verbatim>\<open>memset(page, 0, PAGE_SIZE)\<close> on a page that will be the end of the heap: what is cleared through
  the direct map is, read as page tables, empty, and, read through the heap, empty headers.\<close>

definition clear_page :: "u64 \<Rightarrow> heap_state \<Rightarrow> heap_state" where
  "clear_page page s =
     (let (ptm, m) = heap_vm s
      in s\<lparr>heap_vm := (ptm, m\<lparr>tables := (tables m)(page := (\<lambda>_. 0))\<rparr>),
           headers := zero_headers (LastHeapAddress s) 0x1000 (headers s),
           cleared_pages := page # cleared_pages s\<rparr>)"

partial_function (option) init_loop :: "u64 \<Rightarrow> u64 \<Rightarrow> u64 \<Rightarrow> heap_state \<Rightarrow> heap_state option" where
  "init_loop mb sz off s =
     (if off < sz then
        let (page, s1) = request_heap_page mb s in
        if page = 0 then Some s1
        else
          let s2 = map_heap_page mb page s1;
              s3 = s2\<lparr>LastHeapAddress := LastHeapAddress s2 + 0x1000, heap_size := heap_size s2 + 0x1000\<rparr>
          in init_loop mb sz (off + 0x1000) s3
      else Some s)"

definition InitializeHeap :: "u64 \<Rightarrow> u64 \<Rightarrow> u64 \<Rightarrow> heap_state \<Rightarrow> heap_state option" where
  "InitializeHeap mb base sz s =
     map_option (\<lambda>s1.
         let s2 = s1\<lparr>headers := zero_headers (heap_start s1) (heap_size s1) (headers s1)\<rparr>
         in upd_header (heap_start s2) (\<lambda>h. h\<lparr>hdr_size := heap_size s2 - SIZEOF_heap_header, hdr_free := True,
              hdr_previous := 0, hdr_next := 0, hdr_magic := heap_magic\<rparr>) s2)
       (init_loop mb sz 0 (s\<lparr>LastHeapAddress := base, heap_start := base, heap_end := base,
          heap_used := 0, heap_size := 0\<rparr>))"

partial_function (option) expand_loop :: "u64 \<Rightarrow> u64 \<Rightarrow> u64 \<Rightarrow> heap_state \<Rightarrow> heap_state option" where
  "expand_loop mb sz off s =
     (if off < sz then
        let (page, s1) = request_heap_page mb s in
        if page = 0 then Some s1
        else
          let s2 = map_heap_page mb page (clear_page page s1);
              s3 = upd_header (heap_end s2) (\<lambda>h. h\<lparr>hdr_size := hdr_size h + 0x1000\<rparr>) s2;
              s4 = s3\<lparr>LastHeapAddress := LastHeapAddress s3 + 0x1000, heap_size := heap_size s3 + 0x1000\<rparr>
          in expand_loop mb sz (off + 0x1000) s4
      else Some s)"

definition ExpandHeap :: "u64 \<Rightarrow> u64 \<Rightarrow> heap_state \<Rightarrow> heap_state option" where
  "ExpandHeap mb sz s =
     (let previous_size = hdr_size (headers s (heap_end s)) in
      map_option (\<lambda>s1. if \<not> hdr_free (headers s1 (heap_end s1))
          then split_segment mb previous_size (heap_end s1) s1 else s1)
        (expand_loop mb sz 0 s))"

subsection \<open>Allocation\<close>

partial_function (option) fix_loop :: "u64 \<Rightarrow> u64 \<Rightarrow> heap_state \<Rightarrow> heap_state option" where
  "fix_loop mb segment s =
     (if segment = 0 then Some s
      else
        let n = hdr_next (headers s segment) in
        if n < HEAP_BASE mb \<and> n \<noteq> 0
        then Some ((upd_header segment (\<lambda>h. h\<lparr>hdr_next := 0\<rparr>) s)\<lparr>heap_end := segment\<rparr>)
        else fix_loop mb n s)"

definition fix_corrupted_stack :: "u64 \<Rightarrow> heap_state \<Rightarrow> heap_state option" where
  "fix_corrupted_stack mb s = fix_loop mb (heap_start s) s"

partial_function (option) find_loop ::
  "u64 \<Rightarrow> u64 \<Rightarrow> u64 \<Rightarrow> heap_state \<Rightarrow> (u64 \<times> heap_state) option" where
  "find_loop mb sz segment s =
     (if segment = 0 then Some (0, s)
      else
        let h = headers s segment in
        if hdr_next h < HEAP_BASE mb \<and> hdr_next h \<noteq> 0
        then Option.bind (fix_corrupted_stack mb s) (\<lambda>s1. find_loop mb sz (heap_start s1) s1)
        else if hdr_free h \<and> hdr_size h \<ge> sz
        then Some (segment, if hdr_size h > sz + SIZEOF_heap_header then split_segment mb sz segment s else s)
        else find_loop mb sz (hdr_next h) s)"

definition find_free_segment :: "u64 \<Rightarrow> u64 \<Rightarrow> heap_state \<Rightarrow> (u64 \<times> heap_state) option" where
  "find_free_segment mb sz s = find_loop mb sz (heap_start s) s"

definition take_segment :: "u64 \<Rightarrow> heap_state \<Rightarrow> u64 \<times> heap_state" where
  "take_segment segment s =
     (if segment = 0 then (0, s)
      else
        let s1 = upd_header segment (\<lambda>h. h\<lparr>hdr_free := False\<rparr>) s
        in (segment + SIZEOF_heap_header,
            s1\<lparr>heap_used := heap_used s1 + hdr_size (headers s1 segment)\<rparr>))"

definition round16 :: "u64 \<Rightarrow> u64" where
  "round16 sz = (sz + 0xF) AND NOT 0xF"

definition malloc :: "u64 \<Rightarrow> u64 \<Rightarrow> heap_state \<Rightarrow> (u64 \<times> heap_state) option" where
  "malloc mb sz0 s =
     (if sz0 = 0 then Some (0, s)
      else
        let sz = round16 sz0 in
        Option.bind (find_free_segment mb sz s) (\<lambda>(segment, s1).
          if segment = 0 then
            Option.bind (ExpandHeap mb (sz * 2) s1) (\<lambda>s2.
              map_option (\<lambda>(segment, s3). take_segment segment s3) (find_free_segment mb sz s2))
          else Some (take_segment segment s1)))"

definition free :: "u64 \<Rightarrow> u64 \<Rightarrow> heap_state \<Rightarrow> heap_state" where
  "free mb memory s =
     (if memory = 0 then s
      else
        let segment = memory - SIZEOF_heap_header in
        if hdr_magic (headers s segment) \<noteq> heap_magic then s
        else if hdr_free (headers s segment) then s
        else
          let s1 = s\<lparr>heap_used := heap_used s - hdr_size (headers s segment)\<rparr>;
              s2 = upd_header segment (\<lambda>h. h\<lparr>hdr_free := True\<rparr>) s1;
              n = hdr_next (headers s2 segment);
              s3 = (if n \<noteq> 0 \<and> hdr_free (headers s2 n) then merge_forwards segment s2 else s2);
              p = hdr_previous (headers s3 segment)
          in if p \<noteq> 0 \<and> p \<ge> HEAP_BASE mb \<and> hdr_free (headers s3 p)
             then snd (merge_backwards segment s3) else s3)"

subsection \<open>The heap as a list of blocks\<close>

text \<open>A block: its payload size and whether it is free. A list of blocks laid out from an
  address on determines every header.\<close>

type_synonym block = "u64 \<times> bool"

fun blen :: "block list \<Rightarrow> nat" where
  "blen [] = 0"
| "blen ((n, f) # bs) = 48 + unat n + blen bs"

fun after :: "u64 \<Rightarrow> block list \<Rightarrow> u64" where
  "after a [] = a"
| "after a ((n, f) # bs) = after (a + 48 + n) bs"

text \<open>The address of the last block, or the default for no block.\<close>

fun last_at :: "u64 \<Rightarrow> u64 \<Rightarrow> block list \<Rightarrow> u64" where
  "last_at p a [] = p"
| "last_at p a ((n, f) # bs) = last_at a (a + 48 + n) bs"

definition link :: "u64 \<Rightarrow> block list \<Rightarrow> u64 \<Rightarrow> u64" where
  "link a bs nxt = (if bs = [] then nxt else a)"

text \<open>The headers \<open>H\<close> hold the blocks from address \<open>a\<close> on, after \<open>p\<close> and before \<open>nxt\<close>.\<close>

fun segs :: "(u64 \<Rightarrow> heap_header) \<Rightarrow> u64 \<Rightarrow> u64 \<Rightarrow> block list \<Rightarrow> u64 \<Rightarrow> bool" where
  "segs H p a [] nxt \<longleftrightarrow> True"
| "segs H p a ((n, f) # bs) nxt \<longleftrightarrow>
     H a = \<lparr>hdr_magic = heap_magic, hdr_previous = p, hdr_next = link (a + 48 + n) bs nxt,
            hdr_size = n, hdr_free = f\<rparr> \<and> segs H a (a + 48 + n) bs nxt"

fun addrs :: "u64 \<Rightarrow> block list \<Rightarrow> u64 list" where
  "addrs a [] = []"
| "addrs a ((n, f) # bs) = a # addrs (a + 48 + n) bs"

lemma blen_append [simp]: "blen (xs @ ys) = blen xs + blen ys"
  by (induction xs) auto

lemma after_append [simp]: "after a (xs @ ys) = after (after a xs) ys"
  by (induction xs arbitrary: a) auto

lemma last_at_append [simp]: "last_at p a (xs @ ys) = last_at (last_at p a xs) (after a xs) ys"
  by (induction xs arbitrary: p a) auto

lemma addrs_append [simp]: "addrs a (xs @ ys) = addrs a xs @ addrs (after a xs) ys"
  by (induction xs arbitrary: a) auto

lemma link_append: "link a (xs @ ys) nxt = link a xs (link a ys nxt)"
  by (simp add: link_def)

lemma segs_append: "segs H p a (xs @ ys) nxt \<longleftrightarrow>
    segs H p a xs (link (after a xs) ys nxt) \<and> segs H (last_at p a xs) (after a xs) ys nxt"
proof (induction xs arbitrary: p a)
  case (Cons x xs)
  obtain n f where "x = (n, f)" by force
  then show ?case using Cons by (cases xs) (auto simp: link_def)
qed simp

text \<open>Room: the blocks from \<open>a\<close> on end before the end of the address space.\<close>

definition room :: "u64 \<Rightarrow> block list \<Rightarrow> bool" where
  "room a bs \<longleftrightarrow> unat a + blen bs < 18446744073709551616"

lemma unat_block: "room a ((n, f) # bs) \<Longrightarrow> unat (a + 48 + n) = unat a + 48 + unat n"
proof -
  assume r: "room a ((n, f) # bs)"
  then have "unat (a + 48) = unat a + 48" by (simp add: room_def unat_add64)
  then show ?thesis using r by (simp add: room_def unat_add64)
qed

lemma room_Cons: "room a ((n, f) # bs) \<Longrightarrow> room (a + 48 + n) bs"
  using unat_block [of a n f bs] by (simp add: room_def)

lemma unat_after: "room a bs \<Longrightarrow> unat (after a bs) = unat a + blen bs"
proof (induction bs arbitrary: a)
  case (Cons b bs)
  obtain n f where b: "b = (n, f)" by force
  then show ?case using Cons.IH [OF room_Cons [OF Cons.prems [unfolded b]]] unat_block Cons.prems by simp
qed simp

lemma room_append: "room a (xs @ ys) \<Longrightarrow> room a xs \<and> room (after a xs) ys"
  using unat_after [of a xs] by (auto simp: room_def)

lemma addrs_range: "room a bs \<Longrightarrow> x \<in> set (addrs a bs) \<Longrightarrow>
    unat a \<le> unat x \<and> unat x + 48 \<le> unat a + blen bs"
proof (induction bs arbitrary: a)
  case (Cons b bs)
  obtain n f where b: "b = (n, f)" by force
  show ?case
  proof (cases "x = a")
    case False
    then have "x \<in> set (addrs (a + 48 + n) bs)" using Cons.prems b by simp
    from Cons.IH [OF room_Cons [OF Cons.prems(1) [unfolded b]] this] show ?thesis
      using unat_block [OF Cons.prems(1) [unfolded b]] b by simp
  qed (simp add: b)
qed simp

lemma last_at_addrs: "bs \<noteq> [] \<Longrightarrow> last_at p a bs \<in> set (addrs a bs)"
proof (induction bs arbitrary: p a)
  case (Cons b bs)
  obtain n f where "b = (n, f)" by force
  then show ?case using Cons.IH by (cases "bs = []") auto
qed simp

lemma segs_cong: "(\<And>x. x \<in> set (addrs a bs) \<Longrightarrow> H' x = H x) \<Longrightarrow> segs H' p a bs nxt = segs H p a bs nxt"
proof (induction bs arbitrary: p a)
  case (Cons b bs)
  obtain n f where "b = (n, f)" by force
  then show ?case using Cons by simp
qed simp

text \<open>Changing a header outside a run of blocks does not concern it.\<close>

lemma segs_other: "m \<notin> set (addrs a bs) \<Longrightarrow> segs (H(m := h)) p a bs nxt = segs H p a bs nxt"
  by (rule segs_cong) auto

lemma addr_before: "room a (xs @ ys) \<Longrightarrow> x \<in> set (addrs a xs) \<Longrightarrow> y \<in> set (addrs (after a xs) ys) \<Longrightarrow> x \<noteq> y"
  using addrs_range [of a xs x] addrs_range [of "after a xs" ys y] room_append [of a xs ys]
    unat_after [of a xs] by fastforce

lemma after_not_before: "room a (xs @ ys) \<Longrightarrow> after a xs \<notin> set (addrs a xs)"
  using addrs_range [of a xs "after a xs"] room_append [of a xs ys] unat_after [of a xs] by fastforce

text \<open>The links at the ends of a run.\<close>

lemma segs_new_previous:
  assumes "segs H p a (b # bs) nxt" "room a (b # bs)"
  shows "segs (H(a := (H a)\<lparr>hdr_previous := q\<rparr>)) q a (b # bs) nxt"
proof -
  obtain n f where b: "b = (n, f)" by force
  have "a \<notin> set (addrs (a + 48 + n) bs)"
    using addrs_range [OF room_Cons [OF assms(2) [unfolded b]], of a] unat_block [OF assms(2) [unfolded b]]
    by auto
  then show ?thesis using assms(1) by (simp add: b segs_other)
qed

lemma segs_new_next:
  assumes "segs H p a bs nxt" "room a bs" "bs \<noteq> []"
  shows "segs (H(last_at p a bs := (H (last_at p a bs))\<lparr>hdr_next := nxt'\<rparr>)) p a bs nxt'"
  using assms
proof (induction bs arbitrary: p a)
  case (Cons b bs)
  obtain n f where b: "b = (n, f)" by force
  show ?case
  proof (cases "bs = []")
    case True
    then show ?thesis using Cons.prems b by (simp add: link_def)
  next
    case False
    have r: "room (a + 48 + n) bs" by (rule room_Cons [OF Cons.prems(2) [unfolded b]])
    have "last_at a (a + 48 + n) bs \<noteq> a"
      using addrs_range [OF r last_at_addrs [OF False, of a]] unat_block [OF Cons.prems(2) [unfolded b]]
      by auto
    then show ?thesis using Cons.IH [OF _ r False, of a] Cons.prems(1) b False by (simp add: link_def)
  qed
qed simp

lemma segs_tail:
  assumes "segs H q c ys nxt" "room c ys"
    and "\<And>x. x \<in> set (addrs c ys) \<Longrightarrow> H' x = (if x = c then (H c)\<lparr>hdr_previous := q'\<rparr> else H x)"
  shows "segs H' q' c ys nxt"
proof (cases ys)
  case (Cons b bs)
  have "segs (H(c := (H c)\<lparr>hdr_previous := q'\<rparr>)) q' c ys nxt"
    using assms(1,2) segs_new_previous Cons by blast
  moreover have "segs H' q' c ys nxt = segs (H(c := (H c)\<lparr>hdr_previous := q'\<rparr>)) q' c ys nxt"
    using assms(3) by (intro segs_cong) auto
  ultimately show ?thesis by simp
qed simp

text \<open>Replacing some blocks by others that fill the same space.\<close>

lemma segs_replace:
  assumes "segs H p a (xs @ old @ ys) nxt" "room a (xs @ old @ ys)" "old \<noteq> []" "new \<noteq> []"
    and "after (after a xs) new = after (after a xs) old"
    and "\<And>x. x \<in> set (addrs a xs) \<Longrightarrow> H' x = H x"
    and "segs H' (last_at p a xs) (after a xs) new (link (after a (xs @ old)) ys nxt)"
    and "\<And>x. x \<in> set (addrs (after a (xs @ old)) ys) \<Longrightarrow> H' x = (if x = after a (xs @ old)
           then (H x)\<lparr>hdr_previous := last_at p a (xs @ new)\<rparr> else H x)"
  shows "segs H' p a (xs @ new @ ys) nxt"
proof -
  let ?c = "after (after a xs) old"
  have xs: "segs H p a xs (after a xs)"
    and tail: "segs H (last_at (last_at p a xs) (after a xs) old) ?c ys nxt"
    using assms(1,3) by (simp_all add: segs_append link_def)
  have "segs H' p a xs (after a xs)"
    using xs segs_cong [of a xs H' H p "after a xs"] assms(6) by simp
  moreover have "segs H' (last_at p a (xs @ new)) ?c ys nxt"
    using assms(2,8) room_append [of a "xs @ old" ys] by (intro segs_tail [OF tail]) simp_all
  ultimately show ?thesis using assms(4,5,7) by (simp add: segs_append link_def)
qed

text \<open>Where three neighbouring headers are: all different, the next one at or above the first.\<close>

lemma block_order:
  assumes "room a (xs @ (n, f) # ys)" "c = after a xs + 48 + n"
  shows "c \<noteq> after a xs" "after a xs \<notin> set (addrs a xs)" "after a xs \<notin> set (addrs c ys)"
    "unat a \<le> unat c" "unat c = unat (after a xs) + 48 + unat n"
    "\<And>x. x \<in> set (addrs a xs) \<Longrightarrow> unat x + 48 \<le> unat (after a xs)"
    "\<And>x. x \<in> set (addrs c ys) \<Longrightarrow> unat c \<le> unat x"
proof -
  have r: "room (after a xs) ((n, f) # ys)" "room a xs" using room_append [OF assms(1)] by auto
  show c: "unat c = unat (after a xs) + 48 + unat n" using unat_block [OF r(1)] assms(2) by simp
  then show "c \<noteq> after a xs" by auto
  show "after a xs \<notin> set (addrs a xs)" by (rule after_not_before [OF assms(1)])
  show le: "unat c \<le> unat x" if "x \<in> set (addrs c ys)" for x
    using addrs_range [OF room_Cons [OF r(1)], folded assms(2), OF that] by simp
  then show "after a xs \<notin> set (addrs c ys)" using c by force
  show "unat a \<le> unat c" using c unat_after [OF r(2)] by simp
  show "unat x + 48 \<le> unat (after a xs)" if "x \<in> set (addrs a xs)" for x
    using addrs_range [OF r(2) that] unat_after [OF r(2)] by simp
qed

subsection \<open>Splitting and merging on the blocks\<close>

lemma segs_head: "segs H p a (xs @ (n, f) # ys) nxt \<Longrightarrow>
    H (after a xs) = \<lparr>hdr_magic = heap_magic, hdr_previous = last_at p a xs,
      hdr_next = link (after a xs + 48 + n) ys nxt, hdr_size = n, hdr_free = f\<rparr>"
  by (simp add: segs_append)

text \<open>What splitting writes when it does not return early.\<close>

lemma split_segment_eq:
  assumes "h = headers s m" "hdr_size h = sz" "k < sz" "48 < sz - k" "new = m + k + 48" "new \<noteq> m"
    and "hdr_next h \<noteq> m" "hdr_next h \<noteq> new"
  shows "split_segment mb k m s = s\<lparr>headers := (\<lambda>x.
      if x = m then h\<lparr>hdr_size := k, hdr_next := new\<rparr>
      else if x = new then \<lparr>hdr_magic = heap_magic, hdr_previous = m, hdr_next = hdr_next h,
        hdr_size = sz - (k + 48), hdr_free = True\<rparr>
      else if x = hdr_next h \<and> x \<noteq> 0 \<and> HEAP_BASE mb \<le> x then (headers s x)\<lparr>hdr_previous := new\<rparr>
      else headers s x),
    heap_end := (if heap_end s = m then new else heap_end s)\<rparr>"
proof -
  define nx where "nx = hdr_next h"
  define s1 where "s1 = upd_header new (\<lambda>_. zero_header\<lparr>hdr_magic := heap_magic,
      hdr_size := sz - (k + 48), hdr_free := True\<rparr>) s"
  define s2 where "s2 = upd_header m (\<lambda>h. h\<lparr>hdr_size := k\<rparr>) s1"
  define s3 where "s3 = upd_header new (\<lambda>h. h\<lparr>hdr_previous := m, hdr_next := hdr_next (headers s2 m)\<rparr>) s2"
  have next3: "hdr_next (headers s3 m) = nx"
    using assms(1,6) by (simp add: s3_def s2_def s1_def upd_header_def nx_def)
  define s4 where "s4 = (if nx \<noteq> 0 \<and> nx \<ge> HEAP_BASE mb then upd_header nx (\<lambda>h. h\<lparr>hdr_previous := new\<rparr>) s3 else s3)"
  define s5 where "s5 = upd_header m (\<lambda>h. h\<lparr>hdr_next := new\<rparr>) s4"
  have facts: "(sz \<le> k) = False" "(sz - k \<le> 48) = False" "hdr_size (headers s m) = sz" "m + k + 48 = new"
    using assms(1-5) by (simp_all add: not_le)
  have "split_segment mb k m s = (if heap_end s5 = m then s5\<lparr>heap_end := new\<rparr> else s5)"
    by (simp only: split_segment_def SIZEOF_heap_header_def Let_def facts if_False s1_def [symmetric]
        s2_def [symmetric] s3_def [symmetric] next3 s4_def [symmetric] s5_def [symmetric])
  moreover have "s5 = s\<lparr>headers := headers s5\<rparr>"
    by (simp add: s5_def s4_def s3_def s2_def s1_def upd_header_def)
  moreover have "headers s5 = (\<lambda>x.
      if x = m then h\<lparr>hdr_size := k, hdr_next := new\<rparr>
      else if x = new then \<lparr>hdr_magic = heap_magic, hdr_previous = m, hdr_next = nx,
        hdr_size = sz - (k + 48), hdr_free = True\<rparr>
      else if x = nx \<and> x \<noteq> 0 \<and> HEAP_BASE mb \<le> x then (headers s x)\<lparr>hdr_previous := new\<rparr>
      else headers s x)"
    using assms(1,6,7,8) by (intro ext)
      (auto simp: s5_def s4_def s3_def s2_def s1_def upd_header_def nx_def zero_header_def)
  ultimately show ?thesis unfolding nx_def [symmetric] by (cases "heap_end s = m") simp_all
qed

lemma split_blocks:
  assumes segs: "segs (headers s) 0 a (xs @ (n, f) # ys) 0" and room: "room a (xs @ (n, f) # ys)"
    and base: "HEAP_BASE mb \<le> a" "0 < a" and fits: "unat k + 48 < unat n"
  shows "\<exists>H'. split_segment mb k (after a xs) s = s\<lparr>headers := H',
      heap_end := (if heap_end s = after a xs then after a xs + 48 + k else heap_end s)\<rparr> \<and>
    segs H' 0 a (xs @ (k, f) # (n - k - 48, True) # ys) 0"
proof -
  let ?m = "after a xs" and ?H = "headers s"
  define c where "c = ?m + 48 + n"
  define new where "new = ?m + k + 48"
  note ord = block_order [OF room c_def]
  have m: "?H ?m = \<lparr>hdr_magic = heap_magic, hdr_previous = last_at 0 a xs, hdr_next = link c ys 0,
      hdr_size = n, hdr_free = f\<rparr>"
    using segs_head [OF segs] by (simp add: c_def)
  have k: "k < n" "48 < n - k" "unat (n - k - 48) = unat n - unat k - 48"
    using fits by (simp_all add: word_less_nat_alt unat_sub64 word_le_nat_alt)
  have new: "unat new = unat ?m + 48 + unat k"
    using ord(5) fits unat_lt64 [of c] by (simp only: new_def) (simp add: unat_add64)
  have c_new: "c = new + 48 + (n - k - 48)" by (simp add: c_def new_def)
  have ne: "new \<noteq> ?m" "new \<noteq> c" "c \<noteq> ?m" using new ord(3,5) fits by auto
  have c0: "c \<noteq> 0" "HEAP_BASE mb \<le> c" and m0: "?m \<noteq> 0" "new \<noteq> 0"
    using ord(4) base new unat_after [of a xs] room_append [OF room]
    by (auto simp: word_le_nat_alt word_less_nat_alt)
  define H' where "H' = (\<lambda>x.
      if x = ?m then (?H ?m)\<lparr>hdr_size := k, hdr_next := new\<rparr>
      else if x = new then \<lparr>hdr_magic = heap_magic, hdr_previous = ?m, hdr_next = hdr_next (?H ?m),
        hdr_size = n - (k + 48), hdr_free = True\<rparr>
      else if x = hdr_next (?H ?m) \<and> x \<noteq> 0 \<and> HEAP_BASE mb \<le> x then (?H x)\<lparr>hdr_previous := new\<rparr>
      else ?H x)"
  have nx: "hdr_next (?H ?m) = link c ys 0" "hdr_size (?H ?m) = n" by (simp_all add: m)
  then have "hdr_next (?H ?m) \<noteq> ?m" "hdr_next (?H ?m) \<noteq> new"
    using ne m0 by (auto simp: link_def)
  from split_segment_eq [OF refl nx(2) k(1,2) new_def ne(1) this, of mb]
  have split: "split_segment mb k ?m s = s\<lparr>headers := H',
      heap_end := (if heap_end s = ?m then new else heap_end s)\<rparr>"
    unfolding H'_def .
  have mid: "segs H' (last_at 0 a xs) ?m [(k, f), (n - k - 48, True)] (link c ys 0)"
    using ne(1) m by (simp add: H'_def link_def new_def add.commute add.left_commute diff_diff_eq)
  have rest: "H' x = (if x = c then (?H x)\<lparr>hdr_previous := new\<rparr> else ?H x)" if "x \<in> set (addrs c ys)" for x
  proof -
    have "unat c \<le> unat x" by (rule ord(7) [OF that])
    then have "x \<noteq> ?m" "x \<noteq> new" using ord(5) new fits by auto
    moreover have "ys \<noteq> []" using that by auto
    ultimately show ?thesis using c0 nx by (simp add: H'_def link_def)
  qed
  have before: "H' x = ?H x" if "x \<in> set (addrs a xs)" for x
  proof -
    have "unat x + 48 \<le> unat ?m" by (rule ord(6) [OF that])
    then have "x \<noteq> ?m" "x \<noteq> new" "x \<noteq> c" using ord(5) new by auto
    then show ?thesis using nx by (auto simp: H'_def link_def)
  qed
  have "segs H' 0 a (xs @ [(k, f), (n - k - 48, True)] @ ys) 0"
  proof (rule segs_replace [where old = "[(n, f)]" and H = ?H])
    have c: "after a (xs @ [(n, f)]) = c" by (simp add: c_def)
    have last: "last_at 0 a (xs @ [(k, f), (n - k - 48, True)]) = new"
      by (simp add: new_def add.commute add.left_commute)
    show "segs ?H 0 a (xs @ [(n, f)] @ ys) 0" "room a (xs @ [(n, f)] @ ys)" using segs room by simp_all
    show "segs H' (last_at 0 a xs) ?m [(k, f), (n - k - 48, True)] (link (after a (xs @ [(n, f)])) ys 0)"
      unfolding c by (rule mid)
    show "H' x = (if x = after a (xs @ [(n, f)])
        then (?H x)\<lparr>hdr_previous := last_at 0 a (xs @ [(k, f), (n - k - 48, True)])\<rparr> else ?H x)"
      if "x \<in> set (addrs (after a (xs @ [(n, f)])) ys)" for x
      using that unfolding c last by (rule rest)
  qed (simp_all add: before)
  moreover have "new = ?m + 48 + k" by (simp add: new_def)
  ultimately show ?thesis using split by auto
qed

text \<open>What merging writes when the next header is sound.\<close>

lemma merge_forwards_eq:
  assumes "n = hdr_next (headers s m)" "hdr_magic (headers s n) = heap_magic" "n \<noteq> m"
    and "hdr_next (headers s n) \<noteq> m"
  shows "merge_forwards m s = s\<lparr>headers := (\<lambda>x.
      if x = m then (headers s m)\<lparr>hdr_size := hdr_size (headers s m) + (hdr_size (headers s n) + 48),
        hdr_next := hdr_next (headers s n)\<rparr>
      else if x = hdr_next (headers s n) \<and> x \<noteq> 0 then (headers s x)\<lparr>hdr_previous := m\<rparr>
      else headers s x),
    heap_end := (if heap_end s = n then m else heap_end s)\<rparr>"
proof -
  define s1 where "s1 = upd_header m (\<lambda>h. h\<lparr>hdr_size := hdr_size h + (hdr_size (headers s n) + 48)\<rparr>) s"
  define s2 where "s2 = (if heap_end s1 = n then s1\<lparr>heap_end := m\<rparr> else s1)"
  define s3 where "s3 = upd_header m (\<lambda>h. h\<lparr>hdr_next := hdr_next (headers s2 n)\<rparr>) s2"
  have n': "hdr_next (headers s3 m) = hdr_next (headers s n)"
    using assms(3) by (simp add: s3_def s2_def s1_def upd_header_def)
  have "merge_forwards m s = (if hdr_next (headers s n) \<noteq> 0
      then upd_header (hdr_next (headers s n)) (\<lambda>h. h\<lparr>hdr_previous := m\<rparr>) s3 else s3)"
    using assms(2) by (simp only: merge_forwards_def SIZEOF_heap_header_def Let_def
        assms(1) [symmetric] n' s1_def [symmetric] s2_def [symmetric] s3_def [symmetric]) simp
  moreover have "s3 = s\<lparr>headers := (headers s)(m := (headers s m)\<lparr>
        hdr_size := hdr_size (headers s m) + (hdr_size (headers s n) + 48),
        hdr_next := hdr_next (headers s n)\<rparr>),
      heap_end := (if heap_end s = n then m else heap_end s)\<rparr>"
    using assms(3) by (simp add: s3_def s2_def s1_def upd_header_def)
  ultimately show ?thesis using assms(4) by (auto simp: upd_header_def fun_eq_iff)
qed

lemma merge_backwards_forwards:
  assumes "hdr_previous (headers s n) = m" "hdr_next (headers s m) = n"
    and "hdr_magic (headers s m) = heap_magic" "hdr_magic (headers s n) = heap_magic"
  shows "merge_backwards n s = (m, merge_forwards m s)"
  using assms by (simp add: merge_backwards_def merge_forwards_def Let_def)

lemma merge_blocks:
  assumes segs: "segs (headers s) 0 a (xs @ (n, f) # (k, g) # ys) 0"
    and room: "room a (xs @ (n, f) # (k, g) # ys)" and base: "0 < a"
  shows "\<exists>H'. merge_forwards (after a xs) s = s\<lparr>headers := H',
      heap_end := (if heap_end s = after a xs + 48 + n then after a xs else heap_end s)\<rparr> \<and>
    segs H' 0 a (xs @ (n + 48 + k, f) # ys) 0"
proof -
  let ?m = "after a xs" and ?H = "headers s"
  define c where "c = ?m + 48 + n"
  define d where "d = c + 48 + k"
  note ord = block_order [OF room c_def]
  have room2: "room a ((xs @ [(n, f)]) @ (k, g) # ys)" using room by simp
  have c_after: "after a (xs @ [(n, f)]) = c" by (simp add: c_def)
  note ord2 = block_order [OF room2, unfolded c_after, OF d_def]
  have m: "?H ?m = \<lparr>hdr_magic = heap_magic, hdr_previous = last_at 0 a xs, hdr_next = c,
      hdr_size = n, hdr_free = f\<rparr>"
    using segs_head [OF segs] by (simp add: c_def link_def)
  have h: "?H c = \<lparr>hdr_magic = heap_magic, hdr_previous = ?m, hdr_next = link d ys 0,
      hdr_size = k, hdr_free = g\<rparr>"
    using segs_head [of ?H 0 a "xs @ [(n, f)]" k g ys 0] segs by (simp add: c_def d_def)
  have ne: "c \<noteq> ?m" "d \<noteq> c" "d \<noteq> ?m" "?m \<noteq> 0" "d \<noteq> 0"
    using ord(5) ord2(5) base unat_after [of a xs] room_append [OF room]
    by (auto simp: word_less_nat_alt)
  define H' where "H' = (\<lambda>x.
      if x = ?m then (?H ?m)\<lparr>hdr_size := hdr_size (?H ?m) + (hdr_size (?H c) + 48), hdr_next := hdr_next (?H c)\<rparr>
      else if x = hdr_next (?H c) \<and> x \<noteq> 0 then (?H x)\<lparr>hdr_previous := ?m\<rparr>
      else ?H x)"
  have "merge_forwards ?m s = s\<lparr>headers := H', heap_end := (if heap_end s = c then ?m else heap_end s)\<rparr>"
    unfolding H'_def using m h ne by (intro merge_forwards_eq) (simp_all add: link_def)
  moreover have "segs H' 0 a (xs @ [(n + 48 + k, f)] @ ys) 0"
  proof (rule segs_replace [where old = "[(n, f), (k, g)]" and H = ?H])
    show "segs ?H 0 a (xs @ [(n, f), (k, g)] @ ys) 0" "room a (xs @ [(n, f), (k, g)] @ ys)"
      using segs room by simp_all
    show "H' x = ?H x" if "x \<in> set (addrs a xs)" for x
    proof -
      have "unat x + 48 \<le> unat ?m" by (rule ord(6) [OF that])
      then have "x \<noteq> ?m" "x \<noteq> d" using ord(5) ord2(5) by auto
      then show ?thesis using h by (auto simp: H'_def link_def)
    qed
    show "segs H' (last_at 0 a xs) ?m [(n + 48 + k, f)] (link (after a (xs @ [(n, f), (k, g)])) ys 0)"
      using m h by (simp add: H'_def link_def d_def c_def add.commute add.left_commute)
    show "H' x = (if x = after a (xs @ [(n, f), (k, g)])
        then (?H x)\<lparr>hdr_previous := last_at 0 a (xs @ [(n + 48 + k, f)])\<rparr> else ?H x)"
      if x: "x \<in> set (addrs (after a (xs @ [(n, f), (k, g)])) ys)" for x
    proof -
      have d: "after a (xs @ [(n, f), (k, g)]) = d" by (simp add: c_def d_def)
      then have "unat d \<le> unat x" using ord2(7) [of x] x by simp
      then have "x \<noteq> ?m" using ord(5) ord2(5) by auto
      moreover have "ys \<noteq> []" using x by auto
      ultimately show ?thesis unfolding d using h ne by (simp add: H'_def link_def)
    qed
  qed (simp_all add: add.commute add.left_commute)
  ultimately show ?thesis by (auto simp: c_def)
qed

lemma mark_blocks:
  assumes "segs H p a (xs @ (n, f) # ys) nxt" "room a (xs @ (n, f) # ys)"
  shows "segs (H(after a xs := (H (after a xs))\<lparr>hdr_free := g\<rparr>)) p a (xs @ (n, g) # ys) nxt"
proof -
  note ord = block_order [OF assms(2) refl]
  show ?thesis using assms(1) ord(1-3) by (simp add: segs_append segs_other link_def)
qed

subsection \<open>The invariant\<close>

fun coalesced :: "block list \<Rightarrow> bool" where
  "coalesced ((n, f) # (k, g) # bs) \<longleftrightarrow> \<not> (f \<and> g) \<and> coalesced ((k, g) # bs)"
| "coalesced bs \<longleftrightarrow> True"

fun used_bytes :: "block list \<Rightarrow> u64" where
  "used_bytes [] = 0"
| "used_bytes ((n, f) # bs) = (if f then 0 else n) + used_bytes bs"

definition blocks_ok :: "block list \<Rightarrow> bool" where
  "blocks_ok bs \<longleftrightarrow> bs \<noteq> [] \<and> coalesced bs \<and> (\<forall>(n, f) \<in> set bs. 16 dvd unat n)"

text \<open>
  A sound heap: its headers are those of the blocks \<open>bs\<close>, which fill it from
  \<^verbatim>\<open>heap_start\<close> to \<^verbatim>\<open>LastHeapAddress\<close> without gap or overlap; no two free blocks are
  neighbours; the counters agree.
\<close>

definition heap_shape :: "u64 \<Rightarrow> heap_state \<Rightarrow> block list \<Rightarrow> bool" where
  "heap_shape mb s bs \<longleftrightarrow> segs (headers s) 0 (heap_start s) bs 0 \<and> room (heap_start s) bs \<and>
     heap_end s = last_at 0 (heap_start s) bs \<and> LastHeapAddress s = after (heap_start s) bs \<and>
     HEAP_BASE mb \<le> heap_start s \<and> 0 < heap_start s \<and> 16 dvd unat (heap_start s) \<and>
     heap_size s = of_nat (blen bs)"

definition heap_ok :: "u64 \<Rightarrow> heap_state \<Rightarrow> block list \<Rightarrow> bool" where
  "heap_ok mb s bs \<longleftrightarrow> heap_shape mb s bs \<and> blocks_ok bs \<and> heap_used s = used_bytes bs"

lemma coalesced_head: "coalesced ((n, f) # ys) \<longleftrightarrow>
    coalesced ys \<and> (ys \<noteq> [] \<longrightarrow> \<not> (f \<and> snd (hd ys)))"
  by (cases ys) auto

lemma coalesced_append: "coalesced (xs @ (n, f) # ys) \<longleftrightarrow>
    coalesced (xs @ [(n, f)]) \<and> coalesced ((n, f) # ys)"
proof (induction xs)
  case (Cons x xs)
  obtain k g where "x = (k, g)" by force
  then show ?case using Cons by (cases xs) (auto simp: coalesced_head)
qed simp

lemma coalesced_snoc: "coalesced (xs @ [(n, f)]) \<longleftrightarrow>
    coalesced xs \<and> (xs \<noteq> [] \<longrightarrow> \<not> (f \<and> snd (last xs)))"
proof (induction xs)
  case (Cons x xs)
  obtain k g where "x = (k, g)" by force
  then show ?case using Cons by (cases xs) (auto simp: coalesced_head)
qed simp

text \<open>The form that rewrites: a block and its two neighbours.\<close>

lemma coalesced_mid: "coalesced (xs @ (n, f) # ys) \<longleftrightarrow>
    coalesced xs \<and> (xs \<noteq> [] \<longrightarrow> \<not> (f \<and> snd (last xs))) \<and>
    coalesced ys \<and> (ys \<noteq> [] \<longrightarrow> \<not> (f \<and> snd (hd ys)))"
  unfolding coalesced_append [of xs n f ys] coalesced_snoc coalesced_head by blast

lemma used_append: "used_bytes (xs @ ys) = used_bytes xs + used_bytes ys"
  by (induction xs) auto

subsection \<open>Finding a segment\<close>

definition fits :: "u64 \<Rightarrow> block \<Rightarrow> bool" where
  "fits sz b \<longleftrightarrow> snd b \<and> sz \<le> fst b"

lemma shape_step:
  assumes "heap_shape mb s (xs @ (n, f) # ys)"
  defines "m \<equiv> after (heap_start s) xs"
  shows "headers s m = \<lparr>hdr_magic = heap_magic, hdr_previous = last_at 0 (heap_start s) xs,
      hdr_next = link (m + 48 + n) ys 0, hdr_size = n, hdr_free = f\<rparr>"
    and "m \<noteq> 0" and "\<not> (link (m + 48 + n) ys 0 < HEAP_BASE mb \<and> link (m + 48 + n) ys 0 \<noteq> 0)"
    and "unat m + 48 + unat n < 18446744073709551616"
proof -
  have segs: "segs (headers s) 0 (heap_start s) (xs @ (n, f) # ys) 0"
    and room: "room (heap_start s) (xs @ (n, f) # ys)"
    and base: "HEAP_BASE mb \<le> heap_start s" "0 < heap_start s"
    using assms(1) by (simp_all add: heap_shape_def)
  note ord = block_order [OF room refl] and after = unat_after [of "heap_start s" xs]
  show "headers s m = \<lparr>hdr_magic = heap_magic, hdr_previous = last_at 0 (heap_start s) xs,
      hdr_next = link (m + 48 + n) ys 0, hdr_size = n, hdr_free = f\<rparr>"
    using segs_head [OF segs] by (simp add: m_def)
  show "m \<noteq> 0" using after room_append [OF room] base by (auto simp: m_def word_less_nat_alt)
  show "\<not> (link (m + 48 + n) ys 0 < HEAP_BASE mb \<and> link (m + 48 + n) ys 0 \<noteq> 0)"
    using ord(4) base by (auto simp: link_def m_def word_le_nat_alt word_less_nat_alt)
  show "unat m + 48 + unat n < 18446744073709551616"
    using ord(5) unat_lt64 [of "after (heap_start s) xs + 48 + n"] by (simp only: m_def)
qed

lemma find_loop_step:
  assumes "heap_shape mb s (xs @ (n, f) # ys)" and m: "m = after (heap_start s) xs"
  shows "find_loop mb sz m s = (if fits sz (n, f)
    then Some (m, if sz + 48 < n then split_segment mb sz m s else s)
    else find_loop mb sz (link (m + 48 + n) ys 0) s)"
  using shape_step(2,3) [OF assms(1)] shape_step(1) [OF assms(1)]
  by (subst find_loop.simps) (auto simp: m fits_def SIZEOF_heap_header_def Let_def)

lemma find_loop_none:
  "heap_shape mb s (xs @ ys) \<Longrightarrow> \<forall>b \<in> set ys. \<not> fits sz b \<Longrightarrow>
     find_loop mb sz (link (after (heap_start s) xs) ys 0) s = Some (0, s)"
proof (induction ys arbitrary: xs)
  case Nil
  then show ?case by (simp add: find_loop.simps link_def)
next
  case (Cons b ys)
  obtain n f where b: "b = (n, f)" by force
  have "heap_shape mb s ((xs @ [b]) @ ys)" using Cons.prems(1) by simp
  from Cons.IH [OF this] show ?case
    using Cons.prems find_loop_step [of mb s xs n f ys "after (heap_start s) xs" sz] by (simp add: b link_def)
qed

lemma find_loop_some:
  "heap_shape mb s (xs @ us @ (n, f) # vs) \<Longrightarrow> \<forall>b \<in> set us. \<not> fits sz b \<Longrightarrow> fits sz (n, f) \<Longrightarrow>
     m = after (heap_start s) (xs @ us) \<Longrightarrow>
     find_loop mb sz (after (heap_start s) xs) s =
       Some (m, if sz + 48 < n then split_segment mb sz m s else s)"
proof (induction us arbitrary: xs)
  case Nil
  then show ?case using find_loop_step [of mb s xs n f vs m sz] by simp
next
  case (Cons b us)
  obtain k g where b: "b = (k, g)" by force
  have "heap_shape mb s ((xs @ [b]) @ us @ (n, f) # vs)" using Cons.prems(1) by simp
  from Cons.IH [OF this] show ?case
    using Cons.prems find_loop_step [of mb s xs k g "us @ (n, f) # vs" "after (heap_start s) xs" sz]
    by (simp add: b link_def)
qed

text \<open>What the page tables and the heap's window depend on.\<close>

definition same_window :: "heap_state \<Rightarrow> heap_state \<Rightarrow> bool" where
  "same_window s s' \<longleftrightarrow> heap_start s' = heap_start s \<and> LastHeapAddress s' = LastHeapAddress s \<and>
     heap_vm s' = heap_vm s \<and> cleared_pages s' = cleared_pages s"

lemma same_window_split [simp]: "same_window s (split_segment mb sz m s)"
  by (simp add: same_window_def split_segment_def upd_header_def Let_def)

lemma same_window_simps:
  "same_window s0 (upd_header a h s) = same_window s0 s"
  "same_window s0 (s\<lparr>heap_end := e\<rparr>) = same_window s0 s"
  "same_window s0 (s\<lparr>heap_used := u\<rparr>) = same_window s0 s"
  by (simp_all add: same_window_def upd_header_def)

lemma same_window_merge:
  "same_window s0 (merge_forwards m s) = same_window s0 s"
  "same_window s0 (snd (merge_backwards m s)) = same_window s0 s"
  by (simp_all only: merge_forwards_def merge_backwards_def Let_def same_window_simps snd_conv
      if_distrib [of snd] if_distrib [of "same_window s0"] if_cancel)

lemma same_window_free [simp]: "same_window s (free mb p s)"
proof -
  have "same_window s s" by (simp add: same_window_def)
  then show ?thesis unfolding free_def Let_def
    by (simp add: same_window_simps same_window_merge)
qed

subsection \<open>Allocation from a free block\<close>

lemma last_at_default: "bs \<noteq> [] \<Longrightarrow> last_at p a bs = last_at q a bs"
  by (cases bs) auto

lemma after_blen: "room a bs \<Longrightarrow> blen bs = blen cs \<Longrightarrow> after a cs = after a bs"
  using unat_after [of a bs] unat_after [of a cs] by (simp add: room_def word_unat_eq_iff)

text \<open>Replacing blocks keeps the shape, if the last header is tracked.\<close>

lemma shape_replace:
  assumes "heap_shape mb s (us @ old @ vs)" "segs H' 0 (heap_start s) (us @ new @ vs) 0"
    and "blen new = blen old" "new \<noteq> []"
    and "e = (if vs = [] then last_at 0 (heap_start s) (us @ new) else heap_end s)"
    and "s' = s\<lparr>headers := H', heap_end := e, heap_used := u, heap_vm := v\<rparr>"
  shows "heap_shape mb s' (us @ new @ vs)"
proof -
  have room: "room (heap_start s) (us @ old @ vs)" using assms(1) by (simp add: heap_shape_def)
  then have r: "room (after (heap_start s) us) old"
    using room_append [of "heap_start s" us "old @ vs"] room_append [of _ old vs] by simp
  have mid: "after (after (heap_start s) us) new = after (after (heap_start s) us) old"
    by (rule after_blen [OF r assms(3) [symmetric]])
  have "heap_end s = last_at (last_at 0 (heap_start s) (us @ old)) (after (heap_start s) (us @ old)) vs"
    using assms(1) by (simp add: heap_shape_def)
  then have "e = last_at 0 (heap_start s) (us @ new @ vs)"
    using assms(4,5) mid last_at_default [of vs "last_at 0 (heap_start s) (us @ old)"
        "after (after (heap_start s) us) old" "last_at 0 (heap_start s) (us @ new)"] by auto
  then show ?thesis using assms(1,2,3,6) room mid by (simp add: heap_shape_def room_def)
qed

lemma last_is_end:
  assumes "heap_shape mb s (us @ (n, f) # vs)"
  shows "heap_end s = after (heap_start s) us \<longleftrightarrow> vs = []"
proof
  assume e: "heap_end s = after (heap_start s) us"
  show "vs = []"
  proof (rule ccontr)
    assume "vs \<noteq> []"
    then have "heap_end s \<in> set (addrs (after (heap_start s) us + 48 + n) vs)"
      using assms last_at_addrs by (simp add: heap_shape_def)
    then show False using e block_order(3) [of "heap_start s" us n f vs] assms by (simp add: heap_shape_def)
  qed
qed (use assms in \<open>simp add: heap_shape_def\<close>)

definition taken :: "u64 \<Rightarrow> u64 \<Rightarrow> block list" where
  "taken sz n = (if sz + 48 < n then [(sz, False), (n - sz - 48, True)] else [(n, False)])"

lemma no_wrap_48: "unat n + 48 < 18446744073709551616 \<Longrightarrow> sz \<le> n \<Longrightarrow>
    sz + 48 < (n :: u64) \<longleftrightarrow> unat sz + 48 < unat n"
  by (simp add: word_less_nat_alt word_le_nat_alt unat_add64)

lemma unat_rest: "unat sz + 48 < unat n \<Longrightarrow> unat (n - sz - 48 :: u64) = unat n - unat sz - 48"
  by (simp add: unat_sub64 word_le_nat_alt)

lemma blen_taken:
  assumes "unat n + 48 < 18446744073709551616" "sz \<le> n"
  shows "blen (taken sz n) = 48 + unat n"
proof (cases "unat sz + 48 < unat n")
  case True
  then show ?thesis using unat_rest [OF True] by (simp add: taken_def no_wrap_48 [OF assms])
next
  case False
  then show ?thesis by (simp add: taken_def no_wrap_48 [OF assms])
qed

lemma blocks_ok_taken:
  assumes "blocks_ok (us @ (n, True) # vs)" "16 dvd unat sz" "sz \<le> n"
    and "unat n + 48 < 18446744073709551616"
  shows "blocks_ok (us @ taken sz n @ vs)"
proof (cases "unat sz + 48 < unat n")
  case True
  have "16 dvd unat n" using assms(1) by (auto simp: blocks_ok_def)
  moreover have "(16 :: nat) dvd 48" by presburger
  ultimately have "16 dvd unat n - unat sz - 48" using assms(2) by (intro dvd_diff_nat)
  then have "16 dvd unat (n - sz - 48)" using unat_rest [OF True] by simp
  then show ?thesis using True assms(1,2)
    by (auto simp: taken_def no_wrap_48 [OF assms(4,3)] blocks_ok_def coalesced_mid coalesced_head)
next
  case False
  then show ?thesis using assms(1)
    by (auto simp: taken_def no_wrap_48 [OF assms(4,3)] blocks_ok_def coalesced_mid coalesced_head)
qed

lemma take_segment_eq: "m \<noteq> 0 \<Longrightarrow> take_segment m s =
    (m + 48, s\<lparr>headers := (headers s)(m := (headers s m)\<lparr>hdr_free := False\<rparr>),
       heap_used := heap_used s + hdr_size (headers s m)\<rparr>)"
  by (simp add: take_segment_def upd_header_def SIZEOF_heap_header_def Let_def)

lemma take_found:
  assumes ok: "heap_ok mb s (us @ (n, True) # vs)" and sz: "sz \<le> n" "16 dvd unat sz"
    and m: "m = after (heap_start s) us"
    and s1: "s1 = (if sz + 48 < n then split_segment mb sz m s else s)"
  shows "\<exists>s'. take_segment m s1 = (m + 48, s') \<and> heap_ok mb s' (us @ taken sz n @ vs) \<and>
    same_window s s'"
proof -
  have shape: "heap_shape mb s (us @ (n, True) # vs)" and used: "heap_used s = used_bytes (us @ (n, True) # vs)"
    and blocks: "blocks_ok (us @ (n, True) # vs)" using ok by (simp_all add: heap_ok_def)
  note step = shape_step [OF shape, folded m]
  have segs: "segs (headers s) 0 (heap_start s) (us @ (n, True) # vs) 0"
    and room: "room (heap_start s) (us @ (n, True) # vs)"
    and base: "HEAP_BASE mb \<le> heap_start s" "0 < heap_start s"
    using shape by (simp_all add: heap_shape_def)
  have n48: "unat n + 48 < 18446744073709551616" using step(4) by simp
  define k where "k = (if sz + 48 < n then sz else n)"
  define rest where "rest = (if sz + 48 < n then [(n - sz - 48, True)] else [])"
  have taken: "taken sz n = (k, False) # rest" by (simp add: taken_def k_def rest_def)
  have "\<exists>H1. s1 = s\<lparr>headers := H1, heap_end := (if vs = [] then last_at 0 (heap_start s) (us @ (k, True) # rest)
        else heap_end s)\<rparr> \<and> segs H1 0 (heap_start s) (us @ (k, True) # rest @ vs) 0"
  proof (cases "sz + 48 < n")
    case True
    then have "unat sz + 48 < unat n" using no_wrap_48 [OF n48 sz(1)] by simp
    from split_blocks [OF segs room base this] show ?thesis
      using True last_is_end [OF shape] by (auto simp: s1 m k_def rest_def)
  next
    case False
    have "s1 = s\<lparr>headers := headers s, heap_end := heap_end s\<rparr>" using False by (simp add: s1)
    then show ?thesis using False segs last_is_end [OF shape] by (auto simp: k_def rest_def intro!: exI [of _ "headers s"])
  qed
  then obtain H1 where H1: "s1 = s\<lparr>headers := H1, heap_end := (if vs = []
        then last_at 0 (heap_start s) (us @ (k, True) # rest) else heap_end s)\<rparr>"
      "segs H1 0 (heap_start s) (us @ (k, True) # rest @ vs) 0" by blast
  have len: "blen (taken sz n) = 48 + unat n" by (rule blen_taken [OF n48 sz(1)])
  then have "room (heap_start s) (us @ (k, True) # rest @ vs)" using room by (simp add: taken room_def)
  note marked = mark_blocks [OF H1(2) this, of False]
  have size: "hdr_size (H1 m) = k" using segs_head [OF H1(2)] by (simp add: m)
  define s' where "s' = s\<lparr>headers := H1(m := (H1 m)\<lparr>hdr_free := False\<rparr>), heap_end := heap_end s1,
      heap_used := heap_used s + k, heap_vm := heap_vm s\<rparr>"
  have "take_segment m s1 = (m + 48, s')"
  proof -
    have "headers s1 = H1" "heap_used s1 = heap_used s" "heap_vm s1 = heap_vm s"
        "s1 = s\<lparr>headers := H1, heap_end := heap_end s1\<rparr>"
      by (simp_all add: H1(1))
    then show ?thesis unfolding take_segment_eq [OF step(2)] s'_def using size
      by (cases s; cases s1) simp
  qed
  moreover have "heap_shape mb s' (us @ taken sz n @ vs)"
  proof (rule shape_replace [where old = "[(n, True)]" and s = s])
    show "heap_shape mb s (us @ [(n, True)] @ vs)" using shape by simp
    show "segs (H1(m := (H1 m)\<lparr>hdr_free := False\<rparr>)) 0 (heap_start s) (us @ taken sz n @ vs) 0"
      using marked unfolding taken m by simp
    show "blen (taken sz n) = blen [(n, True)]" using len by simp
    show "taken sz n \<noteq> []" by (simp add: taken)
    show "heap_end s1 = (if vs = [] then last_at 0 (heap_start s) (us @ taken sz n) else heap_end s)"
      by (simp add: H1(1) taken)
    show "s' = s\<lparr>headers := H1(m := (H1 m)\<lparr>hdr_free := False\<rparr>), heap_end := heap_end s1,
        heap_used := heap_used s + k, heap_vm := heap_vm s\<rparr>" by (rule s'_def)
  qed
  moreover have "heap_used s' = used_bytes (us @ taken sz n @ vs)"
    by (simp add: s'_def used used_append taken rest_def)
  ultimately show ?thesis
    using blocks_ok_taken [OF blocks sz(2,1) n48] by (simp add: heap_ok_def s'_def same_window_def)
qed

subsection \<open>Rounding\<close>

lemma unat_round16_raw: "unat (round16 x) = unat (x + 15) - unat (x + 15) mod 16"
proof -
  let ?y = "x + 15"
  have "(?y AND 0xF) + (?y AND NOT 0xF) = ?y" by (rule and_plus_and_not)
  then have "?y AND NOT 0xF = ?y - (?y AND 0xF)" by (simp add: algebra_simps)
  moreover have "unat (?y AND 0xF) = unat ?y mod 16"
  proof -
    have "(0xF :: u64) = mask 4" by (simp add: mask_eq_exp_minus_1)
    then show ?thesis by (simp only: unat_and_mask) simp
  qed
  ultimately show ?thesis unfolding round16_def by (simp add: unat_sub64 word_le_nat_alt)
qed

lemma round16_dvd: "16 dvd unat (round16 x)"
  unfolding unat_round16_raw by (rule dvd_minus_mod)

lemma unat_round16:
  assumes "unat x + 15 < 18446744073709551616"
  shows "unat (round16 x) = 16 * ((unat x + 15) div 16)"
  unfolding unat_round16_raw using assms by (simp add: unat_add64 minus_mod_eq_mult_div)

text \<open>A request within 15 bytes of the address space's size is rounded to nothing.\<close>

lemma round16_huge:
  assumes "18446744073709551616 \<le> unat x + 15"
  shows "round16 x = 0"
proof -
  have "unat (x + 15) = unat x + 15 - 18446744073709551616" using assms by (simp add: unat_plus64)
  moreover have "unat x + 15 - 18446744073709551616 < 16" using unat_lt64 [of x] by linarith
  ultimately have "unat (round16 x) = 0" by (simp add: unat_round16_raw)
  then show ?thesis by (simp add: unat_eq_zero)
qed

lemma round16_bounds:
  assumes "unat x + 15 < 18446744073709551616"
  shows "x \<le> round16 x" "16 dvd unat (round16 x)" "unat (round16 x) \<le> unat x + 15"
  using unat_round16 [OF assms] by (simp_all add: word_le_nat_alt)

subsection \<open>\<^verbatim>\<open>malloc\<close> on the blocks\<close>

lemma malloc_found:
  assumes ok: "heap_ok mb s (us @ (n, True) # vs)" and us: "\<forall>b \<in> set us. \<not> fits (round16 sz0) b"
    and n: "round16 sz0 \<le> n" and sz0: "sz0 \<noteq> 0"
  shows "\<exists>s'. malloc mb sz0 s = Some (after (heap_start s) us + 48, s') \<and>
    heap_ok mb s' (us @ taken (round16 sz0) n @ vs) \<and> same_window s s'"
proof -
  let ?m = "after (heap_start s) us" and ?sz = "round16 sz0"
  have shape: "heap_shape mb s ([] @ us @ (n, True) # vs)" using ok by (simp add: heap_ok_def)
  then have shape': "heap_shape mb s (us @ (n, True) # vs)" by simp
  define s1 where "s1 = (if ?sz + 48 < n then split_segment mb ?sz ?m s else s)"
  have find: "find_free_segment mb ?sz s = Some (?m, s1)"
    unfolding find_free_segment_def s1_def
    using find_loop_some [OF shape us] n by (simp add: fits_def)
  from take_found [OF ok n round16_dvd refl s1_def] obtain s' where
    "take_segment ?m s1 = (?m + 48, s')" "heap_ok mb s' (us @ taken ?sz n @ vs)"
    "same_window s s'" by blast
  then show ?thesis using sz0 find shape_step(2) [OF shape'] by (simp add: malloc_def Let_def)
qed

subsection \<open>\<^verbatim>\<open>free\<close> on the blocks\<close>

text \<open>The block joins free neighbours on either side.\<close>

definition join_right :: "u64 \<Rightarrow> block list \<Rightarrow> u64 \<times> block list" where
  "join_right n ys = (case ys of (k, True) # ys' \<Rightarrow> (n + 48 + k, ys') | _ \<Rightarrow> (n, ys))"

definition join_left :: "block list \<Rightarrow> u64 \<Rightarrow> block list \<times> u64" where
  "join_left xs n = (if xs \<noteq> [] \<and> snd (last xs) then (butlast xs, fst (last xs) + 48 + n) else (xs, n))"

definition freed :: "block list \<Rightarrow> u64 \<Rightarrow> block list \<Rightarrow> block list" where
  "freed xs n ys = (let (n1, ys1) = join_right n ys; (xs1, n2) = join_left xs n1 in xs1 @ (n2, True) # ys1)"

lemma merge_shape:
  assumes shape: "heap_shape mb s (xs @ (n, f) # (k, g) # ys)" and m: "m = after (heap_start s) xs"
  shows "heap_shape mb (merge_forwards m s) (xs @ (n + 48 + k, f) # ys) \<and>
    (\<exists>H' e. merge_forwards m s = s\<lparr>headers := H', heap_end := e\<rparr>) \<and>
    unat (n + 48 + k) = unat n + 48 + unat k"
proof -
  have segs: "segs (headers s) 0 (heap_start s) (xs @ (n, f) # (k, g) # ys) 0"
    and room: "room (heap_start s) (xs @ (n, f) # (k, g) # ys)"
    and base: "HEAP_BASE mb \<le> heap_start s" "0 < heap_start s"
    using shape by (simp_all add: heap_shape_def)
  have size: "unat (n + 48 + k) = unat n + 48 + unat k"
  proof -
    have "unat n + 48 + unat k < 18446744073709551616" using room by (simp add: room_def)
    then show ?thesis by (simp add: unat_add64)
  qed
  obtain H' where H': "merge_forwards m s = s\<lparr>headers := H',
      heap_end := (if heap_end s = m + 48 + n then m else heap_end s)\<rparr>"
      "segs H' 0 (heap_start s) (xs @ (n + 48 + k, f) # ys) 0"
    using merge_blocks [OF segs room base(2)] unfolding m by blast
  have "heap_end s = m + 48 + n \<longleftrightarrow> ys = []"
    using last_is_end [of mb s "xs @ [(n, f)]" k g ys] shape m by simp
  have "heap_shape mb (merge_forwards m s) (xs @ [(n + 48 + k, f)] @ ys)"
  proof (rule shape_replace [where old = "[(n, f), (k, g)]" and s = s])
    show "heap_shape mb s (xs @ [(n, f), (k, g)] @ ys)" using shape by simp
    show "segs H' 0 (heap_start s) (xs @ [(n + 48 + k, f)] @ ys) 0" using H'(2) by simp
    show "blen [(n + 48 + k, f)] = blen [(n, f), (k, g)]" using size by simp
    show "(if ys = [] then m else heap_end s) =
        (if ys = [] then last_at 0 (heap_start s) (xs @ [(n + 48 + k, f)]) else heap_end s)"
      by (simp add: m)
    show "merge_forwards m s = s\<lparr>headers := H', heap_end := (if ys = [] then m else heap_end s),
        heap_used := heap_used s, heap_vm := heap_vm s\<rparr>"
      unfolding H'(1) using \<open>_ \<longleftrightarrow> ys = []\<close> by simp
  qed simp
  moreover have "\<exists>H' e. merge_forwards m s = s\<lparr>headers := H', heap_end := e\<rparr>" using H'(1) by blast
  ultimately show ?thesis using size by simp
qed

lemma freed_shape_right:
  assumes shape: "heap_shape mb s (xs @ (n, True) # ys)" and m: "m = after (heap_start s) xs"
    and s': "s' = (if hdr_next (headers s m) \<noteq> 0 \<and> hdr_free (headers s (hdr_next (headers s m)))
      then merge_forwards m s else s)"
    and j: "join_right n ys = (n1, ys1)"
  shows "heap_shape mb s' (xs @ (n1, True) # ys1) \<and> (\<exists>H' e. s' = s\<lparr>headers := H', heap_end := e\<rparr>)"
proof (cases ys)
  case Nil
  then show ?thesis using shape j s' shape_step(1) [OF shape]
    by (auto simp: m join_right_def link_def intro!: exI [of _ "headers s"] exI [of _ "heap_end s"])
next
  case (Cons b zs)
  obtain k g where b: "b = (k, g)" by force
  have shape2: "heap_shape mb s ((xs @ [(n, True)]) @ (k, g) # zs)" using shape by (simp add: Cons b)
  have "hdr_next (headers s m) = m + 48 + n" "hdr_free (headers s (m + 48 + n)) = g" "m + 48 + n \<noteq> 0"
    using shape_step(1) [OF shape] shape_step(1,2) [OF shape2] by (simp_all add: m link_def Cons)
  then show ?thesis using merge_shape [of mb s xs n True k g zs m] shape j s' m
    by (cases g) (auto simp: Cons b join_right_def intro!: exI [of _ "headers s"] exI [of _ "heap_end s"])
qed

definition even16 :: "block list \<Rightarrow> bool" where
  "even16 bs \<longleftrightarrow> (\<forall>(n, f) \<in> set bs. 16 dvd unat n)"

lemma even16_simps [simp]: "even16 []" "even16 ((n, f) # bs) \<longleftrightarrow> 16 dvd unat n \<and> even16 bs"
  "even16 (xs @ ys) \<longleftrightarrow> even16 xs \<and> even16 ys"
  by (auto simp: even16_def)

lemma blocks_ok_iff: "blocks_ok bs \<longleftrightarrow> bs \<noteq> [] \<and> coalesced bs \<and> even16 bs"
  by (simp add: blocks_ok_def even16_def)

lemma merge_even16:
  assumes "heap_shape mb s (xs @ (n, f) # (k, g) # ys)" "even16 (xs @ (n, f) # (k, g) # ys)"
  shows "even16 (xs @ (n + 48 + k, h) # ys)"
proof -
  have "unat (n + 48 + k) = unat n + 48 + unat k" using merge_shape [OF assms(1) refl] by simp
  moreover have "(16 :: nat) dvd 48" by presburger
  ultimately show ?thesis using assms(2) by simp
qed

lemma freed_even16_right:
  assumes "heap_shape mb s (xs @ (n, f) # ys)" "even16 (xs @ (n, f) # ys)" "join_right n ys = (n1, ys1)"
  shows "even16 (xs @ (n1, h) # ys1)"
proof (cases "\<exists>k zs. ys = (k, True) # zs")
  case True
  then show ?thesis using merge_even16 assms by (auto simp: join_right_def)
next
  case False
  then have "join_right n ys = (n, ys)" by (auto simp: join_right_def split: list.split prod.split bool.split)
  then show ?thesis using assms by simp
qed

lemma coalesced_freed:
  assumes "coalesced (xs @ (n, False) # ys)"
  shows "coalesced (freed xs n ys)"
proof -
  obtain n1 ys1 where j: "join_right n ys = (n1, ys1)" by force
  have ys1: "coalesced ys1 \<and> (ys1 \<noteq> [] \<longrightarrow> \<not> snd (hd ys1))"
    using assms j by (cases ys) (auto simp: join_right_def coalesced_mid coalesced_head split: prod.splits bool.splits)
  show ?thesis
  proof (cases "xs \<noteq> [] \<and> snd (last xs)")
    case True
    then obtain xs' k where xs: "xs = xs' @ [(k, True)]" by (metis append_butlast_last_id prod.collapse)
    then show ?thesis using assms ys1 j by (simp add: freed_def join_left_def coalesced_mid coalesced_snoc)
  next
    case False
    then show ?thesis using assms ys1 j by (auto simp: freed_def join_left_def coalesced_mid)
  qed
qed

lemma used_freed: "used_bytes (freed xs n ys) = used_bytes xs + used_bytes ys"
proof -
  obtain n1 ys1 where j: "join_right n ys = (n1, ys1)" by force
  have ys1: "used_bytes ys1 = used_bytes ys"
    using j by (cases ys) (auto simp: join_right_def split: prod.splits bool.splits)
  show ?thesis
  proof (cases "xs \<noteq> [] \<and> snd (last xs)")
    case True
    then obtain xs' k where xs: "xs = xs' @ [(k, True)]" by (metis append_butlast_last_id prod.collapse)
    then show ?thesis using ys1 j by (simp add: freed_def join_left_def used_append)
  next
    case False
    then show ?thesis using ys1 j by (auto simp: freed_def join_left_def used_append)
  qed
qed

text \<open>The left neighbour.\<close>

lemma freed_shape_left:
  assumes shape: "heap_shape mb s (xs @ (n, True) # ys)" and m: "m = after (heap_start s) xs"
    and p: "p = hdr_previous (headers s m)"
    and s': "s' = (if p \<noteq> 0 \<and> p \<ge> HEAP_BASE mb \<and> hdr_free (headers s p)
      then snd (merge_backwards m s) else s)"
    and j: "join_left xs n = (xs1, n1)" and even: "even16 (xs @ (n, True) # ys)"
  shows "heap_shape mb s' (xs1 @ (n1, True) # ys) \<and> even16 (xs1 @ (n1, True) # ys) \<and>
    (\<exists>H' e. s' = s\<lparr>headers := H', heap_end := e\<rparr>)"
proof (cases "xs = []")
  case True
  then show ?thesis using shape j s' even shape_step(1) [OF shape]
    by (auto simp: m p join_left_def intro!: exI [of _ "headers s"] exI [of _ "heap_end s"])
next
  case False
  then obtain zs k g where xs: "xs = zs @ [(k, g)]" by (metis append_butlast_last_id prod.collapse)
  have shape2: "heap_shape mb s (zs @ (k, g) # (n, True) # ys)" using shape by (simp add: xs)
  note here = shape_step(1) [OF shape, folded m] and left = shape_step(1,2) [OF shape2]
  have p': "p = after (heap_start s) zs" using here by (simp add: p xs)
  have mp: "m = p + 48 + k" by (simp add: m p' xs)
  have base: "p \<ge> HEAP_BASE mb"
  proof -
    have "room (heap_start s) zs" "HEAP_BASE mb \<le> heap_start s"
      using shape2 room_append by (auto simp: heap_shape_def)
    then show ?thesis using unat_after [of "heap_start s" zs] p' by (simp add: word_le_nat_alt)
  qed
  have bwd: "merge_backwards m s = (p, merge_forwards p s)"
    using here left by (intro merge_backwards_forwards) (simp_all add: p' mp xs link_def)
  have free: "hdr_free (headers s p) = g" "p \<noteq> 0" using left by (simp_all add: p')
  show ?thesis
  proof (cases g)
    case True
    then have s1: "s' = merge_forwards p s" using s' free base bwd by simp
    have "xs1 = zs" "n1 = k + 48 + n" using j True by (auto simp: join_left_def xs)
    moreover have "even16 (zs @ (k, g) # (n, True) # ys)" using even by (simp add: xs)
    ultimately show ?thesis
      using merge_shape [OF shape2 p'] merge_even16 [OF shape2] True s1 by simp
  next
    case False
    then have "s' = s" "xs1 = xs" "n1 = n" using s' free j by (auto simp: join_left_def xs)
    then show ?thesis using shape even by (auto intro!: exI [of _ "headers s"] exI [of _ "heap_end s"])
  qed
qed

lemma free_blocks:
  assumes ok: "heap_ok mb s (xs @ (n, False) # ys)"
  defines "m \<equiv> after (heap_start s) xs"
  shows "heap_ok mb (free mb (m + 48) s) (freed xs n ys) \<and>
    heap_start (free mb (m + 48) s) = heap_start s \<and> heap_vm (free mb (m + 48) s) = heap_vm s"
proof -
  have shape: "heap_shape mb s (xs @ (n, False) # ys)" and used: "heap_used s = used_bytes (xs @ (n, False) # ys)"
    and blocks: "blocks_ok (xs @ (n, False) # ys)" using ok by (simp_all add: heap_ok_def)
  note step = shape_step [OF shape, folded m_def]
  have "unat (m + 48) = unat m + 48" using step(4) by (simp add: unat_add64)
  then have p: "m + 48 \<noteq> 0" by auto
  define s2 where "s2 = s\<lparr>headers := (headers s)(m := (headers s m)\<lparr>hdr_free := True\<rparr>), heap_end := heap_end s,
      heap_used := heap_used s - n, heap_vm := heap_vm s\<rparr>"
  have s2: "heap_shape mb s2 (xs @ (n, True) # ys)"
  proof -
    have "heap_shape mb s2 (xs @ [(n, True)] @ ys)"
    proof (rule shape_replace [where old = "[(n, False)]" and s = s])
      show "segs ((headers s)(m := (headers s m)\<lparr>hdr_free := True\<rparr>)) 0 (heap_start s) (xs @ [(n, True)] @ ys) 0"
        using mark_blocks [of "headers s" 0 "heap_start s" xs n False ys 0 True] shape
        unfolding m_def by (simp add: heap_shape_def)
      show "heap_end s = (if ys = [] then last_at 0 (heap_start s) (xs @ [(n, True)]) else heap_end s)"
        using shape by (simp add: heap_shape_def)
      show "s2 = s\<lparr>headers := (headers s)(m := (headers s m)\<lparr>hdr_free := True\<rparr>), heap_end := heap_end s,
          heap_used := heap_used s - n, heap_vm := heap_vm s\<rparr>" by (rule s2_def)
    qed (use shape in simp_all)
    then show ?thesis by simp
  qed
  have start2: "heap_start s2 = heap_start s" by (simp add: s2_def)
  define s3 where "s3 = (if hdr_next (headers s2 m) \<noteq> 0 \<and> hdr_free (headers s2 (hdr_next (headers s2 m)))
      then merge_forwards m s2 else s2)"
  obtain n1 ys1 where j1: "join_right n ys = (n1, ys1)" by force
  have s3: "heap_shape mb s3 (xs @ (n1, True) # ys1)" "\<exists>H' e. s3 = s2\<lparr>headers := H', heap_end := e\<rparr>"
    using freed_shape_right [OF s2 _ s3_def j1] by (simp_all add: m_def start2)
  have even1: "even16 (xs @ (n1, True) # ys1)"
    using freed_even16_right [OF shape _ j1] blocks by (simp add: blocks_ok_iff)
  define q where "q = hdr_previous (headers s3 m)"
  define s4 where "s4 = (if q \<noteq> 0 \<and> q \<ge> HEAP_BASE mb \<and> hdr_free (headers s3 q)
      then snd (merge_backwards m s3) else s3)"
  obtain xs1 n2 where j2: "join_left xs n1 = (xs1, n2)" by force
  have s4: "heap_shape mb s4 (xs1 @ (n2, True) # ys1)" "even16 (xs1 @ (n2, True) # ys1)"
      "\<exists>H' e. s4 = s3\<lparr>headers := H', heap_end := e\<rparr>"
    using freed_shape_left [OF s3(1) _ q_def s4_def j2 even1] s3(2) start2 by (auto simp: m_def)
  have freed: "freed xs n ys = xs1 @ (n2, True) # ys1" by (simp add: freed_def j1 j2)
  have "free mb (m + 48) s = s4"
  proof -
    have facts: "(m + 48 = 0) = False" "m + 48 - 48 = m" "(hdr_magic (headers s m) \<noteq> heap_magic) = False"
        "hdr_free (headers s m) = False"
        "upd_header m (\<lambda>h. h\<lparr>hdr_free := True\<rparr>) (s\<lparr>heap_used := heap_used s - hdr_size (headers s m)\<rparr>) = s2"
      using p step(1) by (simp_all add: upd_header_def s2_def)
    show ?thesis
      by (simp only: free_def SIZEOF_heap_header_def Let_def facts if_False s3_def [symmetric]
          q_def [symmetric] s4_def [symmetric])
  qed
  moreover have "heap_used s4 = used_bytes (freed xs n ys)"
    using s3(2) s4(3) used by (auto simp: s2_def used_freed used_append)
  moreover have "coalesced (freed xs n ys)" using coalesced_freed blocks by (simp add: blocks_ok_def)
  ultimately show ?thesis using s3(2) s4 freed by (auto simp: heap_ok_def blocks_ok_iff s2_def)
qed

subsection \<open>Growing the heap\<close>

text \<open>Whatever the page tables do, the frame allocator stays sound, so a page is never null.\<close>

definition vm_sound :: "u64 \<Rightarrow> PageTableManager \<times> page_mem \<Rightarrow> bool" where
  "vm_sound mb v \<longleftrightarrow> pfa_ok mb (frames (snd v))"

lemma next_table_sound: "vm_sound mb st \<Longrightarrow> vm_sound mb (snd (next_table mb t i st))"
proof -
  assume ok: "vm_sound mb st"
  obtain ptm s where st: "st = (ptm, s)" by force
  obtain v f where r: "RequestPage mb (frames s) = (v, f)" by force
  have "pfa_ok mb f" using pfa_source.ok_request [of mb "frames s"] ok by (simp add: vm_sound_def st r)
  then show ?thesis using ok
    by (simp add: next_table_def PTM_ALLOCATE_PAGE_def set_entry_def vm_sound_def st r Let_def)
qed

lemma MapMemory_sound:
  assumes "vm_sound mb st"
  shows "vm_sound mb (MapMemory mb va pa st)"
proof -
  let ?x = "page_map_index va"
  obtain v3 st3 where 3: "next_table mb (PML4 (fst st)) (L3_i ?x) st = (v3, st3)" by (metis surj_pair)
  obtain v2 st2 where 2: "next_table mb v3 (L2_i ?x) st3 = (v2, st2)" by (metis surj_pair)
  obtain v1 ptm s where 1: "next_table mb v2 (L1_i ?x) st2 = (v1, ptm, s)" by (metis prod.collapse)
  have "vm_sound mb st3" using next_table_sound [OF assms] 3 by (metis snd_conv)
  then have "vm_sound mb st2" using next_table_sound 2 by (metis snd_conv)
  then have "vm_sound mb (ptm, s)" using next_table_sound 1 by (metis snd_conv)
  then show ?thesis
    by (simp add: MapMemory_SetMapping SetMapping_def walk_alloc_def 1 2 3 Let_def vm_sound_def
        flush_tlb_single_def set_entry_def)
qed

lemma RequestPage_not_null:
  assumes "pfa_ok mb f"
  shows "fst (RequestPage mb f) \<noteq> 0"
proof (cases "free_frame_set f = {}")
  case True
  then show ?thesis using pfa_source.request_none [OF assms True] assms by (auto simp: pfa_ok_def)
next
  case False
  then obtain p where p: "p \<in> free_frame_set f" "fst (RequestPage mb f) = p + mb"
    using pfa_source.request_some [OF assms] by blast
  then obtain i where i: "p = i * 0x1000" "i < total_pages f" by (auto simp: free_frame_set_def)
  then have "unat p = unat i * 4096" "unat i * 4096 + unat mb < 18446744073709551616" "0 < unat mb"
    using assms unat_frame_addr [of i] by (auto simp: pfa_ok_def word_less_nat_alt)
  then have "unat (p + mb) \<noteq> 0" by (simp add: unat_add64)
  then show ?thesis using p by auto
qed

text \<open>
  The pages of the heap are backed, up to its end, and what growing has cleared lies in the direct
  map below the heap.
\<close>

definition heap_backed :: "u64 \<Rightarrow> heap_state \<Rightarrow> bool" where
  "heap_backed mb s \<longleftrightarrow> backed mb (heap_start s) (LastHeapAddress s) (heap_vm s) \<and>
     (\<forall>q \<in> set (cleared_pages s). unat mb \<le> unat q \<and> unat q + 4096 \<le> unat (HEAP_BASE mb))"

lemma backed_sound: "heap_backed mb s \<Longrightarrow> vm_sound mb (heap_vm s)"
  by (simp add: heap_backed_def backed_def st_ok_def pt_ok_def vm_sound_def)

lemma same_window_backed: "same_window s s' \<Longrightarrow> heap_backed mb s' = heap_backed mb s"
  by (simp add: same_window_def heap_backed_def)

text \<open>One turn of the growing loop, after the page is requested and mapped.\<close>

definition grow_step :: "u64 \<Rightarrow> heap_state \<Rightarrow> heap_state" where
  "grow_step mb s =
     (let (page, s1) = request_heap_page mb s;
          s2 = map_heap_page mb page (clear_page page s1);
          s3 = upd_header (heap_end s2) (\<lambda>h. h\<lparr>hdr_size := hdr_size h + 0x1000\<rparr>) s2
      in s3\<lparr>LastHeapAddress := LastHeapAddress s3 + 0x1000, heap_size := heap_size s3 + 0x1000\<rparr>)"

lemma expand_loop_step:
  assumes "vm_sound mb (heap_vm s)"
  shows "expand_loop mb sz off s = (if off < sz then expand_loop mb sz (off + 0x1000) (grow_step mb s) else Some s)"
proof -
  obtain ptm m where vm: "heap_vm s = (ptm, m)" by force
  obtain page f where r: "RequestPage mb (frames m) = (page, f)" by force
  have "page \<noteq> 0" using RequestPage_not_null [of mb "frames m"] assms by (simp add: vm_sound_def vm r)
  then show ?thesis
    by (subst expand_loop.simps) (simp add: grow_step_def request_heap_page_def vm r Let_def)
qed

lemma grow_step_frame:
  "heap_start (grow_step mb s) = heap_start s \<and> heap_end (grow_step mb s) = heap_end s \<and>
   heap_used (grow_step mb s) = heap_used s \<and> LastHeapAddress (grow_step mb s) = LastHeapAddress s + 0x1000 \<and>
   heap_size (grow_step mb s) = heap_size s + 0x1000 \<and>
   headers (grow_step mb s) = (let H = zero_headers (LastHeapAddress s) 0x1000 (headers s)
     in H(heap_end s := (H (heap_end s))\<lparr>hdr_size := hdr_size (H (heap_end s)) + 0x1000\<rparr>))"
  by (simp add: grow_step_def request_heap_page_def map_heap_page_def clear_page_def upd_header_def Let_def
      split: prod.split)

lemma grow_step_backed:
  assumes win: "heap_backed mb s" and free: "4 \<le> st_credit (heap_vm s)"
    and room: "unat (LastHeapAddress s) + 4096 < 18446744073709551616"
  shows "heap_backed mb (grow_step mb s) \<and> st_credit (heap_vm s) \<le> st_credit (heap_vm (grow_step mb s)) + 4"
proof -
  obtain ptm m where vm: "heap_vm s = (ptm, m)" by force
  obtain page f where r: "RequestPage mb (frames m) = (page, f)" by force
  let ?T = "(tables m)(page := (\<lambda>_. 0))"
  define v where "v = MapMemory mb (LastHeapAddress s) (virtual_to_physical mb page) (ptm, m\<lparr>frames := f, tables := ?T\<rparr>)"
  have win': "backed mb (heap_start s) (LastHeapAddress s) (ptm, m)" using win by (simp add: heap_backed_def vm)
  have "4 \<le> card (free_frame_set (frames m))" using free by (simp add: st_credit_def vm)
  from map_fresh_page [OF win' this room r disjI2 [OF refl] v_def]
  have "backed mb (heap_start s) (LastHeapAddress s + 0x1000) v" "st_credit (ptm, m) \<le> st_credit v + 4"
      "unat mb \<le> unat page \<and> unat page + 4096 \<le> unat (HEAP_BASE mb)"
    by (simp_all add: st_credit_def)
  moreover have "heap_vm (grow_step mb s) = v" "cleared_pages (grow_step mb s) = page # cleared_pages s"
    by (simp_all add: grow_step_def request_heap_page_def map_heap_page_def clear_page_def upd_header_def
        v_def vm r Let_def)
  ultimately show ?thesis using win grow_step_frame [of mb s] by (simp add: heap_backed_def vm)
qed

text \<open>On the blocks: the last one grows by a page.\<close>

lemma grow_step_shape:
  assumes shape: "heap_shape mb s (xs @ [(n, f)])" and room: "unat (LastHeapAddress s) + 4096 < 18446744073709551616"
  shows "heap_shape mb (grow_step mb s) (xs @ [(n + 0x1000, f)]) \<and> unat (n + 0x1000) = unat n + 4096"
proof -
  let ?a = "heap_start s" and ?L = "LastHeapAddress s" and ?H = "headers s"
  define m where "m = after ?a xs"
  have segs: "segs ?H 0 ?a (xs @ [(n, f)]) 0" and r: "room ?a (xs @ [(n, f)])"
    and L: "?L = after ?a (xs @ [(n, f)])" and e: "heap_end s = m"
    using shape by (simp_all add: heap_shape_def m_def)
  have uL: "unat ?L = unat ?a + blen (xs @ [(n, f)])" unfolding L by (rule unat_after [OF r])
  then have size: "unat (n + 0x1000) = unat n + 4096" using room by (simp add: unat_add64)
  define H1 where "H1 = zero_headers ?L 0x1000 ?H"
  have same: "H1 x = ?H x" if "x \<in> set (addrs ?a (xs @ [(n, f)]))" for x
  proof -
    have "unat x + 48 \<le> unat ?L" using addrs_range [OF r that] uL by simp
    then have "\<not> x - ?L < 0x1000" using room by (simp add: word_less_nat_alt unat_diff64)
    then show ?thesis by (simp add: H1_def zero_headers_def)
  qed
  then have segs1: "segs H1 0 ?a (xs @ [(n, f)]) 0" using segs segs_cong by blast
  have "m \<notin> set (addrs ?a xs)" unfolding m_def by (rule after_not_before [OF r])
  then have "segs (H1(m := (H1 m)\<lparr>hdr_size := hdr_size (H1 m) + 0x1000\<rparr>)) 0 ?a (xs @ [(n + 0x1000, f)]) 0"
    using segs1 by (simp add: segs_append segs_other link_def m_def)
  moreover have "headers (grow_step mb s) = H1(m := (H1 m)\<lparr>hdr_size := hdr_size (H1 m) + 0x1000\<rparr>)"
    using grow_step_frame [of mb s] by (simp add: H1_def e Let_def)
  ultimately have "segs (headers (grow_step mb s)) 0 ?a (xs @ [(n + 0x1000, f)]) 0" by (simp only:)
  moreover have "room ?a (xs @ [(n + 0x1000, f)])" "heap_size s + 0x1000 = of_nat (blen (xs @ [(n + 0x1000, f)]))"
      "?L + 0x1000 = after ?a (xs @ [(n + 0x1000, f)])"
    using shape room uL size L by (simp_all add: heap_shape_def room_def)
  ultimately show ?thesis using shape grow_step_frame [of mb s] size e
    unfolding heap_shape_def by (simp add: m_def)
qed

lemma grown_shift: "n + of_nat (Suc k) * 0x1000 = n + 0x1000 + of_nat k * (0x1000 :: u64)"
  by (simp add: algebra_simps)

lemma pages_step: "Suc k = (d + 4095) div 4096 \<Longrightarrow> k = (d - 4096 + 4095) div (4096 :: nat)"
proof (cases "d < 4096")
  case True
  assume "Suc k = (d + 4095) div 4096"
  moreover have "(d + 4095) div 4096 < 2" using True by (intro div_less_iff_less_mult [THEN iffD2]) simp_all
  ultimately show ?thesis using True by simp
next
  case False
  then obtain r where "d = 4096 + r" by (metis le_add_diff_inverse not_le)
  then have "(d + 4095) div 4096 = Suc ((r + 4095) div 4096)" "d - 4096 = r"
    using div_add_self2 [of 4096 "r + 4095"] by (simp_all add: add.commute add.left_commute)
  moreover assume "Suc k = (d + 4095) div 4096"
  ultimately show ?thesis by simp
qed

lemma expand_loop_blocks:
  "heap_backed mb s \<Longrightarrow> heap_shape mb s (xs @ [(n, f)]) \<Longrightarrow> unat sz + 4096 < 18446744073709551616 \<Longrightarrow>
   unat (LastHeapAddress s) + 4096 * k < 18446744073709551616 \<Longrightarrow>
   k = (unat sz - unat off + 4095) div 4096 \<Longrightarrow> 4 * k \<le> st_credit (heap_vm s) \<Longrightarrow>
   \<exists>s'. expand_loop mb sz off s = Some s' \<and> heap_shape mb s' (xs @ [(n + of_nat k * 0x1000, f)]) \<and>
     unat (n + of_nat k * 0x1000) = unat n + 4096 * k \<and> heap_used s' = heap_used s \<and>
     heap_start s' = heap_start s \<and> heap_backed mb s'"
proof (induction k arbitrary: off s n)
  case 0
  then have "\<not> off < sz" by (simp add: word_less_nat_alt)
  then show ?case using 0 backed_sound [of mb s] by (simp add: expand_loop_step)
next
  case (Suc k)
  have off: "off < sz" using Suc.prems(5) by (cases "unat sz \<le> unat off") (auto simp: word_less_nat_alt)
  then have off': "unat (off + 0x1000) = unat off + 4096"
    using Suc.prems(3) by (simp add: unat_add64 word_less_nat_alt)
  have fit: "unat (LastHeapAddress s) + 4096 < 18446744073709551616" using Suc.prems(4) by simp
  note step = grow_step_shape [OF Suc.prems(2) fit]
  have pages: "heap_backed mb (grow_step mb s)" "st_credit (heap_vm s) \<le> st_credit (heap_vm (grow_step mb s)) + 4"
    using grow_step_backed [OF Suc.prems(1) _ fit] Suc.prems(6) by simp_all
  then have credit: "4 * k \<le> st_credit (heap_vm (grow_step mb s))" using Suc.prems(6) by simp
  have "unat (LastHeapAddress s + 0x1000) = unat (LastHeapAddress s) + 4096"
    using Suc.prems(4) by (simp add: unat_add64)
  then have last: "unat (LastHeapAddress (grow_step mb s)) + 4096 * k < 18446744073709551616"
    using Suc.prems(4) grow_step_frame [of mb s] by simp
  have k: "k = (unat sz - unat (off + 0x1000) + 4095) div 4096"
    unfolding off' using pages_step [OF Suc.prems(5)] by simp
  from Suc.IH [OF pages(1) conjunct1 [OF step] Suc.prems(3) last k credit] obtain s' where
    IH: "expand_loop mb sz (off + 0x1000) (grow_step mb s) = Some s'"
      "heap_shape mb s' (xs @ [(n + 0x1000 + of_nat k * 0x1000, f)])"
      "unat (n + 0x1000 + of_nat k * 0x1000) = unat (n + 0x1000) + 4096 * k"
      "heap_used s' = heap_used (grow_step mb s)" "heap_start s' = heap_start (grow_step mb s)"
      "heap_backed mb s'" by blast
  have "unat (n + of_nat (Suc k) * 0x1000) = unat n + 4096 * Suc k"
  proof -
    have "unat (n + 0x1000 + of_nat k * 0x1000) = unat (n + 0x1000) + 4096 * k" by (rule IH(3))
    also have "\<dots> = unat n + 4096 * Suc k" using step by simp
    finally show ?thesis unfolding grown_shift .
  qed
  moreover have "expand_loop mb sz off s = Some s'"
    using IH(1) off by (simp only: expand_loop_step [OF backed_sound [OF Suc.prems(1)]] if_True)
  moreover have "heap_shape mb s' (xs @ [(n + of_nat (Suc k) * 0x1000, f)])"
    unfolding grown_shift by (rule IH(2))
  moreover have "heap_used s' = heap_used s" "heap_start s' = heap_start s"
    using IH(4,5) grow_step_frame [of mb s] by simp_all
  ultimately show ?case using IH(6) by (intro exI [of _ s'] conjI)
qed

text \<open>What growing by \<open>k\<close> pages makes of the last block: a bigger one, or one behind it.\<close>

definition grown_last :: "nat \<Rightarrow> u64 \<Rightarrow> bool \<Rightarrow> block list" where
  "grown_last k n f = (if f then [(n + of_nat k * 0x1000, True)]
     else [(n, False), (of_nat k * 0x1000 - 48, True)])"

lemma page_dvd: "16 dvd (4096 :: nat) * k"
proof -
  have "(4096 :: nat) * k = 16 * (256 * k)" by simp
  then show ?thesis by (rule dvdI)
qed

lemma ExpandHeap_blocks:
  assumes ok: "heap_ok mb s (xs @ [(n, f)])" and vm: "heap_backed mb s"
    and sz: "0 < unat sz" "unat sz + 4096 < 18446744073709551616"
    and k: "k = (unat sz + 4095) div 4096"
    and room: "unat (LastHeapAddress s) + 4096 * k < 18446744073709551616"
    and credit: "4 * k \<le> st_credit (heap_vm s)"
  shows "\<exists>s'. ExpandHeap mb sz s = Some s' \<and> heap_ok mb s' (xs @ grown_last k n f) \<and>
    heap_start s' = heap_start s \<and> heap_backed mb s'"
proof -
  have shape: "heap_shape mb s (xs @ [(n, f)])" and blocks: "blocks_ok (xs @ [(n, f)])"
    and used: "heap_used s = used_bytes (xs @ [(n, f)])" using ok by (simp_all add: heap_ok_def)
  define K where "K = of_nat k * (0x1000 :: u64)"
  obtain s1 where s1: "expand_loop mb sz 0 s = Some s1" "heap_shape mb s1 (xs @ [(n + K, f)])"
      "unat (n + K) = unat n + 4096 * k" "heap_used s1 = heap_used s" "heap_start s1 = heap_start s"
      "heap_backed mb s1"
    using expand_loop_blocks [OF vm shape sz(2) room _ credit, of 0] k by (auto simp: K_def)
  have pos: "0 < k" using k sz(1) by (simp add: div_greater_zero_iff)
  have even: "16 dvd unat n" "coalesced (xs @ [(n, f)])" "even16 xs" using blocks by (auto simp: blocks_ok_iff)
  note prev = shape_step(1) [OF shape]
  note last = shape_step(1) [OF s1(2)]
  have e: "heap_end s = after (heap_start s) xs" "heap_end s1 = after (heap_start s1) xs"
    using shape s1(2) by (simp_all add: heap_shape_def)
  show ?thesis
  proof (cases f)
    case True
    then have "ExpandHeap mb sz s = Some s1" using last s1(1) e by (simp add: ExpandHeap_def Let_def)
    moreover have "blocks_ok (xs @ [(n + K, True)])"
      using even True s1(3) page_dvd [of k] by (simp add: blocks_ok_iff coalesced_mid)
    ultimately show ?thesis using True s1 used
      by (simp add: heap_ok_def grown_last_def K_def used_append)
  next
    case False
    have K: "K = n + K - n" by simp
    have uK: "unat K = 4096 * k"
      by (subst K) (subst unat_sub64, simp_all add: s1(3) word_le_nat_alt)
    have "unat n + 48 < unat (n + K)" using s1(3) pos by simp
    moreover have "HEAP_BASE mb \<le> heap_start s1" "0 < heap_start s1"
        "segs (headers s1) 0 (heap_start s1) (xs @ [(n + K, False)]) 0" "room (heap_start s1) (xs @ [(n + K, False)])"
      using s1(2) False by (simp_all add: heap_shape_def)
    ultimately obtain H' where H': "split_segment mb n (after (heap_start s1) xs) s1 = s1\<lparr>headers := H',
        heap_end := after (heap_start s1) xs + 48 + n\<rparr>"
        "segs H' 0 (heap_start s1) (xs @ [(n, False), (K - 48, True)] @ []) 0"
      using split_blocks [of s1 "heap_start s1" xs "n + K" False "[]" mb n] e(2) by auto
    define s2 where "s2 = s1\<lparr>headers := H', heap_end := after (heap_start s1) xs + 48 + n,
        heap_used := heap_used s1, heap_vm := heap_vm s1\<rparr>"
    have uK48: "unat (K - 48) = unat K - 48" using uK pos by (subst unat_sub64) (simp_all add: word_le_nat_alt)
    have "heap_shape mb s2 (xs @ [(n, False), (K - 48, True)] @ [])"
    proof (rule shape_replace [where old = "[(n + K, f)]" and s = s1])
      show "blen [(n, False), (K - 48, True)] = blen [(n + K, f)]" using uK48 uK pos s1(3) by simp
      show "s2 = s1\<lparr>headers := H', heap_end := after (heap_start s1) xs + 48 + n,
        heap_used := heap_used s1, heap_vm := heap_vm s1\<rparr>" by (rule s2_def)
    qed (use s1(2) H'(2) in simp_all)
    moreover have "ExpandHeap mb sz s = Some s2"
      using last prev s1(1,5) e False H'(1) by (simp add: ExpandHeap_def Let_def s2_def)
    moreover have "16 dvd unat (K - 48)"
      unfolding uK48 uK using page_dvd [of k] by (intro dvd_diff_nat) simp_all
    then have "blocks_ok (xs @ [(n, False), (K - 48, True)])"
      using even False by (simp add: blocks_ok_iff coalesced_mid)
    moreover have "heap_backed mb s2 = heap_backed mb s1"
      by (rule same_window_backed) (simp add: same_window_def s2_def)
    ultimately show ?thesis using s1 used False
      by (simp add: heap_ok_def grown_last_def K_def used_append s2_def)
  qed
qed

lemma heap_blocks_last: "heap_ok mb s bs \<Longrightarrow> \<exists>xs n f. bs = xs @ [(n, f)]"
  by (cases bs rule: rev_cases) (auto simp: heap_ok_def blocks_ok_def)

lemma pages_bounds: "x \<le> 4096 * ((x + 4095) div 4096) \<and> 4096 * ((x + 4095) div 4096) \<le> x + (4095 :: nat)"
  using mult_div_mod_eq [of 4096 "x + 4095"] mod_less_divisor [of 4096 "x + 4095"] by linarith

lemma grown_fits:
  assumes "unat m + 4096 * k < 18446744073709551616" "\<forall>b \<in> set (xs @ [(m, f)]). \<not> fits sz b"
    and "2 * unat sz \<le> 4096 * k" "0 < unat sz"
  shows "\<exists>us n. us @ [(n, True)] = xs @ grown_last k m f \<and> (\<forall>b \<in> set us. \<not> fits sz b) \<and> sz \<le> n"
proof -
  let ?K = "of_nat k * 0x1000 :: u64"
  have K: "unat ?K = 4096 * k" using assms(1) unat_of_nat64 [of k] by (subst unat_mul64) simp_all
  then have mK: "unat (m + ?K) = unat m + 4096 * k" using assms(1) by (simp add: unat_add64)
  show ?thesis
  proof (cases f)
    case True
    then show ?thesis using assms(2,3) mK
      by (intro exI [of _ xs] exI [of _ "m + ?K"]) (simp add: grown_last_def word_le_nat_alt)
  next
    case False
    have "0 < k" using assms(3,4) by (cases k) auto
    then have "unat (?K - 48) = 4096 * k - 48" using K by (subst unat_sub64) (simp_all add: word_le_nat_alt)
    moreover have "unat sz \<le> 4096 * k - 48"
      using assms(3) \<open>0 < k\<close> by (cases "unat sz \<le> 48") simp_all
    ultimately show ?thesis using False assms(2)
      by (intro exI [of _ "xs @ [(m, False)]"] exI [of _ "?K - 48"])
        (simp add: grown_last_def word_le_nat_alt fits_def)
  qed
qed

text \<open>Pages that a request grows the heap by, when nothing fits.\<close>

definition growth_pages :: "u64 \<Rightarrow> nat" where
  "growth_pages n = (2 * unat (round16 n) + 4095) div 4096"

lemma malloc_grown:
  assumes ok: "heap_ok mb s (xs @ [(m, f)])" and vm: "heap_backed mb s"
    and full: "\<forall>b \<in> set (xs @ [(m, f)]). \<not> fits (round16 sz0) b" and sz0: "sz0 \<noteq> 0"
    and room: "unat (LastHeapAddress s) + 2 * unat sz0 + 8192 < 18446744073709551616"
    and credit: "4 * growth_pages sz0 \<le> st_credit (heap_vm s)"
  shows "\<exists>s' us n vs k. malloc mb sz0 s = Some (after (heap_start s) us + 48, s') \<and>
    heap_ok mb s' (us @ taken (round16 sz0) n @ vs) \<and> heap_start s' = heap_start s \<and>
    us @ (n, True) # vs = xs @ grown_last k m f \<and> round16 sz0 \<le> n \<and> heap_backed mb s' \<and>
    room (heap_start s) (us @ (n, True) # vs)"
proof -
  let ?sz = "round16 sz0"
  have small: "unat sz0 + 15 < 18446744073709551616" using room by simp
  note sz = round16_bounds [OF small]
  have shape: "heap_shape mb s ([] @ xs @ [(m, f)])" using ok by (simp add: heap_ok_def)
  have none: "find_free_segment mb ?sz s = Some (0, s)"
    using find_loop_none [OF shape full] by (simp add: find_free_segment_def link_def)
  have dbl: "unat (?sz * 2) = 2 * unat ?sz" using sz(3) room by (subst unat_mul64) simp_all
  define k where "k = (unat (?sz * 2) + 4095) div 4096"
  have k: "unat (?sz * 2) \<le> 4096 * k" "4096 * k \<le> unat (?sz * 2) + 4095"
    unfolding k_def using pages_bounds by blast+
  have pos: "0 < unat ?sz"
  proof -
    have "0 < unat sz0" using sz0 by (simp add: unat_gt_0)
    then show ?thesis using sz(1) unfolding word_le_nat_alt by (rule less_le_trans)
  qed
  have "unat (LastHeapAddress s) + 4096 * k < 18446744073709551616" using k(2) dbl sz(3) room by simp
  moreover have "4 * k \<le> st_credit (heap_vm s)" using credit by (simp add: growth_pages_def k_def dbl)
  ultimately obtain s2 where
    s2: "ExpandHeap mb (?sz * 2) s = Some s2" "heap_ok mb s2 (xs @ grown_last k m f)"
      "heap_start s2 = heap_start s" "heap_backed mb s2"
    using ExpandHeap_blocks [OF ok vm _ _ k_def] pos dbl sz(3) room by auto
  have shape1: "heap_shape mb s (xs @ [(m, f)])" using shape by simp
  have "unat (LastHeapAddress s) = unat (after (heap_start s) xs) + 48 + unat m"
    using shape1 block_order(5) [of "heap_start s" xs m f "[]"] by (simp add: heap_shape_def)
  then have grow: "unat m + 4096 * k < 18446744073709551616" using k(2) dbl sz(3) room by simp
  have enough: "2 * unat ?sz \<le> 4096 * k" using k(1) dbl by simp
  obtain us n where us: "us @ [(n, True)] = xs @ grown_last k m f" "\<forall>b \<in> set us. \<not> fits ?sz b" "?sz \<le> n"
    using grown_fits [OF grow full enough pos] by blast
  have ok2: "heap_ok mb s2 (us @ (n, True) # [])" using s2(2) us(1) by simp
  then have shape2: "heap_shape mb s2 ([] @ us @ (n, True) # [])" by (simp add: heap_ok_def)
  let ?p = "after (heap_start s2) us"
  define s3 where "s3 = (if ?sz + 48 < n then split_segment mb ?sz ?p s2 else s2)"
  have found: "find_free_segment mb ?sz s2 = Some (?p, s3)"
    using find_loop_some [OF shape2 us(2)] us(3) by (simp add: find_free_segment_def s3_def fits_def)
  obtain s' where "take_segment ?p s3 = (?p + 48, s')" "heap_ok mb s' (us @ taken ?sz n @ [])"
      and w: "same_window s2 s'"
    using take_found [OF ok2 us(3) sz(2) refl s3_def] by blast
  moreover have "heap_start s' = heap_start s" "heap_backed mb s'"
    using w s2(3,4) same_window_backed [OF w] by (simp_all add: same_window_def)
  moreover have "room (heap_start s) (us @ [(n, True)])" using shape2 s2(3) by (simp add: heap_shape_def)
  ultimately have "malloc mb sz0 s = Some (after (heap_start s) us + 48, s') \<and>
    heap_ok mb s' (us @ taken (round16 sz0) n @ []) \<and> heap_start s' = heap_start s \<and>
    us @ (n, True) # [] = xs @ grown_last k m f \<and> round16 sz0 \<le> n \<and> heap_backed mb s' \<and>
    room (heap_start s) (us @ (n, True) # [])"
    using none s2(1,3) found us(1,3) sz0 by (simp add: malloc_def Let_def)
  then show ?thesis by blast
qed

subsection \<open>The live allocations\<close>

text \<open>Pointer and size of every allocated payload.\<close>

fun live :: "u64 \<Rightarrow> block list \<Rightarrow> (u64 \<times> u64) set" where
  "live a [] = {}"
| "live a ((n, f) # bs) = (if f then {} else {(a + 48, n)}) \<union> live (a + 48 + n) bs"

lemma live_append [simp]: "live a (xs @ ys) = live a xs \<union> live (after a xs) ys"
  by (induction xs arbitrary: a) auto

lemma live_range: "room a bs \<Longrightarrow> (p, n) \<in> live a bs \<Longrightarrow>
    unat a + 48 \<le> unat p \<and> unat p + unat n \<le> unat a + blen bs"
proof (induction bs arbitrary: a)
  case (Cons b bs)
  obtain k f where b: "b = (k, f)" by force
  note r = Cons.prems(1) [unfolded b]
  have a48: "unat (a + 48) = unat a + 48" using r by (simp add: room_def unat_add64)
  show ?case
  proof (cases "(p, n) \<in> live (a + 48 + k) bs")
    case True
    then show ?thesis using Cons.IH [OF room_Cons [OF r] True] unat_block [OF r] by (simp add: b)
  next
    case False
    then show ?thesis using Cons.prems(2) a48 by (auto simp: b split: if_splits)
  qed
qed simp

lemma live_decomp: "(p, n) \<in> live a bs \<Longrightarrow> \<exists>xs ys. bs = xs @ (n, False) # ys \<and> p = after a xs + 48"
proof (induction bs arbitrary: a)
  case (Cons b bs)
  obtain k f where b: "b = (k, f)" by force
  show ?case
  proof (cases "(p, n) \<in> live (a + 48 + k) bs")
    case True
    from Cons.IH [OF True] obtain xs ys where "bs = xs @ (n, False) # ys" "p = after (a + 48 + k) xs + 48"
      by blast
    then show ?thesis by (intro exI [of _ "b # xs"] exI [of _ ys]) (simp add: b)
  next
    case False
    then show ?thesis using Cons.prems by (intro exI [of _ "[]"] exI [of _ bs]) (auto simp: b split: if_splits)
  qed
qed simp

text \<open>Two live payloads are one and the same, or lie apart.\<close>

lemma live_disjoint:
  "room a bs \<Longrightarrow> (p, n) \<in> live a bs \<Longrightarrow> (q, k) \<in> live a bs \<Longrightarrow>
     (p, n) = (q, k) \<or> unat p + unat n \<le> unat q \<or> unat q + unat k \<le> unat p"
proof (induction bs arbitrary: a)
  case (Cons b bs)
  obtain m f where b: "b = (m, f)" by force
  note r = Cons.prems(1) [unfolded b]
  let ?c = "a + 48 + m"
  have c: "unat ?c = unat a + 48 + unat m" "unat (a + 48) = unat a + 48"
    using unat_block [OF r] r by (simp_all add: room_def unat_add64)
  have later: "unat a + 48 + unat m \<le> unat x" if "(x, y) \<in> live ?c bs" for x y
    using live_range [OF room_Cons [OF r] that] c by simp
  show ?case using Cons.prems Cons.IH [OF room_Cons [OF r]] later c
    by (auto simp: b split: if_splits)
qed simp

text \<open>One pointer, one block: even empty payloads are set apart by their headers.\<close>

lemma live_unique: "room a bs \<Longrightarrow> (p, n) \<in> live a bs \<Longrightarrow> (p, k) \<in> live a bs \<Longrightarrow> n = k"
proof (induction bs arbitrary: a)
  case (Cons b bs)
  obtain m f where b: "b = (m, f)" by force
  note r = Cons.prems(1) [unfolded b]
  have c: "unat (a + 48 + m) = unat a + 48 + unat m" "unat (a + 48) = unat a + 48"
    using unat_block [OF r] r by (simp_all add: room_def unat_add64)
  have "a + 48 \<noteq> x" if "(x, y) \<in> live (a + 48 + m) bs" for x y
    using live_range [OF room_Cons [OF r] that] c by auto
  then show ?case using Cons.prems Cons.IH [OF room_Cons [OF r]] by (auto simp: b split: if_splits)
qed simp

lemma live_taken:
  assumes "sz \<le> n" "unat n + 48 < 18446744073709551616"
  shows "\<exists>k. sz \<le> k \<and> live a (taken sz n) = {(a + 48, k)} \<and> after a (taken sz n) = a + 48 + n"
  using assms(1) by (cases "sz + 48 < n") (auto simp: taken_def add.commute add.left_commute)

lemma live_freed:
  assumes room: "room a (xs @ (n, False) # ys)"
  shows "live a (freed xs n ys) = live a (xs @ (n, False) # ys) - {(after a xs + 48, n)}"
proof -
  let ?m = "after a xs"
  obtain n1 ys1 where j: "join_right n ys = (n1, ys1)" by force
  have right: "live (?m + 48 + n1) ys1 = live (?m + 48 + n) ys"
    using j by (cases ys) (auto simp: join_right_def add.commute add.left_commute split: prod.splits bool.splits)
  obtain xs1 n2 where l: "join_left xs n1 = (xs1, n2)" by force
  have left: "live a (xs1 @ (n2, True) # ys1) = live a xs \<union> live (?m + 48 + n1) ys1"
  proof (cases "xs \<noteq> [] \<and> snd (last xs)")
    case True
    then obtain zs k where xs: "xs = zs @ [(k, True)]" by (metis append_butlast_last_id prod.collapse)
    then show ?thesis using l by (auto simp: join_left_def add.commute add.left_commute)
  next
    case False
    then show ?thesis using l by (auto simp: join_left_def)
  qed
  note ord = block_order [OF room refl]
  have r: "room a xs" "room (?m + 48 + n) ys" using room_append [OF room] room_Cons by auto
  have m48: "unat (?m + 48) = unat ?m + 48"
    using ord(5) unat_lt64 [of "?m + 48 + n"] by (subst unat_add64) simp_all
  have "(?m + 48, n) \<notin> live a xs"
    using live_range [OF r(1)] unat_after [OF r(1)] m48 by fastforce
  moreover have "(?m + 48, n) \<notin> live (?m + 48 + n) ys"
    using live_range [OF r(2)] ord(5) m48 by fastforce
  ultimately show ?thesis using left right by (auto simp: freed_def j l)
qed

lemma live_grown: "live a (xs @ grown_last k m f) = live a (xs @ [(m, f)])"
  by (simp add: grown_last_def)

subsection \<open>An allocator as an interface\<close>

locale allocator =
  fixes alloc :: "u64 \<Rightarrow> 's \<Rightarrow> (u64 \<times> 's) option"
    and dealloc :: "u64 \<Rightarrow> 's \<Rightarrow> 's"
    and sound :: "'s \<Rightarrow> bool"
    and blocks :: "'s \<Rightarrow> (u64 \<times> u64) set"
    and can_alloc :: "u64 \<Rightarrow> 's \<Rightarrow> bool"
  assumes alloc_law: "sound s \<Longrightarrow> can_alloc n s \<Longrightarrow>
      \<exists>p s' k. alloc n s = Some (p, s') \<and> sound s' \<and> n \<le> k \<and> p \<noteq> 0 \<and>
        (p, k) \<notin> blocks s \<and> blocks s' = insert (p, k) (blocks s)"
    and dealloc_law: "sound s \<Longrightarrow> (p, k) \<in> blocks s \<Longrightarrow>
      sound (dealloc p s) \<and> blocks (dealloc p s) = blocks s - {(p, k)}"
    and apart: "sound s \<Longrightarrow> (p, k) \<in> blocks s \<Longrightarrow> (q, j) \<in> blocks s \<Longrightarrow>
      (p, k) = (q, j) \<or> unat p + unat k \<le> unat q \<or> unat q + unat j \<le> unat p"
begin

text \<open>A new block lies apart from every block that is live, and no live block is lost.\<close>

lemma alloc_fresh:
  assumes "sound s" "can_alloc n s"
  shows "\<exists>p s' k. alloc n s = Some (p, s') \<and> sound s' \<and> p \<noteq> 0 \<and> n \<le> k \<and> blocks s \<subseteq> blocks s' \<and>
    (p, k) \<in> blocks s' \<and> (\<forall>(q, j) \<in> blocks s. unat p + unat k \<le> unat q \<or> unat q + unat j \<le> unat p)"
proof -
  obtain p s' k where a: "alloc n s = Some (p, s')" "sound s'" "n \<le> k" "p \<noteq> 0"
      "(p, k) \<notin> blocks s" "blocks s' = insert (p, k) (blocks s)"
    using alloc_law [OF assms] by blast
  have "unat p + unat k \<le> unat q \<or> unat q + unat j \<le> unat p" if "(q, j) \<in> blocks s" for q j
    using apart [OF a(2), of p k q j] a(5,6) that by auto
  then show ?thesis using a by blast
qed

text \<open>Giving a new block back restores the live blocks, whatever was allocated before.\<close>

lemma alloc_dealloc:
  assumes "sound s" "can_alloc n s"
  shows "\<exists>p s'. alloc n s = Some (p, s') \<and> sound (dealloc p s') \<and> blocks (dealloc p s') = blocks s"
proof -
  obtain p s' k where a: "alloc n s = Some (p, s')" "sound s'" "(p, k) \<notin> blocks s"
      "blocks s' = insert (p, k) (blocks s)"
    using alloc_law [OF assms] by blast
  then show ?thesis using dealloc_law [OF a(2), of p k] by auto
qed

end

definition heap_sound :: "u64 \<Rightarrow> heap_state \<Rightarrow> bool" where
  "heap_sound mb s \<longleftrightarrow> (\<exists>bs. heap_ok mb s bs) \<and> heap_backed mb s"

text \<open>The allocations, read off the headers of the heap's blocks.\<close>

definition heap_live :: "u64 \<Rightarrow> heap_state \<Rightarrow> (u64 \<times> u64) set" where
  "heap_live mb s = {x. \<exists>bs. heap_ok mb s bs \<and> x \<in> live (heap_start s) bs}"

text \<open>Room to grow: the window does not reach the end of the address space, and there are four free
  frames for every page the request may add, one for the page and three for the tables above it.\<close>

definition heap_room :: "u64 \<Rightarrow> heap_state \<Rightarrow> bool" where
  "heap_room n s \<longleftrightarrow> n \<noteq> 0 \<and> unat (LastHeapAddress s) + 2 * unat n + 8192 < 18446744073709551616 \<and>
     4 * growth_pages n \<le> st_credit (heap_vm s)"

text \<open>The headers determine the blocks.\<close>

lemma segs_unique:
  "segs H p a bs 0 \<Longrightarrow> segs H p a cs 0 \<Longrightarrow> room a bs \<Longrightarrow> room a cs \<Longrightarrow> bs \<noteq> [] \<Longrightarrow> cs \<noteq> [] \<Longrightarrow> bs = cs"
proof (induction bs arbitrary: p a cs)
  case (Cons b bs)
  obtain n f where b: "b = (n, f)" by force
  obtain cs' where cs: "cs = (n, f) # cs'" "link (a + 48 + n) bs 0 = link (a + 48 + n) cs' 0"
    using Cons.prems by (cases cs) (auto simp: b)
  have "unat (a + 48 + n) = unat a + 48 + unat n" using unat_block Cons.prems(3) by (simp add: b)
  then have "a + 48 + n \<noteq> 0" by auto
  then have "bs = [] \<longleftrightarrow> cs' = []" using cs(2) by (auto simp: link_def split: if_splits)
  then show ?case using Cons.IH [of a "a + 48 + n" cs'] Cons.prems room_Cons by (auto simp: b cs)
qed simp

lemma heap_live_eq: "heap_ok mb s bs \<Longrightarrow> heap_live mb s = live (heap_start s) bs"
proof -
  assume ok: "heap_ok mb s bs"
  have "cs = bs" if "heap_ok mb s cs" for cs
    using that ok segs_unique [of "headers s" 0 "heap_start s" cs bs]
    by (simp add: heap_ok_def heap_shape_def blocks_ok_def)
  then show ?thesis using ok unfolding heap_live_def by blast
qed

lemma live_after_taking:
  assumes room: "room a (us @ (n, True) # vs)" and sz: "sz \<le> n"
  shows "\<exists>k. sz \<le> k \<and> (after a us + 48, k) \<notin> live a (us @ (n, True) # vs) \<and>
    live a (us @ taken sz n @ vs) = insert (after a us + 48, k) (live a (us @ (n, True) # vs))"
proof -
  note ord = block_order [OF room refl]
  have r: "room a us" "room (after a us + 48 + n) vs" using room_append [OF room] room_Cons by auto
  have wrap: "unat (after a us) + 48 + unat n < 18446744073709551616"
    using ord(5) unat_lt64 [of "after a us + 48 + n"] by linarith
  then have m48: "unat (after a us + 48) = unat (after a us) + 48" by (subst unat_add64) simp_all
  have n48: "unat n + 48 < 18446744073709551616" using wrap by simp
  obtain k where k: "sz \<le> k" "live (after a us) (taken sz n) = {(after a us + 48, k)}"
      "after (after a us) (taken sz n) = after a us + 48 + n"
    using live_taken [OF sz n48] by blast
  have "(after a us + 48, k) \<notin> live a us"
    using live_range [OF r(1)] unat_after [OF r(1)] m48 by fastforce
  moreover have "(after a us + 48, k) \<notin> live (after a us + 48 + n) vs"
    using live_range [OF r(2)] ord(5) m48 by fastforce
  ultimately show ?thesis using k by auto
qed

lemma malloc_sound:
  assumes sound: "heap_sound mb s" and room: "heap_room n s"
  shows "\<exists>p s' k. malloc mb n s = Some (p, s') \<and> heap_sound mb s' \<and> n \<le> k \<and> p \<noteq> 0 \<and>
    (p, k) \<notin> heap_live mb s \<and> heap_live mb s' = insert (p, k) (heap_live mb s)"
proof -
  obtain bs where ok: "heap_ok mb s bs" and vm: "heap_backed mb s" using sound by (auto simp: heap_sound_def)
  have n: "n \<noteq> 0" "unat n + 15 < 18446744073709551616"
    and r: "unat (LastHeapAddress s) + 2 * unat n + 8192 < 18446744073709551616"
      "4 * growth_pages n \<le> st_credit (heap_vm s)"
    using room by (simp_all add: heap_room_def)
  let ?sz = "round16 n"
  have "\<exists>s' us m vs. malloc mb n s = Some (after (heap_start s) us + 48, s') \<and>
      heap_ok mb s' (us @ taken ?sz m @ vs) \<and> heap_start s' = heap_start s \<and> heap_backed mb s' \<and>
      ?sz \<le> m \<and> room (heap_start s) (us @ (m, True) # vs) \<and>
      live (heap_start s) (us @ (m, True) # vs) = live (heap_start s) bs"
  proof (cases "\<exists>b \<in> set bs. fits ?sz b")
    case True
    obtain us b vs where b: "bs = us @ b # vs" "fits ?sz b" "\<forall>b \<in> set us. \<not> fits ?sz b"
      using split_list_first_prop [OF True] by blast
    define m where "m = fst b"
    have bs: "bs = us @ (m, True) # vs" "?sz \<le> m" "\<forall>b \<in> set us. \<not> fits ?sz b"
      using b by (cases b; auto simp: fits_def m_def)+
    then have "heap_ok mb s (us @ (m, True) # vs)" using ok by simp
    moreover obtain s' where "malloc mb n s = Some (after (heap_start s) us + 48, s')"
        "heap_ok mb s' (us @ taken ?sz m @ vs)" and w: "same_window s s'"
      using malloc_found [OF calculation bs(3,2) n(1)] by blast
    moreover from w have "heap_start s' = heap_start s" "heap_backed mb s'"
      using vm same_window_backed [OF w] by (simp_all add: same_window_def)
    moreover have "room (heap_start s) (us @ (m, True) # vs)"
      using calculation(1) by (simp add: heap_ok_def heap_shape_def)
    moreover have "live (heap_start s) (us @ (m, True) # vs) = live (heap_start s) bs" unfolding bs(1) ..
    ultimately show ?thesis using bs(2) by blast
  next
    case False
    obtain xs m f where bs: "bs = xs @ [(m, f)]" using heap_blocks_last [OF ok] by blast
    obtain s' us k vs j where g: "malloc mb n s = Some (after (heap_start s) us + 48, s')"
        "heap_ok mb s' (us @ taken ?sz k @ vs)" "heap_start s' = heap_start s"
        "us @ (k, True) # vs = xs @ grown_last j m f" "?sz \<le> k" "heap_backed mb s'"
        "room (heap_start s) (us @ (k, True) # vs)"
      using malloc_grown [OF ok [unfolded bs] vm _ n(1) r] False bs by auto
    have "live (heap_start s) (us @ (k, True) # vs) = live (heap_start s) bs"
      unfolding g(4) bs by (rule live_grown)
    then show ?thesis using g by blast
  qed
  then obtain s' us m vs where s': "malloc mb n s = Some (after (heap_start s) us + 48, s')"
      "heap_ok mb s' (us @ taken ?sz m @ vs)" "heap_start s' = heap_start s" "heap_backed mb s'"
      "?sz \<le> m" "room (heap_start s) (us @ (m, True) # vs)"
      "live (heap_start s) (us @ (m, True) # vs) = live (heap_start s) bs" by blast
  obtain k where k: "?sz \<le> k" "(after (heap_start s) us + 48, k) \<notin> live (heap_start s) bs"
      "live (heap_start s) (us @ taken ?sz m @ vs) = insert (after (heap_start s) us + 48, k) (live (heap_start s) bs)"
    using live_after_taking [OF s'(6,5)] unfolding s'(7) by blast
  have "unat (after (heap_start s) us + 48) = unat (after (heap_start s) us) + 48"
    using block_order(5) [OF s'(6) refl] unat_lt64 [of "after (heap_start s) us + 48 + m"]
    by (subst unat_add64) simp_all
  then have "after (heap_start s) us + 48 \<noteq> 0" by auto
  moreover have "n \<le> k" using k(1) round16_bounds(1) [OF n(2)] by (rule order_trans [rotated])
  ultimately show ?thesis
    using s' k heap_live_eq [OF ok] heap_live_eq [OF s'(2)] by (auto simp: heap_sound_def)
qed

lemma free_sound:
  assumes sound: "heap_sound mb s" and live: "(p, k) \<in> heap_live mb s"
  shows "heap_sound mb (free mb p s) \<and> heap_live mb (free mb p s) = heap_live mb s - {(p, k)}"
proof -
  obtain bs where ok: "heap_ok mb s bs" and vm: "heap_backed mb s" using sound by (auto simp: heap_sound_def)
  obtain xs ys where bs: "bs = xs @ (k, False) # ys" "p = after (heap_start s) xs + 48"
    using live_decomp live heap_live_eq [OF ok] by blast
  have room: "room (heap_start s) (xs @ (k, False) # ys)" using ok bs by (simp add: heap_ok_def heap_shape_def)
  note free = free_blocks [OF ok [unfolded bs(1)], folded bs(2)]
  then show ?thesis using vm same_window_backed [OF same_window_free, of mb mb p s] live_freed [OF room]
      heap_live_eq [OF ok] heap_live_eq [of mb "free mb p s"] bs
    by (auto simp: heap_sound_def)
qed

lemma heap_apart:
  assumes "heap_sound mb s" "(p, k) \<in> heap_live mb s" "(q, j) \<in> heap_live mb s"
  shows "(p, k) = (q, j) \<or> unat p + unat k \<le> unat q \<or> unat q + unat j \<le> unat p"
proof -
  obtain bs where ok: "heap_ok mb s bs" using assms(1) by (auto simp: heap_sound_def)
  then have "room (heap_start s) bs" by (simp add: heap_ok_def heap_shape_def)
  from live_disjoint [OF this] show ?thesis using assms(2,3) heap_live_eq [OF ok] by blast
qed

lemma heap_live_unique: "heap_sound mb s \<Longrightarrow> (p, k) \<in> heap_live mb s \<Longrightarrow> (p, j) \<in> heap_live mb s \<Longrightarrow> k = j"
  using live_unique heap_live_eq by (auto simp: heap_sound_def heap_ok_def heap_shape_def)

text \<open>Where live blocks are: within the window of the heap, above its base.\<close>

lemma live_window:
  assumes sound: "heap_sound mb s" and live: "(p, k) \<in> heap_live mb s"
  shows "unat (HEAP_BASE mb) \<le> unat (heap_start s) \<and> unat (heap_start s) \<le> unat p \<and>
    unat p + unat k \<le> unat (LastHeapAddress s)"
proof -
  obtain bs where ok: "heap_ok mb s bs" using sound by (auto simp: heap_sound_def)
  then have room: "room (heap_start s) bs" and fin: "LastHeapAddress s = after (heap_start s) bs"
      "HEAP_BASE mb \<le> heap_start s"
    by (simp_all add: heap_ok_def heap_shape_def)
  have "(p, k) \<in> live (heap_start s) bs" using live heap_live_eq [OF ok] by simp
  from live_range [OF room this] show ?thesis using unat_after [OF room] fin by (simp add: word_le_nat_alt)
qed

interpretation kernel_heap: allocator "malloc mb" "free mb" "heap_sound mb" "heap_live mb" heap_room for mb
proof
  fix s n
  assume "heap_sound mb s" "heap_room n s"
  then show "\<exists>p s' k. malloc mb n s = Some (p, s') \<and> heap_sound mb s' \<and> n \<le> k \<and> p \<noteq> 0 \<and>
      (p, k) \<notin> heap_live mb s \<and> heap_live mb s' = insert (p, k) (heap_live mb s)"
    by (rule malloc_sound)
next
  fix s p k q j
  assume "heap_sound mb s" "(p, k) \<in> heap_live mb s"
  then show "heap_sound mb (free mb p s) \<and> heap_live mb (free mb p s) = heap_live mb s - {(p, k)}"
    by (rule free_sound)
  assume "(q, j) \<in> heap_live mb s"
  with \<open>heap_sound mb s\<close> \<open>(p, k) \<in> heap_live mb s\<close>
  show "(p, k) = (q, j) \<or> unat p + unat k \<le> unat q \<or> unat q + unat j \<le> unat p"
    by (rule heap_apart)
qed

subsection \<open>Properties of the heap\<close>

definition example_vm :: "PageTableManager \<times> page_mem" where
  "example_vm = (example_ptm, example_mem\<lparr>frames := example_pfa\<lparr>total_pages := 64\<rparr>\<rparr>)"

lemma example_vm_free: "free_frame_set (frames (snd example_vm)) = (\<lambda>i. i * 0x1000) ` {i. 2 \<le> i \<and> i < 64}"
proof -
  have "frame_locked (example_pfa\<lparr>total_pages := 64\<rparr>) i \<longleftrightarrow> i < 2" for i
    using example_locked [of i] by (simp add: frame_locked_def)
  then show ?thesis by (auto simp: free_frame_set_def example_vm_def example_pfa_def not_less)
qed

lemma example_vm_credit: "st_credit example_vm = 62"
proof -
  let ?S = "{i :: u64. 2 \<le> i \<and> i < 64}"
  have S: "unat i * 4096 < 18446744073709551616" "2 \<le> unat i \<and> unat i < 64" if "i \<in> ?S" for i
    using that by (simp_all add: word_le_nat_alt word_less_nat_alt)
  have "card ((\<lambda>i. i * 0x1000) ` ?S) = card ?S"
  proof (rule card_image, rule inj_onI)
    fix i j assume ij: "i \<in> ?S" "j \<in> ?S" and e: "i * 0x1000 = j * 0x1000"
    have "unat i * 4096 = unat (i * 0x1000)" by (rule unat_frame_addr [OF S(1) [OF ij(1)], symmetric])
    also have "\<dots> = unat j * 4096" unfolding e by (rule unat_frame_addr [OF S(1) [OF ij(2)]])
    finally have "unat i = unat j" by simp
    then show "i = j" by (simp add: word_unat_eq_iff)
  qed
  moreover have nums: "unat ` ?S = {2 ..< 64}"
  proof (intro set_eqI iffI)
    fix n assume "n \<in> {2 ..< 64 :: nat}"
    moreover from this have "unat (of_nat n :: u64) = n" by (intro unat_of_nat64) simp
    ultimately show "n \<in> unat ` ?S"
      by (intro image_eqI [of _ _ "of_nat n"]) (simp_all add: word_le_nat_alt word_less_nat_alt)
  next
    fix n assume "n \<in> unat ` ?S"
    then show "n \<in> {2 ..< 64}" using S(2) by auto
  qed
  moreover have "card (unat ` ?S) = card ?S"
    by (rule card_image) (simp add: inj_on_def word_unat_eq_iff)
  ultimately have "card ((\<lambda>i. i * 0x1000) ` ?S) = card {2 ..< 64 :: nat}" by (simp only: nums)
  then show ?thesis by (simp only: st_credit_def example_vm_free card_atLeastLessThan)
qed

lemma example_vm_ok: "st_ok 0xffff800000000000 example_vm"
proof -
  have "p \<noteq> 0x1000" if p: "p \<in> free_frame_set (frames (snd example_vm))" for p
  proof
    assume "p = 0x1000"
    then obtain i :: u64 where i: "i * 0x1000 = 0x1000" "2 \<le> i" "i < 64"
      using p unfolding example_vm_free by auto
    then have "unat (i * 0x1000) = unat i * 4096" by (intro unat_frame_addr) (simp add: word_less_nat_alt)
    then show False using i by (simp add: word_le_nat_alt)
  qed
  then show ?thesis using example_ok
    by (auto simp: st_ok_def pt_ok_def tree_def unused_def table_at_zero pfa_ok_def example_mem_def
        example_ptm_def example_vm_def)
qed

text \<open>A heap of one page: the window is grown from nothing by one request.\<close>

definition one_page :: "PageTableManager \<times> page_mem" where
  "one_page =
     (let (ptm, m) = example_vm; (page, f) = RequestPage 0xffff800000000000 (frames m)
      in MapMemory 0xffff800000000000 0xffff900000000000 (virtual_to_physical 0xffff800000000000 page)
           (ptm, m\<lparr>frames := f\<rparr>))"

lemma one_page_backed:
  "backed 0xffff800000000000 0xffff900000000000 0xffff900000001000 one_page \<and> 58 \<le> st_credit one_page"
proof -
  let ?mb = "0xffff800000000000 :: u64" and ?base = "0xffff900000000000 :: u64"
  obtain ptm m where vm: "example_vm = (ptm, m)" by force
  obtain page f where r: "RequestPage ?mb (frames m) = (page, f)" by force
  have start: "backed ?mb ?base ?base (ptm, m)"
  proof (rule backed_start)
    show "st_ok ?mb (ptm, m)" using example_vm_ok by (simp add: vm)
    show "4096 dvd unat ?base" by (simp add: dvd_eq_mod_eq_0)
    have "total_pages (frames (snd example_vm)) = 64" by (simp add: example_vm_def)
    then show "unat (total_pages (frames (snd (ptm, m)))) \<le> 4294967296" by (simp add: vm)
  qed (simp_all add: HEAP_BASE_def)
  have "4 \<le> card (free_frame_set (frames m))" using example_vm_credit by (simp add: st_credit_def vm)
  from map_fresh_page [OF start this _ r disjI1 [OF refl] refl] example_vm_credit show ?thesis
    by (simp add: one_page_def vm r st_credit_def)
qed

definition example_heap :: heap_state where
  "example_heap = \<lparr>headers = (\<lambda>_. zero_header)(0xffff900000000000 :=
       \<lparr>hdr_magic = heap_magic, hdr_previous = 0, hdr_next = 0, hdr_size = 0xfd0, hdr_free = True\<rparr>),
     heap_used = 0, heap_size = 0x1000, heap_start = 0xffff900000000000, heap_end = 0xffff900000000000,
     LastHeapAddress = 0xffff900000001000, heap_vm = one_page, cleared_pages = []\<rparr>"

lemma example_heap_ok: "heap_ok 0xffff800000000000 example_heap [(0xfd0, True)]"
proof -
  have "(16 :: nat) dvd 4048" "(16 :: nat) dvd 18446620654684438528" by presburger+
  then show ?thesis
    by (simp add: heap_ok_def heap_shape_def blocks_ok_def example_heap_def room_def link_def HEAP_BASE_def)
qed

lemma example_heap_sound: "heap_sound 0xffff800000000000 example_heap"
  using example_heap_ok one_page_backed by (auto simp: heap_sound_def heap_backed_def example_heap_def)

lemma example_heap_room:
  assumes "n \<noteq> 0" "n \<le> 10000"
  shows "heap_room n example_heap"
proof -
  have n: "unat n \<le> 10000" using assms(2) by (simp add: word_le_nat_alt)
  then have "unat (round16 n) \<le> 10015" using round16_bounds(3) [of n] by simp
  then have "growth_pages n \<le> 6" unfolding growth_pages_def by simp
  then show ?thesis using assms(1) n one_page_backed by (simp add: heap_room_def example_heap_def)
qed

text \<open>Every address of a live block is mapped, to a frame of its page alone.\<close>

lemma live_backed:
  assumes sound: "heap_sound mb s" and live: "(p, k) \<in> heap_live mb s"
    and a: "unat p \<le> unat a" "unat a < unat p + unat k"
  shows "page_backed mb a (heap_vm s)"
proof -
  have "heap_start s \<le> a" "a < LastHeapAddress s"
    using a live_window [OF sound live] by (simp_all add: word_le_nat_alt word_less_nat_alt)
  then show ?thesis using sound by (auto simp: heap_sound_def heap_backed_def backed_def)
qed

text \<open>C9: \<^verbatim>\<open>malloc\<close> on a sound heap with room to grow (the window ends far enough below the end of the
  address space, and four frames are free for every page the request may add, in case nothing
  fits) returns, never null, a block of at least the requested size that overlaps no live block;
  the heap stays sound and every live block stays live. Every address of the block is mapped to a
  frame of the machine that is neither free nor a page table, whether a free segment fits or the
  heap has to grow.\<close>

theorem malloc_fresh_block:
  assumes "heap_sound mb s" "heap_room n s"
  shows "\<exists>p s' k. malloc mb n s = Some (p, s') \<and> heap_sound mb s' \<and> p \<noteq> 0 \<and> n \<le> k \<and>
    heap_live mb s \<subseteq> heap_live mb s' \<and> (p, k) \<in> heap_live mb s' \<and>
    (\<forall>(q, j) \<in> heap_live mb s. unat p + unat k \<le> unat q \<or> unat q + unat j \<le> unat p) \<and>
    (\<forall>a. unat p \<le> unat a \<and> unat a < unat p + unat k \<longrightarrow> page_backed mb a (heap_vm s'))"
proof -
  obtain p s' k where r: "malloc mb n s = Some (p, s')" "heap_sound mb s'" "p \<noteq> 0" "n \<le> k"
      "heap_live mb s \<subseteq> heap_live mb s'" "(p, k) \<in> heap_live mb s'"
      "\<forall>(q, j) \<in> heap_live mb s. unat p + unat k \<le> unat q \<or> unat q + unat j \<le> unat p"
    using kernel_heap.alloc_fresh [OF assms] by blast
  moreover have "\<forall>a. unat p \<le> unat a \<and> unat a < unat p + unat k \<longrightarrow> page_backed mb a (heap_vm s')"
    using live_backed [OF r(2,6)] by blast
  ultimately show ?thesis by blast
qed

theorem malloc_fresh_block_witness:
  "\<exists>p s' k. malloc 0xffff800000000000 5000 example_heap = Some (p, s') \<and> p \<noteq> 0 \<and>
     5000 \<le> k \<and> (p, k) \<in> heap_live 0xffff800000000000 s' \<and>
     page_backed 0xffff800000000000 p (heap_vm s')"
proof -
  obtain p s' k where r: "malloc 0xffff800000000000 5000 example_heap = Some (p, s')" "p \<noteq> 0" "5000 \<le> k"
      "(p, k) \<in> heap_live 0xffff800000000000 s'"
      "\<forall>a. unat p \<le> unat a \<and> unat a < unat p + unat k \<longrightarrow> page_backed 0xffff800000000000 a (heap_vm s')"
    using malloc_fresh_block [OF example_heap_sound example_heap_room, of 5000] by auto
  moreover have "page_backed 0xffff800000000000 p (heap_vm s')"
    using r(5) [rule_format, of p] r(3) by (simp add: word_le_nat_alt)
  ultimately show ?thesis by blast
qed

text \<open>\<^verbatim>\<open>free\<close> of what \<^verbatim>\<open>malloc\<close> just returned leaves exactly the live blocks there were before.\<close>

theorem malloc_then_free:
  assumes "heap_sound mb s" "heap_room n s"
  shows "\<exists>p s'. malloc mb n s = Some (p, s') \<and> heap_sound mb (free mb p s') \<and>
    heap_live mb (free mb p s') = heap_live mb s"
  by (rule kernel_heap.alloc_dealloc [OF assms])

theorem malloc_then_free_witness:
  "\<exists>p s'. malloc 0xffff800000000000 100 example_heap = Some (p, s') \<and>
     heap_live 0xffff800000000000 (free 0xffff800000000000 p s') = {}"
proof -
  have "heap_live 0xffff800000000000 example_heap = {}" by (simp add: heap_live_eq [OF example_heap_ok])
  then show ?thesis using malloc_then_free [OF example_heap_sound example_heap_room, of 100] by auto
qed

text \<open>\<^verbatim>\<open>malloc\<close> takes the first free segment that is large enough, splits off the rest when more
  than a header is left, and rewrites the segment list, both link directions, the end of
  the heap and the usage counter consistently.\<close>

theorem malloc_first_fit:
  assumes "heap_ok mb s (us @ (n, True) # vs)" "\<forall>b \<in> set us. \<not> fits (round16 sz) b"
    and "round16 sz \<le> n" "sz \<noteq> 0"
  shows "\<exists>s'. malloc mb sz s = Some (after (heap_start s) us + 48, s') \<and>
    heap_ok mb s' (us @ (if round16 sz + 48 < n
      then [(round16 sz, False), (n - round16 sz - 48, True)] else [(n, False)]) @ vs)"
  using malloc_found [OF assms] unfolding taken_def by blast

theorem malloc_first_fit_witness:
  "\<exists>s'. malloc 0xffff800000000000 100 example_heap = Some (0xffff900000000030, s') \<and>
     heap_ok 0xffff800000000000 s' [(0x70, False), (0xf30, True)]"
  using malloc_first_fit [of "0xffff800000000000" example_heap "[]" "0xfd0" "[]" 100] example_heap_ok
  by (simp add: round16_def example_heap_def)

text \<open>C10: \<^verbatim>\<open>free\<close> marks the segment free and joins it with a free neighbour on either side, so that
  no two free segments are ever adjacent.\<close>

theorem free_coalesces:
  assumes "heap_ok mb s (xs @ (n, False) # ys)"
  shows "heap_ok mb (free mb (after (heap_start s) xs + 48) s) (freed xs n ys) \<and> coalesced (freed xs n ys)"
  using free_blocks [OF assms] by (simp add: heap_ok_def blocks_ok_def)

theorem free_coalesces_witness:
  "\<exists>s'. malloc 0xffff800000000000 100 example_heap = Some (0xffff900000000030, s') \<and>
     heap_ok 0xffff800000000000 (free 0xffff800000000000 0xffff900000000030 s') [(0xfd0, True)]"
proof -
  obtain s' where m: "malloc 0xffff800000000000 100 example_heap = Some (0xffff900000000030, s')"
      "heap_ok 0xffff800000000000 s' ([] @ (0x70, False) # [(0xf30, True)])" "heap_start s' = 0xffff900000000000"
    using malloc_found [of "0xffff800000000000" example_heap "[]" "0xfd0" "[]" 100] example_heap_ok
    by (auto simp: round16_def example_heap_def taken_def same_window_def)
  have "freed [] 0x70 [(0xf30, True)] = [(0xfd0, True)]" by (simp add: freed_def join_right_def join_left_def)
  then show ?thesis using free_coalesces [OF m(2)] m by simp
qed

text \<open>A request of more than 2^64 - 16 bytes is rounded up to 0 and succeeds: the caller gets a
  block of size 0 at the first free segment instead of null.\<close>

theorem malloc_huge_wraps:
  assumes "heap_ok mb s (us @ (n, True) # vs)" "\<forall>b \<in> set us. \<not> snd b" "48 < n"
    and "18446744073709551616 \<le> unat sz + 15"
  shows "\<exists>s'. malloc mb sz s = Some (after (heap_start s) us + 48, s') \<and>
    heap_ok mb s' (us @ (0, False) # (n - 48, True) # vs)"
proof -
  have r: "round16 sz = 0" by (rule round16_huge [OF assms(4)])
  have "sz \<noteq> 0" using assms(4) by auto
  then show ?thesis
    using malloc_found [OF assms(1), of sz] assms(2,3) by (auto simp: r fits_def taken_def)
qed

theorem malloc_huge_wraps_witness:
  "\<exists>s'. malloc 0xffff800000000000 0xfffffffffffffff8 example_heap = Some (0xffff900000000030, s')"
  using malloc_huge_wraps [of "0xffff800000000000" example_heap "[]" "0xfd0" "[]" "0xfffffffffffffff8"]
    example_heap_ok
  by (auto simp: example_heap_def)

text \<open>Merging writes no magic and no free flag.\<close>

lemma merge_forwards_keeps:
  "hdr_magic (headers (merge_forwards m s) a) = hdr_magic (headers s a) \<and>
   hdr_free (headers (merge_forwards m s) a) = hdr_free (headers s a)"
  by (simp add: merge_forwards_def upd_header_def Let_def)

lemma merge_backwards_keeps:
  "hdr_magic (headers (snd (merge_backwards m s)) a) = hdr_magic (headers s a) \<and>
   hdr_free (headers (snd (merge_backwards m s)) a) = hdr_free (headers s a)"
  by (simp add: merge_backwards_def upd_header_def Let_def)

text \<open>Freeing any pointer twice in a row changes nothing the second time, in whatever state the
  heap is: the header, even once it is merged into its neighbour, says that it is free.\<close>

theorem double_free_ignored: "free mb p (free mb p s) = free mb p s"
proof -
  let ?m = "p - SIZEOF_heap_header"
  have "free mb p s = s \<or> hdr_magic (headers (free mb p s) ?m) = heap_magic \<and> hdr_free (headers (free mb p s) ?m)"
    by (simp add: free_def Let_def merge_forwards_keeps merge_backwards_keeps upd_header_def)
  then show ?thesis
  proof
    assume "hdr_magic (headers (free mb p s) ?m) = heap_magic \<and> hdr_free (headers (free mb p s) ?m)"
    then show ?thesis by (simp add: free_def [of mb p "free mb p s"] Let_def)
  qed simp
qed

subsection \<open>Initialisation\<close>

definition init_step :: "u64 \<Rightarrow> heap_state \<Rightarrow> heap_state" where
  "init_step mb s =
     (let (page, s1) = request_heap_page mb s; s2 = map_heap_page mb page s1
      in s2\<lparr>LastHeapAddress := LastHeapAddress s2 + 0x1000, heap_size := heap_size s2 + 0x1000\<rparr>)"

lemma init_loop_step:
  assumes "vm_sound mb (heap_vm s)"
  shows "init_loop mb sz off s = (if off < sz then init_loop mb sz (off + 0x1000) (init_step mb s) else Some s)"
    and "vm_sound mb (heap_vm (init_step mb s))"
proof -
  obtain ptm m where vm: "heap_vm s = (ptm, m)" by force
  obtain page f where r: "RequestPage mb (frames m) = (page, f)" by force
  have "page \<noteq> 0" using RequestPage_not_null [of mb "frames m"] assms by (simp add: vm_sound_def vm r)
  then show "init_loop mb sz off s = (if off < sz then init_loop mb sz (off + 0x1000) (init_step mb s) else Some s)"
    by (subst init_loop.simps) (simp add: init_step_def request_heap_page_def vm r Let_def)
  have "pfa_ok mb f" using pfa_source.ok_request [of mb "frames m"] assms by (simp add: vm_sound_def vm r)
  then have "vm_sound mb (ptm, m\<lparr>frames := f\<rparr>)" by (simp add: vm_sound_def)
  then show "vm_sound mb (heap_vm (init_step mb s))" using MapMemory_sound
    by (simp add: init_step_def request_heap_page_def map_heap_page_def vm r Let_def)
qed

lemma init_step_frame:
  "\<exists>v. init_step mb s = s\<lparr>heap_vm := v, LastHeapAddress := LastHeapAddress s + 0x1000,
     heap_size := heap_size s + 0x1000\<rparr>"
proof -
  obtain ptm m where vm: "heap_vm s = (ptm, m)" by force
  obtain page f where r: "RequestPage mb (frames m) = (page, f)" by force
  show ?thesis
    by (intro exI [of _ "MapMemory mb (LastHeapAddress s) (virtual_to_physical mb page) (ptm, m\<lparr>frames := f\<rparr>)"])
      (simp add: init_step_def request_heap_page_def map_heap_page_def vm r)
qed

lemma init_step_backed:
  assumes win: "heap_backed mb s" and free: "4 \<le> st_credit (heap_vm s)"
    and room: "unat (LastHeapAddress s) + 4096 < 18446744073709551616"
  shows "heap_backed mb (init_step mb s) \<and> st_credit (heap_vm s) \<le> st_credit (heap_vm (init_step mb s)) + 4"
proof -
  obtain ptm m where vm: "heap_vm s = (ptm, m)" by force
  obtain page f where r: "RequestPage mb (frames m) = (page, f)" by force
  define v where "v = MapMemory mb (LastHeapAddress s) (virtual_to_physical mb page) (ptm, m\<lparr>frames := f\<rparr>)"
  have win': "backed mb (heap_start s) (LastHeapAddress s) (ptm, m)" using win by (simp add: heap_backed_def vm)
  have "4 \<le> card (free_frame_set (frames m))" using free by (simp add: st_credit_def vm)
  from map_fresh_page [OF win' this room r disjI1 [OF refl], of v]
  have "backed mb (heap_start s) (LastHeapAddress s + 0x1000) v" "st_credit (ptm, m) \<le> st_credit v + 4"
    by (simp_all add: st_credit_def v_def)
  moreover have "init_step mb s = s\<lparr>heap_vm := v, LastHeapAddress := LastHeapAddress s + 0x1000,
      heap_size := heap_size s + 0x1000\<rparr>"
    by (simp add: init_step_def request_heap_page_def map_heap_page_def v_def vm r Let_def)
  ultimately show ?thesis using win by (simp add: heap_backed_def vm)
qed

lemma init_loop_spec:
  "heap_backed mb s \<Longrightarrow> unat sz + 4096 < 18446744073709551616 \<Longrightarrow>
   k = (unat sz - unat off + 4095) div 4096 \<Longrightarrow>
   unat (LastHeapAddress s) + 4096 * k < 18446744073709551616 \<Longrightarrow> 4 * k \<le> st_credit (heap_vm s) \<Longrightarrow>
   \<exists>v. init_loop mb sz off s = Some (s\<lparr>heap_vm := v, LastHeapAddress := LastHeapAddress s + of_nat k * 0x1000,
     heap_size := heap_size s + of_nat k * 0x1000\<rparr>) \<and>
     heap_backed mb (s\<lparr>heap_vm := v, LastHeapAddress := LastHeapAddress s + of_nat k * 0x1000,
     heap_size := heap_size s + of_nat k * 0x1000\<rparr>)"
proof (induction k arbitrary: off s)
  case 0
  then have "\<not> off < sz" by (simp add: word_less_nat_alt)
  then have "init_loop mb sz off s = Some s" using 0 backed_sound by (simp add: init_loop_step(1))
  then show ?case using 0(1) by (intro exI [of _ "heap_vm s"]) simp
next
  case (Suc k)
  have off: "off < sz" using Suc.prems(3) by (cases "unat sz \<le> unat off") (auto simp: word_less_nat_alt)
  then have off': "unat (off + 0x1000) = unat off + 4096"
    using Suc.prems(2) by (simp add: unat_add64 word_less_nat_alt)
  have k: "k = (unat sz - unat (off + 0x1000) + 4095) div 4096"
    unfolding off' using pages_step [OF Suc.prems(3)] by simp
  have fit: "unat (LastHeapAddress s) + 4096 < 18446744073709551616" using Suc.prems(4) by simp
  have step: "heap_backed mb (init_step mb s)" "4 * k \<le> st_credit (heap_vm (init_step mb s))"
    using init_step_backed [OF Suc.prems(1) _ fit] Suc.prems(5) by auto
  obtain v where v: "init_step mb s = s\<lparr>heap_vm := v, LastHeapAddress := LastHeapAddress s + 0x1000,
      heap_size := heap_size s + 0x1000\<rparr>" using init_step_frame by blast
  have "unat (LastHeapAddress (init_step mb s)) + 4096 * k < 18446744073709551616"
    using Suc.prems(4) by (simp add: v unat_add64)
  from Suc.IH [OF step(1) Suc.prems(2) k this step(2)]
  obtain w where w: "init_loop mb sz (off + 0x1000) (init_step mb s) = Some ((init_step mb s)\<lparr>heap_vm := w,
      LastHeapAddress := LastHeapAddress (init_step mb s) + of_nat k * 0x1000,
      heap_size := heap_size (init_step mb s) + of_nat k * 0x1000\<rparr>)"
      "heap_backed mb ((init_step mb s)\<lparr>heap_vm := w,
      LastHeapAddress := LastHeapAddress (init_step mb s) + of_nat k * 0x1000,
      heap_size := heap_size (init_step mb s) + of_nat k * 0x1000\<rparr>)" by blast
  moreover have "init_loop mb sz off s = init_loop mb sz (off + 0x1000) (init_step mb s)"
    using off by (simp only: init_loop_step(1) [OF backed_sound [OF Suc.prems(1)]] if_True)
  ultimately show ?case unfolding v grown_shift by (intro exI [of _ w]) simp
qed

text \<open>\<^verbatim>\<open>InitializeHeap\<close>, with four free frames for every page, returns and leaves a sound heap of the
  size rounded up to whole pages: one free segment that fills it, linked to nothing, nothing used,
  every page on a frame of its own.\<close>

theorem InitializeHeap_sound:
  assumes "backed mb base base (heap_vm s)" "cleared_pages s = []" "HEAP_BASE mb \<le> base" "0 < sz"
    and "unat base + unat sz + 4096 < 18446744073709551616"
    and "4 * ((unat sz + 4095) div 4096) \<le> st_credit (heap_vm s)"
  shows "\<exists>s'. InitializeHeap mb base sz s = Some s' \<and>
    heap_ok mb s' [(of_nat ((unat sz + 4095) div 4096) * 0x1000 - 48, True)] \<and> heap_used s' = 0 \<and>
    heap_sound mb s'"
proof -
  have base: "0 < base" "16 dvd unat base" "4096 dvd unat base"
    using assms(1) dvd_trans [of 16 4096 "unat base"] by (auto simp: backed_def word_less_nat_alt word_le_nat_alt)
  define k where "k = (unat sz + 4095) div 4096"
  define K where "K = of_nat k * (0x1000 :: u64)"
  let ?s = "s\<lparr>LastHeapAddress := base, heap_start := base, heap_end := base, heap_used := 0, heap_size := 0\<rparr>"
  have bounds: "unat sz \<le> 4096 * k" "4096 * k \<le> unat sz + 4095" unfolding k_def using pages_bounds by blast+
  have K: "unat K = 4096 * k" unfolding K_def using bounds(2) assms(5) unat_of_nat64 [of k]
    by (subst unat_mul64) simp_all
  have pos: "0 < k" using assms(4) bounds(1) by (cases k) (auto simp: word_less_nat_alt)
  have K48: "unat (K - 48) = 4096 * k - 48" using K pos by (subst unat_sub64) (simp_all add: word_le_nat_alt)
  obtain v where v: "init_loop mb sz 0 ?s = Some (?s\<lparr>heap_vm := v, LastHeapAddress := base + K, heap_size := K\<rparr>)"
    and v': "heap_backed mb (?s\<lparr>heap_vm := v, LastHeapAddress := base + K, heap_size := K\<rparr>)"
  proof -
    have "heap_backed mb ?s" using assms(1,2) by (simp add: heap_backed_def)
    moreover have "k = (unat sz - unat (0 :: u64) + 4095) div 4096" by (simp add: k_def)
    moreover have "unat (LastHeapAddress ?s) + 4096 * k < 18446744073709551616" "unat sz + 4096 < 18446744073709551616"
        "4 * k \<le> st_credit (heap_vm ?s)"
      using bounds(2) assms(5,6) by (simp_all add: k_def)
    ultimately show ?thesis using init_loop_spec [of mb ?s sz k 0] that by (fastforce simp: K_def)
  qed
  define s' where "s' = upd_header base (\<lambda>h. h\<lparr>hdr_size := K - 48, hdr_free := True,
      hdr_previous := 0, hdr_next := 0, hdr_magic := heap_magic\<rparr>)
    (?s\<lparr>heap_vm := v, LastHeapAddress := base + K, heap_size := K, headers := zero_headers base K (headers s)\<rparr>)"
  have init: "InitializeHeap mb base sz s = Some s'"
    using v by (simp add: InitializeHeap_def s'_def SIZEOF_heap_header_def)
  have "room base [(K - 48, True)]" using K48 bounds assms(5) by (simp add: room_def)
  moreover have "16 dvd unat (K - 48)" unfolding K48 using page_dvd [of k] by (intro dvd_diff_nat) simp_all
  moreover have "K = of_nat (blen [(K - 48, True)])"
  proof -
    have "blen [(K - 48, True)] = unat K" using K48 K pos by simp
    then show ?thesis by simp
  qed
  ultimately have ok: "heap_ok mb s' [(K - 48, True)]" using assms(3) base
    by (simp add: heap_ok_def heap_shape_def blocks_ok_def s'_def upd_header_def link_def)
  moreover have "heap_backed mb s'" using v' by (simp add: heap_backed_def s'_def upd_header_def)
  ultimately have "heap_sound mb s'" by (auto simp: heap_sound_def)
  then show ?thesis using init ok by (simp add: K_def k_def s'_def upd_header_def)
qed

theorem InitializeHeap_sound_witness:
  "\<exists>s'. InitializeHeap 0xffff800000000000 0xffff900000000000 0x1800 (example_heap\<lparr>heap_vm := example_vm\<rparr>) = Some s' \<and>
     heap_ok 0xffff800000000000 s' [(0x1fd0, True)] \<and> heap_sound 0xffff800000000000 s'"
proof -
  have "backed 0xffff800000000000 0xffff900000000000 0xffff900000000000 example_vm"
  proof (rule backed_start [OF example_vm_ok])
    show "unat (total_pages (frames (snd example_vm))) \<le> 4294967296" by (simp add: example_vm_def)
  qed (simp_all add: HEAP_BASE_def dvd_eq_mod_eq_0)
  then show ?thesis
    using InitializeHeap_sound [of "0xffff800000000000" "0xffff900000000000" "example_heap\<lparr>heap_vm := example_vm\<rparr>" "0x1800"]
      example_vm_credit
    by (auto simp: HEAP_BASE_def example_heap_def)
qed

end
