(* ===== verification/Sync.thy ===== *)
theory Sync
  imports Prelude
begin

text \<open>
  The locks of \<^verbatim>\<open>kernel/src/scheduling\<close>: the spinlock (\<^verbatim>\<open>spinlock.cpp\<close>), as a step relation over
  any number of processors, one rule per atomic action of the code; the mutex (\<^verbatim>\<open>mutex.cpp\<close>)
  and the semaphore (\<^verbatim>\<open>semaphore.cpp\<close>), whose critical sections are steps because they run
  under their spinlock. Time and what other tasks do between two attempts reach a waiting
  loop through an environment: what it sees in its \<open>k\<close>-th turn.
\<close>

subsection \<open>The spinlock\<close>

text \<open>Where a processor is in \<^verbatim>\<open>spin_lock\<close> and \<^verbatim>\<open>spin_unlock\<close>: outside of both, behind \<^verbatim>\<open>get_cpu_flags\<close>,
  behind \<^verbatim>\<open>cli\<close> and in the loop, in the critical section, or behind the releasing store with its
  flags not yet set. \<open>lock_flags\<close> is the local variable \<^verbatim>\<open>flags\<close>, which \<^verbatim>\<open>spin_lock\<close> returns and its
  caller hands to \<^verbatim>\<open>spin_unlock\<close>.\<close>

datatype spin_pc = Outside | FlagsRead | Spinning | Holding | Released

record cpu =
  spin_pc :: spin_pc
  cpu_flags :: u64
  lock_flags :: u64

record spin_sys =
  spinlock :: int
  cpus :: "nat \<Rightarrow> cpu"

definition FLAG_IF :: u64 where "FLAG_IF = 0x200"

definition cli :: "u64 \<Rightarrow> u64" where
  "cli flags = flags AND NOT FLAG_IF"

text \<open>The atomic compare-and-exchange of 0 by 1: success and the new value.\<close>

definition compare_exchange :: "int \<Rightarrow> int \<Rightarrow> int \<Rightarrow> bool \<times> int" where
  "compare_exchange lock expected desired = (if lock = expected then (True, desired) else (False, lock))"

definition set_cpu :: "nat \<Rightarrow> cpu \<Rightarrow> spin_sys \<Rightarrow> spin_sys" where
  "set_cpu i c s = s\<lparr>cpus := (cpus s)(i := c)\<rparr>"

text \<open>One instruction of processor \<open>i\<close>.\<close>

inductive spin_step :: "nat \<Rightarrow> spin_sys \<Rightarrow> spin_sys \<Rightarrow> bool" where
  read_flags: "c = cpus s i \<Longrightarrow> spin_pc c = Outside \<Longrightarrow>
    spin_step i s (set_cpu i (c\<lparr>spin_pc := FlagsRead, lock_flags := cpu_flags c\<rparr>) s)"
| disable: "c = cpus s i \<Longrightarrow> spin_pc c = FlagsRead \<Longrightarrow>
    spin_step i s (set_cpu i (c\<lparr>spin_pc := Spinning, cpu_flags := cli (cpu_flags c)\<rparr>) s)"
| acquire: "c = cpus s i \<Longrightarrow> spin_pc c = Spinning \<Longrightarrow> compare_exchange (spinlock s) 0 1 = (True, l) \<Longrightarrow>
    spin_step i s (set_cpu i (c\<lparr>spin_pc := Holding\<rparr>) (s\<lparr>spinlock := l\<rparr>))"
| pause: "c = cpus s i \<Longrightarrow> spin_pc c = Spinning \<Longrightarrow> compare_exchange (spinlock s) 0 1 = (False, l) \<Longrightarrow>
    spin_step i s s"
| release: "c = cpus s i \<Longrightarrow> spin_pc c = Holding \<Longrightarrow>
    spin_step i s (set_cpu i (c\<lparr>spin_pc := Released\<rparr>) (s\<lparr>spinlock := 0\<rparr>))"
| restore: "c = cpus s i \<Longrightarrow> spin_pc c = Released \<Longrightarrow>
    spin_step i s (set_cpu i (c\<lparr>spin_pc := Outside, cpu_flags := lock_flags c\<rparr>) s)"

inductive_cases spin_stepE: "spin_step i s t"

text \<open>Outside the lock's code a processor may change its flags at will.\<close>

inductive spin_env :: "spin_sys \<Rightarrow> spin_sys \<Rightarrow> bool" where
  "spin_pc (cpus s i) = Outside \<Longrightarrow> spin_env s (set_cpu i ((cpus s i)\<lparr>cpu_flags := f\<rparr>) s)"

inductive spin_reach :: "spin_sys \<Rightarrow> bool" where
  start: "spinlock s = 0 \<Longrightarrow> (\<forall>i. spin_pc (cpus s i) = Outside) \<Longrightarrow> spin_reach s"
| step: "spin_reach s \<Longrightarrow> spin_step i s t \<Longrightarrow> spin_reach t"
| env: "spin_reach s \<Longrightarrow> spin_env s t \<Longrightarrow> spin_reach t"

text \<open>A session of processor \<open>i\<close>: it calls \<^verbatim>\<open>spin_lock\<close> in \<open>r\<close>, and from then to \<open>s\<close> it has not returned
  from \<^verbatim>\<open>spin_unlock\<close>, whatever the other processors did in between.\<close>

inductive lock_session :: "nat \<Rightarrow> spin_sys \<Rightarrow> spin_sys \<Rightarrow> bool" where
  calls: "spin_pc (cpus r i) = Outside \<Longrightarrow> spin_step i r s \<Longrightarrow> lock_session i r s"
| goes_on: "lock_session i r s \<Longrightarrow> spin_step j s t \<Longrightarrow> spin_pc (cpus t i) \<noteq> Outside \<Longrightarrow> lock_session i r t"
| others: "lock_session i r s \<Longrightarrow> spin_env s t \<Longrightarrow> lock_session i r t"

text \<open>The invariant ties the lock word to the processors.\<close>

definition spin_inv :: "spin_sys \<Rightarrow> bool" where
  "spin_inv s \<longleftrightarrow> (spinlock s = 0 \<or> spinlock s = 1) \<and>
     (\<forall>i. spin_pc (cpus s i) = Holding \<longrightarrow> spinlock s = 1) \<and>
     (\<forall>i j. spin_pc (cpus s i) = Holding \<longrightarrow> spin_pc (cpus s j) = Holding \<longrightarrow> i = j) \<and>
     (spinlock s = 1 \<longrightarrow> (\<exists>i. spin_pc (cpus s i) = Holding)) \<and>
     (\<forall>i. spin_pc (cpus s i) \<in> {Spinning, Holding, Released} \<longrightarrow> cpu_flags (cpus s i) AND FLAG_IF = 0)"

lemmas spin_defs = spin_inv_def set_cpu_def compare_exchange_def

lemma cli_off [simp]: "cli f AND FLAG_IF = 0"
  by (rule bit_eqI) (auto simp: cli_def bit_and_iff bit_not_iff)

lemma spin_step_inv: "spin_step i s t \<Longrightarrow> spin_inv s \<Longrightarrow> spin_inv t"
proof (induction rule: spin_step.induct)
  case (acquire c s i l)
  then show ?case by (auto simp: spin_defs split: if_splits)
next
  case (read_flags c s i)
  then show ?case by (auto simp: spin_defs) (metis spin_pc.distinct)
next
  case (disable c s i)
  then show ?case by (auto simp: spin_defs) (metis spin_pc.distinct)
next
  case (release c s i)
  then show ?case by (auto simp: spin_defs)
next
  case (restore c s i)
  then show ?case by (auto simp: spin_defs) (metis spin_pc.distinct)
qed

lemma spin_env_inv: "spin_env s t \<Longrightarrow> spin_inv s \<Longrightarrow> spin_inv t"
  by (induction rule: spin_env.induct) (auto simp: spin_defs, metis spin_pc.distinct(5))

lemma spin_reach_inv: "spin_reach s \<Longrightarrow> spin_inv s"
proof (induction rule: spin_reach.induct)
  case (start s)
  then show ?case by (simp add: spin_inv_def)
qed (blast intro: spin_step_inv spin_env_inv)+

lemma session_flags:
  assumes "lock_session i r s"
  shows "spin_pc (cpus s i) \<noteq> Outside \<and> lock_flags (cpus s i) = cpu_flags (cpus r i)"
  using assms
proof (induction rule: lock_session.induct)
  case (calls r i s)
  from calls(2,1) show ?case by cases (auto simp: set_cpu_def)
next
  case (goes_on i r s j t)
  have pc: "spin_pc (cpus s i) \<noteq> Outside" and same: "lock_flags (cpus s i) = cpu_flags (cpus r i)"
    using goes_on.IH by simp_all
  from goes_on(2) pc show ?case
    by cases (use goes_on(3) same in \<open>auto simp: set_cpu_def\<close>)
next
  case (others i r s t)
  from others(2) show ?case by cases (use others.IH in \<open>auto simp: set_cpu_def\<close>)
qed

lemma session_ends:
  assumes "lock_session i r s" "spin_step j s t" "spin_pc (cpus t i) = Outside"
  shows "cpu_flags (cpus t i) = cpu_flags (cpus r i)"
  using assms(2) session_flags [OF assms(1)] assms(3) by cases (auto simp: set_cpu_def split: if_splits)

text \<open>C11: In every reachable state at most one processor is in the critical section, and from the
  moment it disables interrupts until it sets its flags again a processor runs with interrupts
  off. The step in which it returns from the unlock gives it back exactly the flags it had when
  it called the lock, whatever the other processors did in between, and that step is open to it
  once the lock is released.\<close>

theorem spinlock_mutual_exclusion:
  assumes "spin_reach r" and "lock_session i r s"
  shows "(spin_pc (cpus s i) = Holding \<longrightarrow> spin_pc (cpus s j) = Holding \<longrightarrow> i = j) \<and>
    (spin_pc (cpus s i) \<noteq> FlagsRead \<longrightarrow> cpu_flags (cpus s i) AND FLAG_IF = 0) \<and>
    (\<forall>k t. spin_step k s t \<and> spin_pc (cpus t i) = Outside \<longrightarrow> cpu_flags (cpus t i) = cpu_flags (cpus r i)) \<and>
    (spin_pc (cpus s i) = Released \<longrightarrow> (\<exists>t. spin_step i s t \<and> spin_pc (cpus t i) = Outside))"
proof -
  have "spin_reach s" using assms(2,1)
    by (induction rule: lock_session.induct) (blast intro: spin_reach.intros)+
  then have inv: "spin_inv s" by (rule spin_reach_inv)
  have out: "spin_pc (cpus s i) \<noteq> Outside" using session_flags [OF assms(2)] by blast
  then have off: "spin_pc (cpus s i) \<noteq> FlagsRead \<longrightarrow> cpu_flags (cpus s i) AND FLAG_IF = 0"
    using inv by (cases "spin_pc (cpus s i)") (auto simp: spin_inv_def)
  have "\<exists>t. spin_step i s t \<and> spin_pc (cpus t i) = Outside" if "spin_pc (cpus s i) = Released"
    using spin_step.restore [OF refl that] by (intro exI conjI, assumption) (simp add: set_cpu_def)
  moreover have "spin_pc (cpus s i) = Holding \<longrightarrow> spin_pc (cpus s j) = Holding \<longrightarrow> i = j"
    using inv by (simp add: spin_inv_def)
  ultimately show ?thesis using off session_ends [OF assms(2)] by blast
qed

text \<open>One processor that took the lock with interrupts enabled and another that spins.\<close>

definition spin_cpu :: cpu where
  "spin_cpu = \<lparr>spin_pc = Outside, cpu_flags = 0x202, lock_flags = 0\<rparr>"

definition example_spin :: "spin_pc \<Rightarrow> u64 \<Rightarrow> int \<Rightarrow> spin_sys" where
  "example_spin pc f l = set_cpu 0 \<lparr>spin_pc = pc, cpu_flags = f, lock_flags = 0x202\<rparr> \<lparr>spinlock = l, cpus = (\<lambda>_. spin_cpu)\<rparr>"

lemma example_session:
  "lock_session 0 \<lparr>spinlock = 0, cpus = (\<lambda>_. spin_cpu)\<rparr> (example_spin Released 2 0)"
proof -
  let ?r = "\<lparr>spinlock = 0, cpus = (\<lambda>_. spin_cpu)\<rparr>"
  have "spin_step 0 ?r (example_spin FlagsRead 0x202 0)"
    using spin_step.read_flags [of spin_cpu ?r 0] by (simp add: example_spin_def spin_cpu_def)
  then have s1: "lock_session 0 ?r (example_spin FlagsRead 0x202 0)"
    by (intro lock_session.calls) (simp_all add: spin_cpu_def)
  have s2: "spin_step 0 (example_spin FlagsRead 0x202 0) (example_spin Spinning 2 0)"
    using spin_step.disable [OF refl, of "example_spin FlagsRead 0x202 0" 0]
    by (simp add: example_spin_def set_cpu_def cli_def FLAG_IF_def)
  have s3: "spin_step 0 (example_spin Spinning 2 0) (example_spin Holding 2 1)"
    using spin_step.acquire [OF refl, of "example_spin Spinning 2 0" 0 1]
    by (simp add: example_spin_def set_cpu_def compare_exchange_def)
  have s4: "spin_step 0 (example_spin Holding 2 1) (example_spin Released 2 0)"
    using spin_step.release [OF refl, of "example_spin Holding 2 1" 0]
    by (simp add: example_spin_def set_cpu_def)
  have pc: "spin_pc (cpus (example_spin p f l) 0) = p" for p f l by (simp add: example_spin_def set_cpu_def)
  show ?thesis
    by (rule lock_session.goes_on [OF lock_session.goes_on [OF lock_session.goes_on [OF s1 s2] s3] s4])
      (simp_all add: pc)
qed

theorem spinlock_mutual_exclusion_witness:
  "\<exists>t. spin_step 0 (example_spin Released 2 0) t \<and> cpu_flags (cpus t 0) = 0x202"
proof -
  have "spin_reach \<lparr>spinlock = 0, cpus = (\<lambda>_. spin_cpu)\<rparr>"
    by (rule spin_reach.start) (simp_all add: spin_cpu_def)
  moreover have "spin_pc (cpus (example_spin Released 2 0) 0) = Released"
    by (simp add: example_spin_def set_cpu_def)
  moreover have "cpu_flags spin_cpu = 0x202" by (simp add: spin_cpu_def)
  ultimately show ?thesis
    using spinlock_mutual_exclusion [OF _ example_session, of 0] by (metis spin_sys.select_convs(2))
qed

subsection \<open>The mutex\<close>

text \<open>\<^verbatim>\<open>counter\<close> is the field of the task that the mutex uses; the mutex's own \<^verbatim>\<open>count\<close> is never used.\<close>

record mutex_t =
  owner_pid :: int
  mutex_count :: int

record mutex_task =
  pid :: int
  task_counter :: int

definition end_ticks :: "u64 \<Rightarrow> u64 \<Rightarrow> u64 \<Rightarrow> u64" where
  "end_ticks tick_count ticks_per_ms timeout = tick_count + timeout * ticks_per_ms"

definition may_own :: "mutex_task \<Rightarrow> mutex_t \<Rightarrow> bool" where
  "may_own self m \<longleftrightarrow> pid self = owner_pid m \<or> owner_pid m = -1"

text \<open>The waiting loop: the result and the turn in which it ends. In turn \<open>k\<close> the task sees the
  mutex and, afterwards, the tick count of \<open>env k\<close>.\<close>

partial_function (option) mutex_lock_loop ::
  "(nat \<Rightarrow> mutex_t \<times> u64) \<Rightarrow> u64 \<Rightarrow> nat \<Rightarrow> mutex_task \<Rightarrow> (bool \<times> nat \<times> mutex_task) option" where
  "mutex_lock_loop env stop k self =
     (if may_own self (fst (env k)) then Some (True, k, self\<lparr>task_counter := task_counter self + 1\<rparr>)
      else if stop \<le> snd (env k) then Some (False, k, self)
      else mutex_lock_loop env stop (k + 1) self)"

definition mutex_lock ::
  "(nat \<Rightarrow> mutex_t \<times> u64) \<Rightarrow> u64 \<Rightarrow> u64 \<Rightarrow> u64 \<Rightarrow> mutex_task option \<Rightarrow> (bool \<times> nat \<times> mutex_task option) option" where
  "mutex_lock env tick_count ticks_per_ms timeout self =
     (let stop = end_ticks tick_count ticks_per_ms timeout in
      case self of
        None \<Rightarrow> Some (False, 0, None)
      | Some t \<Rightarrow> map_option (\<lambda>(b, k, t'). (b, k, Some t')) (mutex_lock_loop env stop 0 t))"

definition mutex_unlock :: "mutex_task option \<Rightarrow> mutex_t \<Rightarrow> bool \<times> mutex_task option \<times> mutex_t" where
  "mutex_unlock self m =
     (case self of
        None \<Rightarrow> (False, None, m)
      | Some t \<Rightarrow>
          if may_own t m then
            let t1 = (if task_counter t > 0 then t\<lparr>task_counter := task_counter t - 1\<rparr> else t);
                m1 = (if task_counter t1 = 0 then m\<lparr>owner_pid := -1\<rparr> else m)
            in (True, Some t1, m1)
          else (False, self, m))"

text \<open>Any tasks lock and unlock one mutex, in any order; a locking turn is atomic.\<close>

record mutex_sys =
  the_mutex :: mutex_t
  mutex_tasks :: "nat \<Rightarrow> mutex_task"
  holders :: "nat set"

inductive mutex_step :: "mutex_sys \<Rightarrow> mutex_sys \<Rightarrow> bool" where
  lock: "mutex_lock_loop (\<lambda>_. (the_mutex s, now)) stop 0 (mutex_tasks s i) = Some (True, k, t) \<Longrightarrow>
    mutex_step s (s\<lparr>mutex_tasks := (mutex_tasks s)(i := t), holders := insert i (holders s)\<rparr>)"
| unlock: "i \<in> holders s \<Longrightarrow> mutex_unlock (Some (mutex_tasks s i)) (the_mutex s) = (True, Some t, m) \<Longrightarrow>
    mutex_step s (s\<lparr>mutex_tasks := (mutex_tasks s)(i := t), holders := holders s - {i}, the_mutex := m\<rparr>)"

inductive_simps mutex_step_iff: "mutex_step s t"

lemma mutex_step_free: "mutex_step s t \<Longrightarrow> owner_pid (the_mutex s) = -1 \<Longrightarrow> owner_pid (the_mutex t) = -1"
  by (induction rule: mutex_step.induct) (auto simp: mutex_unlock_def may_own_def Let_def split: if_splits)

text \<open>C12: The mutex excludes nobody. \<^verbatim>\<open>lock\<close> never records its caller as the owner, so a mutex that
  starts free stays free for ever, and in every reachable state any task, whoever holds the
  mutex, locks it at the first attempt.\<close>

theorem mutex_never_excludes:
  assumes "mutex_step\<^sup>*\<^sup>* s0 s" "owner_pid (the_mutex s0) = -1"
  shows "owner_pid (the_mutex s) = -1 \<and>
    (\<exists>t. mutex_step s t \<and> holders t = insert i (holders s))"
proof -
  have free: "owner_pid (the_mutex s) = -1"
    using assms by (induction rule: rtranclp_induct) (auto intro: mutex_step_free)
  let ?t = "(mutex_tasks s i)\<lparr>task_counter := task_counter (mutex_tasks s i) + 1\<rparr>"
  have "mutex_lock_loop (\<lambda>_. (the_mutex s, 0)) 0 0 (mutex_tasks s i) = Some (True, 0, ?t)"
    using free by (subst mutex_lock_loop.simps) (simp add: may_own_def)
  from mutex_step.lock [OF this] have
    "mutex_step s (s\<lparr>mutex_tasks := (mutex_tasks s)(i := ?t), holders := insert i (holders s)\<rparr>)" .
  moreover have "holders (s\<lparr>mutex_tasks := (mutex_tasks s)(i := ?t), holders := insert i (holders s)\<rparr>)
      = insert i (holders s)" by simp
  ultimately show ?thesis using free by blast
qed

definition example_mutex :: mutex_sys where
  "example_mutex = \<lparr>the_mutex = \<lparr>owner_pid = -1, mutex_count = 0\<rparr>,
     mutex_tasks = (\<lambda>i. \<lparr>pid = int i + 1, task_counter = 0\<rparr>), holders = {}\<rparr>"

theorem mutex_never_excludes_witness:
  "\<exists>s1 s2. mutex_step example_mutex s1 \<and> mutex_step s1 s2 \<and> holders s2 = {1, 2}"
proof -
  have free: "owner_pid (the_mutex example_mutex) = -1" "holders example_mutex = {}"
    by (simp_all add: example_mutex_def)
  obtain s1 where 1: "mutex_step example_mutex s1" "holders s1 = {1}"
    using mutex_never_excludes [OF rtranclp.rtrancl_refl free(1), of 1] free(2) by auto
  have "mutex_step\<^sup>*\<^sup>* example_mutex s1" using 1(1) by (rule r_into_rtranclp)
  then obtain s2 where "mutex_step s1 s2" "holders s2 = insert 2 (holders s1)"
    using mutex_never_excludes [OF _ free(1), of s1 2] by blast
  then have "mutex_step s1 s2" "holders s2 = {1, 2}" using 1(2) by auto
  then show ?thesis using 1(1) by blast
qed

subsection \<open>The semaphore\<close>

record semaphore_t =
  sem_count :: int

text \<open>The count is an \<^verbatim>\<open>int\<close>: one more \<^verbatim>\<open>post\<close> than it can hold is undefined behaviour, \<open>None\<close>.\<close>

definition sem_post :: "semaphore_t \<Rightarrow> semaphore_t option" where
  "sem_post s = (if sem_count s = 2147483647 then None else Some (s\<lparr>sem_count := sem_count s + 1\<rparr>))"

text \<open>One turn of the waiting loop under the lock.\<close>

definition sem_try :: "semaphore_t \<Rightarrow> bool \<times> semaphore_t" where
  "sem_try s = (if sem_count s > 0 then (True, s\<lparr>sem_count := sem_count s - 1\<rparr>) else (False, s))"

text \<open>\<^verbatim>\<open>wait\<close>: both branches, with and without a current task, are this loop; they differ in how
  they let time pass before a turn. In turn \<open>k\<close> it sees the semaphore and the tick count of \<open>env k\<close>.\<close>

partial_function (option) sem_wait_loop ::
  "(nat \<Rightarrow> semaphore_t \<times> u64) \<Rightarrow> u64 \<Rightarrow> nat \<Rightarrow> (bool \<times> nat \<times> semaphore_t) option" where
  "sem_wait_loop env stop k =
     (let t = sem_try (fst (env k)) in
      if fst t then Some (True, k, snd t)
      else if snd (env k) \<ge> stop then Some (False, k, snd t) else sem_wait_loop env stop (k + 1))"

definition sem_wait ::
  "(nat \<Rightarrow> semaphore_t \<times> u64) \<Rightarrow> u64 \<Rightarrow> u64 \<Rightarrow> u64 \<Rightarrow> (bool \<times> nat \<times> semaphore_t) option" where
  "sem_wait env tick_count ticks_per_ms timeout =
     sem_wait_loop env (end_ticks tick_count ticks_per_ms timeout) 0"

text \<open>A history of the semaphore: posts and waiting turns that succeed or fail.\<close>

datatype sem_event = Post | Took | Missed

inductive sem_run :: "semaphore_t \<Rightarrow> sem_event list \<Rightarrow> semaphore_t \<Rightarrow> bool" where
  finished: "sem_run s [] s"
| post: "sem_post s = Some s' \<Longrightarrow> sem_run s' es t \<Longrightarrow> sem_run s (Post # es) t"
| took: "sem_try s = (True, s') \<Longrightarrow> sem_run s' es t \<Longrightarrow> sem_run s (Took # es) t"
| missed: "sem_try s = (False, s') \<Longrightarrow> sem_run s' es t \<Longrightarrow> sem_run s (Missed # es) t"

code_pred sem_run .

text \<open>How often an event happened.\<close>

definition occurs :: "sem_event \<Rightarrow> sem_event list \<Rightarrow> int" where
  "occurs e es = int (count_list es e)"

lemma occurs_simps [simp]:
  "occurs e [] = 0" "occurs e (e' # es) = (if e = e' then 1 else 0) + occurs e es"
  by (simp_all add: occurs_def)

lemma sem_post_Some: "sem_post s = Some s' \<longleftrightarrow> sem_count s \<noteq> 2147483647 \<and> s' = s\<lparr>sem_count := sem_count s + 1\<rparr>"
  by (auto simp: sem_post_def)

text \<open>C13: The semaphore counts: after any history of posts and waiting turns its count is the initial
  one plus the posts minus the turns that took it, it never becomes negative, so never more turns
  succeed than there were units, and a turn fails only when the count is 0.\<close>

theorem semaphore_counts:
  assumes "sem_run s es t" "0 \<le> sem_count s"
  shows "sem_count t = sem_count s + occurs Post es - occurs Took es \<and> 0 \<le> sem_count t \<and>
    occurs Took es \<le> sem_count s + occurs Post es \<and>
    (fst (sem_try t) \<longleftrightarrow> occurs Took es < sem_count s + occurs Post es)"
  using assms
proof (induction rule: sem_run.induct)
  case (finished s)
  then show ?case by (simp add: sem_try_def)
next
  case (post s s' es t)
  then show ?case by (auto simp: sem_post_Some)
next
  case (took s s' es t)
  then have "s' = s\<lparr>sem_count := sem_count s - 1\<rparr>" "0 < sem_count s"
    by (auto simp: sem_try_def split: if_splits)
  then show ?case using took.IH by auto
next
  case (missed s s' es t)
  then have "s' = s" by (auto simp: sem_try_def split: if_splits)
  then show ?case using missed.IH missed.prems by auto
qed

theorem semaphore_counts_witness:
  "\<exists>t. sem_run \<lparr>sem_count = 0\<rparr> [Missed, Post, Post, Took] t \<and> sem_count t = 1"
proof -
  have r: "sem_run \<lparr>sem_count = 0\<rparr> [Missed, Post, Post, Took] \<lparr>sem_count = 1\<rparr>"
    by (rule sem_run.missed [of _ "\<lparr>sem_count = 0\<rparr>"]
          sem_run.post [of _ "\<lparr>sem_count = 1\<rparr>"] sem_run.post [of _ "\<lparr>sem_count = 2\<rparr>"]
          sem_run.took [of _ "\<lparr>sem_count = 1\<rparr>"] sem_run.finished
        | simp add: sem_try_def sem_post_def)+
  show ?thesis using r semaphore_counts [OF r] by (auto intro!: exI [of _ "\<lparr>sem_count = 1\<rparr>"])
qed

subsection \<open>The waiting loops end\<close>

lemma sem_wait_loop_ends:
  assumes "fst (sem_try (fst (env k))) \<or> stop \<le> snd (env k)" "j \<le> k"
  shows "\<exists>b i s. sem_wait_loop env stop j = Some (b, i, s) \<and> j \<le> i \<and> i \<le> k \<and>
    b = fst (sem_try (fst (env i))) \<and> s = snd (sem_try (fst (env i))) \<and>
    (b \<or> stop \<le> snd (env i)) \<and>
    (\<forall>i'. j \<le> i' \<longrightarrow> i' < i \<longrightarrow> \<not> fst (sem_try (fst (env i'))) \<and> snd (env i') < stop)"
  using assms(2)
proof (induction "k - j" arbitrary: j)
  case 0
  then have "j = k" by simp
  then show ?case using assms(1) by (subst sem_wait_loop.simps) (auto simp: Let_def)
next
  case (Suc n)
  show ?case
  proof (cases "fst (sem_try (fst (env j))) \<or> stop \<le> snd (env j)")
    case True
    then show ?thesis using Suc.prems by (subst sem_wait_loop.simps) (auto simp: Let_def)
  next
    case False
    then have step: "sem_wait_loop env stop j = sem_wait_loop env stop (j + 1)"
      by (subst sem_wait_loop.simps) (simp add: Let_def)
    have "n = k - (j + 1)" "j + 1 \<le> k" using Suc.hyps(2) by simp_all
    from Suc.hyps(1) [OF this] obtain b i s where
      r: "sem_wait_loop env stop (j + 1) = Some (b, i, s)" "j + 1 \<le> i" "i \<le> k"
        "b = fst (sem_try (fst (env i)))" "s = snd (sem_try (fst (env i)))" "b \<or> stop \<le> snd (env i)"
      and before: "\<forall>i'. j + 1 \<le> i' \<longrightarrow> i' < i \<longrightarrow> \<not> fst (sem_try (fst (env i'))) \<and> snd (env i') < stop"
      by blast
    have "\<forall>i'. j \<le> i' \<longrightarrow> i' < i \<longrightarrow> \<not> fst (sem_try (fst (env i'))) \<and> snd (env i') < stop"
    proof (intro allI impI)
      fix i' assume "j \<le> i'" "i' < i"
      then show "\<not> fst (sem_try (fst (env i'))) \<and> snd (env i') < stop"
        using before False by (cases "i' = j") auto
    qed
    then show ?thesis using r step by auto
  qed
qed

text \<open>C14: \<^verbatim>\<open>wait\<close> returns, as soon as some turn finds the count positive or the tick count past the
  deadline: it returns in the first such turn, with true and one unit taken exactly when that turn
  found the count positive, otherwise with false and the count untouched.\<close>

theorem sem_wait_ends:
  assumes "sem_count (fst (env k)) > 0 \<or> end_ticks now per_ms timeout \<le> snd (env k)"
  shows "\<exists>b i s. sem_wait env now per_ms timeout = Some (b, i, s) \<and> i \<le> k \<and>
    (b \<longleftrightarrow> sem_count (fst (env i)) > 0) \<and> sem_count s = sem_count (fst (env i)) - (if b then 1 else 0) \<and>
    (\<not> b \<longrightarrow> end_ticks now per_ms timeout \<le> snd (env i)) \<and>
    (\<forall>j < i. sem_count (fst (env j)) \<le> 0 \<and> snd (env j) < end_ticks now per_ms timeout)"
proof -
  have hit: "fst (sem_try s) \<longleftrightarrow> sem_count s > 0" for s by (simp add: sem_try_def)
  have got: "sem_count (snd (sem_try s)) = sem_count s - (if fst (sem_try s) then 1 else 0)" for s
    by (simp add: sem_try_def)
  obtain b i s where r: "sem_wait_loop env (end_ticks now per_ms timeout) 0 = Some (b, i, s)" "i \<le> k"
      "b = fst (sem_try (fst (env i)))" "s = snd (sem_try (fst (env i)))"
      "b \<or> end_ticks now per_ms timeout \<le> snd (env i)"
    and before: "\<forall>j. 0 \<le> j \<longrightarrow> j < i \<longrightarrow>
      \<not> fst (sem_try (fst (env j))) \<and> snd (env j) < end_ticks now per_ms timeout"
    using sem_wait_loop_ends [of env k "end_ticks now per_ms timeout" 0] assms hit by blast
  show ?thesis unfolding sem_wait_def
    by (rule exI [of _ b], rule exI [of _ i], rule exI [of _ s]) (use r before in \<open>auto simp: hit got not_less\<close>)
qed

theorem sem_wait_ends_witness:
  "\<exists>b i s. sem_wait (\<lambda>k. (\<lparr>sem_count = (if k = 2 then 1 else 0)\<rparr>, of_nat k)) 0 1 10 = Some (b, i, s) \<and> i \<le> 2"
  using sem_wait_ends [of "\<lambda>k. (\<lparr>sem_count = (if k = 2 then 1 else 0)\<rparr>, of_nat k)" 2 0 1 10] by auto

text \<open>The default timeout of -1 means no waiting at all: the deadline wraps around to the present
  minus one millisecond, so on a machine that has run that long a \<^verbatim>\<open>wait\<close> without a timeout on a
  semaphore at 0 fails in its first turn, whatever is posted later.\<close>

theorem sem_wait_forever_gives_up:
  assumes "sem_count (fst (env 0)) \<le> 0" "per_ms \<le> now" "now \<le> snd (env 0)"
  shows "sem_wait env now per_ms (-1) = Some (False, 0, fst (env 0))"
proof -
  have stop: "end_ticks now per_ms (-1) = now - per_ms" by (simp add: end_ticks_def)
  have "now - per_ms \<le> now"
    using assms(2) by (simp add: word_le_nat_alt unat_sub64)
  then show ?thesis using assms unfolding sem_wait_def stop
    by (subst sem_wait_loop.simps) (auto simp: sem_try_def Let_def)
qed

theorem sem_wait_forever_gives_up_witness:
  "sem_wait (\<lambda>k. (\<lparr>sem_count = (if k = 0 then 0 else 1)\<rparr>, 5000 + of_nat k)) 5000 1000 (-1)
     = Some (False, 0, \<lparr>sem_count = 0\<rparr>)"
  using sem_wait_forever_gives_up [of "\<lambda>k. (\<lparr>sem_count = (if k = 0 then 0 else 1)\<rparr>, 5000 + of_nat k)"
    1000 5000] by simp

end
