(* ===== verification/Pipes.thy ===== *)
theory Pipes
  imports Heap
begin

text \<open>
  Pipes (helpers/pipes.cpp) on the kernel heap: the buffer of a pipe is a heap block that grows by
  \<^verbatim>\<open>malloc\<close>, copy and \<^verbatim>\<open>free\<close>; reading takes bytes from the front and moves the rest down. The
  theory shows that a pipe is a first-in first-out queue of bytes, by the contract of the heap,
  and what its two ends see when one of them is closed.

  Each function holds the pipe's lock from start to end, so it is one step; the lock is left out.
  \<open>None\<close> is a loop that does not end or a use of memory that was given back.
\<close>

subsection \<open>State\<close>

record pipe_t =
  write_node :: addr
  read_node :: addr
  pipe_buffer :: addr
  buffer_size :: u64
  write_offset :: u64
  pipe_refs :: u8

text \<open>Of a vnode: its reference count, the identifier that leads to the pipe, the flag that wakes
  pollers, and which of the four operations of a pipe are installed.\<close>

datatype pipe_op = V_open | V_close | V_read | V_write

record pipe_vnode =
  ref_count :: u32
  fs_identifier :: addr
  data_ready_to_read :: bool
  file_operations :: "pipe_op set"

record kernel =
  kmem :: mem
  kheap :: heap_state
  vnodes :: "addr \<rightharpoonup> pipe_vnode"
  pipes :: "addr \<rightharpoonup> pipe_t"

text \<open>
  \<^verbatim>\<open>malloc\<close> with its effect on the bytes of memory: when the heap grows, the new pages read as
  zero, at the end of the heap and, under the addresses of their frames, in the direct map. The
  headers and the page tables are kept apart from these bytes, in the heap's own state.
\<close>

definition grown_memory :: "heap_state \<Rightarrow> heap_state \<Rightarrow> mem \<Rightarrow> mem" where
  "grown_memory h h' m = (\<lambda>a.
     if LastHeapAddress h \<le> a \<and> a < LastHeapAddress h' \<or>
        list_ex (\<lambda>q. a - q < 0x1000)
          (take (length (cleared_pages h') - length (cleared_pages h)) (cleared_pages h'))
     then 0 else m a)"

definition kmalloc :: "u64 \<Rightarrow> u64 \<Rightarrow> kernel \<Rightarrow> (addr \<times> kernel) option" where
  "kmalloc mb n s =
     map_option (\<lambda>(p, h). (p, s\<lparr>kheap := h, kmem := grown_memory (kheap s) h (kmem s)\<rparr>))
       (malloc mb n (kheap s))"

definition SIZEOF_pipe_t :: u64 where
  "SIZEOF_pipe_t = 48"

definition SIZEOF_vnode_t :: u64 where
  "SIZEOF_vnode_t = 456"

definition EPIPE :: u32 where
  "EPIPE = 32"

definition min64 :: "u64 \<Rightarrow> u64 \<Rightarrow> u64" where
  "min64 a b = (if a > b then b else a)"

definition pipe_of :: "addr \<Rightarrow> kernel \<Rightarrow> (addr \<times> pipe_t) option" where
  "pipe_of node s =
     Option.bind (vnodes s node) (\<lambda>v. map_option (Pair (fs_identifier v)) (pipes s (fs_identifier v)))"

definition set_pipe :: "addr \<Rightarrow> pipe_t \<Rightarrow> kernel \<Rightarrow> kernel" where
  "set_pipe a p s = s\<lparr>pipes := (pipes s)(a \<mapsto> p)\<rparr>"

definition set_ready :: "addr \<Rightarrow> bool \<Rightarrow> kernel \<Rightarrow> kernel option" where
  "set_ready node b s =
     map_option (\<lambda>v. s\<lparr>vnodes := (vnodes s)(node \<mapsto> v\<lparr>data_ready_to_read := b\<rparr>)\<rparr>) (vnodes s node)"

subsection \<open>Reading\<close>

text \<open>The waiting loop: in turn \<open>k\<close> it sees the kernel state \<open>env k\<close>; it returns the turn in which
  there is data, or no writer.\<close>

partial_function (option) pipe_wait :: "(nat \<Rightarrow> kernel) \<Rightarrow> addr \<Rightarrow> nat \<Rightarrow> nat option" where
  "pipe_wait env node k =
     Option.bind (pipe_of node (env k)) (\<lambda>ap.
       if write_offset (snd ap) = 0 \<and> write_node (snd ap) \<noteq> 0 then pipe_wait env node (k + 1) else Some k)"

text \<open>The locked part. \<^verbatim>\<open>ret\<close> is an \<^verbatim>\<open>int\<close>, sign-extended where it is used as a size.\<close>

definition v_pipe_read_locked ::
  "cpu_features \<Rightarrow> u64 \<Rightarrow> addr \<Rightarrow> addr \<Rightarrow> kernel \<Rightarrow> (u32 \<times> kernel) option" where
  "v_pipe_read_locked cpu len buf node s =
     Option.bind (pipe_of node s) (\<lambda>(a, p).
       if pipe_buffer p \<noteq> 0 \<and> write_offset p > 0 then
         let ret = (ucast (min64 (write_offset p) len) :: u32);
             n = (scast ret :: u64);
             m1 = memcpy cpu buf (pipe_buffer p) n (kmem s);
             m2 = memmove cpu (pipe_buffer p) (pipe_buffer p + n) (write_offset p - n) m1;
             p1 = p\<lparr>write_offset := write_offset p - n\<rparr>;
             s1 = set_pipe a p1 (s\<lparr>kmem := m2\<rparr>)
         in map_option (Pair ret) (if write_offset p1 = 0 then set_ready node False s1 else Some s1)
       else Some (0, s))"

text \<open>The whole call: other tasks may run between the wait and the lock.\<close>

definition v_pipe_read ::
  "cpu_features \<Rightarrow> (nat \<Rightarrow> kernel) \<Rightarrow> u64 \<Rightarrow> addr \<Rightarrow> addr \<Rightarrow> (u32 \<times> kernel) option" where
  "v_pipe_read cpu env len buf node =
     Option.bind (pipe_wait env node 0) (\<lambda>k. v_pipe_read_locked cpu len buf node (env (k + 1)))"

subsection \<open>Writing\<close>

partial_function (option) grow_size :: "u64 \<Rightarrow> u64 \<Rightarrow> u64 option" where
  "grow_size new_size required_size =
     (if new_size < required_size then grow_size (new_size * 2) required_size else Some new_size)"

text \<open>The buffer is replaced by a larger one.\<close>

definition grow_buffer ::
  "cpu_features \<Rightarrow> u64 \<Rightarrow> u64 \<Rightarrow> pipe_t \<Rightarrow> kernel \<Rightarrow> (pipe_t \<times> kernel) option" where
  "grow_buffer cpu mb required_size p s =
     Option.bind (grow_size (buffer_size p + required_size) required_size) (\<lambda>new_size.
     map_option (\<lambda>(new_buffer, s1).
         let s2 = (if pipe_buffer p \<noteq> 0
               then s1\<lparr>kmem := memcpy cpu new_buffer (pipe_buffer p) (write_offset p) (kmem s1),
                       kheap := free mb (pipe_buffer p) (kheap s1)\<rparr>
               else s1)
         in (p\<lparr>pipe_buffer := new_buffer, buffer_size := new_size\<rparr>, s2))
       (kmalloc mb new_size s))"

definition v_pipe_write ::
  "cpu_features \<Rightarrow> u64 \<Rightarrow> u64 \<Rightarrow> addr \<Rightarrow> addr \<Rightarrow> kernel \<Rightarrow> (u32 \<times> kernel) option" where
  "v_pipe_write cpu mb len buf node s =
     Option.bind (pipe_of node s) (\<lambda>(a, p).
       if read_node p = 0 then Some (- EPIPE, s)
       else
         let required_size = write_offset p + len in
         Option.bind (if required_size > buffer_size p then grow_buffer cpu mb required_size p s
             else Some (p, s)) (\<lambda>(p1, s1).
           let s2 = s1\<lparr>kmem := memcpy cpu (pipe_buffer p1 + write_offset p1) buf len (kmem s1)\<rparr>;
               p2 = p1\<lparr>write_offset := write_offset p1 + len\<rparr>
           in map_option (Pair (ucast len)) (set_ready (read_node p2) True (set_pipe a p2 s2))))"

subsection \<open>Opening, closing, creating\<close>

definition v_open :: "addr \<Rightarrow> kernel \<Rightarrow> kernel option" where
  "v_open node s = map_option (\<lambda>(a, p). set_pipe a (p\<lparr>pipe_refs := pipe_refs p + 1\<rparr>) s) (pipe_of node s)"

definition v_close :: "u64 \<Rightarrow> addr \<Rightarrow> kernel \<Rightarrow> kernel option" where
  "v_close mb node s =
     Option.bind (pipe_of node s) (\<lambda>(a, p).
       let p1 = p\<lparr>pipe_refs := pipe_refs p - 1\<rparr>;
           should_free = (pipe_refs p1 = 0)
       in Option.bind
         (if write_node p1 = node then
            let p2 = p1\<lparr>write_node := 0\<rparr> in
            if read_node p2 \<noteq> 0 then map_option (Pair p2) (set_ready (read_node p2) True s)
            else Some (p2, s)
          else Some (p1, s))
         (\<lambda>(p3, s1).
            let p4 = (if read_node p3 = node then p3\<lparr>read_node := 0\<rparr> else p3);
                s2 = set_pipe a p4 s1
            in if should_free then
                 let h1 = (if pipe_buffer p4 \<noteq> 0 then free mb (pipe_buffer p4) (kheap s2) else kheap s2)
                 in Some (s2\<lparr>kheap := free mb a h1, pipes := (pipes s2)(a := None)\<rparr>)
               else Some s2))"

text \<open>\<^verbatim>\<open>vnode_t::open\<close> and \<^verbatim>\<open>close\<close> for a node without a parent, as the ends of a pipe are.\<close>

definition node_open :: "addr \<Rightarrow> kernel \<Rightarrow> kernel option" where
  "node_open node s =
     Option.bind (vnodes s node) (\<lambda>v.
       let s1 = s\<lparr>vnodes := (vnodes s)(node \<mapsto> v\<lparr>ref_count := ref_count v + 1\<rparr>)\<rparr>
       in if V_open \<in> file_operations v then v_open node s1 else Some s1)"

definition node_close :: "u64 \<Rightarrow> addr \<Rightarrow> kernel \<Rightarrow> kernel option" where
  "node_close mb node s =
     Option.bind (vnodes s node) (\<lambda>v.
       let new_ref_count = ref_count v - 1;
           s1 = s\<lparr>vnodes := (vnodes s)(node \<mapsto> v\<lparr>ref_count := new_ref_count\<rparr>)\<rparr>
       in map_option (\<lambda>s2.
            if new_ref_count = 0
            then s2\<lparr>kheap := free mb node (kheap s2), vnodes := (vnodes s2)(node := None)\<rparr> else s2)
          (if V_close \<in> file_operations v then v_close mb node s1 else Some s1))"

text \<open>The two vnodes are constructed (all zero but the flags) and opened before their operations are set.\<close>

definition new_vnode :: pipe_vnode where
  "new_vnode = \<lparr>ref_count = 0, fs_identifier = 0, data_ready_to_read = True, file_operations = {}\<rparr>"

definition create_pipe :: "u64 \<Rightarrow> kernel \<Rightarrow> (addr \<times> kernel) option" where
  "create_pipe mb s =
     Option.bind (kmalloc mb SIZEOF_pipe_t s) (\<lambda>(a, k1).
     Option.bind (kmalloc mb SIZEOF_vnode_t k1) (\<lambda>(r, k2).
     Option.bind (kmalloc mb SIZEOF_vnode_t k2) (\<lambda>(w, k3).
     let s1 = k3\<lparr>vnodes := (vnodes k3)(r \<mapsto> new_vnode, w \<mapsto> new_vnode)\<rparr> in
     Option.bind (node_open r s1) (\<lambda>s2. map_option (\<lambda>s3.
       (a, s3\<lparr>pipes := (pipes s3)(a \<mapsto> \<lparr>write_node = w, read_node = r, pipe_buffer = 0, buffer_size = 0,
              write_offset = 0, pipe_refs = 2\<rparr>),
            vnodes := (vnodes s3)(r \<mapsto> (the (vnodes s3 r))\<lparr>fs_identifier := a,
                file_operations := {V_open, V_close, V_read}, data_ready_to_read := False\<rparr>,
              w \<mapsto> (the (vnodes s3 w))\<lparr>fs_identifier := a, file_operations := {V_open, V_close, V_write}\<rparr>)\<rparr>))
       (node_open w s2)))))"

text \<open>A request that a free segment can serve: the heap need not grow.\<close>

definition has_fit :: "u64 \<Rightarrow> u64 \<Rightarrow> heap_state \<Rightarrow> bool" where
  "has_fit mb n h \<longleftrightarrow> (\<exists>bs. heap_ok mb h bs \<and> (\<exists>b \<in> set bs. fits (round16 n) b))"

lemma malloc_fit:
  assumes "has_fit mb n h" "n \<noteq> 0"
  shows "\<exists>p h'. malloc mb n h = Some (p, h') \<and> same_window h h'"
proof -
  obtain bs where ok: "heap_ok mb h bs" and fit: "\<exists>b \<in> set bs. fits (round16 n) b"
    using assms(1) by (auto simp: has_fit_def)
  obtain us b vs where b: "bs = us @ b # vs" "fits (round16 n) b" "\<forall>b \<in> set us. \<not> fits (round16 n) b"
    using split_list_first_prop [OF fit] by blast
  then obtain m where "b = (m, True)" "round16 n \<le> m" by (cases b) (auto simp: fits_def)
  then show ?thesis using malloc_found [of mb h us m vs n] ok b assms(2) by blast
qed

lemma grown_memory_refl [simp]: "grown_memory h h m = m"
  by (rule ext) (auto simp: grown_memory_def)

lemma grown_memory_window:
  "same_window h1 h2 \<Longrightarrow> grown_memory h h2 m = grown_memory h h1 m"
  by (simp add: grown_memory_def same_window_def)

lemma same_window_room: "same_window h h' \<Longrightarrow> heap_room n h' = heap_room n h"
  by (simp add: same_window_def heap_room_def)

subsection \<open>The contents of a pipe\<close>

text \<open>The buffer is a live block of the heap that is large enough.\<close>

definition pipe_ok :: "u64 \<Rightarrow> addr \<Rightarrow> kernel \<Rightarrow> pipe_t \<Rightarrow> bool" where
  "pipe_ok mb a s p \<longleftrightarrow> pipes s a = Some p \<and> heap_sound mb (kheap s) \<and> write_offset p \<le> buffer_size p \<and>
     (if pipe_buffer p = 0 then buffer_size p = 0
      else \<exists>k. (pipe_buffer p, k) \<in> heap_live mb (kheap s) \<and> buffer_size p \<le> k)"

definition pipe_bytes :: "kernel \<Rightarrow> pipe_t \<Rightarrow> u8 list" where
  "pipe_bytes s p = load_bytes (kmem s) (pipe_buffer p) (unat (write_offset p))"

text \<open>The caller's buffer lies in a live block of the heap, other than the block \<open>own\<close>: system calls
  move bytes through windows they have allocated.\<close>

definition heap_window :: "u64 \<Rightarrow> heap_state \<Rightarrow> addr \<Rightarrow> addr \<Rightarrow> u64 \<Rightarrow> bool" where
  "heap_window mb h own b n \<longleftrightarrow> (\<exists>q k. (q, k) \<in> heap_live mb h \<and> q \<noteq> own \<and>
     unat q \<le> unat b \<and> unat b + unat n \<le> unat q + unat k)"

lemma window_apart:
  assumes sound: "heap_sound mb h" and win: "heap_window mb h own b n" and own: "(own, j) \<in> heap_live mb h"
  shows "unat b + unat n \<le> unat own \<or> unat own + unat j \<le> unat b"
proof -
  obtain q k where q: "(q, k) \<in> heap_live mb h" "q \<noteq> own" "unat q \<le> unat b" "unat b + unat n \<le> unat q + unat k"
    using win by (auto simp: heap_window_def)
  then show ?thesis using kernel_heap.apart [OF sound q(1) own] by auto
qed

lemma live_above:
  assumes "heap_sound mb h" "(p, k) \<in> heap_live mb h"
  shows "unat (HEAP_BASE mb) \<le> unat p \<and> unat p + unat k \<le> 18446744073709551616"
  using live_window [OF assms] unat_lt64 [of "LastHeapAddress h"] by linarith

lemma window_nowrap:
  "heap_sound mb h \<Longrightarrow> heap_window mb h own b n \<Longrightarrow> unat b + unat n \<le> 18446744073709551616"
  using live_above [of mb h] by (fastforce simp: heap_window_def)

text \<open>The bytes in the window of a heap.\<close>

definition same_heap_bytes :: "heap_state \<Rightarrow> mem \<Rightarrow> mem \<Rightarrow> bool" where
  "same_heap_bytes h m m' \<longleftrightarrow> (\<forall>x. heap_start h \<le> x \<and> x < LastHeapAddress h \<longrightarrow> m' x = m x)"

lemma load_same_heap:
  assumes sound: "heap_sound mb h" and same: "same_heap_bytes h m m'" and live: "(q, k) \<in> heap_live mb h"
    and b: "unat q \<le> unat b" "unat b + n \<le> unat q + unat k"
  shows "load_bytes m' b n = load_bytes m b n"
proof (rule load_bytes_cong)
  fix i assume i: "i < n"
  note win = live_window [OF sound live]
  have small: "unat b + i < 18446744073709551616" using i b(2) win unat_lt64 [of "LastHeapAddress h"] by linarith
  then have "unat (of_nat i :: u64) = i" by (intro unat_of_nat64) simp
  then have "unat (b + of_nat i) = unat b + i" using small by (subst unat_add64) simp_all
  then have "heap_start h \<le> b + of_nat i" "b + of_nat i < LastHeapAddress h"
    using i b win by (simp_all add: word_le_nat_alt word_less_nat_alt)
  then show "m' (b + of_nat i) = m (b + of_nat i)" using same by (simp add: same_heap_bytes_def)
qed

lemma grown_memory_same:
  assumes sound: "heap_sound mb h" and new: "heap_sound mb h'"
  shows "same_heap_bytes h m (grown_memory h h' m)"
  unfolding same_heap_bytes_def
proof (intro allI impI, elim conjE)
  fix x assume x: "heap_start h \<le> x" "x < LastHeapAddress h"
  obtain bs where "heap_ok mb h bs" using sound by (auto simp: heap_sound_def)
  then have base: "HEAP_BASE mb \<le> x" using x by (auto simp: heap_ok_def heap_shape_def)
  have "\<not> x - q < 0x1000" if "q \<in> set (cleared_pages h')" for q
  proof -
    have "unat q + 4096 \<le> unat x"
      using new that base by (fastforce simp: heap_sound_def heap_backed_def word_le_nat_alt)
    then show ?thesis by (simp add: word_less_nat_alt unat_diff64)
  qed
  then have "\<not> list_ex (\<lambda>q. x - q < 0x1000) (take i (cleared_pages h'))" for i
    by (auto simp: list_ex_iff dest: in_set_takeD)
  then show "grown_memory h h' m x = m x" using x by (simp add: grown_memory_def not_le [symmetric])
qed

lemma kmalloc_fresh:
  assumes sound: "heap_sound mb (kheap s)" and room: "heap_room n (kheap s)"
  shows "\<exists>q m h k. kmalloc mb n s = Some (q, s\<lparr>kmem := m, kheap := h\<rparr>) \<and> heap_sound mb h \<and> n \<le> k \<and> q \<noteq> 0 \<and>
    (q, k) \<notin> heap_live mb (kheap s) \<and> heap_live mb h = insert (q, k) (heap_live mb (kheap s)) \<and>
    same_heap_bytes (kheap s) (kmem s) m"
proof -
  obtain q h k where a: "malloc mb n (kheap s) = Some (q, h)" "heap_sound mb h" "n \<le> k" "q \<noteq> 0"
      "(q, k) \<notin> heap_live mb (kheap s)" "heap_live mb h = insert (q, k) (heap_live mb (kheap s))"
    using malloc_sound [OF sound room] by blast
  let ?m = "grown_memory (kheap s) h (kmem s)"
  have "kmalloc mb n s = Some (q, s\<lparr>kmem := ?m, kheap := h\<rparr>)" by (simp add: kmalloc_def a(1))
  then show ?thesis using a(2-6) grown_memory_same [OF sound a(2)] by blast
qed

text \<open>A window of the old heap is one of the new heap, apart from the new block too.\<close>

lemma window_kept:
  assumes win: "heap_window mb h own b n" and sound: "heap_sound mb h1"
    and fresh: "(q, k) \<notin> heap_live mb h" "heap_live mb h1 = insert (q, k) (heap_live mb h)"
    and kept: "\<And>p j. (p, j) \<in> heap_live mb h1 \<Longrightarrow> p \<noteq> own \<Longrightarrow> (p, j) \<in> heap_live mb h'"
  shows "heap_window mb h' q b n"
proof -
  obtain p j where p: "(p, j) \<in> heap_live mb h" "p \<noteq> own" "unat p \<le> unat b" "unat b + unat n \<le> unat p + unat j"
    using win by (auto simp: heap_window_def)
  have "p \<noteq> q" using heap_live_unique [OF sound, of p k j] fresh p(1) by auto
  then show ?thesis using p kept fresh(2) by (auto simp: heap_window_def)
qed

lemma load_window_kept:
  "heap_window mb h own b n \<Longrightarrow> heap_sound mb h \<Longrightarrow> same_heap_bytes h m m' \<Longrightarrow>
    load_bytes m' b (unat n) = load_bytes m b (unat n)"
  by (auto simp: heap_window_def intro: load_same_heap)

lemma pipe_region:
  assumes "pipe_ok mb a s p" "pipe_buffer p \<noteq> 0"
  shows "unat (HEAP_BASE mb) \<le> unat (pipe_buffer p) \<and>
    unat (pipe_buffer p) + unat (buffer_size p) \<le> 18446744073709551616 \<and>
    unat (write_offset p) \<le> unat (buffer_size p)"
proof -
  obtain k where "(pipe_buffer p, k) \<in> heap_live mb (kheap s)" "buffer_size p \<le> k" "heap_sound mb (kheap s)"
    "write_offset p \<le> buffer_size p"
    using assms by (auto simp: pipe_ok_def)
  then show ?thesis using live_above [of mb "kheap s"] by (fastforce simp: word_le_nat_alt)
qed

lemma pipe_window_apart:
  assumes ok: "pipe_ok mb a s p" and b: "pipe_buffer p \<noteq> 0"
    and win: "heap_window mb (kheap s) (pipe_buffer p) buf n"
  shows "unat buf + unat n \<le> unat (pipe_buffer p) \<or> unat (pipe_buffer p) + unat (buffer_size p) \<le> unat buf"
proof -
  obtain k where k: "(pipe_buffer p, k) \<in> heap_live mb (kheap s)" "buffer_size p \<le> k" "heap_sound mb (kheap s)"
    using ok b by (auto simp: pipe_ok_def)
  then show ?thesis using window_apart [OF k(3) win k(1)] by (auto simp: word_le_nat_alt)
qed

lemma grow_size_enough: "required \<le> n \<Longrightarrow> grow_size n required = Some n"
  by (subst grow_size.simps) auto

text \<open>Replacing a live block by another: both are live for a moment, hence apart, from each other and
  from the caller's windows, which the exchange leaves as they are.\<close>

lemma replace_block:
  assumes sound: "heap_sound mb (kheap s)" and old: "(old, j) \<in> heap_live mb (kheap s)"
    and room: "heap_room n (kheap s)"
  shows "\<exists>q m h1 k. kmalloc mb n s = Some (q, s\<lparr>kmem := m, kheap := h1\<rparr>) \<and> q \<noteq> 0 \<and> n \<le> k \<and>
    heap_sound mb (free mb old h1) \<and> (q, k) \<in> heap_live mb (free mb old h1) \<and>
    unat q + unat k \<le> 18446744073709551616 \<and> unat old + unat j \<le> 18446744073709551616 \<and>
    (unat old + unat j \<le> unat q \<or> unat q + unat k \<le> unat old) \<and>
    (\<forall>i \<le> unat j. load_bytes m old i = load_bytes (kmem s) old i) \<and>
    (\<forall>b l. heap_window mb (kheap s) old b l \<longrightarrow> heap_window mb (free mb old h1) q b l \<and>
       (unat b + unat l \<le> unat q \<or> unat q + unat k \<le> unat b) \<and> unat b + unat l \<le> 18446744073709551616 \<and>
       load_bytes m b (unat l) = load_bytes (kmem s) b (unat l))"
proof -
  obtain q m h1 k where a: "kmalloc mb n s = Some (q, s\<lparr>kmem := m, kheap := h1\<rparr>)" "heap_sound mb h1" "n \<le> k"
      "q \<noteq> 0" "(q, k) \<notin> heap_live mb (kheap s)" "heap_live mb h1 = insert (q, k) (heap_live mb (kheap s))"
      "same_heap_bytes (kheap s) (kmem s) m"
    using kmalloc_fresh [OF sound room] by blast
  have both: "(old, j) \<in> heap_live mb h1" "(q, k) \<in> heap_live mb h1" and ne: "(old, j) \<noteq> (q, k)"
    using old a(5,6) by auto
  have law: "heap_sound mb (free mb old h1)" "heap_live mb (free mb old h1) = heap_live mb h1 - {(old, j)}"
    using kernel_heap.dealloc_law [OF a(2) both(1)] by blast+
  have "heap_window mb (free mb old h1) q b l \<and>
       (unat b + unat l \<le> unat q \<or> unat q + unat k \<le> unat b) \<and> unat b + unat l \<le> 18446744073709551616 \<and>
       load_bytes m b (unat l) = load_bytes (kmem s) b (unat l)"
    if win: "heap_window mb (kheap s) old b l" for b l
  proof -
    have w1: "heap_window mb h1 q b l" using window_kept [OF win a(2,5,6)] by blast
    have "heap_window mb (free mb old h1) q b l"
      using window_kept [OF win a(2,5,6), of "free mb old h1"] law(2) by auto
    then show ?thesis using window_apart [OF a(2) w1 both(2)] window_nowrap [OF a(2) w1]
        load_window_kept [OF win sound a(7)] by blast
  qed
  moreover have "\<forall>i \<le> unat j. load_bytes m old i = load_bytes (kmem s) old i"
    using load_same_heap [OF sound a(7) old] by simp
  moreover have "unat old + unat j \<le> unat q \<or> unat q + unat k \<le> unat old"
    using kernel_heap.apart [OF a(2) both] ne by blast
  moreover have "unat q + unat k \<le> 18446744073709551616" "unat old + unat j \<le> 18446744073709551616"
    using live_above [OF a(2)] both by blast+
  ultimately show ?thesis using a(1,3,4) law both(2) ne by blast
qed

text \<open>The start of the old block is copied to the new one.\<close>

lemma copy_between_blocks:
  assumes "unat old + unat j \<le> unat q \<or> unat q + unat k \<le> unat old" "unat n \<le> unat j" "unat n \<le> unat k"
    and "unat old + unat j \<le> 18446744073709551616"
  shows "memcpy cpu q old n m = mem_copy q old (unat n) m"
proof -
  have "disjoint_regions q old n" using assms(1-3) unfolding disjoint_regions_def by auto
  moreover have "no_wrap old n" using assms(2,4) by (simp add: no_wrap_def)
  ultimately show ?thesis by (intro memcpy_mem_copy disjoint_up_ok)
qed

lemma move_block:
  assumes sound: "heap_sound mb (kheap s)" and old: "(old, j) \<in> heap_live mb (kheap s)"
    and room: "heap_room n (kheap s)" and len: "unat i \<le> unat j" "unat i \<le> unat n"
  shows "\<exists>q m h1 k. kmalloc mb n s = Some (q, s\<lparr>kmem := m, kheap := h1\<rparr>) \<and> q \<noteq> 0 \<and> n \<le> k \<and>
    heap_sound mb (free mb old h1) \<and> (q, k) \<in> heap_live mb (free mb old h1) \<and>
    load_bytes (memcpy cpu q old i m) q (unat i) = load_bytes (kmem s) old (unat i) \<and>
    (\<forall>b l. heap_window mb (kheap s) old b l \<longrightarrow> heap_window mb (free mb old h1) q b l \<and>
       load_bytes (memcpy cpu q old i m) b (unat l) = load_bytes (kmem s) b (unat l))"
proof -
  obtain q m h1 k where a: "kmalloc mb n s = Some (q, s\<lparr>kmem := m, kheap := h1\<rparr>)" "q \<noteq> 0" "n \<le> k"
      "heap_sound mb (free mb old h1)" "(q, k) \<in> heap_live mb (free mb old h1)"
    and reg: "unat q + unat k \<le> 18446744073709551616" "unat old + unat j \<le> 18446744073709551616"
      "unat old + unat j \<le> unat q \<or> unat q + unat k \<le> unat old"
    and old': "\<forall>i \<le> unat j. load_bytes m old i = load_bytes (kmem s) old i"
    and win: "\<forall>b l. heap_window mb (kheap s) old b l \<longrightarrow> heap_window mb (free mb old h1) q b l \<and>
       (unat b + unat l \<le> unat q \<or> unat q + unat k \<le> unat b) \<and> unat b + unat l \<le> 18446744073709551616 \<and>
       load_bytes m b (unat l) = load_bytes (kmem s) b (unat l)"
    using replace_block [OF sound old room] by (elim exE conjE) (rule that)
  have ik: "unat i \<le> unat k" using len(2) a(3) by (simp add: word_le_nat_alt)
  note copy = copy_between_blocks [OF reg(3) len(1) ik reg(2)]
  have "load_bytes (memcpy cpu q old i m) q (unat i) = load_bytes (kmem s) old (unat i)"
    unfolding copy using old' len(1) by (simp add: mem_copy_load)
  moreover have "load_bytes (memcpy cpu q old i m) b (unat l) = load_bytes m b (unat l)"
    if "heap_window mb (kheap s) old b l" for b l
    unfolding copy by (rule load_mem_copy_other) (use win that ik reg(1) in fastforce)+
  ultimately show ?thesis using a win by (metis (no_types, lifting))
qed

text \<open>A growing buffer: a fresh block with the same contents; the caller's window is untouched.\<close>

lemma grow_buffer_keeps:
  assumes ok: "pipe_ok mb a s p" and n: "required \<le> buffer_size p + required"
    and room: "heap_room (buffer_size p + required) (kheap s)"
  shows "\<exists>q m h k. grow_buffer cpu mb required p s
      = Some (p\<lparr>pipe_buffer := q, buffer_size := buffer_size p + required\<rparr>, s\<lparr>kmem := m, kheap := h\<rparr>) \<and>
    heap_sound mb h \<and> q \<noteq> 0 \<and> (q, k) \<in> heap_live mb h \<and> buffer_size p + required \<le> k \<and>
    load_bytes m q (unat (write_offset p)) = pipe_bytes s p \<and>
    (\<forall>b n. heap_window mb (kheap s) (pipe_buffer p) b n \<longrightarrow> heap_window mb h q b n \<and>
       load_bytes m b (unat n) = load_bytes (kmem s) b (unat n))"
proof -
  have sound: "heap_sound mb (kheap s)" using ok by (simp add: pipe_ok_def)
  show ?thesis
  proof (cases "pipe_buffer p = 0")
    case True
    then have off: "write_offset p = 0" using ok by (auto simp: pipe_ok_def)
    obtain q m h k where a: "kmalloc mb (buffer_size p + required) s = Some (q, s\<lparr>kmem := m, kheap := h\<rparr>)"
        "heap_sound mb h" "buffer_size p + required \<le> k" "q \<noteq> 0" "(q, k) \<notin> heap_live mb (kheap s)"
        "heap_live mb h = insert (q, k) (heap_live mb (kheap s))" "same_heap_bytes (kheap s) (kmem s) m"
      using kmalloc_fresh [OF sound room] by blast
    have "grow_buffer cpu mb required p s
        = Some (p\<lparr>pipe_buffer := q, buffer_size := buffer_size p + required\<rparr>, s\<lparr>kmem := m, kheap := h\<rparr>)"
      by (simp add: grow_buffer_def grow_size_enough [OF n] a(1) True Let_def)
    moreover have "heap_window mb h q b l \<and> load_bytes m b (unat l) = load_bytes (kmem s) b (unat l)"
      if "heap_window mb (kheap s) (pipe_buffer p) b l" for b l
      using window_kept [OF that a(2,5,6)] load_window_kept [OF that sound a(7)] by blast
    moreover have "(q, k) \<in> heap_live mb h" "load_bytes m q (unat (write_offset p)) = pipe_bytes s p"
      using a(6) off by (simp_all add: pipe_bytes_def load_bytes_def)
    ultimately show ?thesis using a(2-4) by blast
  next
    case False
    obtain j where j: "(pipe_buffer p, j) \<in> heap_live mb (kheap s)" "buffer_size p \<le> j"
      using ok False by (auto simp: pipe_ok_def)
    have o: "unat (write_offset p) \<le> unat (buffer_size p)" using ok by (simp add: pipe_ok_def word_le_nat_alt)
    then have off: "unat (write_offset p) \<le> unat j" using j(2) by (simp add: word_le_nat_alt)
    have "buffer_size p \<le> buffer_size p + required"
      using n unat_lt64 [of "buffer_size p"] unfolding word_le_nat_alt unat_plus64
      by (cases "unat (buffer_size p) + unat required < 18446744073709551616"; simp only: if_True if_False; linarith)
    then have "unat (write_offset p) \<le> unat (buffer_size p + required)" using o by (simp add: word_le_nat_alt)
    from move_block [OF sound j(1) room off this, of cpu] obtain q m h1 k where
      r: "kmalloc mb (buffer_size p + required) s = Some (q, s\<lparr>kmem := m, kheap := h1\<rparr>)" and
      r': "q \<noteq> 0" "buffer_size p + required \<le> k" "heap_sound mb (free mb (pipe_buffer p) h1)"
        "(q, k) \<in> heap_live mb (free mb (pipe_buffer p) h1)"
        "load_bytes (memcpy cpu q (pipe_buffer p) (write_offset p) m) q (unat (write_offset p)) = pipe_bytes s p"
        "\<forall>b l. heap_window mb (kheap s) (pipe_buffer p) b l \<longrightarrow> heap_window mb (free mb (pipe_buffer p) h1) q b l \<and>
          load_bytes (memcpy cpu q (pipe_buffer p) (write_offset p) m) b (unat l) = load_bytes (kmem s) b (unat l)"
      unfolding pipe_bytes_def by blast
    have "grow_buffer cpu mb required p s = Some (p\<lparr>pipe_buffer := q, buffer_size := buffer_size p + required\<rparr>,
        s\<lparr>kmem := memcpy cpu q (pipe_buffer p) (write_offset p) m, kheap := free mb (pipe_buffer p) h1\<rparr>)"
      using False by (simp add: grow_buffer_def grow_size_enough [OF n] r Let_def)
    then show ?thesis using r' by blast
  qed
qed

text \<open>Appending to a buffer with room enough.\<close>

lemma append_bytes:
  assumes ok: "pipe_ok mb a s p" and fit: "unat (write_offset p) + unat len \<le> unat (buffer_size p)"
    and win: "heap_window mb (kheap s) (pipe_buffer p) buf len"
    and m: "m = memcpy cpu (pipe_buffer p + write_offset p) buf len (kmem s)"
  shows "load_bytes m (pipe_buffer p) (unat (write_offset p + len)) =
    pipe_bytes s p @ load_bytes (kmem s) buf (unat len)"
proof -
  let ?off = "write_offset p" and ?b = "pipe_buffer p"
  have sum: "unat (?off + len) = unat ?off + unat len"
    using fit unat_lt64 [of "buffer_size p"] by (intro unat_add64) linarith
  have "heap_sound mb (kheap s)" using ok by (simp add: pipe_ok_def)
  then have nw: "no_wrap buf len" using window_nowrap win by (simp add: no_wrap_def)
  show ?thesis
  proof (cases "len = 0")
    case True
    then show ?thesis by (simp add: m memcpy_mem_copy up_ok_def mem_copy_def pipe_bytes_def load_bytes_def)
  next
    case False
    then have len: "unat len \<noteq> 0" by (simp add: unat_eq_zero)
    then have b: "?b \<noteq> 0" using fit ok by (auto simp: pipe_ok_def)
    note reg = pipe_region [OF ok b]
    have start: "unat (?b + ?off) = unat ?b + unat ?off"
      using reg fit len by (intro unat_add64) linarith
    have "disjoint_regions (?b + ?off) buf len"
      using pipe_window_apart [OF ok b win] fit unfolding disjoint_regions_def start by linarith
    then have m': "m = mem_copy (?b + ?off) buf (unat len) (kmem s)"
      unfolding m by (intro memcpy_mem_copy disjoint_up_ok nw)
    have "load_bytes m ?b (unat ?off) = load_bytes (kmem s) ?b (unat ?off)"
      unfolding m' by (rule load_mem_copy_other) (use reg fit start in linarith)+
    moreover have "load_bytes m (?b + ?off) (unat len) = load_bytes (kmem s) buf (unat len)"
      unfolding m' by (rule mem_copy_load) simp
    ultimately show ?thesis by (simp add: sum load_bytes_append pipe_bytes_def)
  qed
qed

definition write_room :: "u64 \<Rightarrow> pipe_t \<Rightarrow> heap_state \<Rightarrow> bool" where
  "write_room len p h \<longleftrightarrow>
     unat (buffer_size p) + unat (write_offset p) + unat len < 18446744073709551616 \<and>
     (buffer_size p < write_offset p + len \<longrightarrow> heap_room (buffer_size p + (write_offset p + len)) h)"

lemma pipe_write_appends:
  assumes node: "pipe_of node s = Some (a, p)" and ok: "pipe_ok mb a s p"
    and r: "read_node p \<noteq> 0" "vnodes s (read_node p) = Some v"
    and room: "write_room len p (kheap s)" and win: "heap_window mb (kheap s) (pipe_buffer p) buf len"
  shows "\<exists>s' p'. v_pipe_write cpu mb len buf node s = Some (ucast len, s') \<and> pipe_ok mb a s' p' \<and>
    pipe_bytes s' p' = pipe_bytes s p @ load_bytes (kmem s) buf (unat len) \<and>
    read_node p' = read_node p \<and> write_node p' = write_node p \<and>
    vnodes s' = (vnodes s)(read_node p \<mapsto> v\<lparr>data_ready_to_read := True\<rparr>) \<and>
    (\<forall>b n. heap_window mb (kheap s) (pipe_buffer p) b n \<longrightarrow> heap_window mb (kheap s') (pipe_buffer p') b n)"
proof -
  have sum: "unat (write_offset p + len) = unat (write_offset p) + unat len"
      "unat (buffer_size p + (write_offset p + len)) = unat (buffer_size p) + (unat (write_offset p) + unat len)"
    using room by (simp_all add: write_room_def unat_add64)
  let ?g = "if write_offset p + len > buffer_size p then grow_buffer cpu mb (write_offset p + len) p s else Some (p, s)"
  obtain q n m h where g: "?g = Some (p\<lparr>pipe_buffer := q, buffer_size := n\<rparr>, s\<lparr>kmem := m, kheap := h\<rparr>)"
    and ok1: "pipe_ok mb a (set_pipe a (p\<lparr>pipe_buffer := q, buffer_size := n\<rparr>) (s\<lparr>kmem := m, kheap := h\<rparr>))
      (p\<lparr>pipe_buffer := q, buffer_size := n\<rparr>)"
    and fit: "unat (write_offset p) + unat len \<le> unat n"
    and bytes: "load_bytes m q (unat (write_offset p)) = pipe_bytes s p"
      "load_bytes m buf (unat len) = load_bytes (kmem s) buf (unat len)"
    and win1: "\<forall>b n. heap_window mb (kheap s) (pipe_buffer p) b n \<longrightarrow> heap_window mb h q b n"
  proof (cases "write_offset p + len > buffer_size p")
    case False
    show ?thesis
    proof (rule that)
      show "?g = Some (p\<lparr>pipe_buffer := pipe_buffer p, buffer_size := buffer_size p\<rparr>, s\<lparr>kmem := kmem s, kheap := kheap s\<rparr>)"
        using False by simp
      show "unat (write_offset p) + unat len \<le> unat (buffer_size p)"
        using False sum by (simp add: word_le_nat_alt not_less)
    qed (use ok win in \<open>simp_all add: pipe_ok_def set_pipe_def pipe_bytes_def\<close>)
  next
    case True
    have "write_offset p + len \<le> buffer_size p + (write_offset p + len)"
      using sum by (simp add: word_le_nat_alt)
    from grow_buffer_keeps [OF ok this, of cpu] True room
    obtain q m h k where g: "grow_buffer cpu mb (write_offset p + len) p s = Some (p\<lparr>pipe_buffer := q,
        buffer_size := buffer_size p + (write_offset p + len)\<rparr>, s\<lparr>kmem := m, kheap := h\<rparr>)"
      and h: "heap_sound mb h" "q \<noteq> 0" "(q, k) \<in> heap_live mb h" "buffer_size p + (write_offset p + len) \<le> k"
      and b: "load_bytes m q (unat (write_offset p)) = pipe_bytes s p"
        "\<forall>b n. heap_window mb (kheap s) (pipe_buffer p) b n \<longrightarrow> heap_window mb h q b n \<and>
           load_bytes m b (unat n) = load_bytes (kmem s) b (unat n)"
      by (auto simp: write_room_def)
    show ?thesis
    proof (rule that)
      show "?g = Some (p\<lparr>pipe_buffer := q, buffer_size := buffer_size p + (write_offset p + len)\<rparr>,
          s\<lparr>kmem := m, kheap := h\<rparr>)" using True g by simp
      show "unat (write_offset p) + unat len \<le> unat (buffer_size p + (write_offset p + len))"
        using sum by simp
      show "pipe_ok mb a (set_pipe a (p\<lparr>pipe_buffer := q, buffer_size := buffer_size p + (write_offset p + len)\<rparr>)
          (s\<lparr>kmem := m, kheap := h\<rparr>)) (p\<lparr>pipe_buffer := q, buffer_size := buffer_size p + (write_offset p + len)\<rparr>)"
        using h sum by (auto simp: pipe_ok_def set_pipe_def word_le_nat_alt)
    qed (use b win in auto)
  qed
  let ?p1 = "p\<lparr>pipe_buffer := q, buffer_size := n\<rparr>" and ?s1 = "s\<lparr>kmem := m, kheap := h\<rparr>"
  let ?m2 = "memcpy cpu (q + write_offset p) buf len m" and ?p2 = "?p1\<lparr>write_offset := write_offset p + len\<rparr>"
  let ?s2 = "set_pipe a ?p2 (?s1\<lparr>kmem := ?m2\<rparr>)"
  let ?s' = "?s2\<lparr>vnodes := (vnodes s)(read_node p \<mapsto> v\<lparr>data_ready_to_read := True\<rparr>)\<rparr>"
  have app: "load_bytes ?m2 q (unat (write_offset p + len)) = pipe_bytes s p @ load_bytes (kmem s) buf (unat len)"
    using append_bytes [OF ok1 _ _ refl, of len buf cpu] win win1 fit bytes by (simp add: set_pipe_def pipe_bytes_def)
  have w: "v_pipe_write cpu mb len buf node s = Some (ucast len, ?s')"
    unfolding v_pipe_write_def node using r g by (simp add: Let_def set_ready_def set_pipe_def)
  have ok': "pipe_ok mb a ?s' ?p2"
    using ok1 fit sum by (auto simp: pipe_ok_def set_pipe_def word_le_nat_alt split: if_splits)
  show ?thesis
    by (rule exI [of _ ?s'], rule exI [of _ ?p2])
      (use w ok' app win1 in \<open>simp add: pipe_bytes_def set_pipe_def\<close>)
qed

lemma scast_ucast32:
  assumes "unat (x :: u64) < 2147483648"
  shows "scast (ucast x :: u32) = x"
proof (rule bit_eqI)
  fix n assume "possible_bit TYPE(u64) n"
  then have n: "n < 64" by simp
  have "\<not> bit x k" if "31 \<le> k" for k using not_bit_small [of x 31 k] that assms by simp
  then show "bit (scast (ucast x :: u32) :: u64) n = bit x n"
    using n by (cases "n < 31") (auto simp: bit_signed_iff bit_unsigned_iff min_def)
qed

lemma unat_min64: "unat (min64 a b) = min (unat a) (unat b)"
  by (simp add: min64_def word_less_nat_alt)

lemma load_bytes_take_drop:
  assumes "k \<le> n"
  shows "take k (load_bytes m p n) = load_bytes m p k \<and>
    drop k (load_bytes m p n) = load_bytes m (p + of_nat k) (n - k)"
  using load_bytes_append [of m p k "n - k"] assms by simp

lemma pipe_ok_shrink:
  "pipe_ok mb a s p \<Longrightarrow> k \<le> buffer_size p \<Longrightarrow> pipes t a = Some (p\<lparr>write_offset := k\<rparr>) \<Longrightarrow>
    kheap t = kheap s \<Longrightarrow> pipe_ok mb a t (p\<lparr>write_offset := k\<rparr>)"
  by (simp add: pipe_ok_def)

lemma pipe_read_takes:
  assumes node: "pipe_of node s = Some (a, p)" and ok: "pipe_ok mb a s p"
    and v: "vnodes s node = Some v" and win: "heap_window mb (kheap s) (pipe_buffer p) buf len"
    and small: "min (unat (write_offset p)) (unat len) < 2147483648"
  shows "\<exists>ret s' p'. v_pipe_read_locked cpu len buf node s = Some (ret, s') \<and>
    unat ret = min (length (pipe_bytes s p)) (unat len) \<and> pipe_ok mb a s' p' \<and>
    pipe_bytes s p = load_bytes (kmem s') buf (unat ret) @ pipe_bytes s' p' \<and>
    read_node p' = read_node p \<and> write_node p' = write_node p"
proof (cases "pipe_buffer p \<noteq> 0 \<and> write_offset p > 0")
  case False
  then have "write_offset p = 0"
    using ok by (auto simp: pipe_ok_def word_greater_zero_iff)
  then have "v_pipe_read_locked cpu len buf node s = Some (0, s)" "pipe_bytes s p = []"
    by (simp_all add: v_pipe_read_locked_def node pipe_bytes_def load_bytes_def)
  then show ?thesis using ok by (intro exI [of _ 0] exI [of _ s] exI [of _ p]) (simp add: load_bytes_def)
next
  case True
  define n where "n = min64 (write_offset p) len"
  have n: "unat n = min (unat (write_offset p)) (unat len)" by (simp add: n_def unat_min64)
  have ret: "scast (ucast n :: u32) = n" "unat (ucast n :: u32) = unat n"
    using small by (simp_all add: n scast_ucast32 unat_trunc32)
  note reg = pipe_region [OF ok conjunct1 [OF True]]
  have "heap_sound mb (kheap s)" using ok by (simp add: pipe_ok_def)
  then have bufend: "unat buf + unat n \<le> 18446744073709551616" using window_nowrap [OF _ win] n by simp
  have apart: "unat buf + unat n \<le> unat (pipe_buffer p) \<or> unat (pipe_buffer p) + unat (buffer_size p) \<le> unat buf"
    using pipe_window_apart [OF ok conjunct1 [OF True] win] n by auto
  let ?b = "pipe_buffer p" and ?off = "write_offset p"
  have rest: "unat (?off - n) = unat ?off - unat n" using n by (simp add: unat_sub64 word_le_nat_alt)
  have start: "unat (?b + n) = unat ?b + unat n \<or> unat ?off - unat n = 0"
    using reg n unat_plus64 [of ?b n] by (auto split: if_splits)
  have "memcpy cpu buf ?b n (kmem s) = mem_copy buf ?b (unat n) (kmem s)"
    by (intro memcpy_mem_copy disjoint_up_ok;
        use reg apart n in \<open>unfold disjoint_regions_def no_wrap_def; linarith\<close>)
  moreover have "memmove cpu ?b (?b + n) (?off - n) m = mem_copy ?b (?b + n) (unat (?off - n)) m" for m
  proof (rule memmove_mem_copy)
    show "no_wrap ?b (?off - n)" using reg unfolding no_wrap_def rest by arith
    show "no_wrap (?b + n) (?off - n)"
      using start reg n unat_lt64 [of "?b + n"] unfolding no_wrap_def rest by arith
  qed
  ultimately obtain m1 m2 where m: "m1 = mem_copy buf ?b (unat n) (kmem s)"
      "m2 = mem_copy ?b (?b + n) (unat ?off - unat n) m1"
      "memcpy cpu buf ?b n (kmem s) = m1" "memmove cpu ?b (?b + n) (?off - n) m1 = m2"
    by (simp add: rest)
  let ?p' = "p\<lparr>write_offset := ?off - n\<rparr>"
  let ?s1 = "set_pipe a ?p' (s\<lparr>kmem := m2\<rparr>)"
  let ?s' = "if ?off - n = 0 then ?s1\<lparr>vnodes := (vnodes s)(node \<mapsto> v\<lparr>data_ready_to_read := False\<rparr>)\<rparr> else ?s1"
  have r: "v_pipe_read_locked cpu len buf node s = Some (ucast n, ?s')"
    unfolding v_pipe_read_locked_def node using True v m(3,4) ret(1) n_def [symmetric]
    by (cases "?off = n") (simp_all add: Let_def set_ready_def set_pipe_def)
  have same: "load_bytes m1 (?b + n) (unat ?off - unat n) = load_bytes (kmem s) (?b + n) (unat ?off - unat n)"
  proof (cases "unat ?off - unat n = 0")
    case False
    show ?thesis unfolding m(1) by (rule load_mem_copy_other)
      (use False start reg bufend apart n in arith)+
  qed (simp add: load_bytes_def)
  have "unat n \<le> unat ?off" using n by simp
  from load_bytes_take_drop [OF this, of "kmem s" ?b]
  have td: "take (unat n) (pipe_bytes s p) = load_bytes (kmem s) ?b (unat n)"
      "drop (unat n) (pipe_bytes s p) = load_bytes (kmem s) (?b + n) (unat ?off - unat n)"
    by (simp_all add: pipe_bytes_def)
  have "load_bytes m2 ?b (unat ?off - unat n) = load_bytes m1 (?b + n) (unat ?off - unat n)"
    unfolding m(2) by (rule mem_copy_load) (use unat_lt64 [of ?off] in arith)
  then have "load_bytes m2 ?b (unat ?off - unat n) = drop (unat n) (pipe_bytes s p)"
    by (simp only: same td)
  moreover have "load_bytes m2 buf (unat n) = load_bytes m1 buf (unat n)"
    unfolding m(2) by (rule load_mem_copy_other) (use reg n bufend apart in arith)+
  moreover have "load_bytes m1 buf (unat n) = take (unat n) (pipe_bytes s p)"
    unfolding m(1) td by (rule mem_copy_load) simp
  moreover have mem: "kmem ?s' = m2" by (simp add: set_pipe_def)
  moreover have "pipe_bytes ?s' ?p' = load_bytes m2 ?b (unat ?off - unat n)"
    unfolding pipe_bytes_def mem by (simp add: rest)
  ultimately have "pipe_bytes s p = load_bytes (kmem ?s') buf (unat (ucast n :: u32)) @ pipe_bytes ?s' ?p'"
    by (simp only: ret(2) append_take_drop_id)
  moreover have "pipe_ok mb a ?s' ?p'"
  proof (rule pipe_ok_shrink [OF ok])
    have "unat (?off - n) \<le> unat (buffer_size p)" using reg unfolding rest by arith
    then show "?off - n \<le> buffer_size p" by (simp add: word_le_nat_alt)
  qed (simp_all add: set_pipe_def)
  moreover have "unat (ucast n :: u32) = min (length (pipe_bytes s p)) (unat len)"
    using n ret(2) by (simp add: pipe_bytes_def)
  ultimately show ?thesis
    by (intro exI [of _ "ucast n"] exI [of _ ?s'] exI [of _ ?p'] conjI r) simp_all
qed

subsection \<open>Histories\<close>

text \<open>A history of a queue: what went in and what came out, in order, with other steps between.\<close>

inductive queue_run ::
  "('s \<Rightarrow> 'a list \<Rightarrow> 's \<Rightarrow> bool) \<Rightarrow> ('s \<Rightarrow> 'a list \<Rightarrow> 's \<Rightarrow> bool) \<Rightarrow> ('s \<Rightarrow> 's \<Rightarrow> bool) \<Rightarrow>
   's \<Rightarrow> 'a list \<Rightarrow> 'a list \<Rightarrow> 's \<Rightarrow> bool" for put get env where
  stop: "queue_run put get env s [] [] s"
| put: "put s xs t \<Longrightarrow> queue_run put get env t ins outs u \<Longrightarrow> queue_run put get env s (xs @ ins) outs u"
| get: "get s xs t \<Longrightarrow> queue_run put get env t ins outs u \<Longrightarrow> queue_run put get env s ins (xs @ outs) u"
| env: "env s t \<Longrightarrow> queue_run put get env t ins outs u \<Longrightarrow> queue_run put get env s ins outs u"

locale fifo =
  fixes ok :: "'s \<Rightarrow> bool"
    and contents :: "'s \<Rightarrow> 'a list"
    and put get :: "'s \<Rightarrow> 'a list \<Rightarrow> 's \<Rightarrow> bool"
    and env :: "'s \<Rightarrow> 's \<Rightarrow> bool"
  assumes put_law: "ok s \<Longrightarrow> put s xs t \<Longrightarrow> ok t \<and> contents t = contents s @ xs"
    and get_law: "ok s \<Longrightarrow> get s xs t \<Longrightarrow> ok t \<and> contents s = xs @ contents t"
    and env_law: "ok s \<Longrightarrow> env s t \<Longrightarrow> ok t \<and> contents t = contents s"
begin

lemma run_fifo:
  assumes "queue_run put get env s ins outs t" "ok s"
  shows "ok t \<and> contents s @ ins = outs @ contents t"
  using assms
proof (induction rule: queue_run.induct)
  case (put s xs t ins outs u)
  then show ?case using put_law by fastforce
next
  case (get s xs t ins outs u)
  then show ?case using get_law by fastforce
next
  case (env s t ins outs u)
  then show ?case using env_law by fastforce
qed simp

text \<open>Starting empty, what came out is a prefix of what went in, and the contents are the rest.\<close>

lemma run_prefix:
  assumes "queue_run put get env s ins outs t" "ok s" "contents s = []"
  shows "outs = take (length outs) ins \<and> contents t = drop (length outs) ins"
  using run_fifo [OF assms(1,2)] assms(3) by (simp add: append_eq_conv_conj)

end

definition the_pipe :: "addr \<Rightarrow> kernel \<Rightarrow> pipe_t" where
  "the_pipe a s = the (pipes s a)"

definition pipe_inv :: "u64 \<Rightarrow> addr \<Rightarrow> kernel \<Rightarrow> bool" where
  "pipe_inv mb a s \<longleftrightarrow> pipe_ok mb a s (the_pipe a s)"

definition contents_of :: "addr \<Rightarrow> kernel \<Rightarrow> u8 list" where
  "contents_of a s = pipe_bytes s (the_pipe a s)"

text \<open>A write and a read of the pipe at \<open>a\<close>, through windows of the heap; the write finds a reader and
  room in the heap, the read less than 2 GiB to take.\<close>

inductive pipe_put :: "cpu_features \<Rightarrow> u64 \<Rightarrow> addr \<Rightarrow> kernel \<Rightarrow> u8 list \<Rightarrow> kernel \<Rightarrow> bool" for cpu mb a s where
  "pipe_of node s = Some (a, p) \<Longrightarrow> read_node p \<noteq> 0 \<Longrightarrow> vnodes s (read_node p) = Some v \<Longrightarrow>
   write_room len p (kheap s) \<Longrightarrow> heap_window mb (kheap s) (pipe_buffer p) buf len \<Longrightarrow>
   v_pipe_write cpu mb len buf node s = Some (ret, t) \<Longrightarrow>
   pipe_put cpu mb a s (load_bytes (kmem s) buf (unat len)) t"

inductive pipe_get :: "cpu_features \<Rightarrow> u64 \<Rightarrow> addr \<Rightarrow> kernel \<Rightarrow> u8 list \<Rightarrow> kernel \<Rightarrow> bool" for cpu mb a s where
  "pipe_of node s = Some (a, p) \<Longrightarrow> vnodes s node = Some v \<Longrightarrow>
   min (unat (write_offset p)) (unat len) < 2147483648 \<Longrightarrow>
   heap_window mb (kheap s) (pipe_buffer p) buf len \<Longrightarrow>
   v_pipe_read_locked cpu len buf node s = Some (ret, t) \<Longrightarrow>
   pipe_get cpu mb a s (load_bytes (kmem t) buf (unat ret)) t"

text \<open>
  Anything else the kernel and its processes do between them: allocations, other pipes and files,
  writes to any memory, as long as the heap stays sound and the pipe's own structure, its live
  buffer and the bytes in it are left alone.
\<close>

definition other_step :: "u64 \<Rightarrow> addr \<Rightarrow> kernel \<Rightarrow> kernel \<Rightarrow> bool" where
  "other_step mb a s t \<longleftrightarrow> pipes t a = pipes s a \<and> heap_sound mb (kheap t) \<and>
     (let p = the_pipe a s in
      (\<forall>k. (pipe_buffer p, k) \<in> heap_live mb (kheap s) \<longrightarrow> (pipe_buffer p, k) \<in> heap_live mb (kheap t)) \<and>
      load_bytes (kmem t) (pipe_buffer p) (unat (write_offset p)) =
        load_bytes (kmem s) (pipe_buffer p) (unat (write_offset p)))"

lemma pipe_of_Some: "pipe_of node s = Some (a, p) \<Longrightarrow> pipes s a = Some p"
  by (auto simp: pipe_of_def split: bind_splits)

lemma other_step_keeps:
  assumes inv: "pipe_inv mb a s" and step: "other_step mb a s t"
  shows "pipe_inv mb a t \<and> contents_of a t = contents_of a s"
proof -
  have p: "the_pipe a t = the_pipe a s" using step by (simp add: other_step_def the_pipe_def)
  have "pipe_ok mb a t (the_pipe a s)"
    using inv step unfolding pipe_inv_def pipe_ok_def other_step_def Let_def by (auto split: if_splits)
  moreover have "pipe_bytes t (the_pipe a s) = pipe_bytes s (the_pipe a s)"
    using step by (simp add: other_step_def pipe_bytes_def Let_def)
  ultimately show ?thesis by (simp add: pipe_inv_def contents_of_def p)
qed

text \<open>Among these steps: an allocation, giving back another block, and a write to any region that is
  apart from the buffer.\<close>

lemma kmalloc_other:
  assumes inv: "pipe_inv mb a s" and room: "heap_room n (kheap s)" and r: "kmalloc mb n s = Some (q, t)"
  shows "other_step mb a s t"
proof -
  let ?p = "the_pipe a s"
  have ok: "pipe_ok mb a s ?p" using inv by (simp add: pipe_inv_def)
  then have sound: "heap_sound mb (kheap s)" by (simp add: pipe_ok_def)
  obtain m h k where t: "t = s\<lparr>kmem := m, kheap := h\<rparr>" "heap_sound mb h"
      "heap_live mb h = insert (q, k) (heap_live mb (kheap s))" "same_heap_bytes (kheap s) (kmem s) m"
    using kmalloc_fresh [OF sound room] r by auto
  have "load_bytes m (pipe_buffer ?p) (unat (write_offset ?p)) =
      load_bytes (kmem s) (pipe_buffer ?p) (unat (write_offset ?p))"
  proof (cases "pipe_buffer ?p = 0")
    case True
    then have "write_offset ?p = 0" using ok by (auto simp: pipe_ok_def)
    then show ?thesis by (simp add: load_bytes_def)
  next
    case False
    then obtain j where "(pipe_buffer ?p, j) \<in> heap_live mb (kheap s)" "write_offset ?p \<le> j"
      using ok by (auto simp: pipe_ok_def)
    then show ?thesis using load_same_heap [OF sound t(4)] by (simp add: word_le_nat_alt)
  qed
  then show ?thesis using t by (auto simp: other_step_def Let_def)
qed

lemma free_other:
  assumes inv: "pipe_inv mb a s" and live: "(q, k) \<in> heap_live mb (kheap s)" and ne: "q \<noteq> pipe_buffer (the_pipe a s)"
  shows "other_step mb a s (s\<lparr>kheap := free mb q (kheap s)\<rparr>)"
proof -
  have sound: "heap_sound mb (kheap s)" using inv by (simp add: pipe_inv_def pipe_ok_def)
  then show ?thesis using kernel_heap.dealloc_law [OF sound live] ne by (auto simp: other_step_def Let_def)
qed

lemma write_other:
  assumes "unat d + n \<le> unat (pipe_buffer p) \<or> unat (pipe_buffer p) + unat (write_offset p) \<le> unat d"
    and "unat d + n \<le> 18446744073709551616" and "pipe_inv mb a s" and "p = the_pipe a s"
  shows "other_step mb a s (s\<lparr>kmem := mem_copy d src n (kmem s)\<rparr>)"
proof -
  have ok: "pipe_ok mb a s p" using assms(3,4) by (simp add: pipe_inv_def)
  have "load_bytes (mem_copy d src n (kmem s)) (pipe_buffer p) (unat (write_offset p)) =
      load_bytes (kmem s) (pipe_buffer p) (unat (write_offset p))"
  proof (cases "pipe_buffer p = 0")
    case True
    then have "write_offset p = 0" using ok by (auto simp: pipe_ok_def)
    then show ?thesis by (simp add: load_bytes_def)
  next
    case False
    then show ?thesis using pipe_region [OF ok] assms(1,2) by (intro load_mem_copy_other) linarith+
  qed
  then show ?thesis using ok by (simp add: other_step_def pipe_ok_def assms(4) Let_def)
qed

interpretation kernel_pipe: fifo "pipe_inv mb a" "contents_of a" "pipe_put cpu mb a" "pipe_get cpu mb a"
  "other_step mb a" for cpu mb a
proof (unfold_locales)
  fix s xs t
  assume inv: "pipe_inv mb a s" and "pipe_put cpu mb a s xs t"
  from this(2) show "pipe_inv mb a t \<and> contents_of a t = contents_of a s @ xs"
  proof (cases rule: pipe_put.cases)
    case (1 node p v len buf ret)
    have p: "the_pipe a s = p" using pipe_of_Some [OF 1(2)] by (simp add: the_pipe_def)
    from inv have ok: "pipe_ok mb a s p" by (simp add: pipe_inv_def p)
    obtain s' p' where "v_pipe_write cpu mb len buf node s = Some (ucast len, s')" "pipe_ok mb a s' p'"
        "pipe_bytes s' p' = pipe_bytes s p @ load_bytes (kmem s) buf (unat len)"
      using pipe_write_appends [OF 1(2) ok 1(3-6), of cpu] by blast
    moreover from this(1) have "s' = t" using 1(7) by simp
    ultimately have "pipe_ok mb a t p'" "pipe_bytes t p' = pipe_bytes s p @ xs" using 1(1) by simp_all
    moreover from this have "the_pipe a t = p'" by (simp add: pipe_ok_def the_pipe_def)
    ultimately show ?thesis by (simp add: pipe_inv_def contents_of_def p)
  qed
next
  fix s xs t
  assume inv: "pipe_inv mb a s" and "pipe_get cpu mb a s xs t"
  from this(2) show "pipe_inv mb a t \<and> contents_of a s = xs @ contents_of a t"
  proof (cases rule: pipe_get.cases)
    case (1 node p v len buf ret)
    have p: "the_pipe a s = p" using pipe_of_Some [OF 1(2)] by (simp add: the_pipe_def)
    from inv have ok: "pipe_ok mb a s p" by (simp add: pipe_inv_def p)
    obtain ret' s' p' where "v_pipe_read_locked cpu len buf node s = Some (ret', s')" "pipe_ok mb a s' p'"
        "pipe_bytes s p = load_bytes (kmem s') buf (unat ret') @ pipe_bytes s' p'"
      using pipe_read_takes [OF 1(2) ok 1(3,5,4), of cpu] by blast
    moreover from this(1) have "ret' = ret" "s' = t" using 1(6) by simp_all
    ultimately have "pipe_ok mb a t p'" "pipe_bytes s p = xs @ pipe_bytes t p'" using 1(1) by simp_all
    moreover from this have "the_pipe a t = p'" by (simp add: pipe_ok_def the_pipe_def)
    ultimately show ?thesis by (simp add: pipe_inv_def contents_of_def p)
  qed
next
  fix s t
  assume "pipe_inv mb a s" "other_step mb a s t"
  then show "pipe_inv mb a t \<and> contents_of a t = contents_of a s" by (rule other_step_keeps)
qed

subsection \<open>Properties\<close>

text \<open>C15: A pipe is a first-in first-out queue of bytes: over any history of writes and reads through
  any of its descriptors, each moving bytes through a window the caller holds on the heap, with the
  pipe's buffer growing on the heap as needed and any other activity of the kernel in between that
  leaves the pipe's structure and the bytes of its buffer alone, what was read is a prefix of what
  was written, the rest is what the pipe holds, and the buffer stays a live heap block large enough
  for it. Every write finds room for its bytes in the heap.\<close>

theorem pipe_fifo:
  assumes "queue_run (pipe_put cpu mb a) (pipe_get cpu mb a) (other_step mb a) s ins outs t"
    and "pipe_inv mb a s" and "contents_of a s = []"
  shows "outs = take (length outs) ins \<and> contents_of a t = drop (length outs) ins \<and> pipe_inv mb a t"
  using kernel_pipe.run_prefix [OF assms] kernel_pipe.run_fifo [OF assms(1,2)] by blast

definition example_kernel :: kernel where
  "example_kernel = \<lparr>kmem = (\<lambda>a. ucast a), kheap = example_heap,
     vnodes = [1 \<mapsto> \<lparr>ref_count = 2, fs_identifier = 3, data_ready_to_read = False,
         file_operations = {V_open, V_close, V_read}\<rparr>,
       2 \<mapsto> \<lparr>ref_count = 2, fs_identifier = 3, data_ready_to_read = True,
         file_operations = {V_open, V_close, V_write}\<rparr>],
     pipes = [3 \<mapsto> \<lparr>write_node = 2, read_node = 1, pipe_buffer = 0, buffer_size = 0, write_offset = 0,
       pipe_refs = 4\<rparr>]\<rparr>"

lemma example_pipe_inv:
  "pipe_inv 0xffff800000000000 3 example_kernel \<and> contents_of 3 example_kernel = []"
  using example_heap_sound
  by (simp add: pipe_inv_def pipe_ok_def the_pipe_def contents_of_def pipe_bytes_def load_bytes_def
      example_kernel_def)

text \<open>A window of 100 bytes is allocated, its first three bytes go through the pipe to its fifth.\<close>

theorem pipe_fifo_witness:
  "\<exists>q s t u. kmalloc 0xffff800000000000 100 example_kernel = Some (q, s) \<and>
      pipe_put \<lparr>is_sse_enabled = True, is_avx_enabled = False, is_avx2_enabled = False,
        is_avx512_enabled = False\<rparr> 0xffff800000000000 3 s (load_bytes (kmem s) q 3) t \<and>
      v_pipe_read_locked \<lparr>is_sse_enabled = True, is_avx_enabled = False, is_avx2_enabled = False,
        is_avx512_enabled = False\<rparr> 3 (q + 4) 1 t = Some (3, u) \<and>
      load_bytes (kmem u) (q + 4) 3 = load_bytes (kmem s) q 3"
proof -
  let ?mb = "0xffff800000000000 :: u64"
  let ?cpu = "\<lparr>is_sse_enabled = True, is_avx_enabled = False, is_avx2_enabled = False, is_avx512_enabled = False\<rparr>"
  let ?p = "the_pipe 3 example_kernel" and ?v = "the (vnodes example_kernel 1)"
  obtain h where h: "malloc ?mb 100 example_heap = Some (0xffff900000000030, h)" "same_window example_heap h"
    using malloc_found [of ?mb example_heap "[]" "0xfd0" "[]" 100] example_heap_ok
    by (auto simp: round16_def example_heap_def)
  have room: "heap_room 100 (kheap example_kernel)" "heap_sound ?mb (kheap example_kernel)"
    using example_heap_room [of 100] example_heap_sound by (simp_all add: example_kernel_def)
  obtain q s k m where s: "kmalloc ?mb 100 example_kernel = Some (q, s)" "s = example_kernel\<lparr>kmem := m, kheap := h\<rparr>"
      "heap_sound ?mb h" "100 \<le> k" "q \<noteq> 0" "(q, k) \<in> heap_live ?mb h"
    using kmalloc_fresh [OF room(2,1)] h(1) by (auto simp: kmalloc_def example_kernel_def)
  have p: "pipe_of 2 s = Some (3, ?p)" "read_node ?p \<noteq> 0" "vnodes s (read_node ?p) = Some ?v" "the_pipe 3 s = ?p"
    by (simp_all add: s(2) example_kernel_def pipe_of_def the_pipe_def)
  have inv: "pipe_inv ?mb 3 s" "contents_of 3 s = []"
    using example_pipe_inv s(3) by (auto simp: pipe_inv_def pipe_ok_def the_pipe_def contents_of_def
        pipe_bytes_def load_bytes_def s(2) example_kernel_def)
  have "heap_room 3 h" using example_heap_room [of 3] by (simp add: same_window_room [OF h(2)])
  then have wr: "write_room 3 ?p (kheap s)"
    by (simp add: write_room_def s(2) example_kernel_def the_pipe_def)
  have q4: "unat (q + 4) = unat q + 4"
    using live_above [OF s(3,6)] s(4) by (subst unat_add64) (auto simp: word_le_nat_alt)
  have win: "heap_window ?mb (kheap s) (pipe_buffer ?p) q 3" "heap_window ?mb (kheap s) (pipe_buffer ?p) (q + 4) 3"
    unfolding heap_window_def q4 using s(4-6)
    by (intro exI [of _ q] exI [of _ k], simp add: s(2) example_kernel_def the_pipe_def word_le_nat_alt)+
  have ok: "pipe_ok ?mb 3 s ?p" using inv(1) p(4) by (simp add: pipe_inv_def)
  obtain t p' where t: "v_pipe_write ?cpu ?mb 3 q 2 s = Some (ucast (3 :: u64), t)" "pipe_ok ?mb 3 t p'"
      "pipe_bytes t p' = pipe_bytes s ?p @ load_bytes (kmem s) q (unat (3 :: u64))"
      "vnodes t = (vnodes s)(read_node ?p \<mapsto> ?v\<lparr>data_ready_to_read := True\<rparr>)"
      "\<forall>b n. heap_window ?mb (kheap s) (pipe_buffer ?p) b n \<longrightarrow> heap_window ?mb (kheap t) (pipe_buffer p') b n"
    using pipe_write_appends [OF p(1) ok p(2,3) wr win(1), of ?cpu] by blast
  have put: "pipe_put ?cpu ?mb 3 s (load_bytes (kmem s) q 3) t"
    using pipe_put.intros [OF p(1-3) wr win(1) t(1)] by simp
  have "pipe_bytes s ?p = []" by (simp add: pipe_bytes_def load_bytes_def the_pipe_def example_kernel_def)
  then have n: "length (pipe_bytes t p') = 3" using t(3) by simp
  then have small: "min (unat (write_offset p')) (unat (3 :: u64)) < 2147483648" by simp
  let ?v' = "?v\<lparr>data_ready_to_read := True\<rparr>"
  have node: "vnodes t 1 = Some ?v'" "pipe_of 1 t = Some (3, p')"
    using t(2,4) by (simp_all add: pipe_ok_def pipe_of_def the_pipe_def s(2) example_kernel_def)
  obtain ret u where u: "v_pipe_read_locked ?cpu 3 (q + 4) 1 t = Some (ret, u)" "unat ret = 3"
    using pipe_read_takes [OF node(2) t(2) node(1) _ small, of "q + 4" ?cpu] t(5) win(2) n by auto
  have "pipe_get ?cpu ?mb 3 t (load_bytes (kmem u) (q + 4) (unat ret)) u"
    using pipe_get.intros [OF node(2,1) small _ u(1)] t(5) win(2) by blast
  then have "queue_run (pipe_put ?cpu ?mb 3) (pipe_get ?cpu ?mb 3) (other_step ?mb 3) s
      (load_bytes (kmem s) q 3 @ []) (load_bytes (kmem u) (q + 4) 3 @ []) u"
    unfolding u(2) by (intro queue_run.intros(2) [where t = t] queue_run.intros(3) [where t = u] put queue_run.intros(1))
  from pipe_fifo [OF this inv] have "load_bytes (kmem u) (q + 4) 3 = load_bytes (kmem s) q 3" by simp
  moreover have "ret = 3" using u(2) by (simp add: word_unat_eq_iff)
  ultimately show ?thesis using s(1) put u(1) by blast
qed

text \<open>The first close of either end decides for all its holders, though further references
  remain: after one close of the writing end a reader of the drained pipe no longer waits and gets
  0 bytes, after one close of the reading end every write fails with EPIPE and changes nothing.\<close>

theorem pipe_first_close_decides:
  assumes "pipes s a = Some p" "pipe_refs p \<noteq> 1" "write_node p \<noteq> read_node p"
    and "write_node p \<noteq> 0" "read_node p \<noteq> 0"
    and "vnodes s (write_node p) = Some vw" "vnodes s (read_node p) = Some vr"
    and "fs_identifier vw = a" "fs_identifier vr = a"
  shows "\<exists>s1 s2. v_close mb (write_node p) s = Some s1 \<and> v_close mb (read_node p) s = Some s2 \<and>
    pipes s1 a = Some (p\<lparr>pipe_refs := pipe_refs p - 1, write_node := 0\<rparr>) \<and>
    pipe_wait (\<lambda>_. s1) (read_node p) 0 = Some 0 \<and>
    (write_offset p = 0 \<longrightarrow> v_pipe_read cpu (\<lambda>_. s1) len buf (read_node p) = Some (0, s1)) \<and>
    v_pipe_write cpu mb len buf (write_node p) s2 = Some (- EPIPE, s2)"
proof -
  have refs: "pipe_refs p - 1 \<noteq> 0" using assms(2) by simp
  let ?p1 = "p\<lparr>pipe_refs := pipe_refs p - 1, write_node := 0\<rparr>"
  let ?p2 = "p\<lparr>pipe_refs := pipe_refs p - 1, read_node := 0\<rparr>"
  let ?s1 = "s\<lparr>vnodes := (vnodes s)(read_node p \<mapsto> vr\<lparr>data_ready_to_read := True\<rparr>), pipes := (pipes s)(a \<mapsto> ?p1)\<rparr>"
  let ?s2 = "s\<lparr>pipes := (pipes s)(a \<mapsto> ?p2)\<rparr>"
  have "v_close mb (write_node p) s = Some ?s1"
    unfolding v_close_def pipe_of_def using assms refs
    by (simp add: Let_def set_ready_def set_pipe_def)
  moreover have "v_close mb (read_node p) s = Some ?s2"
    unfolding v_close_def pipe_of_def using assms refs by (simp add: Let_def set_pipe_def)
  moreover have node: "pipe_of (read_node p) ?s1 = Some (a, ?p1)" "pipe_of (write_node p) ?s2 = Some (a, ?p2)"
    using assms by (simp_all add: pipe_of_def)
  moreover have wait: "pipe_wait (\<lambda>_. ?s1) (read_node p) 0 = Some 0"
    by (subst pipe_wait.simps) (simp add: node)
  moreover have "v_pipe_read cpu (\<lambda>_. ?s1) len buf (read_node p) = Some (0, ?s1)" if "write_offset p = 0"
    unfolding v_pipe_read_def wait using that by (simp add: v_pipe_read_locked_def node)
  moreover have "v_pipe_write cpu mb len buf (write_node p) ?s2 = Some (- EPIPE, ?s2)"
    unfolding v_pipe_write_def node by simp
  ultimately show ?thesis by (intro exI [of _ ?s1] exI [of _ ?s2] conjI impI) simp_all
qed

theorem pipe_first_close_decides_witness:
  "\<exists>s2. v_close 0xffff800000000000 1 example_kernel = Some s2 \<and>
     v_pipe_write \<lparr>is_sse_enabled = True, is_avx_enabled = False, is_avx2_enabled = False,
        is_avx512_enabled = False\<rparr> 0xffff800000000000 4 100 2 s2 = Some (- EPIPE, s2)"
proof -
  let ?p = "the_pipe 3 example_kernel"
  have p: "pipes example_kernel 3 = Some ?p" "read_node ?p = 1" "write_node ?p = 2" "pipe_refs ?p = 4"
      "vnodes example_kernel 2 = Some (the (vnodes example_kernel 2))"
      "vnodes example_kernel 1 = Some (the (vnodes example_kernel 1))"
      "fs_identifier (the (vnodes example_kernel 2)) = 3" "fs_identifier (the (vnodes example_kernel 1)) = 3"
    by (simp_all add: example_kernel_def the_pipe_def)
  show ?thesis
    using pipe_first_close_decides [OF p(1) _ _ _ _ _ _ p(7,8), of "0xffff800000000000" _ 4 100] p(2-6)
    by auto
qed

end
