(* ===== verification/Events.thy ===== *)
theory Events
  imports Mem_Ops
begin

text \<open>
  Input event nodes (events.cpp): the ring of 256 events between a driver that writes and processes
  that read and block. The theory shows that the ring holds the last 255 events written and not
  yet read, that reading takes them in order, and when a reader returns. Writing one event and
  taking one hold the lock, so each is one step. The reader copies an event after it has released
  the lock, and blocks after it has released the lock, so that other processors may write before
  either; what they write before each step of the reader is given by a schedule.
\<close>

subsection \<open>Events\<close>

record input_event =
  ev_sec :: u64
  ev_usec :: u64
  ev_type :: u16
  ev_code :: u16
  ev_value :: u32

definition SIZEOF_input_event :: u64 where
  "SIZEOF_input_event = 24"

text \<open>An event as it lies in memory.\<close>

definition event_bytes :: "input_event \<Rightarrow> u8 list" where
  "event_bytes e = le_bytes 8 (ev_sec e) @ le_bytes 8 (ev_usec e) @ le_bytes 2 (ev_type e) @
     le_bytes 2 (ev_code e) @ le_bytes 4 (ev_value e)"

definition event_at :: "mem \<Rightarrow> addr \<Rightarrow> input_event" where
  "event_at m p = \<lparr>ev_sec = le_word (load_bytes m p 8), ev_usec = le_word (load_bytes m (p + 8) 8),
     ev_type = le_word (load_bytes m (p + 16) 2), ev_code = le_word (load_bytes m (p + 18) 2),
     ev_value = le_word (load_bytes m (p + 20) 4)\<rparr>"

subsection \<open>The ring\<close>

definition RING_SIZE :: u64 where
  "RING_SIZE = 256"

record event_node_t =
  event_ring :: "input_event list"
  head :: u64
  tail :: u64

definition new_event_node :: event_node_t where
  "new_event_node = \<lparr>event_ring = replicate 256 \<lparr>ev_sec = 0, ev_usec = 0, ev_type = 0, ev_code = 0, ev_value = 0\<rparr>,
     head = 0, tail = 0\<rparr>"

definition event_node_write :: "input_event \<Rightarrow> event_node_t \<Rightarrow> event_node_t" where
  "event_node_write event s =
     (let next_head = (head s + 1) mod RING_SIZE;
          s1 = (if next_head = tail s then s\<lparr>tail := (tail s + 1) mod RING_SIZE\<rparr> else s);
          s2 = s1\<lparr>event_ring := (event_ring s1)[unat (head s1) := event]\<rparr>
      in s2\<lparr>head := next_head\<rparr>)"

text \<open>The file operation: whole events only; \<^verbatim>\<open>count\<close> is an \<^verbatim>\<open>int\<close>.\<close>

fun event_write_loop :: "nat \<Rightarrow> mem \<Rightarrow> addr \<Rightarrow> event_node_t \<Rightarrow> event_node_t" where
  "event_write_loop 0 m p s = s"
| "event_write_loop (Suc n) m p s =
     event_write_loop n m (p + SIZEOF_input_event) (event_node_write (event_at m p) s)"

definition event_write :: "u64 \<Rightarrow> addr \<Rightarrow> mem \<Rightarrow> event_node_t \<Rightarrow> u32 \<times> event_node_t" where
  "event_write len buf m s =
     (let count = (ucast (len div SIZEOF_input_event) :: u32) in
      (count * 24, event_write_loop (nat (sint count)) m buf s))"

text \<open>
  Reading, beside processors that write: before step \<open>k\<close> of the reader they have written the events
  \<open>w k\<close>, one locked section each. A turn takes a step for its locked section and, behind the unlock,
  one for the copy, which reads the slot of the ring again. A turn on an empty ring ends the call if
  something was copied; otherwise the second step is \<^verbatim>\<open>Block\<close>, from which only an event written later
  wakes the reader.
\<close>

partial_function (option) event_wait :: "(nat \<Rightarrow> input_event list) \<Rightarrow> nat \<Rightarrow> nat option" where
  "event_wait w k = (if w k \<noteq> [] then Some k else event_wait w (k + 1))"

partial_function (option) event_read_loop ::
  "(nat \<Rightarrow> input_event list) \<Rightarrow> addr \<Rightarrow> u64 \<Rightarrow> nat \<Rightarrow> u64 \<Rightarrow> event_node_t \<Rightarrow> mem \<Rightarrow>
     (u64 \<times> event_node_t \<times> mem) option" where
  "event_read_loop w buffer count k bytes_copied s m =
     (if bytes_copied + SIZEOF_input_event \<le> count then
        let s = fold event_node_write (w k) s in
        if head s = tail s then
          if bytes_copied > 0 then Some (bytes_copied, s, m)
          else Option.bind (event_wait w (k + 2)) (\<lambda>i.
            event_read_loop w buffer count i bytes_copied (fold event_node_write (w (k + 1)) s) m)
        else
          let evt = unat (tail s);
              s1 = s\<lparr>tail := (tail s + 1) mod RING_SIZE\<rparr>;
              s2 = fold event_node_write (w (k + 1)) s1;
              m1 = store_bytes m (buffer + bytes_copied) (event_bytes (event_ring s2 ! evt))
          in event_read_loop w buffer count (k + 2) (bytes_copied + SIZEOF_input_event) s2 m1
      else Some (bytes_copied, s, m))"

definition event_read ::
  "(nat \<Rightarrow> input_event list) \<Rightarrow> addr \<Rightarrow> u64 \<Rightarrow> event_node_t \<Rightarrow> mem \<Rightarrow> (u32 \<times> event_node_t \<times> mem) option" where
  "event_read w buffer len s m =
     map_option (\<lambda>(n, s', m'). (ucast n, s', m')) (event_read_loop w buffer len 0 0 s m)"

subsection \<open>The ring as a list\<close>

definition ring_ok :: "event_node_t \<Rightarrow> bool" where
  "ring_ok s \<longleftrightarrow> length (event_ring s) = 256 \<and> head s < 256 \<and> tail s < 256"

definition pending_count :: "event_node_t \<Rightarrow> nat" where
  "pending_count s = (unat (head s) + 256 - unat (tail s)) mod 256"

definition pending :: "event_node_t \<Rightarrow> input_event list" where
  "pending s = map (\<lambda>i. event_ring s ! ((unat (tail s) + i) mod 256)) [0..<pending_count s]"

lemma ring_bounds: "ring_ok s \<Longrightarrow> unat (head s) < 256 \<and> unat (tail s) < 256"
  by (simp add: ring_ok_def word_less_nat_alt)

lemma unat_next: "x < 256 \<Longrightarrow> unat ((x + 1) mod RING_SIZE) = (unat x + 1) mod 256"
  by (simp add: RING_SIZE_def unat_mod word_less_nat_alt unat_add64)

lemma next_ok: "(x + 1) mod RING_SIZE < 256"
  by (simp add: RING_SIZE_def word_less_nat_alt unat_mod)

lemma mod256: "t < 256 \<Longrightarrow> i < 256 \<Longrightarrow> (t + i) mod 256 = (if t + i < 256 then t + i else t + i - (256 :: nat))"
  by (simp add: mod_if)

lemma ring_other:
  assumes "h < 256" "t < 256" "i < (if t \<le> h then h - t else h + 256 - t)"
  shows "(t + i) mod 256 \<noteq> (h :: nat)"
proof -
  have i: "i < 256" using assms by (simp split: if_splits)
  show ?thesis
  proof (cases "t + i < 256")
    case True
    then show ?thesis using assms by (cases "t \<le> h") simp_all
  next
    case False
    then have "(t + i) mod 256 = t + i - 256" using mod256 [OF assms(2) i] by simp
    then show ?thesis using assms False i by (cases "t \<le> h") simp_all
  qed
qed

lemma pending_count_cases:
  assumes "ring_ok s"
  shows "pending_count s = (if unat (tail s) \<le> unat (head s) then unat (head s) - unat (tail s)
    else unat (head s) + 256 - unat (tail s))"
  using ring_bounds [OF assms] by (auto simp: pending_count_def mod_if)

text \<open>Taking one event.\<close>

lemma take_event:
  assumes ok: "ring_ok s" and "head s \<noteq> tail s"
  shows "ring_ok (s\<lparr>tail := (tail s + 1) mod RING_SIZE\<rparr>) \<and>
    pending s = event_ring s ! unat (tail s) # pending (s\<lparr>tail := (tail s + 1) mod RING_SIZE\<rparr>)"
proof -
  let ?s = "s\<lparr>tail := (tail s + 1) mod RING_SIZE\<rparr>"
  have ok': "ring_ok ?s" using ok next_ok by (simp add: ring_ok_def)
  have t: "unat (tail ?s) = (unat (tail s) + 1) mod 256"
    using ok by (simp add: unat_next ring_ok_def)
  have ne: "unat (head s) \<noteq> unat (tail s)" using assms(2) by (simp add: word_unat_eq_iff)
  note b = ring_bounds [OF ok]
  have c: "pending_count s = Suc (pending_count ?s)"
    using b ne t by (auto simp: pending_count_cases [OF ok] pending_count_cases [OF ok'] mod_if)
  have "(unat (tail s) + Suc i) mod 256 = (unat (tail ?s) + i) mod 256" for i
    unfolding t by presburger
  then have "map (\<lambda>i. event_ring s ! ((unat (tail s) + Suc i) mod 256)) [0..<pending_count ?s] = pending ?s"
    by (simp add: pending_def)
  then have "pending s = event_ring s ! (unat (tail s) mod 256) # pending ?s"
    unfolding pending_def [of s] c upt_conv_Cons [OF zero_less_Suc]
    by (simp add: map_Suc_upt [symmetric] comp_def del: upt_Suc)
  then show ?thesis using b ok' by simp
qed

text \<open>Writing one event.\<close>

lemma write_event:
  assumes ok: "ring_ok s"
  shows "ring_ok (event_node_write e s) \<and>
    pending (event_node_write e s) = (if length (pending s) = 255 then tl (pending s) else pending s) @ [e]"
proof -
  let ?h = "(head s + 1) mod RING_SIZE"
  note b = ring_bounds [OF ok]
  have h: "unat ?h = (unat (head s) + 1) mod 256" using ok by (simp add: unat_next ring_ok_def)
  have full: "?h = tail s \<longleftrightarrow> length (pending s) = 255"
  proof -
    have "?h = tail s \<longleftrightarrow> (unat (head s) + 1) mod 256 = unat (tail s)" by (simp add: word_unat_eq_iff h)
    also have "\<dots> \<longleftrightarrow> pending_count s = 255"
      using b by (auto simp: pending_count_cases [OF ok] mod_if split: if_splits)
    finally show ?thesis by (simp add: pending_def)
  qed
  text \<open>Without the overtaking of the tail, the event goes behind the last one.\<close>
  have app: "ring_ok (r\<lparr>event_ring := (event_ring r)[unat (head r) := e], head := ?h\<rparr>) \<and>
      pending (r\<lparr>event_ring := (event_ring r)[unat (head r) := e], head := ?h\<rparr>) = pending r @ [e]"
    if r: "ring_ok r" "head r = head s" "pending_count r < 255" for r
  proof -
    let ?r = "r\<lparr>event_ring := (event_ring r)[unat (head r) := e], head := ?h\<rparr>"
    have ok': "ring_ok ?r" using r(1) next_ok by (simp add: ring_ok_def)
    note rb = ring_bounds [OF r(1)]
    have len: "length (event_ring r) = 256" using r(1) by (simp add: ring_ok_def)
    have c: "pending_count ?r = Suc (pending_count r)"
      unfolding pending_count_cases [OF ok'] pending_count_cases [OF r(1)]
      using rb r(3) [unfolded pending_count_cases [OF r(1)]] h
      by (auto simp: r(2) mod_if split: if_splits)
    have last: "(unat (tail r) + pending_count r) mod 256 = unat (head r)"
      using rb by (auto simp: pending_count_cases [OF r(1)] mod_if)
    have other: "(unat (tail r) + i) mod 256 \<noteq> unat (head r)" if "i < pending_count r" for i
      using ring_other rb that unfolding pending_count_cases [OF r(1)] by blast
    have "map (\<lambda>i. event_ring ?r ! ((unat (tail r) + i) mod 256)) [0..<pending_count r] = pending r"
      unfolding pending_def by (rule map_cong [OF refl]) (simp add: nth_list_update_neq [OF other [symmetric]])
    moreover have "event_ring ?r ! ((unat (tail r) + pending_count r) mod 256) = e"
      unfolding last using rb len by simp
    ultimately have "pending ?r = pending r @ [e]"
      unfolding pending_def [of ?r] c upt_Suc_append [OF le0] by simp
    then show ?thesis using ok' by blast
  qed
  show ?thesis
  proof (cases "?h = tail s")
    case False
    then have "pending_count s < 255"
      using full pending_count_cases [OF ok] b by (auto simp: pending_def pending_count_def)
    then show ?thesis using app [OF ok] False full by (simp add: event_node_write_def Let_def)
  next
    case True
    let ?s = "s\<lparr>tail := (tail s + 1) mod RING_SIZE\<rparr>"
    have ne: "head s \<noteq> tail s" using True h b by (auto simp: word_unat_eq_iff mod_if split: if_splits)
    note t = take_event [OF ok ne]
    then have "pending_count ?s < 255" using True full by (simp add: pending_def del: upt_Suc)
    moreover have "pending ?s = tl (pending s)" using t by simp
    ultimately show ?thesis using app [of ?s] t True full by (simp add: event_node_write_def Let_def)
  qed
qed

subsection \<open>The last 255 events\<close>

text \<open>The abstract node: a list that forgets its oldest event when it holds 255.\<close>

definition keep_last :: "nat \<Rightarrow> 'a list \<Rightarrow> 'a list" where
  "keep_last n xs = drop (length xs - n) xs"

lemma keep_last_keep_last: "keep_last n (keep_last n xs @ ys) = keep_last n (xs @ ys)"
  by (cases "n \<le> length xs") (simp_all add: keep_last_def add.commute)

lemma keep_last_snoc: "length xs \<le> 255 \<Longrightarrow>
    (if length xs = 255 then tl xs else xs) @ [e] = keep_last 255 (xs @ [e])"
  by (auto simp: keep_last_def drop_Suc [symmetric] tl_append2 drop_Suc)

lemma pending_le: "ring_ok s \<Longrightarrow> length (pending s) \<le> 255"
  by (simp add: pending_def pending_count_def less_Suc_eq_le [symmetric])

lemma fold_writes:
  assumes "ring_ok s"
  shows "ring_ok (fold event_node_write es s) \<and> pending (fold event_node_write es s) = keep_last 255 (pending s @ es)"
  using assms
proof (induction es arbitrary: s)
  case Nil
  then show ?case using pending_le by (simp add: keep_last_def)
next
  case (Cons e es)
  have "pending (event_node_write e s) = keep_last 255 (pending s @ [e])"
    using write_event [OF Cons.prems, of e] keep_last_snoc pending_le [OF Cons.prems] by metis
  then show ?case
    using Cons.IH [of "event_node_write e s"] write_event [OF Cons.prems, of e]
      keep_last_keep_last [of 255 "pending s @ [e]" es] by simp
qed

text \<open>C16: The ring never loses order or place: after any number of writes, from the constructed node or
  any later one, the events still to be read are the last 255 of those that were pending and
  those written, in the order of writing.\<close>

theorem event_ring_keeps_last:
  assumes "ring_ok s"
  shows "ring_ok (fold event_node_write es s) \<and>
    pending (fold event_node_write es s) = keep_last 255 (pending s @ es) \<and>
    ring_ok new_event_node \<and> pending new_event_node = []"
  using fold_writes [OF assms]
  by (simp add: new_event_node_def ring_ok_def pending_def pending_count_def)

theorem event_ring_keeps_last_witness:
  "pending (fold event_node_write
     (replicate 300 \<lparr>ev_sec = 1, ev_usec = 2, ev_type = 1, ev_code = 30, ev_value = 1\<rparr>) new_event_node) =
   replicate 255 \<lparr>ev_sec = 1, ev_usec = 2, ev_type = 1, ev_code = 30, ev_value = 1\<rparr>"
proof -
  define e where "e = \<lparr>ev_sec = 1, ev_usec = 2, ev_type = 1, ev_code = 30, ev_value = 1\<rparr>"
  have ok: "ring_ok new_event_node" by (simp add: new_event_node_def ring_ok_def)
  have "keep_last 255 (replicate 300 e) = replicate 255 e" by (simp add: keep_last_def)
  then show ?thesis using event_ring_keeps_last [OF ok, of "replicate 300 e"]
    by (simp del: fold_replicate flip: e_def)
qed

subsection \<open>Reading\<close>

lemma length_event_bytes [simp]: "length (event_bytes e) = 24"
  by (simp add: event_bytes_def le_bytes_def)

text \<open>While the ring does not overflow, writes keep the slot in front of the tail.\<close>

lemma fold_writes_room:
  assumes "ring_ok s" "length (pending s) + length es \<le> 255"
  shows "ring_ok (fold event_node_write es s)" "pending (fold event_node_write es s) = pending s @ es"
  using fold_writes [OF assms(1), of es] assms(2) by (simp_all add: keep_last_def)

lemma mod_slot: "c < 255 \<Longrightarrow> t < 256 \<Longrightarrow> ((t + 1) mod 256 + c) mod 256 \<noteq> (t :: nat)"
  by (auto simp: mod_if split: if_splits)

lemma mod_not_full: "c < 255 \<Longrightarrow> t < 256 \<Longrightarrow> ((t + c) mod 256 + 1) mod 256 \<noteq> (t :: nat)"
  by (auto simp: mod_if split: if_splits)

lemma taken_slot_kept:
  assumes "ring_ok s" "t < 256" "unat (tail s) = (t + 1) mod 256" "length (pending s) + length es \<le> 255"
  shows "event_ring (fold event_node_write es s) ! t = event_ring s ! t"
  using assms
proof (induction es arbitrary: s)
  case (Cons e es)
  note b = ring_bounds [OF Cons.prems(1)]
  have c: "pending_count s < 255" using Cons.prems(4) by (simp add: pending_def)
  have h: "unat (head s) = (unat (tail s) + pending_count s) mod 256"
    using b by (auto simp: pending_count_cases [OF Cons.prems(1)] mod_if)
  have "unat (head s) \<noteq> t" unfolding h Cons.prems(3) by (rule mod_slot [OF c Cons.prems(2)])
  moreover have nf: "(head s + 1) mod RING_SIZE \<noteq> tail s"
  proof
    assume "(head s + 1) mod RING_SIZE = tail s"
    then have "(unat (head s) + 1) mod 256 = unat (tail s)"
      using unat_next [of "head s"] Cons.prems(1) by (simp add: ring_ok_def)
    then show False using mod_not_full [OF c, of "unat (tail s)"] b unfolding h by simp
  qed
  ultimately have w: "event_ring (event_node_write e s) ! t = event_ring s ! t" "tail (event_node_write e s) = tail s"
    by (simp_all add: event_node_write_def Let_def)
  have ok: "ring_ok (event_node_write e s)" and p: "pending (event_node_write e s) = pending s @ [e]"
    using fold_writes_room [OF Cons.prems(1), of "[e]"] Cons.prems(4) by simp_all
  have "event_ring (fold event_node_write es (event_node_write e s)) ! t = event_ring (event_node_write e s) ! t"
    by (rule Cons.IH [OF ok Cons.prems(2)]) (use Cons.prems(3,4) w p in simp_all)
  then show ?case using w by simp
qed simp

text \<open>What is written from step \<open>k\<close> on, when nothing is from step \<open>K\<close> on.\<close>

definition to_come :: "nat \<Rightarrow> (nat \<Rightarrow> input_event list) \<Rightarrow> nat \<Rightarrow> input_event list" where
  "to_come K w k = concat (map w [k..<K])"

lemma to_come_step: "\<forall>i \<ge> K. w i = [] \<Longrightarrow> to_come K w k = w k @ to_come K w (k + 1)"
  by (cases "k < K") (simp_all add: to_come_def upt_conv_Cons)

lemma written_step: "k < j \<Longrightarrow> concat (map w [k..<j]) = w k @ concat (map w [k + 1..<j])"
  by (simp add: upt_conv_Cons)

lemma event_read_loop_takes:
  assumes "ring_ok s" "\<forall>i \<ge> K. w i = []" "length (pending s @ to_come K w k) \<le> 255"
    and "unat count + 24 < 18446744073709551616" "b \<le> count" "b > 0 \<or> pending s @ w k \<noteq> [] \<or> \<not> b + 24 \<le> count"
  shows "\<exists>n s' j. event_read_loop w buf count k b s m =
      Some (b + of_nat (24 * n), s', store_bytes m (buf + b) (concat (map event_bytes (take n (pending s @ to_come K w k))))) \<and>
    n \<le> length (pending s @ to_come K w k) \<and> unat b + 24 * n \<le> unat count \<and>
    (b + 24 \<le> count \<and> pending s @ w k \<noteq> [] \<longrightarrow> 0 < n) \<and> ring_ok s' \<and> k \<le> j \<and>
    pending s' = drop n (pending s @ concat (map w [k..<j])) \<and>
    (unat b + 24 * n + 24 \<le> unat count \<longrightarrow> pending s' = [])"
  using assms
proof (induction "length (pending s @ to_come K w k)" arbitrary: s k b m rule: less_induct)
  case less
  have sum: "unat (b + 24) = unat b + 24"
    using less.prems(4,5) by (intro trans [OF unat_add64]) (auto simp: word_le_nat_alt)
  define r where "r = fold event_node_write (w k) s"
  have come: "to_come K w k = w k @ w (k + 1) @ to_come K w (k + 2)"
    using to_come_step [OF less.prems(2), of k] to_come_step [OF less.prems(2), of "k + 1"] by simp
  have r: "ring_ok r" "pending r = pending s @ w k"
    unfolding r_def using fold_writes_room [OF less.prems(1), of "w k"] less.prems(3) come by simp_all
  show ?case
  proof (cases "b + 24 \<le> count")
    case False
    then have "event_read_loop w buf count k b s m = Some (b, s, m)"
      by (subst event_read_loop.simps) (simp add: SIZEOF_input_event_def)
    moreover have "\<not> unat b + 24 \<le> unat count" using False sum by (simp add: word_le_nat_alt)
    ultimately show ?thesis using False less.prems(1,5)
      by (intro exI [of _ 0] exI [of _ s] exI [of _ k]) (simp add: word_le_nat_alt)
  next
    case True
    show ?thesis
    proof (cases "head r = tail r")
      case empty: True
      then have none: "pending s @ w k = []" unfolding r(2) [symmetric] by (simp add: pending_def pending_count_def)
      then have "b > 0" using less.prems(6) True by simp
      then have "event_read_loop w buf count k b s m = Some (b, r, m)"
        using True empty by (subst event_read_loop.simps) (simp add: SIZEOF_input_event_def r_def [symmetric])
      then show ?thesis using none r less.prems(5)
        by (intro exI [of _ 0] exI [of _ r] exI [of _ "k + 1"]) (simp add: word_le_nat_alt)
    next
      case ne: False
      let ?t = "unat (tail r)"
      define r1 where "r1 = r\<lparr>tail := (tail r + 1) mod RING_SIZE\<rparr>"
      define r2 where "r2 = fold event_node_write (w (k + 1)) r1"
      define e where "e = event_ring r ! ?t"
      have r1: "ring_ok r1" "pending r = e # pending r1" "event_ring r1 = event_ring r" "unat (tail r1) = (?t + 1) mod 256"
        using take_event [OF r(1) ne] r(1) by (simp_all add: r1_def e_def unat_next ring_ok_def)
      have room: "length (pending r1) + length (w (k + 1)) \<le> 255"
      proof -
        have "length (pending r) = Suc (length (pending r1))" using r1(2) by simp
        moreover have "length (pending r) = length (pending s) + length (w k)" using r(2) by simp
        ultimately show ?thesis using less.prems(3) come by simp
      qed
      have r2: "ring_ok r2" "pending r2 = pending r1 @ w (k + 1)"
        unfolding r2_def using fold_writes_room [OF r1(1) room] by simp_all
      have slot: "event_ring r2 ! ?t = e"
        unfolding r2_def using taken_slot_kept [OF r1(1) _ r1(4) room] ring_bounds [OF r(1)] r1(3) by (simp add: e_def)
      let ?m = "store_bytes m (buf + b) (event_bytes e)"
      have step: "event_read_loop w buf count k b s m = event_read_loop w buf count (k + 2) (b + 24) r2 ?m"
        using True ne slot
        by (subst event_read_loop.simps)
          (simp add: Let_def SIZEOF_input_event_def r_def [symmetric] r1_def [symmetric] r2_def [symmetric, simplified])
      have all: "pending s @ to_come K w k = e # (pending r2 @ to_come K w (k + 2))"
        using r(2) r1(2) r2(2) come by (metis append.assoc append_Cons)
      have pos: "b + 24 > 0" "b + 24 \<le> count" using sum True by (simp_all add: word_less_nat_alt)
      obtain n s' j where ih: "event_read_loop w buf count (k + 2) (b + 24) r2 ?m =
          Some (b + 24 + of_nat (24 * n), s', store_bytes ?m (buf + (b + 24)) (concat (map event_bytes (take n (pending r2 @ to_come K w (k + 2))))))"
        "n \<le> length (pending r2 @ to_come K w (k + 2))" "unat (b + 24) + 24 * n \<le> unat count"
        "ring_ok s'" "k + 2 \<le> j" "pending s' = drop n (pending r2 @ concat (map w [k + 2..<j]))"
        "unat (b + 24) + 24 * n + 24 \<le> unat count \<longrightarrow> pending s' = []"
      proof -
        have "length (pending r2 @ to_come K w (k + 2)) < length (pending s @ to_come K w k)" unfolding all by simp
        moreover have "length (pending r2 @ to_come K w (k + 2)) \<le> 255" using less.prems(3) unfolding all by simp
        ultimately show thesis
          using less.hyps [of r2 "k + 2" "b + 24" ?m] r2(1) less.prems(2,4) pos that by blast
      qed
      have "length (event_bytes e) + length (concat (map event_bytes (take n (pending r2 @ to_come K w (k + 2))))) \<le> 18446744073709551616"
        using less.prems(4) ih(3) by (simp add: length_concat comp_def sum_list_triv)
      from store_bytes_append [OF this, of m "buf + b"]
      have mem: "store_bytes ?m (buf + (b + 24)) (concat (map event_bytes (take n (pending r2 @ to_come K w (k + 2)))))
          = store_bytes m (buf + b) (concat (map event_bytes (take (Suc n) (pending s @ to_come K w k))))"
        by (simp add: all add.assoc)
      have "pending s @ concat (map w [k..<j]) = e # (pending r2 @ concat (map w [k + 2..<j]))"
        using ih(5) written_step [of k j w] written_step [of "k + 1" j w] r(2) r1(2) r2(2)
        by simp
      then have "pending s' = drop (Suc n) (pending s @ concat (map w [k..<j]))" using ih(6) by simp
      then show ?thesis
        using ih sum mem all unfolding step
        by (intro exI [of _ "Suc n"] exI [of _ s'] exI [of _ j]) (simp add: algebra_simps)
    qed
  qed
qed

lemma event_bytes_at: "event_bytes (event_at m p) = load_bytes m p 24"
proof -
  have "load_bytes m p 24 = load_bytes m p 8 @ load_bytes m (p + 8) 8 @ load_bytes m (p + 16) 2 @
      load_bytes m (p + 18) 2 @ load_bytes m (p + 20) 4"
    using load_bytes_append [of m p 8 16] load_bytes_append [of m "p + 8" 8 8]
      load_bytes_append [of m "p + 16" 2 6] load_bytes_append [of m "p + 18" 2 4]
    by (simp add: add.assoc)
  then show ?thesis by (simp add: event_bytes_def event_at_def le_bytes_word)
qed

lemma event_write_loop_fold:
  "event_write_loop n m p s = fold event_node_write (map (\<lambda>i. event_at m (p + 24 * of_nat i)) [0..<n]) s"
proof (induction n arbitrary: p s)
  case (Suc n)
  have "map (\<lambda>i. event_at m (p + 24 * of_nat i)) [0..<Suc n] =
      event_at m p # map (\<lambda>i. event_at m (p + 24 + 24 * of_nat i)) [0..<n]"
    by (simp add: upt_conv_Cons map_Suc_upt [symmetric] comp_def algebra_simps del: upt_Suc)
  then show ?case using Suc.IH by (simp add: SIZEOF_input_event_def del: upt_Suc)
qed simp

lemma events_bytes:
  "concat (map event_bytes (map (\<lambda>i. event_at m (p + 24 * of_nat i)) [0..<n])) = load_bytes m p (24 * n)"
proof (induction n)
  case (Suc n)
  have "load_bytes m p (24 * Suc n) = load_bytes m p (24 * n) @ load_bytes m (p + of_nat (24 * n)) 24"
    using load_bytes_append [of m p "24 * n" 24] by (simp only: mult_Suc_right add.commute)
  then show ?case using Suc by (simp add: event_bytes_at)
qed (simp add: load_bytes_def)

text \<open>Waiting for an event.\<close>

lemma event_wait_first:
  assumes "w j \<noteq> []" "k \<le> j"
  shows "\<exists>i. event_wait w k = Some i \<and> k \<le> i \<and> w i \<noteq> [] \<and> (\<forall>l. k \<le> l \<and> l < i \<longrightarrow> w l = [])"
  using assms(2)
proof (induction "j - k" arbitrary: k)
  case 0
  then show ?case using assms(1) by (subst event_wait.simps) auto
next
  case (Suc n)
  show ?case
  proof (cases "w k = []")
    case False
    then show ?thesis by (subst event_wait.simps) auto
  next
    case True
    have "n = j - (k + 1)" "k + 1 \<le> j" using Suc.hyps(2) by simp_all
    from Suc.hyps(1) [OF this] obtain i where i: "event_wait w (k + 1) = Some i" "k + 1 \<le> i" "w i \<noteq> []"
      "\<forall>l. k + 1 \<le> l \<and> l < i \<longrightarrow> w l = []" by blast
    have "w l = []" if "k \<le> l" "l < i" for l using that True i(4) by (cases "l = k") simp_all
    then show ?thesis using True i by (subst event_wait.simps) auto
  qed
qed

lemma event_wait_never:
  assumes "\<forall>i \<ge> k. w i = []"
  shows "event_wait w k = None"
proof -
  have "w i \<noteq> [] \<and> j \<le> i" if run: "event_wait w j = Some i" for i j
  proof (rule event_wait.raw_induct [where P = "\<lambda>w' j i. w' i \<noteq> [] \<and> j \<le> i", OF _ run])
    fix ew :: "(nat \<Rightarrow> input_event list) \<Rightarrow> nat \<Rightarrow> nat option" and w' j i
    assume ih: "\<And>w' j i. ew w' j = Some i \<Longrightarrow> w' i \<noteq> [] \<and> j \<le> i"
      and run: "(if w' j \<noteq> [] then Some j else ew w' (j + 1)) = Some i"
    show "w' i \<noteq> [] \<and> j \<le> i"
    proof (cases "w' j = []")
      case True
      then have "w' i \<noteq> [] \<and> j + 1 \<le> i" using run ih [of w' "j + 1" i] by simp
      then show ?thesis by simp
    qed (use run in simp)
  qed
  then show ?thesis using assms by (cases "event_wait w k") blast+
qed

lemma trunc_of_nat: "n < 4294967296 \<Longrightarrow> (ucast (of_nat n :: u64) :: u32) = of_nat n"
  by (simp add: word_unat_eq_iff unat_trunc32 unat_of_nat64 unat_of_nat)

text \<open>C17: A read beside processors that write, while the ring does not overflow. A reader that finds
  nothing at its first look and in whose \<^verbatim>\<open>Block\<close> no event is written never returns, even if events
  came between the look and the \<^verbatim>\<open>Block\<close>, which does not look again. In every other case it returns
  with the oldest \<open>n > 0\<close> events, pending ones first and then those written in the meantime, in their
  order and with the rest of its memory untouched; it leaves the others in the ring, and it stops before
  its buffer is full only on an empty ring. It may return with fewer than a writer writes in one call.\<close>

theorem event_read_gets_written:
  assumes "ring_ok s" "\<forall>i \<ge> K. w i = []" "length (pending s @ to_come K w 0) \<le> 255"
    and "24 \<le> unat len" "unat len + 24 < 18446744073709551616"
  shows "if pending s @ w 0 = [] \<and> (\<forall>i \<ge> 2. w i = []) then event_read w buf len s m = None
    else \<exists>n s' j. event_read w buf len s m =
        Some (of_nat (24 * n), s', store_bytes m buf (concat (map event_bytes (take n (pending s @ to_come K w 0))))) \<and>
      0 < n \<and> n \<le> length (pending s @ to_come K w 0) \<and> 24 * n \<le> unat len \<and> ring_ok s' \<and>
      pending s' = drop n (pending s @ concat (map w [0..<j])) \<and>
      (24 * n + 24 \<le> unat len \<longrightarrow> pending s' = [])"
proof -
  have len: "24 \<le> len" "(0 :: u64) + 24 \<le> len" using assms(4) by (simp_all add: word_le_nat_alt)
  have come: "to_come K w 0 = w 0 @ w 1 @ to_come K w 2"
    using to_come_step [OF assms(2), of 0] to_come_step [OF assms(2), of 1] by (simp add: numeral_2_eq_2)
  have word: "ucast (of_nat (24 * n) :: u64) = (of_nat (24 * n) :: u32)" if "n \<le> 255" for n
    using that by (intro trunc_of_nat) simp
  show ?thesis
  proof (cases "pending s @ w 0 = []")
    case False
    then obtain n s' j where "event_read_loop w buf len 0 0 s m = Some (0 + of_nat (24 * n), s',
        store_bytes m (buf + 0) (concat (map event_bytes (take n (pending s @ to_come K w 0)))))"
      "n \<le> length (pending s @ to_come K w 0)" "unat (0 :: u64) + 24 * n \<le> unat len" "0 < n" "ring_ok s'"
      "pending s' = drop n (pending s @ concat (map w [0..<j]))"
      "unat (0 :: u64) + 24 * n + 24 \<le> unat len \<longrightarrow> pending s' = []"
      using event_read_loop_takes [OF assms(1-3,5), of 0 buf m] len(2) by auto
    moreover have c: "\<not> (pending s @ w 0 = [] \<and> (\<forall>i \<ge> 2. w i = []))" using False by blast
    ultimately show ?thesis using word [of n] assms(3) unfolding if_not_P [OF c] event_read_def
      by (intro exI [of _ n] exI [of _ s'] exI [of _ j]) simp
  next
    case True
    define r where "r = fold event_node_write (w 1) s"
    have r: "ring_ok r" "pending r = pending s @ w 1"
      unfolding r_def using fold_writes_room [OF assms(1), of "w 1"] assms(3) come by simp_all
    have "head s = tail s"
    proof (rule ccontr)
      assume "head s \<noteq> tail s"
      then show False using take_event [OF assms(1)] True by simp
    qed
    then have blocks: "event_read_loop w buf len 0 0 s m = Option.bind (event_wait w 2) (\<lambda>i. event_read_loop w buf len i 0 r m)"
      using True len(1) by (subst event_read_loop.simps) (simp add: SIZEOF_input_event_def r_def numeral_2_eq_2)
    show ?thesis
    proof (cases "\<forall>i \<ge> 2. w i = []")
      case never: True
      then show ?thesis using True blocks event_wait_never [of 2 w] by (simp add: event_read_def)
    next
      case False
      then obtain j where "w j \<noteq> []" "2 \<le> j" by blast
      then obtain i where i: "event_wait w 2 = Some i" "2 \<le> i" "w i \<noteq> []" "\<forall>l. 2 \<le> l \<and> l < i \<longrightarrow> w l = []"
        using event_wait_first by blast
      have none: "concat (map w [2..<i]) = []" using i(4) by simp
      have upto: "concat (map w [2..<q]) = concat (map w [i..<q])" if "i \<le> q" for q
        using upt_add_eq_append [of 2 i "q - i"] i(2) that none by simp
      have "i < K" using assms(2) i(3) by (meson not_le)
      then have "to_come K w 2 = to_come K w i" using upto [of K] by (simp add: to_come_def)
      then have all: "pending s @ to_come K w 0 = pending r @ to_come K w i" using come r(2) True by simp
      have "length (pending r @ to_come K w i) \<le> 255" using assms(3) unfolding all .
      then obtain n s' q where loop: "event_read_loop w buf len i 0 r m = Some (0 + of_nat (24 * n), s',
          store_bytes m (buf + 0) (concat (map event_bytes (take n (pending r @ to_come K w i)))))"
        "n \<le> length (pending r @ to_come K w i)" "unat (0 :: u64) + 24 * n \<le> unat len" "0 < n" "ring_ok s'" "i \<le> q"
        "pending s' = drop n (pending r @ concat (map w [i..<q]))"
        "unat (0 :: u64) + 24 * n + 24 \<le> unat len \<longrightarrow> pending s' = []"
        using event_read_loop_takes [OF r(1) assms(2) _ assms(5), of i 0 buf m] len(2) i(3) by auto
      have "concat (map w [0..<q]) = w 1 @ concat (map w [i..<q])"
        using written_step [of 0 q w] written_step [of 1 q w] upto [of q] loop(6) i(2) True by (simp add: numeral_2_eq_2)
      then have "pending s' = drop n (pending s @ concat (map w [0..<q]))" using loop(7) r(2) True by simp
      moreover have c: "\<not> (pending s @ w 0 = [] \<and> (\<forall>i \<ge> 2. w i = []))" using False by blast
      ultimately show ?thesis using blocks i(1) loop word [of n] assms(3) unfolding if_not_P [OF c] event_read_def all
        by (intro exI [of _ n] exI [of _ s'] exI [of _ q]) simp
    qed
  qed
qed

text \<open>Three events of one write, of which the first comes before the reader looks again and the others
  after it has returned; and one event that comes between the look and the block.\<close>

definition example_event :: input_event where
  "example_event = \<lparr>ev_sec = 1, ev_usec = 2, ev_type = 1, ev_code = 30, ev_value = 1\<rparr>"

theorem event_read_gets_written_witness:
  "(\<exists>n s' m'. event_read (\<lambda>i. if i = 7 then [example_event] else if i = 9 then [example_event] else []) 0x2000 100 new_event_node (\<lambda>_. 0) =
      Some (of_nat (24 * n), s', m') \<and> 0 < n \<and> n \<le> 2) \<and>
   event_read (\<lambda>i. if i = 1 then [example_event] else []) 0x2000 100 new_event_node (\<lambda>_. 0) = None"
proof -
  have ok: "ring_ok new_event_node" and none: "pending new_event_node = []"
    by (simp_all add: new_event_node_def ring_ok_def pending_def pending_count_def)
  define w where "w = (\<lambda>i :: nat. if i = 7 then [example_event] else if i = 9 then [example_event] else [])"
  have "\<forall>i \<ge> 10. w i = []" "length (pending new_event_node @ to_come 10 w 0) = 2" "\<not> (\<forall>i \<ge> 2. w i = [])"
    by (auto simp: w_def none to_come_def upt_rec [of _ 10])
  then have "\<exists>n s' m'. event_read w 0x2000 100 new_event_node (\<lambda>_. 0) = Some (of_nat (24 * n), s', m') \<and> 0 < n \<and> n \<le> 2"
    using event_read_gets_written [OF ok, of 10 w 100 "0x2000" "\<lambda>_. 0"] by (auto simp del: append.simps split: if_splits)
  moreover have "event_read (\<lambda>i. if i = 1 then [example_event] else []) 0x2000 100 new_event_node (\<lambda>_. 0) = None"
    using event_read_gets_written [OF ok, of 2 "\<lambda>i. if i = 1 then [example_event] else []" 100 "0x2000" "\<lambda>_. 0"]
    by (simp add: none to_come_def upt_rec [of _ 2])
  ultimately show ?thesis unfolding w_def by blast
qed

end
