(* ===== verification/CStr.thy ===== *)
theory CStr
  imports Pipes "HOL-Library.Signed_Division"
begin

text \<open>
  The string library (cstr.cpp) on byte memory. A C string is a run of non-zero bytes with a zero
  behind it; a scanning loop that never meets its zero is \<open>None\<close>. The theory shows that the
  scanners compute what their names say on the string they are given, that printing a number and
  parsing it is the identity, and that \<^verbatim>\<open>strtok_r\<close> enumerates the tokens of a path.
  \<^verbatim>\<open>char\<close> is signed; static buffers are passed by their address.
\<close>

subsection \<open>C strings\<close>

fun cstr :: "mem \<Rightarrow> addr \<Rightarrow> u8 list \<Rightarrow> bool" where
  "cstr m p [] \<longleftrightarrow> m p = 0"
| "cstr m p (c # s) \<longleftrightarrow> m p = c \<and> c \<noteq> 0 \<and> cstr m (p + 1) s"

subsection \<open>Lengths and comparisons\<close>

partial_function (option) strlen_loop :: "mem \<Rightarrow> addr \<Rightarrow> u64 \<Rightarrow> u64 option" where
  "strlen_loop m str sz = (if m str \<noteq> 0 then strlen_loop m (str + 1) (sz + 1) else Some sz)"

definition strlen :: "mem \<Rightarrow> addr \<Rightarrow> u64 option" where
  "strlen m string = (if string = 0 then Some 0 else strlen_loop m string 0)"

partial_function (option) strcmp :: "mem \<Rightarrow> addr \<Rightarrow> addr \<Rightarrow> int option" where
  "strcmp m str1 str2 =
     (if m str1 \<noteq> 0 \<and> m str1 = m str2 then strcmp m (str1 + 1) (str2 + 1)
      else Some (sint (m str1) - sint (m str2)))"

partial_function (option) strncmp_loop :: "mem \<Rightarrow> addr \<Rightarrow> addr \<Rightarrow> u64 \<Rightarrow> u64 \<Rightarrow> int option" where
  "strncmp_loop m str1 str2 sz i =
     (if i < sz then
        if m (str1 + i) \<noteq> m (str2 + i) then Some (uint (m (str1 + i)) - uint (m (str2 + i)))
        else strncmp_loop m str1 str2 sz (i + 1)
      else Some 0)"

definition strncmp :: "mem \<Rightarrow> addr \<Rightarrow> addr \<Rightarrow> u64 \<Rightarrow> int option" where
  "strncmp m str1 str2 sz = strncmp_loop m str1 str2 sz 0"

subsection \<open>Searching\<close>

partial_function (option) is_delim :: "mem \<Rightarrow> u8 \<Rightarrow> addr \<Rightarrow> bool option" where
  "is_delim m c delim =
     (if m delim \<noteq> 0 then if c = m delim then Some True else is_delim m c (delim + 1) else Some False)"

partial_function (option) strchr :: "mem \<Rightarrow> addr \<Rightarrow> u32 \<Rightarrow> addr option" where
  "strchr m String ch =
     (if m String \<noteq> 0 then if m String = ucast ch then Some String else strchr m (String + 1) ch
      else Some 0)"

text \<open>Here the character is compared as an \<^verbatim>\<open>int\<close>, after sign extension.\<close>

partial_function (option) strrchr_loop :: "mem \<Rightarrow> addr \<Rightarrow> u32 \<Rightarrow> addr \<Rightarrow> addr option" where
  "strrchr_loop m c chr last_occurance =
     (if m c \<noteq> 0 then
        if scast (m c) \<noteq> chr then strrchr_loop m (c + 1) chr last_occurance
        else strrchr_loop m (c + 1) chr c
      else Some last_occurance)"

definition strrchr :: "mem \<Rightarrow> addr \<Rightarrow> u32 \<Rightarrow> addr option" where
  "strrchr m str chr = strrchr_loop m str chr 0"

text \<open>The inner loop of \<^verbatim>\<open>strstr\<close>: where the two pointers stop.\<close>

partial_function (option) strstr_match :: "mem \<Rightarrow> addr \<Rightarrow> addr \<Rightarrow> addr option" where
  "strstr_match m p1 p2 =
     (if m p1 \<noteq> 0 \<and> m p2 \<noteq> 0 \<and> m p1 = m p2 then strstr_match m (p1 + 1) (p2 + 1) else Some p2)"

partial_function (option) strstr_loop :: "mem \<Rightarrow> addr \<Rightarrow> addr \<Rightarrow> addr option" where
  "strstr_loop m substring p1 =
     (if m p1 \<noteq> 0 then
        Option.bind (strstr_match m p1 substring) (\<lambda>p2.
          if m p2 = 0 then Some p1 else strstr_loop m substring (p1 + 1))
      else Some 0)"

definition strstr :: "mem \<Rightarrow> addr \<Rightarrow> addr \<Rightarrow> addr option" where
  "strstr m str substring = (if m substring = 0 then Some str else strstr_loop m substring str)"

subsection \<open>Copying\<close>

partial_function (option) find_end :: "mem \<Rightarrow> addr \<Rightarrow> addr option" where
  "find_end m ptr = (if m ptr \<noteq> 0 then find_end m (ptr + 1) else Some ptr)"

partial_function (option) copy_string :: "addr \<Rightarrow> addr \<Rightarrow> mem \<Rightarrow> mem option" where
  "copy_string dest src m =
     (if m src \<noteq> 0 then copy_string (dest + 1) (src + 1) (m(dest := m src)) else Some (m(dest := 0)))"

definition strcat :: "addr \<Rightarrow> addr \<Rightarrow> mem \<Rightarrow> (addr \<times> mem) option" where
  "strcat destination source m =
     Option.bind (find_end m destination) (\<lambda>ptr. map_option (Pair destination) (copy_string ptr source m))"

text \<open>\<^verbatim>\<open>strcpy\<close> first clears the string that is in the destination.\<close>

definition strcpy :: "cpu_features \<Rightarrow> addr \<Rightarrow> addr \<Rightarrow> mem \<Rightarrow> mem option" where
  "strcpy cpu dest src m =
     Option.bind (strlen m dest) (\<lambda>n. copy_string dest src (memset cpu dest 0 n m))"

partial_function (option) strncpy_copy :: "addr \<Rightarrow> addr \<Rightarrow> u64 \<Rightarrow> u64 \<Rightarrow> mem \<Rightarrow> (u64 \<times> mem) option" where
  "strncpy_copy dest src n i m =
     (if i < n \<and> m (src + i) \<noteq> 0 then strncpy_copy dest src n (i + 1) (m(dest + i := m (src + i))) else Some (i, m))"

partial_function (option) strncpy_fill :: "addr \<Rightarrow> u64 \<Rightarrow> u64 \<Rightarrow> mem \<Rightarrow> mem option" where
  "strncpy_fill dest n i m = (if i < n then strncpy_fill dest n (i + 1) (m(dest + i := 0)) else Some m)"

definition strncpy :: "addr \<Rightarrow> addr \<Rightarrow> u64 \<Rightarrow> mem \<Rightarrow> (addr \<times> mem) option" where
  "strncpy dest src n m =
     Option.bind (strncpy_copy dest src n 0 m) (\<lambda>(i, m1). map_option (Pair dest) (strncpy_fill dest n i m1))"

partial_function (option) strncat_loop :: "addr \<Rightarrow> addr \<Rightarrow> u64 \<Rightarrow> u64 \<Rightarrow> mem \<Rightarrow> mem option" where
  "strncat_loop ptr src n i m =
     (if i < n \<and> m (src + i) \<noteq> 0 then strncat_loop (ptr + 1) src n (i + 1) (m(ptr := m (src + i)))
      else Some (m(ptr := 0)))"

definition strncat :: "addr \<Rightarrow> addr \<Rightarrow> u64 \<Rightarrow> mem \<Rightarrow> (addr \<times> mem) option" where
  "strncat dest src n m =
     Option.bind (find_end m dest) (\<lambda>ptr. map_option (Pair dest) (strncat_loop ptr src n 0 m))"

definition strdup :: "cpu_features \<Rightarrow> u64 \<Rightarrow> addr \<Rightarrow> kernel \<Rightarrow> (addr \<times> kernel) option" where
  "strdup cpu mb src s =
     (if src = 0 then Some (0, s)
      else Option.bind (strlen (kmem s) src) (\<lambda>n.
        let len = n + 1 in
        map_option (\<lambda>(dst, s1).
            if dst = 0 then (0, s1)
            else (dst, s1\<lparr>kmem := memcpy cpu dst src len (kmem s1)\<rparr>))
          (kmalloc mb len s)))"

subsection \<open>Tokens\<close>

text \<open>The two loops that skip and collect, and the call: the token (0 for none), the new \<^verbatim>\<open>*saveptr\<close>
  and the memory, in which the delimiter behind the token is overwritten.\<close>

partial_function (option) skip_delims :: "mem \<Rightarrow> addr \<Rightarrow> addr \<Rightarrow> addr option" where
  "skip_delims m delim p =
     (if m p = 0 then Some p
      else Option.bind (is_delim m (m p) delim) (\<lambda>d. if d then skip_delims m delim (p + 1) else Some p))"

partial_function (option) skip_token :: "mem \<Rightarrow> addr \<Rightarrow> addr \<Rightarrow> addr option" where
  "skip_token m delim p =
     (if m p = 0 then Some p
      else Option.bind (is_delim m (m p) delim) (\<lambda>d. if d then Some p else skip_token m delim (p + 1)))"

definition strtok_r :: "addr \<Rightarrow> addr \<Rightarrow> addr \<Rightarrow> mem \<Rightarrow> (addr \<times> addr \<times> mem) option" where
  "strtok_r str delim saveptr m =
     (let saveptr = (if str \<noteq> 0 then str else saveptr) in
      Option.bind (skip_delims m delim saveptr) (\<lambda>token_start.
        if m token_start = 0 then Some (0, token_start, m)
        else Option.bind (skip_token m delim token_start) (\<lambda>token_end.
          if m token_end = 0 then Some (token_start, token_end, m)
          else Some (token_start, token_end + 1, m(token_end := 0)))))"

subsection \<open>Characters\<close>

definition is_lower :: "u8 \<Rightarrow> bool" where
  "is_lower c \<longleftrightarrow> 97 \<le> sint c \<and> sint c \<le> 122"

definition is_upper :: "u8 \<Rightarrow> bool" where
  "is_upper c \<longleftrightarrow> 65 \<le> sint c \<and> sint c \<le> 90"

definition isdigit :: "u8 \<Rightarrow> bool" where
  "isdigit c \<longleftrightarrow> 48 \<le> sint c \<and> sint c \<le> 57"

definition tolower :: "u8 \<Rightarrow> u8" where
  "tolower c = (if 65 \<le> sint c \<and> sint c \<le> 90 then c OR 0x20 else c)"

definition toupper :: "u8 \<Rightarrow> u8" where
  "toupper c = (if 97 \<le> sint c \<and> sint c \<le> 122 then c AND NOT 0x20 else c)"

definition char_to_digit :: "u8 \<Rightarrow> int" where
  "char_to_digit c =
     (if isdigit c then sint c - 48
      else if is_upper c then sint c - 65 + 10
      else if is_lower c then sint c - 97 + 10
      else -1)"

subsection \<open>Parsing numbers\<close>

partial_function (option) skip_blanks :: "mem \<Rightarrow> addr \<Rightarrow> addr option" where
  "skip_blanks m s = (if m s = 32 \<or> m s = 9 then skip_blanks m (s + 1) else Some s)"

text \<open>\<^verbatim>\<open>result\<close> is a signed \<^verbatim>\<open>long\<close>; its overflow is undefined, and wraps here.\<close>

partial_function (option) strtol_digits :: "mem \<Rightarrow> int \<Rightarrow> addr \<Rightarrow> u64 \<Rightarrow> (addr \<times> u64) option" where
  "strtol_digits m base s result =
     (if m s \<noteq> 0 then
        let digit = char_to_digit (m s) in
        if digit < 0 \<or> base \<le> digit then Some (s, result)
        else strtol_digits m base (s + 1) (result * of_int base + of_int digit)
      else Some (s, result))"

text \<open>The base and the position behind its prefix.\<close>

definition strtol_base :: "mem \<Rightarrow> int \<Rightarrow> addr \<Rightarrow> int \<times> addr" where
  "strtol_base m base s =
     (if base = 0 then
        if m s = 48 then if m (s + 1) = 120 \<or> m (s + 1) = 88 then (16, s + 2) else (8, s + 1)
        else (10, s)
      else if base = 16 \<and> m s = 48 \<and> (m (s + 1) = 120 \<or> m (s + 1) = 88) then (16, s + 2)
      else (base, s))"

text \<open>The value and the end of the number.\<close>

definition kstrtol :: "mem \<Rightarrow> addr \<Rightarrow> int \<Rightarrow> (u64 \<times> addr) option" where
  "kstrtol m nptr base =
     Option.bind (skip_blanks m nptr) (\<lambda>s0.
       let (sign, s1) = (if m s0 = 45 then (-1, s0 + 1) else if m s0 = 43 then (1, s0 + 1) else (1, s0));
           (b, s2) = strtol_base m base s1
       in map_option (\<lambda>(s, result). (result * sign, s)) (strtol_digits m b s2 0))"

subsection \<open>Printing numbers\<close>

lemma div10_less: "t div 10 > (0 :: u64) \<Longrightarrow> unat (t div 10) < unat t"
  by (simp add: unat_div word_less_nat_alt)

function toString_size :: "u64 \<Rightarrow> u8 \<Rightarrow> u8" where
  "toString_size sizeTest sz = (if sizeTest div 10 > 0 then toString_size (sizeTest div 10) (sz + 1) else sz)"
  by pat_completeness auto
termination by (relation "measure (\<lambda>(t, _). unat t)") (use div10_less in auto)

text \<open>The digits from the last to the second; the first one is left over.\<close>

function toString_loop :: "addr \<Rightarrow> u8 \<Rightarrow> u8 \<Rightarrow> u64 \<Rightarrow> mem \<Rightarrow> u8 \<times> u64 \<times> mem" where
  "toString_loop out sz index value m =
     (if value div 10 > 0 then
        let remainder = (ucast (value mod 10) :: u8) in
        toString_loop out sz (index + 1) (value div 10) (m(out + (ucast sz - ucast index) := remainder + 48))
      else (index, value, m))"
  by pat_completeness auto
termination by (relation "measure (\<lambda>(_, _, _, v, _). unat v)") (use div10_less in auto)

definition toString :: "addr \<Rightarrow> u64 \<Rightarrow> mem \<Rightarrow> mem" where
  "toString out value m =
     (let sz = toString_size value 0;
          (index, v, m1) = toString_loop out sz 0 value m;
          remainder = (ucast (v mod 10) :: u8);
          m2 = m1(out + (ucast sz - ucast index) := remainder + 48)
      in m2(out + (ucast sz + 1) := 0))"

text \<open>The signed version divides with truncation; \<open>neg\<close> is 1 behind a minus sign.\<close>

lemma sdiv10_less: "v sdiv 10 > (0 :: int) \<Longrightarrow> nat (v sdiv 10) < nat v"
  by (auto simp: signed_divide_int_def sgn_if split: if_splits)

function toString_signed_loop :: "addr \<Rightarrow> u8 \<Rightarrow> u8 \<Rightarrow> u8 \<Rightarrow> int \<Rightarrow> mem \<Rightarrow> u8 \<times> int \<times> mem" where
  "toString_signed_loop out neg sz index value m =
     (if value sdiv 10 > 0 then
        let remainder = (word_of_int (value smod 10) :: u8) in
        toString_signed_loop out neg sz (index + 1) (value sdiv 10)
          (m(out + (ucast neg + ucast sz - ucast index) := remainder + 48))
      else (index, value, m))"
  by pat_completeness auto
termination by (relation "measure (\<lambda>(_, _, _, _, v, _). nat v)") (use sdiv10_less in auto)

definition toString_i64 :: "addr \<Rightarrow> u64 \<Rightarrow> mem \<Rightarrow> mem" where
  "toString_i64 out value m =
     (let (neg, value, m0) = (if sint value < 0 then (1, - value, m(out := 45)) else (0, value, m));
          sz = toString_size value 0;
          (index, v, m1) = toString_signed_loop out neg sz 0 (sint value) m0;
          remainder = (word_of_int (v smod 10) :: u8);
          m2 = m1(out + (ucast neg + ucast sz - ucast index) := remainder + 48)
      in m2(out + (ucast neg + ucast sz + 1) := 0))"

text \<open>Hexadecimal: the argument lies at \<open>vp\<close> on the stack, the result goes to the static buffer \<open>out\<close>;
  \<open>sz\<close> is the index of the last digit, and also the number of turns of the loop.\<close>

definition hex_char :: "u8 \<Rightarrow> u8" where
  "hex_char tmp = tmp + (if tmp > 9 then 55 else 48)"

fun toHString_loop :: "addr \<Rightarrow> addr \<Rightarrow> u64 \<Rightarrow> nat \<Rightarrow> nat \<Rightarrow> mem \<Rightarrow> mem" where
  "toHString_loop vp out sz i 0 m = m"
| "toHString_loop vp out sz i (Suc turns) m =
     (let p = vp + of_nat i;
          m1 = m(out + (sz - (of_nat i * 2 + 1)) := hex_char (drop_bit 4 (m p AND 0xF0)));
          m2 = m1(out + (sz - of_nat i * 2) := hex_char (m1 p AND 0x0F))
      in toHString_loop vp out sz (i + 1) turns m2)"

definition toHString_n :: "nat \<Rightarrow> addr \<Rightarrow> addr \<Rightarrow> mem \<Rightarrow> mem" where
  "toHString_n n vp out m =
     (let sz = n * 2 - 1;
          m1 = toHString_loop vp out (of_nat sz) 0 sz m
      in m1(out + of_nat sz + 1 := 0))"

definition toHString64 :: "addr \<Rightarrow> addr \<Rightarrow> u64 \<Rightarrow> mem \<Rightarrow> mem" where
  "toHString64 vp out value m = toHString_n 8 vp out (store_bytes m vp (le_bytes 8 value))"

definition toHString32 :: "addr \<Rightarrow> addr \<Rightarrow> u32 \<Rightarrow> mem \<Rightarrow> mem" where
  "toHString32 vp out value m = toHString_n 4 vp out (store_bytes m vp (le_bytes 4 value))"

definition toHString16 :: "addr \<Rightarrow> addr \<Rightarrow> u16 \<Rightarrow> mem \<Rightarrow> mem" where
  "toHString16 vp out value m = toHString_n 2 vp out (store_bytes m vp (le_bytes 2 value))"

definition toHString8 :: "addr \<Rightarrow> addr \<Rightarrow> u8 \<Rightarrow> mem \<Rightarrow> mem" where
  "toHString8 vp out value m = toHString_n 1 vp out (store_bytes m vp (le_bytes 1 value))"

subsection \<open>Scanning a C string\<close>

lemma cstr_append: "cstr m p (s @ t) \<longleftrightarrow> load_bytes m p (length s) = s \<and> 0 \<notin> set s \<and> cstr m (p + of_nat (length s)) t"
proof (induction s arbitrary: p)
  case (Cons c s)
  have "load_bytes m p (Suc (length s)) = m p # load_bytes m (p + 1) (length s)"
    using load_bytes_append [of m p 1 "length s"] by (simp add: load_bytes_def)
  then show ?case using Cons.IH [of "p + 1"] by (auto simp: add.assoc)
qed (simp add: load_bytes_def)

lemma cstr_load: "cstr m p s \<longleftrightarrow> load_bytes m p (length s) = s \<and> 0 \<notin> set s \<and> m (p + of_nat (length s)) = 0"
  using cstr_append [of m p s "[]"] by simp

lemma strlen_loop_cstr: "cstr m p s \<Longrightarrow> strlen_loop m p n = Some (n + of_nat (length s))"
proof (induction s arbitrary: p n)
  case (Cons c s)
  then have "strlen_loop m p n = strlen_loop m (p + 1) (n + 1)" by (subst strlen_loop.simps) simp
  then show ?case using Cons.IH [of "p + 1" "n + 1"] Cons.prems by (simp add: add.assoc)
qed (subst strlen_loop.simps, simp)

lemma strlen_cstr: "cstr m p s \<Longrightarrow> p \<noteq> 0 \<Longrightarrow> strlen m p = Some (of_nat (length s))"
  by (simp add: strlen_def strlen_loop_cstr)

lemma find_end_cstr: "cstr m p s \<Longrightarrow> find_end m p = Some (p + of_nat (length s))"
proof (induction s arbitrary: p)
  case (Cons c s)
  then show ?case by (subst find_end.simps) (simp add: add.assoc)
qed (subst find_end.simps, simp)

lemma is_delim_cstr: "cstr m q ds \<Longrightarrow> is_delim m c q = Some (c \<in> set ds)"
proof (induction ds arbitrary: q)
  case (Cons d ds)
  then show ?case by (subst is_delim.simps) auto
qed (subst is_delim.simps, simp)

subsection \<open>Decimal digits\<close>

fun decimal :: "nat \<Rightarrow> u8 list" where
  "decimal n = (if n < 10 then [48 + of_nat n] else decimal (n div 10) @ [48 + of_nat (n mod 10)])"

declare decimal.simps [simp del] toString_size.simps [simp del] toString_loop.simps [simp del]
  toString_signed_loop.simps [simp del]

definition digit :: "u8 \<Rightarrow> bool" where
  "digit c \<longleftrightarrow> 48 \<le> uint c \<and> uint c \<le> 57"

lemma unat_digit: "d < 10 \<Longrightarrow> unat (48 + of_nat d :: u8) = 48 + d"
  by (simp add: unat_word_ariths unat_of_nat)

lemma unat_zext8: "unat (ucast (x :: u8) :: u64) = unat x"
proof -
  have "unat x < 256" using unsigned_less [of x] by simp
  then have "unat x < 2 ^ 64" by simp
  then show ?thesis by (simp add: unsigned_ucast_eq take_bit_nat_eq_self)
qed

lemma unat_of_nat8: "k < 256 \<Longrightarrow> unat (of_nat k :: u8) = k"
  by (simp add: unat_of_nat)

lemma ucast_small8: "k < 256 \<Longrightarrow> (ucast (of_nat k :: u8) :: u64) = of_nat k"
  by (simp add: word_unat_eq_iff unat_zext8 unat_of_nat8 unat_of_nat64)

lemma uint_digit: "d < 10 \<Longrightarrow> uint (48 + of_nat d :: u8) = 48 + int d"
  using unat_digit [of d] by (metis of_nat_add of_nat_numeral of_nat_unat)

lemma ucast_digit: "d < 10 \<Longrightarrow> (ucast (48 + of_nat d :: u8) :: u64) = 48 + of_nat d"
  using ucast_small8 [of "48 + d"] by simp

lemma decimal_nonempty: "decimal n \<noteq> []"
  by (subst decimal.simps) simp

lemma decimal_digits: "c \<in> set (decimal n) \<Longrightarrow> digit c"
proof (induction n arbitrary: c rule: decimal.induct)
  case (1 n)
  then show ?case
    by (subst (asm) (2) decimal.simps) (auto simp: digit_def uint_digit split: if_splits)
qed

lemma decimal_length: "n < 10 ^ k \<Longrightarrow> 0 < k \<Longrightarrow> length (decimal n) \<le> k"
proof (induction k arbitrary: n)
  case (Suc k)
  show ?case
  proof (cases "n < 10")
    case True
    then show ?thesis by (subst decimal.simps) simp
  next
    case False
    then have "n div 10 < 10 ^ k" "0 < k" using Suc.prems by (auto simp: div_less_iff_less_mult mult.commute intro: gr0I)
    then show ?thesis using Suc.IH [of "n div 10"] False by (subst decimal.simps) simp
  qed
qed simp

lemma decimal_length_u64: "length (decimal (unat (v :: u64))) \<le> 20"
  by (rule decimal_length, rule less_le_trans [OF unat_lt64]) simp_all

lemma decimal_step: "n \<ge> 10 \<Longrightarrow> decimal n = decimal (n div 10) @ [48 + of_nat (n mod 10)]"
  by (subst decimal.simps) simp

lemma div10_pos: "v div 10 > (0 :: u64) \<longleftrightarrow> unat v \<ge> 10"
  by (simp add: word_less_nat_alt unat_div div_greater_zero_iff)

lemma toString_size_length: "toString_size v k = k + of_nat (length (decimal (unat v)) - 1)"
proof (induction v k rule: toString_size.induct)
  case (1 v k)
  show ?case
  proof (cases "unat v \<ge> 10")
    case True
    have "length (decimal (unat (v div 10))) \<noteq> 0" using decimal_nonempty by simp
    then have "of_nat (length (decimal (unat (v div 10)))) = (of_nat (length (decimal (unat (v div 10))) - 1) + 1 :: u8)"
      by (metis Suc_diff_1 gr0I of_nat_Suc add.commute)
    then show ?thesis using True 1
      by (subst toString_size.simps) (simp add: div10_pos decimal_step unat_div add.assoc)
  next
    case False
    then have "length (decimal (unat v)) = 1" by (subst decimal.simps) simp
    then show ?thesis using False by (subst toString_size.simps) (simp add: div10_pos)
  qed
qed

lemma store_last:
  assumes "length bs < 18446744073709551616"
  shows "store_bytes (m(p + of_nat (length bs) := d)) p bs = store_bytes m p (bs @ [d])"
proof (rule ext)
  fix a
  have "a = p + of_nat (length bs) \<longleftrightarrow> unat (a - p) = length bs"
    using assms unat_of_nat64 [of "length bs"] word_unat_eq_iff [of "a - p" "of_nat (length bs)"]
    by (auto simp: algebra_simps)
  then show "store_bytes (m(p + of_nat (length bs) := d)) p bs a = store_bytes m p (bs @ [d]) a"
    by (auto simp: store_bytes_def nth_append less_Suc_eq)
qed

lemma digit_of: "(ucast (v mod 10 :: u64) :: u8) + 48 = 48 + of_nat (unat v mod 10)"
  by (simp add: word_unat_eq_iff unat_word_ariths unsigned_ucast_eq take_bit_eq_mod unat_mod unat_of_nat)

text \<open>The loop with its leftover digit stores the digits.\<close>

lemma toString_loop_stores:
  assumes "toString_loop out sz index v m = (i', v', m')"
    and "ucast sz - ucast index = (of_nat (length (decimal (unat v)) - 1) :: u64)"
    and "unat index + length (decimal (unat v)) < 256"
  shows "m'(out + (ucast sz - ucast i') := (ucast (v' mod 10) :: u8) + 48) = store_bytes m out (decimal (unat v))"
  using assms
proof (induction out sz index v m rule: toString_loop.induct)
  case (1 out sz index v m)
  show ?case
  proof (cases "unat v \<ge> 10")
    case False
    then have "i' = index" "v' = v" "m' = m"
      using 1(2) by (subst (asm) toString_loop.simps; simp add: div10_pos)+
    moreover have "decimal (unat v) = [48 + of_nat (unat v mod 10)]" using False by (subst decimal.simps) simp
    ultimately show ?thesis using 1(3) digit_of [of v] by (simp add: add.commute)
  next
    case True
    let ?d = "(ucast (v mod 10) :: u8)" and ?ds = "decimal (unat (v div 10))"
    have dec: "decimal (unat v) = ?ds @ [48 + of_nat (unat v mod 10)]"
      using True by (simp add: decimal_step unat_div)
    have loop: "toString_loop out sz (index + 1) (v div 10) (m(out + (ucast sz - ucast index) := ?d + 48)) = (i', v', m')"
      using 1(2) True by (subst (asm) toString_loop.simps) (simp add: div10_pos Let_def)
    obtain k where k: "length ?ds = Suc k" using decimal_nonempty by (cases ?ds) auto
    have idx: "unat (index + 1) = unat index + 1"
      using 1(4) k dec by (simp add: unat_word_ariths)
    then have uidx: "(ucast (index + 1) :: u64) = ucast index + 1"
      by (simp add: word_unat_eq_iff unat_word_ariths unsigned_ucast_eq take_bit_nat_eq_self)
    have pos: "ucast sz - ucast index = (of_nat (length ?ds) :: u64)" using 1(3) by (simp add: dec)
    have c1: "ucast sz - ucast (index + 1) = (of_nat (length ?ds - 1) :: u64)"
      using pos unfolding uidx k by (simp add: algebra_simps)
    have c2: "unat (index + 1) + length ?ds < 256" using 1(4) idx dec by simp
    have "0 < v div 10" using True by (simp add: div10_pos)
    from 1(1) [OF this refl loop c1 c2] have "m'(out + (ucast sz - ucast i') := (ucast (v' mod 10) :: u8) + 48)
        = store_bytes (m(out + (ucast sz - ucast index) := ?d + 48)) out ?ds" .
    also have "\<dots> = store_bytes m out (decimal (unat v))"
      unfolding pos dec digit_of using decimal_length_u64 [of "v div 10"] by (intro store_last) linarith
    finally show ?thesis .
  qed
qed

lemma toString_stores: "toString out v m = (store_bytes m out (decimal (unat v)))(out + of_nat (length (decimal (unat v))) := 0)"
proof -
  obtain k where k: "length (decimal (unat v)) = Suc k" using decimal_nonempty by (cases "decimal (unat v)") auto
  have k256: "k < 20" using decimal_length_u64 [of v] k by simp
  have sz: "toString_size v 0 = of_nat k" by (simp add: toString_size_length k)
  have u: "(ucast (of_nat k :: u8) :: u64) = of_nat k" using k256 by (intro ucast_small8) simp
  obtain i' v' m' where loop: "toString_loop out (of_nat k) 0 v m = (i', v', m')" by (metis prod_cases3)
  have "m'(out + (ucast (of_nat k :: u8) - ucast i') := (ucast (v' mod 10) :: u8) + 48) = store_bytes m out (decimal (unat v))"
    by (rule toString_loop_stores [OF loop]) (use k k256 u in simp_all)
  then show ?thesis
    unfolding toString_def sz Let_def loop prod.case u k by (simp add: add.commute)
qed

lemma sdiv10: "uint (v :: u64) sdiv 10 = uint (v div 10)"
  by (cases "v = 0") (auto simp: signed_divide_int_def sgn_if uint_div_distrib)

lemma smod10: "(word_of_int (uint (v :: u64) smod 10) :: u8) = ucast (v mod 10)"
proof -
  have "uint v smod 10 = uint (v mod 10)"
    unfolding signed_modulo_int_def sdiv10 uint_div_distrib uint_mod_distrib
    by (cases "v = 0") (simp_all add: minus_div_mult_eq_mod)
  then show ?thesis by (simp only: ucast_eq)
qed

lemma uint_pos: "0 < uint (v :: u64) \<longleftrightarrow> 0 < v"
  by (simp add: word_less_def)

lemma signed_loop_eq:
  assumes "toString_loop (out + ucast neg) sz index v m = (i', v', m')"
  shows "toString_signed_loop out neg sz index (uint v) m = (i', uint v', m')"
  using assms
proof (induction "out + ucast neg" sz index v m rule: toString_loop.induct)
  case (1 sz index v m)
  show ?case
  proof (cases "unat v \<ge> 10")
    case False
    then show ?thesis using 1(2)
      by (subst toString_signed_loop.simps, subst (asm) toString_loop.simps) (simp add: div10_pos sdiv10 uint_pos)
  next
    case True
    let ?m = "m(out + ucast neg + (ucast sz - ucast index) := (ucast (v mod 10) :: u8) + 48)"
    have pos: "0 < v div 10" using True by (simp add: div10_pos)
    have "toString_loop (out + ucast neg) sz (index + 1) (v div 10) ?m = (i', v', m')"
      using 1(2) pos by (subst (asm) toString_loop.simps) (simp add: Let_def)
    from 1(1) [OF pos refl this]
    have "toString_signed_loop out neg sz (index + 1) (uint (v div 10)) ?m = (i', uint v', m')" .
    moreover have "toString_signed_loop out neg sz index (uint v) m
        = toString_signed_loop out neg sz (index + 1) (uint (v div 10)) ?m"
      using pos by (subst toString_signed_loop.simps)
        (simp add: Let_def sdiv10 smod10 uint_pos add_diff_eq add.assoc)
    ultimately show ?thesis by simp
  qed
qed

text \<open>The signed version prints the digits of the absolute value behind the sign.\<close>

definition printed :: "u64 \<Rightarrow> u8 list" where
  "printed v = (if sint v < 0 then 45 # decimal (unat (- v)) else decimal (unat v))"

lemma toString_signed_stores:
  assumes "sint v = uint v" and "neg \<le> 1"
  shows "(let sz = toString_size v 0; (index, w, m1) = toString_signed_loop out neg sz 0 (sint v) m;
      m2 = m1(out + (ucast neg + ucast sz - ucast index) := (word_of_int (w smod 10) :: u8) + 48)
    in m2(out + (ucast neg + ucast sz + 1) := 0)) =
    (store_bytes m (out + ucast neg) (decimal (unat v)))(out + ucast neg + of_nat (length (decimal (unat v))) := 0)"
proof -
  obtain i' v' m' where loop: "toString_loop (out + ucast neg) (toString_size v 0) 0 v m = (i', v', m')"
    by (metis prod_cases3)
  show ?thesis
    using toString_stores [of "out + ucast neg" v m] signed_loop_eq [OF loop]
    unfolding toString_def Let_def loop prod.case assms(1)
    by (simp add: smod10 add_diff_eq add.assoc)
qed

lemma sint_nonneg: "0 \<le> sint (v :: u64) \<Longrightarrow> sint v = uint v"
  using sint_lt [of v] by (simp add: uint_sint take_bit_int_eq_self)

lemma sint_minus:
  assumes "v \<noteq> (0x8000000000000000 :: u64)"
  shows "sint (- v) = - sint v"
proof -
  have "sint v \<noteq> - (2 ^ 63)"
  proof
    assume "sint v = - (2 ^ 63)"
    then have "(of_int (sint v) :: u64) = of_int (- (2 ^ 63))" by (simp only:)
    then show False using assms unfolding of_int_sint by simp
  qed
  moreover have "- (2 ^ 63) \<le> sint v" "sint v < 2 ^ 63" using sint_ge [of v] sint_lt [of v] by simp_all
  ultimately have "sint (word_of_int (- sint v) :: u64) = - sint v"
    by (simp add: signed_of_int signed_take_bit_int_eq_self del: of_int_minus)
  then show ?thesis by simp
qed

lemma toString_i64_stores:
  assumes "v \<noteq> 0x8000000000000000"
  shows "toString_i64 out v m = (store_bytes m out (printed v))(out + of_nat (length (printed v)) := 0)"
proof (cases "sint v < 0")
  case False
  then show ?thesis
    using toString_signed_stores [of v 0 out m, OF sint_nonneg]
    by (simp add: toString_i64_def printed_def)
next
  case True
  then have "sint (- v) = uint (- v)" using sint_minus [OF assms] by (intro sint_nonneg) simp
  from toString_signed_stores [OF this, of 1 out "m(out := 45)"]
  have "toString_i64 out v m = (store_bytes (m(out := 45)) (out + 1) (decimal (unat (- v))))
      (out + 1 + of_nat (length (decimal (unat (- v)))) := 0)"
    using True by (simp add: toString_i64_def)
  also have "store_bytes (m(out := 45)) (out + 1) (decimal (unat (- v))) = store_bytes m out (printed v)"
    using store_bytes_append [of "[45]" "decimal (unat (- v))" m out] decimal_length_u64 [of "- v"] True
    by (simp add: printed_def)
  finally show ?thesis using True by (simp add: printed_def add.assoc fun_upd_def)
qed

lemma stored_cstr:
  assumes "0 \<notin> set bs" "length bs < 18446744073709551616"
  shows "cstr ((store_bytes m p bs)(p + of_nat (length bs) := 0)) p bs"
proof -
  let ?m = "(store_bytes m p bs)(p + of_nat (length bs) := 0)"
  have "?m = store_bytes m p (bs @ [0])"
    using store_bytes_append [of bs "[0]" m p] assms(2) by simp
  then have "load_bytes ?m p (length bs + 1) = bs @ [0]"
    using load_stored [of "bs @ [0]" m p] assms(2) by simp
  then show ?thesis
    using assms(1) unfolding load_bytes_append cstr_load by (simp add: load_bytes_def)
qed

subsection \<open>Parsing what was printed\<close>

lemma digit_value:
  assumes "digit c"
  shows "char_to_digit c = uint c - 48 \<and> c \<noteq> 0 \<and> c \<noteq> 32 \<and> c \<noteq> 9 \<and> c \<noteq> 45 \<and> c \<noteq> 43"
proof -
  have c: "48 \<le> uint c" "uint c \<le> 57" using assms by (simp_all add: digit_def)
  then have "sint c = uint c" by (simp add: sint_uint signed_take_bit_int_eq_self)
  then show ?thesis using c by (auto simp: char_to_digit_def isdigit_def)
qed

definition decimal_value :: "u8 list \<Rightarrow> u64 \<Rightarrow> u64" where
  "decimal_value ds r = foldl (\<lambda>r d. r * 10 + (ucast d - 48)) r ds"

lemma strtol_digits_cstr:
  assumes "cstr m p ds" "\<forall>c \<in> set ds. digit c"
  shows "strtol_digits m 10 p r = Some (p + of_nat (length ds), decimal_value ds r)"
  using assms
proof (induction ds arbitrary: p r)
  case Nil
  then show ?case by (subst strtol_digits.simps) (simp add: decimal_value_def)
next
  case (Cons c ds)
  have "m p = c" "digit c" using Cons.prems by auto
  moreover from this(2) have "char_to_digit c = uint c - 48" "c \<noteq> 0" "48 \<le> uint c" "uint c \<le> 57"
    using digit_value by (auto simp: digit_def)
  ultimately have "strtol_digits m 10 p r = strtol_digits m 10 (p + 1) (r * 10 + (ucast c - 48))"
    by (subst strtol_digits.simps) (simp add: Let_def)
  then show ?case using Cons.IH [of "p + 1" "r * 10 + (ucast c - 48)"] Cons.prems
    by (simp add: decimal_value_def add.assoc)
qed

lemma decimal_value_decimal: "decimal_value (decimal n) 0 = of_nat n"
proof (induction n rule: decimal.induct)
  case (1 n)
  show ?case
  proof (cases "n < 10")
    case True
    then show ?thesis by (subst decimal.simps) (simp add: decimal_value_def ucast_digit)
  next
    case False
    then have "decimal_value (decimal n) 0 = decimal_value (decimal (n div 10)) 0 * 10 + of_nat (n mod 10)"
      by (simp add: decimal_step decimal_value_def ucast_digit)
    also have "\<dots> = of_nat (n div 10 * 10 + n mod 10)"
      unfolding 1 [OF False] by (simp only: of_nat_add of_nat_mult of_nat_numeral)
    finally show ?thesis by (simp only: div_mult_mod_eq)
  qed
qed

lemma kstrtol_decimal:
  assumes "cstr m p (decimal n)"
  shows "kstrtol m p 10 = Some (of_nat n, p + of_nat (length (decimal n)))"
proof -
  obtain c ds where ds: "decimal n = c # ds" using decimal_nonempty by (cases "decimal n") auto
  have "digit c" using decimal_digits [of c n] ds by simp
  note c = digit_value [OF this]
  have "m p = c" using assms ds by simp
  moreover have "strtol_digits m 10 p 0 = Some (p + of_nat (length (decimal n)), of_nat n)"
    using strtol_digits_cstr [OF assms] decimal_digits by (simp add: decimal_value_decimal)
  moreover have "skip_blanks m p = Some p" using \<open>m p = c\<close> c by (subst skip_blanks.simps) simp
  ultimately show ?thesis using c by (simp add: kstrtol_def strtol_base_def)
qed

lemma kstrtol_negative:
  assumes "cstr m p (45 # decimal n)"
  shows "kstrtol m p 10 = Some (- of_nat n, p + 1 + of_nat (length (decimal n)))"
proof -
  have "strtol_digits m 10 (p + 1) 0 = Some (p + 1 + of_nat (length (decimal n)), of_nat n)"
    using strtol_digits_cstr [of m "p + 1" "decimal n"] assms decimal_digits
    by (simp add: decimal_value_decimal)
  moreover have "skip_blanks m p = Some p" using assms by (subst skip_blanks.simps) simp
  ultimately show ?thesis using assms by (simp add: kstrtol_def strtol_base_def)
qed

lemma decimal_no_nul: "0 \<notin> set (decimal n)"
  using decimal_digits [of 0 n] by (auto simp: digit_def)

text \<open>C18: Parsing what was printed gives the number back and stops at its end: for every unsigned value
  that a \<^verbatim>\<open>long\<close> can hold, and for every signed one but the smallest, which \<^verbatim>\<open>toString\<close> cannot negate.\<close>

theorem toString_kstrtol_roundtrip:
  assumes "unat u < 9223372036854775808" and "v \<noteq> 0x8000000000000000"
  shows "kstrtol (toString out u m) out 10 = Some (u, out + of_nat (length (decimal (unat u)))) \<and>
    kstrtol (toString_i64 out v m) out 10 = Some (v, out + of_nat (length (printed v)))"
proof
  have "cstr (toString out u m) out (decimal (unat u))"
    unfolding toString_stores using decimal_length_u64 [of u] decimal_no_nul
    by (intro stored_cstr) auto
  from kstrtol_decimal [OF this]
  show "kstrtol (toString out u m) out 10 = Some (u, out + of_nat (length (decimal (unat u))))" by simp
  have "0 \<notin> set (printed v)" "length (printed v) < 18446744073709551616"
    using decimal_no_nul decimal_length_u64 [of v] decimal_length_u64 [of "- v"] by (auto simp: printed_def)
  then have "cstr (toString_i64 out v m) out (printed v)"
    unfolding toString_i64_stores [OF assms(2)] by (rule stored_cstr)
  then show "kstrtol (toString_i64 out v m) out 10 = Some (v, out + of_nat (length (printed v)))"
    using kstrtol_decimal [of _ out "unat v"] kstrtol_negative [of _ out "unat (- v)"]
    by (auto simp: printed_def add.assoc split: if_splits)
qed

theorem toString_kstrtol_roundtrip_witness:
  "kstrtol (toString_i64 0x1000 (- 42) (\<lambda>_. 0xAB)) 0x1000 10 = Some (- 42, 0x1000 + of_nat (length (printed (- 42))))"
  using toString_kstrtol_roundtrip [of 0 "- 42" "0x1000" "\<lambda>_. 0xAB"] by simp

subsection \<open>Tokens of a string\<close>

text \<open>The reference: the maximal runs of characters that are not delimiters.\<close>

function tokens :: "u8 set \<Rightarrow> u8 list \<Rightarrow> u8 list list" where
  "tokens ds s =
     (case dropWhile (\<lambda>c. c \<in> ds) s of
        [] \<Rightarrow> []
      | c # t \<Rightarrow> (c # takeWhile (\<lambda>c. c \<notin> ds) t) # tokens ds (dropWhile (\<lambda>c. c \<notin> ds) t))"
  by pat_completeness auto
termination
proof (relation "measure (\<lambda>(_, s). length s)")
  fix ds s and c :: u8 and t
  assume "dropWhile (\<lambda>c. c \<in> ds) s = c # t"
  then have "length t < length s" using length_dropWhile_le [of "\<lambda>c. c \<in> ds" s] by simp
  then show "((ds, dropWhile (\<lambda>c. c \<notin> ds) t), (ds, s)) \<in> measure (\<lambda>(_, s). length s)"
    using length_dropWhile_le [of "\<lambda>c. c \<notin> ds" t] by simp
qed simp

declare tokens.simps [simp del]

text \<open>The callers' loop: \<^verbatim>\<open>token = strtok_r(str, delim, &state); while (token) ... strtok_r(NULL, ...)\<close>.\<close>

partial_function (option) strtok_all :: "addr \<Rightarrow> addr \<Rightarrow> addr \<Rightarrow> mem \<Rightarrow> (addr list \<times> mem) option" where
  "strtok_all str delim saveptr m =
     Option.bind (strtok_r str delim saveptr m) (\<lambda>r.
       if fst r = 0 then Some ([], snd (snd r))
       else Option.bind (strtok_all 0 delim (fst (snd r)) (snd (snd r))) (\<lambda>t. Some (fst r # fst t, snd t)))"

lemma skip_delims_cstr:
  assumes "cstr m p s" "cstr m q ds"
  shows "skip_delims m q p = Some (p + of_nat (length (takeWhile (\<lambda>c. c \<in> set ds) s)))"
  using assms(1)
proof (induction s arbitrary: p)
  case (Cons c s)
  then show ?case
    by (subst skip_delims.simps) (auto simp: is_delim_cstr [OF assms(2)] add.assoc)
qed (subst skip_delims.simps, simp)

lemma skip_token_cstr:
  assumes "cstr m p s" "cstr m q ds"
  shows "skip_token m q p = Some (p + of_nat (length (takeWhile (\<lambda>c. c \<notin> set ds) s)))"
  using assms(1)
proof (induction s arbitrary: p)
  case (Cons c s)
  then show ?case
    by (subst skip_token.simps) (auto simp: is_delim_cstr [OF assms(2)] add.assoc)
qed (subst skip_token.simps, simp)

lemma cstr_drop: "cstr m p (s @ t) \<Longrightarrow> cstr m (p + of_nat (length s)) t"
  by (simp add: cstr_append)

text \<open>Memory changes within the first \<open>n\<close> bytes from \<open>p\<close> only.\<close>

definition same_outside :: "addr \<Rightarrow> nat \<Rightarrow> mem \<Rightarrow> mem \<Rightarrow> bool" where
  "same_outside p n m m' \<longleftrightarrow> (\<forall>a. n \<le> unat (a - p) \<longrightarrow> m' a = m a)"

lemma cstr_cong: "cstr m p s \<Longrightarrow> (\<And>i. i \<le> length s \<Longrightarrow> m' (p + of_nat i) = m (p + of_nat i)) \<Longrightarrow> cstr m' p s"
proof (induction s arbitrary: p)
  case Nil
  then show ?case using Nil(2) [of 0] by simp
next
  case (Cons c s)
  have "m' p = m p" using Cons.prems(2) [of 0] by simp
  moreover have "m' (p + 1 + of_nat i) = m (p + 1 + of_nat i)" if "i \<le> length s" for i
    using Cons.prems(2) [of "Suc i"] that by (simp add: add.assoc)
  ultimately show ?case using Cons by auto
qed

lemma unat_offset:
  assumes "unat (p :: u64) + n < 18446744073709551616" "i \<le> n"
  shows "unat (p + of_nat i) = unat p + i"
proof -
  have "unat (of_nat i :: u64) = i" using assms by (intro unat_of_nat64) linarith
  then show ?thesis using assms by (simp add: unat_add64)
qed

text \<open>Two strings in separate memory.\<close>

definition apart :: "addr \<Rightarrow> nat \<Rightarrow> addr \<Rightarrow> nat \<Rightarrow> bool" where
  "apart p n q k \<longleftrightarrow> unat p + n \<le> unat q \<or> unat q + k < unat p"

lemma same_outside_cstr:
  assumes "same_outside p n m m'" "cstr m q s" "unat q + length s < 18446744073709551616"
    and "apart p n q (length s)" "unat p + n \<le> 18446744073709551616"
  shows "cstr m' q s"
proof (rule cstr_cong [OF assms(2)])
  fix i assume i: "i \<le> length s"
  have "unat (q + of_nat i) = unat q + i" by (rule unat_offset [OF assms(3) i])
  then have "n \<le> unat (q + of_nat i - p)"
    using assms(4,5) i unfolding unat_diff64 apart_def by (cases "unat p \<le> unat q + i"; simp; linarith)
  then show "m' (q + of_nat i) = m (q + of_nat i)" using assms(1) by (simp add: same_outside_def)
qed

lemma cstr_cut:
  assumes "cstr m p (s @ t)" "unat p + length s < 18446744073709551616"
  shows "cstr (m(p + of_nat (length s) := 0)) p s"
proof -
  have s: "load_bytes m p (length s) = s" "0 \<notin> set s" using assms(1) by (simp_all add: cstr_append)
  have "(m(p + of_nat (length s) := 0)) (p + of_nat i) = m (p + of_nat i)" if "i < length s" for i
  proof -
    have "unat (p + of_nat i) \<noteq> unat (p + of_nat (length s))"
      using unat_offset [OF assms(2), of i] unat_offset [OF assms(2), of "length s"] that by simp
    then show ?thesis by auto
  qed
  then have "load_bytes (m(p + of_nat (length s) := 0)) p (length s) = load_bytes m p (length s)"
    by (intro load_bytes_cong)
  then show ?thesis using s by (simp add: cstr_load)
qed

lemma tokens_Cons: "x \<in> ds \<Longrightarrow> tokens ds (x # s) = tokens ds s"
  by (subst (1 2) tokens.simps) simp

lemma same_outside_trans:
  assumes "same_outside (p + of_nat k) n m1 m2" "same_outside p (k + n) m m1"
    and "k + n \<le> 18446744073709551615"
  shows "same_outside p (k + n) m m2"
  unfolding same_outside_def
proof (intro allI impI)
  fix a assume a: "k + n \<le> unat (a - p)"
  then have "n \<le> unat (a - (p + of_nat k))" using assms(3) unat_sub_add64 [of k a p] by simp
  then show "m2 a = m a" using assms(1,2) a by (simp add: same_outside_def)
qed

lemma strtok_all_tokens:
  assumes "cstr m p s" "cstr m q ds" "p \<noteq> 0" "unat p + length s < 18446744073709551616"
    and "unat q + length ds < 18446744073709551616" "apart p (length s) q (length ds)"
  shows "\<exists>ts m'. strtok_all 0 q p m = Some (ts, m') \<and> list_all2 (cstr m') ts (tokens (set ds) s) \<and>
    same_outside p (length s) m m'"
  using assms
proof (induction "length s" arbitrary: s p m rule: less_induct)
  case less
  define A where "A = takeWhile (\<lambda>c. c \<in> set ds) s"
  define B where "B = dropWhile (\<lambda>c. c \<in> set ds) s"
  have s: "s = A @ B" by (simp add: A_def B_def)
  let ?p1 = "p + of_nat (length A)"
  have start: "skip_delims m q p = Some ?p1"
    using skip_delims_cstr [OF less.prems(1,2)] by (simp add: A_def)
  have cB: "cstr m ?p1 B" using less.prems(1) unfolding s by (rule cstr_drop)
  have u1: "unat ?p1 = unat p + length A" using unat_offset [OF less.prems(4)] by (simp add: s)
  have "unat p > 0" using less.prems(3) by (simp add: unat_gt_0)
  then have p1: "?p1 \<noteq> 0" using u1 by auto
  show ?case
  proof (cases B)
    case Nil
    then have "strtok_all 0 q p m = Some ([], m)"
      using start cB by (subst strtok_all.simps) (simp add: strtok_r_def Let_def)
    moreover have "tokens (set ds) s = []"
      by (subst tokens.simps) (simp only: B_def [symmetric] Nil list.case)
    ultimately show ?thesis by (simp add: same_outside_def)
  next
    case (Cons c t)
    have c: "c \<notin> set ds" using Cons unfolding B_def dropWhile_eq_Cons_conv by blast
    define T where "T = takeWhile (\<lambda>c. c \<notin> set ds) B"
    define R where "R = dropWhile (\<lambda>c. c \<notin> set ds) B"
    have B: "B = T @ R" "T \<noteq> []" using Cons c by (simp_all add: T_def R_def)
    have toks: "tokens (set ds) s = T # tokens (set ds) R"
      using Cons c by (subst tokens.simps) (simp add: B_def [symmetric] T_def R_def)
    let ?p2 = "?p1 + of_nat (length T)"
    have stop: "skip_token m q ?p1 = Some ?p2"
      using skip_token_cstr [OF cB less.prems(2)] by (simp add: T_def)
    have cR: "cstr m ?p2 R" using cB unfolding B(1) by (rule cstr_drop)
    have fit: "unat ?p1 + length T < 18446744073709551616" using less.prems(4) u1 s B(1) by simp
    have u2: "unat ?p2 = unat p + length A + length T" using unat_offset [OF fit] u1 by simp
    have m1: "m ?p1 \<noteq> 0" using cB Cons by auto
    show ?thesis
    proof (cases R)
      case Nil
      then have "strtok_r 0 q p m = Some (?p1, ?p2, m)"
        using start stop cR m1 by (simp add: strtok_r_def Let_def)
      moreover have "strtok_all 0 q ?p2 m = Some ([], m)"
        using skip_delims_cstr [OF cR less.prems(2)] cR Nil
        by (subst strtok_all.simps) (simp add: strtok_r_def Let_def)
      ultimately have "strtok_all 0 q p m = Some ([?p1], m)"
        using p1 by (subst strtok_all.simps) simp
      moreover have "tokens (set ds) R = []" using Nil by (subst tokens.simps) simp
      ultimately show ?thesis using toks cB Nil B(1) by (simp add: same_outside_def)
    next
      case R: (Cons x R')
      have x: "x \<in> set ds" using R unfolding R_def dropWhile_eq_Cons_conv by blast
      let ?m1 = "m(?p2 := 0)" and ?p3 = "?p2 + 1" and ?k = "length A + length T + 1"
      have len: "length s = ?k + length R'" using s B(1) R by simp
      have u3: "unat ?p3 = unat p + ?k"
        using u2 less.prems(4) len by (subst unat_add64) auto
      have p3: "?p3 = p + of_nat ?k" by (simp add: add.assoc add.commute)
      have tok: "strtok_r 0 q p m = Some (?p1, ?p3, ?m1)"
        using start stop cR m1 R by (simp add: strtok_r_def Let_def)
      have out1: "same_outside p (length s) m ?m1"
      proof -
        have "unat (?p2 - p) = length A + length T" using u2 unfolding unat_diff64 by simp
        then show ?thesis using len by (auto simp: same_outside_def)
      qed
      have ds1: "cstr ?m1 q ds"
        by (rule same_outside_cstr [OF out1 less.prems(2,5,6)]) (use less.prems(4) in simp)
      have "cstr ?m1 ?p3 R'"
      proof (rule cstr_cong [of m])
        show "cstr m ?p3 R'" using cR R by simp
        fix i assume "i \<le> length R'"
        then have ui: "unat (?p3 + of_nat i) = unat ?p3 + i"
          using u3 len less.prems(4) by (intro unat_offset [where n = "length R'"]) simp_all
        have "?p3 + of_nat i \<noteq> ?p2"
        proof
          assume "?p3 + of_nat i = ?p2"
          from arg_cong [where f = unat, OF this] show False using ui u2 u3 by linarith
        qed
        then show "?m1 (?p3 + of_nat i) = m (?p3 + of_nat i)" by simp
      qed
      moreover have "?p3 \<noteq> 0" using u3 by auto
      moreover have "apart ?p3 (length R') q (length ds)"
        using less.prems(6) u3 len unfolding apart_def by auto
      ultimately obtain ts m2 where r: "strtok_all 0 q ?p3 ?m1 = Some (ts, m2)"
          "list_all2 (cstr m2) ts (tokens (set ds) R')" "same_outside ?p3 (length R') ?m1 m2"
        using less.hyps [of R' ?m1 ?p3] ds1 less.prems(4,5) u3 len by auto
      have "cstr ?m1 ?p1 T" using cB fit unfolding B(1) by (rule cstr_cut)
      then have "cstr m2 ?p1 T"
        by (rule same_outside_cstr [OF r(3)])
          (use fit u1 u3 len less.prems(4) in \<open>auto simp: apart_def\<close>)
      moreover have "same_outside p (length s) m m2"
        unfolding len by (rule same_outside_trans [OF r(3) [unfolded p3]])
          (use out1 less.prems(4) len in auto)
      moreover have "strtok_all 0 q p m = Some (?p1 # ts, m2)"
        using p1 r(1) by (subst strtok_all.simps) (simp add: tok)
      ultimately show ?thesis using r(2) toks R x by (auto simp: tokens_Cons)
    qed
  qed
qed

lemma strtok_all_first: "p \<noteq> 0 \<Longrightarrow> strtok_all p q saveptr m = strtok_all 0 q p m"
  by (subst (1 2) strtok_all.simps) (simp add: strtok_r_def)

text \<open>C19: The loop over \<^verbatim>\<open>strtok_r\<close> that splits paths ends and yields exactly the tokens of the string, the
  maximal runs without a delimiter in their order, each of them a C string that stays intact to
  the end; nothing outside the string is written.\<close>

theorem strtok_r_enumerates_tokens:
  assumes "cstr m p s" "cstr m q ds" "p \<noteq> 0" "unat p + length s < 18446744073709551616"
    and "unat q + length ds < 18446744073709551616" "apart p (length s) q (length ds)"
  shows "\<exists>ts m'. strtok_all p q saveptr m = Some (ts, m') \<and> list_all2 (cstr m') ts (tokens (set ds) s) \<and>
    same_outside p (length s) m m'"
  using strtok_all_tokens [OF assms] strtok_all_first [OF assms(3)] by simp

theorem strtok_r_enumerates_tokens_witness:
  "\<exists>t1 t2 m'. strtok_all 0x100 0x200 0 (store_bytes (store_bytes (\<lambda>_. 0) 0x100 [47, 97, 47, 47, 98, 99]) 0x200 [47])
     = Some ([t1, t2], m') \<and> cstr m' t1 [97] \<and> cstr m' t2 [98, 99]"
proof -
  let ?m = "store_bytes (store_bytes (\<lambda>_. 0) 0x100 [47, 97, 47, 47, 98, 99]) 0x200 [47] :: mem"
  have "cstr ?m 0x100 [47, 97, 47, 47, 98, 99]" "cstr ?m 0x200 [47]"
    by (simp_all add: store_bytes_def)
  from strtok_r_enumerates_tokens [OF this, of 0] obtain ts m' where
    r: "strtok_all 0x100 0x200 0 ?m = Some (ts, m')" "list_all2 (cstr m') ts (tokens {47} [47, 97, 47, 47, 98, 99])"
    by (auto simp: apart_def)
  have "tokens {47} [47, 97, 47, 47, 98, 99 :: u8] = [[97], [98, 99]]"
    by (simp add: tokens.simps)
  then show ?thesis using r by (auto simp: list_all2_Cons2 simp del: cstr.simps)
qed

subsection \<open>Where the hexadecimal printers write\<close>

definition nibble :: "u8 \<Rightarrow> nat \<Rightarrow> u8" where
  "nibble b d = (if even d then b AND 0x0F else drop_bit 4 (b AND 0xF0))"

lemma toHString_loop_writes:
  assumes "\<forall>j < i + k. 2 * (i + k) \<le> unat (out + sz - (vp + of_nat j))" "2 * (i + k) < 18446744073709551616"
  shows "toHString_loop vp out sz i k m = (\<lambda>a. let d = unat (out + sz - a) in
    if 2 * i \<le> d \<and> d < 2 * (i + k) then hex_char (nibble (m (vp + of_nat (d div 2))) d) else m a)"
  using assms
proof (induction k arbitrary: i m)
  case (Suc k)
  let ?p = "vp + of_nat i"
  let ?hi = "out + (sz - (of_nat i * 2 + 1))" and ?lo = "out + (sz - of_nat i * 2)"
  let ?m1 = "m(?hi := hex_char (drop_bit 4 (m ?p AND 0xF0)))"
  let ?m2 = "?m1(?lo := hex_char (?m1 ?p AND 0x0F))"
  have pos: "a = ?hi \<longleftrightarrow> unat (out + sz - a) = 2 * i + 1" "a = ?lo \<longleftrightarrow> unat (out + sz - a) = 2 * i" for a
  proof -
    have "out + sz - a = of_nat (2 * i + 1) \<longleftrightarrow> a = ?hi" "out + sz - a = of_nat (2 * i) \<longleftrightarrow> a = ?lo"
      by (auto simp: algebra_simps)
    moreover have eq: "out + sz - a = of_nat n \<longleftrightarrow> unat (out + sz - a) = n" if "n < 18446744073709551616" for n
      using unat_of_nat64 [OF that] by (simp add: word_unat_eq_iff)
    ultimately show "a = ?hi \<longleftrightarrow> unat (out + sz - a) = 2 * i + 1" "a = ?lo \<longleftrightarrow> unat (out + sz - a) = 2 * i"
      using eq [of "2 * i + 1"] eq [of "2 * i"] Suc.prems(2) by simp_all
  qed
  have far: "2 * Suc (i + k) \<le> unat (out + sz - (vp + of_nat j))" if "j < Suc (i + k)" for j
    using Suc.prems(1) that by simp
  have keep: "?m1 (vp + of_nat j) = m (vp + of_nat j)" "?m2 (vp + of_nat j) = m (vp + of_nat j)"
    if "j < Suc (i + k)" for j
    using far [OF that] pos [of "vp + of_nat j"] by auto
  have step: "toHString_loop vp out sz i (Suc k) m = toHString_loop vp out sz (Suc i) k ?m2"
    by (simp add: Let_def)
  have "toHString_loop vp out sz (Suc i) k ?m2 = (\<lambda>a. let d = unat (out + sz - a) in
      if 2 * Suc i \<le> d \<and> d < 2 * (Suc i + k) then hex_char (nibble (?m2 (vp + of_nat (d div 2))) d) else ?m2 a)"
    by (rule Suc.IH) (use Suc.prems in simp_all)
  also have "\<dots> = (\<lambda>a. let d = unat (out + sz - a) in
      if 2 * i \<le> d \<and> d < 2 * (i + Suc k) then hex_char (nibble (m (vp + of_nat (d div 2))) d) else m a)"
  proof (rule ext)
    fix a
    define d where "d = unat (out + sz - a)"
    have "d = 2 * i \<or> d = 2 * i + 1 \<or> 2 * Suc i \<le> d \<and> d < 2 * (Suc i + k) \<or> d < 2 * i \<or> 2 * (Suc i + k) \<le> d"
      by arith
    then consider "d = 2 * i" | "d = 2 * i + 1" | "2 * Suc i \<le> d" "d < 2 * (Suc i + k)" | "d < 2 * i \<or> 2 * (Suc i + k) \<le> d"
      by blast
    then show "(let d = unat (out + sz - a) in
        if 2 * Suc i \<le> d \<and> d < 2 * (Suc i + k) then hex_char (nibble (?m2 (vp + of_nat (d div 2))) d) else ?m2 a) =
      (let d = unat (out + sz - a) in
        if 2 * i \<le> d \<and> d < 2 * (i + Suc k) then hex_char (nibble (m (vp + of_nat (d div 2))) d) else m a)"
    proof cases
      case 1
      then have "a = ?lo" using pos [of a] by (simp add: d_def [symmetric])
      then have m2: "?m2 a = hex_char (m ?p AND 0x0F)" using keep(1) [of i] by (simp only: fun_upd_same lessI less_add_Suc1)
      show ?thesis unfolding Let_def d_def [symmetric] m2 1 by (simp add: nibble_def)
    next
      case 2
      then have "a = ?hi" "a \<noteq> ?lo" using pos [of a] by (simp_all add: d_def [symmetric])
      then have m2: "?m2 a = hex_char (drop_bit 4 (m ?p AND 0xF0))" by (simp only: fun_upd_other fun_upd_same not_False_eq_True)
      show ?thesis unfolding Let_def d_def [symmetric] m2 2 by (simp add: nibble_def)
    next
      case 3
      then have "d div 2 < Suc (i + k)" by arith
      from keep(2) [OF this] show ?thesis using 3 unfolding Let_def d_def [symmetric] by (simp only:) simp
    next
      case 4
      then have "?m2 a = m a" using pos [of a] by (auto simp: d_def [symmetric])
      then show ?thesis using 4 by (auto simp: d_def [symmetric] Let_def)
    qed
  qed
  finally show ?case unfolding step .
qed (auto simp: Let_def fun_eq_iff)

text \<open>\<^verbatim>\<open>toHString\<close> of an \<open>n\<close>-byte number, whose loop runs once per digit instead of once per byte,
  writes the \<open>2n\<close> digits and the terminator, and besides them \<open>2n - 2\<close> bytes below its buffer, with
  digits of the bytes that lie behind the number on the stack. Only for one byte it stays inside.\<close>

theorem toHString_writes_below:
  assumes n: "1 \<le> n" "n \<le> 8"
    and apart: "\<forall>j < 2 * n - 1. 4 * n - 2 \<le> unat (out + of_nat (2 * n - 1) - (vp + of_nat j))"
  shows "toHString_n n vp out m = (\<lambda>a. let d = unat (out + of_nat (2 * n - 1) - a) in
      if a = out + of_nat (2 * n) then 0
      else if d < 4 * n - 2 then hex_char (nibble (m (vp + of_nat (d div 2))) d) else m a) \<and>
    (n > 1 \<longrightarrow> toHString_n n vp out m (out - 1) = hex_char (nibble (m (vp + of_nat n)) 0))"
proof -
  have sz: "n * 2 - 1 = 2 * n - 1" "2 * (2 * n - 1) = 4 * n - 2" by simp_all
  have loop: "toHString_loop vp out (of_nat (2 * n - 1)) 0 (2 * n - 1) m = (\<lambda>a.
      let d = unat (out + of_nat (2 * n - 1) - a) in
      if 2 * 0 \<le> d \<and> d < 2 * (0 + (2 * n - 1)) then hex_char (nibble (m (vp + of_nat (d div 2))) d) else m a)"
    by (rule toHString_loop_writes, unfold add_0 sz(2), rule apart) (use n in simp)
  have nul: "out + of_nat (2 * n - 1) + 1 = out + of_nat (2 * n)"
    using n(1) by (simp add: of_nat_diff)
  have eq: "toHString_n n vp out m = (\<lambda>a. let d = unat (out + of_nat (2 * n - 1) - a) in
      if a = out + of_nat (2 * n) then 0
      else if d < 4 * n - 2 then hex_char (nibble (m (vp + of_nat (d div 2))) d) else m a)"
    by (rule ext) (simp only: toHString_n_def Let_def sz loop nul fun_upd_apply add_0 mult_0_right le0 simp_thms)
  have below: "toHString_n n vp out m (out - 1) = hex_char (nibble (m (vp + of_nat n)) 0)" if "n > 1"
  proof -
    have "out + of_nat (2 * n - 1) - (out - 1) = of_nat (2 * n)" using n(1) by (simp add: of_nat_diff)
    then have d: "unat (out + of_nat (2 * n - 1) - (out - 1)) = 2 * n" using n(2) by (simp only:) (intro unat_of_nat64, simp)
    have "(of_nat (2 * n + 1) :: u64) \<noteq> 0"
    proof
      assume "(of_nat (2 * n + 1) :: u64) = 0"
      moreover have "unat (of_nat (2 * n + 1) :: u64) = 2 * n + 1" using n(2) by (intro unat_of_nat64) simp
      ultimately show False by simp
    qed
    then have "out - 1 \<noteq> out + of_nat (2 * n)" by (simp add: algebra_simps)
    moreover have "2 * n < 4 * n - 2" using that by arith
    ultimately show ?thesis unfolding eq Let_def d by (simp add: nibble_def)
  qed
  show ?thesis using eq below by blast
qed

theorem toHString_writes_below_witness:
  "toHString64 0x2000 0x1000 0x1234 (\<lambda>_. 0xAB) 0xFFF = 66"
proof -
  have "\<forall>j < 2 * 8 - 1. 4 * 8 - 2 \<le> unat (0x1000 + of_nat (2 * 8 - 1) - (0x2000 + of_nat j) :: u64)"
  proof (intro allI impI)
    fix j :: nat assume "j < 2 * 8 - 1"
    then have "unat (0x2000 + of_nat j :: u64) = 0x2000 + j" using unat_offset [of "0x2000" 14 j] by simp
    then show "4 * 8 - 2 \<le> unat (0x1000 + of_nat (2 * 8 - 1) - (0x2000 + of_nat j) :: u64)"
      unfolding unat_diff64 using \<open>j < 2 * 8 - 1\<close> by simp
  qed
  from toHString_writes_below [of 8, OF _ _ this, of "store_bytes (\<lambda>_. 0xAB) 0x2000 (le_bytes 8 (0x1234 :: u64))"]
  show ?thesis by (simp add: toHString64_def store_bytes_def hex_char_def nibble_def le_bytes_def)
qed

end
