(* ===== verification/Credentials.thy ===== *)
theory Credentials
  imports Prelude
begin

text \<open>
  User and group identities (syscalls/process/uid.cpp, gid.cpp, tid.cpp) and the permission checks
  that rest on them (\<^verbatim>\<open>vfs_check_permission\<close>, \<^verbatim>\<open>sys_access\<close>, the rights \<^verbatim>\<open>sys_open\<close> asks for).
  The theory shows that the user calls confine an unprivileged task to its own identities, that a
  check grants exactly the bits of the class the caller falls in, and that one group call gives
  every task the rights of root.

  Identities are compared and assigned only, so they are 32-bit words; process ids are signed.
\<close>

subsection \<open>Tasks\<close>

record task_cred =
  pid :: int
  pgid :: int
  ppid :: int
  sid :: int
  ruid :: u32
  rgid :: u32
  euid :: u32
  egid :: u32
  suid :: u32
  sgid :: u32

definition EPERM :: int where "EPERM = 1"
definition ESRCH :: int where "ESRCH = 3"
definition EACCES :: int where "EACCES = 13"

subsection \<open>User identities\<close>

definition sys_getuid :: "task_cred \<Rightarrow> int" where "sys_getuid self = sint (ruid self)"
definition sys_geteuid :: "task_cred \<Rightarrow> int" where "sys_geteuid self = sint (euid self)"

definition sys_setuid :: "u32 \<Rightarrow> task_cred \<Rightarrow> int \<times> task_cred" where
  "sys_setuid uid self =
     (if euid self \<noteq> 0 \<and> uid \<noteq> ruid self \<and> uid \<noteq> euid self \<and> uid \<noteq> suid self then (- EPERM, self)
      else (0, self\<lparr>euid := uid, ruid := uid\<rparr>))"

definition sys_setresuid :: "u32 \<Rightarrow> u32 \<Rightarrow> u32 \<Rightarrow> task_cred \<Rightarrow> int \<times> task_cred" where
  "sys_setresuid r e s self =
     (if euid self \<noteq> 0 \<and> r \<noteq> ruid self \<and> r \<noteq> euid self \<and> r \<noteq> suid self then (- EPERM, self)
      else if euid self \<noteq> 0 \<and> e \<noteq> ruid self \<and> e \<noteq> euid self \<and> e \<noteq> suid self then (- EPERM, self)
      else if euid self \<noteq> 0 \<and> s \<noteq> ruid self \<and> s \<noteq> euid self \<and> s \<noteq> suid self then (- EPERM, self)
      else (0, self\<lparr>ruid := r, euid := e, suid := s\<rparr>))"

text \<open>What \<^verbatim>\<open>getresuid\<close> writes to the three addresses.\<close>

definition sys_getresuid :: "task_cred \<Rightarrow> u32 \<times> u32 \<times> u32" where
  "sys_getresuid self = (ruid self, euid self, suid self)"

definition sys_setreuid :: "u32 \<Rightarrow> u32 \<Rightarrow> task_cred \<Rightarrow> int \<times> task_cred" where
  "sys_setreuid r e self =
     (if euid self \<noteq> 0 \<and> r \<noteq> ruid self \<and> r \<noteq> euid self \<and> r \<noteq> suid self then (- EPERM, self)
      else if euid self \<noteq> 0 \<and> e \<noteq> ruid self \<and> e \<noteq> euid self \<and> e \<noteq> suid self then (- EPERM, self)
      else (0, self\<lparr>ruid := r, euid := e\<rparr>))"

definition sys_setsid :: "task_cred \<Rightarrow> int \<times> task_cred" where
  "sys_setsid self = (pid self, self\<lparr>sid := pid self\<rparr>)"

subsection \<open>Group identities\<close>

definition sys_getgid :: "task_cred \<Rightarrow> int" where "sys_getgid self = sint (rgid self)"
definition sys_getegid :: "task_cred \<Rightarrow> int" where "sys_getegid self = sint (egid self)"

definition sys_setgid :: "u32 \<Rightarrow> task_cred \<Rightarrow> int \<times> task_cred" where
  "sys_setgid gid self =
     (if egid self \<noteq> 0 \<and> gid \<noteq> rgid self \<and> gid \<noteq> egid self \<and> gid \<noteq> sgid self then (- EPERM, self)
      else (0, self\<lparr>egid := gid, rgid := gid\<rparr>))"

definition sys_setresgid :: "u32 \<Rightarrow> u32 \<Rightarrow> u32 \<Rightarrow> task_cred \<Rightarrow> int \<times> task_cred" where
  "sys_setresgid r e s self =
     (if egid self \<noteq> 0 \<and> r \<noteq> rgid self \<and> r \<noteq> egid self \<and> r \<noteq> sgid self then (- EPERM, self)
      else if egid self \<noteq> 0 \<and> e \<noteq> rgid self \<and> e \<noteq> egid self \<and> e \<noteq> sgid self then (- EPERM, self)
      else if egid self \<noteq> 0 \<and> s \<noteq> rgid self \<and> s \<noteq> egid self \<and> s \<noteq> sgid self then (- EPERM, self)
      else (0, self\<lparr>rgid := r, egid := e, sgid := s\<rparr>))"

definition sys_getresgid :: "task_cred \<Rightarrow> u32 \<times> u32 \<times> u32" where
  "sys_getresgid self = (rgid self, egid self, sgid self)"

text \<open>\<^verbatim>\<open>setregid\<close> as it is written: no check, and it assigns the user identities.\<close>

definition sys_setregid :: "u32 \<Rightarrow> u32 \<Rightarrow> task_cred \<Rightarrow> int \<times> task_cred" where
  "sys_setregid r e self = (0, self\<lparr>ruid := r, euid := e\<rparr>)"

definition sys_setgroups :: "task_cred \<Rightarrow> int \<times> task_cred" where
  "sys_setgroups self = (0, self)"

subsection \<open>Process identities\<close>

text \<open>The task list, the running task among them by its position.\<close>

definition get_process :: "int \<Rightarrow> task_cred list \<Rightarrow> nat option" where
  "get_process p ts = find (\<lambda>i. pid (ts ! i) = p) [0..<length ts]"

definition pg_target :: "int \<Rightarrow> nat \<Rightarrow> task_cred list \<Rightarrow> nat option" where
  "pg_target p cur ts = (if p \<le> 0 then Some cur else get_process p ts)"

definition sys_getpid :: "task_cred \<Rightarrow> int" where "sys_getpid self = pid self"

definition sys_getppid :: "task_cred \<Rightarrow> int" where
  "sys_getppid self = (if ppid self < 0 then pid self else ppid self)"

definition sys_getpgid :: "int \<Rightarrow> nat \<Rightarrow> task_cred list \<Rightarrow> int" where
  "sys_getpgid p cur ts = (case pg_target p cur ts of None \<Rightarrow> - ESRCH | Some i \<Rightarrow> pgid (ts ! i))"

definition sys_setpgid :: "int \<Rightarrow> int \<Rightarrow> nat \<Rightarrow> task_cred list \<Rightarrow> int \<times> task_cred list" where
  "sys_setpgid p g cur ts =
     (case pg_target p cur ts of
        None \<Rightarrow> (- ESRCH, ts)
      | Some i \<Rightarrow> (g, ts[i := (ts ! i)\<lparr>pgid := g\<rparr>]))"

definition sys_getpgrp :: "task_cred \<Rightarrow> int" where "sys_getpgrp self = pgid self"

subsection \<open>Permission checks\<close>

text \<open>Of a vnode: its owner and its mode bits.\<close>

record vnode_perm =
  permissions :: u16
  vuid :: u32
  vgid :: u32

definition vfs_check_permission :: "vnode_perm \<Rightarrow> u32 \<Rightarrow> task_cred \<Rightarrow> int" where
  "vfs_check_permission node desired_access current =
     (let perms = (ucast (permissions node) :: u32);
          granted = (\<lambda>bits. if perms AND bits = bits then 0 else - EACCES) in
      if euid current = 0 then 0
      else if euid current = vuid node then granted (push_bit 6 desired_access)
      else if egid current = vgid node then granted (push_bit 3 desired_access)
      else granted desired_access)"

text \<open>\<^verbatim>\<open>sys_access\<close> behind the lookup of the path: any one of the bits is enough, and the real
  identities decide.\<close>

definition access_check :: "vnode_perm \<Rightarrow> u32 \<Rightarrow> task_cred \<Rightarrow> int" where
  "access_check node mode self =
     (let perms = (ucast (permissions node) :: u32) in
      if mode = 0 then 0
      else if ruid self = 0 then 0
      else if ruid self = vuid node then if perms AND push_bit 6 mode \<noteq> 0 then 0 else -1
      else if rgid self = vgid node then if perms AND push_bit 3 mode \<noteq> 0 then 0 else -1
      else if perms AND mode \<noteq> 0 then 0 else - EACCES)"

text \<open>The rights that \<^verbatim>\<open>sys_open\<close> and \<^verbatim>\<open>sys_openat\<close> ask for.\<close>

definition required_perms :: "u32 \<Rightarrow> u32" where
  "required_perms flags =
     (let acc = flags AND 3 in
      (if acc = 1 then 2 else 0) OR (if acc = 0 then 4 else 0) OR (if acc = 2 then 6 else 0))"

definition open_allowed :: "vnode_perm \<Rightarrow> u32 \<Rightarrow> task_cred \<Rightarrow> bool" where
  "open_allowed node flags self \<longleftrightarrow> vfs_check_permission node (required_perms flags) self = 0"

subsection \<open>Histories of calls\<close>

datatype cred_call =
    Setuid u32 | Setresuid u32 u32 u32 | Setreuid u32 u32 | Setsid
  | Setgid u32 | Setresgid u32 u32 u32 | Setregid u32 u32 | Setgroups

fun cred_exec :: "cred_call \<Rightarrow> task_cred \<Rightarrow> int \<times> task_cred" where
  "cred_exec (Setuid u) = sys_setuid u"
| "cred_exec (Setresuid r e s) = sys_setresuid r e s"
| "cred_exec (Setreuid r e) = sys_setreuid r e"
| "cred_exec Setsid = sys_setsid"
| "cred_exec (Setgid g) = sys_setgid g"
| "cred_exec (Setresgid r e s) = sys_setresgid r e s"
| "cred_exec (Setregid r e) = sys_setregid r e"
| "cred_exec Setgroups = sys_setgroups"

lemmas cred_defs = sys_setuid_def sys_setresuid_def sys_setreuid_def sys_setsid_def
  sys_setgid_def sys_setresgid_def sys_setgroups_def

fun cred_run :: "cred_call list \<Rightarrow> task_cred \<Rightarrow> task_cred" where
  "cred_run [] c = c"
| "cred_run (k # ks) c = cred_run ks (snd (cred_exec k c))"

definition users :: "task_cred \<Rightarrow> u32 set" where
  "users c = {ruid c, euid c, suid c}"

definition groups :: "task_cred \<Rightarrow> u32 set" where
  "groups c = {rgid c, egid c, sgid c}"

fun is_setregid :: "cred_call \<Rightarrow> bool" where
  "is_setregid (Setregid _ _) = True"
| "is_setregid _ = False"

lemma cred_exec_confined:
  assumes "\<not> is_setregid k"
  shows "(euid c \<noteq> 0 \<longrightarrow> users (snd (cred_exec k c)) \<subseteq> users c) \<and>
    (egid c \<noteq> 0 \<longrightarrow> groups (snd (cred_exec k c)) \<subseteq> groups c)"
  using assms by (cases k) (auto simp: cred_defs users_def groups_def)

lemma cred_run_confined:
  assumes "\<forall>k \<in> set ks. \<not> is_setregid k" "0 \<notin> users c"
  shows "users (cred_run ks c) \<subseteq> users c"
  using assms
proof (induction ks arbitrary: c)
  case (Cons k ks)
  have "euid c \<noteq> 0" using Cons.prems(2) by (auto simp: users_def)
  then have "users (snd (cred_exec k c)) \<subseteq> users c" using cred_exec_confined [of k c] Cons.prems(1) by auto
  then show ?case using Cons.IH [of "snd (cred_exec k c)"] Cons.prems by auto
qed simp

lemma cred_run_groups:
  assumes "\<forall>k \<in> set ks. \<not> is_setregid k" "0 \<notin> groups c"
  shows "groups (cred_run ks c) \<subseteq> groups c"
  using assms
proof (induction ks arbitrary: c)
  case (Cons k ks)
  have "egid c \<noteq> 0" using Cons.prems(2) by (auto simp: groups_def)
  then have "groups (snd (cred_exec k c)) \<subseteq> groups c" using cred_exec_confined [of k c] Cons.prems(1) by auto
  then show ?case using Cons.IH [of "snd (cred_exec k c)"] Cons.prems by auto
qed simp

text \<open>C20: Without \<^verbatim>\<open>setregid\<close> a task that has no identity of root never gets one: whatever credential calls
  it makes, its users and groups stay among those it had, and it can then open a file it does
  not own by none of its identities only with the rights of others.\<close>

theorem credentials_confined:
  assumes "\<forall>k \<in> set ks. \<not> is_setregid k" "0 \<notin> users c" "0 \<notin> groups c"
    and "vuid node \<notin> users c" "vgid node \<notin> groups c"
  shows "users (cred_run ks c) \<subseteq> users c \<and> groups (cred_run ks c) \<subseteq> groups c \<and>
    (open_allowed node flags (cred_run ks c) \<longleftrightarrow>
       (ucast (permissions node) :: u32) AND required_perms flags = required_perms flags)"
proof -
  let ?c = "cred_run ks c"
  have u: "users ?c \<subseteq> users c" and g: "groups ?c \<subseteq> groups c"
    using cred_run_confined cred_run_groups assms by blast+
  have "euid ?c \<in> users c" "egid ?c \<in> groups c" using u g by (auto simp: users_def groups_def)
  then have "euid ?c \<noteq> 0" "euid ?c \<noteq> vuid node" "egid ?c \<noteq> vgid node" using assms by auto
  then show ?thesis using u g by (simp add: open_allowed_def vfs_check_permission_def Let_def EACCES_def)
qed

definition example_cred :: task_cred where
  "example_cred = \<lparr>pid = 7, pgid = 7, ppid = 1, sid = 7, ruid = 1000, rgid = 100, euid = 1000, egid = 100,
     suid = 1001, sgid = 100\<rparr>"

theorem credentials_confined_witness:
  "\<not> open_allowed \<lparr>permissions = 0x1A0, vuid = 0, vgid = 0\<rparr> 0 (cred_run [Setuid 0, Setreuid 1001 1001, Setgid 0] example_cred)"
proof -
  have "(ucast (0x1A0 :: u16) :: u32) AND required_perms 0 \<noteq> required_perms 0"
    by (simp add: required_perms_def Let_def)
  then show ?thesis
    using credentials_confined [of "[Setuid 0, Setreuid 1001 1001, Setgid 0]" example_cred
        "\<lparr>permissions = 0x1A0, vuid = 0, vgid = 0\<rparr>" 0]
    by (simp add: example_cred_def users_def groups_def)
qed

text \<open>\<^verbatim>\<open>setregid\<close> makes any task root: it checks nothing and assigns the user identities, so
  \<^verbatim>\<open>setregid(0, 0)\<close> succeeds for every task, after it every permission check succeeds, and every
  later user call does too.\<close>

theorem setregid_escalates:
  "fst (cred_exec (Setregid 0 0) c) = 0 \<and>
   (let r = snd (cred_exec (Setregid 0 0) c) in
    euid r = 0 \<and> ruid r = 0 \<and> rgid r = rgid c \<and> egid r = egid c \<and>
    vfs_check_permission node access r = 0 \<and> access_check node mode r = 0 \<and> open_allowed node flags r \<and>
    sys_setresuid u1 u2 u3 r = (0, r\<lparr>ruid := u1, euid := u2, suid := u3\<rparr>))"
  by (simp add: sys_setregid_def Let_def vfs_check_permission_def access_check_def open_allowed_def sys_setresuid_def)
end
