(* ===== verification/Mem_FS.thy ===== *)
theory Mem_FS
  imports Pipes
begin

text \<open>
  Files in memory (filesystem/memfs/memfs.cpp), the file system of /, /dev and /proc: the contents
  of a file are one heap block of exactly its size. The theory shows that writing, truncating and
  reading are the operations on a list of bytes that they stand for, and which call fails that
  should not.

  The file lock is held throughout each function and left out; \<open>None\<close> is a call that does not end.
\<close>

subsection \<open>State\<close>

record memfs_file_t =
  fbuffer :: addr
  fsize :: u64
  to_be_removed :: bool

text \<open>A vnode of the file system: whether it is a directory, its size field, and the file behind its
  \<^verbatim>\<open>file_identifier\<close>.\<close>

record memfs_vnode =
  is_dir :: bool
  vnode_size :: u64
  mfile :: memfs_file_t

definition EISDIR :: u32 where "EISDIR = 21"
definition ENOMEM :: u32 where "ENOMEM = 12"
definition EOF_result :: u32 where "EOF_result = 0"

definition new_memfs_file :: memfs_file_t where
  "new_memfs_file = \<lparr>fbuffer = 0, fsize = 0, to_be_removed = False\<rparr>"

subsection \<open>Operations\<close>

definition expand_file ::
  "cpu_features \<Rightarrow> u64 \<Rightarrow> u64 \<Rightarrow> memfs_file_t \<Rightarrow> kernel \<Rightarrow> (u32 \<times> memfs_file_t \<times> kernel) option" where
  "expand_file cpu mb new_size f s =
     (if new_size \<le> fsize f then Some (0, f, s)
      else map_option (\<lambda>(new_buffer, s1).
        if new_buffer = 0 then (- ENOMEM, f, s1)
        else
          let s2 = s1\<lparr>kmem := memset cpu (new_buffer + fsize f) 0 (new_size - fsize f) (kmem s1)\<rparr>;
              s3 = (if fbuffer f \<noteq> 0
                then s2\<lparr>kmem := memcpy cpu new_buffer (fbuffer f) (fsize f) (kmem s2),
                        kheap := free mb (fbuffer f) (kheap s2)\<rparr>
                else s2)
          in (0, f\<lparr>fbuffer := new_buffer, fsize := new_size\<rparr>, s3))
        (kmalloc mb new_size s))"

definition memfs_read ::
  "cpu_features \<Rightarrow> u64 \<Rightarrow> u64 \<Rightarrow> addr \<Rightarrow> memfs_vnode \<Rightarrow> kernel \<Rightarrow> u32 \<times> kernel" where
  "memfs_read cpu offset len buf node s =
     (if is_dir node then (- EISDIR, s)
      else if offset \<ge> fsize (mfile node) then (EOF_result, s)
      else
        let remaining = fsize (mfile node) - offset;
            to_read = min64 remaining len
        in (ucast to_read, s\<lparr>kmem := memcpy cpu buf (fbuffer (mfile node) + offset) to_read (kmem s)\<rparr>))"

definition memfs_write ::
  "cpu_features \<Rightarrow> u64 \<Rightarrow> u64 \<Rightarrow> u64 \<Rightarrow> addr \<Rightarrow> memfs_vnode \<Rightarrow> kernel \<Rightarrow> (u32 \<times> memfs_vnode \<times> kernel) option" where
  "memfs_write cpu mb offset len buf node s =
     (if is_dir node then Some (- EISDIR, node, s)
      else
        let total_size = offset + len in
        map_option (\<lambda>(ret, f, s1).
          if ret \<noteq> 0 then (ret, node\<lparr>mfile := f\<rparr>, s1)
          else (ucast len, node\<lparr>mfile := f, vnode_size := fsize f\<rparr>,
                s1\<lparr>kmem := memcpy cpu (fbuffer f + offset) buf len (kmem s1)\<rparr>))
        (if fsize (mfile node) < total_size then expand_file cpu mb total_size (mfile node) s
         else Some (0, mfile node, s)))"

definition memfs_truncate ::
  "cpu_features \<Rightarrow> u64 \<Rightarrow> u64 \<Rightarrow> memfs_vnode \<Rightarrow> kernel \<Rightarrow> (u32 \<times> memfs_vnode \<times> kernel) option" where
  "memfs_truncate cpu mb len node s =
     (if is_dir node then Some (- EISDIR, node, s)
      else if fsize (mfile node) < len
      then map_option (\<lambda>(ret, f, s1). (ret, node\<lparr>mfile := f\<rparr>, s1)) (expand_file cpu mb len (mfile node) s)
      else map_option (\<lambda>(new_buffer, s1).
        let f = mfile node in
        if new_buffer = 0 then (- ENOMEM, node, s1)
        else
          let s2 = (if fbuffer f \<noteq> 0
                then s1\<lparr>kmem := memcpy cpu new_buffer (fbuffer f) len (kmem s1),
                        kheap := free mb (fbuffer f) (kheap s1)\<rparr>
                else s1)
          in (0, node\<lparr>mfile := f\<lparr>fbuffer := new_buffer, fsize := len\<rparr>, vnode_size := len\<rparr>, s2))
        (kmalloc mb len s))"

text \<open>The file structure itself lies at \<open>fp\<close> in the heap.\<close>

definition memfs_cleanup :: "u64 \<Rightarrow> addr \<Rightarrow> memfs_vnode \<Rightarrow> kernel \<Rightarrow> kernel" where
  "memfs_cleanup mb fp node s =
     (let h1 = (if fbuffer (mfile node) \<noteq> 0 then free mb (fbuffer (mfile node)) (kheap s) else kheap s)
      in s\<lparr>kheap := free mb fp h1\<rparr>)"

definition memfs_close :: "memfs_vnode \<Rightarrow> u32" where
  "memfs_close node = 0"

subsection \<open>The contents of a file\<close>

definition file_ok :: "u64 \<Rightarrow> kernel \<Rightarrow> memfs_file_t \<Rightarrow> bool" where
  "file_ok mb s f \<longleftrightarrow> heap_sound mb (kheap s) \<and>
     (if fbuffer f = 0 then fsize f = 0 else \<exists>k. (fbuffer f, k) \<in> heap_live mb (kheap s) \<and> fsize f \<le> k)"

definition file_bytes :: "kernel \<Rightarrow> memfs_file_t \<Rightarrow> u8 list" where
  "file_bytes s f = load_bytes (kmem s) (fbuffer f) (unat (fsize f))"

lemma file_region:
  assumes "file_ok mb s f" "fbuffer f \<noteq> 0"
  shows "unat (HEAP_BASE mb) \<le> unat (fbuffer f) \<and> unat (fbuffer f) + unat (fsize f) \<le> 18446744073709551616"
proof -
  obtain k where "(fbuffer f, k) \<in> heap_live mb (kheap s)" "fsize f \<le> k" "heap_sound mb (kheap s)"
    using assms by (auto simp: file_ok_def)
  then show ?thesis using live_above [of mb "kheap s"] by (fastforce simp: word_le_nat_alt)
qed

lemma load_fill_other:
  assumes "unat d + n \<le> unat p \<or> unat p + k \<le> unat d" "unat d + n \<le> 18446744073709551616"
    and "unat p + k \<le> 18446744073709551616"
  shows "load_bytes (mem_fill d v n m) p k = load_bytes m p k"
proof (rule load_bytes_cong)
  fix i assume i: "i < k"
  have p: "unat (p + of_nat i) = unat p + i"
    using i assms(3) by (subst unat_plus64) (simp add: unat_of_nat64)
  have "\<not> unat (p + of_nat i - d) < n"
    unfolding unat_diff64 p using assms i unat_lt64 [of d] by auto
  then show "mem_fill d v n m (p + of_nat i) = m (p + of_nat i)" by (simp add: mem_fill_def)
qed

lemma load_fill: "n < 18446744073709551616 \<Longrightarrow> load_bytes (mem_fill d v n m) d n = replicate n v"
  by (rule nth_equalityI) (simp_all add: mem_fill_def unat_of_nat64)

text \<open>Zeroing the end of a block and copying its start.\<close>

lemma load_zeroed_copied:
  assumes "unat q + (i + n) \<le> 18446744073709551616" "i + n < 18446744073709551616"
    and "unat old + i \<le> 18446744073709551616" "unat old + i \<le> unat q \<or> unat q + (i + n) \<le> unat old"
  shows "load_bytes (mem_copy q old i (mem_fill (q + of_nat i) 0 n m)) q (i + n) =
    load_bytes m old i @ replicate n 0"
proof -
  let ?m1 = "mem_fill (q + of_nat i) 0 n m"
  have start: "unat (q + of_nat i) = unat q + i \<or> n = 0"
    using assms(1,2) unat_plus64 [of q "of_nat i"] unat_of_nat64 [of i] by (auto split: if_splits)
  have "load_bytes (mem_copy q old i ?m1) q i = load_bytes ?m1 old i"
    using assms(2) by (intro mem_copy_load) simp
  also have "\<dots> = load_bytes m old i"
  proof (cases "n = 0")
    case False
    then show ?thesis using start assms by (intro load_fill_other) auto
  qed simp
  finally have 1: "load_bytes (mem_copy q old i ?m1) q i = load_bytes m old i" .
  have "load_bytes (mem_copy q old i ?m1) (q + of_nat i) n = load_bytes ?m1 (q + of_nat i) n"
  proof (cases "n = 0")
    case False
    then show ?thesis using start assms by (intro load_mem_copy_other) auto
  qed (simp add: load_bytes_def)
  also have "\<dots> = replicate n 0" using assms(2) by (intro load_fill) simp
  finally show ?thesis using 1 by (simp add: load_bytes_append)
qed

text \<open>Growing a file: the old bytes, then zeros; the caller's windows stay, and stay as they are.\<close>

lemma fill_tail_other:
  fixes i n :: u64
  assumes "unat i \<le> unat n" "unat q + unat n \<le> 18446744073709551616"
    and "unat b + k \<le> unat q \<or> unat q + unat n \<le> unat b" "unat b + k \<le> 18446744073709551616"
  shows "load_bytes (mem_fill (q + of_nat (unat i)) 0 (unat n - unat i) m) b k = load_bytes m b k"
proof (cases "unat i = unat n")
  case False
  then have "unat (q + of_nat (unat i)) = unat q + unat i"
    using assms(1,2) unat_plus64 [of q i] by simp
  then show ?thesis using assms by (intro load_fill_other) linarith+
qed (simp add: mem_fill_def)

lemma expand_file_grows:
  assumes ok: "file_ok mb s f" and n: "fsize f < n" and room: "heap_room n (kheap s)"
  shows "\<exists>f' m h. expand_file cpu mb n f s = Some (0, f', s\<lparr>kmem := m, kheap := h\<rparr>) \<and>
    file_ok mb (s\<lparr>kmem := m, kheap := h\<rparr>) f' \<and> fsize f' = n \<and> fbuffer f' \<noteq> 0 \<and>
    load_bytes m (fbuffer f') (unat n) = file_bytes s f @ replicate (unat n - unat (fsize f)) 0 \<and>
    (\<forall>b k. heap_window mb (kheap s) (fbuffer f) b k \<longrightarrow> heap_window mb h (fbuffer f') b k \<and>
       load_bytes m b (unat k) = load_bytes (kmem s) b (unat k))"
proof -
  have sound: "heap_sound mb (kheap s)" using ok by (simp add: file_ok_def)
  let ?i = "unat (fsize f)" and ?n = "unat n - unat (fsize f)"
  have le: "?i < unat n" "?i + ?n = unat n" using n by (simp_all add: word_less_nat_alt)
  have diff: "unat (n - fsize f) = ?n" using n by (simp add: unat_sub64)
  have set0: "memset cpu (q + fsize f) 0 (n - fsize f) m = mem_fill (q + of_nat ?i) 0 ?n m" for q m
    by (simp add: memset_mem_fill diff)
  show ?thesis
  proof (cases "fbuffer f = 0")
    case True
    then have z: "fsize f = 0" using ok by (simp add: file_ok_def)
    obtain q m h1 k where a: "kmalloc mb n s = Some (q, s\<lparr>kmem := m, kheap := h1\<rparr>)" "heap_sound mb h1"
        "n \<le> k" "q \<noteq> 0" "(q, k) \<notin> heap_live mb (kheap s)" "heap_live mb h1 = insert (q, k) (heap_live mb (kheap s))"
        "same_heap_bytes (kheap s) (kmem s) m"
      using kmalloc_fresh [OF sound room] by blast
    have q: "(q, k) \<in> heap_live mb h1" and nk: "unat n \<le> unat k" using a(3,6) by (simp_all add: word_le_nat_alt)
    have reg: "unat q + unat n \<le> 18446744073709551616" using live_above [OF a(2) q] nk by linarith
    let ?m = "mem_fill (q + of_nat ?i) 0 ?n m" and ?f = "f\<lparr>fbuffer := q, fsize := n\<rparr>"
    have "expand_file cpu mb n f s = Some (0, ?f, s\<lparr>kmem := ?m, kheap := h1\<rparr>)"
      using n a(1,4) True by (simp add: expand_file_def Let_def set0 not_le)
    moreover have "load_bytes ?m q (unat n) = file_bytes s f @ replicate ?n 0"
      using load_fill [of "unat n" q 0 m] by (simp add: z file_bytes_def load_bytes_def)
    moreover have "file_ok mb (s\<lparr>kmem := ?m, kheap := h1\<rparr>) ?f" using a by (auto simp: file_ok_def)
    moreover have "heap_window mb h1 q b l \<and> load_bytes ?m b (unat l) = load_bytes (kmem s) b (unat l)"
      if win: "heap_window mb (kheap s) (fbuffer f) b l" for b l
    proof -
      have w: "heap_window mb h1 q b l" using window_kept [OF win a(2,5,6)] by blast
      have "load_bytes ?m b (unat l) = load_bytes m b (unat l)"
        by (rule fill_tail_other) (use window_apart [OF a(2) w q] window_nowrap [OF a(2) w] le reg nk in linarith)+
      then show ?thesis using w load_window_kept [OF win sound a(7)] by simp
    qed
    ultimately show ?thesis using a(4) by (intro exI [of _ ?f] exI [of _ ?m] exI [of _ h1]) simp
  next
    case False
    obtain j where j: "(fbuffer f, j) \<in> heap_live mb (kheap s)" "fsize f \<le> j"
      using ok False by (auto simp: file_ok_def)
    let ?old = "fbuffer f"
    obtain q m h1 k where a: "kmalloc mb n s = Some (q, s\<lparr>kmem := m, kheap := h1\<rparr>)" "q \<noteq> 0" "n \<le> k"
        "heap_sound mb (free mb ?old h1)" "(q, k) \<in> heap_live mb (free mb ?old h1)"
      and reg: "unat q + unat k \<le> 18446744073709551616" "unat ?old + unat j \<le> 18446744073709551616"
        "unat ?old + unat j \<le> unat q \<or> unat q + unat k \<le> unat ?old"
      and old: "\<forall>i \<le> unat j. load_bytes m ?old i = load_bytes (kmem s) ?old i"
      and win: "\<forall>b l. heap_window mb (kheap s) ?old b l \<longrightarrow> heap_window mb (free mb ?old h1) q b l \<and>
         (unat b + unat l \<le> unat q \<or> unat q + unat k \<le> unat b) \<and> unat b + unat l \<le> 18446744073709551616 \<and>
         load_bytes m b (unat l) = load_bytes (kmem s) b (unat l)"
      using replace_block [OF sound j(1) room] by (elim exE conjE) (rule that)
    have sizes: "?i \<le> unat j" "unat n \<le> unat k" "?i \<le> unat k"
      using j(2) a(3) le by (simp_all add: word_le_nat_alt)
    let ?m1 = "mem_fill (q + of_nat ?i) 0 ?n m"
    let ?m = "mem_copy q ?old ?i ?m1" and ?f = "f\<lparr>fbuffer := q, fsize := n\<rparr>"
    let ?h = "free mb ?old h1"
    have "expand_file cpu mb n f s = Some (0, ?f, s\<lparr>kmem := ?m, kheap := ?h\<rparr>)"
      using n a(1,2) False
      by (simp add: expand_file_def Let_def set0 not_le copy_between_blocks [OF reg(3) sizes(1,3) reg(2)])
    moreover have "load_bytes ?m q (?i + ?n) = load_bytes m ?old ?i @ replicate ?n 0"
      by (rule load_zeroed_copied) (use le sizes reg unat_lt64 [of n] in linarith)+
    then have "load_bytes ?m q (unat n) = file_bytes s f @ replicate ?n 0"
      using old sizes(1) unfolding le(2) file_bytes_def by simp
    moreover have "file_ok mb (s\<lparr>kmem := ?m, kheap := ?h\<rparr>) ?f" using a by (auto simp: file_ok_def)
    moreover have "heap_window mb ?h q b l \<and> load_bytes ?m b (unat l) = load_bytes (kmem s) b (unat l)"
      if w: "heap_window mb (kheap s) ?old b l" for b l
    proof -
      have b: "unat b + unat l \<le> unat q \<or> unat q + unat k \<le> unat b" "unat b + unat l \<le> 18446744073709551616"
        using win w by blast+
      have "load_bytes ?m b (unat l) = load_bytes ?m1 b (unat l)"
        by (rule load_mem_copy_other) (use b sizes(3) reg(1) in linarith)+
      also have "\<dots> = load_bytes m b (unat l)"
        by (rule fill_tail_other) (use b sizes(2) le(1) reg(1) in linarith)+
      finally show ?thesis using win w by simp
    qed
    ultimately show ?thesis using a(2) by (intro exI [of _ ?f] exI [of _ ?m] exI [of _ ?h]) simp
  qed
qed

text \<open>Overwriting a part of a block.\<close>

lemma load_overwritten:
  assumes "off + k \<le> n" "unat b + n \<le> 18446744073709551616" "n < 18446744073709551616"
    and "unat src + k \<le> 18446744073709551616" "unat src + k \<le> unat b \<or> unat b + n \<le> unat src"
  shows "load_bytes (mem_copy (b + of_nat off) src k m) b n =
    take off (load_bytes m b n) @ load_bytes m src k @ drop (off + k) (load_bytes m b n)"
proof -
  let ?m = "mem_copy (b + of_nat off) src k m" and ?r = "n - (off + k)"
  have parts: "load_bytes w b n = load_bytes w b off @ load_bytes w (b + of_nat off) k @ load_bytes w (b + of_nat (off + k)) ?r" for w
    using load_bytes_append [of w b off "k + ?r"] load_bytes_append [of w "b + of_nat off" k ?r] assms(1)
    by (simp add: add.assoc)
  have pos: "unat (b + of_nat i) = unat b + i \<or> n = i" if "i \<le> n" for i
    using unat_plus64 [of b "of_nat i"] unat_of_nat64 [of i] that assms by (auto split: if_splits)
  have "load_bytes ?m b off = load_bytes m b off"
  proof (cases "k = 0")
    case True
    then show ?thesis by (simp add: mem_copy_def)
  next
    case False
    then show ?thesis using pos [of off] assms by (intro load_mem_copy_other) auto
  qed
  moreover have "load_bytes ?m (b + of_nat off) k = load_bytes m src k"
    using assms by (intro mem_copy_load) simp
  moreover have "load_bytes ?m (b + of_nat (off + k)) ?r = load_bytes m (b + of_nat (off + k)) ?r"
  proof (cases "?r = 0")
    case False
    then show ?thesis using pos [of off] pos [of "off + k"] assms by (intro load_mem_copy_other) auto
  qed (simp add: load_bytes_def)
  ultimately have new: "load_bytes ?m b n = load_bytes m b off @ load_bytes m src k @ load_bytes m (b + of_nat (off + k)) ?r"
    using parts [of ?m] by simp
  show ?thesis unfolding new parts [of m] by simp
qed

lemma length_file_bytes: "length (file_bytes s f) = unat (fsize f)"
  by (simp add: file_bytes_def)

lemma file_window_apart:
  assumes ok: "file_ok mb s f" and win: "heap_window mb (kheap s) (fbuffer f) b n" and some: "fbuffer f \<noteq> 0"
  shows "unat b + unat n \<le> 18446744073709551616 \<and>
    (unat b + unat n \<le> unat (fbuffer f) \<or> unat (fbuffer f) + unat (fsize f) \<le> unat b)"
proof -
  obtain k where k: "(fbuffer f, k) \<in> heap_live mb (kheap s)" "fsize f \<le> k" "heap_sound mb (kheap s)"
    using ok some by (auto simp: file_ok_def)
  then show ?thesis using window_apart [OF k(3) win k(1)] window_nowrap [OF k(3) win]
    by (auto simp: word_le_nat_alt)
qed

text \<open>Reading copies a part of the contents out and changes only the caller's buffer.\<close>

lemma memfs_read_contents:
  assumes "\<not> is_dir node" and ok: "file_ok mb s (mfile node)"
    and win: "heap_window mb (kheap s) (fbuffer (mfile node)) buf len"
    and small: "unat len < 4294967296"
  shows "\<exists>ret s'. memfs_read cpu offset len buf node s = (ret, s') \<and>
    load_bytes (kmem s') buf (unat ret) = take (unat len) (drop (unat offset) (file_bytes s (mfile node))) \<and>
    unat ret = min (unat len) (length (file_bytes s (mfile node)) - unat offset) \<and>
    file_ok mb s' (mfile node) \<and> file_bytes s' (mfile node) = file_bytes s (mfile node)"
proof (cases "offset \<ge> fsize (mfile node)")
  case True
  then have "unat (fsize (mfile node)) \<le> unat offset" by (simp add: word_le_nat_alt)
  then show ?thesis using assms(1) ok True
    by (simp add: memfs_read_def EOF_result_def length_file_bytes load_bytes_def)
next
  case False
  let ?f = "mfile node"
  define n where "n = min64 (fsize ?f - offset) len"
  have off: "unat offset < unat (fsize ?f)" using False by (simp add: word_le_nat_alt not_le)
  then have rem: "unat (fsize ?f - offset) = unat (fsize ?f) - unat offset"
    by (simp add: unat_sub64 word_le_nat_alt)
  have n: "unat n = min (unat (fsize ?f) - unat offset) (unat len)" by (simp add: n_def unat_min64 rem)
  have some: "fbuffer ?f \<noteq> 0" using off ok by (auto simp: file_ok_def split: if_splits)
  note reg = file_region [OF ok some]
  have start: "unat (fbuffer ?f + offset) = unat (fbuffer ?f) + unat offset"
    using reg off by (intro unat_add64) linarith
  have bufend: "unat buf + unat n \<le> 18446744073709551616"
    and apart: "unat buf + unat n \<le> unat (fbuffer ?f) \<or> unat (fbuffer ?f) + unat (fsize ?f) \<le> unat buf"
    using file_window_apart [OF ok win some] n by auto
  have "disjoint_regions buf (fbuffer ?f + offset) n" "no_wrap (fbuffer ?f + offset) n"
    using reg apart off n unfolding disjoint_regions_def no_wrap_def start by linarith+
  then have copy: "memcpy cpu buf (fbuffer ?f + offset) n (kmem s) = mem_copy buf (fbuffer ?f + offset) (unat n) (kmem s)"
    by (intro memcpy_mem_copy disjoint_up_ok)
  let ?s = "s\<lparr>kmem := mem_copy buf (fbuffer ?f + offset) (unat n) (kmem s)\<rparr>"
  have r: "memfs_read cpu offset len buf node s = (ucast n, ?s)"
    using False assms(1) copy by (simp add: memfs_read_def Let_def n_def [symmetric])
  have ret: "unat (ucast n :: u32) = unat n" using small n by (intro unat_trunc32) simp
  have "load_bytes (kmem ?s) buf (unat n) = load_bytes (kmem s) (fbuffer ?f + offset) (unat n)"
    by (simp add: mem_copy_load)
  also have "\<dots> = take (unat n) (drop (unat offset) (file_bytes s ?f))"
  proof -
    have "drop (unat offset) (file_bytes s ?f) = load_bytes (kmem s) (fbuffer ?f + offset) (unat (fsize ?f) - unat offset)"
      using load_bytes_take_drop [of "unat offset" "unat (fsize ?f)" "kmem s" "fbuffer ?f"] off
      by (simp add: file_bytes_def)
    then show ?thesis
      using load_bytes_take_drop [of "unat n" "unat (fsize ?f) - unat offset" "kmem s" "fbuffer ?f + offset"] n
      by simp
  qed
  also have "\<dots> = take (unat len) (drop (unat offset) (file_bytes s ?f))"
    unfolding n by (simp add: min_def length_file_bytes)
  finally have bytes: "load_bytes (kmem ?s) buf (unat n) = take (unat len) (drop (unat offset) (file_bytes s ?f))" .
  have "load_bytes (mem_copy buf (fbuffer ?f + offset) (unat n) (kmem s)) (fbuffer ?f) (unat (fsize ?f))
      = load_bytes (kmem s) (fbuffer ?f) (unat (fsize ?f))"
    by (rule load_mem_copy_other)
      (use reg bufend apart in linarith)+
  then have "file_bytes ?s ?f = file_bytes s ?f" by (simp add: file_bytes_def)
  moreover have "file_ok mb ?s ?f" using ok by (simp add: file_ok_def)
  ultimately show ?thesis using r bytes ret n
    by (intro exI [of _ "ucast n"] exI [of _ ?s] conjI) (simp_all add: length_file_bytes min.commute)
qed

text \<open>What a write makes of the contents: a gap is filled with zeros.\<close>

definition written :: "nat \<Rightarrow> u8 list \<Rightarrow> u8 list \<Rightarrow> u8 list" where
  "written off bs c =
     (let p = c @ replicate (off + length bs - length c) 0
      in take off p @ bs @ drop (off + length bs) p)"

lemma memfs_write_contents:
  assumes dir: "\<not> is_dir node" and ok: "file_ok mb s (mfile node)"
    and win: "heap_window mb (kheap s) (fbuffer (mfile node)) buf len"
    and fit: "unat offset + unat len < 18446744073709551616"
    and room: "fsize (mfile node) < offset + len \<longrightarrow> heap_room (offset + len) (kheap s)"
  shows "\<exists>node' s'. memfs_write cpu mb offset len buf node s = Some (ucast len, node', s') \<and>
    \<not> is_dir node' \<and> file_ok mb s' (mfile node') \<and> vnode_size node' = fsize (mfile node') \<and>
    file_bytes s' (mfile node') = written (unat offset) (load_bytes (kmem s) buf (unat len)) (file_bytes s (mfile node))"
proof -
  let ?f = "mfile node" and ?off = "unat offset" and ?k = "unat len" and ?c = "file_bytes s (mfile node)"
  have sum: "unat (offset + len) = ?off + ?k" using fit by (rule unat_add64)
  let ?e = "if fsize ?f < offset + len then expand_file cpu mb (offset + len) ?f s else Some (0, ?f, s)"
  let ?pad = "?c @ replicate (?off + ?k - length ?c) 0"
  obtain f' m h where e: "?e = Some (0, f', s\<lparr>kmem := m, kheap := h\<rparr>)"
    and ok1: "file_ok mb (s\<lparr>kmem := m, kheap := h\<rparr>) f'"
    and bytes: "load_bytes m (fbuffer f') (unat (fsize f')) = ?pad"
    and src: "load_bytes m buf ?k = load_bytes (kmem s) buf ?k"
    and win1: "heap_window mb h (fbuffer f') buf len"
    and big: "?off + ?k \<le> unat (fsize f')"
  proof (cases "fsize ?f < offset + len")
    case True
    then obtain f' m h where g: "expand_file cpu mb (offset + len) ?f s = Some (0, f', s\<lparr>kmem := m, kheap := h\<rparr>)"
        "file_ok mb (s\<lparr>kmem := m, kheap := h\<rparr>) f'" "fsize f' = offset + len"
        "load_bytes m (fbuffer f') (unat (offset + len)) = ?c @ replicate (unat (offset + len) - unat (fsize ?f)) 0"
        "\<forall>b k. heap_window mb (kheap s) (fbuffer ?f) b k \<longrightarrow> heap_window mb h (fbuffer f') b k \<and>
           load_bytes m b (unat k) = load_bytes (kmem s) b (unat k)"
      using expand_file_grows [OF ok True] room by blast
    show ?thesis
      by (rule that [of f' h m]) (use g True win in \<open>simp_all add: sum length_file_bytes\<close>)
  next
    case False
    then have le: "?off + ?k \<le> unat (fsize ?f)" by (simp add: not_less word_le_nat_alt sum)
    show ?thesis
    proof (rule that [of ?f "kheap s" "kmem s"])
      show "?e = Some (0, ?f, s\<lparr>kmem := kmem s, kheap := kheap s\<rparr>)" using False by simp
      show "load_bytes (kmem s) (fbuffer ?f) (unat (fsize ?f)) = ?pad"
        using le by (simp add: length_file_bytes) (simp add: file_bytes_def)
    qed (use ok le win in \<open>simp_all add: file_ok_def\<close>)
  qed
  let ?m = "mem_copy (fbuffer f' + of_nat ?off) buf ?k m"
  have copy: "memcpy cpu (fbuffer f' + offset) buf len m = ?m \<and>
      load_bytes ?m (fbuffer f') (unat (fsize f')) = take ?off ?pad @ load_bytes m buf ?k @ drop (?off + ?k) ?pad"
  proof (cases "fbuffer f' = 0")
    case True
    then have "fsize f' = 0" using ok1 by (simp add: file_ok_def)
    then have z: "?off = 0" "?k = 0" "?pad = []" using big bytes by (simp_all add: load_bytes_def)
    then have "len = 0" "offset = 0" by (simp_all add: unat_eq_zero)
    then show ?thesis using z \<open>fsize f' = 0\<close>
      by (simp add: memcpy_mem_copy up_ok_def load_bytes_def mem_copy_def)
  next
    case False
    note reg = file_region [OF ok1 False]
    have apart: "unat buf + ?k \<le> 18446744073709551616"
        "unat buf + ?k \<le> unat (fbuffer f') \<or> unat (fbuffer f') + unat (fsize f') \<le> unat buf"
      using file_window_apart [OF ok1 _ False, of buf len] win1 by simp_all
    have start: "unat (fbuffer f' + offset) = unat (fbuffer f') + ?off \<or> ?k = 0"
      using reg big unat_plus64 [of "fbuffer f'" offset] by (auto split: if_splits)
    have "up_ok (fbuffer f' + offset) buf ?k"
    proof (cases "?k = 0")
      case True
      then show ?thesis by (simp add: up_ok_def)
    next
      case False
      then have "disjoint_regions (fbuffer f' + offset) buf len" "no_wrap buf len"
        using start apart reg big unfolding disjoint_regions_def no_wrap_def by linarith+
      then show ?thesis by (rule disjoint_up_ok)
    qed
    then have "memcpy cpu (fbuffer f' + offset) buf len m = ?m" by (simp add: memcpy_mem_copy)
    then show ?thesis
      using load_overwritten [OF big conjunct2 [OF reg] unat_lt64 apart, of m] bytes by simp
  qed
  let ?node = "node\<lparr>mfile := f', vnode_size := fsize f'\<rparr>" and ?s = "s\<lparr>kmem := ?m, kheap := h\<rparr>"
  have "memfs_write cpu mb offset len buf node s = Some (ucast len, ?node, ?s)"
    using dir e copy by (simp add: memfs_write_def Let_def)
  moreover have "file_ok mb ?s f'" using ok1 by (auto simp: file_ok_def split: if_splits)
  moreover have "file_bytes ?s f' = written ?off (load_bytes (kmem s) buf ?k) ?c"
  proof -
    have "file_bytes ?s f' = load_bytes ?m (fbuffer f') (unat (fsize f'))" by (simp add: file_bytes_def)
    then show ?thesis using copy src unfolding written_def Let_def by simp
  qed
  ultimately show ?thesis using dir by (intro exI [of _ ?node] exI [of _ ?s]) simp
qed

text \<open>C21: A file in memory is a list of bytes: a write at any offset replaces the bytes at its place,
  growing the file with zeros up to it where it lies behind the end; in whatever state of the
  kernel the file's buffer is still live with the same bytes, a read returns exactly the part of
  that list it asks for, up to the end, and leaves the list. The bytes move through windows that the
  callers hold on the heap, in blocks other than the file's own; a write that grows the file finds
  room in the heap, and the heap stays sound.\<close>

theorem memfs_write_then_read:
  assumes "\<not> is_dir node" "file_ok mb s (mfile node)"
    and "heap_window mb (kheap s) (fbuffer (mfile node)) buf len"
    and "unat offset + unat len < 18446744073709551616"
    and "fsize (mfile node) < offset + len \<longrightarrow> heap_room (offset + len) (kheap s)"
  shows "\<exists>node' s'. memfs_write cpu mb offset len buf node s = Some (ucast len, node', s') \<and>
    file_ok mb s' (mfile node') \<and> vnode_size node' = fsize (mfile node') \<and>
    (let c = written (unat offset) (load_bytes (kmem s) buf (unat len)) (file_bytes s (mfile node)) in
     file_bytes s' (mfile node') = c \<and>
     (\<forall>t off2 len2 buf2. file_ok mb t (mfile node') \<and> file_bytes t (mfile node') = c \<and>
        heap_window mb (kheap t) (fbuffer (mfile node')) buf2 len2 \<and> unat len2 < 4294967296 \<longrightarrow>
       (\<exists>ret t'. memfs_read cpu off2 len2 buf2 node' t = (ret, t') \<and>
         unat ret = min (unat len2) (length c - unat off2) \<and>
         load_bytes (kmem t') buf2 (unat ret) = take (unat len2) (drop (unat off2) c) \<and>
         file_ok mb t' (mfile node') \<and> file_bytes t' (mfile node') = c)))"
proof -
  obtain node' s' where w: "memfs_write cpu mb offset len buf node s = Some (ucast len, node', s')"
      "\<not> is_dir node'" "file_ok mb s' (mfile node')" "vnode_size node' = fsize (mfile node')"
      "file_bytes s' (mfile node') = written (unat offset) (load_bytes (kmem s) buf (unat len)) (file_bytes s (mfile node))"
    using memfs_write_contents [OF assms, of cpu] by blast
  define c where "c = written (unat offset) (load_bytes (kmem s) buf (unat len)) (file_bytes s (mfile node))"
  have "\<exists>ret t'. memfs_read cpu off2 len2 buf2 node' t = (ret, t') \<and>
      unat ret = min (unat len2) (length c - unat off2) \<and>
      load_bytes (kmem t') buf2 (unat ret) = take (unat len2) (drop (unat off2) c) \<and>
      file_ok mb t' (mfile node') \<and> file_bytes t' (mfile node') = c"
    if "file_ok mb t (mfile node') \<and> file_bytes t (mfile node') = c \<and>
      heap_window mb (kheap t) (fbuffer (mfile node')) buf2 len2 \<and> unat len2 < 4294967296" for t off2 len2 buf2
    using memfs_read_contents [OF w(2), of mb t buf2 len2 cpu off2] that by auto
  then show ?thesis using w unfolding c_def [symmetric] Let_def by blast
qed

definition example_node :: memfs_vnode where
  "example_node = \<lparr>is_dir = False, vnode_size = 0, mfile = new_memfs_file\<rparr>"

lemma example_file_ok: "file_ok 0xffff800000000000 example_kernel (mfile example_node)"
  using example_heap_sound by (simp add: file_ok_def example_kernel_def example_node_def new_memfs_file_def)

text \<open>Three bytes of a window are written to an empty file, from its third byte on.\<close>

theorem memfs_write_then_read_witness:
  "\<exists>q s node' s'. kmalloc 0xffff800000000000 100 example_kernel = Some (q, s) \<and>
      memfs_write \<lparr>is_sse_enabled = True, is_avx_enabled = False, is_avx2_enabled = False,
        is_avx512_enabled = False\<rparr> 0xffff800000000000 2 3 q example_node s = Some (3, node', s') \<and>
      file_bytes s' (mfile node') = [0, 0] @ load_bytes (kmem s) q 3"
proof -
  let ?mb = "0xffff800000000000 :: u64" and ?f = "mfile example_node"
  obtain h where h: "malloc ?mb 100 example_heap = Some (0xffff900000000030, h)" "same_window example_heap h"
    using malloc_found [of ?mb example_heap "[]" "0xfd0" "[]" 100] example_heap_ok
    by (auto simp: round16_def example_heap_def)
  have room: "heap_room 100 (kheap example_kernel)" "heap_sound ?mb (kheap example_kernel)"
    using example_heap_room [of 100] example_heap_sound by (simp_all add: example_kernel_def)
  obtain q s k m where s: "kmalloc ?mb 100 example_kernel = Some (q, s)" "s = example_kernel\<lparr>kmem := m, kheap := h\<rparr>"
      "heap_sound ?mb h" "100 \<le> k" "q \<noteq> 0" "(q, k) \<in> heap_live ?mb h"
    using kmalloc_fresh [OF room(2,1)] h(1) by (auto simp: kmalloc_def example_kernel_def)
  have ok: "file_ok ?mb s ?f" "fbuffer ?f = 0"
    using s(3) by (simp_all add: file_ok_def s(2) example_node_def new_memfs_file_def)
  have win: "heap_window ?mb (kheap s) (fbuffer ?f) q 3"
    unfolding heap_window_def using s(4-6)
    by (intro exI [of _ q] exI [of _ k]) (simp add: s(2) ok(2) word_le_nat_alt)
  have "heap_room 5 h" using example_heap_room [of 5] by (simp add: same_window_room [OF h(2)])
  then have room5: "fsize ?f < 2 + 3 \<longrightarrow> heap_room (2 + 3) (kheap s)" by (simp add: s(2))
  have empty: "file_bytes s ?f = []"
    by (simp add: file_bytes_def load_bytes_def example_node_def new_memfs_file_def)
  have two: "unat (2 :: u64) = Suc (Suc 0)" by simp
  have "written (unat (2 :: u64)) bs [] = [0, 0] @ bs" for bs
    unfolding two by (simp add: written_def Let_def)
  then show ?thesis
    using memfs_write_then_read [OF _ ok(1) win _ room5, of "\<lparr>is_sse_enabled = True,
        is_avx_enabled = False, is_avx2_enabled = False, is_avx512_enabled = False\<rparr>"] s(1)
    unfolding empty Let_def by (auto simp: example_node_def)
qed

text \<open>Cutting a file to a shorter length keeps exactly its first bytes; cutting it to length 0, what
  opening for writing from scratch asks for, always fails with ENOMEM and keeps the contents,
  for \<^verbatim>\<open>malloc(0)\<close> returns null.\<close>

theorem memfs_truncate_cuts:
  assumes dir: "\<not> is_dir node" and ok: "file_ok mb s (mfile node)" and len: "len \<le> fsize (mfile node)"
    and room: "len \<noteq> 0 \<longrightarrow> heap_room len (kheap s)"
  shows "\<exists>ret node' s'. memfs_truncate cpu mb len node s = Some (ret, node', s') \<and>
    (if len = 0 then ret = - ENOMEM \<and> node' = node \<and> s' = s
     else ret = 0 \<and> file_ok mb s' (mfile node') \<and> vnode_size node' = len \<and>
       file_bytes s' (mfile node') = take (unat len) (file_bytes s (mfile node)))"
proof (cases "len = 0")
  case True
  have "kmalloc mb 0 s = Some (0, s)" by (simp add: kmalloc_def malloc_def)
  then have "memfs_truncate cpu mb len node s = Some (- ENOMEM, node, s)"
    using dir len True by (simp add: memfs_truncate_def Let_def)
  then show ?thesis using True by simp
next
  case False
  let ?f = "mfile node"
  have sound: "heap_sound mb (kheap s)" using ok by (simp add: file_ok_def)
  have "fbuffer ?f \<noteq> 0" using ok len False by (auto simp: file_ok_def split: if_splits)
  then obtain j where j: "(fbuffer ?f, j) \<in> heap_live mb (kheap s)" "fsize ?f \<le> j"
    using ok by (auto simp: file_ok_def)
  have sizes: "unat len \<le> unat j" using len j(2) by (simp add: word_le_nat_alt)
  have "heap_room len (kheap s)" using room False by simp
  from move_block [OF sound j(1) this sizes order_refl, of cpu]
  obtain q m h1 k where a: "kmalloc mb len s = Some (q, s\<lparr>kmem := m, kheap := h1\<rparr>)" "q \<noteq> 0" "len \<le> k"
      "heap_sound mb (free mb (fbuffer ?f) h1)" "(q, k) \<in> heap_live mb (free mb (fbuffer ?f) h1)"
      "load_bytes (memcpy cpu q (fbuffer ?f) len m) q (unat len) = load_bytes (kmem s) (fbuffer ?f) (unat len)"
    by blast
  let ?m = "memcpy cpu q (fbuffer ?f) len m" and ?h = "free mb (fbuffer ?f) h1"
  let ?node = "node\<lparr>mfile := ?f\<lparr>fbuffer := q, fsize := len\<rparr>, vnode_size := len\<rparr>"
  have "memfs_truncate cpu mb len node s = Some (0, ?node, s\<lparr>kmem := ?m, kheap := ?h\<rparr>)"
    using dir len a(1,2) \<open>fbuffer ?f \<noteq> 0\<close>
    by (simp add: memfs_truncate_def Let_def not_less [symmetric])
  moreover have "file_ok mb (s\<lparr>kmem := ?m, kheap := ?h\<rparr>) (mfile ?node)" using a by (auto simp: file_ok_def)
  moreover have "load_bytes ?m q (unat len) = take (unat len) (file_bytes s ?f)"
    using a(6) load_bytes_take_drop [of "unat len" "unat (fsize ?f)" "kmem s" "fbuffer ?f"] len
    by (simp add: file_bytes_def word_le_nat_alt)
  ultimately show ?thesis using False by (auto simp: file_bytes_def)
qed

theorem memfs_truncate_cuts_witness:
  "memfs_truncate \<lparr>is_sse_enabled = True, is_avx_enabled = False, is_avx2_enabled = False,
        is_avx512_enabled = False\<rparr> 0xffff800000000000 0 example_node example_kernel = Some (- ENOMEM, example_node, example_kernel)"
  using memfs_truncate_cuts [OF _ example_file_ok, of 0 "\<lparr>is_sse_enabled = True, is_avx_enabled = False,
      is_avx2_enabled = False, is_avx512_enabled = False\<rparr>"]
  by (simp add: example_node_def)

end
