(* ===== verification/Files.thy ===== *)
theory Files
  imports Prelude
begin

text \<open>
  The descriptors of a task: the list of open descriptors (scheduling/task_scheduler), the reference
  counts of the vnodes behind them (filesystem/vfs) and the system calls on descriptors
  (syscalls/files: close, dup, dup2, lseek, fcntl), with the table that a new task starts with, the
  copy of the parent's table that fork makes and the closing of the table at exit. The theory shows
  that descriptor numbers stay distinct and that a new one is the lowest free number; what fork
  followed by the exit of the child does to numbers and references; and that \<open>dup\<close> takes no
  reference, so that closing one descriptor deletes the vnode under the other.

  A vnode that was deleted is absent from the store, and an access to it is \<open>None\<close>. The callbacks of
  the file systems are recorded in the order of their calls. The calls are taken one after the
  other and the spinlock of the list is left out: \<^verbatim>\<open>get_fd\<close> and \<^verbatim>\<open>open_node\<close> hold it throughout, but
  \<^verbatim>\<open>close_fd\<close> releases it when it has found the descriptor, unlinks it without the lock, and releases
  the lock a second time at its end, so that calls of two processors on one list are not covered.
  The entries of /proc that mirror the list are left out as well.
\<close>

subsection \<open>State\<close>

record fd_t =
  fd_node :: addr
  fd_flags :: u32
  fd_num :: int
  fd_offset :: u64

text \<open>The part of a vnode that opening and closing it use; a null parent is \<open>0\<close>.\<close>

record vnode_refs =
  ref_count :: u32
  node_size :: u64
  node_parent :: addr

datatype node_hook = Open_Hook addr | Close_Hook addr | Cleanup_Hook addr

record vnode_store =
  vnodes :: "addr \<rightharpoonup> vnode_refs"
  hooks :: "node_hook list"

record fd_table =
  fds :: "fd_t list"
  store :: vnode_store

definition O_RDWR :: u32 where "O_RDWR = 2"
definition O_CLOEXEC :: u32 where "O_CLOEXEC = 0x80000"
definition EBADF :: u64 where "EBADF = 9"
definition EBADFD :: u64 where "EBADFD = 77"
definition ENOSYS :: u64 where "ENOSYS = 38"

subsection \<open>Opening and closing a vnode\<close>

partial_function (option) vnode_open :: "addr \<Rightarrow> vnode_store \<Rightarrow> vnode_store option" where
  "vnode_open a st = Option.bind (vnodes st a) (\<lambda>v.
     let prev_ref_cnt = ref_count v;
         st1 = st\<lparr>vnodes := (vnodes st)(a \<mapsto> v\<lparr>ref_count := ref_count v + 1\<rparr>),
                  hooks := hooks st @ [Open_Hook a]\<rparr>
     in if prev_ref_cnt = 0 \<and> node_parent v \<noteq> 0 then vnode_open (node_parent v) st1 else Some st1)"

partial_function (option) vnode_close :: "addr \<Rightarrow> vnode_store \<Rightarrow> vnode_store option" where
  "vnode_close a st = Option.bind (vnodes st a) (\<lambda>v.
     let new_ref_count = ref_count v - 1;
         st1 = st\<lparr>vnodes := (vnodes st)(a \<mapsto> v\<lparr>ref_count := new_ref_count\<rparr>),
                  hooks := hooks st @ [Close_Hook a]\<rparr>
     in if new_ref_count \<noteq> 0 then Some st1
        else if node_parent v \<noteq> 0 then vnode_close (node_parent v) st1
        else Some (st1\<lparr>hooks := hooks st1 @ [Cleanup_Hook a], vnodes := (vnodes st1)(a := None)\<rparr>))"

subsection \<open>The list of descriptors\<close>

primrec get_fd :: "int \<Rightarrow> fd_t list \<Rightarrow> fd_t option" where
  "get_fd num [] = None"
| "get_fd num (fd # l) = (if fd_num fd = num then Some fd else get_fd num l)"

text \<open>The search of \<^verbatim>\<open>open_node\<close> for a number that no descriptor has.\<close>

lemma get_fd_num: "get_fd n l = Some fd \<Longrightarrow> fd \<in> set l \<and> fd_num fd = n"
  by (induction l) (auto split: if_splits)

lemma get_fd_None: "get_fd n l = None \<longleftrightarrow> n \<notin> fd_num ` set l"
  by (induction l) auto

function next_free :: "fd_t list \<Rightarrow> int \<Rightarrow> int" where
  "next_free l num = (if get_fd num l = None then num else next_free l (num + 1))"
  by pat_completeness auto
termination
proof (relation "measure (\<lambda>(l, n). length (filter (\<lambda>fd. n \<le> fd_num fd) l))")
  fix l :: "fd_t list" and n
  assume "get_fd n l \<noteq> None"
  then obtain fd where fd: "fd \<in> set l" "fd_num fd = n" using get_fd_num by blast
  have "filter (\<lambda>fd. n + 1 \<le> fd_num fd) l = filter (\<lambda>fd. fd_num fd \<noteq> n) (filter (\<lambda>fd. n \<le> fd_num fd) l)"
    by (auto intro: filter_cong)
  also have "length \<dots> < length (filter (\<lambda>fd. n \<le> fd_num fd) l)"
    using fd by (intro length_filter_less [of fd]) auto
  finally show "((l, n + 1), l, n) \<in> measure (\<lambda>(l, n). length (filter (\<lambda>fd. n \<le> fd_num fd) l))" by simp
qed simp

declare next_free.simps [simp del]

definition open_node :: "addr \<Rightarrow> int \<Rightarrow> fd_t list \<Rightarrow> fd_t \<times> fd_t list" where
  "open_node node num l =
     (let fd = \<lparr>fd_node = node, fd_flags = O_RDWR, fd_num = next_free l num, fd_offset = 0\<rparr>
      in (fd, l @ [fd]))"

text \<open>The first descriptor of the number is unlinked and its vnode closed.\<close>

primrec unlink_fd :: "int \<Rightarrow> fd_t list \<Rightarrow> fd_t list" where
  "unlink_fd num [] = []"
| "unlink_fd num (fd # l) = (if fd_num fd = num then l else fd # unlink_fd num l)"

definition close_fd :: "int \<Rightarrow> fd_table \<Rightarrow> fd_table option" where
  "close_fd num t =
     (case get_fd num (fds t) of
        None \<Rightarrow> Some t
      | Some fd \<Rightarrow>
          let t1 = t\<lparr>fds := unlink_fd num (fds t)\<rparr>
          in if fd_node fd \<noteq> 0
             then map_option (\<lambda>st. t1\<lparr>store := st\<rparr>) (vnode_close (fd_node fd) (store t))
             else Some t1)"

text \<open>Writing a field of the descriptor that \<^verbatim>\<open>get_fd\<close> finds.\<close>

primrec upd_fd :: "int \<Rightarrow> (fd_t \<Rightarrow> fd_t) \<Rightarrow> fd_t list \<Rightarrow> fd_t list" where
  "upd_fd num f [] = []"
| "upd_fd num f (fd # l) = (if fd_num fd = num then f fd # l else fd # upd_fd num f l)"

subsection \<open>System calls\<close>

text \<open>
  The part of \<^verbatim>\<open>sys_open\<close> after a successful path lookup, which returns an open vnode; \<open>denied\<close> is
  the result of the permission check.
\<close>

definition O_CREAT_EXCL :: u32 where "O_CREAT_EXCL = 0xC0"
definition EEXIST :: u64 where "EEXIST = 17"
definition EACCES_res :: u64 where "EACCES_res = 13"

definition open_found :: "u32 \<Rightarrow> bool \<Rightarrow> addr \<Rightarrow> fd_table \<Rightarrow> (u64 \<times> fd_table) option" where
  "open_found flags denied node t =
     (if flags AND O_CREAT_EXCL = O_CREAT_EXCL then Some (- EEXIST, t)
      else if denied
      then map_option (\<lambda>st. (- EACCES_res, t\<lparr>store := st\<rparr>)) (vnode_close node (store t))
      else
        let (fd, l) = open_node node 0 (fds t)
        in Some (of_int (fd_num fd), t\<lparr>fds := upd_fd (fd_num fd) (\<lambda>f. f\<lparr>fd_flags := flags\<rparr>) l\<rparr>))"

definition sys_close :: "int \<Rightarrow> fd_table \<Rightarrow> (u64 \<times> fd_table) option" where
  "sys_close fd t = map_option (\<lambda>t1. (0, t1)) (close_fd fd t)"

definition lseek :: "int \<Rightarrow> u64 \<Rightarrow> int \<Rightarrow> fd_table \<Rightarrow> (u64 \<times> fd_table) option" where
  "lseek fd offset whence t =
     (case get_fd fd (fds t) of
        None \<Rightarrow> Some (- EBADFD, t)
      | Some ofd \<Rightarrow>
          map_option (\<lambda>new. (new, t\<lparr>fds := upd_fd fd (\<lambda>f. f\<lparr>fd_offset := new\<rparr>) (fds t)\<rparr>))
            (if whence = 0 then Some offset
             else if whence = 1 then Some (fd_offset ofd + offset)
             else if whence = 2
             then map_option (\<lambda>v. node_size v + offset) (vnodes (store t) (fd_node ofd))
             else Some (fd_offset ofd)))"

text \<open>
  The end of \<^verbatim>\<open>dup\<close> and \<^verbatim>\<open>dup2\<close>: both descriptors name one vnode, so that the assignment of its size
  reads and writes the same field.
\<close>

definition dup_to :: "fd_t \<Rightarrow> int \<Rightarrow> fd_table \<Rightarrow> (u64 \<times> fd_table) option" where
  "dup_to ofd num t =
     (let (fd, l) = open_node (fd_node ofd) num (fds t)
      in map_option (\<lambda>v. (of_int (fd_num fd),
            t\<lparr>fds := upd_fd (fd_num fd) (\<lambda>f. f\<lparr>fd_flags := fd_flags ofd, fd_offset := fd_offset ofd\<rparr>) l\<rparr>))
          (vnodes (store t) (fd_node ofd)))"

definition sys_dup :: "int \<Rightarrow> fd_table \<Rightarrow> (u64 \<times> fd_table) option" where
  "sys_dup oldfd t =
     (case get_fd oldfd (fds t) of
        None \<Rightarrow> Some (- EBADF, t)
      | Some ofd \<Rightarrow> dup_to ofd 0 t)"

definition sys_dup2 :: "int \<Rightarrow> int \<Rightarrow> fd_table \<Rightarrow> (u64 \<times> fd_table) option" where
  "sys_dup2 oldfd newfd t =
     (if oldfd = newfd then Some (of_int oldfd, t)
      else case get_fd oldfd (fds t) of
        None \<Rightarrow> Some (- EBADF, t)
      | Some ofd \<Rightarrow>
          Option.bind (if get_fd newfd (fds t) \<noteq> None then map_option snd (sys_close newfd t) else Some t)
            (dup_to ofd newfd))"

definition sys_fcntl :: "int \<Rightarrow> u64 \<Rightarrow> u64 \<Rightarrow> fd_table \<Rightarrow> (u64 \<times> fd_table) option" where
  "sys_fcntl fd opr arg t =
     (case get_fd fd (fds t) of
        None \<Rightarrow> Some (- EBADF, t)
      | Some ofd \<Rightarrow>
          if opr = 1030 then
            Option.bind (sys_dup fd t) (\<lambda>rt.
              sys_dup fd (snd rt\<lparr>fds := upd_fd (sint (fst rt))
                (\<lambda>f. f\<lparr>fd_flags := fd_flags f OR O_CLOEXEC\<rparr>) (fds (snd rt))\<rparr>))
          else if opr = 0 then sys_dup fd t
          else if opr = 2 \<or> opr = 4
          then Some (0, t\<lparr>fds := upd_fd fd (\<lambda>f. f\<lparr>fd_flags := ucast arg\<rparr>) (fds t)\<rparr>)
          else if opr = 1 \<or> opr = 3 then Some (scast (fd_flags ofd), t)
          else if opr = 6 \<or> opr = 7 then Some (0, t)
          else Some (- ENOSYS, t))"

text \<open>A new task opens the root, which \<^verbatim>\<open>resolve_path\<close> has opened already, as descriptor 0x99.\<close>

definition create_task_fds :: "addr \<Rightarrow> vnode_store \<Rightarrow> fd_table option" where
  "create_task_fds root st =
     Option.bind (vnode_open root st) (\<lambda>st1.
       map_option (\<lambda>st2. \<lparr>fds = snd (open_node root 0x99 []), store = st2\<rparr>) (vnode_open root st1))"

text \<open>The loop of \<^verbatim>\<open>fork\<close> over the parent's list, fork itself, and the loop of \<^verbatim>\<open>task_t::exit\<close> over the
  task's own list.\<close>

primrec fork_fds :: "fd_t list \<Rightarrow> fd_table \<Rightarrow> fd_table option" where
  "fork_fds [] child = Some child"
| "fork_fds (fd # l) child =
     Option.bind (vnode_open (fd_node fd) (store child)) (\<lambda>st.
       fork_fds l (child\<lparr>fds := snd (open_node (fd_node fd) (fd_num fd) (fds child)), store := st\<rparr>))"

definition fork_process_fds :: "addr \<Rightarrow> fd_t list \<Rightarrow> vnode_store \<Rightarrow> fd_table option" where
  "fork_process_fds root l st = Option.bind (create_task_fds root st) (fork_fds l)"

primrec close_each :: "fd_t list \<Rightarrow> fd_table \<Rightarrow> fd_table option" where
  "close_each [] t = Some t"
| "close_each (fd # l) t = Option.bind (close_fd (fd_num fd) t) (close_each l)"

definition exit_fds :: "fd_table \<Rightarrow> fd_table option" where
  "exit_fds t = close_each (fds t) t"

subsection \<open>Numbers\<close>

definition fd_nums :: "fd_table \<Rightarrow> int list" where
  "fd_nums t = map fd_num (fds t)"

lemma next_free_spec:
  "num \<le> next_free l num \<and> next_free l num \<notin> fd_num ` set l \<and>
   (\<forall>n. num \<le> n \<and> n < next_free l num \<longrightarrow> n \<in> fd_num ` set l)"
proof (induction l num rule: next_free.induct)
  case (1 l num)
  show ?case
  proof (cases "get_fd num l = None")
    case True
    then show ?thesis by (auto simp: next_free.simps [of l num] get_fd_None)
  next
    case False
    with 1 have IH: "num + 1 \<le> next_free l (num + 1)" "next_free l (num + 1) \<notin> fd_num ` set l"
      "\<And>n. num + 1 \<le> n \<Longrightarrow> n < next_free l (num + 1) \<Longrightarrow> n \<in> fd_num ` set l" by blast+
    have here: "num \<in> fd_num ` set l" using False by (simp only: get_fd_None) simp
    have "n \<in> fd_num ` set l" if "num \<le> n" "n < next_free l (num + 1)" for n
      using IH(3) [of n] here that by (cases "n = num") auto
    then show ?thesis using False IH(1,2) by (simp add: next_free.simps [of l num])
  qed
qed

lemma set_unlink_fd: "set (unlink_fd n l) \<subseteq> set l"
  by (induction l) auto

lemma map_unlink_fd: "map fd_num (unlink_fd n l) = remove1 n (map fd_num l)"
  by (induction l) auto

lemma map_upd_fd: "(\<And>f. fd_num (u f) = fd_num f) \<Longrightarrow> map fd_num (upd_fd n u l) = map fd_num l"
  by (induction l) auto

lemma close_fd_nums: "close_fd n t = Some t' \<Longrightarrow> fd_nums t' = remove1 n (fd_nums t)"
  by (auto simp: close_fd_def fd_nums_def map_unlink_fd get_fd_None Let_def remove1_idem image_iff
      split: option.splits if_splits)

lemma dup_to_nums: "dup_to ofd num t = Some (r, t') \<Longrightarrow>
    fd_nums t' = fd_nums t @ [next_free (fds t) num] \<and> r = of_int (next_free (fds t) num)"
  by (auto simp: dup_to_def open_node_def fd_nums_def map_upd_fd Let_def)

text \<open>A system call on the table, and a sequence of them.\<close>

datatype fd_call = Open_Call u32 bool addr | Close_Call int | Dup_Call int | Dup2_Call int int
  | Lseek_Call int u64 int | Fcntl_Call int u64 u64

fun fd_exec :: "fd_call \<Rightarrow> fd_table \<Rightarrow> (u64 \<times> fd_table) option" where
  "fd_exec (Open_Call flags denied a) t = Option.bind (vnode_open a (store t)) (\<lambda>st.
     open_found flags denied a (t\<lparr>store := st\<rparr>))"
| "fd_exec (Close_Call n) t = sys_close n t"
| "fd_exec (Dup_Call n) t = sys_dup n t"
| "fd_exec (Dup2_Call n m) t = sys_dup2 n m t"
| "fd_exec (Lseek_Call n off w) t = lseek n off w t"
| "fd_exec (Fcntl_Call n opr arg) t = sys_fcntl n opr arg t"

primrec fd_run :: "fd_call list \<Rightarrow> fd_table \<Rightarrow> fd_table option" where
  "fd_run [] t = Some t"
| "fd_run (c # cs) t = Option.bind (fd_exec c t) (\<lambda>rt. fd_run cs (snd rt))"

text \<open>What a call may do to the numbers: keep them, take one away, or add free ones.\<close>

lemma distinct_snoc_free: "distinct (fd_nums t) \<Longrightarrow> distinct (fd_nums t @ [next_free (fds t) n])"
  using next_free_spec [of n "fds t"] by (simp add: fd_nums_def)

lemma sys_close_distinct: "\<lbrakk>sys_close n t = Some (r, t'); distinct (fd_nums t)\<rbrakk> \<Longrightarrow> distinct (fd_nums t')"
  by (auto simp: sys_close_def dest!: close_fd_nums)

lemma dup_to_distinct: "\<lbrakk>dup_to ofd n t = Some (r, t'); distinct (fd_nums t)\<rbrakk> \<Longrightarrow> distinct (fd_nums t')"
  using dup_to_nums [of ofd n t r t'] distinct_snoc_free by simp

lemma sys_dup_distinct: "\<lbrakk>sys_dup n t = Some (r, t'); distinct (fd_nums t)\<rbrakk> \<Longrightarrow> distinct (fd_nums t')"
  by (auto simp: sys_dup_def split: option.splits intro: dup_to_distinct)

lemma sys_dup2_distinct: "\<lbrakk>sys_dup2 n m t = Some (r, t'); distinct (fd_nums t)\<rbrakk> \<Longrightarrow> distinct (fd_nums t')"
  by (auto simp: sys_dup2_def bind_eq_Some_conv split: option.splits if_splits
      intro: dup_to_distinct sys_close_distinct)

lemma fd_nums_upd: "(\<And>f. fd_num (u f) = fd_num f) \<Longrightarrow> fd_nums (t\<lparr>fds := upd_fd n u (fds t)\<rparr>) = fd_nums t"
  by (simp add: fd_nums_def map_upd_fd)

lemma lseek_nums: "lseek n off w t = Some (r, t') \<Longrightarrow> fd_nums t' = fd_nums t"
  by (auto simp: lseek_def fd_nums_upd split: option.splits)

lemma sys_dup_upd_distinct:
  assumes "sys_dup n (t\<lparr>fds := upd_fd k u (fds t)\<rparr>) = Some (r, t')" "distinct (fd_nums t)"
    and "\<And>f. fd_num (u f) = fd_num f"
  shows "distinct (fd_nums t')"
  by (rule sys_dup_distinct [OF assms(1)]) (use assms(2,3) in \<open>simp add: fd_nums_upd\<close>)

lemma sys_fcntl_distinct: "\<lbrakk>sys_fcntl n opr arg t = Some (r, t'); distinct (fd_nums t)\<rbrakk> \<Longrightarrow> distinct (fd_nums t')"
  by (auto simp: sys_fcntl_def bind_eq_Some_conv fd_nums_upd split: option.splits if_splits
      intro: sys_dup_distinct dest!: sys_dup_upd_distinct [of n])

lemma open_found_distinct:
  "\<lbrakk>open_found flags denied a t = Some (r, t'); distinct (fd_nums t)\<rbrakk> \<Longrightarrow> distinct (fd_nums t')"
  using next_free_spec [of 0 "fds t"]
  by (auto simp: open_found_def open_node_def fd_nums_def map_upd_fd Let_def split: if_splits)

lemma fd_exec_distinct: "\<lbrakk>fd_exec c t = Some (r, t'); distinct (fd_nums t)\<rbrakk> \<Longrightarrow> distinct (fd_nums t')"
  by (cases c)
    (auto simp: bind_eq_Some_conv lseek_nums fd_nums_def [of "t\<lparr>store := _\<rparr>"] fd_nums_def [of t, symmetric]
      intro: sys_close_distinct sys_dup_distinct sys_dup2_distinct sys_fcntl_distinct open_found_distinct)

text \<open>C22: Descriptor numbers identify descriptors: no sequence of open, close, dup, dup2, lseek and
  fcntl calls on a table whose numbers are distinct ends with two descriptors of one number.\<close>

theorem descriptor_numbers_distinct:
  assumes "fd_run cs t = Some t'" "distinct (fd_nums t)"
  shows "distinct (fd_nums t')"
  using assms
proof (induction cs arbitrary: t)
  case (Cons c cs)
  then show ?case by (auto simp: bind_eq_Some_conv dest: fd_exec_distinct)
qed simp

subsection \<open>References\<close>

text \<open>How many descriptors of a list name a vnode, and a store with that many references more.\<close>

definition fd_refs :: "fd_t list \<Rightarrow> addr \<Rightarrow> nat" where
  "fd_refs l a = length (filter (\<lambda>fd. fd_node fd = a) l)"

definition add_refs :: "(addr \<Rightarrow> nat) \<Rightarrow> (addr \<rightharpoonup> vnode_refs) \<Rightarrow> addr \<rightharpoonup> vnode_refs" where
  "add_refs g vs = (\<lambda>a. map_option (\<lambda>v. v\<lparr>ref_count := ref_count v + of_nat (g a)\<rparr>) (vs a))"

text \<open>Every descriptor names a live vnode whose count is above zero and has room for the copies.\<close>

definition backed :: "fd_t list \<Rightarrow> (addr \<rightharpoonup> vnode_refs) \<Rightarrow> bool" where
  "backed l vs \<longleftrightarrow> vs 0 = None \<and>
     (\<forall>fd \<in> set l. \<exists>v. vs (fd_node fd) = Some v \<and> 0 < unat (ref_count v) \<and>
        unat (ref_count v) + fd_refs l (fd_node fd) < 4294967296)"

lemma fd_refs_Cons: "fd_refs (fd # l) a = (if fd_node fd = a then Suc (fd_refs l a) else fd_refs l a)"
  by (simp add: fd_refs_def)

lemma fd_refs_append: "fd_refs (l @ k) a = fd_refs l a + fd_refs k a"
  by (simp add: fd_refs_def)

lemma ref_count_plus:
  assumes "unat (r :: u32) + n < 4294967296"
  shows "unat (r + of_nat n) = unat r + n"
proof -
  have "unat (of_nat n :: u32) = n" using assms by (simp add: unat_of_nat)
  then show ?thesis using assms by (simp add: unat_add32)
qed

lemma add_refs_at: "vs a = Some v \<Longrightarrow> add_refs g vs a = Some (v\<lparr>ref_count := ref_count v + of_nat (g a)\<rparr>)"
  by (simp add: add_refs_def)

lemma add_refs_open:
  assumes "vnodes st = add_refs g vs" "vs a = Some v" "0 < unat (ref_count v)"
    and "unat (ref_count v) + g a < 4294967296"
  shows "\<exists>st'. vnode_open a st = Some st' \<and> vnodes st' = add_refs (g(a := Suc (g a))) vs \<and>
    hooks st' = hooks st @ [Open_Hook a]"
proof -
  have "ref_count v + of_nat (g a) \<noteq> 0"
    using ref_count_plus [OF assms(4)] assms(3) by (metis add_is_0 less_numeral_extra(3) unat_0)
  moreover have "(vnodes st)(a \<mapsto> v\<lparr>ref_count := ref_count v + of_nat (g a) + 1\<rparr>) = add_refs (g(a := Suc (g a))) vs"
    using assms(1,2) by (intro ext) (simp add: add_refs_def add.assoc add.commute [of 1])
  ultimately show ?thesis
    using assms(1,2) by (simp add: vnode_open.simps [of a st] add_refs_at)
qed

lemma add_refs_close:
  assumes "vnodes st = add_refs g vs" "vs a = Some v" "0 < unat (ref_count v)"
    and "unat (ref_count v) + g a < 4294967296" "g a = Suc n"
  shows "\<exists>st'. vnode_close a st = Some st' \<and> vnodes st' = add_refs (g(a := n)) vs \<and>
    hooks st' = hooks st @ [Close_Hook a]"
proof -
  have "unat (ref_count v + of_nat n) = unat (ref_count v) + n"
    using assms(4,5) by (intro ref_count_plus) simp
  then have "ref_count v + of_nat n \<noteq> 0" using assms(3) by (metis add_is_0 less_numeral_extra(3) unat_0)
  moreover define r where "r = ref_count v + of_nat n"
  moreover have "vnodes st a = Some (v\<lparr>ref_count := r + 1\<rparr>)"
    using assms(1,2,5) by (simp add: add_refs_at r_def add.assoc add.commute [of 1])
  moreover have "(vnodes st)(a \<mapsto> v\<lparr>ref_count := r\<rparr>) = add_refs (g(a := n)) vs"
    using assms(1,2) by (intro ext) (simp add: add_refs_def r_def)
  ultimately show ?thesis by (simp add: vnode_close.simps [of a st])
qed

lemma backed_Cons: "backed (fd # l) vs \<Longrightarrow> backed l vs"
  unfolding backed_def by (fastforce simp: fd_refs_Cons split: if_splits)

text \<open>\<^verbatim>\<open>fork\<close> opens every vnode once per descriptor; each copy gets the first number that is free in
  the child's list, from the parent's number on.\<close>

definition forked_fd :: "fd_t \<Rightarrow> fd_t" where
  "forked_fd fd = \<lparr>fd_node = fd_node fd, fd_flags = O_RDWR, fd_num = fd_num fd, fd_offset = 0\<rparr>"

primrec forked_fds :: "fd_t list \<Rightarrow> fd_t list \<Rightarrow> fd_t list" where
  "forked_fds [] c = c"
| "forked_fds (fd # l) c = forked_fds l (c @ [(forked_fd fd)\<lparr>fd_num := next_free c (fd_num fd)\<rparr>])"

lemma open_node_forked: "snd (open_node (fd_node fd) (fd_num fd) c) =
    c @ [(forked_fd fd)\<lparr>fd_num := next_free c (fd_num fd)\<rparr>]"
  by (simp add: open_node_def forked_fd_def Let_def)

lemma forked_nodes: "map fd_node (forked_fds l c) = map fd_node c @ map fd_node l"
  by (induction l arbitrary: c) (simp_all add: forked_fd_def)

lemma forked_distinct: "distinct (map fd_num c) \<Longrightarrow> distinct (map fd_num (forked_fds l c))"
proof (induction l arbitrary: c)
  case (Cons fd l)
  then show ?case using next_free_spec [of "fd_num fd" c] by simp
qed simp

lemma forked_keeps: "set c \<subseteq> set (forked_fds l c)"
  by (induction l arbitrary: c) (simp, fastforce)

lemma next_free_same: "n \<notin> fd_num ` set l \<Longrightarrow> next_free l n = n"
  by (simp add: next_free.simps [of l n] get_fd_None)

text \<open>Numbers below a bound under which nothing is taken are kept.\<close>

lemma forked_low:
  assumes "distinct (map fd_num l)" "\<And>n. n \<in> fd_num ` set l \<Longrightarrow> n < b \<Longrightarrow> n \<notin> fd_num ` set c"
    and "fd \<in> set l" "fd_num fd < b"
  shows "forked_fd fd \<in> set (forked_fds l c)"
  using assms
proof (induction l arbitrary: c)
  case (Cons f l)
  let ?c = "c @ [(forked_fd f)\<lparr>fd_num := next_free c (fd_num f)\<rparr>]"
  show ?case
  proof (cases "fd = f")
    case True
    then have "next_free c (fd_num f) = fd_num f" using Cons.prems(2,4) by (intro next_free_same) auto
    then have "forked_fd fd \<in> set ?c" using True by (simp add: forked_fd_def)
    then show ?thesis using forked_keeps [of ?c l] by auto
  next
    case False
    have "n \<notin> fd_num ` set ?c" if n: "n \<in> fd_num ` set l" "n < b" for n
    proof -
      have "n \<noteq> fd_num f" using Cons.prems(1) n(1) by (metis distinct.simps(2) list.simps(9) set_map)
      moreover have "n \<notin> fd_num ` set c" using Cons.prems(2) n by simp
      moreover have "n \<noteq> next_free c (fd_num f)"
      proof (cases "fd_num f < b")
        case True
        then show ?thesis using Cons.prems(2) calculation(1) by (simp add: next_free_same)
      qed (use next_free_spec [of "fd_num f" c] n(2) in linarith)
      ultimately show ?thesis by auto
    qed
    then show ?thesis using Cons.IH [of ?c] Cons.prems(1,3,4) False by simp
  qed
qed simp

lemma get_fd_member: "distinct (map fd_num l) \<Longrightarrow> fd \<in> set l \<Longrightarrow> get_fd (fd_num fd) l = Some fd"
  by (induction l) force+

lemma fork_fds_copies:
  assumes "vnodes (store child) = add_refs g vs"
    and "\<forall>fd \<in> set l. \<exists>v. vs (fd_node fd) = Some v \<and> 0 < unat (ref_count v) \<and>
      unat (ref_count v) + g (fd_node fd) + fd_refs l (fd_node fd) < 4294967296"
  shows "\<exists>child'. fork_fds l child = Some child' \<and> fds child' = forked_fds l (fds child) \<and>
    vnodes (store child') = add_refs (\<lambda>a. g a + fd_refs l a) vs"
  using assms
proof (induction l arbitrary: child g)
  case Nil
  then show ?case by (simp add: fd_refs_def)
next
  case (Cons fd l)
  let ?a = "fd_node fd"
  obtain v where v: "vs ?a = Some v" "0 < unat (ref_count v)"
    "unat (ref_count v) + g ?a + fd_refs (fd # l) ?a < 4294967296"
    using Cons.prems(2) by auto
  have "unat (ref_count v) + g ?a < 4294967296" using v(3) by simp
  from add_refs_open [OF Cons.prems(1) v(1,2) this] obtain st where
    st: "vnode_open ?a (store child) = Some st" "vnodes st = add_refs (g(?a := Suc (g ?a))) vs" by blast
  define c where "c = child\<lparr>fds := snd (open_node ?a (fd_num fd) (fds child)), store := st\<rparr>"
  have step: "fork_fds (fd # l) child = fork_fds l c" using st(1) by (simp add: c_def)
  have "\<exists>child'. fork_fds l c = Some child' \<and> fds child' = forked_fds l (fds c) \<and>
    vnodes (store child') = add_refs (\<lambda>a. (g(?a := Suc (g ?a))) a + fd_refs l a) vs"
  proof (rule Cons.IH)
    show "vnodes (store c) = add_refs (g(?a := Suc (g ?a))) vs" using st(2) by (simp add: c_def)
    show "\<forall>f \<in> set l. \<exists>v. vs (fd_node f) = Some v \<and> 0 < unat (ref_count v) \<and>
      unat (ref_count v) + (g(?a := Suc (g ?a))) (fd_node f) + fd_refs l (fd_node f) < 4294967296"
      using Cons.prems(2) by (fastforce simp: fd_refs_Cons split: if_splits)
  qed
  moreover have "(\<lambda>a. (g(?a := Suc (g ?a))) a + fd_refs l a) = (\<lambda>a. g a + fd_refs (fd # l) a)"
    by (auto simp: fd_refs_Cons)
  ultimately show ?case unfolding step by (simp add: c_def open_node_forked)
qed

text \<open>Closing every descriptor of the own list gives each reference back.\<close>

lemma close_each_returns:
  assumes "fds t = l" "vnodes (store t) = add_refs (fd_refs l) vs" "backed l vs"
  shows "\<exists>t'. close_each l t = Some t' \<and> fds t' = [] \<and> vnodes (store t') = vs"
  using assms
proof (induction l arbitrary: t)
  case Nil
  then show ?case by (simp add: fd_refs_def add_refs_def option.map_id0 [unfolded id_def])
next
  case (Cons fd l)
  let ?a = "fd_node fd"
  obtain v where v: "vs ?a = Some v" "0 < unat (ref_count v)"
    "unat (ref_count v) + fd_refs (fd # l) ?a < 4294967296" and nz: "?a \<noteq> 0"
    using Cons.prems(3) by (force simp: backed_def)
  have "fd_refs (fd # l) ?a = Suc (fd_refs l ?a)" by (simp add: fd_refs_Cons)
  from add_refs_close [OF Cons.prems(2) v this] obtain st where
    st: "vnode_close ?a (store t) = Some st" "vnodes st = add_refs ((fd_refs (fd # l))(?a := fd_refs l ?a)) vs"
    by blast
  have less: "(fd_refs (fd # l))(?a := fd_refs l ?a) = fd_refs l" by (auto simp: fd_refs_Cons)
  have "close_fd (fd_num fd) t = Some (t\<lparr>fds := l, store := st\<rparr>)"
    using Cons.prems(1) st(1) nz by (simp add: close_fd_def)
  moreover have "\<exists>t'. close_each l (t\<lparr>fds := l, store := st\<rparr>) = Some t' \<and> fds t' = [] \<and> vnodes (store t') = vs"
    by (rule Cons.IH) (use st(2) backed_Cons [OF Cons.prems(3)] less in simp_all)
  ultimately show ?case by simp
qed

lemma fd_refs_nodes: "fd_refs l a = count_list (map fd_node l) a"
  by (induction l) (auto simp: fd_refs_def)

lemma fd_refs_forked: "fd_refs (forked_fds l c) a = fd_refs c a + fd_refs l a"
  unfolding fd_refs_nodes [of "forked_fds l c"] forked_nodes by (simp add: fd_refs_nodes)

lemma add_refs_zero [simp]: "add_refs (\<lambda>a. 0) vs = vs"
  by (rule ext) (simp add: add_refs_def option.map_ident)

lemma add_refs_add: "add_refs (\<lambda>a. f a + g a) vs = add_refs g (add_refs f vs)"
  by (rule ext) (simp add: add_refs_def option.map_comp o_def add.assoc)

text \<open>The descriptor that every new task has.\<close>

definition root_fd :: "addr \<Rightarrow> fd_t" where
  "root_fd root = \<lparr>fd_node = root, fd_flags = O_RDWR, fd_num = 0x99, fd_offset = 0\<rparr>"

lemma create_task_fds_opens:
  assumes "vnodes st root = Some r" "0 < unat (ref_count r)" "unat (ref_count r) + 2 < 4294967296"
  shows "\<exists>child. create_task_fds root st = Some child \<and> fds child = [root_fd root] \<and>
    vnodes (store child) = add_refs (\<lambda>a. if a = root then 2 else 0) (vnodes st)"
proof -
  from add_refs_open [of st "\<lambda>a. 0" "vnodes st" root r] obtain st1 where
    st1: "vnode_open root st = Some st1" "vnodes st1 = add_refs ((\<lambda>a. 0)(root := 1)) (vnodes st)"
    using assms by auto
  from add_refs_open [OF st1(2) assms(1,2)] obtain st2 where
    st2: "vnode_open root st1 = Some st2" "vnodes st2 = add_refs (((\<lambda>a. 0)(root := 1))(root := 2)) (vnodes st)"
    using assms(3) by (auto simp: numeral_2_eq_2)
  have "((\<lambda>a. 0)(root := 1))(root := 2) = (\<lambda>a. if a = root then 2 else (0::nat))" by auto
  then show ?thesis
    using st1(1) st2 by (simp add: create_task_fds_def open_node_def root_fd_def next_free_same Let_def)
qed

text \<open>C23: Fork followed by the exit of the child. The child starts with the root at 0x99, then
  opens the vnode of every descriptor of the parent and gives it the first number that is free in its
  list from the parent's number on: every number below 0x99 is kept, with offset 0 and the flags
  reset, and the parent's own 0x99 moves up. No two of the child's descriptors share a number. The
  exit closes all of them: every vnode has the references it had before the fork, and none is
  deleted, except that the root keeps one more, which \<^verbatim>\<open>_create_task_structure\<close> took with
  \<^verbatim>\<open>resolve_path\<close> and never gives back.\<close>

theorem fork_then_exit:
  assumes "backed l (vnodes st)" "distinct (map fd_num l)"
    and "root \<noteq> 0" "vnodes st root = Some r" "0 < unat (ref_count r)"
    and "unat (ref_count r) + fd_refs l root + 2 < 4294967296"
  shows "\<exists>child t'. fork_process_fds root l st = Some child \<and>
    fds child = forked_fds l [root_fd root] \<and> map fd_node (fds child) = root # map fd_node l \<and>
    distinct (fd_nums child) \<and> get_fd 0x99 (fds child) = Some (root_fd root) \<and>
    (\<forall>fd \<in> set l. fd_num fd < 0x99 \<longrightarrow> get_fd (fd_num fd) (fds child) = Some (forked_fd fd)) \<and>
    vnodes (store child) = add_refs (\<lambda>a. (if a = root then 2 else 0) + fd_refs l a) (vnodes st) \<and>
    exit_fds child = Some t' \<and> fds t' = [] \<and>
    vnodes (store t') = (vnodes st)(root \<mapsto> r\<lparr>ref_count := ref_count r + 1\<rparr>)"
proof -
  let ?two = "\<lambda>a. if a = root then 2 else (0::nat)" and ?one = "\<lambda>a. if a = root then 1 else (0::nat)"
  from create_task_fds_opens [OF assms(4,5)] obtain c where
    c: "create_task_fds root st = Some c" "fds c = [root_fd root]" "vnodes (store c) = add_refs ?two (vnodes st)"
    using assms(6) by auto
  have "\<forall>fd \<in> set l. \<exists>v. vnodes st (fd_node fd) = Some v \<and> 0 < unat (ref_count v) \<and>
      unat (ref_count v) + ?two (fd_node fd) + fd_refs l (fd_node fd) < 4294967296"
    using assms(1,4,6) unfolding backed_def by fastforce
  from fork_fds_copies [OF c(3) this] obtain child where
    child: "fork_fds l c = Some child" "fds child = forked_fds l [root_fd root]"
      "vnodes (store child) = add_refs (\<lambda>a. ?two a + fd_refs l a) (vnodes st)"
    unfolding c(2) by blast
  have nums: "distinct (map fd_num (fds child))" unfolding child(2) by (rule forked_distinct) simp
  have low: "get_fd (fd_num fd) (fds child) = Some (forked_fd fd)" if "fd \<in> set l" "fd_num fd < 0x99" for fd
    using get_fd_member [OF nums, of "forked_fd fd"] forked_low [OF assms(2) _ that, of "[root_fd root]"]
    by (auto simp: child(2) root_fd_def forked_fd_def)
  have rt: "get_fd 0x99 (fds child) = Some (root_fd root)"
    using get_fd_member [OF nums, of "root_fd root"] forked_keeps [of "[root_fd root]" l]
    by (simp add: child(2) root_fd_def)
  define vs where "vs = add_refs ?one (vnodes st)"
  have refs: "fd_refs (fds child) = (\<lambda>a. ?one a + fd_refs l a)"
    by (rule ext) (simp add: child(2) fd_refs_forked, simp add: fd_refs_def root_fd_def)
  have "(\<lambda>a. ?one a + (?one a + fd_refs l a)) = (\<lambda>a. ?two a + fd_refs l a)" by auto
  then have given: "vnodes (store child) = add_refs (fd_refs (fds child)) vs"
    unfolding refs vs_def child(3) add_refs_add [symmetric] by simp
  have one: "unat (ref_count r + 1) = unat (ref_count r) + 1"
    using ref_count_plus [of "ref_count r" 1] assms(6) by simp
  have vs: "vs = (vnodes st)(root \<mapsto> r\<lparr>ref_count := ref_count r + 1\<rparr>)"
    using assms(4) by (intro ext) (simp add: vs_def add_refs_def option.map_ident)
  have "fd_node ` set (fds child) = insert root (fd_node ` set l)"
    using arg_cong [OF forked_nodes [of l "[root_fd root]"], of set] by (simp add: child(2) root_fd_def)
  moreover have "\<exists>v. vs a = Some v \<and> 0 < unat (ref_count v) \<and> unat (ref_count v) + fd_refs (fds child) a < 4294967296"
    if "a \<in> insert root (fd_node ` set l)" for a
  proof (cases "a = root")
    case True
    then show ?thesis using one assms(6) by (simp add: refs vs)
  next
    case False
    then show ?thesis using assms(1) that by (auto simp: backed_def refs vs)
  qed
  ultimately have "backed (fds child) vs"
    using assms(1,3) unfolding backed_def by (metis image_eqI vs fun_upd_other)
  from close_each_returns [OF refl given this] obtain t' where
    "close_each (fds child) child = Some t'" "fds t' = []" "vnodes (store t') = vs" by blast
  then show ?thesis
    using c(1) child nums rt low
    by (auto simp: fork_process_fds_def exit_fds_def fd_nums_def vs forked_nodes root_fd_def)
qed

definition demo_store :: vnode_store where
  "demo_store = \<lparr>vnodes = [0x1000 \<mapsto> \<lparr>ref_count = 1, node_size = 10, node_parent = 0\<rparr>], hooks = []\<rparr>"

definition demo_fds :: "fd_t list" where
  "demo_fds = [\<lparr>fd_node = 0x1000, fd_flags = 0, fd_num = 0, fd_offset = 7\<rparr>,
               \<lparr>fd_node = 0x1000, fd_flags = 1, fd_num = 2, fd_offset = 3\<rparr>]"

text \<open>A task whose own root descriptor is at 0x99 and that has the numbers 0 and 2 on a file: the
  child has the root at 0x99 and 0x9A.\<close>

definition fork_store :: vnode_store where
  "fork_store = \<lparr>vnodes = [0x1000 \<mapsto> \<lparr>ref_count = 2, node_size = 10, node_parent = 0\<rparr>,
     0x2000 \<mapsto> \<lparr>ref_count = 5, node_size = 0, node_parent = 0\<rparr>], hooks = []\<rparr>"

lemma forked_example: "map fd_num (forked_fds (root_fd 0x2000 # demo_fds) [root_fd 0x2000]) = [0x99, 0x9A, 0, 2]"
  by (simp add: demo_fds_def root_fd_def forked_fd_def next_free.simps)

lemma fork_then_exit_witness:
  "\<exists>child t'. fork_process_fds 0x2000 (root_fd 0x2000 # demo_fds) fork_store = Some child \<and>
    fd_nums child = [0x99, 0x9A, 0, 2] \<and> exit_fds child = Some t' \<and> fds t' = [] \<and>
    map_option ref_count (vnodes (store t') 0x1000) = Some 2 \<and>
    map_option ref_count (vnodes (store t') 0x2000) = Some 6"
proof -
  let ?l = "root_fd 0x2000 # demo_fds" and ?r = "\<lparr>ref_count = 5, node_size = 0, node_parent = 0\<rparr>"
  have "backed ?l (vnodes fork_store)" "distinct (map fd_num ?l)"
    by (simp_all add: demo_fds_def root_fd_def fork_store_def backed_def fd_refs_def)
  moreover have "vnodes fork_store 0x2000 = Some ?r" by (simp add: fork_store_def)
  moreover have "unat (ref_count ?r) + fd_refs ?l 0x2000 + 2 < 4294967296"
    by (simp add: demo_fds_def root_fd_def fd_refs_def)
  ultimately show ?thesis
    using fork_then_exit [of ?l fork_store "0x2000" ?r] forked_example
    by (auto simp: fd_nums_def fork_store_def)
qed

lemma descriptor_numbers_distinct_witness:
  "distinct (fd_nums (the (fd_run [Dup_Call 0, Dup2_Call 0 5, Fcntl_Call 2 0 0]
     \<lparr>fds = demo_fds, store = demo_store\<rparr>)))"
proof (rule descriptor_numbers_distinct)
  show "distinct (fd_nums \<lparr>fds = demo_fds, store = demo_store\<rparr>)"
    by (simp add: fd_nums_def demo_fds_def)
  show "fd_run [Dup_Call 0, Dup2_Call 0 5, Fcntl_Call 2 0 0] \<lparr>fds = demo_fds, store = demo_store\<rparr> =
    Some (the (fd_run [Dup_Call 0, Dup2_Call 0 5, Fcntl_Call 2 0 0] \<lparr>fds = demo_fds, store = demo_store\<rparr>))"
    by (simp add: demo_fds_def demo_store_def sys_dup_def sys_dup2_def sys_fcntl_def dup_to_def
        open_node_def Let_def next_free.simps)
qed

subsection \<open>Duplicates share one reference\<close>

lemma get_fd_append: "get_fd n (l @ k) = (case get_fd n l of Some fd \<Rightarrow> Some fd | None \<Rightarrow> get_fd n k)"
  by (induction l) auto

lemma get_fd_unlink: "n \<noteq> m \<Longrightarrow> get_fd m (unlink_fd n l) = get_fd m l"
  by (induction l) auto

lemma get_fd_upd: "(\<And>f. fd_num (u f) = fd_num f) \<Longrightarrow>
    get_fd m (upd_fd n u l) = (if m = n then map_option u (get_fd m l) else get_fd m l)"
  by (induction l) auto

text \<open>C24: Dup takes no reference on the vnode. A descriptor that is the only reference to a vnode
  can be duplicated to the lowest free number, with its flags and offset; closing the original then
  deletes the vnode although the duplicate still names it, and seeking from the end of the duplicate
  reads freed memory.\<close>

theorem dup_shares_reference:
  assumes "get_fd n (fds t) = Some fd" "vnodes (store t) (fd_node fd) = Some v" "fd_node fd \<noteq> 0"
    and "ref_count v = 1" "node_parent v = 0"
  shows "\<exists>m t1 t2. sys_dup n t = Some (of_int m, t1) \<and> m \<notin> set (fd_nums t) \<and>
      (\<forall>k. 0 \<le> k \<and> k < m \<longrightarrow> k \<in> set (fd_nums t)) \<and>
      get_fd m (fds t1) = Some (fd\<lparr>fd_num := m\<rparr>) \<and>
      sys_close n t1 = Some (0, t2) \<and> get_fd m (fds t2) = Some (fd\<lparr>fd_num := m\<rparr>) \<and>
      vnodes (store t2) (fd_node fd) = None \<and> lseek m off 2 t2 = None"
proof -
  define m where "m = next_free (fds t) 0"
  have m: "m \<notin> set (fd_nums t)" "\<forall>k. 0 \<le> k \<and> k < m \<longrightarrow> k \<in> set (fd_nums t)"
    using next_free_spec [of 0 "fds t"] by (auto simp: m_def fd_nums_def)
  define l where "l = upd_fd m (\<lambda>f. f\<lparr>fd_flags := fd_flags fd, fd_offset := fd_offset fd\<rparr>)
    (fds t @ [\<lparr>fd_node = fd_node fd, fd_flags = O_RDWR, fd_num = m, fd_offset = 0\<rparr>])"
  define t1 where "t1 = t\<lparr>fds := l\<rparr>"
  have dup: "sys_dup n t = Some (of_int m, t1)"
    using assms(1,2) by (simp add: sys_dup_def dup_to_def open_node_def Let_def m_def l_def t1_def)
  have none: "get_fd m (fds t) = None" using m(1) by (simp add: get_fd_None fd_nums_def)
  then have nm: "n \<noteq> m" using assms(1) by auto
  have new: "get_fd m l = Some (fd\<lparr>fd_num := m\<rparr>)" "get_fd n l = Some fd"
    using none assms(1) nm by (simp_all add: l_def get_fd_upd get_fd_append)
  define t2 where "t2 = t\<lparr>fds := unlink_fd n l,
    store := (store t)\<lparr>vnodes := (vnodes (store t))(fd_node fd := None),
      hooks := hooks (store t) @ [Close_Hook (fd_node fd), Cleanup_Hook (fd_node fd)]\<rparr>\<rparr>"
  have "vnode_close (fd_node fd) (store t) = Some (store t2)"
    using assms(2,4,5) by (simp add: vnode_close.simps [of "fd_node fd" "store t"] t2_def)
  then have "sys_close n t1 = Some (0, t2)"
    using new(2) assms(3) by (simp add: sys_close_def close_fd_def t1_def t2_def)
  moreover have "get_fd m (fds t2) = Some (fd\<lparr>fd_num := m\<rparr>)"
    using nm new(1) by (simp add: t2_def get_fd_unlink)
  moreover have "vnodes (store t2) (fd_node fd) = None" by (simp add: t2_def)
  moreover have "lseek m off 2 t2 = None" using calculation(2,3) by (simp add: lseek_def)
  ultimately show ?thesis using dup m new(1) by (auto simp: t1_def)
qed

definition pipe_table :: fd_table where
  "pipe_table = \<lparr>fds = [\<lparr>fd_node = 0x1000, fd_flags = 0, fd_num = 3, fd_offset = 0\<rparr>], store = demo_store\<rparr>"

lemma dup_shares_reference_witness:
  "\<exists>m t1 t2. sys_dup 3 pipe_table = Some (of_int m, t1) \<and> m \<notin> set (fd_nums pipe_table) \<and>
      (\<forall>k. 0 \<le> k \<and> k < m \<longrightarrow> k \<in> set (fd_nums pipe_table)) \<and>
      get_fd m (fds t1) = Some (\<lparr>fd_node = 0x1000, fd_flags = 0, fd_num = 3, fd_offset = 0\<rparr>\<lparr>fd_num := m\<rparr>) \<and>
      sys_close 3 t1 = Some (0, t2) \<and>
      get_fd m (fds t2) = Some (\<lparr>fd_node = 0x1000, fd_flags = 0, fd_num = 3, fd_offset = 0\<rparr>\<lparr>fd_num := m\<rparr>) \<and>
      vnodes (store t2) (fd_node \<lparr>fd_node = 0x1000, fd_flags = 0, fd_num = 3, fd_offset = 0\<rparr>) = None \<and>
      lseek m 0 2 t2 = None"
  by (rule dup_shares_reference [where v = "\<lparr>ref_count = 1, node_size = 10, node_parent = 0\<rparr>"])
    (simp_all add: pipe_table_def demo_store_def)

end
