(* ===== verification/User_Memory.thy ===== *)
theory User_Memory
  imports Page_Tables Mem_Ops
begin

text \<open>
  The kernel's access to the memory of a task (\<^verbatim>\<open>task_t::read_memory\<close>, \<^verbatim>\<open>write_memory\<close> and
  \<^verbatim>\<open>read_string\<close> of scheduling/task_scheduler): page by page, through the page tables of the task
  and the direct map of physical memory. The theory shows that the page-wise loops are the
  byte-wise copies that the system calls rely on, up to the first byte that the task may not
  access, and that they end.

  The page tables do not change during a copy, and the pages that are copied are not page tables.
\<close>

subsection \<open>One page\<close>

text \<open>Where the kernel finds the byte at \<open>user_va\<close>: \<open>None\<close> is the \<^verbatim>\<open>return false\<close> of the loops.\<close>

definition user_byte :: "u64 \<Rightarrow> PageTableManager \<Rightarrow> page_mem \<Rightarrow> u64 \<Rightarrow> addr option" where
  "user_byte mb ptm pm user_va =
     (let phys = getPhysicalAddress mb user_va ptm pm in
      if phys = 0 then None
      else if \<not> GetFlag mb (user_va AND NOT 0xFFF) User ptm pm then None
      else Some (physical_to_virtual mb phys + (user_va AND 0xFFF)))"

text \<open>The bytes to copy before the page ends.\<close>

definition page_chunk :: "u64 \<Rightarrow> u64 \<Rightarrow> u64" where
  "page_chunk user_va remaining =
     (let chunk_size = 0x1000 - (user_va AND 0xFFF)
      in if chunk_size > remaining then remaining else chunk_size)"

lemma page_offset_less: "unat ((va :: u64) AND 0xFFF) < 4096"
proof -
  have "(0xFFF :: u64) = mask 12" by (simp add: mask_eq_exp_minus_1)
  then have "unat (va AND 0xFFF) = unat va mod 2 ^ 12" by (simp only: unat_and_mask)
  then show ?thesis by simp
qed

lemma unat_page_chunk: "unat (page_chunk va r) = min (4096 - unat (va AND 0xFFF)) (unat r)"
proof -
  have "unat (0x1000 - (va AND 0xFFF)) = 4096 - unat (va AND 0xFFF)"
    using page_offset_less [of va] by (simp add: unat_sub64 word_le_nat_alt)
  then show ?thesis by (simp add: page_chunk_def Let_def word_less_nat_alt)
qed

lemma chunk_progress:
  assumes "c < (len :: u64)"
  shows "0 < unat (page_chunk va (len - c)) \<and> unat (page_chunk va (len - c)) \<le> unat len - unat c \<and>
    unat (c + page_chunk va (len - c)) = unat c + unat (page_chunk va (len - c)) \<and>
    unat c + unat (page_chunk va (len - c)) \<le> unat len"
proof -
  have "unat (len - c) = unat len - unat c" "unat c < unat len"
    using assms unat_sub64 [of c len] by (simp_all add: word_less_nat_alt word_le_nat_alt)
  then have "0 < unat (page_chunk va (len - c))" "unat c + unat (page_chunk va (len - c)) \<le> unat len"
    using page_offset_less [of va] by (simp_all add: unat_page_chunk)
  moreover from this(2) have "unat c + unat (page_chunk va (len - c)) < 18446744073709551616"
    using unat_lt64 [of len] by (rule le_less_trans)
  ultimately show ?thesis by (simp add: unat_add64)
qed

lemma chunk_measure: "c < (len :: u64) \<Longrightarrow>
    unat len - unat (c + page_chunk va (len - c)) < unat len - unat c"
  using chunk_progress [of c len va] by linarith

subsection \<open>The copies\<close>

function read_memory_loop ::
  "cpu_features \<Rightarrow> u64 \<Rightarrow> PageTableManager \<Rightarrow> page_mem \<Rightarrow> addr \<Rightarrow> addr \<Rightarrow> u64 \<Rightarrow> u64 \<Rightarrow> mem \<Rightarrow> bool \<times> mem" where
  "read_memory_loop cpu mb ptm pm address buffer len copied m =
     (if copied < len then
        let user_va = address + copied; chunk_size = page_chunk user_va (len - copied)
        in case user_byte mb ptm pm user_va of
             None \<Rightarrow> (False, m)
           | Some kernel_src \<Rightarrow> read_memory_loop cpu mb ptm pm address buffer len (copied + chunk_size)
               (memcpy cpu (buffer + copied) kernel_src chunk_size m)
      else (True, m))"
  by pat_completeness auto
termination
  by (relation "measure (\<lambda>(cpu, mb, ptm, pm, address, buffer, len, copied, m). unat len - unat copied)")
    (simp_all add: chunk_measure)

function write_memory_loop ::
  "cpu_features \<Rightarrow> u64 \<Rightarrow> PageTableManager \<Rightarrow> page_mem \<Rightarrow> addr \<Rightarrow> addr \<Rightarrow> u64 \<Rightarrow> u64 \<Rightarrow> mem \<Rightarrow> bool \<times> mem" where
  "write_memory_loop cpu mb ptm pm address buffer len copied m =
     (if copied < len then
        let user_va = address + copied; chunk_size = page_chunk user_va (len - copied)
        in case user_byte mb ptm pm user_va of
             None \<Rightarrow> (False, m)
           | Some kernel_dst \<Rightarrow> write_memory_loop cpu mb ptm pm address buffer len (copied + chunk_size)
               (memcpy cpu kernel_dst (buffer + copied) chunk_size m)
      else (True, m))"
  by pat_completeness auto
termination
  by (relation "measure (\<lambda>(cpu, mb, ptm, pm, address, buffer, len, copied, m). unat len - unat copied)")
    (simp_all add: chunk_measure)

declare read_memory_loop.simps [simp del] write_memory_loop.simps [simp del]

text \<open>\<open>ptm\<close> is the page table manager of the task, or the kernel's own if the task has none.\<close>

definition read_memory ::
  "cpu_features \<Rightarrow> u64 \<Rightarrow> PageTableManager \<Rightarrow> page_mem \<Rightarrow> addr \<Rightarrow> addr \<Rightarrow> u64 \<Rightarrow> mem \<Rightarrow> bool \<times> mem" where
  "read_memory cpu mb ptm pm address buffer len m = read_memory_loop cpu mb ptm pm address buffer len 0 m"

definition write_memory ::
  "cpu_features \<Rightarrow> u64 \<Rightarrow> PageTableManager \<Rightarrow> page_mem \<Rightarrow> addr \<Rightarrow> addr \<Rightarrow> u64 \<Rightarrow> mem \<Rightarrow> bool \<times> mem" where
  "write_memory cpu mb ptm pm address buffer len m = write_memory_loop cpu mb ptm pm address buffer len 0 m"

text \<open>
  \<^verbatim>\<open>read_string\<close>: the bytes of a chunk are copied one by one up to a zero byte; the result is the
  terminated buffer. \<open>kernel_buffer\<close> is the block of \<^verbatim>\<open>max_length + 1\<close> bytes that \<^verbatim>\<open>malloc\<close> returned.
\<close>

fun scan_chunk :: "addr \<Rightarrow> addr \<Rightarrow> nat \<Rightarrow> u64 \<Rightarrow> mem \<Rightarrow> (u64 \<times> bool) \<times> mem" where
  "scan_chunk dst src 0 i m = ((i, False), m)"
| "scan_chunk dst src (Suc n) i m =
     (let c = m (src + i); m' = m(dst + i := c)
      in if c = 0 then ((i, True), m') else scan_chunk dst src n (i + 1) m')"

function read_string_loop ::
  "u64 \<Rightarrow> PageTableManager \<Rightarrow> page_mem \<Rightarrow> addr \<Rightarrow> addr \<Rightarrow> u64 \<Rightarrow> u64 \<Rightarrow> mem \<Rightarrow> u64 \<times> mem" where
  "read_string_loop mb ptm pm address kernel_buffer max_length bytes_read m =
     (if bytes_read < max_length then
        let user_va = address + bytes_read; chunk_size = page_chunk user_va (max_length - bytes_read)
        in case user_byte mb ptm pm user_va of
             None \<Rightarrow> (bytes_read, m)
           | Some kernel_src \<Rightarrow>
               let r = scan_chunk (kernel_buffer + bytes_read) kernel_src (unat chunk_size) 0 m
               in if snd (fst r) then (bytes_read + fst (fst r), snd r)
                  else read_string_loop mb ptm pm address kernel_buffer max_length
                    (bytes_read + chunk_size) (snd r)
      else (bytes_read, m))"
  by pat_completeness auto
termination
  by (relation "measure (\<lambda>(mb, ptm, pm, address, kernel_buffer, max_length, bytes_read, m).
      unat max_length - unat bytes_read)")
    (simp_all add: chunk_measure)

declare read_string_loop.simps [simp del]

definition read_string :: "u64 \<Rightarrow> PageTableManager \<Rightarrow> page_mem \<Rightarrow> addr \<Rightarrow> addr \<Rightarrow> u64 \<Rightarrow> mem \<Rightarrow> mem" where
  "read_string mb ptm pm address kernel_buffer max_length m =
     (let (bytes_read, m') = read_string_loop mb ptm pm address kernel_buffer max_length 0 m
      in m'(kernel_buffer + bytes_read := 0))"

subsection \<open>Bytes of one page lie together\<close>

lemma bit_page_offset: "bit (0xFFF :: u64) k \<longleftrightarrow> k < 12"
proof -
  have "(0xFFF :: u64) = mask 12" by (simp add: mask_eq_exp_minus_1)
  then show ?thesis by (simp only: bit_mask_iff) auto
qed

lemma bit_page_base: "bit (va AND NOT 0xFFF :: u64) k \<longleftrightarrow> bit va k \<and> 12 \<le> k"
  unfolding bit_and_iff bit_not_iff bit_page_offset using bit_imp_le_length [of va k] by auto

lemma in_page:
  assumes "unat ((va :: u64) AND 0xFFF) + i < 4096"
  shows "(va + of_nat i) AND 0xFFF = (va AND 0xFFF) + of_nat i"
    and "(va + of_nat i) AND NOT 0xFFF = va AND NOT 0xFFF"
proof -
  let ?b = "va AND NOT 0xFFF" and ?x = "(va AND 0xFFF) + of_nat i"
  have "unat ?x = unat (va AND 0xFFF) + i"
    using assms by (subst unat_add64) (simp_all add: unat_of_nat64)
  then have "unat ?x < 2 ^ 12" using assms by simp
  then have x: "\<not> bit ?x k" if "12 \<le> k" for k using that by (rule not_bit_small)
  have b: "bit ?b k \<longleftrightarrow> bit va k \<and> 12 \<le> k" for k by (rule bit_page_base)
  have "va + of_nat i = ?b + ?x" using and_plus_and_not [of va "0xFFF"] by (simp add: algebra_simps)
  also have "\<dots> = ?b OR ?x" by (rule disjunctive_add) (use x b in \<open>meson not_le\<close>)
  finally have sum: "va + of_nat i = ?b OR ?x" .
  show "(va + of_nat i) AND 0xFFF = ?x"
    unfolding sum by (rule bit_eqI) (use x b not_le in \<open>auto simp only: bit_and_iff bit_or_iff bit_page_offset\<close>)
  show "(va + of_nat i) AND NOT 0xFFF = ?b"
    unfolding sum by (rule bit_eqI)
      (use x b in \<open>auto simp only: bit_and_iff bit_or_iff bit_not_iff bit_page_offset not_less\<close>)
qed

lemma same_page_base: "va AND NOT 0xFFF = va' AND NOT 0xFFF \<Longrightarrow> same_page va va'"
proof -
  assume "va AND NOT 0xFFF = va' AND NOT 0xFFF"
  then have "bit (va AND NOT 0xFFF) k = bit (va' AND NOT 0xFFF) k" for k by (rule arg_cong)
  then have "12 \<le> k \<and> k < 48 \<Longrightarrow> bit va k = bit va' k" for k unfolding bit_page_base by blast
  then show ?thesis by (simp add: same_page_bits)
qed

lemma getPhysicalAddress_page: "same_page va va' \<Longrightarrow>
    getPhysicalAddress mb va ptm pm = getPhysicalAddress mb va' ptm pm"
  by (simp add: getPhysicalAddress_getMapping getMapping_leaf path_eq [symmetric])

lemma user_byte_page:
  assumes "unat (va AND 0xFFF) + i < 4096"
  shows "user_byte mb ptm pm (va + of_nat i) = map_option (\<lambda>p. p + of_nat i) (user_byte mb ptm pm va)"
proof -
  have "getPhysicalAddress mb (va + of_nat i) ptm pm = getPhysicalAddress mb va ptm pm"
    by (rule getPhysicalAddress_page) (rule same_page_base, rule in_page(2) [OF assms])
  then show ?thesis unfolding user_byte_def Let_def in_page [OF assms] by simp
qed

text \<open>The bytes of one chunk.\<close>

lemma chunk_bytes:
  assumes "c < len" "user_byte mb ptm pm (address + c) = Some p"
    and "i < unat (page_chunk (address + c) (len - c))"
  shows "user_byte mb ptm pm (address + of_nat (unat c + i)) = Some (p + of_nat i)"
proof -
  have "unat ((address + c) AND 0xFFF) + i < 4096"
    using assms(3) unfolding unat_page_chunk by linarith
  from user_byte_page [OF this, of mb ptm pm] show ?thesis using assms(2) by (simp add: add.assoc)
qed

lemma accessible_further:
  assumes "c < len" "user_byte mb ptm pm (address + c) = Some p"
    and "\<forall>i < unat c. user_byte mb ptm pm (address + of_nat i) \<noteq> None"
  shows "\<forall>i < unat (c + page_chunk (address + c) (len - c)). user_byte mb ptm pm (address + of_nat i) \<noteq> None"
proof (intro allI impI)
  fix i assume i: "i < unat (c + page_chunk (address + c) (len - c))"
  show "user_byte mb ptm pm (address + of_nat i) \<noteq> None"
  proof (cases "i < unat c")
    case True
    then show ?thesis using assms(3) by blast
  next
    case False
    then have "unat c + (i - unat c) = i" "i - unat c < unat (page_chunk (address + c) (len - c))"
      using i chunk_progress [OF assms(1), of "address + c"] by simp_all
    then show ?thesis using chunk_bytes [OF assms(1,2), of "i - unat c"] by simp
  qed
qed

subsection \<open>Reading\<close>

text \<open>The memory after the first \<open>k\<close> bytes have arrived in the kernel's buffer.\<close>

definition copied_in ::
  "(u64 \<Rightarrow> addr option) \<Rightarrow> addr \<Rightarrow> addr \<Rightarrow> nat \<Rightarrow> mem \<Rightarrow> mem" where
  "copied_in ub address buffer k m =
     (\<lambda>a. if unat (a - buffer) < k then m (the (ub (address + (a - buffer)))) else m a)"

text \<open>The bytes of the task lie outside the buffer.\<close>

definition apart_from :: "(u64 \<Rightarrow> addr option) \<Rightarrow> addr \<Rightarrow> addr \<Rightarrow> u64 \<Rightarrow> bool" where
  "apart_from ub address buffer len \<longleftrightarrow>
     (\<forall>i < unat len. \<forall>p. ub (address + of_nat i) = Some p \<longrightarrow> unat len \<le> unat (p - buffer))"

lemma read_chunk:
  assumes sep: "apart_from (user_byte mb ptm pm) address buffer len" and c: "c < len"
    and src: "user_byte mb ptm pm (address + c) = Some src"
  shows "memcpy cpu (buffer + c) src (page_chunk (address + c) (len - c))
      (copied_in (user_byte mb ptm pm) address buffer (unat c) m) =
    copied_in (user_byte mb ptm pm) address buffer (unat c + unat (page_chunk (address + c) (len - c))) m"
proof -
  let ?ub = "user_byte mb ptm pm"
  define n where "n = unat (page_chunk (address + c) (len - c))"
  have le: "unat c + n \<le> unat len" using chunk_progress [OF c] by (simp add: n_def)
  have bytes: "?ub (address + of_nat (unat c + i)) = Some (src + of_nat i)" if "i < n" for i
    using chunk_bytes [OF c src] that by (simp add: n_def)
  have away: "unat len \<le> unat (src + of_nat i - buffer)" if "i < n" for i
    using sep [unfolded apart_from_def, rule_format, OF _ bytes [OF that]] that le by simp
  have "up_ok (buffer + c) src n"
  proof (rule ccontr)
    assume "\<not> up_ok (buffer + c) src n"
    then have "unat (buffer + c - src) < n" by (simp add: up_ok_def)
    from away [OF this] have "unat len \<le> unat c" by simp
    then show False using c by (simp add: word_less_nat_alt)
  qed
  then have "memcpy cpu (buffer + c) src (page_chunk (address + c) (len - c)) (copied_in ?ub address buffer (unat c) m)
      = mem_copy (buffer + c) src n (copied_in ?ub address buffer (unat c) m)"
    unfolding n_def by (rule memcpy_mem_copy)
  also have "\<dots> = copied_in ?ub address buffer (unat c + n) m"
  proof (rule ext)
    fix a
    let ?j = "unat (a - (buffer + c))"
    have pos: "?j = (if unat c \<le> unat (a - buffer) then unat (a - buffer) - unat c
        else 18446744073709551616 + unat (a - buffer) - unat c)"
      using unat_sub_add64 [of "unat c" a buffer] by simp
    show "mem_copy (buffer + c) src n (copied_in ?ub address buffer (unat c) m) a =
        copied_in ?ub address buffer (unat c + n) m a"
    proof (cases "?j < n")
      case True
      have in_range: "unat c \<le> unat (a - buffer) \<and> unat (a - buffer) < unat c + n"
      proof (cases "unat c \<le> unat (a - buffer)")
        case True
        then show ?thesis using pos \<open>?j < n\<close> by simp
      next
        case False
        then have "?j = 18446744073709551616 + unat (a - buffer) - unat c" using pos by simp
        then show ?thesis using \<open>?j < n\<close> le unat_lt64 [of len] False by linarith
      qed
      have "src + (a - (buffer + c)) = src + of_nat ?j" by simp
      moreover have "address + (a - buffer) = address + of_nat (unat c + ?j)" by simp
      ultimately show ?thesis
        using True bytes [OF True] away [OF True] in_range le
        by (simp add: mem_copy_def copied_in_def)
    next
      case False
      then have "unat (a - buffer) < unat c + n \<longleftrightarrow> unat (a - buffer) < unat c"
        using pos by (auto split: if_splits)
      then show ?thesis using False by (simp add: mem_copy_def copied_in_def)
    qed
  qed
  finally show ?thesis by (simp add: n_def)
qed

text \<open>The loop, from the position it has reached.\<close>

lemma read_memory_loop_spec:
  assumes sep: "apart_from (user_byte mb ptm pm) address buffer len"
    and "copied \<le> len" "\<forall>i < unat copied. user_byte mb ptm pm (address + of_nat i) \<noteq> None"
  shows "\<exists>k \<le> unat len. (\<forall>i < k. user_byte mb ptm pm (address + of_nat i) \<noteq> None) \<and>
    (k < unat len \<longrightarrow> user_byte mb ptm pm (address + of_nat k) = None) \<and>
    read_memory_loop cpu mb ptm pm address buffer len copied
      (copied_in (user_byte mb ptm pm) address buffer (unat copied) m) =
    (k = unat len, copied_in (user_byte mb ptm pm) address buffer k m)"
  using assms(2,3)
proof (induction "unat len - unat copied" arbitrary: copied rule: less_induct)
  case less
  let ?ub = "user_byte mb ptm pm"
  show ?case
  proof (cases "copied < len")
    case False
    then have "copied = len" using less.prems(1) by simp
    then show ?thesis using less.prems(2)
      by (intro exI [of _ "unat len"]) (simp add: read_memory_loop.simps [of _ _ _ _ _ _ _ len])
  next
    case True
    show ?thesis
    proof (cases "?ub (address + copied)")
      case None
      have "unat copied < unat len" using True by (simp add: word_less_nat_alt)
      then show ?thesis using None less.prems(2) True
        by (intro exI [of _ "unat copied"]) (simp add: read_memory_loop.simps [of _ _ _ _ _ _ _ copied] Let_def)
    next
      case (Some src)
      define n where "n = page_chunk (address + copied) (len - copied)"
      note step = chunk_progress [OF True, of "address + copied", folded n_def]
      have far: "\<forall>i < unat (copied + n). ?ub (address + of_nat i) \<noteq> None"
        unfolding n_def by (rule accessible_further [OF True Some less.prems(2)])
      have smaller: "unat len - unat (copied + n) < unat len - unat copied"
        unfolding n_def by (rule chunk_measure [OF True])
      have "copied + n \<le> len" using step by (simp add: word_le_nat_alt)
      note IH = less.hyps [OF smaller this far]
      have "read_memory_loop cpu mb ptm pm address buffer len copied (copied_in ?ub address buffer (unat copied) m)
          = read_memory_loop cpu mb ptm pm address buffer len (copied + n)
              (copied_in ?ub address buffer (unat (copied + n)) m)"
        using True Some read_chunk [OF sep True Some, of cpu m] step
        by (simp add: read_memory_loop.simps [of _ _ _ _ _ _ _ copied] Let_def n_def [symmetric])
      then show ?thesis using IH by simp
    qed
  qed
qed

lemma copied_in_0: "copied_in ub address buffer 0 m = m"
  by (simp add: copied_in_def)

text \<open>\<^verbatim>\<open>read_memory\<close> is the byte-wise copy that stops at the first byte the task may not
  access: it ends, succeeds exactly if every byte is accessible, and leaves in the buffer the bytes
  before the first that is not, each from where the page tables put it, and all other memory as it
  was.\<close>

theorem read_memory_bytes:
  assumes "apart_from (user_byte mb ptm pm) address buffer len"
  shows "\<exists>k \<le> unat len. (\<forall>i < k. user_byte mb ptm pm (address + of_nat i) \<noteq> None) \<and>
    (k < unat len \<longrightarrow> user_byte mb ptm pm (address + of_nat k) = None) \<and>
    read_memory cpu mb ptm pm address buffer len m =
      (k = unat len, copied_in (user_byte mb ptm pm) address buffer k m)"
  using read_memory_loop_spec [OF assms, of 0 cpu m] by (simp add: read_memory_def copied_in_0)

subsection \<open>Writing\<close>

text \<open>The reference: the bytes are stored one by one, each where the page tables put it.\<close>

fun user_store :: "(u64 \<Rightarrow> addr option) \<Rightarrow> addr \<Rightarrow> u8 list \<Rightarrow> mem \<Rightarrow> mem" where
  "user_store ub va [] m = m"
| "user_store ub va (b # bs) m = user_store ub (va + 1) bs (m(the (ub va) := b))"

lemma user_store_append:
  "user_store ub va (xs @ ys) m = user_store ub (va + of_nat (length xs)) ys (user_store ub va xs m)"
  by (induction xs arbitrary: va m) (simp_all add: add.assoc)

lemma user_store_block:
  assumes "\<forall>i < length bs. ub (va + of_nat i) = Some (p + of_nat i)" "length bs < 18446744073709551616"
  shows "user_store ub va bs m = store_bytes m p bs"
  using assms
proof (induction bs arbitrary: va p m)
  case (Cons b bs)
  have "ub va = Some p" using Cons.prems(1) by force
  moreover have "user_store ub (va + 1) bs (m(p := b)) = store_bytes (m(p := b)) (p + 1) bs"
  proof (rule Cons.IH)
    show "\<forall>i < length bs. ub (va + 1 + of_nat i) = Some (p + 1 + of_nat i)"
    proof (intro allI impI)
      fix i assume "i < length bs"
      then have "ub (va + of_nat (Suc i)) = Some (p + of_nat (Suc i))" using Cons.prems(1) by force
      then show "ub (va + 1 + of_nat i) = Some (p + 1 + of_nat i)" by (simp add: add.assoc)
    qed
  qed (use Cons.prems(2) in simp)
  ultimately show ?case
    using store_bytes_append [of "[b]" bs m p] Cons.prems(2) by simp
qed simp

lemma user_store_other:
  "(\<forall>i < length bs. \<forall>p. ub (va + of_nat i) = Some p \<longrightarrow> p \<noteq> a) \<Longrightarrow>
   \<forall>i < length bs. ub (va + of_nat i) \<noteq> None \<Longrightarrow> user_store ub va bs m a = m a"
proof (induction bs arbitrary: va m)
  case (Cons b bs)
  have here: "the (ub va) \<noteq> a" using Cons.prems by force
  have "user_store ub (va + 1) bs (m(the (ub va) := b)) a = (m(the (ub va) := b)) a"
  proof (rule Cons.IH)
    show "\<forall>i < length bs. \<forall>p. ub (va + 1 + of_nat i) = Some p \<longrightarrow> p \<noteq> a"
      using Cons.prems(1) by (force simp: add.assoc dest: spec [of _ "Suc _"])
    show "\<forall>i < length bs. ub (va + 1 + of_nat i) \<noteq> None"
      using Cons.prems(2) by (force simp: add.assoc dest: spec [of _ "Suc _"])
  qed
  then show ?case using here by simp
qed simp

lemma load_bytes_part: "c + n \<le> k \<Longrightarrow> take n (drop c (load_bytes m p k)) = load_bytes m (p + of_nat c) n"
  by (rule nth_equalityI) (simp_all add: add.assoc)

lemma load_after_user_store:
  assumes sep: "apart_from ub address buffer len" and "\<forall>i < length bs. ub (address + of_nat i) \<noteq> None"
    and "length bs \<le> unat len" "c + n \<le> unat len"
  shows "load_bytes (user_store ub address bs m) (buffer + of_nat c) n = load_bytes m (buffer + of_nat c) n"
proof (rule load_bytes_cong)
  fix i assume i: "i < n"
  have "p \<noteq> buffer + of_nat c + of_nat i" if "j < length bs" "ub (address + of_nat j) = Some p" for j p
  proof
    assume p: "p = buffer + of_nat c + of_nat i"
    have "unat len \<le> unat (p - buffer)"
      using sep [unfolded apart_from_def, rule_format, OF _ that(2)] that(1) assms(3) by simp
    moreover have "unat (p - buffer) = c + i"
    proof -
      have "p - buffer = of_nat (c + i)" by (simp add: p)
      moreover have "c + i < 18446744073709551616" using i assms(4) unat_lt64 [of len] by linarith
      ultimately show ?thesis by (simp only: unat_of_nat64)
    qed
    ultimately show False using i assms(4) by simp
  qed
  then show "user_store ub address bs m (buffer + of_nat c + of_nat i) = m (buffer + of_nat c + of_nat i)"
    using assms(2) by (intro user_store_other) blast+
qed

lemma write_chunk:
  fixes len :: u64 and m :: mem and buffer :: addr
  defines "bs \<equiv> load_bytes m buffer (unat len)"
  assumes sep: "apart_from (user_byte mb ptm pm) address buffer len" and c: "c < len"
    and dst: "user_byte mb ptm pm (address + c) = Some dst"
    and before: "\<forall>i < unat c. user_byte mb ptm pm (address + of_nat i) \<noteq> None"
  shows "memcpy cpu dst (buffer + c) (page_chunk (address + c) (len - c))
      (user_store (user_byte mb ptm pm) address (take (unat c) bs) m) =
    user_store (user_byte mb ptm pm) address (take (unat c + unat (page_chunk (address + c) (len - c))) bs) m"
proof -
  let ?ub = "user_byte mb ptm pm"
  define n where "n = unat (page_chunk (address + c) (len - c))"
  have le: "0 < n" "unat c + n \<le> unat len" using chunk_progress [OF c] by (simp_all add: n_def)
  have small: "n < 18446744073709551616" using le unat_lt64 [of len] by linarith
  let ?m1 = "user_store ?ub address (take (unat c) bs) m"
  have "unat len \<le> unat (dst - buffer)"
    using sep [unfolded apart_from_def, rule_format, of "unat c" dst] dst le by simp
  then have "n \<le> unat (dst - (buffer + c))"
    using unat_sub_add64 [of "unat c" dst buffer] le by (simp split: if_splits)
  then have "memcpy cpu dst (buffer + c) (page_chunk (address + c) (len - c)) ?m1 = mem_copy dst (buffer + c) n ?m1"
    unfolding n_def by (intro memcpy_mem_copy) (simp add: up_ok_def)
  also have "\<dots> = store_bytes ?m1 dst (load_bytes ?m1 (buffer + c) n)"
    by (simp add: mem_copy_def store_load_bytes)
  also have "load_bytes ?m1 (buffer + c) n = load_bytes m (buffer + c) n"
    using load_after_user_store [OF sep, of "take (unat c) bs" "unat c" n m] before le
    by (simp add: bs_def)
  also have "load_bytes m (buffer + c) n = take n (drop (unat c) bs)"
    using load_bytes_part [OF le(2), of m buffer] by (simp add: bs_def)
  also have "store_bytes ?m1 dst (take n (drop (unat c) bs)) = user_store ?ub (address + c) (take n (drop (unat c) bs)) ?m1"
  proof (rule user_store_block [symmetric])
    show "\<forall>i < length (take n (drop (unat c) bs)). ?ub (address + c + of_nat i) = Some (dst + of_nat i)"
      using chunk_bytes [OF c dst] by (simp add: n_def add.assoc)
    show "length (take n (drop (unat c) bs)) < 18446744073709551616"
      by (rule le_less_trans [OF _ small]) simp
  qed
  also have "\<dots> = user_store ?ub address (take (unat c) bs @ take n (drop (unat c) bs)) m"
    using le by (simp add: user_store_append bs_def)
  finally show ?thesis by (simp add: n_def take_add)
qed

lemma write_memory_loop_spec:
  fixes len :: u64 and m :: mem and buffer :: addr
  defines "bs \<equiv> load_bytes m buffer (unat len)"
  assumes sep: "apart_from (user_byte mb ptm pm) address buffer len"
    and "copied \<le> len" "\<forall>i < unat copied. user_byte mb ptm pm (address + of_nat i) \<noteq> None"
  shows "\<exists>k \<le> unat len. (\<forall>i < k. user_byte mb ptm pm (address + of_nat i) \<noteq> None) \<and>
    (k < unat len \<longrightarrow> user_byte mb ptm pm (address + of_nat k) = None) \<and>
    write_memory_loop cpu mb ptm pm address buffer len copied
      (user_store (user_byte mb ptm pm) address (take (unat copied) bs) m) =
    (k = unat len, user_store (user_byte mb ptm pm) address (take k bs) m)"
  using assms(3,4)
proof (induction "unat len - unat copied" arbitrary: copied rule: less_induct)
  case less
  let ?ub = "user_byte mb ptm pm"
  show ?case
  proof (cases "copied < len")
    case False
    then have "copied = len" using less.prems(1) by simp
    then show ?thesis using less.prems(2)
      by (intro exI [of _ "unat len"]) (simp add: write_memory_loop.simps [of _ _ _ _ _ _ _ len])
  next
    case True
    show ?thesis
    proof (cases "?ub (address + copied)")
      case None
      have "unat copied < unat len" using True by (simp add: word_less_nat_alt)
      then show ?thesis using None less.prems(2) True
        by (intro exI [of _ "unat copied"]) (simp add: write_memory_loop.simps [of _ _ _ _ _ _ _ copied] Let_def)
    next
      case (Some dst)
      define n where "n = page_chunk (address + copied) (len - copied)"
      note step = chunk_progress [OF True, of "address + copied", folded n_def]
      have far: "\<forall>i < unat (copied + n). ?ub (address + of_nat i) \<noteq> None"
        unfolding n_def by (rule accessible_further [OF True Some less.prems(2)])
      have smaller: "unat len - unat (copied + n) < unat len - unat copied"
        unfolding n_def by (rule chunk_measure [OF True])
      have "copied + n \<le> len" using step by (simp add: word_le_nat_alt)
      note IH = less.hyps [OF smaller this far]
      have "write_memory_loop cpu mb ptm pm address buffer len copied (user_store ?ub address (take (unat copied) bs) m)
          = write_memory_loop cpu mb ptm pm address buffer len (copied + n)
              (user_store ?ub address (take (unat (copied + n)) bs) m)"
        using True Some write_chunk [OF sep True Some less.prems(2), of cpu m] step
        by (simp add: write_memory_loop.simps [of _ _ _ _ _ _ _ copied] Let_def n_def [symmetric] bs_def)
      then show ?thesis using IH by simp
    qed
  qed
qed

lemma write_memory_stores:
  assumes "apart_from (user_byte mb ptm pm) address buffer len"
  shows "\<exists>k \<le> unat len. (\<forall>i < k. user_byte mb ptm pm (address + of_nat i) \<noteq> None) \<and>
    (k < unat len \<longrightarrow> user_byte mb ptm pm (address + of_nat k) = None) \<and>
    write_memory cpu mb ptm pm address buffer len m =
      (k = unat len, user_store (user_byte mb ptm pm) address (take k (load_bytes m buffer (unat len))) m)"
  using write_memory_loop_spec [OF assms, of 0 cpu m] by (simp add: write_memory_def)

text \<open>A range of the task's memory that it may access, no byte of it twice.\<close>

definition user_range :: "(u64 \<Rightarrow> addr option) \<Rightarrow> addr \<Rightarrow> nat \<Rightarrow> bool" where
  "user_range ub address n \<longleftrightarrow> (\<forall>i < n. ub (address + of_nat i) \<noteq> None) \<and>
     inj_on (\<lambda>i. the (ub (address + of_nat i))) {..<n}"

definition user_bytes :: "(u64 \<Rightarrow> addr option) \<Rightarrow> addr \<Rightarrow> nat \<Rightarrow> mem \<Rightarrow> u8 list" where
  "user_bytes ub address n m = map (\<lambda>i. m (the (ub (address + of_nat i)))) [0..<n]"

lemma user_range_Suc:
  assumes "user_range ub va (Suc n)"
  shows "user_range ub (va + 1) n" and "i < n \<Longrightarrow> the (ub (va + 1 + of_nat i)) \<noteq> the (ub va)"
proof -
  have shift: "va + 1 + of_nat i = va + of_nat (Suc i)" for i by (simp add: add.assoc)
  have inj: "i < Suc n \<Longrightarrow> j < Suc n \<Longrightarrow> the (ub (va + of_nat i)) = the (ub (va + of_nat j)) \<Longrightarrow> i = j" for i j
    using assms by (auto simp: user_range_def inj_on_def)
  show "user_range ub (va + 1) n"
    unfolding user_range_def shift
    using assms inj [of "Suc _" "Suc _"]
    by (auto simp: user_range_def inj_on_def simp del: of_nat_Suc)
  show "i < n \<Longrightarrow> the (ub (va + 1 + of_nat i)) \<noteq> the (ub va)"
    unfolding shift using inj [of "Suc i" 0] by auto
qed

lemma user_store_range:
  assumes "user_range ub va (length bs)"
  shows "user_bytes ub va (length bs) (user_store ub va bs m) = bs"
proof -
  have "user_store ub va bs m (the (ub (va + of_nat i))) = bs ! i" if "i < length bs" for i
    using assms that
  proof (induction bs arbitrary: va m i)
    case (Cons b bs)
    have r: "user_range ub (va + 1) (length bs)" using user_range_Suc(1) Cons.prems(1) by fastforce
    have other: "the (ub (va + 1 + of_nat j)) \<noteq> the (ub va)" if "j < length bs" for j
      using user_range_Suc(2) [of ub va "length bs" j] Cons.prems(1) that by simp
    show ?case
    proof (cases i)
      case 0
      have "user_store ub (va + 1) bs (m(the (ub va) := b)) (the (ub va)) = b"
      proof (subst user_store_other)
        show "\<forall>j < length bs. \<forall>p. ub (va + 1 + of_nat j) = Some p \<longrightarrow> p \<noteq> the (ub va)"
          using other by force
        show "\<forall>j < length bs. ub (va + 1 + of_nat j) \<noteq> None" using r by (simp add: user_range_def)
      qed simp
      then show ?thesis by (simp add: 0)
    next
      case (Suc j)
      have "user_store ub (va + 1) bs (m(the (ub va) := b)) (the (ub (va + 1 + of_nat j))) = bs ! j"
        using Cons.IH [OF r] Cons.prems(2) Suc by simp
      then show ?thesis by (simp add: Suc add.assoc)
    qed
  qed simp
  then show ?thesis by (intro nth_equalityI) (simp_all add: user_bytes_def)
qed

lemma load_copied_in:
  assumes "n < 18446744073709551616"
  shows "load_bytes (copied_in ub address buffer n m) buffer n = user_bytes ub address n m"
  by (rule nth_equalityI) (use assms in \<open>simp_all add: copied_in_def user_bytes_def unat_of_nat64\<close>)

text \<open>C25: What the kernel writes to a task's memory is what it reads back: on a range that the
  task may access and whose bytes lie in different places, outside the kernel's two buffers, both
  calls succeed and the second buffer receives the bytes of the first.\<close>

theorem write_memory_read_memory:
  assumes "user_range (user_byte mb ptm pm) address (unat len)"
    and "apart_from (user_byte mb ptm pm) address src len" "apart_from (user_byte mb ptm pm) address dst len"
  shows "\<exists>m1 m2. write_memory cpu mb ptm pm address src len m = (True, m1) \<and>
    user_bytes (user_byte mb ptm pm) address (unat len) m1 = load_bytes m src (unat len) \<and>
    read_memory cpu mb ptm pm address dst len m1 = (True, m2) \<and>
    load_bytes m2 dst (unat len) = load_bytes m src (unat len)"
proof -
  let ?ub = "user_byte mb ptm pm" and ?bs = "load_bytes m src (unat len)"
  have all: "k = unat len" if "k \<le> unat len" "k < unat len \<longrightarrow> ?ub (address + of_nat k) = None" for k
    using assms(1) that by (cases "k < unat len") (auto simp: user_range_def)
  have w: "write_memory cpu mb ptm pm address src len m = (True, user_store ?ub address ?bs m)"
  proof -
    obtain k where k: "k \<le> unat len" "k < unat len \<longrightarrow> ?ub (address + of_nat k) = None"
      "write_memory cpu mb ptm pm address src len m = (k = unat len, user_store ?ub address (take k ?bs) m)"
      using write_memory_stores [OF assms(2), of cpu m] by blast
    show ?thesis using k(3) unfolding all [OF k(1,2)] by simp
  qed
  let ?m1 = "user_store ?ub address ?bs m"
  have r: "read_memory cpu mb ptm pm address dst len ?m1 = (True, copied_in ?ub address dst (unat len) ?m1)"
  proof -
    obtain k where k: "k \<le> unat len" "k < unat len \<longrightarrow> ?ub (address + of_nat k) = None"
      "read_memory_loop cpu mb ptm pm address dst len 0 ?m1 = (k = unat len, copied_in ?ub address dst k ?m1)"
      using read_memory_loop_spec [OF assms(3), of 0 cpu ?m1] by (auto simp: copied_in_0)
    show ?thesis using k(3) unfolding all [OF k(1,2)] by (simp add: read_memory_def)
  qed
  have "user_bytes ?ub address (unat len) ?m1 = ?bs"
    using user_store_range [of ?ub address ?bs m] assms(1) by simp
  then show ?thesis using w r by (auto simp: load_copied_in)
qed

text \<open>An address space that maps every page to the frame at 0x5000, with access for the task.\<close>

definition flat_mem :: page_mem where
  "flat_mem = example_mem\<lparr>tables := (\<lambda>t i. 0x5007)\<rparr>"

lemma flat_user_byte:
  "user_byte 0xffff800000000000 example_ptm flat_mem va = Some (0xffff800000005000 + (va AND 0xFFF))"
  by (simp add: user_byte_def getPhysicalAddress_def GetFlag_def walk_def flat_mem_def is_flag_set_def
      get_address_def ADDR_MASK_def physical_to_virtual_def Let_def)

lemma flat_page:
  assumes "i < 4096"
  shows "user_byte 0xffff800000000000 example_ptm flat_mem (0x400000 + of_nat i) = Some (0xffff800000005000 + of_nat i)"
proof -
  have "unat ((0x400000 :: u64) AND 0xFFF) + i < 4096" using assms by simp
  from user_byte_page [OF this] show ?thesis by (simp add: flat_user_byte)
qed

lemma flat_range: "user_range (user_byte 0xffff800000000000 example_ptm flat_mem) 0x400000 4"
proof -
  have "inj_on (\<lambda>i. the (user_byte 0xffff800000000000 example_ptm flat_mem (0x400000 + of_nat i))) {..<4}"
  proof (rule inj_onI)
    fix i j :: nat
    assume "i \<in> {..<4}" "j \<in> {..<4}"
      "the (user_byte 0xffff800000000000 example_ptm flat_mem (0x400000 + of_nat i)) =
       the (user_byte 0xffff800000000000 example_ptm flat_mem (0x400000 + of_nat j))"
    then have "unat (of_nat i :: u64) = unat (of_nat j :: u64)" "i < 4" "j < 4" by (simp_all add: flat_page)
    then show "i = j" by (simp add: unat_of_nat64)
  qed
  then show ?thesis by (simp add: user_range_def flat_page)
qed

lemma flat_apart:
  assumes "unat b + 0x10000 \<le> 0xffff800000005000"
  shows "apart_from (user_byte 0xffff800000000000 example_ptm flat_mem) 0x400000 b 4"
proof -
  have "4 \<le> unat (0xffff800000005000 + of_nat i - b)" if "i < 4" for i :: nat
  proof -
    have "unat (0xffff800000005000 + of_nat i :: u64) = 0xffff800000005000 + i"
      using that by (subst unat_add64) (simp_all add: unat_of_nat64)
    then show ?thesis using assms by (simp add: unat_diff64)
  qed
  then show ?thesis by (simp add: apart_from_def flat_page)
qed

lemma write_memory_read_memory_witness:
  "\<exists>m1 m2. write_memory \<lparr>is_sse_enabled = True, is_avx_enabled = False, is_avx2_enabled = False,
        is_avx512_enabled = False\<rparr> 0xffff800000000000 example_ptm flat_mem 0x400000 0x1000 4 ucast = (True, m1) \<and>
     m1 0xffff800000005002 = 2 \<and>
     read_memory \<lparr>is_sse_enabled = True, is_avx_enabled = False, is_avx2_enabled = False,
        is_avx512_enabled = False\<rparr> 0xffff800000000000 example_ptm flat_mem 0x400000 0x2000 4 m1 = (True, m2) \<and>
     load_bytes m2 0x2000 4 = [0, 1, 2, 3]"
proof -
  have bytes: "load_bytes (ucast :: u64 \<Rightarrow> u8) 0x1000 4 = [0, 1, 2, 3]"
    by (simp add: load_bytes_def upt_rec)
  have "user_range (user_byte 0xffff800000000000 example_ptm flat_mem) 0x400000 (unat (4 :: u64))"
    using flat_range by simp
  from write_memory_read_memory [OF this flat_apart flat_apart, of "0x1000" "0x2000"
      "\<lparr>is_sse_enabled = True, is_avx_enabled = False, is_avx2_enabled = False, is_avx512_enabled = False\<rparr>" ucast]
  obtain m1 m2 where r: "write_memory \<lparr>is_sse_enabled = True, is_avx_enabled = False, is_avx2_enabled = False,
        is_avx512_enabled = False\<rparr> 0xffff800000000000 example_ptm flat_mem 0x400000 0x1000 4 ucast = (True, m1)"
    "user_bytes (user_byte 0xffff800000000000 example_ptm flat_mem) 0x400000 4 m1 = [0, 1, 2, 3]"
    "read_memory \<lparr>is_sse_enabled = True, is_avx_enabled = False, is_avx2_enabled = False,
        is_avx512_enabled = False\<rparr> 0xffff800000000000 example_ptm flat_mem 0x400000 0x2000 4 m1 = (True, m2)"
    "load_bytes m2 0x2000 4 = [0, 1, 2, 3]"
    by (auto simp: bytes)
  from r(2) have "m1 (the (user_byte 0xffff800000000000 example_ptm flat_mem (0x400000 + of_nat 2))) = 2"
    by (simp add: user_bytes_def upt_rec)
  then have "m1 0xffff800000005002 = 2" using flat_page [of 2] by simp
  then show ?thesis using r by blast
qed

lemma read_memory_bytes_witness:
  "\<exists>m'. read_memory \<lparr>is_sse_enabled = True, is_avx_enabled = False, is_avx2_enabled = False,
        is_avx512_enabled = False\<rparr> 0xffff800000000000 example_ptm flat_mem 0x400000 0x1000 4 ucast = (True, m') \<and>
     m' 0x1003 = ucast (0xffff800000005003 :: u64)"
proof -
  have "apart_from (user_byte 0xffff800000000000 example_ptm flat_mem) 0x400000 0x1000 4" by (rule flat_apart) simp
  from read_memory_bytes [OF this, of "\<lparr>is_sse_enabled = True, is_avx_enabled = False,
      is_avx2_enabled = False, is_avx512_enabled = False\<rparr>" ucast] obtain k where
    k: "k \<le> 4" "k < 4 \<longrightarrow> user_byte 0xffff800000000000 example_ptm flat_mem (0x400000 + of_nat k) = None"
    "read_memory \<lparr>is_sse_enabled = True, is_avx_enabled = False, is_avx2_enabled = False,
        is_avx512_enabled = False\<rparr> 0xffff800000000000 example_ptm flat_mem 0x400000 0x1000 4 ucast =
      (k = 4, copied_in (user_byte 0xffff800000000000 example_ptm flat_mem) 0x400000 0x1000 k ucast)" by auto
  then have "k = 4" using flat_page [of k] by (cases "k < 4") auto
  then show ?thesis using k(3) flat_page [of 3] by (simp add: copied_in_def)
qed

end
