(* ===== verification/File_IO.thy ===== *)
theory File_IO
  imports Mem_FS User_Memory Files
begin

text \<open>
  The system calls that move the data of a file (syscalls/files/read.cpp and write.cpp): a window of
  16 KiB on the kernel heap through which the bytes go in turns, between the operation of the vnode
  and the memory of the task. The theory states what a vnode that can be read promises, as a locale,
  proves the loops against it, and shows that files in memory keep the promise, so that a read of
  such a file is the copy of the part of its contents that was asked for.

  The state is that of the vnode and of the kernel; the operation of the vnode is an argument. \<open>None\<close>
  is a call that does not end.
\<close>

subsection \<open>The calls\<close>

type_synonym 'n node_read = "u64 \<Rightarrow> u64 \<Rightarrow> addr \<Rightarrow> 'n \<times> kernel \<Rightarrow> (u32 \<times> 'n \<times> kernel) option"

definition READ_WINDOW :: u64 where "READ_WINDOW = 0x4000"
definition EFAULT :: u64 where "EFAULT = 14"
definition EWOULDBLOCK :: u64 where "EWOULDBLOCK = 11"
definition EISDIR_res :: u64 where "EISDIR_res = 21"
definition ENOMEM_res :: u64 where "ENOMEM_res = 12"
definition O_NONBLOCK :: u32 where "O_NONBLOCK = 0x800"
definition O_APPEND :: u32 where "O_APPEND = 0x400"
definition O_WRONLY :: u32 where "O_WRONLY = 1"

definition window_chunk :: "u64 \<Rightarrow> u64" where
  "window_chunk remaining = (if remaining > READ_WINDOW then READ_WINDOW else remaining)"

text \<open>The window is given back on every path out of the loop.\<close>

partial_function (option) pread_loop ::
  "cpu_features \<Rightarrow> u64 \<Rightarrow> PageTableManager \<Rightarrow> page_mem \<Rightarrow> 'n node_read \<Rightarrow> addr \<Rightarrow> u64 \<Rightarrow> addr \<Rightarrow>
   u64 \<Rightarrow> u64 \<Rightarrow> 'n \<times> kernel \<Rightarrow> (u64 \<times> 'n \<times> kernel) option" where
  "pread_loop cpu mb ptm pm rd buffer count temp total_read current_offset ns =
     (if total_read < count then
        let chunk = window_chunk (count - total_read) in
        Option.bind (rd current_offset chunk temp ns) (\<lambda>r.
          let bytes = (scast (fst r) :: u64); ns1 = snd r in
          if sint bytes \<le> 0 then
            Some (if sint bytes < 0 \<and> total_read = 0 then bytes else total_read, ns1)
          else
            let w = write_memory cpu mb ptm pm (buffer + total_read) temp bytes (kmem (snd ns1));
                ns2 = (fst ns1, (snd ns1)\<lparr>kmem := snd w\<rparr>)
            in if \<not> fst w then Some (- EFAULT, ns2)
               else if bytes < chunk then Some (total_read + bytes, ns2)
               else pread_loop cpu mb ptm pm rd buffer count temp (total_read + bytes)
                 (current_offset + bytes) ns2)
      else Some (total_read, ns))"

definition sys_pread64 ::
  "cpu_features \<Rightarrow> u64 \<Rightarrow> PageTableManager \<Rightarrow> page_mem \<Rightarrow> 'n node_read \<Rightarrow> fd_t option \<Rightarrow> bool \<Rightarrow> addr \<Rightarrow> u64 \<Rightarrow>
   u64 \<Rightarrow> 'n \<times> kernel \<Rightarrow> (u64 \<times> 'n \<times> kernel) option" where
  "sys_pread64 cpu mb ptm pm rd ofd is_vdir buffer count off ns =
     (if ofd = None then Some (- EBADF, ns)
      else if is_vdir then Some (- EISDIR_res, ns)
      else Option.bind (kmalloc mb READ_WINDOW (snd ns)) (\<lambda>(temp, s1).
        let ns1 = (fst ns, s1) in
        if temp = 0 then Some (- ENOMEM_res, ns1)
        else map_option (\<lambda>(ret, n, s). (ret, n, s\<lparr>kheap := free mb temp (kheap s)\<rparr>))
          (pread_loop cpu mb ptm pm rd buffer count temp 0 off ns1)))"

text \<open>
  \<^verbatim>\<open>sys_read\<close> also moves the offset of the descriptor, gives up on a descriptor that must not block
  when the vnode has no data, and returns an error of the vnode even after bytes were read. The third
  component tells whether the path gives the window back: the one that gives up does not.
\<close>

partial_function (option) read_loop ::
  "cpu_features \<Rightarrow> u64 \<Rightarrow> PageTableManager \<Rightarrow> page_mem \<Rightarrow> 'n node_read \<Rightarrow> ('n \<Rightarrow> bool) \<Rightarrow> addr \<Rightarrow> u64 \<Rightarrow> addr \<Rightarrow>
   u64 \<Rightarrow> fd_t \<Rightarrow> 'n \<times> kernel \<Rightarrow> (u64 \<times> fd_t \<times> bool \<times> 'n \<times> kernel) option" where
  "read_loop cpu mb ptm pm rd ready user_buffer count temp i ofd ns =
     (if i < count then
        if fd_flags ofd AND O_NONBLOCK = O_NONBLOCK \<and> \<not> ready (fst ns)
        then Some (- EWOULDBLOCK, ofd, False, ns)
        else
          let chunk_size = window_chunk (count - i) in
          Option.bind (rd (fd_offset ofd) chunk_size temp ns) (\<lambda>r.
            let c = (scast (fst r) :: u64); ns1 = snd r in
            if sint c \<le> 0 then Some (if sint c < 0 then c else i, ofd, True, ns1)
            else
              let w = write_memory cpu mb ptm pm (user_buffer + i) temp c (kmem (snd ns1));
                  ns2 = (fst ns1, (snd ns1)\<lparr>kmem := snd w\<rparr>)
              in if \<not> fst w then Some (- EFAULT, ofd, True, ns2)
                 else
                   let ofd1 = ofd\<lparr>fd_offset := fd_offset ofd + c\<rparr>
                   in if c < chunk_size then Some (i + c, ofd1, True, ns2)
                      else read_loop cpu mb ptm pm rd ready user_buffer count temp (i + c) ofd1 ns2)
      else Some (i, ofd, True, ns))"

definition sys_read ::
  "cpu_features \<Rightarrow> u64 \<Rightarrow> PageTableManager \<Rightarrow> page_mem \<Rightarrow> 'n node_read \<Rightarrow> ('n \<Rightarrow> bool) \<Rightarrow> fd_t option \<Rightarrow> bool \<Rightarrow>
   addr \<Rightarrow> u64 \<Rightarrow> 'n \<times> kernel \<Rightarrow> (u64 \<times> fd_t option \<times> 'n \<times> kernel) option" where
  "sys_read cpu mb ptm pm rd ready ofd is_vdir user_buffer count ns =
     (case ofd of
        None \<Rightarrow> Some (- EBADF, None, ns)
      | Some fd \<Rightarrow>
          if is_vdir then Some (- EISDIR_res, ofd, ns)
          else Option.bind (kmalloc mb READ_WINDOW (snd ns)) (\<lambda>(temp, s1).
            let ns1 = (fst ns, s1) in
            if temp = 0 then Some (- ENOMEM_res, ofd, ns1)
            else map_option (\<lambda>(ret, fd1, freed, n, s).
                (ret, Some fd1, n, if freed then s\<lparr>kheap := free mb temp (kheap s)\<rparr> else s))
              (read_loop cpu mb ptm pm rd ready user_buffer count temp 0 fd ns1)))"

text \<open>Writing: the bytes come from the task's memory, and a short write ends the loop.\<close>

partial_function (option) write_loop ::
  "cpu_features \<Rightarrow> u64 \<Rightarrow> PageTableManager \<Rightarrow> page_mem \<Rightarrow> 'n node_read \<Rightarrow> addr \<Rightarrow> addr \<Rightarrow>
   u64 \<Rightarrow> u64 \<Rightarrow> fd_t \<Rightarrow> 'n \<times> kernel \<Rightarrow> (u64 \<times> fd_t \<times> 'n \<times> kernel) option" where
  "write_loop cpu mb ptm pm wr user_ptr buffer total_written remaining ofd ns =
     (if remaining > 0 then
        let chunk_size = window_chunk remaining;
            g = read_memory cpu mb ptm pm (user_ptr + total_written) buffer chunk_size (kmem (snd ns));
            ns1 = (fst ns, (snd ns)\<lparr>kmem := snd g\<rparr>)
        in if \<not> fst g then Some (- EFAULT, ofd, ns1)
           else Option.bind (wr (fd_offset ofd) chunk_size buffer ns1) (\<lambda>r.
             let written = (scast (fst r) :: u64); ns2 = snd r in
             if sint written < 0
             then Some (if total_written = 0 then written else total_written, ofd, ns2)
             else
               let ofd1 = ofd\<lparr>fd_offset := fd_offset ofd + written\<rparr>
               in if written < chunk_size then Some (total_written + written, ofd1, ns2)
                  else write_loop cpu mb ptm pm wr user_ptr buffer (total_written + written)
                    (remaining - written) ofd1 ns2)
      else Some (total_written, ofd, ns))"

definition sys_write ::
  "cpu_features \<Rightarrow> u64 \<Rightarrow> PageTableManager \<Rightarrow> page_mem \<Rightarrow> 'n node_read \<Rightarrow> ('n \<Rightarrow> u64) \<Rightarrow> fd_t option \<Rightarrow> bool \<Rightarrow>
   addr \<Rightarrow> u64 \<Rightarrow> 'n \<times> kernel \<Rightarrow> (u64 \<times> fd_t option \<times> 'n \<times> kernel) option" where
  "sys_write cpu mb ptm pm wr nsize ofd is_vdir data len ns =
     (case ofd of
        None \<Rightarrow> Some (- EBADF, None, ns)
      | Some fd \<Rightarrow>
          if fd_flags fd AND (O_WRONLY OR O_RDWR) = 0 then Some (- EACCES_res, ofd, ns)
          else if is_vdir then Some (- EISDIR_res, ofd, ns)
          else
            let fd1 = (if fd_flags fd AND O_APPEND \<noteq> 0 then fd\<lparr>fd_offset := nsize (fst ns)\<rparr> else fd)
            in Option.bind (kmalloc mb READ_WINDOW (snd ns)) (\<lambda>(buffer, s1).
              let ns1 = (fst ns, s1) in
              if buffer = 0 then Some (- ENOMEM_res, Some fd1, ns1)
              else map_option (\<lambda>(ret, fd2, n, s). (ret, Some fd2, n, s\<lparr>kheap := free mb buffer (kheap s)\<rparr>))
                (write_loop cpu mb ptm pm wr data buffer 0 len fd1 ns1)))"

subsection \<open>What a vnode that can be read promises\<close>

text \<open>
  The contents of the vnode depend on its own state and on the memory at its \<open>foot\<close>, which lies in
  live blocks of the heap: they stay as long as that memory and those blocks do. The read operation
  fills the start of the buffer and touches nothing else.
\<close>

locale readable_node =
  fixes mb :: u64
    and rd :: "'n node_read"
    and inv :: "'n \<Rightarrow> kernel \<Rightarrow> bool"
    and content :: "'n \<Rightarrow> kernel \<Rightarrow> u8 list"
    and foot :: "'n \<Rightarrow> addr set"
  assumes sound: "inv n s \<Longrightarrow> heap_sound mb (kheap s)"
    and content_small: "inv n s \<Longrightarrow> length (content n s) < 18446744073709551616"
    and foot_live: "\<lbrakk>inv n s; a \<in> foot n\<rbrakk> \<Longrightarrow> \<exists>p k. (p, k) \<in> heap_live mb (kheap s) \<and> unat (a - p) < unat k"
    and stable: "\<lbrakk>inv n s; heap_sound mb h; heap_live mb (kheap s) \<subseteq> heap_live mb h; \<forall>a \<in> foot n. m a = kmem s a\<rbrakk>
      \<Longrightarrow> inv n (s\<lparr>kmem := m, kheap := h\<rparr>) \<and> content n (s\<lparr>kmem := m, kheap := h\<rparr>) = content n s"
    and reads: "\<lbrakk>inv n s; \<forall>i < unat len. buf + of_nat i \<notin> foot n; unat len \<le> 16384;
        unat buf + unat len \<le> 18446744073709551616\<rbrakk>
      \<Longrightarrow> \<exists>m. rd off len buf (n, s) = Some (of_nat (length (take (unat len) (drop (unat off) (content n s)))), n, s\<lparr>kmem := m\<rparr>) \<and>
        load_bytes m buf (length (take (unat len) (drop (unat off) (content n s)))) =
          take (unat len) (drop (unat off) (content n s)) \<and>
        (\<forall>a. unat len \<le> unat (a - buf) \<longrightarrow> m a = kmem s a)"
begin

text \<open>The memory of the task that a call may write: accessible, below the heap, no byte twice.\<close>

lemma foot_above: "inv n s \<Longrightarrow> a \<in> foot n \<Longrightarrow> unat (HEAP_BASE mb) \<le> unat a"
proof -
  assume i: "inv n s" and a: "a \<in> foot n"
  from foot_live [OF i a] obtain p k where k: "(p, k) \<in> heap_live mb (kheap s)" "unat (a - p) < unat k" by blast
  have "unat (HEAP_BASE mb) \<le> unat p" "unat p + unat k \<le> 18446744073709551616"
    using live_above [OF sound [OF i] k(1)] by simp_all
  moreover have "unat a = unat p + unat (a - p)"
    using k(2) calculation(2) unat_plus64 [of p "a - p"] by (simp split: if_splits)
  ultimately show ?thesis by simp
qed

end

lemma user_store_cong: "m a = m' a \<Longrightarrow> user_store ub va bs m a = user_store ub va bs m' a"
proof (induction bs arbitrary: va m m')
  case (Cons b bs)
  then have "(m(the (ub va) := b)) a = (m'(the (ub va) := b)) a" by simp
  then show ?case
    using Cons.IH [of "m(the (ub va) := b)" "m'(the (ub va) := b)"] by (simp del: fun_upd_apply)
qed simp

lemma window_chunk_le: "unat (window_chunk r) = min 16384 (unat r)"
  by (simp add: window_chunk_def READ_WINDOW_def word_less_nat_alt)

text \<open>The count of bytes that an operation returns, as the loops see it.\<close>

lemma scast_count:
  assumes "n \<le> 16384"
  shows "(scast (of_nat n :: u32) :: u64) = of_nat n" "sint (of_nat n :: u64) = int n"
proof -
  have 32: "sint (of_nat n :: u32) = int n"
    using assms by (simp add: sint_uint unsigned_of_nat signed_take_bit_int_eq_self take_bit_nat_eq_self)
  show "(scast (of_nat n :: u32) :: u64) = of_nat n"
    by (simp add: scast_eq 32)
  show "sint (of_nat n :: u64) = int n"
    using assms by (simp add: sint_uint unsigned_of_nat signed_take_bit_int_eq_self take_bit_nat_eq_self)
qed

text \<open>Memory of the task that a call may write: accessible, no byte twice, below the heap.\<close>

definition task_range :: "u64 \<Rightarrow> (u64 \<Rightarrow> addr option) \<Rightarrow> addr \<Rightarrow> nat \<Rightarrow> bool" where
  "task_range mb ub b n \<longleftrightarrow> user_range ub b n \<and>
     (\<forall>i < n. \<forall>p. ub (b + of_nat i) = Some p \<longrightarrow> unat p < unat (HEAP_BASE mb))"

text \<open>The window is a live block of the heap.\<close>

definition window_ok :: "u64 \<Rightarrow> addr \<Rightarrow> kernel \<Rightarrow> bool" where
  "window_ok mb temp s \<longleftrightarrow> heap_sound mb (kheap s) \<and> (\<exists>k. (temp, k) \<in> heap_live mb (kheap s) \<and> 16384 \<le> unat k)"

lemma window_region: "window_ok mb temp s \<Longrightarrow>
    unat (HEAP_BASE mb) \<le> unat temp \<and> unat temp + 16384 \<le> 18446744073709551616"
  using live_above [of mb "kheap s" temp] by (fastforce simp: window_ok_def)

lemma copy_out:
  assumes range: "task_range mb (user_byte mb ptm pm) b n" and fit: "t + length bs \<le> n" "length bs \<le> 16384"
    and win: "unat (HEAP_BASE mb) \<le> unat temp" "unat temp + 16384 \<le> 18446744073709551616"
    and bytes: "load_bytes m temp (length bs) = bs"
  shows "write_memory cpu mb ptm pm (b + of_nat t) temp (of_nat (length bs)) m =
    (True, user_store (user_byte mb ptm pm) (b + of_nat t) bs m)"
proof -
  let ?ub = "user_byte mb ptm pm"
  have len: "unat (of_nat (length bs) :: u64) = length bs" using fit(2) by (intro unat_of_nat64) simp
  have at: "b + of_nat t + of_nat i = b + of_nat (t + i)" for i by (simp add: add.assoc)
  have apart: "apart_from ?ub (b + of_nat t) temp (of_nat (length bs))"
    unfolding apart_from_def len at
  proof (intro allI impI)
    fix i p assume i: "i < length bs" "?ub (b + of_nat (t + i)) = Some p"
    then have "unat p < unat (HEAP_BASE mb)"
      using range [unfolded task_range_def] fit(1) by (meson add_less_cancel_left less_le_trans)
    then show "length bs \<le> unat (p - temp)"
      using win fit(2) unfolding unat_diff64 by auto
  qed
  obtain k where k: "k \<le> length bs" "k < length bs \<longrightarrow> ?ub (b + of_nat (t + k)) = None"
    "write_memory cpu mb ptm pm (b + of_nat t) temp (of_nat (length bs)) m =
      (k = length bs, user_store ?ub (b + of_nat t) (take k bs) m)"
    using write_memory_stores [OF apart, of cpu m] unfolding len at bytes by blast
  have "?ub (b + of_nat (t + k)) \<noteq> None" if "k < length bs"
    using range fit(1) that unfolding task_range_def user_range_def by (meson add_less_cancel_left less_le_trans)
  then have "k = length bs" using k(1,2) by (meson le_neq_implies_less)
  then show ?thesis using k(3) by simp
qed

lemma user_store_outside:
  assumes "task_range mb ub b n" "t + length bs \<le> n" "unat (HEAP_BASE mb) \<le> unat a"
  shows "user_store ub (b + of_nat t) bs m a = m a"
proof (rule user_store_other)
  have at: "b + of_nat t + of_nat i = b + of_nat (t + i)" for i by (simp add: add.assoc)
  have in_range: "t + i < n" if "i < length bs" for i using that assms(2) by simp
  show "\<forall>i < length bs. \<forall>p. ub (b + of_nat t + of_nat i) = Some p \<longrightarrow> p \<noteq> a"
    using assms(1,3) in_range unfolding at task_range_def by fastforce
  show "\<forall>i < length bs. ub (b + of_nat t + of_nat i) \<noteq> None"
    using assms(1) in_range unfolding at task_range_def user_range_def by blast
qed

lemma drop_part: "take c (drop (off + t) xs) = take c (drop t (take n (drop off xs)))"
  if "t + c \<le> n" for c :: nat
  using that by (simp add: drop_take add.commute)

context readable_node begin

text \<open>One turn of the loop: the operation of the vnode, then the copy to the task.\<close>

lemma turn:
  assumes i: "inv n s" and win: "window_ok mb temp s" "\<forall>i < 16384. temp + of_nat i \<notin> foot n"
    and range: "task_range mb (user_byte mb ptm pm) b count"
    and t: "t + unat c \<le> count" "unat c \<le> 16384" "unat off = pos"
    and D: "D = take (unat c) (drop pos (content n s))"
  shows "\<exists>m1 m2. rd off c temp (n, s) = Some (of_nat (length D), n, s\<lparr>kmem := m1\<rparr>) \<and> length D \<le> 16384 \<and>
    write_memory cpu mb ptm pm (b + of_nat t) temp (of_nat (length D)) m1 = (True, m2) \<and>
    (\<forall>a. 16384 \<le> unat (a - temp) \<longrightarrow> m2 a = user_store (user_byte mb ptm pm) (b + of_nat t) D (kmem s) a) \<and>
    inv n (s\<lparr>kmem := m2\<rparr>) \<and> content n (s\<lparr>kmem := m2\<rparr>) = content n s \<and> window_ok mb temp (s\<lparr>kmem := m2\<rparr>)"
proof -
  note reg = window_region [OF win(1)]
  have "\<forall>i < unat c. temp + of_nat i \<notin> foot n" using win(2) t(2) by simp
  moreover have "unat temp + unat c \<le> 18446744073709551616" using reg t(2) by simp
  ultimately obtain m1 where m1: "rd off c temp (n, s) = Some (of_nat (length D), n, s\<lparr>kmem := m1\<rparr>)"
      "load_bytes m1 temp (length D) = D" "\<forall>a. unat c \<le> unat (a - temp) \<longrightarrow> m1 a = kmem s a"
    using reads [OF i _ t(2), of temp off] unfolding D t(3) by blast
  have len: "length D \<le> unat c" by (simp add: D)
  then have fit: "t + length D \<le> count" "length D \<le> 16384" using t by simp_all
  let ?m2 = "user_store (user_byte mb ptm pm) (b + of_nat t) D m1"
  have w: "write_memory cpu mb ptm pm (b + of_nat t) temp (of_nat (length D)) m1 = (True, ?m2)"
    by (rule copy_out [OF range fit]) (use reg m1(2) in simp_all)
  have outside: "?m2 a = user_store (user_byte mb ptm pm) (b + of_nat t) D (kmem s) a"
    if "16384 \<le> unat (a - temp)" for a
    by (rule user_store_cong) (use m1(3) t(2) that in simp)
  have "?m2 a = kmem s a" if "a \<in> foot n" for a
  proof -
    have "\<not> unat (a - temp) < 16384"
    proof
      assume "unat (a - temp) < 16384"
      with win(2) have "temp + of_nat (unat (a - temp)) \<notin> foot n" by blast
      then show False using that by simp
    qed
    then have "?m2 a = user_store (user_byte mb ptm pm) (b + of_nat t) D (kmem s) a" using outside by simp
    also have "\<dots> = kmem s a" by (rule user_store_outside [OF range fit(1) foot_above [OF i that]])
    finally show ?thesis .
  qed
  then have "inv n (s\<lparr>kmem := ?m2, kheap := kheap s\<rparr>) \<and>
      content n (s\<lparr>kmem := ?m2, kheap := kheap s\<rparr>) = content n s"
    by (intro stable [OF i sound [OF i]]) simp_all
  then have "inv n (s\<lparr>kmem := ?m2\<rparr>) \<and> content n (s\<lparr>kmem := ?m2\<rparr>) = content n s" by simp
  then show ?thesis using m1(1) w outside win(1) fit(2)
    by (intro exI [of _ m1] exI [of _ ?m2]) (simp add: window_ok_def)
qed

text \<open>The position of a turn, as words and as numbers, and what the operation returns there.\<close>

lemma turn_position:
  fixes count off :: u64
  assumes "inv n s" "t \<le> length (take (unat count) (drop (unat off) (content n s)))"
  shows "unat (of_nat t :: u64) = t" "unat (off + of_nat t) = unat off + t" "t \<le> unat count"
    and "unat (count - of_nat t) = unat count - t"
proof -
  show t: "t \<le> unat count" using assms(2) by simp
  then have "t < 18446744073709551616" using unat_lt64 [of count] by linarith
  then show u: "unat (of_nat t :: u64) = t" by (rule unat_of_nat64)
  show "unat (count - of_nat t) = unat count - t"
    using t unat_diff64 [of count "of_nat t"] by (simp only: u if_True)
  show "unat (off + of_nat t) = unat off + t"
  proof (cases "t = 0")
    case False
    then have "unat off + t < 18446744073709551616"
      using False assms(2) content_small [OF assms(1)] unfolding length_take length_drop by linarith
    then show ?thesis by (simp add: unat_add64 u)
  qed simp
qed

lemma loop_turn:
  assumes "inv n s" "window_ok mb temp s" "\<forall>i < 16384. temp + of_nat i \<notin> foot n"
    and "task_range mb (user_byte mb ptm pm) b (unat count)"
    and D: "D = take (unat count) (drop (unat off) (content n s))" "t \<le> length D" and less: "t < unat count"
  obtains c E m1 m2 where "c = window_chunk (count - of_nat t)" "0 < unat c" "E = take (unat c) (drop t D)"
    and "length E = min (unat c) (length D - t)" "of_nat t < count" "length E \<le> 16384"
    and "unat (of_nat (length E) :: u64) = length E"
    and "rd (off + of_nat t) c temp (n, s) = Some (of_nat (length E), n, s\<lparr>kmem := m1\<rparr>)"
    and "write_memory cpu mb ptm pm (b + of_nat t) temp (of_nat (length E)) m1 = (True, m2)"
    and "\<forall>a. 16384 \<le> unat (a - temp) \<longrightarrow> m2 a = user_store (user_byte mb ptm pm) (b + of_nat t) E (kmem s) a"
    and "inv n (s\<lparr>kmem := m2\<rparr>)" "content n (s\<lparr>kmem := m2\<rparr>) = content n s" "window_ok mb temp (s\<lparr>kmem := m2\<rparr>)"
proof -
  note pos = turn_position [OF assms(1) D(2) [unfolded D(1)]]
  define c where "c = window_chunk (count - of_nat t)"
  have c: "unat c = min 16384 (unat count - t)" by (simp add: c_def window_chunk_le pos(4))
  define E where "E = take (unat c) (drop (unat off + t) (content n s))"
  have E: "E = take (unat c) (drop t D)"
    unfolding E_def D(1) by (rule drop_part) (use c pos(3) in simp)
  have fits: "t + unat c \<le> unat count" "unat c \<le> 16384" using c pos(3) by simp_all
  obtain m1 m2 where m: "rd (off + of_nat t) c temp (n, s) = Some (of_nat (length E), n, s\<lparr>kmem := m1\<rparr>)"
      "length E \<le> 16384"
      "write_memory cpu mb ptm pm (b + of_nat t) temp (of_nat (length E)) m1 = (True, m2)"
      "\<forall>a. 16384 \<le> unat (a - temp) \<longrightarrow> m2 a = user_store (user_byte mb ptm pm) (b + of_nat t) E (kmem s) a"
      "inv n (s\<lparr>kmem := m2\<rparr>)" "content n (s\<lparr>kmem := m2\<rparr>) = content n s" "window_ok mb temp (s\<lparr>kmem := m2\<rparr>)"
    using turn [OF assms(1-4) fits pos(2) E_def, where cpu = cpu] by blast
  show thesis
  proof (rule that [OF c_def _ E])
    show "0 < unat c" using c less by simp
    show "length E = min (unat c) (length D - t)" by (simp add: E)
    show "of_nat t < count" using less pos(1) by (simp add: word_less_nat_alt)
    show "unat (of_nat (length E) :: u64) = length E" using m(2) by (intro unat_of_nat64) simp
  qed (rule m)+
qed

lemma pread_loop_spec:
  assumes "inv n s" "window_ok mb temp s" "\<forall>i < 16384. temp + of_nat i \<notin> foot n"
    and "task_range mb (user_byte mb ptm pm) b (unat count)"
    and "D = take (unat count) (drop (unat off) (content n s))" "t \<le> length D"
  shows "\<exists>m. pread_loop cpu mb ptm pm rd b count temp (of_nat t) (off + of_nat t) (n, s) =
      Some (of_nat (length D), n, s\<lparr>kmem := m\<rparr>) \<and>
    (\<forall>a. 16384 \<le> unat (a - temp) \<longrightarrow>
      m a = user_store (user_byte mb ptm pm) (b + of_nat t) (drop t D) (kmem s) a) \<and>
    inv n (s\<lparr>kmem := m\<rparr>) \<and> content n (s\<lparr>kmem := m\<rparr>) = content n s"
  using assms
proof (induction "unat count - t" arbitrary: t s rule: less_induct)
  case less
  let ?ub = "user_byte mb ptm pm" and ?C = "content n s"
  note pos = turn_position [OF less.prems(1) less.prems(6) [unfolded less.prems(5)]]
  have lenD: "length D \<le> unat count" by (simp add: less.prems(5))
  show ?case
  proof (cases "t < unat count")
    case False
    then have "length D = t" "drop t D = []" using pos(3) lenD less.prems(6) by simp_all
    moreover have "\<not> of_nat t < count" using False pos(1) by (simp add: word_less_nat_alt)
    ultimately show ?thesis using less.prems(1)
      by (intro exI [of _ "kmem s"]) (simp add: pread_loop.simps [of _ _ _ _ _ _ _ _ "of_nat t"])
  next
    case True
    obtain c E m1 m2 where c_def: "c = window_chunk (count - of_nat t)" and cpos: "0 < unat c"
      and E: "E = take (unat c) (drop t D)" and lenE: "length E = min (unat c) (length D - t)"
      and less_count: "of_nat t < count" and small: "length E \<le> 16384"
      and lenu: "unat (of_nat (length E) :: u64) = length E"
      and m: "rd (off + of_nat t) c temp (n, s) = Some (of_nat (length E), n, s\<lparr>kmem := m1\<rparr>)"
        "write_memory cpu mb ptm pm (b + of_nat t) temp (of_nat (length E)) m1 = (True, m2)"
        "\<forall>a. 16384 \<le> unat (a - temp) \<longrightarrow> m2 a = user_store ?ub (b + of_nat t) E (kmem s) a"
        "inv n (s\<lparr>kmem := m2\<rparr>)" "content n (s\<lparr>kmem := m2\<rparr>) = ?C" "window_ok mb temp (s\<lparr>kmem := m2\<rparr>)"
      by (rule loop_turn [OF less.prems(1-6) True, where cpu = cpu])
    have step: "pread_loop cpu mb ptm pm rd b count temp (of_nat t) (off + of_nat t) (n, s) =
      (if length E = 0 then Some (of_nat t, n, s\<lparr>kmem := m1\<rparr>)
       else if length E < unat c then Some (of_nat (t + length E), n, s\<lparr>kmem := m2\<rparr>)
       else pread_loop cpu mb ptm pm rd b count temp (of_nat (t + length E)) (off + of_nat (t + length E))
         (n, s\<lparr>kmem := m2\<rparr>))"
      using m(1,2) less_count
      by (subst pread_loop.simps) (simp add: Let_def c_def [symmetric] scast_count [OF small] word_less_nat_alt lenu add.assoc)
    show ?thesis
    proof (cases "length E < unat c")
      case False
      then have lt: "length E = unat c" "t + length E \<le> length D" using lenE cpos by auto
      have smaller: "unat count - (t + length E) < unat count - t" using True cpos lt(1) by simp
      have D2: "D = take (unat count) (drop (unat off) (content n (s\<lparr>kmem := m2\<rparr>)))"
        using m(5) less.prems(5) by simp
      from less.hyps [OF smaller m(4,6) less.prems(3,4) D2 lt(2)] obtain m3 where
        m3: "pread_loop cpu mb ptm pm rd b count temp (of_nat (t + length E)) (off + of_nat (t + length E))
            (n, s\<lparr>kmem := m2\<rparr>) = Some (of_nat (length D), n, s\<lparr>kmem := m3\<rparr>)"
          "\<forall>a. 16384 \<le> unat (a - temp) \<longrightarrow>
            m3 a = user_store ?ub (b + of_nat (t + length E)) (drop (t + length E) D) m2 a"
          "inv n (s\<lparr>kmem := m3\<rparr>)" "content n (s\<lparr>kmem := m3\<rparr>) = ?C"
        using m(5) by auto
      have whole: "E @ drop (t + length E) D = drop t D"
        unfolding E lt(1) [unfolded E] using append_take_drop_id [of "unat c" "drop t D"]
        by (simp add: add.commute lt(1) [unfolded E, simplified])
      have "m3 a = user_store ?ub (b + of_nat t) (drop t D) (kmem s) a" if "16384 \<le> unat (a - temp)" for a
      proof -
        have "m3 a = user_store ?ub (b + of_nat (t + length E)) (drop (t + length E) D) m2 a" using m3(2) that by blast
        also have "\<dots> = user_store ?ub (b + of_nat (t + length E)) (drop (t + length E) D)
            (user_store ?ub (b + of_nat t) E (kmem s)) a"
          by (rule user_store_cong) (use m(3) that in blast)
        also have "\<dots> = user_store ?ub (b + of_nat t) (E @ drop (t + length E) D) (kmem s) a"
          by (simp add: user_store_append add.assoc)
        finally show ?thesis unfolding whole .
      qed
      then show ?thesis using step False cpos lt(1) m3 by (intro exI [of _ m3]) simp
    next
      case True
      then have short: "length E = length D - t" "E = drop t D" using lenE by (simp_all add: E)
      have res: "pread_loop cpu mb ptm pm rd b count temp (of_nat t) (off + of_nat t) (n, s) =
        Some (of_nat (length D), n, s\<lparr>kmem := m2\<rparr>)"
      proof (cases "length E = 0")
        case True
        then have "m2 = m1" using m(2) by (simp add: write_memory_def write_memory_loop.simps)
        moreover have "length D = t" using True short(1) less.prems(6) by simp
        ultimately show ?thesis using step True by simp
      next
        case False
        then show ?thesis using step True short(1) less.prems(6) by simp
      qed
      then show ?thesis using m(3-5) unfolding short(2) by blast
    qed
  qed
qed

text \<open>A descriptor that may block, or has data, reads as \<^verbatim>\<open>pread\<close> does and moves its offset.\<close>

lemma read_loop_pread:
  assumes "inv n s" "window_ok mb temp s" "\<forall>i < 16384. temp + of_nat i \<notin> foot n"
    and "task_range mb (user_byte mb ptm pm) b (unat count)"
    and "D = take (unat count) (drop (unat off) (content n s))" "t \<le> length D"
    and gate: "fd_flags ofd AND O_NONBLOCK \<noteq> O_NONBLOCK \<or> ready n"
  shows "read_loop cpu mb ptm pm rd ready b count temp (of_nat t) (ofd\<lparr>fd_offset := off + of_nat t\<rparr>) (n, s) =
    map_option (\<lambda>(r, ns). (r, ofd\<lparr>fd_offset := off + of_nat (length D)\<rparr>, True, ns))
      (pread_loop cpu mb ptm pm rd b count temp (of_nat t) (off + of_nat t) (n, s))"
  using assms(1-6)
proof (induction "unat count - t" arbitrary: t s rule: less_induct)
  case less
  note pos = turn_position [OF less.prems(1) less.prems(6) [unfolded less.prems(5)]]
  have lenD: "length D \<le> unat count" by (simp add: less.prems(5))
  show ?case
  proof (cases "t < unat count")
    case False
    then have "length D = t" using pos(3) lenD less.prems(6) by simp
    moreover have "\<not> of_nat t < count" using False pos(1) by (simp add: word_less_nat_alt)
    ultimately show ?thesis
      by (simp add: pread_loop.simps [of _ _ _ _ _ _ _ _ "of_nat t"] read_loop.simps [of _ _ _ _ _ _ _ _ _ "of_nat t"])
  next
    case True
    obtain c E m1 m2 where c_def: "c = window_chunk (count - of_nat t)" and cpos: "0 < unat c"
      and E: "E = take (unat c) (drop t D)" and lenE: "length E = min (unat c) (length D - t)"
      and less_count: "of_nat t < count" and small: "length E \<le> 16384"
      and lenu: "unat (of_nat (length E) :: u64) = length E"
      and m: "rd (off + of_nat t) c temp (n, s) = Some (of_nat (length E), n, s\<lparr>kmem := m1\<rparr>)"
        "write_memory cpu mb ptm pm (b + of_nat t) temp (of_nat (length E)) m1 = (True, m2)"
      and after: "inv n (s\<lparr>kmem := m2\<rparr>)" "content n (s\<lparr>kmem := m2\<rparr>) = content n s" "window_ok mb temp (s\<lparr>kmem := m2\<rparr>)"
      by (rule loop_turn [OF less.prems(1-6) True, where cpu = cpu])
    have pread: "pread_loop cpu mb ptm pm rd b count temp (of_nat t) (off + of_nat t) (n, s) =
      (if length E = 0 then Some (of_nat t, n, s\<lparr>kmem := m1\<rparr>)
       else if length E < unat c then Some (of_nat (t + length E), n, s\<lparr>kmem := m2\<rparr>)
       else pread_loop cpu mb ptm pm rd b count temp (of_nat (t + length E)) (off + of_nat (t + length E))
         (n, s\<lparr>kmem := m2\<rparr>))"
      using m less_count
      by (subst pread_loop.simps) (simp add: Let_def c_def [symmetric] scast_count [OF small] word_less_nat_alt lenu add.assoc)
    have read: "read_loop cpu mb ptm pm rd ready b count temp (of_nat t) (ofd\<lparr>fd_offset := off + of_nat t\<rparr>) (n, s) =
      (if length E = 0 then Some (of_nat t, ofd\<lparr>fd_offset := off + of_nat t\<rparr>, True, n, s\<lparr>kmem := m1\<rparr>)
       else if length E < unat c
       then Some (of_nat (t + length E), ofd\<lparr>fd_offset := off + of_nat (t + length E)\<rparr>, True, n, s\<lparr>kmem := m2\<rparr>)
       else read_loop cpu mb ptm pm rd ready b count temp (of_nat (t + length E))
         (ofd\<lparr>fd_offset := off + of_nat (t + length E)\<rparr>) (n, s\<lparr>kmem := m2\<rparr>))"
      using m less_count gate
      by (subst read_loop.simps) (auto simp add: Let_def c_def [symmetric] scast_count [OF small] word_less_nat_alt lenu add.assoc)
    show ?thesis
    proof (cases "length E < unat c")
      case True
      then have "t + length E = length D" using lenE less.prems(6) by simp
      then show ?thesis unfolding pread read using True by auto
    next
      case False
      then have lt: "length E = unat c" "t + length E \<le> length D" using lenE cpos by auto
      have smaller: "unat count - (t + length E) < unat count - t" using True cpos lt(1) by simp
      have "D = take (unat count) (drop (unat off) (content n (s\<lparr>kmem := m2\<rparr>)))"
        using after(2) less.prems(5) by simp
      from less.hyps [OF smaller after(1,3) less.prems(3,4) this lt(2)]
      show ?thesis unfolding pread read using False cpos lt(1) by simp
    qed
  qed
qed

text \<open>Growing the heap leaves the footprint alone.\<close>

lemma foot_keep:
  assumes i: "inv n s" and x: "x \<in> foot n" and same: "same_heap_bytes (kheap s) m m'"
  shows "m' x = m x"
proof -
  from foot_live [OF i x] obtain p l where l: "(p, l) \<in> heap_live mb (kheap s)" "unat (x - p) < unat l" by blast
  note w = live_window [OF sound [OF i] l(1)]
  have "unat p + unat (x - p) < 18446744073709551616"
    using l(2) w unat_lt64 [of "LastHeapAddress (kheap s)"] by linarith
  then have "unat x = unat p + unat (x - p)" using unat_add64 [of p "x - p"] by simp
  then have "heap_start (kheap s) \<le> x" "x < LastHeapAddress (kheap s)"
    using w l(2) by (simp_all add: word_le_nat_alt word_less_nat_alt)
  then show ?thesis using same by (simp add: same_heap_bytes_def)
qed

text \<open>The whole calls: the window is fresh, and giving it back leaves the live blocks as they were.\<close>

lemma pread_contents:
  assumes i: "inv n s" and room: "heap_room READ_WINDOW (kheap s)"
    and range: "task_range mb (user_byte mb ptm pm) b (unat count)"
    and D: "D = take (unat count) (drop (unat off) (content n s))"
  shows "\<exists>s'. sys_pread64 cpu mb ptm pm rd (Some fd) False b count off (n, s) = Some (of_nat (length D), n, s') \<and>
    user_bytes (user_byte mb ptm pm) b (length D) (kmem s') = D \<and>
    (\<forall>a. unat a < unat (HEAP_BASE mb) \<longrightarrow>
      kmem s' a = user_store (user_byte mb ptm pm) b D (grown_memory (kheap s) (kheap s') (kmem s)) a) \<and>
    (has_fit mb READ_WINDOW (kheap s) \<longrightarrow> same_window (kheap s) (kheap s')) \<and>
    inv n s' \<and> content n s' = content n s \<and> heap_live mb (kheap s') = heap_live mb (kheap s) \<and>
    (fd_flags fd AND O_NONBLOCK \<noteq> O_NONBLOCK \<or> ready n \<longrightarrow>
      sys_read cpu mb ptm pm rd ready (Some (fd\<lparr>fd_offset := off\<rparr>)) False b count (n, s) =
        Some (of_nat (length D), Some (fd\<lparr>fd_offset := off + of_nat (length D)\<rparr>), n, s'))"
proof -
  let ?ub = "user_byte mb ptm pm"
  obtain temp h1 k where a: "malloc mb READ_WINDOW (kheap s) = Some (temp, h1)" "heap_sound mb h1"
      "READ_WINDOW \<le> k" "temp \<noteq> 0" "(temp, k) \<notin> heap_live mb (kheap s)"
      "heap_live mb h1 = insert (temp, k) (heap_live mb (kheap s))"
    using malloc_sound [OF sound [OF i] room] by blast
  have k: "16384 \<le> unat k" using a(3) by (simp add: READ_WINDOW_def word_le_nat_alt)
  define m0 where "m0 = grown_memory (kheap s) h1 (kmem s)"
  define s1 where "s1 = s\<lparr>kmem := m0, kheap := h1\<rparr>"
  have alloc: "kmalloc mb READ_WINDOW s = Some (temp, s1)" by (simp add: kmalloc_def a(1) s1_def m0_def)
  have keep: "m0 x = kmem s x" if "x \<in> foot n" for x
    using foot_keep [OF i that grown_memory_same [OF sound [OF i] a(2)]] by (simp add: m0_def)
  have win: "window_ok mb temp s1" using a(2,6) k by (auto simp: window_ok_def s1_def)
  note reg = window_region [OF win]
  have "inv n (s\<lparr>kmem := m0, kheap := h1\<rparr>) \<and> content n (s\<lparr>kmem := m0, kheap := h1\<rparr>) = content n s"
    by (rule stable [OF i a(2)]) (use a(6) keep in auto)
  then have i1: "inv n s1" "content n s1 = content n s" by (simp_all add: s1_def)
  have away: "\<forall>j < 16384. temp + of_nat j \<notin> foot n"
  proof (intro allI impI notI)
    fix j :: nat assume j: "j < 16384" "temp + of_nat j \<in> foot n"
    from foot_live [OF i j(2)] obtain p l where l: "(p, l) \<in> heap_live mb (kheap s)"
      "unat (temp + of_nat j - p) < unat l" by blast
    have both: "(p, l) \<in> heap_live mb h1" "(temp, k) \<in> heap_live mb h1" "(p, l) \<noteq> (temp, k)"
      using l(1) a(5,6) by auto
    have apart: "unat temp + unat k \<le> unat p \<or> unat p + unat l \<le> unat temp"
      using kernel_heap.apart [OF a(2) both(1,2)] both(3) by blast
    have "unat (temp + of_nat j) = unat temp + j"
      using reg j(1) by (subst unat_add64) (simp_all add: unat_of_nat64)
    then show False using l(2) apart k j(1) reg live_above [OF a(2) both(1)]
      unfolding unat_diff64 by (auto split: if_splits)
  qed
  have D1: "D = take (unat count) (drop (unat off) (content n s1))" using D i1(2) by simp
  obtain m where m: "pread_loop cpu mb ptm pm rd b count temp 0 off (n, s1) = Some (of_nat (length D), n, s1\<lparr>kmem := m\<rparr>)"
      "\<forall>a. 16384 \<le> unat (a - temp) \<longrightarrow> m a = user_store ?ub b D (kmem s1) a"
      "inv n (s1\<lparr>kmem := m\<rparr>)" "content n (s1\<lparr>kmem := m\<rparr>) = content n s1"
    using pread_loop_spec [OF i1(1) win away range D1, of 0 cpu] by auto
  define s' where "s' = s\<lparr>kmem := m, kheap := free mb temp h1\<rparr>"
  have "(temp, k) \<in> heap_live mb h1" using a(6) by simp
  from kernel_heap.dealloc_law [OF a(2) this]
  have h: "heap_sound mb (free mb temp h1)" "heap_live mb (free mb temp h1) = heap_live mb (kheap s)"
    using a(5,6) by auto
  have grown: "grown_memory (kheap s) (kheap s') (kmem s) = m0"
    by (simp add: s'_def m0_def grown_memory_window [OF same_window_free])
  have same: "same_window (kheap s) (kheap s')" if "has_fit mb READ_WINDOW (kheap s)"
    using malloc_fit [OF that] a(1) same_window_free [of h1 mb temp]
    by (auto simp: READ_WINDOW_def same_window_def s'_def)
  have low: "kmem s' a = user_store ?ub b D m0 a" if "unat a < unat (HEAP_BASE mb)" for a
  proof -
    have "16384 \<le> unat (a - temp)" using that reg unfolding unat_diff64 by auto
    then show ?thesis using m(2) by (simp add: s'_def s1_def)
  qed
  have D_le: "length D \<le> unat count" by (simp add: D)
  have sub: "user_range ?ub b (length D)"
    using range D_le unfolding task_range_def user_range_def
    by (auto elim!: inj_on_subset)
  have "user_bytes ?ub b (length D) (kmem s') = user_bytes ?ub b (length D) (user_store ?ub b D m0)"
    unfolding user_bytes_def
  proof (rule map_cong [OF refl])
    fix j assume "j \<in> set [0..<length D]"
    then have "j < unat count" using D_le by simp
    then obtain p where "?ub (b + of_nat j) = Some p" "unat p < unat (HEAP_BASE mb)"
      using range unfolding task_range_def user_range_def by blast
    then show "kmem s' (the (?ub (b + of_nat j))) = user_store ?ub b D m0 (the (?ub (b + of_nat j)))"
      using low by simp
  qed
  also have "\<dots> = D" by (rule user_store_range [OF sub])
  finally have bytes: "user_bytes ?ub b (length D) (kmem s') = D" .
  have "m a = kmem s a" if "a \<in> foot n" for a
  proof -
    have "\<not> unat (a - temp) < 16384"
    proof
      assume "unat (a - temp) < 16384"
      with away have "temp + of_nat (unat (a - temp)) \<notin> foot n" by blast
      then show False using that by simp
    qed
    then have "m a = user_store ?ub (b + of_nat 0) D m0 a" using m(2) by (simp add: s1_def)
    also have "\<dots> = m0 a"
      by (rule user_store_outside [OF range _ foot_above [OF i that]]) (simp add: D_le)
    also have "\<dots> = kmem s a" by (rule keep [OF that])
    finally show ?thesis .
  qed
  then have "inv n s' \<and> content n s' = content n s"
    unfolding s'_def using h by (intro stable [OF i]) auto
  moreover have "sys_pread64 cpu mb ptm pm rd (Some fd) False b count off (n, s) = Some (of_nat (length D), n, s')"
    using alloc a(4) m(1) by (simp add: sys_pread64_def) (simp add: s1_def s'_def)
  moreover have "sys_read cpu mb ptm pm rd ready (Some (fd\<lparr>fd_offset := off\<rparr>)) False b count (n, s) =
      Some (of_nat (length D), Some (fd\<lparr>fd_offset := off + of_nat (length D)\<rparr>), n, s')"
    if "fd_flags fd AND O_NONBLOCK \<noteq> O_NONBLOCK \<or> ready n"
    using read_loop_pread [where ready = ready and ofd = fd, OF i1(1) win away range D1 _ that, of 0 cpu] alloc a(4) m(1)
    by (simp add: sys_read_def) (simp add: s1_def s'_def)
  moreover have "heap_live mb (kheap s') = heap_live mb (kheap s)" using h(2) by (simp add: s'_def)
  moreover have "\<forall>a. unat a < unat (HEAP_BASE mb) \<longrightarrow>
      kmem s' a = user_store ?ub b D (grown_memory (kheap s) (kheap s') (kmem s)) a"
    unfolding grown using low by blast
  ultimately show ?thesis using bytes same by blast
qed

end

subsection \<open>Files in memory can be read\<close>

definition memfs_rd :: "cpu_features \<Rightarrow> memfs_vnode node_read" where
  "memfs_rd cpu off len buf ns =
     (let (ret, s) = memfs_read cpu off len buf (fst ns) (snd ns) in Some (ret, fst ns, s))"

definition memfs_inv :: "u64 \<Rightarrow> memfs_vnode \<Rightarrow> kernel \<Rightarrow> bool" where
  "memfs_inv mb n s \<longleftrightarrow> \<not> is_dir n \<and> file_ok mb s (mfile n)"

definition memfs_content :: "memfs_vnode \<Rightarrow> kernel \<Rightarrow> u8 list" where
  "memfs_content n s = file_bytes s (mfile n)"

definition memfs_foot :: "memfs_vnode \<Rightarrow> addr set" where
  "memfs_foot n = {a. unat (a - fbuffer (mfile n)) < unat (fsize (mfile n))}"

lemma foot_byte: "i < unat (fsize (mfile n)) \<Longrightarrow> fbuffer (mfile n) + of_nat i \<in> memfs_foot n"
proof -
  assume i: "i < unat (fsize (mfile n))"
  then have "unat (of_nat i :: u64) = i" using unat_lt64 [of "fsize (mfile n)"] by (intro unat_of_nat64) linarith
  then show ?thesis using i by (simp add: memfs_foot_def)
qed

lemma memfs_foot_live:
  assumes "memfs_inv mb n s" "a \<in> memfs_foot n"
  shows "\<exists>p k. (p, k) \<in> heap_live mb (kheap s) \<and> unat (a - p) < unat k"
proof -
  have "fbuffer (mfile n) \<noteq> 0" using assms by (auto simp: memfs_inv_def memfs_foot_def file_ok_def)
  then obtain k where "(fbuffer (mfile n), k) \<in> heap_live mb (kheap s)" "fsize (mfile n) \<le> k"
    using assms(1) by (auto simp: memfs_inv_def file_ok_def)
  then show ?thesis using assms(2) by (force simp: memfs_foot_def word_le_nat_alt)
qed

lemma memfs_stable:
  assumes "memfs_inv mb n s" "heap_sound mb h" "heap_live mb (kheap s) \<subseteq> heap_live mb h"
    and "\<forall>a \<in> memfs_foot n. m a = kmem s a"
  shows "memfs_inv mb n (s\<lparr>kmem := m, kheap := h\<rparr>) \<and>
    memfs_content n (s\<lparr>kmem := m, kheap := h\<rparr>) = memfs_content n s"
proof
  show "memfs_inv mb n (s\<lparr>kmem := m, kheap := h\<rparr>)"
    using assms(1-3) by (auto simp: memfs_inv_def file_ok_def split: if_splits)
  show "memfs_content n (s\<lparr>kmem := m, kheap := h\<rparr>) = memfs_content n s"
    unfolding memfs_content_def file_bytes_def
    by (rule load_bytes_cong) (use assms(4) foot_byte in simp)
qed

lemma memfs_reads:
  assumes i: "memfs_inv mb n s" and away: "\<forall>i < unat len. buf + of_nat i \<notin> memfs_foot n" and D_def: "D = take (unat len) (drop (unat off) (memfs_content n s))"
  shows "\<exists>m. memfs_rd cpu off len buf (n, s) = Some (of_nat (length D), n, s\<lparr>kmem := m\<rparr>) \<and>
    load_bytes m buf (length D) = D \<and> (\<forall>a. unat len \<le> unat (a - buf) \<longrightarrow> m a = kmem s a)"
proof (cases "off \<ge> fsize (mfile n)")
  case True
  then have "D = []" by (simp add: D_def memfs_content_def length_file_bytes word_le_nat_alt)
  then show ?thesis using True i
    by (intro exI [of _ "kmem s"]) (simp add: memfs_rd_def memfs_read_def memfs_inv_def EOF_result_def load_bytes_def)
next
  case False
  let ?f = "mfile n"
  define k where "k = min64 (fsize ?f - off) len"
  have off: "unat off < unat (fsize ?f)" using False by (simp add: word_le_nat_alt)
  then have rem: "unat (fsize ?f - off) = unat (fsize ?f) - unat off"
    by (simp add: unat_sub64 word_le_nat_alt)
  have k: "unat k = min (unat (fsize ?f) - unat off) (unat len)" by (simp add: k_def unat_min64 rem)
  have "up_ok buf (fbuffer ?f + off) (unat k)"
  proof (rule ccontr)
    assume "\<not> up_ok buf (fbuffer ?f + off) (unat k)"
    then have d: "unat (buf - (fbuffer ?f + off)) < unat k" by (simp add: up_ok_def)
    then have "unat off + unat (buf - (fbuffer ?f + off)) < unat (fsize ?f)" using k off by linarith
    from foot_byte [OF this] have "buf \<in> memfs_foot n" by simp
    moreover have "buf + of_nat 0 \<notin> memfs_foot n" using away d k by (metis less_nat_zero_code min_less_iff_conj not_gr_zero)
    ultimately show False by simp
  qed
  then have copy: "memcpy cpu buf (fbuffer ?f + off) k (kmem s) = mem_copy buf (fbuffer ?f + off) (unat k) (kmem s)"
    by (rule memcpy_mem_copy)
  have D: "D = load_bytes (kmem s) (fbuffer ?f + off) (unat k)"
  proof (rule nth_equalityI)
    show "length D = length (load_bytes (kmem s) (fbuffer ?f + off) (unat k))"
      by (simp add: D_def memfs_content_def length_file_bytes k min.commute)
    fix j assume j: "j < length D"
    then have "unat off + j < unat (fsize ?f)" using k off by (simp add: D_def memfs_content_def length_file_bytes) linarith
    then show "D ! j = load_bytes (kmem s) (fbuffer ?f + off) (unat k) ! j"
      using k j by (simp add: D_def memfs_content_def file_bytes_def add.assoc)
  qed
  have ret: "(ucast k :: u32) = of_nat (length D)" by (simp add: D)
  have "memfs_rd cpu off len buf (n, s) =
      Some (of_nat (length D), n, s\<lparr>kmem := mem_copy buf (fbuffer ?f + off) (unat k) (kmem s)\<rparr>)"
    using i False copy ret by (simp add: memfs_rd_def memfs_read_def memfs_inv_def Let_def k_def [symmetric])
  moreover have "load_bytes (mem_copy buf (fbuffer ?f + off) (unat k) (kmem s)) buf (length D) = D"
    using D by (simp add: mem_copy_load)
  moreover have "\<forall>a. unat len \<le> unat (a - buf) \<longrightarrow> mem_copy buf (fbuffer ?f + off) (unat k) (kmem s) a = kmem s a"
    using k by (simp add: mem_copy_def)
  ultimately show ?thesis by blast
qed

interpretation memfs_node: readable_node mb "memfs_rd cpu" "memfs_inv mb" memfs_content memfs_foot for mb cpu
proof
  fix n s assume i: "memfs_inv mb n s"
  then show "heap_sound mb (kheap s)" by (simp add: memfs_inv_def file_ok_def)
  show "length (memfs_content n s) < 18446744073709551616" by (simp add: memfs_content_def length_file_bytes)
qed (use memfs_foot_live memfs_stable memfs_reads [OF _ _ refl] in blast)+


text \<open>\<^verbatim>\<open>sys_read\<close> is \<^verbatim>\<open>sys_pread64\<close> at the offset of the descriptor, which then moves by
  the number of bytes read: for a file in memory and a descriptor that may block or has data, both
  calls return the same and leave the same kernel state.\<close>

theorem read_is_pread:
  assumes "\<not> is_dir node" "file_ok mb s (mfile node)" "heap_room READ_WINDOW (kheap s)"
    and "task_range mb (user_byte mb ptm pm) buffer (unat count)"
    and "fd_flags fd AND O_NONBLOCK \<noteq> O_NONBLOCK \<or> ready node"
  shows "\<exists>ret s'. sys_pread64 cpu mb ptm pm (memfs_rd cpu) (Some fd) False buffer count (fd_offset fd) (node, s) =
      Some (ret, node, s') \<and>
    sys_read cpu mb ptm pm (memfs_rd cpu) ready (Some fd) False buffer count (node, s) =
      Some (ret, Some (fd\<lparr>fd_offset := fd_offset fd + ret\<rparr>), node, s')"
proof -
  have i: "memfs_inv mb node s" using assms(1,2) by (simp add: memfs_inv_def)
  define D where "D = take (unat count) (drop (unat (fd_offset fd)) (memfs_content node s))"
  have "fd\<lparr>fd_offset := fd_offset fd\<rparr> = fd" by simp
  then show ?thesis
    using memfs_node.pread_contents [OF i assms(3,4) D_def, of cpu cpu fd ready] assms(5)
    by metis
qed

subsection \<open>An example\<close>

text \<open>A heap whose only block holds the bytes of a file of four bytes.\<close>

definition file_heap :: heap_state where
  "file_heap = example_heap\<lparr>headers := (\<lambda>_. zero_header)(0xffff900000000000 :=
       \<lparr>hdr_magic = heap_magic, hdr_previous = 0, hdr_next = 0, hdr_size = 0xfd0, hdr_free = False\<rparr>),
     heap_used := used_bytes [(0xfd0, False)]\<rparr>"

definition file_kernel :: kernel where
  "file_kernel = example_kernel\<lparr>kheap := file_heap\<rparr>"

definition file_node :: memfs_vnode where
  "file_node = \<lparr>is_dir = False, vnode_size = 4,
     mfile = \<lparr>fbuffer = 0xffff900000000030, fsize = 4, to_be_removed = False\<rparr>\<rparr>"

lemma file_heap_ok: "heap_ok 0xffff800000000000 file_heap [(0xfd0, False)]"
proof -
  have "(16 :: nat) dvd 4048" "(16 :: nat) dvd 18446620654684438528" by presburger+
  then show ?thesis
    by (simp add: heap_ok_def heap_shape_def blocks_ok_def file_heap_def example_heap_def room_def link_def HEAP_BASE_def)
qed

lemma file_node_ok: "file_ok 0xffff800000000000 file_kernel (mfile file_node)"
proof -
  have "heap_live 0xffff800000000000 file_heap = live (heap_start file_heap) [(0xfd0, False)]"
    by (rule heap_live_eq [OF file_heap_ok])
  then have "(0xffff900000000030, 0xfd0) \<in> heap_live 0xffff800000000000 file_heap"
    by (simp add: file_heap_def example_heap_def)
  moreover have "heap_sound 0xffff800000000000 file_heap"
    using file_heap_ok one_page_backed
    by (auto simp: heap_sound_def heap_backed_def file_heap_def example_heap_def)
  ultimately show ?thesis by (auto simp: file_ok_def file_kernel_def file_node_def)
qed

lemma file_node_plain: "\<not> is_dir file_node"
  by (simp add: file_node_def)


lemma file_kernel_room: "heap_room READ_WINDOW (kheap file_kernel)"
proof -
  have "heap_room READ_WINDOW example_heap"
  proof -
    have "unat (round16 READ_WINDOW) \<le> 16399" using round16_bounds(3) [of READ_WINDOW] by (simp add: READ_WINDOW_def)
    then have "growth_pages READ_WINDOW \<le> 9" unfolding growth_pages_def by simp
    then show ?thesis using one_page_backed by (simp add: heap_room_def example_heap_def READ_WINDOW_def)
  qed
  then show ?thesis by (simp add: heap_room_def file_kernel_def file_heap_def)
qed

lemma flat_task_range: "task_range 0xffff800000000000 (user_byte 0xffff800000000000 example_ptm flat_mem) 0x400000 4"
proof -
  have "unat (0xffff800000005000 + of_nat i :: u64) < unat (HEAP_BASE 0xffff800000000000)" if "i < 4" for i :: nat
    using that by (subst unat_add64) (simp_all add: unat_of_nat64 HEAP_BASE_def)
  then show ?thesis using flat_range by (simp add: task_range_def flat_page)
qed

abbreviation plain_cpu :: cpu_features where
  "plain_cpu \<equiv> \<lparr>is_sse_enabled = False, is_avx_enabled = False, is_avx2_enabled = False, is_avx512_enabled = False\<rparr>"

abbreviation file_fd :: fd_t where
  "file_fd \<equiv> \<lparr>fd_node = 1, fd_flags = 0, fd_num = 3, fd_offset = 1\<rparr>"


lemma read_is_pread_witness:
  "\<exists>ret s'. sys_pread64 plain_cpu 0xffff800000000000 example_ptm flat_mem (memfs_rd plain_cpu) (Some file_fd) False
      0x400000 4 1 (file_node, file_kernel) = Some (ret, file_node, s') \<and>
    sys_read plain_cpu 0xffff800000000000 example_ptm flat_mem (memfs_rd plain_cpu) (\<lambda>_. True) (Some file_fd) False
      0x400000 4 (file_node, file_kernel) =
      Some (ret, Some (file_fd\<lparr>fd_offset := 1 + ret\<rparr>), file_node, s')"
proof -
  have "task_range 0xffff800000000000 (user_byte 0xffff800000000000 example_ptm flat_mem) 0x400000 (unat (4 :: u64))"
    using flat_task_range by simp
  from read_is_pread [OF file_node_plain file_node_ok file_kernel_room this, of file_fd "\<lambda>_. True" plain_cpu] show ?thesis
    by auto
qed

end
