(* ===== verification/Fat_Names.thy ===== *)
theory Fat_Names
  imports CStr
begin

text \<open>
  File names of FAT32 (filesystem/fat32/fat32_helpers.cpp and the part of \<^verbatim>\<open>_link_entry\<close> in fat32.cpp that
  splits a long name): the test for a short name, its 8.3 form with the two case flags and back, and
  the chain of long name entries and back. The theory shows both round trips, with the one kind of
  short name that does not survive, and that the parser never leaves its buffer.

  A name is the list of its bytes before the terminator.
\<close>

subsection \<open>Short names\<close>

definition is_upper_char :: "u8 \<Rightarrow> bool" where "is_upper_char c \<longleftrightarrow> 65 \<le> c \<and> c \<le> 90"
definition is_lower_char :: "u8 \<Rightarrow> bool" where "is_lower_char c \<longleftrightarrow> 97 \<le> c \<and> c \<le> 122"
definition is_digit_char :: "u8 \<Rightarrow> bool" where "is_digit_char c \<longleftrightarrow> 48 \<le> c \<and> c \<le> 57"

text \<open>The characters of the string \<^verbatim>\<open>$%'-_@~`!(){}^#&\<close>.\<close>

definition specials :: "u8 list" where
  "specials = [36, 37, 39, 45, 95, 64, 126, 96, 33, 40, 41, 123, 125, 94, 35, 38]"

definition valid_char :: "u8 \<Rightarrow> bool" where
  "valid_char c \<longleftrightarrow> is_upper_char c \<or> is_lower_char c \<or> is_digit_char c \<or> c \<in> set specials"

text \<open>The loop over the base name, up to a dot: the rest at which it stops, or \<open>None\<close> for an invalid
  character.\<close>

fun scan_base :: "u8 list \<Rightarrow> bool \<Rightarrow> bool \<Rightarrow> (u8 list \<times> bool \<times> bool) option" where
  "scan_base [] up low = Some ([], up, low)"
| "scan_base (c # cs) up low =
     (if c = 46 then Some (c # cs, up, low)
      else if \<not> valid_char c then None
      else scan_base cs (up \<or> is_upper_char c) (low \<or> is_lower_char c))"

fun scan_ext :: "u8 list \<Rightarrow> bool \<Rightarrow> bool \<Rightarrow> (bool \<times> bool) option" where
  "scan_ext [] up low = Some (up, low)"
| "scan_ext (c # cs) up low =
     (if \<not> valid_char c then None
      else scan_ext cs (up \<or> is_upper_char c) (low \<or> is_lower_char c))"

definition is_valid_8_3 :: "u8 list \<Rightarrow> bool" where
  "is_valid_8_3 name =
     (if length name > 12 then False
      else case scan_base name False False of
        None \<Rightarrow> False
      | Some (rest, base_up, base_low) \<Rightarrow>
          let base_len = length name - length rest in
          if base_len = 0 \<or> base_len > 8 then False
          else if base_up \<and> base_low then False
          else case rest of
            [] \<Rightarrow> True
          | dot # ext \<Rightarrow>
              (case scan_ext ext False False of
                 None \<Rightarrow> False
               | Some (ext_up, ext_low) \<Rightarrow> \<not> length ext > 3 \<and> \<not> (ext_up \<and> ext_low)))"

definition FAT_LC_BASENAME :: u8 where "FAT_LC_BASENAME = 0x08"
definition FAT_LC_EXTENSION :: u8 where "FAT_LC_EXTENSION = 0x10"

text \<open>One character goes to the output in upper case and may set the flag.\<close>

definition upper_char :: "u8 \<Rightarrow> u8" where
  "upper_char c = (if is_lower_char c then c - 32 else c)"

fun format_base :: "u8 list \<Rightarrow> nat \<Rightarrow> u8 list \<Rightarrow> u8 \<Rightarrow> u8 list \<times> u8" where
  "format_base [] j out nt = (out, nt)"
| "format_base (c # cs) j out nt =
     (if c \<noteq> 46 \<and> j < 8
      then format_base cs (j + 1) (out[j := upper_char c]) (if is_lower_char c then nt OR FAT_LC_BASENAME else nt)
      else (out, nt))"

fun format_ext :: "u8 list \<Rightarrow> nat \<Rightarrow> u8 list \<Rightarrow> u8 \<Rightarrow> u8 list \<times> u8" where
  "format_ext [] k out nt = (out, nt)"
| "format_ext (c # cs) k out nt =
     (if k < 11
      then format_ext cs (k + 1) (out[k := upper_char c]) (if is_lower_char c then nt OR FAT_LC_EXTENSION else nt)
      else (out, nt))"

definition format_8_3 :: "u8 list \<Rightarrow> u8 list \<times> u8" where
  "format_8_3 input =
     (let (out, nt) = format_base input 0 (replicate 11 32) 0
      in case dropWhile (\<lambda>c. c \<noteq> 46) input of
           [] \<Rightarrow> (out, nt)
         | dot # ext \<Rightarrow> format_ext ext 8 out nt)"

text \<open>Reading a directory entry's name back.\<close>

definition parse_sfn :: "u8 list \<Rightarrow> u8 \<Rightarrow> u8 list" where
  "parse_sfn sfn nt_flags =
     (let base = takeWhile (\<lambda>c. c \<noteq> 32) (take 8 sfn);
          base' = map (\<lambda>c. if nt_flags AND 0x08 \<noteq> 0 then tolower c else c) base;
          e = take 3 (drop 8 sfn);
          has_ext = (\<exists>c \<in> set e. c \<noteq> 32)
      in if has_ext
         then base' @ [46] @ map (\<lambda>c. if nt_flags AND 0x10 \<noteq> 0 then tolower c else c) (takeWhile (\<lambda>c. c \<noteq> 32) e)
         else base')"

text \<open>The short name that stands beside a long one, and its checksum.\<close>

fun sfn_base :: "u8 list \<Rightarrow> nat \<Rightarrow> u8 list \<Rightarrow> u8 list" where
  "sfn_base [] j out = out"
| "sfn_base (c # cs) j out =
     (if \<not> j < 6 then out
      else if c = 46 then sfn_base cs j out
      else sfn_base cs (j + 1) (out[j := upper_char c]))"

fun sfn_ext :: "u8 list \<Rightarrow> nat \<Rightarrow> u8 list \<Rightarrow> u8 list" where
  "sfn_ext [] k out = out"
| "sfn_ext (c # cs) k out = (if k < 11 then sfn_ext cs (k + 1) (out[k := upper_char c]) else out)"

definition generate_sfn :: "u8 list \<Rightarrow> u8 list" where
  "generate_sfn long_name =
     (let out = (sfn_base long_name 0 (replicate 11 32))[6 := 126, 7 := 49]
      in if 46 \<in> set long_name
         then sfn_ext (rev (takeWhile (\<lambda>c. c \<noteq> 46) (rev long_name))) 8 out
         else out)"

definition lfn_checksum :: "u8 list \<Rightarrow> u8" where
  "lfn_checksum fcb = foldl (\<lambda>sum b. (if sum AND 1 \<noteq> 0 then 0x80 else 0) + drop_bit 1 sum + b) 0 fcb"

subsection \<open>A short name and back\<close>

definition any_lower :: "u8 list \<Rightarrow> bool" where
  "any_lower cs \<longleftrightarrow> (\<exists>c \<in> set cs. is_lower_char c)"

definition any_upper :: "u8 list \<Rightarrow> bool" where
  "any_upper cs \<longleftrightarrow> (\<exists>c \<in> set cs. is_upper_char c)"

text \<open>What the test accepts.\<close>

lemma any_case_simps [simp]:
  "any_lower [] = False" "any_lower (c # cs) = (is_lower_char c \<or> any_lower cs)"
  "any_upper [] = False" "any_upper (c # cs) = (is_upper_char c \<or> any_upper cs)"
  by (simp_all add: any_lower_def any_upper_def)

lemma scan_base_eq: "scan_base cs up low =
    (if \<forall>c \<in> set (takeWhile (\<lambda>c. c \<noteq> 46) cs). valid_char c
     then Some (dropWhile (\<lambda>c. c \<noteq> 46) cs, up \<or> any_upper (takeWhile (\<lambda>c. c \<noteq> 46) cs),
       low \<or> any_lower (takeWhile (\<lambda>c. c \<noteq> 46) cs))
     else None)"
  by (induction cs arbitrary: up low) (simp_all, blast)

lemma scan_ext_eq: "scan_ext cs up low =
    (if \<forall>c \<in> set cs. valid_char c then Some (up \<or> any_upper cs, low \<or> any_lower cs) else None)"
  by (induction cs arbitrary: up low) simp_all

lemma is_valid_8_3_parts:
  assumes valid: "is_valid_8_3 name"
  obtains base rest where "name = base @ rest" "base \<noteq> []" "length base \<le> 8" "46 \<notin> set base"
    and "\<forall>c \<in> set base. valid_char c" "\<not> (any_upper base \<and> any_lower base)"
    and "dropWhile (\<lambda>c. c \<noteq> 46) name = rest"
    and "rest = [] \<or> (\<exists>ext. rest = 46 # ext \<and> length ext \<le> 3 \<and> (\<forall>c \<in> set ext. valid_char c) \<and>
      \<not> (any_upper ext \<and> any_lower ext))"
proof -
  define b r where br: "b = takeWhile (\<lambda>c. c \<noteq> 46) name" "r = dropWhile (\<lambda>c. c \<noteq> 46) name"
  have name: "name = b @ r" by (simp add: br)
  then have len: "length name - length r = length b" by simp
  have s: "scan_base name False False =
      (if \<forall>c \<in> set b. valid_char c then Some (r, any_upper b, any_lower b) else None)"
    unfolding scan_base_eq br by simp
  have b: "\<forall>c \<in> set b. valid_char c" "b \<noteq> []" "length b \<le> 8" "\<not> (any_upper b \<and> any_lower b)"
    using valid len unfolding is_valid_8_3_def s by (auto split: if_splits)
  have dot: "46 \<notin> set b" unfolding br by (auto dest: set_takeWhileD)
  have r: "r = [] \<or> (\<exists>ext. r = 46 # ext \<and> length ext \<le> 3 \<and> (\<forall>c \<in> set ext. valid_char c) \<and>
      \<not> (any_upper ext \<and> any_lower ext))"
  proof (cases r)
    case (Cons d ext)
    then have "d = 46" using hd_dropWhile [of "\<lambda>c. c \<noteq> 46" name] by (simp add: br)
    with valid len Cons b show ?thesis unfolding is_valid_8_3_def s
      by (auto simp: scan_ext_eq split: if_splits)
  qed simp
  show thesis by (rule that [OF name b(2,3) dot b(1,4) br(2) [symmetric] r])
qed

text \<open>Formatting in closed form.\<close>

lemma update_blank: "length pre = j \<Longrightarrow>
    (pre @ replicate (Suc n) x @ post)[j := c] = (pre @ [c]) @ replicate n x @ post"
  by (simp add: list_update_append)

lemma format_base_closed:
  assumes "46 \<notin> set cs" "length pre + length cs \<le> 8"
  shows "format_base (cs @ rest) (length pre) (pre @ replicate (length cs) 32 @ post) nt =
    (if rest = [] \<or> hd rest = 46
     then (pre @ map upper_char cs @ post, if any_lower cs then nt OR FAT_LC_BASENAME else nt)
     else format_base (cs @ rest) (length pre) (pre @ replicate (length cs) 32 @ post) nt)"
  using assms
proof (induction cs arbitrary: pre nt)
  case Nil
  then show ?case by (cases rest) (auto simp: any_lower_def)
next
  case (Cons c cs)
  let ?nt = "if is_lower_char c then nt OR FAT_LC_BASENAME else nt"
  show ?case
  proof (cases "rest = [] \<or> hd rest = 46")
    case True
    have "format_base (c # cs @ rest) (length pre) (pre @ replicate (Suc (length cs)) 32 @ post) nt =
        format_base (cs @ rest) (length (pre @ [upper_char c]))
          ((pre @ [upper_char c]) @ replicate (length cs) 32 @ post) ?nt"
      using Cons.prems by (simp add: list_update_append)
    also have "\<dots> = ((pre @ [upper_char c]) @ map upper_char cs @ post,
        if any_lower cs then ?nt OR FAT_LC_BASENAME else ?nt)"
      using Cons.IH [of "pre @ [upper_char c]" ?nt] Cons.prems True by simp
    finally show ?thesis using True by (auto simp: any_lower_def or.assoc)
  qed simp
qed

lemma format_ext_closed:
  assumes "length pre + length cs \<le> 11"
  shows "format_ext cs (length pre) (pre @ replicate (length cs) 32 @ post) nt =
    (pre @ map upper_char cs @ post, if any_lower cs then nt OR FAT_LC_EXTENSION else nt)"
  using assms
proof (induction cs arbitrary: pre nt)
  case Nil
  then show ?case by (simp add: any_lower_def)
next
  case (Cons c cs)
  let ?nt = "if is_lower_char c then nt OR FAT_LC_EXTENSION else nt"
  have "format_ext (c # cs) (length pre) (pre @ replicate (Suc (length cs)) 32 @ post) nt =
      format_ext cs (length (pre @ [upper_char c])) ((pre @ [upper_char c]) @ replicate (length cs) 32 @ post) ?nt"
    using Cons.prems by (simp add: list_update_append)
  also have "\<dots> = ((pre @ [upper_char c]) @ map upper_char cs @ post,
      if any_lower cs then ?nt OR FAT_LC_EXTENSION else ?nt)"
    using Cons.IH [of "pre @ [upper_char c]" ?nt] Cons.prems by simp
  finally show ?case by (auto simp: any_lower_def or.assoc)
qed

text \<open>Characters: upper case and back.\<close>

lemma byte_range:
  assumes "a \<le> (c :: u8)" "c \<le> b"
  shows "c \<in> set (map of_nat [unat a..<Suc (unat b)])"
proof -
  have "c = of_nat (unat c)" "unat a \<le> unat c" "unat c < Suc (unat b)"
    using assms by (simp_all add: word_le_nat_alt)
  then show ?thesis by (metis atLeastLessThan_iff image_eqI list.set_map set_upt)
qed

lemma tolower_upper_char: "is_lower_char c \<Longrightarrow> tolower (upper_char c) = c"
  unfolding is_lower_char_def using byte_range [of 97 c 122]
  by (auto simp: upt_rec [of _ "Suc _"] upper_char_def is_lower_char_def tolower_def)

lemma tolower_not_upper: "\<not> is_upper_char c \<Longrightarrow> tolower c = c"
proof -
  have "is_upper_char c" if "65 \<le> sint c" "sint c \<le> 90"
  proof -
    have "sint c = uint c" using that sint_lt [of c] by (simp add: uint_sint take_bit_int_eq_self)
    with that show ?thesis by (simp add: is_upper_char_def word_le_def)
  qed
  then show "\<not> is_upper_char c \<Longrightarrow> tolower c = c" by (auto simp: tolower_def)
qed

lemma upper_char_other: "\<not> is_lower_char c \<Longrightarrow> upper_char c = c"
  by (simp add: upper_char_def)

lemma valid_char_cases: "valid_char c \<Longrightarrow> upper_char c \<noteq> 32"
  by (auto simp: valid_char_def specials_def is_upper_char_def is_lower_char_def is_digit_char_def
      upper_char_def word_le_nat_alt unat_sub)

lemma not_valid_dot: "\<not> valid_char 46"
  by (simp add: valid_char_def specials_def is_upper_char_def is_lower_char_def is_digit_char_def)

lemma tolower_upper_char_eq: "\<not> is_upper_char c \<Longrightarrow> tolower (upper_char c) = c"
  by (cases "is_lower_char c") (simp_all add: tolower_upper_char upper_char_other tolower_not_upper)

text \<open>What the formatter and the parser do with a part of the name whose case is uniform.\<close>

lemma case_part:
  assumes "\<not> (any_upper cs \<and> any_lower cs)"
  shows "map (\<lambda>c. if any_lower cs then tolower c else c) (map upper_char cs) = cs"
proof (cases "any_lower cs")
  case True
  then have "\<not> any_upper cs" using assms by simp
  then show ?thesis using True
    by (auto simp: any_upper_def tolower_upper_char_eq intro: map_idI)
next
  case False
  then show ?thesis by (auto simp: any_lower_def upper_char_other intro: map_idI)
qed

lemma takeWhile_part:
  assumes "\<forall>c \<in> set cs. valid_char c"
  shows "takeWhile (\<lambda>c. c \<noteq> 32) (map upper_char cs @ replicate n 32) = map upper_char cs"
  using assms by (induction cs) (auto simp: valid_char_cases takeWhile_replicate)

lemma format_8_3_parts:
  assumes "46 \<notin> set base" "length base \<le> 8" "length ext \<le> 3"
    and that: "rest = [] \<and> ext = [] \<or> rest = 46 # ext"
  shows "format_8_3 (base @ rest) =
     (map upper_char base @ replicate (8 - length base) 32 @ map upper_char ext @ replicate (3 - length ext) 32,
      (if any_lower base then FAT_LC_BASENAME else 0) OR (if any_lower ext then FAT_LC_EXTENSION else 0))"
proof -
  define b3 where "b3 = replicate 3 (32 :: u8)"
  define pad where "pad = replicate (8 - length base) (32 :: u8)"
  have "replicate (length base + (8 - length base) + 3) (32 :: u8) = replicate (length base) 32 @ pad @ b3"
    unfolding b3_def pad_def by (simp only: replicate_add append_assoc)
  moreover have "length base + (8 - length base) + 3 = 11" using assms by simp
  ultimately have blank: "replicate 11 32 = replicate (length base) (32 :: u8) @ pad @ b3" by (simp only:)
  have "rest = [] \<or> hd rest = 46" using that by auto
  then have 1: "format_base (base @ rest) 0 (replicate 11 32) 0 =
      (map upper_char base @ pad @ b3, if any_lower base then FAT_LC_BASENAME else 0)"
    unfolding blank using format_base_closed [of base "[]" rest "pad @ b3" 0] assms by simp
  have 2: "dropWhile (\<lambda>c. c \<noteq> 46) (base @ rest) = rest"
    using assms that by (subst dropWhile_append2) auto
  have "replicate (length ext + (3 - length ext)) (32 :: u8) = replicate (length ext) 32 @ replicate (3 - length ext) 32"
    by (simp only: replicate_add)
  moreover have "length ext + (3 - length ext) = 3" using assms by simp
  ultimately have 3: "b3 = replicate (length ext) 32 @ replicate (3 - length ext) (32 :: u8)"
    unfolding b3_def by (simp only:)
  show ?thesis
    using that
  proof
    assume e: "rest = [] \<and> ext = []"
    show ?thesis unfolding format_8_3_def 1 2 using e by (simp add: 3 pad_def)
  next
    assume e: "rest = 46 # ext"
    have "length (map upper_char base @ pad) = 8" using assms by (simp add: pad_def)
    then have "format_ext ext 8 (map upper_char base @ pad @ b3) nt =
        (map upper_char base @ pad @ map upper_char ext @ replicate (3 - length ext) 32,
         if any_lower ext then nt OR FAT_LC_EXTENSION else nt)" for nt
      using format_ext_closed [of "map upper_char base @ pad" ext "replicate (3 - length ext) 32" nt] assms
      unfolding 3 by simp
    then show ?thesis unfolding format_8_3_def 1 2 using e by (simp add: pad_def)
  qed
qed

lemma flags_bits:
  "((if p then FAT_LC_BASENAME else 0) OR (if q then FAT_LC_EXTENSION else 0)) AND 0x08 \<noteq> 0 \<longleftrightarrow> p"
  "((if p then FAT_LC_BASENAME else 0) OR (if q then FAT_LC_EXTENSION else 0)) AND 0x10 \<noteq> 0 \<longleftrightarrow> q"
  by (simp_all add: FAT_LC_BASENAME_def FAT_LC_EXTENSION_def)

lemma parse_sfn_parts:
  assumes "\<forall>c \<in> set base. valid_char c" "\<not> (any_upper base \<and> any_lower base)" "length base \<le> 8"
    and "\<forall>c \<in> set ext. valid_char c" "\<not> (any_upper ext \<and> any_lower ext)" "length ext \<le> 3"
  shows "parse_sfn (map upper_char base @ replicate (8 - length base) 32 @ map upper_char ext @ replicate (3 - length ext) 32)
      ((if any_lower base then FAT_LC_BASENAME else 0) OR (if any_lower ext then FAT_LC_EXTENSION else 0)) =
    base @ (if ext = [] then [] else 46 # ext)"
proof -
  define b where "b = map upper_char base @ replicate (8 - length base) 32"
  define e where "e = map upper_char ext @ replicate (3 - length ext) 32"
  define nt where "nt = (if any_lower base then FAT_LC_BASENAME else 0) OR (if any_lower ext then FAT_LC_EXTENSION else 0)"
  have "length b = 8" "length e = 3" using assms by (simp_all add: b_def e_def)
  then have te: "take 8 (b @ e) = b" "take 3 (drop 8 (b @ e)) = e" by simp_all
  have wb: "takeWhile (\<lambda>c. c \<noteq> 32) b = map upper_char base" "takeWhile (\<lambda>c. c \<noteq> 32) e = map upper_char ext"
    using assms by (simp_all add: b_def e_def takeWhile_part)
  have he: "(\<exists>c \<in> set e. c \<noteq> 32) \<longleftrightarrow> ext \<noteq> []"
    using assms(4) by (cases ext) (auto simp: e_def valid_char_cases)
  have nt: "nt AND 8 \<noteq> 0 \<longleftrightarrow> any_lower base" "nt AND 16 \<noteq> 0 \<longleftrightarrow> any_lower ext"
    unfolding nt_def using flags_bits by simp_all
  have "parse_sfn (b @ e) nt = base @ (if ext = [] then [] else 46 # ext)"
    unfolding parse_sfn_def te wb he nt Let_def case_part [OF assms(2)] case_part [OF assms(5)] by simp
  then show ?thesis by (simp add: b_def e_def nt_def)
qed

text \<open>A name that passes the test for a short name is written to a directory entry and read back as it was,
  case included, except that a dot at its end is lost.\<close>

lemma short_name_parse:
  assumes "is_valid_8_3 name"
  shows "(case format_8_3 name of (out, nt) \<Rightarrow> parse_sfn out nt) = (if last name = 46 then butlast name else name)"
proof -
  obtain base rest where p: "name = base @ rest" "base \<noteq> []" "length base \<le> 8" "46 \<notin> set base"
      "\<forall>c \<in> set base. valid_char c" "\<not> (any_upper base \<and> any_lower base)"
      "rest = [] \<or> (\<exists>ext. rest = 46 # ext \<and> length ext \<le> 3 \<and> (\<forall>c \<in> set ext. valid_char c) \<and>
        \<not> (any_upper ext \<and> any_lower ext))"
    by (rule is_valid_8_3_parts [OF assms])
  define ext where "ext = tl rest"
  have e: "rest = [] \<and> ext = [] \<or> rest = 46 # ext" "length ext \<le> 3" "\<forall>c \<in> set ext. valid_char c"
      "\<not> (any_upper ext \<and> any_lower ext)"
    using p(7) by (auto simp: ext_def)
  have "(case format_8_3 name of (out, nt) \<Rightarrow> parse_sfn out nt) = base @ (if ext = [] then [] else 46 # ext)"
    using parse_sfn_parts [OF p(5,6,3) e(3,4,2)]
    by (simp only: p(1) format_8_3_parts [OF p(4,3) e(2,1)] prod.case)
  moreover have "last base \<noteq> 46" using p(2,4) last_in_set [of base] by metis
  moreover have "ext \<noteq> [] \<Longrightarrow> last ext \<noteq> 46"
    using e(3) last_in_set [of ext] not_valid_dot by metis
  ultimately show ?thesis using e(1) p(1,2) by (auto simp: butlast_append)
qed

subsection \<open>Long names\<close>

record lfn_slot =
  sequence :: u8
  name1 :: "u16 list"
  lfn_attributes :: u8
  long_entry_type :: u8
  lfn_check :: u8
  name2 :: "u16 list"
  lfn_rsv :: u16
  name3 :: "u16 list"

definition FAT_LFN :: u8 where "FAT_LFN = 0x0F"

definition empty_lfn :: lfn_slot where
  "empty_lfn = \<lparr> sequence = 0, name1 = replicate 5 0, lfn_attributes = 0, long_entry_type = 0, lfn_check = 0,
     name2 = replicate 6 0, lfn_rsv = 0, name3 = replicate 2 0 \<rparr>"

text \<open>The character at an index of the C string.\<close>

definition char_at :: "u8 list \<Rightarrow> nat \<Rightarrow> u8" where
  "char_at name i = (if i < length name then name ! i else 0)"

text \<open>The loop over the thirteen characters of an entry; \<open>processed\<close> is \<^verbatim>\<open>chars_processed\<close>.\<close>

function fill_lfn :: "u8 list \<Rightarrow> nat \<Rightarrow> nat \<Rightarrow> nat \<Rightarrow> lfn_slot \<Rightarrow> lfn_slot" where
  "fill_lfn name at j processed lfn =
     (if j < 13
      then let (char_val, processed) =
             (if processed < 13 \<and> char_at name (at + j) \<noteq> 0 then (ucast (char_at name (at + j)), processed)
              else if processed < 13 \<and> char_at name (at + j) = 0 then (0, 999)
              else (0xFFFF, processed))
           in fill_lfn name at (j + 1) processed
             (if j < 5 then lfn \<lparr> name1 := (name1 lfn)[j := char_val] \<rparr>
              else if j < 11 then lfn \<lparr> name2 := (name2 lfn)[j - 5 := char_val] \<rparr>
              else lfn \<lparr> name3 := (name3 lfn)[j - 11 := char_val] \<rparr>)
      else lfn)"
  by pat_completeness auto
termination by (relation "measure (\<lambda>(name, at, j, processed, lfn). 13 - j)") auto
declare fill_lfn.simps [simp del]

text \<open>The entries of a name in the order in which \<^verbatim>\<open>_link_entry\<close> writes them, from the last part to the first.\<close>

definition lfn_entries_needed :: "u8 list \<Rightarrow> nat" where
  "lfn_entries_needed name = (length name + 12) div 13"

definition lfn_entry :: "u8 list \<Rightarrow> u8 \<Rightarrow> nat \<Rightarrow> lfn_slot" where
  "lfn_entry name checksum i =
     fill_lfn name ((i - 1) * 13) 0 0
       (empty_lfn \<lparr> sequence := (if i = lfn_entries_needed name then of_nat i OR 0x40 else of_nat i),
          lfn_attributes := 0x0F, lfn_check := checksum \<rparr>)"

definition lfn_chain :: "u8 list \<Rightarrow> u8 \<Rightarrow> lfn_slot list" where
  "lfn_chain name checksum = map (lfn_entry name checksum) (rev [1..<Suc (lfn_entries_needed name)])"

text \<open>The parser. A store outside the buffer and a read past the end of the table are \<open>None\<close>.\<close>

function lfn_copy_name :: "u16 list \<Rightarrow> u8 list \<Rightarrow> nat \<Rightarrow> nat \<Rightarrow> nat \<Rightarrow> u8 list option" where
  "lfn_copy_name ucs2 buffer i count offset =
     (if i < count
      then let c = ucs2 ! i in
        if c = 0 \<or> c = 0xFFFF then lfn_copy_name ucs2 buffer (i + 1) count offset
        else if offset + i < length buffer
          then lfn_copy_name ucs2 (buffer[offset + i := ucast (c AND 0xFF)]) (i + 1) count offset
          else None
      else Some buffer)"
  by pat_completeness auto
termination by (relation "measure (\<lambda>(ucs2, buffer, i, count, offset). count - i)") auto
declare lfn_copy_name.simps [simp del]

fun parse_lfn :: "lfn_slot list \<Rightarrow> u8 list \<Rightarrow> u8 \<Rightarrow> (lfn_slot list \<times> u8 list \<times> u8) option" where
  "parse_lfn [] buffer checksum = None"
| "parse_lfn (lfn # rest) buffer checksum =
     (if lfn_attributes lfn = FAT_LFN
      then let seq = sequence lfn AND 0x1F in
        if sequence lfn = 0xE5 \<or> seq = 0 then Some (lfn # rest, buffer, checksum)
        else let offset = (unat seq - 1) * 13 in
          case lfn_copy_name (name1 lfn) buffer 0 5 offset of
            None \<Rightarrow> None
          | Some b1 \<Rightarrow> (case lfn_copy_name (name2 lfn) b1 0 6 (offset + 5) of
              None \<Rightarrow> None
            | Some b2 \<Rightarrow> (case lfn_copy_name (name3 lfn) b2 0 2 (offset + 11) of
                None \<Rightarrow> None
              | Some b3 \<Rightarrow> parse_lfn rest b3 (lfn_check lfn)))
      else Some (lfn # rest, buffer, checksum))"

subsection \<open>A long name and back\<close>

text \<open>What an entry holds at each of its thirteen places.\<close>

definition lfn_chars :: "lfn_slot \<Rightarrow> u16 list" where
  "lfn_chars lfn = name1 lfn @ name2 lfn @ name3 lfn"

definition lfn_shape :: "lfn_slot \<Rightarrow> bool" where
  "lfn_shape lfn \<longleftrightarrow> length (name1 lfn) = 5 \<and> length (name2 lfn) = 6 \<and> length (name3 lfn) = 2"

definition lfn_store :: "lfn_slot \<Rightarrow> nat \<Rightarrow> u16 \<Rightarrow> lfn_slot" where
  "lfn_store lfn j v =
     (if j < 5 then lfn \<lparr> name1 := (name1 lfn)[j := v] \<rparr>
      else if j < 11 then lfn \<lparr> name2 := (name2 lfn)[j - 5 := v] \<rparr>
      else lfn \<lparr> name3 := (name3 lfn)[j - 11 := v] \<rparr>)"

lemma lfn_store_facts:
  "lfn_shape lfn \<Longrightarrow> lfn_shape (lfn_store lfn j v)"
  "lfn_shape lfn \<Longrightarrow> j < 13 \<Longrightarrow> lfn_chars (lfn_store lfn j v) = (lfn_chars lfn)[j := v]"
  "sequence (lfn_store lfn j v) = sequence lfn" "lfn_attributes (lfn_store lfn j v) = lfn_attributes lfn"
  "lfn_check (lfn_store lfn j v) = lfn_check lfn"
  by (simp_all add: lfn_store_def lfn_shape_def lfn_chars_def list_update_append split: nat_diff_split)

definition lfn_char :: "u8 list \<Rightarrow> nat \<Rightarrow> u16" where
  "lfn_char name k = (if k < length name then ucast (name ! k) else if k = length name then 0 else 0xFFFF)"

lemma fill_lfn_step:
  assumes "j < 13" "0 \<notin> set name"
  shows "fill_lfn name at j (if at + j \<le> length name then 0 else 999) lfn =
    fill_lfn name at (j + 1) (if at + (j + 1) \<le> length name then 0 else 999) (lfn_store lfn j (lfn_char name (at + j)))"
proof -
  have "at + j < length name \<Longrightarrow> name ! (at + j) \<noteq> 0" using assms(2) nth_mem by metis
  then show ?thesis using assms(1)
    by (subst fill_lfn.simps) (simp add: lfn_store_def lfn_char_def char_at_def)
qed

lemma fill_lfn_closed:
  assumes "0 \<notin> set name" "lfn_shape lfn" "j \<le> 13"
  shows "let lfn' = fill_lfn name at j (if at + j \<le> length name then 0 else 999) lfn in
    lfn_shape lfn' \<and> sequence lfn' = sequence lfn \<and> lfn_attributes lfn' = lfn_attributes lfn \<and>
    lfn_check lfn' = lfn_check lfn \<and>
    (\<forall>k < 13. lfn_chars lfn' ! k = (if k < j then lfn_chars lfn ! k else lfn_char name (at + k)))"
  using assms(2,3)
proof (induction "13 - j" arbitrary: j lfn)
  case 0
  then have "j = 13" by simp
  with 0 show ?case by (simp add: fill_lfn.simps Let_def)
next
  case (Suc n)
  then have j: "j < 13" by simp
  have len: "length (lfn_chars lfn) = 13" using Suc.prems by (simp add: lfn_chars_def lfn_shape_def)
  show ?case
    using Suc.hyps(1) [of "j + 1" "lfn_store lfn j (lfn_char name (at + j))"] Suc.hyps(2) Suc.prems j len
    unfolding fill_lfn_step [OF j assms(1)]
    by (auto simp: Let_def lfn_store_facts nth_list_update less_Suc_eq split: if_splits)
qed

lemma lfn_entry_facts:
  assumes "0 \<notin> set name" and at: "(i - 1) * 13 \<le> length name"
  shows "lfn_shape (lfn_entry name ck i)" "lfn_attributes (lfn_entry name ck i) = 0x0F" "lfn_check (lfn_entry name ck i) = ck"
    and "sequence (lfn_entry name ck i) = (if i = lfn_entries_needed name then of_nat i OR 0x40 else of_nat i)"
    and "k < 13 \<Longrightarrow> lfn_chars (lfn_entry name ck i) ! k = lfn_char name ((i - 1) * 13 + k)"
proof -
  define lfn where "lfn = empty_lfn \<lparr> sequence := (if i = lfn_entries_needed name then of_nat i OR 0x40 else of_nat i),
     lfn_attributes := 0x0F, lfn_check := ck \<rparr>"
  have shape: "lfn_shape lfn" by (simp add: lfn_def lfn_shape_def empty_lfn_def)
  note c = fill_lfn_closed [OF assms(1) shape, of 0 "(i - 1) * 13", unfolded Let_def add_0_right]
  show "lfn_shape (lfn_entry name ck i)" "lfn_attributes (lfn_entry name ck i) = 0x0F" "lfn_check (lfn_entry name ck i) = ck"
    "sequence (lfn_entry name ck i) = (if i = lfn_entries_needed name then of_nat i OR 0x40 else of_nat i)"
    "k < 13 \<Longrightarrow> lfn_chars (lfn_entry name ck i) ! k = lfn_char name ((i - 1) * 13 + k)"
    using c at unfolding lfn_entry_def lfn_def [symmetric] by (simp_all add: lfn_def)
qed

text \<open>The parser's copy in closed form.\<close>

definition lfn_put :: "u16 \<Rightarrow> u8 \<Rightarrow> u8" where
  "lfn_put c old = (if c = 0 \<or> c = 0xFFFF then old else ucast (c AND 0xFF))"

lemma lfn_copy_name_closed:
  assumes "offset + count \<le> length buffer" "i \<le> count"
  shows "\<exists>b. lfn_copy_name ucs2 buffer i count offset = Some b \<and> length b = length buffer \<and>
    (\<forall>x < length buffer. b ! x = (if offset + i \<le> x \<and> x < offset + count then lfn_put (ucs2 ! (x - offset)) (buffer ! x) else buffer ! x))"
  using assms
proof (induction "count - i" arbitrary: i buffer)
  case 0
  then show ?case by (subst lfn_copy_name.simps) auto
next
  case (Suc n)
  then have i: "i < count" by simp
  define buffer' where "buffer' = buffer[offset + i := lfn_put (ucs2 ! i) (buffer ! (offset + i))]"
  have step: "lfn_copy_name ucs2 buffer i count offset = lfn_copy_name ucs2 buffer' (i + 1) count offset"
    using Suc.prems i by (subst lfn_copy_name.simps) (simp add: Let_def buffer'_def lfn_put_def)
  obtain b where b: "lfn_copy_name ucs2 buffer' (i + 1) count offset = Some b" "length b = length buffer'"
    "\<forall>x < length buffer'. b ! x = (if offset + (i + 1) \<le> x \<and> x < offset + count then lfn_put (ucs2 ! (x - offset)) (buffer' ! x) else buffer' ! x)"
    using Suc.hyps(1) [of "i + 1" buffer'] Suc.hyps(2) Suc.prems i
    by (metis (no_types, lifting) Suc_eq_plus1 Suc_leI diff_Suc_Suc diff_Suc_1 Suc_diff_Suc buffer'_def length_list_update)
  have "b ! x = (if offset + i \<le> x \<and> x < offset + count then lfn_put (ucs2 ! (x - offset)) (buffer ! x) else buffer ! x)"
    if x: "x < length buffer" for x
  proof (cases "x = offset + i")
    case True
    then show ?thesis using b(3) x i by (simp add: buffer'_def)
  next
    case False
    then show ?thesis using b(3) x by (auto simp: buffer'_def)
  qed
  then show ?case using b step by (auto simp: buffer'_def)
qed

text \<open>One entry of the parser as a whole.\<close>

lemma parse_lfn_entry:
  assumes "lfn_shape lfn" "lfn_attributes lfn = 0x0F" "sequence lfn \<noteq> 0xE5" "0 < unat (sequence lfn AND 0x1F)"
    and "offset = (unat (sequence lfn AND 0x1F) - 1) * 13" "offset + 13 \<le> length buffer"
  shows "\<exists>b. parse_lfn (lfn # rest) buffer ck = parse_lfn rest b (lfn_check lfn) \<and> length b = length buffer \<and>
    (\<forall>x < length buffer. b ! x = (if offset \<le> x \<and> x < offset + 13 then lfn_put (lfn_chars lfn ! (x - offset)) (buffer ! x) else buffer ! x))"
proof -
  obtain b1 where b1: "lfn_copy_name (name1 lfn) buffer 0 5 offset = Some b1" "length b1 = length buffer"
    "\<forall>x < length buffer. b1 ! x = (if offset \<le> x \<and> x < offset + 5 then lfn_put (name1 lfn ! (x - offset)) (buffer ! x) else buffer ! x)"
    using lfn_copy_name_closed [of offset 5 buffer 0 "name1 lfn"] assms(6) by auto
  obtain b2 where b2: "lfn_copy_name (name2 lfn) b1 0 6 (offset + 5) = Some b2" "length b2 = length buffer"
    "\<forall>x < length buffer. b2 ! x = (if offset + 5 \<le> x \<and> x < offset + 5 + 6 then lfn_put (name2 lfn ! (x - (offset + 5))) (b1 ! x) else b1 ! x)"
    using lfn_copy_name_closed [of "offset + 5" 6 b1 0 "name2 lfn"] assms(6) b1(2) by auto
  obtain b3 where b3: "lfn_copy_name (name3 lfn) b2 0 2 (offset + 11) = Some b3" "length b3 = length buffer"
    "\<forall>x < length buffer. b3 ! x = (if offset + 11 \<le> x \<and> x < offset + 11 + 2 then lfn_put (name3 lfn ! (x - (offset + 11))) (b2 ! x) else b2 ! x)"
    using lfn_copy_name_closed [of "offset + 11" 2 b2 0 "name3 lfn"] assms(6) b2(2) by auto
  have "sequence lfn AND 0x1F \<noteq> 0" using assms(4) by auto
  then have "parse_lfn (lfn # rest) buffer ck = parse_lfn rest b3 (lfn_check lfn)"
    using assms(2,3) b1(1) b2(1) b3(1) unfolding assms(5) by (simp add: FAT_LFN_def Let_def)
  moreover have "b3 ! x = (if offset \<le> x \<and> x < offset + 13 then lfn_put (lfn_chars lfn ! (x - offset)) (buffer ! x) else buffer ! x)"
    if x: "x < length buffer" for x
    using x b1(3) b2(3) b3(3) assms(1)
    by (auto simp: lfn_chars_def lfn_shape_def nth_append diff_diff_add add.commute)
  ultimately show ?thesis using b3(2) by blast
qed

lemma sequence_facts:
  assumes "0 < i" "i \<le> 31"
  shows "unat ((of_nat i :: u8) AND 0x1F) = i" "unat (((of_nat i :: u8) OR 0x40) AND 0x1F) = i"
    and "(of_nat i :: u8) \<noteq> 0xE5" "(of_nat i :: u8) OR 0x40 \<noteq> 0xE5"
proof -
  have "list_all (\<lambda>i. unat ((of_nat i :: u8) AND 0x1F) = i \<and> unat (((of_nat i :: u8) OR 0x40) AND 0x1F) = i \<and>
      (of_nat i :: u8) \<noteq> 0xE5 \<and> (of_nat i :: u8) OR 0x40 \<noteq> 0xE5) [1..<32]"
    by code_simp
  moreover have "i \<in> set [1..<32]" using assms by auto
  ultimately show "unat ((of_nat i :: u8) AND 0x1F) = i" "unat (((of_nat i :: u8) OR 0x40) AND 0x1F) = i"
    "(of_nat i :: u8) \<noteq> 0xE5" "(of_nat i :: u8) OR 0x40 \<noteq> 0xE5"
    unfolding list_all_iff by blast+
qed

lemma lfn_put_char:
  assumes "0 \<notin> set name"
  shows "lfn_put (lfn_char name x) 0 = (if x < length name then name ! x else 0)"
proof (cases "x < length name")
  case True
  define c where "c = name ! x"
  have "c \<noteq> 0" using assms nth_mem [OF True] unfolding c_def by metis
  moreover have u: "unat (ucast c :: u16) = unat c" using unsigned_less [where ?'a = nat, of c] by (simp add: unsigned_ucast_eq take_bit_nat_eq_self)
  then have "(ucast c :: u16) = 0 \<longleftrightarrow> c = 0" by (metis unat_0 unat_eq_zero)
  moreover have "unat (ucast c :: u16) < 256" using u unsigned_less [where ?'a = nat, of c] by simp
  then have "(ucast c :: u16) \<noteq> 0xFFFF" by auto
  moreover have "ucast ((ucast c :: u16) AND 0xFF) = c"
  proof -
    have m: "(0xFF :: u16) = mask 8" by (simp add: mask_eq_exp_minus_1)
    show ?thesis unfolding m take_bit_eq_mask [symmetric] by (rule bit_word_eqI) (auto simp: bit_simps)
  qed
  ultimately show ?thesis using True by (simp add: lfn_put_def lfn_char_def c_def)
qed (simp add: lfn_put_def lfn_char_def)

text \<open>The long name entries that linking a name writes, in their order, are read back as the name, for every
  name of at most 403 bytes, and the reader stays within its buffer of 512 bytes.\<close>

lemma long_name_parse:
  assumes "name \<noteq> []" "length name \<le> 403" "0 \<notin> set name" "lfn_attributes sfn \<noteq> FAT_LFN"
  shows "parse_lfn (lfn_chain name checksum @ sfn # rest) (replicate 512 0) c0 =
    Some (sfn # rest, name @ replicate (512 - length name) 0, checksum)"
proof -
  define n where "n = lfn_entries_needed name"
  have n: "length name \<le> 13 * n" "13 * n < length name + 13" "0 < n" "n \<le> 31"
    using assms(1,2) by (simp_all add: n_def lfn_entries_needed_def Suc_le_eq [symmetric] div_le_mono less_eq_div_iff_mult_less_eq
      split: if_splits) (cases name; simp; linarith | linarith)+
  define upto where "upto k b c \<longleftrightarrow> length b = 512 \<and> (k < n \<longrightarrow> c = checksum) \<and>
      (\<forall>x < 512. b ! x = (if 13 * k \<le> x \<and> x < length name then name ! x else 0))" for k and b :: "u8 list" and c
  have "parse_lfn (map (lfn_entry name checksum) (rev [1..<Suc k]) @ sfn # rest) b c =
      Some (sfn # rest, name @ replicate (512 - length name) 0, checksum)" if "upto k b c" "k \<le> n" for k b c
    using that
  proof (induction k arbitrary: b c)
    case 0
    then have "b = name @ replicate (512 - length name) 0"
      using assms(2) by (intro nth_equalityI) (auto simp: upto_def nth_append)
    with 0 assms(4) n(3) show ?case by (simp add: upto_def)
  next
    case (Suc k)
    define lfn where "lfn = lfn_entry name checksum (Suc k)"
    have at: "(Suc k - 1) * 13 \<le> length name" using Suc.prems n by simp
    note facts = lfn_entry_facts [OF assms(3) at, where ck = checksum, folded lfn_def]
    have seq: "unat (sequence lfn AND 0x1F) = Suc k" "sequence lfn \<noteq> 0xE5"
      using facts(4) sequence_facts [of "Suc k"] Suc.prems(2) n(4)
      by (metis le_trans zero_less_Suc)+
    have "13 * k + 13 \<le> length b" using Suc.prems n by (simp add: upto_def)
    then obtain b' where b': "parse_lfn (lfn # map (lfn_entry name checksum) (rev [1..<Suc k]) @ sfn # rest) b c =
        parse_lfn (map (lfn_entry name checksum) (rev [1..<Suc k]) @ sfn # rest) b' checksum" "length b' = length b"
      "\<forall>x < length b. b' ! x = (if 13 * k \<le> x \<and> x < 13 * k + 13 then lfn_put (lfn_chars lfn ! (x - 13 * k)) (b ! x) else b ! x)"
      using parse_lfn_entry [OF facts(1,2) seq(2), of "13 * k" b] seq(1) facts(3) by force
    have "b' ! x = (if 13 * k \<le> x \<and> x < length name then name ! x else 0)" if x: "x < 512" for x
    proof (cases "13 * k \<le> x \<and> x < 13 * k + 13")
      case True
      then have "lfn_chars lfn ! (x - 13 * k) = lfn_char name x"
        using facts(5) [of "x - 13 * k"] by (auto simp: mult.commute)
      moreover have "b ! x = 0" using Suc.prems(1) x True by (simp add: upto_def)
      ultimately show ?thesis using b'(3) x True Suc.prems(1) lfn_put_char [OF assms(3), of x] by (simp add: upto_def)
    next
      case False
      then show ?thesis using b'(3) x Suc.prems(1) by (auto simp: upto_def)
    qed
    then have "upto k b' checksum" using b'(2) Suc.prems(1) by (simp add: upto_def)
    then have "parse_lfn (map (lfn_entry name checksum) (rev [1..<Suc k]) @ sfn # rest) b' checksum =
        Some (sfn # rest, name @ replicate (512 - length name) 0, checksum)"
      using Suc.IH Suc.prems(2) by simp
    moreover have "map (lfn_entry name checksum) (rev [1..<Suc (Suc k)]) = lfn # map (lfn_entry name checksum) (rev [1..<Suc k])"
      by (simp add: lfn_def)
    ultimately show ?case using b'(1) by (simp only: append_Cons)
  qed
  moreover have "upto n (replicate 512 0) c0" using n(1) by (auto simp: upto_def)
  ultimately show ?thesis unfolding lfn_chain_def n_def [symmetric] by blast
qed

end
