(* ===== verification/Partitions.thy ===== *)
theory Partitions
  imports Prelude
begin

text \<open>
  Block devices and the partitions on them (partitions/partitions.cpp). A block device is what the code
  calls through the operations of its vnode: a read that puts bytes into a buffer and a write that takes
  them. The locale states what a device of a given size promises, and the theory shows that a partition of
  such a device is such a device itself, a window of it, and what the two table formats make of the disk's
  bytes.
\<close>

subsection \<open>Bytes of a structure\<close>

text \<open>Little-endian fields.\<close>

fun le_nat :: "u8 list \<Rightarrow> nat" where
  "le_nat [] = 0"
| "le_nat (b # bs) = unat b + 256 * le_nat bs"

fun nat_bytes :: "nat \<Rightarrow> nat \<Rightarrow> u8 list" where
  "nat_bytes 0 v = []"
| "nat_bytes (Suc n) v = of_nat (v mod 256) # nat_bytes n (v div 256)"

definition field :: "u8 list \<Rightarrow> nat \<Rightarrow> nat \<Rightarrow> u8 list" where
  "field bs at n = take n (drop at bs)"

text \<open>Bytes stored into a buffer, at a place.\<close>

definition put_at :: "'a list \<Rightarrow> nat \<Rightarrow> 'a list \<Rightarrow> 'a list" where
  "put_at buf at bs = take at buf @ bs @ drop (at + length bs) buf"

lemma length_nat_bytes [simp]: "length (nat_bytes n v) = n"
  by (induction n arbitrary: v) simp_all

lemma le_nat_of_bytes: "v < 256 ^ n \<Longrightarrow> le_nat (nat_bytes n v) = v"
proof (induction n arbitrary: v)
  case (Suc n)
  have "v div 256 < 256 ^ n" using Suc.prems by (simp add: less_mult_imp_div_less mult.commute)
  moreover have "unat (of_nat (v mod 256) :: u8) = v mod 256" by (simp add: unat_of_nat)
  ultimately show ?case using Suc.IH by simp
qed simp

lemma le_nat_less: "le_nat bs < 256 ^ length bs"
proof (induction bs)
  case (Cons b bs)
  have "unat b < 256" using unsigned_less [where ?'a = nat, of b] by simp
  with Cons show ?case by simp
qed simp

lemma length_put_at: "at + length bs \<le> length buf \<Longrightarrow> length (put_at buf at bs) = length buf"
  by (simp add: put_at_def)

lemma nth_put_at: "at + length bs \<le> length buf \<Longrightarrow> i < length buf \<Longrightarrow>
    put_at buf at bs ! i = (if at \<le> i \<and> i < at + length bs then bs ! (i - at) else buf ! i)"
  by (auto simp: put_at_def nth_append)

lemma put_at_prefix: "put_at (xs @ buf) (length xs) bs = xs @ bs @ drop (length bs) buf"
  by (simp add: put_at_def)

subsection \<open>Block devices\<close>

text \<open>The calls \<^verbatim>\<open>blk->read\<close> and \<^verbatim>\<open>blk->write\<close>: a read yields its result and the bytes it has put at the start
  of the buffer.\<close>

record 'd blkdev =
  blk_read :: "'d \<Rightarrow> u64 \<Rightarrow> u64 \<Rightarrow> u32 \<times> u8 list"
  blk_write :: "'d \<Rightarrow> u64 \<Rightarrow> u64 \<Rightarrow> u8 list \<Rightarrow> u32 \<times> 'd"
  io_block_size :: u64

locale byte_device =
  fixes dev :: "'d blkdev"
    and dsize :: nat
    and byte :: "'d \<Rightarrow> nat \<Rightarrow> u8"
  assumes read_bytes: "unat off + unat len \<le> dsize \<Longrightarrow>
      blk_read dev d off len = (ucast len, map (byte d) [unat off..<unat off + unat len])"
    and write_result: "\<lbrakk>unat off + unat len \<le> dsize; 0 < unat len; length bs = unat len\<rbrakk> \<Longrightarrow>
      fst (blk_write dev d off len bs) = ucast len"
    and write_bytes: "\<lbrakk>unat off + unat len \<le> dsize; length bs = unat len; i < dsize\<rbrakk> \<Longrightarrow>
      byte (snd (blk_write dev d off len bs)) i =
        (if unat off \<le> i \<and> i < unat off + unat len then bs ! (i - unat off) else byte d i)"
begin

lemma read_back:
  assumes "unat off + unat len \<le> dsize" "length bs = unat len"
  shows "snd (blk_read dev (snd (blk_write dev d off len bs)) off len) = bs"
  using assms by (simp add: read_bytes write_bytes list_eq_iff_nth_eq)

lemma write_apart:
  assumes "unat off + unat len \<le> dsize" "length bs = unat len"
    and "unat off' + unat len' \<le> dsize" "unat off' + unat len' \<le> unat off \<or> unat off + unat len \<le> unat off'"
  shows "blk_read dev (snd (blk_write dev d off len bs)) off' len' = blk_read dev d off' len'"
  using assms by (auto simp: read_bytes write_bytes list_eq_iff_nth_eq)

end

subsection \<open>Partitions\<close>

record partition_t =
  starting_lba :: u64
  ending_lba :: u64

definition EIO :: u32 where "EIO = 5"

definition partition_size :: "u64 \<Rightarrow> partition_t \<Rightarrow> u64" where
  "partition_size bs pent = (ending_lba pent - starting_lba pent + 1) * bs"

definition partition_read :: "'d blkdev \<Rightarrow> partition_t \<Rightarrow> 'd \<Rightarrow> u64 \<Rightarrow> u64 \<Rightarrow> u32 \<times> u8 list" where
  "partition_read node pent d offset len =
     (let size = partition_size (io_block_size node) pent in
      if offset \<ge> size then (0, [])
      else let len = (if offset + len > size then size - offset else len);
               abs_start_byte = starting_lba pent * io_block_size node
           in blk_read node d (abs_start_byte + offset) len)"

definition partition_write :: "'d blkdev \<Rightarrow> partition_t \<Rightarrow> 'd \<Rightarrow> u64 \<Rightarrow> u64 \<Rightarrow> u8 list \<Rightarrow> u32 \<times> 'd" where
  "partition_write node pent d offset len buffer =
     (let size = partition_size (io_block_size node) pent in
      if offset \<ge> size then (- EIO, d)
      else let len = (if offset + len > size then size - offset else len);
               abs_start_byte = starting_lba pent * io_block_size node
           in blk_write node d (abs_start_byte + offset) len (take (unat len) buffer))"

text \<open>The vnode of a partition: its operations, its block size, which is that of the disk, and the size it shows.\<close>

definition partition_dev :: "'d blkdev \<Rightarrow> partition_t \<Rightarrow> 'd blkdev" where
  "partition_dev node pent =
     \<lparr> blk_read = partition_read node pent, blk_write = partition_write node pent, io_block_size = io_block_size node \<rparr>"

definition partition_node_size :: "u64 \<Rightarrow> partition_t \<Rightarrow> u64" where
  "partition_node_size bs pent = bs * (ending_lba pent - starting_lba pent)"

subsection \<open>A partition is a window of its disk\<close>

text \<open>A partition that lies on the disk.\<close>

definition partition_on :: "nat \<Rightarrow> u64 \<Rightarrow> partition_t \<Rightarrow> bool" where
  "partition_on dsize bs pent \<longleftrightarrow> starting_lba pent \<le> ending_lba pent \<and>
     (unat (ending_lba pent) + 1) * unat bs \<le> dsize \<and> dsize < 18446744073709551616 \<and> 0 < unat bs"

lemma partition_on_facts:
  assumes "partition_on dsize bs pent"
  shows "unat (starting_lba pent * bs) = unat (starting_lba pent) * unat bs"
    and "unat (partition_size bs pent) = (unat (ending_lba pent) - unat (starting_lba pent) + 1) * unat bs"
    and "unat (starting_lba pent * bs) + unat (partition_size bs pent) \<le> dsize"
proof -
  define s e b where seb: "s = unat (starting_lba pent)" "e = unat (ending_lba pent)" "b = unat bs"
  have le: "s \<le> e" "(e + 1) * b \<le> dsize" "dsize < 18446744073709551616" "0 < b"
    using assms by (simp_all add: partition_on_def seb word_le_nat_alt)
  have sb: "s * b \<le> (e + 1) * b" using le by (intro mult_right_mono) simp_all
  have split: "s * b + (e - s + 1) * b = (e + 1) * b"
    using le(1) by (simp flip: distrib_right)
  show 1: "unat (starting_lba pent * bs) = unat (starting_lba pent) * unat bs"
    using sb le by (intro unat_mul64) (simp add: seb)
  have "(e + 1) * 1 \<le> (e + 1) * b" using le(4) by (intro mult_left_mono) simp_all
  then have small: "e + 1 < 18446744073709551616" using le by (metis le_less_trans nat_mult_1_right)
  have "unat (ending_lba pent - starting_lba pent) = e - s"
    using assms by (simp add: unat_sub64 partition_on_def seb)
  then have d: "unat (ending_lba pent - starting_lba pent + 1) = e - s + 1"
    using small by (subst unat_add64) simp_all
  show 2: "unat (partition_size bs pent) = (unat (ending_lba pent) - unat (starting_lba pent) + 1) * unat bs"
    unfolding partition_size_def using split le d by (subst unat_mul64) (simp_all add: seb [symmetric])
  show "unat (starting_lba pent * bs) + unat (partition_size bs pent) \<le> dsize"
    unfolding 1 2 using split le by (simp add: seb [symmetric])
qed

text \<open>How a request that does not wrap is cut to the partition and moved to its place on the disk.\<close>

lemma partition_cut:
  assumes on: "partition_on n (io_block_size dev) pent" and "unat off + unat len < 18446744073709551616"
    and off: "unat off < unat (partition_size (io_block_size dev) pent)"
  defines "s \<equiv> starting_lba pent * io_block_size dev" and "z \<equiv> partition_size (io_block_size dev) pent"
  shows "unat (s + off) = unat s + unat off"
    and "unat (if off + len > z then z - off else len) = min (unat len) (unat z - unat off)"
    and "unat s + unat z \<le> n"
proof -
  show sz: "unat s + unat z \<le> n" using partition_on_facts(3) [OF on] by (simp add: s_def z_def)
  moreover have "n < 18446744073709551616" using on by (simp add: partition_on_def)
  ultimately show "unat (s + off) = unat s + unat off"
    using off by (intro unat_add64) (simp add: z_def [symmetric])
  show "unat (if off + len > z then z - off else len) = min (unat len) (unat z - unat off)"
    using assms(2) off by (simp add: z_def [symmetric] word_less_nat_alt unat_add64 unat_sub64 word_le_nat_alt)
qed

lemma map_upt_shift: "map (\<lambda>i. f (s + i)) [a..<a + k] = map f [s + a..<s + a + k]"
  by (simp add: list_eq_iff_nth_eq add.assoc)

lemma partition_read_eq:
  assumes dev: "byte_device dev n byte" and on: "partition_on n (io_block_size dev) pent"
    and fits: "unat off + unat len < 18446744073709551616"
    and sz: "s = unat (starting_lba pent * io_block_size dev)" "z = unat (partition_size (io_block_size dev) pent)"
  shows "partition_read dev pent d off len =
    (if z \<le> unat off then (0, [])
     else (of_nat (min (unat len) (z - unat off)),
       map (\<lambda>i. byte d (s + i)) [unat off..<unat off + min (unat len) (z - unat off)]))"
proof (cases "z \<le> unat off")
  case True
  then show ?thesis by (simp add: partition_read_def sz word_le_nat_alt)
next
  case False
  define l where "l = (if off + len > partition_size (io_block_size dev) pent
      then partition_size (io_block_size dev) pent - off else len)"
  have off: "unat off < unat (partition_size (io_block_size dev) pent)" using False by (simp add: sz)
  note cut = partition_cut [OF on fits off, folded l_def, folded sz]
  have "partition_read dev pent d off len = blk_read dev d (starting_lba pent * io_block_size dev + off) l"
    using False by (simp add: partition_read_def Let_def sz word_le_nat_alt l_def)
  also have "\<dots> = (ucast l, map (byte d) [s + unat off..<s + unat off + unat l])"
    unfolding cut(1) [symmetric] using cut False by (intro byte_device.read_bytes [OF dev]) auto
  also have "(ucast l :: u32) = of_nat (unat l)" by (simp add: unsigned_ucast_eq of_nat_unat)
  finally show ?thesis using False cut(2) by (simp only: map_upt_shift if_False)
qed

lemma partition_write_eq:
  assumes dev: "byte_device dev n byte" and on: "partition_on n (io_block_size dev) pent"
    and fits: "unat off + unat len < 18446744073709551616" and bs: "length bs = unat len" and i: "i < n"
    and sz: "s = unat (starting_lba pent * io_block_size dev)" "z = unat (partition_size (io_block_size dev) pent)"
  shows "byte (snd (partition_write dev pent d off len bs)) i =
    (if s + unat off \<le> i \<and> i < s + min z (unat off + unat len) then bs ! (i - (s + unat off)) else byte d i)"
    and "0 < unat len \<Longrightarrow> fst (partition_write dev pent d off len bs) =
      (if z \<le> unat off then - EIO else of_nat (min (unat len) (z - unat off)))"
proof -
  define l where "l = (if off + len > partition_size (io_block_size dev) pent
      then partition_size (io_block_size dev) pent - off else len)"
  have w: "partition_write dev pent d off len bs = (if z \<le> unat off then (- EIO, d)
      else blk_write dev d (starting_lba pent * io_block_size dev + off) l (take (unat l) bs))"
    by (simp add: partition_write_def Let_def sz word_le_nat_alt l_def)
  have "byte (snd (partition_write dev pent d off len bs)) i =
      (if s + unat off \<le> i \<and> i < s + min z (unat off + unat len) then bs ! (i - (s + unat off)) else byte d i) \<and>
    (0 < unat len \<longrightarrow> fst (partition_write dev pent d off len bs) =
      (if z \<le> unat off then - EIO else of_nat (min (unat len) (z - unat off))))"
  proof (cases "z \<le> unat off")
    case True
    then show ?thesis by (auto simp: w)
  next
    case False
    have off: "unat off < unat (partition_size (io_block_size dev) pent)" using False by (simp add: sz)
    note cut = partition_cut [OF on fits off, folded l_def, folded sz]
    have l: "unat (starting_lba pent * io_block_size dev + off) + unat l \<le> n" "length (take (unat l) bs) = unat l"
      using cut off bs by (auto simp: sz)
    have r: "(ucast l :: u32) = of_nat (unat l)" by (simp add: unsigned_ucast_eq of_nat_unat)
    show ?thesis
      using False cut i byte_device.write_bytes [OF dev l i, of d]
        byte_device.write_result [OF dev l(1) _ l(2), of d]
      unfolding w r by (auto simp: min_def)
  qed
  then show "byte (snd (partition_write dev pent d off len bs)) i =
      (if s + unat off \<le> i \<and> i < s + min z (unat off + unat len) then bs ! (i - (s + unat off)) else byte d i)"
    "0 < unat len \<Longrightarrow> fst (partition_write dev pent d off len bs) =
      (if z \<le> unat off then - EIO else of_nat (min (unat len) (z - unat off)))" by blast+
qed

text \<open>A partition is a device of its own size.\<close>

lemma partition_is_device:
  assumes "byte_device dev n byte" and "partition_on n (io_block_size dev) pent"
  shows "byte_device (partition_dev dev pent) (unat (partition_size (io_block_size dev) pent))
    (\<lambda>d i. byte d (unat (starting_lba pent * io_block_size dev) + i))"
proof
  define s z where sz: "s = unat (starting_lba pent * io_block_size dev)" "z = unat (partition_size (io_block_size dev) pent)"
  have n: "s + z \<le> n" "z < 18446744073709551616"
    using partition_on_facts(3) [OF assms(2)] unfolding sz by (simp_all only: unat_lt64)
  note rd = partition_read_eq [OF assms _ sz] and wr = partition_write_eq [OF assms _ _ _ sz]
  fix off len :: u64 and d bs i
  show "blk_read (partition_dev dev pent) d off len =
      (ucast len, map (\<lambda>i. byte d (unat (starting_lba pent * io_block_size dev) + i)) [unat off..<unat off + unat len])"
    if "unat off + unat len \<le> unat (partition_size (io_block_size dev) pent)"
  proof -
    have r: "(ucast len :: u32) = of_nat (unat len)" by (simp add: unsigned_ucast_eq of_nat_unat)
    have "len = 0 \<or> unat off < z"
      using that unat_eq_zero [of len] unfolding sz by linarith
    then show ?thesis using that n rd [of off len d] unfolding sz [symmetric] partition_dev_def r
      by (auto simp: min_def)
  qed
  show "fst (blk_write (partition_dev dev pent) d off len bs) = ucast len"
    if "unat off + unat len \<le> unat (partition_size (io_block_size dev) pent)" "0 < unat len" "length bs = unat len"
  proof -
    have r: "(ucast len :: u32) = of_nat (unat len)" by (simp add: unsigned_ucast_eq of_nat_unat)
    have "0 < n" using that n unfolding sz by linarith
    then show ?thesis using that n wr(2) [of off len bs 0 d] unfolding sz [symmetric] partition_dev_def r
      by (auto simp: min_def)
  qed
  show "byte (snd (blk_write (partition_dev dev pent) d off len bs)) (unat (starting_lba pent * io_block_size dev) + i) =
      (if unat off \<le> i \<and> i < unat off + unat len then bs ! (i - unat off)
       else byte d (unat (starting_lba pent * io_block_size dev) + i))"
    if "unat off + unat len \<le> unat (partition_size (io_block_size dev) pent)" "length bs = unat len"
      "i < unat (partition_size (io_block_size dev) pent)"
    using that n wr(1) [of off len bs "s + i" d] unfolding sz [symmetric] partition_dev_def by (auto simp: min_def)
qed

text \<open>A disk in memory, as an instance.\<close>

definition mem_disk :: "u64 \<Rightarrow> mem blkdev" where
  "mem_disk bs = \<lparr> blk_read = (\<lambda>m off len. (ucast len, load_bytes m off (unat len))),
     blk_write = (\<lambda>m off len b. (ucast len, store_bytes m off (take (unat len) b))), io_block_size = bs \<rparr>"

lemma mem_disk_device: "n < 18446744073709551616 \<Longrightarrow> byte_device (mem_disk bs) n (\<lambda>m i. m (of_nat i))"
proof
  fix off len :: u64 and m :: mem and b :: "u8 list" and i
  assume n: "n < 18446744073709551616"
  show "blk_read (mem_disk bs) m off len = (ucast len, map (\<lambda>i. m (of_nat i)) [unat off..<unat off + unat len])"
    by (simp add: mem_disk_def list_eq_iff_nth_eq)
  show "fst (blk_write (mem_disk bs) m off len b) = ucast len" by (simp add: mem_disk_def)
  assume "length b = unat len" "i < n" "unat off + unat len \<le> n"
  moreover from this n have "unat (of_nat i - off) = (if unat off \<le> i then i - unat off else 18446744073709551616 + i - unat off)"
    by (subst unat_diff64) (simp add: unat_of_nat64)
  ultimately show "snd (blk_write (mem_disk bs) m off len b) (of_nat i) =
      (if unat off \<le> i \<and> i < unat off + unat len then b ! (i - unat off) else m (of_nat i))"
    using n by (auto simp: mem_disk_def store_bytes_def split: if_splits)
qed

definition example_partition :: partition_t where
  "example_partition = \<lparr> starting_lba = 8, ending_lba = 15 \<rparr>"

interpretation example_dev: byte_device "partition_dev (mem_disk 0x200) example_partition" 4096
  "\<lambda>m i. m (of_nat (4096 + i))"
proof -
  have "partition_on 65536 (io_block_size (mem_disk 0x200)) example_partition"
    "starting_lba example_partition * io_block_size (mem_disk 0x200) = 4096"
    "partition_size (io_block_size (mem_disk 0x200)) example_partition = 4096"
    by (simp_all add: partition_on_def mem_disk_def example_partition_def partition_size_def)
  then show "byte_device (partition_dev (mem_disk 0x200) example_partition) 4096 (\<lambda>m i. m (of_nat (4096 + i)))"
    using partition_is_device [OF mem_disk_device [of 65536 "0x200"], of example_partition] by simp
qed

text \<open>C27: On a disk that keeps the bytes written to it, a write to a partition inside the disk, wherever it starts
  and however long it is, changes no byte outside the partition, and reading the same place gives back what was
  written, up to the end of the partition.\<close>

theorem partition_confined:
  assumes "byte_device dev n byte" and "partition_on n (io_block_size dev) pent"
    and "unat off + unat len < 18446744073709551616" and "length bs = unat len"
    and "s = unat (starting_lba pent * io_block_size dev)" "z = unat (partition_size (io_block_size dev) pent)"
    and "d' = snd (blk_write (partition_dev dev pent) d off len bs)"
  shows "snd (blk_read (partition_dev dev pent) d' off len) = take (z - unat off) bs \<and>
    (\<forall>i < n. i < s \<or> s + z \<le> i \<longrightarrow> byte d' i = byte d i)"
proof (intro conjI allI impI)
  have n: "s + z \<le> n" using partition_on_facts(3) [OF assms(2)] unfolding assms(5,6) .
  note w = partition_write_eq(1) [OF assms(1-4) _ assms(5,6), of _ d, folded assms(7) [unfolded partition_dev_def, simplified]]
  show "byte d' i = byte d i" if "i < n" "i < s \<or> s + z \<le> i" for i using w that by auto
  show "snd (blk_read (partition_dev dev pent) d' off len) = take (z - unat off) bs"
    using n w assms(4) partition_read_eq [OF assms(1-3,5,6), of d']
    by (auto simp: partition_dev_def list_eq_iff_nth_eq min_def)
qed

theorem partition_confined_witness:
  "snd (blk_read (partition_dev (mem_disk 0x200) example_partition)
     (snd (blk_write (partition_dev (mem_disk 0x200) example_partition) (\<lambda>_. 0) 4095 2 [7, 9])) 4095 2) = [7]"
proof -
  have "partition_on 65536 (io_block_size (mem_disk 0x200)) example_partition"
    "unat (partition_size (io_block_size (mem_disk 0x200)) example_partition) = 4096"
    by (simp_all add: partition_on_def mem_disk_def example_partition_def partition_size_def)
  then show ?thesis
    using partition_confined [OF mem_disk_device [of 65536 "0x200"], of example_partition 4095 2 "[7, 9]", OF _ _ _ _ refl refl refl, of "\<lambda>_. 0"]
    by simp
qed

subsection \<open>The MBR\<close>

record mbr_entry =
  mbr_type :: u8
  lba_start :: u32
  sector_count :: u32

text \<open>An entry of sixteen bytes, of which the code reads three fields.\<close>

definition mbr_entry_of :: "u8 list \<Rightarrow> mbr_entry" where
  "mbr_entry_of bs = \<lparr> mbr_type = of_nat (le_nat (field bs 4 1)), lba_start = of_nat (le_nat (field bs 8 4)),
     sector_count = of_nat (le_nat (field bs 12 4)) \<rparr>"

definition mbr_entries :: "u8 list \<Rightarrow> mbr_entry list" where
  "mbr_entries sector = map (\<lambda>i. mbr_entry_of (field sector (446 + 16 * i) 16)) [0..<4]"

definition is_mbr :: "'d blkdev \<Rightarrow> 'd \<Rightarrow> bool" where
  "is_mbr blk d =
     (let (ret, got) = blk_read blk d 0 512;
          mbr = put_at (replicate 512 0) 0 got
      in if sint ret \<le> 0 then False
         else if le_nat (field mbr 510 2) \<noteq> 0xAA55 then False
         else if mbr_type (mbr_entries mbr ! 0) = 0xEE then False
         else True)"

text \<open>The partitions with their numbers. The last sector is computed in 32 bits.\<close>

fun mbr_partitions :: "mbr_entry list \<Rightarrow> nat \<Rightarrow> (nat \<times> partition_t) list" where
  "mbr_partitions [] pno = []"
| "mbr_partitions (e # es) pno =
     (if mbr_type e = 0 then mbr_partitions es pno
      else (pno, \<lparr> starting_lba = ucast (lba_start e), ending_lba = ucast (lba_start e + sector_count e - 1) \<rparr>)
        # mbr_partitions es (pno + 1))"

definition mbr_initialize_partitions :: "'d blkdev \<Rightarrow> 'd \<Rightarrow> (nat \<times> partition_t) list" where
  "mbr_initialize_partitions blk d =
     mbr_partitions (mbr_entries (put_at (replicate 512 0) 0 (snd (blk_read blk d 0 512)))) 1"

subsection \<open>The GPT\<close>

text \<open>The characters \<^verbatim>\<open>EFI PART\<close>.\<close>

definition GPT_SIGNATURE :: "u8 list" where
  "GPT_SIGNATURE = [0x45, 0x46, 0x49, 0x20, 0x50, 0x41, 0x52, 0x54]"

definition is_gpt :: "'d blkdev \<Rightarrow> 'd \<Rightarrow> bool" where
  "is_gpt blk d =
     (let (ret, got) = blk_read blk d (1 * io_block_size blk) 96
      in if sint ret \<le> 0 then False
         else field (put_at (replicate 96 0) 0 got) 0 8 = GPT_SIGNATURE)"

record gpt_entry =
  partition_type_guid :: "u8 list"
  partition_guid :: "u8 list"
  gpt_starting_lba :: u64
  gpt_ending_lba :: u64

definition gpt_entry_of :: "u8 list \<Rightarrow> gpt_entry" where
  "gpt_entry_of bs = \<lparr> partition_type_guid = field bs 0 16, partition_guid = field bs 16 16,
     gpt_starting_lba = of_nat (le_nat (field bs 32 8)), gpt_ending_lba = of_nat (le_nat (field bs 40 8)) \<rparr>"

text \<open>What happens to the node of a partition.\<close>

datatype mount_at = Mount_Boot | Mount_Root | No_Mount

text \<open>The loop over the array. \<open>node_ok\<close> is whether the node could be made (\<^verbatim>\<open>/dev\<close> exists), \<open>root_fs\<close> whether a file
  system is found on a partition. An entry that leaves the array is \<open>None\<close>.\<close>

function gpt_loop :: "u8 list \<Rightarrow> nat \<Rightarrow> nat \<Rightarrow> bool \<Rightarrow> u8 list \<Rightarrow> bool \<Rightarrow> (partition_t \<Rightarrow> bool) \<Rightarrow> nat \<Rightarrow> bool \<Rightarrow>
    (nat \<times> partition_t \<times> mount_at) list option" where
  "gpt_loop array offset entry_size is_boot part_uuid node_ok root_fs pno mounted_root =
     (if offset < length array \<and> 0 < entry_size
      then if length array < offset + 128 then None
      else let entry = gpt_entry_of (field array offset 128) in
        if partition_type_guid entry = replicate 16 0
        then gpt_loop array (offset + entry_size) entry_size is_boot part_uuid node_ok root_fs pno mounted_root
        else let is_esp = (is_boot \<and> partition_guid entry = part_uuid);
                 pent = \<lparr> starting_lba = gpt_starting_lba entry, ending_lba = gpt_ending_lba entry \<rparr>;
                 mount =
                   (if \<not> node_ok then No_Mount
                    else if is_esp \<and> is_boot then (if root_fs pent then Mount_Boot else No_Mount)
                    else if is_boot \<and> \<not> mounted_root then (if root_fs pent then Mount_Root else No_Mount)
                    else No_Mount)
             in map_option (\<lambda>ps. (pno, pent, mount) # ps)
                  (gpt_loop array (offset + entry_size) entry_size is_boot part_uuid node_ok root_fs (pno + 1)
                    (mounted_root \<or> mount = Mount_Root))
      else Some [])"
  by pat_completeness auto
termination by (relation "measure (\<lambda>(array, offset, _). length array - offset)") auto
declare gpt_loop.simps [simp del]

text \<open>The header is read once, the array in one request; \<open>fresh\<close> is the buffer that the heap gives for it.\<close>

definition gpt_initialize_partitions ::
  "'d blkdev \<Rightarrow> 'd \<Rightarrow> (nat \<Rightarrow> u8 list) \<Rightarrow> u8 list \<Rightarrow> u8 list \<Rightarrow> bool \<Rightarrow> (partition_t \<Rightarrow> bool) \<Rightarrow>
   (nat \<times> partition_t \<times> mount_at) list option" where
  "gpt_initialize_partitions blk d fresh disk_uuid part_uuid node_ok root_fs =
     (let (ret, got) = blk_read blk d (1 * io_block_size blk) 96;
          header = put_at (replicate 96 0) 0 got
      in if sint ret \<le> 0 \<or> field header 0 8 \<noteq> GPT_SIGNATURE then Some []
         else let is_boot = (field header 56 16 = disk_uuid);
                  lba = (of_nat (le_nat (field header 72 8)) :: u64);
                  partition_array_lba = (if lba \<noteq> 0 then lba else 2);
                  partition_entry_size = le_nat (field header 84 4);
                  partition_count = le_nat (field header 80 4);
                  total_array_size = partition_count * partition_entry_size;
                  (ret2, got2) = blk_read blk d (partition_array_lba * io_block_size blk) (of_nat total_array_size);
                  array = put_at (fresh total_array_size) 0 got2
              in if sint ret2 \<le> 0 then Some []
                 else gpt_loop array 0 partition_entry_size is_boot part_uuid node_ok root_fs 1 False)"

end
