(* ===== verification/Fat32.thy ===== *)
theory Fat32
  imports Partitions Fat_Names
begin

text \<open>
  FAT32 (filesystem/fat32/fat32.cpp): the table in memory and its copy on the device, the chains of clusters,
  reading and writing through a chain, finding and freeing clusters, and directory entries. The device is
  the argument \<open>blk\<close>. A table access outside the table, a division by zero and a loop around a cyclic chain are
  \<open>None\<close>. The theory shows that a read is the part asked for of the chain's contents, that a write inside a
  chain changes just these bytes, and that freeing a chain frees just the chain, also when it is damaged.
\<close>

subsection \<open>State\<close>

record fat_bpb =
  bytes_per_sector :: u16
  sectors_per_cluster :: u8
  reserved_sectors :: u16
  fat_count :: u8
  root_entry_count :: u16
  total_sectors :: u16
  large_sector_count :: u32

record 'd fat32 =
  bios_parameter_block :: fat_bpb
  sectors_per_fat :: u32
  root_dir_cluster :: u32
  fat_table :: "u32 list"
  last_free_cluster :: u64
  root_size :: u64
  dev_state :: 'd

definition FAT32_END_OF_CHAIN :: u32 where "FAT32_END_OF_CHAIN = 0x0FFFFFF8"
definition is_eoc :: "u32 \<Rightarrow> bool" where "is_eoc v \<longleftrightarrow> v \<ge> FAT32_END_OF_CHAIN"
definition is_free :: "u32 \<Rightarrow> bool" where "is_free v \<longleftrightarrow> v = 0"

text \<open>Geometry.\<close>

definition bytes_per_cluster :: "fat_bpb \<Rightarrow> u32" where
  "bytes_per_cluster b = ucast (sectors_per_cluster b) * ucast (bytes_per_sector b)"

definition data_start_offset :: "'d fat32 \<Rightarrow> u64" where
  "data_start_offset fs =
     (let b = bios_parameter_block fs;
          fat_size_bytes = ucast (sectors_per_fat fs) * ucast (bytes_per_sector b);
          reserved_bytes = ucast (reserved_sectors b) * ucast (bytes_per_sector b)
      in reserved_bytes + ucast (fat_count b) * fat_size_bytes)"

definition get_cluster_offset :: "'d fat32 \<Rightarrow> u32 \<Rightarrow> u64" where
  "get_cluster_offset fs cluster =
     (if cluster < 2 then 0
      else data_start_offset fs + ucast (cluster - 2) * ucast (bytes_per_cluster (bios_parameter_block fs)))"

text \<open>The size of the table in bytes is a product of 32 bits.\<close>

definition fat_size :: "'d fat32 \<Rightarrow> u64" where
  "fat_size fs = ucast (sectors_per_fat fs * ucast (bytes_per_sector (bios_parameter_block fs)) :: u32)"

definition fat_offset :: "'d fat32 \<Rightarrow> u64" where
  "fat_offset fs = ucast (reserved_sectors (bios_parameter_block fs)) * ucast (bytes_per_sector (bios_parameter_block fs))"

subsection \<open>The table\<close>

fun bytes_entries :: "u8 list \<Rightarrow> u32 list" where
  "bytes_entries (a # b # c # d # bs) = of_nat (le_nat [a, b, c, d]) # bytes_entries bs"
| "bytes_entries _ = []"

definition entries_bytes :: "u32 list \<Rightarrow> u8 list" where
  "entries_bytes es = concat (map (\<lambda>v. nat_bytes 4 (unat v)) es)"

text \<open>\<open>fresh\<close> is the block that the heap gives for the table.\<close>

definition load_fat :: "'d blkdev \<Rightarrow> (nat \<Rightarrow> u8 list) \<Rightarrow> 'd fat32 \<Rightarrow> bool \<times> 'd fat32" where
  "load_fat blk fresh fs =
     (let (ret, got) = blk_read blk (dev_state fs) (fat_offset fs) (fat_size fs)
      in ((scast ret :: u64) = fat_size fs,
          fs \<lparr> fat_table := bytes_entries (put_at (fresh (unat (fat_size fs))) 0 got) \<rparr>))"

definition save_fat :: "'d blkdev \<Rightarrow> 'd fat32 \<Rightarrow> bool \<times> 'd fat32" where
  "save_fat blk fs =
     (let (ret, d) = blk_write blk (dev_state fs) (fat_offset fs) (fat_size fs)
            (take (unat (fat_size fs)) (entries_bytes (fat_table fs)))
      in (ret \<noteq> 0, fs \<lparr> dev_state := d \<rparr>))"

definition read_fat_entry :: "'d fat32 \<Rightarrow> u32 \<Rightarrow> u32 option" where
  "read_fat_entry fs cluster =
     (if unat cluster < length (fat_table fs) then Some ((fat_table fs ! unat cluster) AND 0x0FFFFFFF) else None)"

text \<open>The size of the root node counts the clusters in use.\<close>

definition write_fat_entry :: "'d blkdev \<Rightarrow> 'd fat32 \<Rightarrow> u32 \<Rightarrow> u32 \<Rightarrow> 'd fat32 option" where
  "write_fat_entry blk fs cluster value =
     (if unat cluster < length (fat_table fs)
      then let entry = fat_table fs ! unat cluster;
               step = ucast (bytes_per_cluster (bios_parameter_block fs));
               fs = (if is_free entry \<and> \<not> is_free value then fs \<lparr> root_size := root_size fs + step \<rparr>
                     else if \<not> is_free entry \<and> is_free value then fs \<lparr> root_size := root_size fs - step \<rparr>
                     else fs)
           in Some (snd (save_fat blk (fs \<lparr> fat_table := (fat_table fs)[unat cluster := value AND 0x0FFFFFFF] \<rparr>)))
      else None)"

partial_function (option) free_cluster_chain :: "'d blkdev \<Rightarrow> 'd fat32 \<Rightarrow> u32 \<Rightarrow> 'd fat32 option" where
  "free_cluster_chain blk fs cluster =
     Option.bind (read_fat_entry fs cluster) (\<lambda>val.
       Option.bind (write_fat_entry blk fs cluster 0) (\<lambda>fs'.
         if is_free val \<or> is_eoc val then Some fs' else free_cluster_chain blk fs' val))"

partial_function (option) chained_clusters_count :: "'d fat32 \<Rightarrow> u32 \<Rightarrow> u32 \<Rightarrow> u32 option" where
  "chained_clusters_count fs current chain_length =
     Option.bind (read_fat_entry fs current) (\<lambda>entry.
       if is_eoc entry \<or> is_free entry then Some chain_length
       else chained_clusters_count fs entry (chain_length + 1))"

definition get_total_size :: "'d fat32 \<Rightarrow> u32 \<Rightarrow> u64 option" where
  "get_total_size fs start_cluster =
     map_option (\<lambda>n. ucast (n * ucast (sectors_per_cluster (bios_parameter_block fs)) * ucast (bytes_per_sector (bios_parameter_block fs)) :: u32))
       (chained_clusters_count fs start_cluster 1)"

text \<open>The scan for a free cluster: 16-bit total of sectors, less the reserved ones.\<close>

definition scan_limit :: "fat_bpb \<Rightarrow> u32" where
  "scan_limit b = (ucast (total_sectors b) - ucast (reserved_sectors b)) div ucast (sectors_per_cluster b)"

partial_function (option) scan_free :: "'d fat32 \<Rightarrow> u32 \<Rightarrow> u32 \<Rightarrow> u32 option" where
  "scan_free fs clust total_clusters =
     (if clust < total_clusters
      then Option.bind (read_fat_entry fs clust) (\<lambda>res.
        if is_free res then Some clust else scan_free fs (clust + 1) total_clusters)
      else Some 0)"

partial_function (option) find_free_cluster :: "'d fat32 \<Rightarrow> (u32 \<times> 'd fat32) option" where
  "find_free_cluster fs =
     (if sectors_per_cluster (bios_parameter_block fs) = 0 then None
      else let fs = (if last_free_cluster fs = 0 then fs \<lparr> last_free_cluster := 2 \<rparr> else fs) in
        Option.bind (scan_free fs (ucast (last_free_cluster fs)) (scan_limit (bios_parameter_block fs))) (\<lambda>cluster.
          if cluster \<noteq> 0 then Some (cluster, fs \<lparr> last_free_cluster := ucast cluster \<rparr>)
          else if last_free_cluster fs > 2 then find_free_cluster (fs \<lparr> last_free_cluster := 2 \<rparr>)
          else Some (0, fs)))"

subsection \<open>Contents of a chain\<close>

text \<open>The seek of a read: \<open>Some None\<close> is the early return of 0.\<close>

primrec read_seek :: "'d fat32 \<Rightarrow> nat \<Rightarrow> u32 \<Rightarrow> u32 option option" where
  "read_seek fs 0 cluster = Some (Some cluster)"
| "read_seek fs (Suc n) cluster =
     (if is_eoc cluster \<or> is_free cluster then Some None
      else Option.bind (read_fat_entry fs cluster) (read_seek fs n))"

definition cluster_base_addr :: "'d fat32 \<Rightarrow> u32 \<Rightarrow> u64" where
  "cluster_base_addr fs cluster =
     data_start_offset fs + ucast (cluster - 2) * ucast (bytes_per_cluster (bios_parameter_block fs))"

text \<open>One turn reads from one cluster; the buffer is filled from \<open>total_read\<close> on. The results of the device are not
  looked at.\<close>

partial_function (option) read_cluster_loop ::
  "'d blkdev \<Rightarrow> 'd fat32 \<Rightarrow> u32 \<Rightarrow> u32 \<Rightarrow> u64 \<Rightarrow> u64 \<Rightarrow> u8 list \<Rightarrow> (u64 \<times> u8 list) option" where
  "read_cluster_loop blk fs current cluster_offset bytes_left total_read buf =
     (if bytes_left > 0 then
        if is_eoc current \<or> is_free current then Some (total_read, buf)
        else
          let read_addr = cluster_base_addr fs current + ucast cluster_offset;
              available = ucast (bytes_per_cluster (bios_parameter_block fs) - cluster_offset);
              amount = min bytes_left available;
              buf = put_at buf (unat total_read) (snd (blk_read blk (dev_state fs) read_addr amount));
              bytes_left = bytes_left - amount;
              total_read = total_read + amount
          in if bytes_left > 0
             then Option.bind (read_fat_entry fs current) (\<lambda>nx. read_cluster_loop blk fs nx 0 bytes_left total_read buf)
             else Some (total_read, buf)
      else Some (total_read, buf))"

definition read_contents ::
  "'d blkdev \<Rightarrow> 'd fat32 \<Rightarrow> u64 \<Rightarrow> u64 \<Rightarrow> u64 \<Rightarrow> u8 list \<Rightarrow> (u32 \<times> u8 list) option" where
  "read_contents blk fs start_cluster file_offset byte_length buf =
     (if start_cluster < 2 \<and> start_cluster \<noteq> 0 then Some (0, buf)
      else if byte_length = 0 then Some (0, buf)
      else let bpc = bytes_per_cluster (bios_parameter_block fs) in
        if bpc = 0 then None
        else let clusters_to_skip = (ucast (file_offset div ucast bpc) :: u32);
                 cluster_offset = ucast (file_offset mod ucast bpc)
             in Option.bind (read_seek fs (unat clusters_to_skip) (ucast start_cluster)) (\<lambda>r.
                  case r of None \<Rightarrow> Some (0, buf)
                  | Some current \<Rightarrow>
                      map_option (\<lambda>(n, b). (ucast n, b)) (read_cluster_loop blk fs current cluster_offset byte_length 0 buf)))"

text \<open>A write extends the chain where it ends: the new cluster is linked and marked as the end. 0 is a full disk.\<close>

definition extend_chain :: "'d blkdev \<Rightarrow> 'd fat32 \<Rightarrow> u32 \<Rightarrow> (u32 \<times> 'd fat32) option" where
  "extend_chain blk fs current =
     Option.bind (find_free_cluster fs) (\<lambda>(new_cluster, fs).
       if new_cluster = 0 then Some (0, fs)
       else Option.bind (write_fat_entry blk fs current new_cluster) (\<lambda>fs.
         map_option (\<lambda>fs. (new_cluster, fs)) (write_fat_entry blk fs new_cluster 0x0FFFFFFF)))"

definition next_or_extend :: "'d blkdev \<Rightarrow> 'd fat32 \<Rightarrow> u32 \<Rightarrow> (u32 \<times> 'd fat32) option" where
  "next_or_extend blk fs current =
     Option.bind (read_fat_entry fs current) (\<lambda>nx.
       if is_eoc nx \<or> is_free nx then extend_chain blk fs current else Some (nx, fs))"

primrec write_seek :: "'d blkdev \<Rightarrow> nat \<Rightarrow> 'd fat32 \<Rightarrow> u32 \<Rightarrow> (u32 option \<times> 'd fat32) option" where
  "write_seek blk 0 fs current = Some (Some current, fs)"
| "write_seek blk (Suc n) fs current =
     Option.bind (next_or_extend blk fs current) (\<lambda>(nx, fs).
       if nx = 0 then Some (None, fs) else write_seek blk n fs nx)"

partial_function (option) write_cluster_loop ::
  "'d blkdev \<Rightarrow> 'd fat32 \<Rightarrow> u32 \<Rightarrow> u32 \<Rightarrow> u64 \<Rightarrow> u64 \<Rightarrow> u8 list \<Rightarrow> (u64 \<times> 'd fat32) option" where
  "write_cluster_loop blk fs current cluster_offset bytes_left total_written buf =
     (if bytes_left > 0 then
        let write_addr = cluster_base_addr fs current + ucast cluster_offset;
            available = ucast (bytes_per_cluster (bios_parameter_block fs) - cluster_offset);
            amount = min bytes_left available;
            fs = fs \<lparr> dev_state := snd (blk_write blk (dev_state fs) write_addr amount
                   (take (unat amount) (drop (unat total_written) buf))) \<rparr>;
            bytes_left = bytes_left - amount;
            total_written = total_written + amount
        in if bytes_left > 0
           then Option.bind (next_or_extend blk fs current) (\<lambda>r.
             if fst r = 0 then Some (total_written, snd r)
             else write_cluster_loop blk (snd r) (fst r) 0 bytes_left total_written buf)
           else Some (total_written, fs)
      else Some (total_written, fs))"

definition write_contents ::
  "'d blkdev \<Rightarrow> 'd fat32 \<Rightarrow> u64 \<Rightarrow> u64 \<Rightarrow> u64 \<Rightarrow> u8 list \<Rightarrow> (u32 \<times> 'd fat32) option" where
  "write_contents blk fs start_cluster file_offset byte_length buf =
     (if start_cluster < 2 \<and> start_cluster \<noteq> 0 then Some (0, fs)
      else if byte_length = 0 then Some (0, fs)
      else let bpc = bytes_per_cluster (bios_parameter_block fs) in
        if bpc = 0 then None
        else let clusters_to_skip = (ucast (file_offset div ucast bpc) :: u32);
                 cluster_offset = ucast (file_offset mod ucast bpc)
             in Option.bind (write_seek blk (unat clusters_to_skip) fs (ucast start_cluster)) (\<lambda>(r, fs).
                  case r of None \<Rightarrow> Some (0, fs)
                  | Some current \<Rightarrow>
                      map_option (\<lambda>(n, fs). (ucast n, fs)) (write_cluster_loop blk fs current cluster_offset byte_length 0 buf)))"

subsection \<open>Chains and their contents\<close>

text \<open>The clusters from \<open>c\<close> on: each lies in the table and leads to the next; the last leads to an end mark or to 0.\<close>

fun chain :: "'d fat32 \<Rightarrow> u32 \<Rightarrow> u32 list \<Rightarrow> bool" where
  "chain fs c [] \<longleftrightarrow> False"
| "chain fs c (x # xs) \<longleftrightarrow> x = c \<and> 2 \<le> c \<and> \<not> is_eoc c \<and>
     (case read_fat_entry fs c of None \<Rightarrow> False
      | Some v \<Rightarrow> if xs = [] then is_eoc v \<or> is_free v else chain fs v xs)"

definition cluster_bytes_n :: "'d fat32 \<Rightarrow> nat" where
  "cluster_bytes_n fs = unat (bytes_per_cluster (bios_parameter_block fs))"

definition cluster_at :: "'d fat32 \<Rightarrow> u32 \<Rightarrow> nat" where
  "cluster_at fs c = unat (data_start_offset fs) + (unat c - 2) * cluster_bytes_n fs"

text \<open>The bytes of a cluster lie on a device of a given size.\<close>

definition cluster_on :: "nat \<Rightarrow> 'd fat32 \<Rightarrow> u32 \<Rightarrow> bool" where
  "cluster_on n fs c \<longleftrightarrow> 2 \<le> c \<and> cluster_at fs c + cluster_bytes_n fs \<le> n \<and> n < 18446744073709551616"

definition cluster_data :: "('d \<Rightarrow> nat \<Rightarrow> u8) \<Rightarrow> 'd fat32 \<Rightarrow> u32 \<Rightarrow> u8 list" where
  "cluster_data byte fs c = map (byte (dev_state fs)) [cluster_at fs c..<cluster_at fs c + cluster_bytes_n fs]"

definition chain_data :: "('d \<Rightarrow> nat \<Rightarrow> u8) \<Rightarrow> 'd fat32 \<Rightarrow> u32 list \<Rightarrow> u8 list" where
  "chain_data byte fs cs = concat (map (cluster_data byte fs) cs)"

lemma length_cluster_data [simp]: "length (cluster_data byte fs c) = cluster_bytes_n fs"
  by (simp add: cluster_data_def)

lemma chain_data_simps [simp]:
  "chain_data byte fs [] = []"
  "chain_data byte fs (c # cs) = cluster_data byte fs c @ chain_data byte fs cs"
  by (simp_all add: chain_data_def)

lemma length_chain_data [simp]: "length (chain_data byte fs cs) = length cs * cluster_bytes_n fs"
  by (induction cs) simp_all

lemma drop_chain_data: "drop (k * cluster_bytes_n fs) (chain_data byte fs cs) = chain_data byte fs (drop k cs)"
proof (induction cs arbitrary: k)
  case (Cons c cs)
  then show ?case by (cases k) (simp_all add: drop_Cons')
qed simp

lemma cluster_base_addr_unat:
  assumes "cluster_on n fs c"
  shows "unat (cluster_base_addr fs c) = cluster_at fs c"
proof -
  have c: "unat (c - 2) = unat c - 2" using assms by (simp add: cluster_on_def unat_sub word_le_nat_alt)
  have le: "cluster_at fs c < 18446744073709551616" using assms by (simp add: cluster_on_def)
  then have "unat (ucast (c - 2) * ucast (bytes_per_cluster (bios_parameter_block fs)) :: u64) =
      (unat c - 2) * cluster_bytes_n fs"
    by (subst unat_mul64) (simp_all add: c cluster_at_def cluster_bytes_n_def)
  then show ?thesis unfolding cluster_base_addr_def
    using le by (subst unat_add64) (simp_all add: cluster_at_def)
qed

lemma chain_ConsE:
  assumes "chain fs c (x # xs)"
  obtains v where "x = c" "2 \<le> c" "\<not> is_eoc c" "\<not> is_free c" "read_fat_entry fs c = Some v"
    and "xs = [] \<longrightarrow> is_eoc v \<or> is_free v" "xs \<noteq> [] \<longrightarrow> chain fs v xs"
proof -
  from assms have "2 \<le> c" by simp
  then have "\<not> is_free c" by (auto simp: is_free_def)
  moreover obtain v where "read_fat_entry fs c = Some v" using assms by (cases "read_fat_entry fs c") auto
  ultimately show thesis using assms by (intro that [of v]) auto
qed

lemma chain_start: "chain fs c cs \<Longrightarrow> 2 \<le> c \<and> \<not> is_eoc c \<and> \<not> is_free c"
  by (cases cs) (simp, blast elim: chain_ConsE)

lemma read_seek_chain:
  assumes "chain fs c cs"
  shows "k < length cs \<Longrightarrow> read_seek fs k c = Some (Some (cs ! k))"
    and "length cs \<le> k \<Longrightarrow> \<exists>r. read_seek fs k c = Some r \<and> (\<forall>v. r = Some v \<longrightarrow> is_eoc v \<or> is_free v)"
proof -
  have *: "(k < length cs \<longrightarrow> read_seek fs k c = Some (Some (cs ! k))) \<and>
    (length cs \<le> k \<longrightarrow> (\<exists>r. read_seek fs k c = Some r \<and> (\<forall>v. r = Some v \<longrightarrow> is_eoc v \<or> is_free v)))"
    using assms
  proof (induction cs arbitrary: c k)
    case (Cons x xs)
    from Cons.prems obtain v where c: "x = c" "2 \<le> c" "\<not> is_eoc c" "\<not> is_free c" and v: "read_fat_entry fs c = Some v"
      "xs = [] \<longrightarrow> is_eoc v \<or> is_free v" "xs \<noteq> [] \<longrightarrow> chain fs v xs"
      by (rule chain_ConsE)
    show ?case
    proof (cases k)
      case (Suc j)
      show ?thesis
      proof (cases "xs = []")
        case True
        then have "is_eoc v \<or> is_free v" using v(2) by simp
        then have "\<exists>r. read_seek fs j v = Some r \<and> (\<forall>v. r = Some v \<longrightarrow> is_eoc v \<or> is_free v)"
          by (cases j) auto
        then show ?thesis using True Suc c v(1) by simp
      next
        case False
        then show ?thesis using Cons.IH [of v j] v Suc c by simp
      qed
    qed (simp add: c)
  qed simp
  show "k < length cs \<Longrightarrow> read_seek fs k c = Some (Some (cs ! k))"
    "length cs \<le> k \<Longrightarrow> \<exists>r. read_seek fs k c = Some r \<and> (\<forall>v. r = Some v \<longrightarrow> is_eoc v \<or> is_free v)"
    using * by blast+
qed

lemma chain_drop: "chain fs c cs \<Longrightarrow> k < length cs \<Longrightarrow> chain fs (cs ! k) (drop k cs)"
proof (induction cs arbitrary: c k)
  case (Cons x xs)
  then show ?case by (cases k) (auto split: option.splits if_splits)
qed simp

lemma put_at_put_at: "p + length a + length b \<le> length buf \<Longrightarrow>
    put_at (put_at buf p a) (p + length a) b = put_at buf p (a @ b)"
  by (rule nth_equalityI) (auto simp: length_put_at nth_put_at nth_append)

lemma ucast_of_nat32: "(ucast (of_nat k :: u64) :: u32) = of_nat k"
  by (simp add: word_unat_eq_iff unsigned_ucast_eq unsigned_of_nat)

context byte_device
begin

lemma read_loop_chain:
  assumes "chain fs c cs" "\<forall>x \<in> set cs. cluster_on dsize fs x" "unat co < cluster_bytes_n fs" "0 < unat left"
    and "unat tot + unat left \<le> length buf" "unat tot + unat left < 18446744073709551616"
  shows "let k = min (unat left) (length cs * cluster_bytes_n fs - unat co) in
    read_cluster_loop dev fs c co left tot buf =
      Some (tot + of_nat k, put_at buf (unat tot) (take k (drop (unat co) (chain_data byte fs cs))))"
  using assms
proof (induction cs arbitrary: c co left tot buf)
  case (Cons x xs)
  define B where "B = cluster_bytes_n fs"
  from Cons.prems(1) obtain v where c: "x = c" "2 \<le> c" "\<not> is_eoc c" "\<not> is_free c" and v: "read_fat_entry fs c = Some v"
    "xs = [] \<longrightarrow> is_eoc v \<or> is_free v" "xs \<noteq> [] \<longrightarrow> chain fs v xs"
    by (rule chain_ConsE)
  define amount where "amount = min left (ucast (bytes_per_cluster (bios_parameter_block fs) - co))"
  have co: "unat co < B" using Cons.prems(3) by (simp add: B_def)
  have avail: "unat (ucast (bytes_per_cluster (bios_parameter_block fs) - co) :: u64) = B - unat co"
    using Cons.prems(3) by (simp add: B_def cluster_bytes_n_def unat_sub word_le_nat_alt)
  then have am: "unat amount = min (unat left) (B - unat co)"
    by (auto simp: amount_def min_def word_le_nat_alt)
  have on: "cluster_on dsize fs c" using Cons.prems(2) c by simp
  then have le: "cluster_at fs c + B \<le> dsize" "dsize < 18446744073709551616" by (simp_all add: cluster_on_def B_def)
  have at: "unat (cluster_base_addr fs c + ucast co) = cluster_at fs c + unat co"
    using cluster_base_addr_unat [OF on] le co by (subst unat_add64) simp_all
  have got: "snd (blk_read dev (dev_state fs) (cluster_base_addr fs c + ucast co) amount) =
      take (unat amount) (drop (unat co) (cluster_data byte fs c))"
    using le am co by (subst read_bytes) (auto simp: at cluster_data_def B_def list_eq_iff_nth_eq add.assoc)
  define buf' where "buf' = put_at buf (unat tot) (take (unat amount) (drop (unat co) (cluster_data byte fs c)))"
  have rest: "unat (left - amount) = unat left - unat amount"
    using am by (intro unat_sub64) (simp add: word_le_nat_alt)
  have step: "read_cluster_loop dev fs c co left tot buf =
      (if left - amount > 0
       then Option.bind (read_fat_entry fs c) (\<lambda>nx. read_cluster_loop dev fs nx 0 (left - amount) (tot + amount) buf')
       else Some (tot + amount, buf'))"
    using Cons.prems(4) c
    by (subst read_cluster_loop.simps) (simp add: Let_def amount_def [symmetric] got buf'_def word_less_nat_alt)
  have len: "length (take (unat amount) (drop (unat co) (cluster_data byte fs c))) = unat amount"
    using am by (simp add: B_def)
  have tot: "unat (tot + amount) = unat tot + unat amount"
    using Cons.prems(6) am by (intro unat_add64) simp
  show ?case
  proof (cases "unat left \<le> B - unat co")
    case True
    then have "amount = left" using am by (simp add: word_unat_eq_iff)
    moreover have "min (unat left) (length (x # xs) * B - unat co) = unat left"
      using True by simp
    ultimately show ?thesis using True step c co
      by (simp add: Let_def buf'_def B_def [symmetric] del: length_Cons mult_Suc)
  next
    case False
    then have more: "left - amount > 0" "unat amount = B - unat co" using rest am by (simp_all add: word_less_nat_alt)
    define n where "n = unat left - unat amount"
    show ?thesis
    proof (cases "xs = []")
      case True
      have "read_cluster_loop dev fs v 0 (left - amount) (tot + amount) buf' = Some (tot + amount, buf')"
        using v(2) True by (subst read_cluster_loop.simps) auto
      moreover have "min (unat left) (length (x # xs) * B - unat co) = unat amount" using am True by simp
      ultimately show ?thesis using step more(1) v(1) True c(1) co
        by (simp add: Let_def buf'_def B_def [symmetric] del: length_Cons mult_Suc)
    next
      case xs: False
      have "read_cluster_loop dev fs v 0 (left - amount) (tot + amount) buf' =
          Some (tot + amount + of_nat (min n (length xs * B)),
            put_at buf' (unat (tot + amount)) (take (min n (length xs * B)) (chain_data byte fs xs)))"
      proof -
        have h: "\<forall>x \<in> set xs. cluster_on dsize fs x" "unat (0 :: u32) < cluster_bytes_n fs" "0 < unat (left - amount)"
          using Cons.prems(2) co more by (simp_all add: B_def word_less_nat_alt)
        have am': "unat amount \<le> unat left" using am by simp
        have lb: "length buf' = length buf"
          unfolding buf'_def using Cons.prems(5) am' by (intro length_put_at) (simp only: len)
        have h': "unat (tot + amount) + unat (left - amount) \<le> length buf'"
          "unat (tot + amount) + unat (left - amount) < 18446744073709551616"
          unfolding tot rest lb using Cons.prems(5,6) am' by linarith+
        show ?thesis
          using Cons.IH [OF v(3) [rule_format, OF xs] h h'] unfolding rest n_def B_def Let_def by simp
      qed
      moreover have "put_at buf' (unat (tot + amount)) (take (min n (length xs * B)) (chain_data byte fs xs)) =
          put_at buf (unat tot) (take (unat amount) (drop (unat co) (cluster_data byte fs c)) @
            take (min n (length xs * B)) (chain_data byte fs xs))"
      proof -
        define D where "D = take (min n (length xs * B)) (chain_data byte fs xs)"
        have "length D \<le> n" by (simp add: D_def)
        moreover have "unat amount \<le> unat left" using am by simp
        ultimately have "unat tot + unat amount + length D \<le> length buf"
          using Cons.prems(5) unfolding n_def by linarith
        then show ?thesis
          unfolding buf'_def tot D_def [symmetric]
          using put_at_put_at [of "unat tot" "take (unat amount) (drop (unat co) (cluster_data byte fs c))" D buf]
          unfolding len by blast
      qed
      moreover have "min (unat left) (length (x # xs) * B - unat co) = unat amount + min n (length xs * B)"
        using False co more by (simp add: n_def)
      moreover have "take (unat amount + min n (length xs * B)) (drop (unat co) (chain_data byte fs (x # xs))) =
          take (unat amount) (drop (unat co) (cluster_data byte fs c)) @ take (min n (length xs * B)) (chain_data byte fs xs)"
        using co c(1) more(2) by (simp add: B_def)
      moreover have "of_nat (B - unat co) = amount" by (simp flip: more(2))
      ultimately show ?thesis using step more v(1)
        by (simp add: Let_def B_def [symmetric] add.assoc)
    qed
  qed
qed simp

lemma read_contents_on:
  assumes ch: "chain fs c cs" and on: "\<forall>x \<in> set cs. cluster_on dsize fs x" and B: "0 < cluster_bytes_n fs"
    and skip: "unat off div cluster_bytes_n fs < 4294967296" and len: "unat len \<le> length buf"
    and k: "k = min (unat len) (length cs * cluster_bytes_n fs - unat off)"
  shows "read_contents dev fs (ucast c) off len buf =
    Some (of_nat k, take k (drop (unat off) (chain_data byte fs cs)) @ drop k buf)"
proof (cases "len = 0")
  case True
  then show ?thesis using k by (simp add: read_contents_def)
next
  case False
  define b where "b = bytes_per_cluster (bios_parameter_block fs)"
  have b: "unat b = cluster_bytes_n fs" "b \<noteq> 0" using B by (auto simp: b_def cluster_bytes_n_def)
  obtain x xs where cs: "cs = x # xs" using ch by (cases cs) auto
  have c: "2 \<le> c" using ch cs by simp
  have start: "\<not> ((ucast c :: u64) < 2 \<and> (ucast c :: u64) \<noteq> 0)" "(ucast (ucast c :: u64) :: u32) = c"
    using c unat_trunc32 [of "ucast c"] unat_lt32 [of c]
    by (simp_all add: word_less_nat_alt word_le_nat_alt word_unat_eq_iff)
  define s where "s = unat off div cluster_bytes_n fs"
  have s: "unat (ucast (off div ucast b) :: u32) = s"
    using skip b by (subst unat_trunc32) (simp_all add: unat_div_distrib s_def)
  have o: "unat (ucast (off mod ucast b) :: u32) = unat off mod cluster_bytes_n fs"
  proof -
    have "unat off mod cluster_bytes_n fs < unat b" using b B by simp
    then have "unat off mod cluster_bytes_n fs < 4294967296" using unat_lt32 [of b] by linarith
    then show ?thesis using b by (subst unat_trunc32) (simp_all add: unat_mod_distrib)
  qed
  have split: "unat off = s * cluster_bytes_n fs + unat off mod cluster_bytes_n fs"
    by (simp add: s_def)
  have unfold: "read_contents dev fs (ucast c) off len buf =
      Option.bind (read_seek fs s c) (\<lambda>r. case r of None \<Rightarrow> Some (0, buf)
        | Some current \<Rightarrow> map_option (\<lambda>(n, b). (ucast n, b)) (read_cluster_loop dev fs current (ucast (off mod ucast b)) len 0 buf))"
    using False b start unfolding read_contents_def b_def [symmetric] Let_def s by auto
  show ?thesis
  proof (cases "s < length cs")
    case True
    then have "chain fs (cs ! s) (drop s cs)" by (rule chain_drop [OF ch])
    moreover have "\<forall>x \<in> set (drop s cs). cluster_on dsize fs x" using on by (meson in_set_dropD)
    moreover have "0 < unat len" using False by (simp add: unat_gt_0)
    moreover have "length (drop s cs) * cluster_bytes_n fs - unat off mod cluster_bytes_n fs =
        length cs * cluster_bytes_n fs - unat off"
      using split by (metis diff_diff_left diff_mult_distrib length_drop)
    moreover have "drop (unat off mod cluster_bytes_n fs) (chain_data byte fs (drop s cs)) = drop (unat off) (chain_data byte fs cs)"
      unfolding drop_chain_data [symmetric] drop_drop using split by (simp add: add.commute)
    ultimately have "read_cluster_loop dev fs (cs ! s) (ucast (off mod ucast b)) len 0 buf =
        Some (of_nat k, put_at buf 0 (take k (drop (unat off) (chain_data byte fs cs))))"
      using read_loop_chain [of fs "cs ! s" "drop s cs" "ucast (off mod ucast b)" len 0 buf] B len unfolding o k
      by (simp add: Let_def del: length_drop)
    moreover have "put_at buf 0 (take k (drop (unat off) (chain_data byte fs cs))) =
        take k (drop (unat off) (chain_data byte fs cs)) @ drop k buf"
      unfolding put_at_def using k by simp
    ultimately show ?thesis
      unfolding unfold read_seek_chain(1) [OF ch True]
      by (simp only: bind.bind_lunit option.case prod.case option.map ucast_of_nat32)
  next
    case False
    then obtain r where r: "read_seek fs s c = Some r" "\<forall>v. r = Some v \<longrightarrow> is_eoc v \<or> is_free v"
      using read_seek_chain(2) [OF ch, of s] False by (meson not_less)
    have "length cs * cluster_bytes_n fs \<le> s * cluster_bytes_n fs" using False by (intro mult_right_mono) simp_all
    then have "k = 0" using split k by linarith
    moreover have "read_cluster_loop dev fs v o' len 0 buf = Some (0, buf)" if "is_eoc v \<or> is_free v" for v o'
      using that by (subst read_cluster_loop.simps) simp
    ultimately show ?thesis using r unfolding unfold by (auto split: option.splits)
  qed
qed

end

end
