(* ===== verification/Fat32_Table.thy ===== *)
theory Fat32_Table
  imports Fat32
begin

text \<open>
  Changes of the table of FAT32: what a change leaves alone, freeing a chain, finding a free cluster, and what
  happens on a damaged table.
\<close>

subsection \<open>Changing the table\<close>

text \<open>What a change of the table leaves alone.\<close>

lemma write_fat_entry_Some:
  assumes "unat c < length (fat_table fs)"
  obtains fs' where "write_fat_entry blk fs c v = Some fs'"
    and "\<forall>x. read_fat_entry fs' x = (if x = c then Some (v AND 0x0FFFFFFF) else read_fat_entry fs x)"
    and "length (fat_table fs') = length (fat_table fs)"
    and "bios_parameter_block fs' = bios_parameter_block fs" "sectors_per_fat fs' = sectors_per_fat fs"
    and "last_free_cluster fs' = last_free_cluster fs" "root_dir_cluster fs' = root_dir_cluster fs"
    and "dev_state fs' = snd (blk_write blk (dev_state fs) (fat_offset fs) (fat_size fs)
      (take (unat (fat_size fs)) (entries_bytes (fat_table fs'))))"
proof -
  obtain fs' where fs': "write_fat_entry blk fs c v = Some fs'" using assms by (simp add: write_fat_entry_def Let_def)
  show thesis
    by (rule that [OF fs'])
      (use fs' assms in \<open>auto simp: write_fat_entry_def Let_def save_fat_def read_fat_entry_def fat_offset_def fat_size_def
        word_unat_eq_iff nth_list_update split: if_splits prod.splits\<close>)
qed

text \<open>The geometry is that of the device parameters alone.\<close>

definition same_geometry :: "'d fat32 \<Rightarrow> 'd fat32 \<Rightarrow> bool" where
  "same_geometry fs fs' \<longleftrightarrow> bios_parameter_block fs' = bios_parameter_block fs \<and> sectors_per_fat fs' = sectors_per_fat fs \<and>
     root_dir_cluster fs' = root_dir_cluster fs \<and> length (fat_table fs') = length (fat_table fs)"

lemma same_geometry_refl [simp]: "same_geometry fs fs" by (simp add: same_geometry_def)

lemma same_geometry_trans: "same_geometry fs fs' \<Longrightarrow> same_geometry fs' fs'' \<Longrightarrow> same_geometry fs fs''"
  by (simp add: same_geometry_def)

lemma same_geometryD:
  assumes "same_geometry fs fs'"
  shows "cluster_bytes_n fs' = cluster_bytes_n fs" "cluster_at fs' = cluster_at fs" "cluster_on n fs' = cluster_on n fs"
    "fat_offset fs' = fat_offset fs" "fat_size fs' = fat_size fs" "cluster_base_addr fs' = cluster_base_addr fs"
    "data_start_offset fs' = data_start_offset fs"
  using assms by (auto simp: same_geometry_def cluster_bytes_n_def cluster_at_def data_start_offset_def cluster_on_def
      fat_offset_def fat_size_def cluster_base_addr_def fun_eq_iff)

text \<open>A chain depends only on the entries of its clusters, and it does not meet itself.\<close>

lemma chain_cong: "chain fs c cs \<Longrightarrow> \<forall>x \<in> set cs. read_fat_entry fs' x = read_fat_entry fs x \<Longrightarrow> chain fs' c cs"
  by (induction cs arbitrary: c) (auto split: option.splits if_splits)

lemma chain_unique: "chain fs c cs \<Longrightarrow> chain fs c ds \<Longrightarrow> cs = ds"
proof (induction cs arbitrary: c ds)
  case (Cons x xs)
  obtain y ys where ds: "ds = y # ys" using Cons.prems(2) by (cases ds) auto
  obtain v where v: "x = c" "read_fat_entry fs c = Some v" "xs = [] \<longrightarrow> is_eoc v \<or> is_free v" "xs \<noteq> [] \<longrightarrow> chain fs v xs"
    using Cons.prems(1) by (elim chain_ConsE) blast
  obtain w where w: "y = c" "read_fat_entry fs c = Some w" "ys = [] \<longrightarrow> is_eoc w \<or> is_free w" "ys \<noteq> [] \<longrightarrow> chain fs w ys"
    using Cons.prems(2) unfolding ds by (elim chain_ConsE) blast
  have "\<not> (is_eoc u \<or> is_free u)" if "chain fs u us" for u us
    using chain_start [OF that] by blast
  then have "xs = [] \<longleftrightarrow> ys = []" using v w by fastforce
  moreover have "xs = ys" if "xs \<noteq> []" "ys \<noteq> []" using Cons.IH v w that by auto
  ultimately show ?case using ds v w by auto
qed simp

lemma chain_distinct: "chain fs c cs \<Longrightarrow> distinct cs"
proof -
  assume ch: "chain fs c cs"
  have "cs ! i \<noteq> cs ! j" if "i < j" "j < length cs" for i j
  proof
    assume "cs ! i = cs ! j"
    then have "chain fs (cs ! j) (drop i cs)" "chain fs (cs ! j) (drop j cs)"
      using chain_drop [OF ch, of i] chain_drop [OF ch, of j] that by simp_all
    then have "length (drop i cs) = length (drop j cs)" by (metis chain_unique)
    with that show False by simp
  qed
  then show "distinct cs" by (metis distinct_conv_nth linorder_neqE_nat)
qed

lemma chain_bound: "chain fs c cs \<Longrightarrow> x \<in> set cs \<Longrightarrow> unat x < length (fat_table fs) \<and> 2 \<le> x \<and> \<not> is_eoc x"
proof (induction cs arbitrary: c)
  case (Cons y ys)
  obtain v where v: "y = c" "2 \<le> c" "\<not> is_eoc c" "read_fat_entry fs c = Some v" "ys \<noteq> [] \<longrightarrow> chain fs v ys"
    using Cons.prems(1) by (elim chain_ConsE) blast
  then have "unat c < length (fat_table fs)" by (simp add: read_fat_entry_def split: if_splits)
  with v Cons show ?case by (cases "ys = []") auto
qed simp

text \<open>Freeing a chain.\<close>

lemma free_chain_exact:
  assumes "chain fs c cs"
  shows "\<exists>fs'. free_cluster_chain blk fs c = Some fs' \<and> same_geometry fs fs' \<and> last_free_cluster fs' = last_free_cluster fs \<and>
    (\<forall>x. read_fat_entry fs' x = (if x \<in> set cs then Some 0 else read_fat_entry fs x))"
  using assms
proof (induction cs arbitrary: c fs)
  case (Cons x xs)
  obtain v where v: "x = c" "\<not> is_eoc c" "\<not> is_free c" "read_fat_entry fs c = Some v"
    "xs = [] \<longrightarrow> is_eoc v \<or> is_free v" "xs \<noteq> [] \<longrightarrow> chain fs v xs"
    using Cons.prems by (elim chain_ConsE) blast
  have "unat c < length (fat_table fs)" using v(4) by (simp add: read_fat_entry_def split: if_splits)
  then obtain fs1 where fs1: "write_fat_entry blk fs c 0 = Some fs1"
    "\<forall>x. read_fat_entry fs1 x = (if x = c then Some (0 AND 0x0FFFFFFF) else read_fat_entry fs x)"
    "length (fat_table fs1) = length (fat_table fs)" "bios_parameter_block fs1 = bios_parameter_block fs"
    "sectors_per_fat fs1 = sectors_per_fat fs" "last_free_cluster fs1 = last_free_cluster fs"
    "root_dir_cluster fs1 = root_dir_cluster fs"
    by (rule write_fat_entry_Some [where blk = blk and v = 0]) blast
  have geo: "same_geometry fs fs1" using fs1 by (simp add: same_geometry_def)
  have step: "free_cluster_chain blk fs c = (if is_free v \<or> is_eoc v then Some fs1 else free_cluster_chain blk fs1 v)"
    by (subst free_cluster_chain.simps) (simp add: v(4) fs1(1))
  show ?case
  proof (cases "xs = []")
    case True
    then show ?thesis using step v geo fs1 by auto
  next
    case False
    then have ch: "chain fs v xs" using v by simp
    have "c \<notin> set xs" using chain_distinct [OF Cons.prems] v(1) by simp
    then have "chain fs1 v xs" using fs1(2) by (intro chain_cong [OF ch]) auto
    from Cons.IH [OF this] obtain fs' where fs': "free_cluster_chain blk fs1 v = Some fs'" "same_geometry fs1 fs'"
      "last_free_cluster fs' = last_free_cluster fs1"
      "\<forall>x. read_fat_entry fs' x = (if x \<in> set xs then Some 0 else read_fat_entry fs1 x)" by blast
    have "\<not> (is_free v \<or> is_eoc v)" using chain_start [OF ch] by blast
    then show ?thesis using step fs' fs1 geo v(1) same_geometry_trans by (auto split: if_splits)
  qed
qed simp

subsection \<open>Finding a free cluster\<close>

definition free_in :: "'d fat32 \<Rightarrow> u32 \<Rightarrow> bool" where
  "free_in fs c \<longleftrightarrow> read_fat_entry fs c = Some 0"

text \<open>The free clusters of the range of a search that starts at \<open>a\<close>; only entries of the table count. A search
  that finds none ends at its limit, unless the limit lies behind the table.\<close>

definition free_from :: "'d fat32 \<Rightarrow> u32 \<Rightarrow> u32 set" where
  "free_from fs a = {x. a \<le> x \<and> x < scan_limit (bios_parameter_block fs) \<and> free_in fs x}"

definition scan_ends :: "'d fat32 \<Rightarrow> u32 \<Rightarrow> bool" where
  "scan_ends fs a \<longleftrightarrow> scan_limit (bios_parameter_block fs) \<le> a \<or>
     unat (scan_limit (bios_parameter_block fs)) \<le> length (fat_table fs)"

lemma free_from_in_table: "x \<in> free_from fs a \<Longrightarrow> unat x < length (fat_table fs)"
  by (auto simp: free_from_def free_in_def read_fat_entry_def split: if_splits)

lemma free_from_Min:
  assumes "free_from fs a \<noteq> {}"
  shows "Min (free_from fs a) \<in> free_from fs a"
  by (rule Min_in) (simp_all add: assms)

lemma free_from_least: "a \<in> free_from fs a \<Longrightarrow> Min (free_from fs a) = a"
  by (rule Min_eqI) (simp_all add: free_from_def)

lemma scan_free_exact:
  assumes "k \<noteq> 0"
  shows "scan_free fs k (scan_limit (bios_parameter_block fs)) =
    (if free_from fs k \<noteq> {} then Some (Min (free_from fs k)) else if scan_ends fs k then Some 0 else None)"
  using assms
proof (induction "unat (scan_limit (bios_parameter_block fs)) - unat k" arbitrary: k rule: less_induct)
  case less
  define limit where "limit = scan_limit (bios_parameter_block fs)"
  show ?case
  proof (cases "k < limit")
    case False
    then show ?thesis
      by (subst scan_free.simps) (auto simp: limit_def free_from_def scan_ends_def not_less)
  next
    case True
    then have k: "unat k < unat limit" by (simp add: word_less_nat_alt)
    show ?thesis
    proof (cases "unat k < length (fat_table fs)")
      case False
      have "free_from fs k = {}"
      proof (rule ccontr)
        assume "free_from fs k \<noteq> {}"
        then obtain x where "x \<in> free_from fs k" by blast
        then show False using free_from_in_table [of x fs k] False by (simp add: free_from_def word_le_nat_alt)
      qed
      moreover have "\<not> scan_ends fs k" using True k False by (auto simp: scan_ends_def limit_def not_le)
      moreover have "scan_free fs k limit = None"
        using True False by (subst scan_free.simps) (simp add: read_fat_entry_def)
      ultimately show ?thesis by (simp add: limit_def)
    next
      case inside: True
      then obtain v where v: "read_fat_entry fs k = Some v" by (simp add: read_fat_entry_def)
      show ?thesis
      proof (cases "is_free v")
        case free: True
        then have "k \<in> free_from fs k" using True v by (simp add: free_from_def free_in_def is_free_def limit_def)
        then show ?thesis using free_from_least [of k fs] True v free
          by (subst scan_free.simps) (auto simp: limit_def)
      next
        case False
        have "unat k + 1 < 4294967296" using k unat_lt32 [of limit] by linarith
        then have s: "unat (k + 1) = unat k + 1" using unat_add32 [of k 1] by simp
        then have nz: "k + 1 \<noteq> 0" by (metis add_is_0 unat_0 zero_neq_one)
        have "scan_free fs k limit = scan_free fs (k + 1) limit"
          using True v False by (subst scan_free.simps) simp
        moreover have "unat limit - unat (k + 1) < unat limit - unat k" using k s by simp
        moreover have "free_from fs k = free_from fs (k + 1)"
        proof -
          have "\<not> free_in fs k" using v False by (simp add: free_in_def is_free_def)
          moreover have "k \<le> c \<longleftrightarrow> c = k \<or> k + 1 \<le> c" for c
            using s by (auto simp: word_le_nat_alt word_unat_eq_iff)
          ultimately show ?thesis by (auto simp: free_from_def)
        qed
        moreover have "scan_ends fs k = scan_ends fs (k + 1)"
          using True k s inside by (auto simp: scan_ends_def limit_def word_le_nat_alt not_le)
        ultimately show ?thesis using less.hyps [of "k + 1"] nz by (simp add: limit_def)
      qed
    qed
  qed
qed

text \<open>The hint is 0 or a cluster number.\<close>

definition hint_ok :: "'d fat32 \<Rightarrow> bool" where
  "hint_ok fs \<longleftrightarrow> last_free_cluster fs \<noteq> 1 \<and> unat (last_free_cluster fs) < 4294967296"

lemma read_fat_entry_hint [simp]: "read_fat_entry (fs \<lparr> last_free_cluster := l \<rparr>) = read_fat_entry fs"
  by (simp add: read_fat_entry_def fun_eq_iff)

lemma free_in_hint [simp]: "free_in (fs \<lparr> last_free_cluster := l \<rparr>) = free_in fs"
  by (simp add: free_in_def fun_eq_iff)

lemma free_from_hint [simp]: "free_from (fs \<lparr> last_free_cluster := l \<rparr>) = free_from fs"
  by (simp add: free_from_def fun_eq_iff)

lemma scan_ends_hint [simp]: "scan_ends (fs \<lparr> last_free_cluster := l \<rparr>) = scan_ends fs"
  by (simp add: scan_ends_def fun_eq_iff)

text \<open>Where a search starts.\<close>

definition scan_start :: "'d fat32 \<Rightarrow> u32" where
  "scan_start fs = (if last_free_cluster fs = 0 then 2 else ucast (last_free_cluster fs))"

lemma scan_start_ok:
  assumes "hint_ok fs"
  shows "2 \<le> scan_start fs" "ucast (scan_start fs) = (if last_free_cluster fs = 0 then 2 else last_free_cluster fs)"
proof -
  have n: "unat (last_free_cluster fs) < 4294967296" "unat (last_free_cluster fs) \<noteq> 1"
    using assms unfolding hint_ok_def by (simp, metis unat_1 word_unat_eq_iff)
  have u: "unat (ucast (last_free_cluster fs) :: u32) = unat (last_free_cluster fs)" using n(1) by (rule unat_trunc32)
  then show "2 \<le> scan_start fs" using n(2) by (auto simp: scan_start_def word_le_nat_alt unat_eq_zero) (metis less_2_cases not_le unat_eq_zero)
  show "ucast (scan_start fs) = (if last_free_cluster fs = 0 then 2 else last_free_cluster fs)"
    using u by (simp add: scan_start_def word_unat_eq_iff unsigned_ucast_eq take_bit_nat_eq_self unat_lt32)
qed

lemma find_free_step:
  assumes "hint_ok fs" "sectors_per_cluster (bios_parameter_block fs) \<noteq> 0"
  shows "find_free_cluster fs =
    (if free_from fs (scan_start fs) \<noteq> {}
     then Some (Min (free_from fs (scan_start fs)), fs \<lparr> last_free_cluster := ucast (Min (free_from fs (scan_start fs))) \<rparr>)
     else if \<not> scan_ends fs (scan_start fs) then None
     else if scan_start fs > 2 then find_free_cluster (fs \<lparr> last_free_cluster := 2 \<rparr>)
     else Some (0, fs \<lparr> last_free_cluster := 2 \<rparr>))"
proof -
  define h :: u64 where "h = ucast (scan_start fs)"
  have s2: "2 \<le> scan_start fs" using scan_start_ok(1) [OF assms(1)] .
  then have nz: "scan_start fs \<noteq> 0" by (auto simp: word_le_nat_alt)
  have h: "(if last_free_cluster fs = 0 then fs \<lparr> last_free_cluster := 2 \<rparr> else fs) = fs \<lparr> last_free_cluster := h \<rparr>"
    using scan_start_ok(2) [OF assms(1)] by (simp add: h_def)
  have down: "(ucast h :: u32) = scan_start fs" unfolding h_def by (simp add: ucast_up_ucast_id is_up)
  have "h > 2 \<longleftrightarrow> scan_start fs > 2" "scan_start fs = 2 \<longleftrightarrow> h = 2"
    by (simp_all add: h_def word_less_nat_alt word_unat_eq_iff unsigned_ucast_eq take_bit_nat_eq_self unat_lt32)
  moreover have "scan_start fs = 2 \<or> scan_start fs > 2" using s2 by auto
  moreover have "Min (free_from fs (scan_start fs)) \<noteq> 0" if "free_from fs (scan_start fs) \<noteq> {}"
    using free_from_Min [OF that] s2 by (auto simp: free_from_def word_le_nat_alt)
  ultimately show ?thesis
    using assms(2) scan_free_exact [OF nz, of "fs \<lparr> last_free_cluster := h \<rparr>"]
    by (subst find_free_cluster.simps) (auto simp: Let_def h down)
qed

lemma find_free_from_2:
  assumes "sectors_per_cluster (bios_parameter_block fs) \<noteq> 0"
  shows "find_free_cluster (fs \<lparr> last_free_cluster := 2 \<rparr>) =
    (if free_from fs 2 \<noteq> {} then Some (Min (free_from fs 2), fs \<lparr> last_free_cluster := ucast (Min (free_from fs 2)) \<rparr>)
     else if scan_ends fs 2 then Some (0, fs \<lparr> last_free_cluster := 2 \<rparr>) else None)"
proof -
  have "hint_ok (fs \<lparr> last_free_cluster := 2 \<rparr>)" "scan_start (fs \<lparr> last_free_cluster := 2 \<rparr>) = 2"
    by (simp_all add: hint_ok_def scan_start_def)
  then show ?thesis using find_free_step [of "fs \<lparr> last_free_cluster := 2 \<rparr>"] assms by simp
qed

text \<open>How many searches in a row are sure to return: any number where the limit lies within the table, and
  otherwise as many as there are free clusters from the hint on.\<close>

definition supplied :: "'d fat32 \<Rightarrow> nat \<Rightarrow> bool" where
  "supplied fs m \<longleftrightarrow> unat (scan_limit (bios_parameter_block fs)) \<le> length (fat_table fs) \<or>
     m \<le> card (free_from fs (scan_start fs))"

lemma supplied_0 [simp]: "supplied fs 0" by (simp add: supplied_def)

lemma supplied_mono: "supplied fs m \<Longrightarrow> k \<le> m \<Longrightarrow> supplied fs k" by (auto simp: supplied_def)

lemma find_free_cluster_finds:
  assumes "sectors_per_cluster (bios_parameter_block fs) \<noteq> 0" "hint_ok fs" "supplied fs 1"
  shows "\<exists>c l. find_free_cluster fs = Some (c, fs \<lparr> last_free_cluster := l \<rparr>) \<and> 2 \<le> l \<and> unat l < 4294967296 \<and>
    (if c = 0 then free_from fs 2 = {}
     else 2 \<le> c \<and> c \<in> free_from fs 2 \<and>
       (unat (scan_limit (bios_parameter_block fs)) \<le> length (fat_table fs) \<or> l = ucast c \<and> c = Min (free_from fs (scan_start fs))))"
proof -
  note step = find_free_step [OF assms(2,1)]
  have s2: "2 \<le> scan_start fs" using scan_start_ok(1) [OF assms(2)] .
  have sub: "free_from fs (scan_start fs) \<subseteq> free_from fs 2" using s2 by (auto simp: free_from_def)
  have up: "2 \<le> (ucast c :: u64)" "unat (ucast c :: u64) < 4294967296" if "2 \<le> c" for c :: u32
    using that unat_lt32 [of c] by (simp_all add: word_le_nat_alt unsigned_ucast_eq take_bit_nat_eq_self)
  have ge: "2 \<le> c \<and> c \<noteq> 0" if "c \<in> free_from fs 2" for c using that by (auto simp: free_from_def word_le_nat_alt)
  show ?thesis
  proof (cases "free_from fs (scan_start fs) = {}")
    case False
    define c where "c = Min (free_from fs (scan_start fs))"
    have "c \<in> free_from fs 2" using free_from_Min [OF False] sub by (auto simp: c_def)
    then show ?thesis using step False ge [of c] up [of c]
      by (intro exI [of _ c] exI [of _ "ucast c"]) (simp add: c_def [symmetric])
  next
    case True
    then have lim: "unat (scan_limit (bios_parameter_block fs)) \<le> length (fat_table fs)" using assms(3) by (simp add: supplied_def)
    then have ends: "scan_ends fs a" for a by (simp add: scan_ends_def)
    have e: "find_free_cluster fs =
        (if free_from fs 2 \<noteq> {} then Some (Min (free_from fs 2), fs \<lparr> last_free_cluster := ucast (Min (free_from fs 2)) \<rparr>)
         else Some (0, fs \<lparr> last_free_cluster := 2 \<rparr>))"
    proof (cases "scan_start fs > 2")
      case gt: True
      then show ?thesis using step True ends find_free_from_2 [OF assms(1)] by simp
    next
      case False
      then have "scan_start fs = 2" using s2 by simp
      then show ?thesis using step True ends by simp
    qed
    show ?thesis
    proof (cases "free_from fs 2 = {}")
      case True
      then show ?thesis using e by (intro exI [of _ 0] exI [of _ 2]) simp
    next
      case False
      define c where "c = Min (free_from fs 2)"
      have "c \<in> free_from fs 2" using free_from_Min [OF False] by (simp add: c_def)
      then show ?thesis using e False lim ge [of c] up [of c]
        by (intro exI [of _ c] exI [of _ "ucast c"]) (simp add: c_def [symmetric])
    qed
  qed
qed

text \<open>C30: The search for a free cluster, for every sector count. It starts at the hint; the first free cluster from
  there on below the limit is returned and becomes the hint. If there is none and the limit lies within the table, the
  search starts again at 2 and returns the first free cluster of the volume, or 0 exactly when there is none. A limit
  behind the table, which the 16-bit sector count gives on the volumes that leave it 0, does not stop the search:
  with no free cluster from the hint on it reads past the table, whether or not there are free ones below the hint.\<close>

theorem find_free_cluster_complete:
  assumes "sectors_per_cluster (bios_parameter_block fs) \<noteq> 0" "hint_ok fs"
  shows "find_free_cluster fs =
    (if free_from fs (scan_start fs) \<noteq> {}
     then Some (Min (free_from fs (scan_start fs)), fs \<lparr> last_free_cluster := ucast (Min (free_from fs (scan_start fs))) \<rparr>)
     else if \<not> scan_ends fs (scan_start fs) then None
     else if free_from fs 2 \<noteq> {}
     then Some (Min (free_from fs 2), fs \<lparr> last_free_cluster := ucast (Min (free_from fs 2)) \<rparr>)
     else if scan_ends fs 2 then Some (0, fs \<lparr> last_free_cluster := 2 \<rparr>) else None)"
proof (cases "scan_start fs > 2")
  case True
  then show ?thesis using find_free_step [OF assms(2,1)] find_free_from_2 [OF assms(1)] by simp
next
  case False
  then have "scan_start fs = 2" using scan_start_ok(1) [OF assms(2)] by simp
  then show ?thesis using find_free_step [OF assms(2,1)] by simp
qed

text \<open>A volume of two free clusters and a chain of two, with the hint beyond the free ones.\<close>

definition example_bpb :: fat_bpb where
  "example_bpb = \<lparr> bytes_per_sector = 16, sectors_per_cluster = 1, reserved_sectors = 1, fat_count = 1, root_entry_count = 0,
     total_sectors = 7, large_sector_count = 0 \<rparr>"

definition example_fat :: "mem fat32" where
  "example_fat = \<lparr> bios_parameter_block = example_bpb, sectors_per_fat = 2, root_dir_cluster = 2,
     fat_table = [0, 0, 4, 0, 0x0FFFFFFF, 0x0FFFFFFF, 0, 0], last_free_cluster = 5, root_size = 0, dev_state = (\<lambda>_. 0) \<rparr>"

text \<open>The same volume with the sector count of 0 that FAT32 prescribes, with the last two clusters in use as well:
  cluster 3 is free, but the search from the hint 5 leaves the table.\<close>

definition example_zero_count :: "mem fat32" where
  "example_zero_count = example_fat \<lparr> bios_parameter_block := example_bpb \<lparr> total_sectors := 0 \<rparr>,
     fat_table := [0, 0, 4, 0, 0x0FFFFFFF, 0x0FFFFFFF, 0x0FFFFFFF, 0x0FFFFFFF] \<rparr>"

theorem find_free_cluster_complete_witness:
  "(\<exists>fs'. find_free_cluster example_fat = Some (3, fs')) \<and>
   find_free_cluster example_zero_count = None \<and> free_in example_zero_count 3"
proof -
  have lim: "scan_limit (bios_parameter_block example_fat) = 6" "scan_limit (bios_parameter_block example_zero_count) = 0xFFFFFFFF"
    by (simp_all add: scan_limit_def example_fat_def example_zero_count_def example_bpb_def)
  have st: "scan_start example_fat = 5" "scan_start example_zero_count = 5"
    by (simp_all add: scan_start_def example_fat_def example_zero_count_def)
  have none: "free_from example_zero_count 5 = {}"
  proof (rule ccontr)
    assume "free_from example_zero_count 5 \<noteq> {}"
    then obtain x where x: "x \<in> free_from example_zero_count 5" by blast
    have "unat x < 8" using free_from_in_table [OF x] by (simp add: example_zero_count_def)
    moreover have "5 \<le> unat x" using x by (simp add: free_from_def word_le_nat_alt)
    ultimately have "unat x = 5 \<or> unat x = 6 \<or> unat x = 7" by linarith
    then show False using x by (elim disjE) (simp_all add: free_from_def free_in_def read_fat_entry_def example_zero_count_def)
  qed
  have x: "x \<in> free_from example_fat a \<longleftrightarrow> a \<le> x \<and> x = 3" if "2 \<le> a" for x a :: u32
  proof
    assume xin: "x \<in> free_from example_fat a"
    then have "unat x < 6" "2 \<le> unat x" using that by (simp_all add: free_from_def lim word_less_nat_alt word_le_nat_alt)
    then have "unat x = 2 \<or> unat x = 3 \<or> unat x = 4 \<or> unat x = 5" by linarith
    then show "a \<le> x \<and> x = 3" using xin
      by (elim disjE) (simp_all add: free_from_def free_in_def read_fat_entry_def example_fat_def word_unat_eq_iff)
  next
    assume "a \<le> x \<and> x = 3"
    then have "a \<le> 3" "x = 3" by auto
    then show "x \<in> free_from example_fat a"
      by (simp add: free_from_def free_in_def read_fat_entry_def lim) (simp add: example_fat_def)
  qed
  have "free_from example_fat 5 = {}" "free_from example_fat 2 = {3}" using x by auto
  moreover have "scan_ends example_fat a" for a by (simp add: scan_ends_def lim) (simp add: example_fat_def)
  moreover have "\<not> scan_ends example_zero_count 5" by (simp add: scan_ends_def lim) (simp add: example_zero_count_def)
  moreover have "free_in example_zero_count 3" by (simp add: free_in_def read_fat_entry_def example_zero_count_def)
  moreover have "hint_ok example_fat" "hint_ok example_zero_count"
    "sectors_per_cluster (bios_parameter_block example_fat) \<noteq> 0" "sectors_per_cluster (bios_parameter_block example_zero_count) \<noteq> 0"
    by (simp_all add: hint_ok_def example_fat_def example_zero_count_def example_bpb_def)
  ultimately show ?thesis
    using find_free_cluster_complete [of example_fat] find_free_cluster_complete [of example_zero_count] st none by simp
qed

text \<open>Damaged tables. Freeing ends on every table whose entries stay within it, since each turn frees an entry.\<close>

definition used :: "'d fat32 \<Rightarrow> nat set" where
  "used fs = {i. i < length (fat_table fs) \<and> (fat_table fs ! i) AND 0x0FFFFFFF \<noteq> 0}"

definition links_inside :: "'d fat32 \<Rightarrow> bool" where
  "links_inside fs \<longleftrightarrow> (\<forall>c v. read_fat_entry fs c = Some v \<longrightarrow> is_eoc v \<or> unat v < length (fat_table fs))"

lemma free_cluster_chain_returns:
  assumes "links_inside fs" "unat c < length (fat_table fs)" "length (fat_table fs) \<le> 4294967296"
  shows "\<exists>fs'. free_cluster_chain blk fs c = Some fs'"
  using assms
proof (induction "card (used fs)" arbitrary: fs c rule: less_induct)
  case less
  from less.prems(2) obtain fs1 where fs1: "write_fat_entry blk fs c 0 = Some fs1"
    "\<forall>x. read_fat_entry fs1 x = (if x = c then Some (0 AND 0x0FFFFFFF) else read_fat_entry fs x)"
    "length (fat_table fs1) = length (fat_table fs)"
    by (rule write_fat_entry_Some [where blk = blk and v = 0]) blast
  obtain v where v: "read_fat_entry fs c = Some v" using less.prems(2) by (simp add: read_fat_entry_def)
  have step: "free_cluster_chain blk fs c = (if is_free v \<or> is_eoc v then Some fs1 else free_cluster_chain blk fs1 v)"
    by (subst free_cluster_chain.simps) (simp add: v fs1(1))
  show ?case
  proof (cases "is_free v \<or> is_eoc v")
    case False
    have eq: "(fat_table fs1 ! i) AND 0x0FFFFFFF = (if i = unat c then 0 else (fat_table fs ! i) AND 0x0FFFFFFF)"
      if i: "i < length (fat_table fs)" for i
    proof -
      have "unat (of_nat i :: u32) = i" using i less.prems(3) by (simp add: unat_of_nat)
      then show ?thesis using fs1(2) [rule_format, of "of_nat i"] fs1(3) i
        by (auto simp: read_fat_entry_def word_unat_eq_iff split: if_splits)
    qed
    have "unat c \<in> used fs" using v False less.prems(2) by (auto simp: used_def read_fat_entry_def is_free_def)
    moreover have "used fs1 = used fs - {unat c}" using eq fs1(3) by (auto simp: used_def split: if_splits)
    moreover have "finite (used fs)" by (simp add: used_def)
    ultimately have "card (used fs1) < card (used fs)" by (metis card_Diff1_less)
    moreover have "links_inside fs1"
      unfolding links_inside_def
    proof (intro allI impI)
      fix x w assume "read_fat_entry fs1 x = Some w"
      then have "w = 0 \<or> read_fat_entry fs x = Some w" using fs1(2) by (auto split: if_splits)
      then show "is_eoc w \<or> unat w < length (fat_table fs1)"
        using less.prems(1,2) fs1(3) by (auto simp: links_inside_def)
    qed
    moreover have "unat v < length (fat_table fs1)" using less.prems(1) v False fs1(3) by (auto simp: links_inside_def)
    ultimately show ?thesis using less.hyps [of fs1 v] less.prems(3) fs1(3) step False by simp
  qed (simp add: step)
qed

text \<open>The count of a chain never returns when the chain runs into a cycle.\<close>

lemma chained_clusters_count_cycle:
  assumes "\<forall>x \<in> S. \<exists>v \<in> S. read_fat_entry fs x = Some v \<and> \<not> is_eoc v \<and> \<not> is_free v" "c \<in> S"
  shows "chained_clusters_count fs c n = None"
proof -
  have "fs = fs \<longrightarrow> c \<notin> S" if that': "chained_clusters_count fs c n = Some r" for r
  proof (rule chained_clusters_count.raw_induct [where P = "\<lambda>fs' c n r. fs' = fs \<longrightarrow> c \<notin> S", OF _ that'])
    fix count fs' c n r
    assume ih: "\<And>fs' c n r. count fs' c n = Some r \<Longrightarrow> fs' = fs \<longrightarrow> c \<notin> S"
      and run: "Option.bind (read_fat_entry fs' c)
        (\<lambda>entry. if is_eoc entry \<or> is_free entry then Some n else count fs' entry (n + 1)) = Some r"
    show "fs' = fs \<longrightarrow> c \<notin> S"
    proof (intro impI notI)
      assume fs: "fs' = fs" and "c \<in> S"
      then obtain v where v: "v \<in> S" "read_fat_entry fs c = Some v" "\<not> is_eoc v" "\<not> is_free v" using assms(1) by blast
      with run fs have "count fs v (n + 1) = Some r" by simp
      with ih v(1) show False by blast
    qed
  qed
  then show ?thesis using assms(2) by (cases "chained_clusters_count fs c n") auto
qed

text \<open>A chain that runs into a cycle hangs the kernel: its length, and with it the size of the directory that it
  holds, is never computed; freeing it, on the contrary, returns on every table whose entries lie within it.\<close>

theorem cyclic_chain:
  assumes "\<forall>x \<in> S. \<exists>v \<in> S. read_fat_entry fs x = Some v \<and> \<not> is_eoc v \<and> \<not> is_free v" "c \<in> S"
  shows "get_total_size fs c = None \<and>
    (links_inside fs \<and> length (fat_table fs) \<le> 4294967296 \<longrightarrow> (\<exists>fs'. free_cluster_chain blk fs c = Some fs'))"
proof (intro conjI impI)
  show "get_total_size fs c = None" using chained_clusters_count_cycle [OF assms] by (simp add: get_total_size_def)
  obtain v where "read_fat_entry fs c = Some v" using assms by blast
  then have "unat c < length (fat_table fs)" by (simp add: read_fat_entry_def split: if_splits)
  then show "\<exists>fs'. free_cluster_chain blk fs c = Some fs'" if "links_inside fs \<and> length (fat_table fs) \<le> 4294967296"
    using that by (intro free_cluster_chain_returns) simp_all
qed

definition example_cycle :: "mem fat32" where
  "example_cycle = example_fat \<lparr> fat_table := [0, 0, 3, 4, 3, 0, 0, 0] \<rparr>"

theorem cyclic_chain_witness:
  "get_total_size example_cycle 3 = None \<and> (\<exists>fs'. free_cluster_chain (mem_disk 16) example_cycle 3 = Some fs')"
proof -
  have e: "\<forall>x \<in> {3, 4}. \<exists>v \<in> {3, 4}. read_fat_entry example_cycle x = Some v \<and> \<not> is_eoc v \<and> \<not> is_free v"
    by (simp add: read_fat_entry_def is_eoc_def is_free_def FAT32_END_OF_CHAIN_def example_cycle_def)
  have small: "v \<in> {0, 3, 4}" if "read_fat_entry example_cycle c = Some v" for c v
  proof -
    have "unat c < 8" using that by (simp add: read_fat_entry_def example_cycle_def split: if_splits)
    then have "unat c = 0 \<or> unat c = 1 \<or> unat c = 2 \<or> unat c = 3 \<or> unat c = 4 \<or> unat c = 5 \<or> unat c = 6 \<or> unat c = 7"
      by linarith
    then show ?thesis using that by (elim disjE) (simp_all add: read_fat_entry_def example_cycle_def)
  qed
  have "links_inside example_cycle"
    unfolding links_inside_def
  proof (intro allI impI disjI2)
    fix c v assume "read_fat_entry example_cycle c = Some v"
    then have "v \<in> {0, 3, 4}" by (rule small)
    then show "unat v < length (fat_table example_cycle)" by (auto simp: example_cycle_def)
  qed
  moreover have "length (fat_table example_cycle) \<le> 4294967296" by (simp add: example_cycle_def)
  ultimately show ?thesis using cyclic_chain [OF e, of 3 "mem_disk 16"] by simp
qed

text \<open>Freeing a chain marks its clusters free and changes no other entry of the table.\<close>

theorem free_cluster_chain_exact:
  assumes "chain fs c cs"
  shows "\<exists>fs'. free_cluster_chain blk fs c = Some fs' \<and>
    (\<forall>x. read_fat_entry fs' x = (if x \<in> set cs then Some 0 else read_fat_entry fs x))"
  using free_chain_exact [OF assms, of blk] by blast

theorem free_cluster_chain_exact_witness:
  "\<exists>fs'. free_cluster_chain (mem_disk 16) example_fat 2 = Some fs' \<and>
    (\<forall>x. read_fat_entry fs' x = (if x \<in> {2, 4} then Some 0 else read_fat_entry example_fat x))"
  using free_cluster_chain_exact [of example_fat 2 "[2, 4]" "mem_disk 16"]
  by (simp add: read_fat_entry_def example_fat_def is_eoc_def FAT32_END_OF_CHAIN_def)

end
