(* ===== verification/Fat32_Write.thy ===== *)
theory Fat32_Write
  imports Fat32_Table
begin

text \<open>
  Writing a file of FAT32 from any place in its chain: the bytes of the chain that the write covers change, the chain
  grows by free clusters while there are any, and every other cluster keeps its bytes and its entry.
\<close>

subsection \<open>A volume on a device\<close>

definition volume_ok :: "nat \<Rightarrow> 'd fat32 \<Rightarrow> bool" where
  "volume_ok n fs \<longleftrightarrow> hint_ok fs \<and> 0 < cluster_bytes_n fs \<and>
     length (fat_table fs) \<le> unat FAT32_END_OF_CHAIN \<and>
     unat (fat_offset fs) + unat (fat_size fs) \<le> unat (data_start_offset fs) \<and> unat (data_start_offset fs) \<le> n \<and>
     unat (fat_size fs) \<le> 4 * length (fat_table fs) \<and>
     (\<forall>x. 2 \<le> x \<and> x < scan_limit (bios_parameter_block fs) \<and> unat x < length (fat_table fs) \<longrightarrow> cluster_on n fs x)"

lemma volume_ok_cong:
  assumes "volume_ok n fs" "same_geometry fs fs'" "hint_ok fs'"
  shows "volume_ok n fs'"
  using assms same_geometryD [OF assms(2)] by (simp add: volume_ok_def same_geometry_def)

lemma cluster_bytes_sectors: "0 < cluster_bytes_n fs \<Longrightarrow> sectors_per_cluster (bios_parameter_block fs) \<noteq> 0"
  by (auto simp: cluster_bytes_n_def bytes_per_cluster_def)

lemma supplied_cong:
  assumes "same_geometry fs fs'" "read_fat_entry fs' = read_fat_entry fs" "last_free_cluster fs' = last_free_cluster fs"
  shows "supplied fs' m = supplied fs m"
  using assms by (simp add: supplied_def same_geometry_def scan_start_def free_from_def free_in_def)

definition no_free :: "'d fat32 \<Rightarrow> bool" where
  "no_free fs \<longleftrightarrow> (\<forall>x. 2 \<le> x \<and> x < scan_limit (bios_parameter_block fs) \<longrightarrow> \<not> free_in fs x)"

lemma length_entries_bytes [simp]: "length (entries_bytes es) = 4 * length es"
  by (induction es) (simp_all add: entries_bytes_def)

lemma mask28: "unat (c :: u32) < 268435456 \<Longrightarrow> c AND 0x0FFFFFFF = c"
proof -
  assume "unat c < 268435456"
  moreover have m: "(0x0FFFFFFF :: u32) = mask 28" by (simp add: mask_eq_exp_minus_1)
  ultimately show ?thesis unfolding m word_unat_eq_iff unat_and_mask by simp
qed

text \<open>Clusters are apart.\<close>

lemma clusters_apart:
  assumes "cluster_on n fs x" "cluster_on m fs y" "x \<noteq> y" "i < cluster_bytes_n fs" "j < cluster_bytes_n fs"
  shows "cluster_at fs x + i \<noteq> cluster_at fs y + j"
proof -
  have *: "cluster_at fs x + i < cluster_at fs y" if "unat x < unat y" "2 \<le> x" "i < cluster_bytes_n fs" for x y i
  proof -
    have "unat x - 2 + 1 \<le> unat y - 2" using that by (simp add: word_le_nat_alt)
    then have "(unat x - 2 + 1) * cluster_bytes_n fs \<le> (unat y - 2) * cluster_bytes_n fs" by (rule mult_right_mono) simp
    then show ?thesis using that(3) by (simp add: cluster_at_def)
  qed
  have "unat x < unat y \<or> unat y < unat x" using assms(3) by (metis linorder_neqE_nat word_unat_eq_iff)
  then show ?thesis using *[of x y i] *[of y x j] assms by (auto simp: cluster_on_def)
qed

lemma put_at_append1: "at + length bs \<le> length xs \<Longrightarrow> put_at (xs @ ys) at bs = put_at xs at bs @ ys"
  by (simp add: put_at_def)

lemma put_at_append2: "put_at (xs @ ys) (length xs + at) bs = xs @ put_at ys at bs"
  by (simp add: put_at_def add.assoc)

text \<open>The bytes of all clusters but some are kept.\<close>

definition keeps :: "('d \<Rightarrow> nat \<Rightarrow> u8) \<Rightarrow> nat \<Rightarrow> 'd fat32 \<Rightarrow> 'd fat32 \<Rightarrow> u32 set \<Rightarrow> bool" where
  "keeps byte n fs fs' X \<longleftrightarrow> (\<forall>x. cluster_on n fs x \<and> x \<notin> X \<longrightarrow> cluster_data byte fs' x = cluster_data byte fs x)"

lemma keeps_trans:
  "keeps byte n fs fs1 X \<Longrightarrow> keeps byte n fs1 fs2 Y \<Longrightarrow> same_geometry fs fs1 \<Longrightarrow> X \<union> Y \<subseteq> Z \<Longrightarrow> keeps byte n fs fs2 Z"
  using same_geometryD(3) [of fs fs1 n] unfolding keeps_def by (metis UnCI subsetD)

lemma keeps_chain_data:
  "keeps byte n fs fs' X \<Longrightarrow> \<forall>x \<in> set cs. cluster_on n fs x \<and> x \<notin> X \<Longrightarrow> chain_data byte fs' cs = chain_data byte fs cs"
  unfolding keeps_def by (induction cs) auto

text \<open>A chain that starts at \<open>s\<close> with the clusters \<open>cs\<close> has grown by \<open>add\<close>.\<close>

definition chain_grown :: "nat \<Rightarrow> u32 \<Rightarrow> 'd fat32 \<Rightarrow> 'd fat32 \<Rightarrow> u32 list \<Rightarrow> u32 list \<Rightarrow> bool" where
  "chain_grown n s fs fs' cs add \<longleftrightarrow> same_geometry fs fs' \<and> volume_ok n fs' \<and> chain fs' s (cs @ add) \<and>
     (\<forall>x \<in> set add. free_in fs x \<and> cluster_on n fs x) \<and> (\<forall>x. x \<notin> set add \<and> x \<noteq> last cs \<longrightarrow> read_fat_entry fs' x = read_fat_entry fs x) \<and>
     (\<forall>x \<in> set (cs @ add). \<not> free_in fs' x) \<and> (\<forall>m. supplied fs (m + length add) \<longrightarrow> supplied fs' m)"

lemma grown_supplied:
  assumes "chain_grown n s fs fs' cs add" "supplied fs (N - length cs)"
  shows "supplied fs' (N - length (cs @ add))"
proof (cases "N - length (cs @ add) = 0")
  case False
  then have "N - length (cs @ add) + length add = N - length cs" by simp
  then show ?thesis using assms by (simp only: chain_grown_def)
qed (simp only: supplied_0)

lemma chain_grown_trans:
  assumes "chain_grown n s fs fs1 cs add" "chain_grown n s fs1 fs2 (cs @ add) add'" "cs \<noteq> []"
  shows "chain_grown n s fs fs2 cs (add @ add')"
proof -
  have free: "free_in fs x" if "x \<in> set add'" for x
  proof -
    have x: "free_in fs1 x" using assms(2) that by (simp add: chain_grown_def)
    then have "x \<notin> set (cs @ add)" using assms(1) by (auto simp: chain_grown_def)
    moreover have "last cs \<in> set cs" using assms(3) by simp
    ultimately have "read_fat_entry fs1 x = read_fat_entry fs x" using assms(1) by (auto simp: chain_grown_def)
    then show ?thesis using x by (simp add: free_in_def)
  qed
  have entry: "read_fat_entry fs2 x = read_fat_entry fs x" if "x \<notin> set (add @ add')" "x \<noteq> last cs" for x
  proof -
    have "x \<noteq> last (cs @ add)" using that by (auto simp: last_append)
    then have "read_fat_entry fs2 x = read_fat_entry fs1 x" using assms(2) that by (simp add: chain_grown_def)
    then show ?thesis using assms(1) that by (simp add: chain_grown_def)
  qed
  have "supplied fs2 m" if "supplied fs (m + length (add @ add'))" for m
  proof -
    have "supplied fs ((m + length add') + length add)" using that by (simp add: ac_simps)
    then show ?thesis using assms(1,2) unfolding chain_grown_def by blast
  qed
  then show ?thesis
    using assms(1,2) free entry same_geometry_trans [of fs fs1 fs2] same_geometryD(3) [of fs fs1 n]
    unfolding chain_grown_def by auto
qed

lemma chain_grown_from:
  assumes "chain_grown n s fs1 fs2 cs add" "same_geometry fs fs1" "read_fat_entry fs1 = read_fat_entry fs"
    "last_free_cluster fs1 = last_free_cluster fs"
  shows "chain_grown n s fs fs2 cs add"
  using assms supplied_cong [OF assms(2-4)] same_geometry_trans [of fs fs1 fs2] same_geometryD(3) [of fs fs1 n]
  by (simp add: chain_grown_def free_in_def)

lemma chain_grown_on:
  assumes "chain_grown n s fs fs' cs add" "\<forall>x \<in> set cs. cluster_on n fs x"
  shows "\<forall>x \<in> set (cs @ add). cluster_on n fs' x"
  using assms same_geometryD(3) [of fs fs' n] unfolding chain_grown_def by auto

lemma chain_grown_refl:
  assumes "volume_ok n fs" "chain fs s cs" "\<forall>x \<in> set cs. \<not> free_in fs x"
  shows "chain_grown n s fs fs cs []"
  using assms by (simp add: chain_grown_def)

lemma chain_snoc:
  assumes "chain fs s cs" "read_fat_entry fs' (last cs) = Some nc" "2 \<le> nc" "\<not> is_eoc nc"
    and "read_fat_entry fs' nc = Some e" "is_eoc e"
    and "\<And>x. x \<in> set cs \<Longrightarrow> x \<noteq> last cs \<Longrightarrow> read_fat_entry fs' x = read_fat_entry fs x"
  shows "chain fs' s (cs @ [nc])"
  using assms(1,2,7) chain_distinct [OF assms(1)]
proof (induction cs arbitrary: s)
  case (Cons x xs)
  show ?case
  proof (cases "xs = []")
    case True
    then show ?thesis using Cons.prems assms(3-6) by (auto split: option.splits)
  next
    case False
    then have x: "x \<noteq> last xs" using Cons.prems(4) by auto
    have *: "x = s" "2 \<le> s" "\<not> is_eoc s" using Cons.prems(1) by auto
    obtain v where v: "read_fat_entry fs s = Some v" "chain fs v xs"
      using Cons.prems(1) False by (elim chain_ConsE) blast
    have "read_fat_entry fs' s = Some v" using Cons.prems(3) [of x] x * v(1) False by simp
    moreover have "chain fs' v (xs @ [nc])" using Cons.IH [OF v(2)] Cons.prems False by auto
    ultimately show ?thesis using * False by simp
  qed
qed simp

text \<open>A change of the table that goes to the device does not reach the clusters.\<close>

context byte_device
begin

lemma write_fat_entry_volume:
  assumes vol: "volume_ok dsize fs" and c: "unat c < length (fat_table fs)"
  shows "\<exists>fs'. write_fat_entry dev fs c v = Some fs' \<and> same_geometry fs fs' \<and> volume_ok dsize fs' \<and>
    keeps byte dsize fs fs' {} \<and> (\<forall>x. read_fat_entry fs' x = (if x = c then Some (v AND 0x0FFFFFFF) else read_fat_entry fs x)) \<and>
    last_free_cluster fs' = last_free_cluster fs"
proof -
  obtain fs' where fs': "write_fat_entry dev fs c v = Some fs'"
    "\<forall>x. read_fat_entry fs' x = (if x = c then Some (v AND 0x0FFFFFFF) else read_fat_entry fs x)"
    "length (fat_table fs') = length (fat_table fs)" "bios_parameter_block fs' = bios_parameter_block fs"
    "sectors_per_fat fs' = sectors_per_fat fs" "last_free_cluster fs' = last_free_cluster fs"
    "root_dir_cluster fs' = root_dir_cluster fs"
    "dev_state fs' = snd (blk_write dev (dev_state fs) (fat_offset fs) (fat_size fs)
      (take (unat (fat_size fs)) (entries_bytes (fat_table fs'))))"
    by (rule write_fat_entry_Some [OF c, where blk = dev and v = v]) blast
  have geo: "same_geometry fs fs'" using fs' by (simp add: same_geometry_def)
  have vol': "volume_ok dsize fs'"
    using vol geo fs'(6) by (intro volume_ok_cong [OF vol geo]) (simp add: volume_ok_def hint_ok_def)
  have byte: "byte (dev_state fs') i = byte (dev_state fs) i" if "i < dsize" "unat (data_start_offset fs) \<le> i" for i
    unfolding fs'(8) using that vol fs'(3) by (subst write_bytes) (auto simp: volume_ok_def)
  have "cluster_data byte fs' x = cluster_data byte fs x" if "cluster_on dsize fs x" for x
    using that byte by (auto simp: cluster_data_def same_geometryD [OF geo] cluster_on_def cluster_at_def)
  then show ?thesis using fs'(1,2,6) geo vol' by (auto simp: keeps_def)
qed

lemma extend_chain_runs:
  assumes vol: "volume_ok dsize fs" and c: "unat c < length (fat_table fs)" and used: "\<not> free_in fs c"
    and sup: "supplied fs 1"
  shows "\<exists>nc fs'. extend_chain dev fs c = Some (nc, fs') \<and> same_geometry fs fs' \<and> volume_ok dsize fs' \<and> keeps byte dsize fs fs' {} \<and>
    (nc = 0 \<longrightarrow> no_free fs' \<and> (\<forall>x. read_fat_entry fs' x = read_fat_entry fs x) \<and> (\<forall>m. supplied fs' m)) \<and>
    (nc \<noteq> 0 \<longrightarrow> (\<forall>m. supplied fs (Suc m) \<longrightarrow> supplied fs' m) \<and> 2 \<le> nc \<and> \<not> is_eoc nc \<and> free_in fs nc \<and> cluster_on dsize fs nc \<and>
      (\<forall>x. read_fat_entry fs' x = (if x = nc then Some 0x0FFFFFFF else if x = c then Some nc else read_fat_entry fs x)))"
proof -
  have spc: "sectors_per_cluster (bios_parameter_block fs) \<noteq> 0" and hint: "hint_ok fs"
    using vol cluster_bytes_sectors [of fs] by (simp_all add: volume_ok_def)
  obtain nc l where f: "find_free_cluster fs = Some (nc, fs \<lparr> last_free_cluster := l \<rparr>)" "2 \<le> l" "unat l < 4294967296"
    "if nc = 0 then free_from fs 2 = {}
     else 2 \<le> nc \<and> nc \<in> free_from fs 2 \<and>
       (unat (scan_limit (bios_parameter_block fs)) \<le> length (fat_table fs) \<or> l = ucast nc \<and> nc = Min (free_from fs (scan_start fs)))"
    using find_free_cluster_finds [OF spc hint sup] by blast
  define fs0 where "fs0 = fs \<lparr> last_free_cluster := l \<rparr>"
  have geo0: "same_geometry fs fs0" by (simp add: fs0_def same_geometry_def)
  have "hint_ok fs0" using f(2,3) by (auto simp: fs0_def hint_ok_def word_le_nat_alt)
  then have vol0: "volume_ok dsize fs0" by (rule volume_ok_cong [OF vol geo0])
  have keep0: "keeps byte dsize fs fs0 {}"
    by (simp add: keeps_def cluster_data_def same_geometryD [OF geo0]) (simp add: fs0_def)
  have entry0: "read_fat_entry fs0 x = read_fat_entry fs x" for x by (simp add: fs0_def)
  show ?thesis
  proof (cases "nc = 0")
    case True
    then have none: "free_from fs 2 = {}" using f(4) by simp
    then have "no_free fs0" by (auto simp: no_free_def fs0_def free_from_def)
    moreover have "free_from fs (scan_start fs) \<subseteq> free_from fs 2"
      using scan_start_ok(1) [OF hint] by (auto simp: free_from_def)
    then have "supplied fs0 m" for m using sup none by (auto simp: supplied_def fs0_def)
    ultimately show ?thesis using f(1) True geo0 vol0 keep0 entry0
      by (intro exI [of _ 0] exI [of _ fs0]) (simp add: extend_chain_def fs0_def [symmetric])
  next
    case False
    then have nc: "2 \<le> nc" "nc < scan_limit (bios_parameter_block fs)" "free_in fs nc" "unat nc < length (fat_table fs)"
      using f(4) free_from_in_table [of nc fs 2] by (simp_all add: free_from_def)
    have on: "cluster_on dsize fs nc" using vol nc by (simp add: volume_ok_def)
    have eoc: "\<not> is_eoc nc" "nc AND 0x0FFFFFFF = nc"
    proof -
      have "nc < FAT32_END_OF_CHAIN" using vol nc(4) by (simp add: volume_ok_def word_less_nat_alt)
      then show "\<not> is_eoc nc" "nc AND 0x0FFFFFFF = nc"
        by (auto simp: is_eoc_def FAT32_END_OF_CHAIN_def word_less_nat_alt word_le_nat_alt intro!: mask28)
    qed
    have "unat c < length (fat_table fs0)" using c by (simp add: fs0_def)
    then obtain fs1 where fs1: "write_fat_entry dev fs0 c nc = Some fs1" "same_geometry fs0 fs1" "volume_ok dsize fs1"
      "keeps byte dsize fs0 fs1 {}" "\<forall>x. read_fat_entry fs1 x = (if x = c then Some nc else read_fat_entry fs0 x)"
      "last_free_cluster fs1 = last_free_cluster fs0"
      using write_fat_entry_volume [OF vol0, of c nc] eoc(2) by auto
    have "unat nc < length (fat_table fs1)"
      using nc(3) fs1(2) geo0 by (auto simp: free_in_def read_fat_entry_def same_geometry_def split: if_splits)
    then obtain fs2 where fs2: "write_fat_entry dev fs1 nc 0x0FFFFFFF = Some fs2" "same_geometry fs1 fs2" "volume_ok dsize fs2"
      "keeps byte dsize fs1 fs2 {}" "\<forall>x. read_fat_entry fs2 x = (if x = nc then Some 0x0FFFFFFF else read_fat_entry fs1 x)"
      "last_free_cluster fs2 = last_free_cluster fs1"
      using write_fat_entry_volume [OF fs1(3), of nc "0x0FFFFFFF"] by auto
    have geo: "same_geometry fs fs1" "same_geometry fs fs2"
      using same_geometry_trans geo0 fs1(2) fs2(2) by blast+
    have "keeps byte dsize fs fs1 {}" by (rule keeps_trans [OF keep0 fs1(4) geo0]) simp
    then have "keeps byte dsize fs fs2 {}" by (rule keeps_trans [OF _ fs2(4) geo(1)]) simp
    moreover have "extend_chain dev fs c = Some (nc, fs2)"
      using f(1) False fs1(1) fs2(1) by (simp add: extend_chain_def fs0_def [symmetric])
    moreover have entries: "\<forall>x. read_fat_entry fs2 x = (if x = nc then Some 0x0FFFFFFF else if x = c then Some nc else read_fat_entry fs x)"
      using fs1(5) fs2(5) entry0 by simp
    moreover have "supplied fs2 m" if m: "supplied fs (Suc m)" for m
    proof (cases "unat (scan_limit (bios_parameter_block fs)) \<le> length (fat_table fs)")
      case True
      then show ?thesis using geo(2) by (simp add: supplied_def same_geometry_def)
    next
      case far: False
      let ?F = "free_from fs (scan_start fs)"
      have l: "l = ucast nc" "nc = Min ?F" using f(4) False far by simp_all
      have "unat (ucast nc :: u64) = unat nc" by (simp add: unsigned_ucast_eq take_bit_nat_eq_self unat_lt32)
      then have "(ucast nc :: u64) \<noteq> 0" using False by (metis unat_eq_zero)
      then have st: "scan_start fs2 = nc"
        using fs1(6) fs2(6) l(1) by (simp add: scan_start_def fs0_def ucast_up_ucast_id is_up)
      have "Suc m \<le> card ?F" using m far by (simp add: supplied_def)
      then have ne: "?F \<noteq> {}" by auto
      have "x \<in> ?F \<longleftrightarrow> nc \<le> x \<and> x < scan_limit (bios_parameter_block fs) \<and> free_in fs x" for x
        using free_from_Min [OF ne] Min_le [of ?F x] l(2) by (auto simp: free_from_def)
      moreover have "free_in fs2 x \<longleftrightarrow> free_in fs x \<and> x \<noteq> nc" for x
        using entries used False nc(3) by (auto simp: free_in_def)
      moreover have "scan_limit (bios_parameter_block fs2) = scan_limit (bios_parameter_block fs)"
        using geo(2) by (simp add: same_geometry_def)
      ultimately have "free_from fs2 nc = ?F - {nc}" by (auto simp: free_from_def [of fs2])
      moreover have "nc \<in> ?F" using free_from_Min [OF ne] l(2) by simp
      ultimately have "card (free_from fs2 nc) = card ?F - 1" by simp
      then show ?thesis using \<open>Suc m \<le> card ?F\<close> unfolding supplied_def st by linarith
    qed
    ultimately show ?thesis using geo(2) fs2(3) False nc eoc(1) on
      by (intro exI [of _ nc] exI [of _ fs2]) simp
  qed
qed

text \<open>From one cluster of a chain to the next.\<close>

lemma next_or_extend_runs:
  assumes vol: "volume_ok dsize fs" and ch: "chain fs s cs" and used: "\<forall>x \<in> set cs. \<not> free_in fs x" and i: "i < length cs"
    and sup: "Suc i = length cs \<longrightarrow> supplied fs 1"
  shows "\<exists>nx fs' add. next_or_extend dev fs (cs ! i) = Some (nx, fs') \<and> chain_grown dsize s fs fs' cs add \<and> keeps byte dsize fs fs' {} \<and>
    (if nx = 0 then add = [] \<and> no_free fs' \<and> length cs = Suc i else Suc i < length (cs @ add) \<and> nx = (cs @ add) ! Suc i)"
proof -
  from chain_drop [OF ch i] obtain xs where d: "drop i cs = cs ! i # xs" "chain fs (cs ! i) (cs ! i # xs)"
    using i by (metis Cons_nth_drop_Suc)
  then obtain v where v: "read_fat_entry fs (cs ! i) = Some v" "xs = [] \<longrightarrow> is_eoc v \<or> is_free v" "xs \<noteq> [] \<longrightarrow> chain fs v xs"
    by (elim chain_ConsE) blast
  have xs: "xs = drop (Suc i) cs" using d(1) i by (metis Cons_nth_drop_Suc list.inject)
  show ?thesis
  proof (cases "xs = []")
    case False
    then have si: "Suc i < length cs" using xs by simp
    have c: "chain fs v xs" using v False by blast
    have "v = cs ! Suc i" using c unfolding xs Cons_nth_drop_Suc [OF si, symmetric] by simp
    moreover have "next_or_extend dev fs (cs ! i) = Some (v, fs)"
      using v(1) chain_start [OF c] by (auto simp: next_or_extend_def)
    moreover have "v \<noteq> 0" using chain_start [OF c] by (auto simp: is_free_def)
    ultimately show ?thesis using chain_grown_refl [OF vol ch used] si
      by (intro exI [of _ v] exI [of _ fs] exI [of _ "[]"]) (simp add: keeps_def)
  next
    case True
    then have last: "Suc i = length cs" "cs \<noteq> []" using xs i by auto
    then have lc: "last cs = cs ! i" by (metis diff_Suc_1 last_conv_nth)
    have ci: "cs ! i \<in> set cs" using i by simp
    have b: "unat (cs ! i) < length (fat_table fs)" using chain_bound [OF ch ci] by simp
    have "is_eoc v" using v(1,2) used ci True by (auto simp: free_in_def is_free_def)
    then have e: "next_or_extend dev fs (cs ! i) = extend_chain dev fs (cs ! i)"
      using v(1) by (simp add: next_or_extend_def)
    obtain nc fs' where x: "extend_chain dev fs (cs ! i) = Some (nc, fs')" "same_geometry fs fs'" "volume_ok dsize fs'"
      "keeps byte dsize fs fs' {}" "nc = 0 \<longrightarrow> no_free fs' \<and> (\<forall>x. read_fat_entry fs' x = read_fat_entry fs x) \<and> (\<forall>m. supplied fs' m)"
      "nc \<noteq> 0 \<longrightarrow> (\<forall>m. supplied fs (Suc m) \<longrightarrow> supplied fs' m) \<and> 2 \<le> nc \<and> \<not> is_eoc nc \<and> free_in fs nc \<and> cluster_on dsize fs nc \<and>
        (\<forall>x. read_fat_entry fs' x = (if x = nc then Some 0x0FFFFFFF else if x = cs ! i then Some nc else read_fat_entry fs x))"
          proof -
      have u: "\<not> free_in fs (cs ! i)" using used ci by blast
      have "supplied fs 1" using sup last(1) by blast
      from extend_chain_runs [OF vol b u this] show thesis by (elim exE conjE) (rule that)
    qed
    show ?thesis
    proof (cases "nc = 0")
      case True
      then have "chain_grown dsize s fs fs' cs []"
        using x chain_cong [OF ch, of fs'] used by (simp add: chain_grown_def free_in_def)
      then show ?thesis using x True e last by (intro exI [of _ 0] exI [of _ fs'] exI [of _ "[]"]) simp
    next
      case False
      then have nc: "2 \<le> nc" "\<not> is_eoc nc" "free_in fs nc" "cluster_on dsize fs nc"
        "\<And>x. read_fat_entry fs' x = (if x = nc then Some 0x0FFFFFFF else if x = cs ! i then Some nc else read_fat_entry fs x)"
        "\<And>m. supplied fs (Suc m) \<Longrightarrow> supplied fs' m"
        using x(6) by auto
      have notin: "nc \<notin> set cs" using nc(3) used by auto
      have "nc \<noteq> cs ! i" using notin ci by auto
      then have "chain fs' s (cs @ [nc])"
        by (intro chain_snoc [OF ch]) (use nc notin lc in \<open>auto simp: is_eoc_def FAT32_END_OF_CHAIN_def is_free_def\<close>)
      then have "chain_grown dsize s fs fs' cs [nc]"
        using x(2,3) nc notin used lc by (auto simp: chain_grown_def free_in_def)
      then show ?thesis using x False e last by (intro exI [of _ nc] exI [of _ fs'] exI [of _ "[nc]"]) simp
    qed
  qed
qed

text \<open>The seek: it ends on the cluster of that index, and the chain has grown that far, or the disk is full.\<close>

lemma write_seek_runs:
  assumes "volume_ok dsize fs" "chain fs s cs" "\<forall>x \<in> set cs. \<not> free_in fs x" "i < length cs"
    and "supplied fs (Suc (i + k) - length cs)"
  shows "\<exists>r fs' add. write_seek dev k fs (cs ! i) = Some (r, fs') \<and> chain_grown dsize s fs fs' cs add \<and> keeps byte dsize fs fs' {} \<and>
    (case r of None \<Rightarrow> no_free fs' \<and> length (cs @ add) \<le> i + k | Some c \<Rightarrow> i + k < length (cs @ add) \<and> c = (cs @ add) ! (i + k))"
  using assms
proof (induction k arbitrary: fs cs i)
  case 0
  then show ?case
    by (intro exI [of _ "Some (cs ! i)"] exI [of _ fs] exI [of _ "[]"]) (simp add: chain_grown_refl keeps_def)
next
  case (Suc k)
  obtain nx fs1 add1 where st: "next_or_extend dev fs (cs ! i) = Some (nx, fs1)" "chain_grown dsize s fs fs1 cs add1"
    "keeps byte dsize fs fs1 {}" "if nx = 0 then add1 = [] \<and> no_free fs1 \<and> length cs = Suc i else Suc i < length (cs @ add1) \<and> nx = (cs @ add1) ! Suc i"
    using next_or_extend_runs [OF Suc.prems(1-4)] supplied_mono [OF Suc.prems(5), of 1] by auto
  show ?case
  proof (cases "nx = 0")
    case True
    then show ?thesis using st
      by (intro exI [of _ None] exI [of _ fs1] exI [of _ "[]"]) simp
  next
    case False
    then have nx: "Suc i < length (cs @ add1)" "nx = (cs @ add1) ! Suc i" using st(4) by simp_all
    have "volume_ok dsize fs1" "chain fs1 s (cs @ add1)" "\<forall>x \<in> set (cs @ add1). \<not> free_in fs1 x"
      using st(2) by (simp_all add: chain_grown_def)
    moreover have "supplied fs1 (Suc (Suc i + k) - length (cs @ add1))"
      by (rule grown_supplied [OF st(2)]) (use Suc.prems(5) in simp)
    ultimately obtain r fs2 add2 where ih: "write_seek dev k fs1 nx = Some (r, fs2)"
      "chain_grown dsize s fs1 fs2 (cs @ add1) add2" "keeps byte dsize fs1 fs2 {}"
      "case r of None \<Rightarrow> no_free fs2 \<and> length ((cs @ add1) @ add2) \<le> Suc i + k
        | Some c \<Rightarrow> Suc i + k < length ((cs @ add1) @ add2) \<and> c = ((cs @ add1) @ add2) ! (Suc i + k)"
      using Suc.IH [OF _ _ _ nx(1)] unfolding nx(2) [symmetric] by blast
    have "cs \<noteq> []" using Suc.prems(4) by auto
    then have g: "chain_grown dsize s fs fs2 cs (add1 @ add2)" using chain_grown_trans st(2) ih(2) by blast
    have "same_geometry fs fs1" using st(2) by (simp add: chain_grown_def)
    then have "keeps byte dsize fs fs2 {}" using keeps_trans [OF st(3) ih(3)] by simp
    then show ?thesis using st(1) False ih(1,4) g
      by (intro exI [of _ r] exI [of _ fs2] exI [of _ "add1 @ add2"]) (simp split: option.splits)
  qed
qed

text \<open>A write into one cluster of the chain.\<close>

lemma cluster_write:
  assumes on: "cluster_on dsize fs c" and co: "unat (co :: u32) + unat amount \<le> cluster_bytes_n fs" and len: "length bs = unat amount"
    and fs1: "fs1 = fs \<lparr> dev_state := snd (blk_write dev (dev_state fs) (cluster_base_addr fs c + ucast co) amount bs) \<rparr>"
  shows "keeps byte dsize fs fs1 {c}" "cluster_data byte fs1 c = put_at (cluster_data byte fs c) (unat co) bs"
    and "same_geometry fs fs1" "read_fat_entry fs1 = read_fat_entry fs" "hint_ok fs1 = hint_ok fs"
      "last_free_cluster fs1 = last_free_cluster fs"
proof -
  show geo: "same_geometry fs fs1" "read_fat_entry fs1 = read_fat_entry fs" "hint_ok fs1 = hint_ok fs"
      "last_free_cluster fs1 = last_free_cluster fs"
    by (auto simp: fs1 same_geometry_def read_fat_entry_def fun_eq_iff hint_ok_def)
  have le: "cluster_at fs c + cluster_bytes_n fs \<le> dsize" "dsize < 18446744073709551616"
    using on by (simp_all add: cluster_on_def)
  have at: "unat (cluster_base_addr fs c + ucast co) = cluster_at fs c + unat co"
    using cluster_base_addr_unat [OF on] le co by (subst unat_add64) simp_all
  have byte: "byte (dev_state fs1) i = (if cluster_at fs c + unat co \<le> i \<and> i < cluster_at fs c + unat co + unat amount
      then bs ! (i - (cluster_at fs c + unat co)) else byte (dev_state fs) i)" if "i < dsize" for i
    unfolding fs1 using that le co len by (simp add: write_bytes at)
  show "cluster_data byte fs1 c = put_at (cluster_data byte fs c) (unat co) bs"
  proof (rule nth_equalityI)
    fix i assume "i < length (cluster_data byte fs1 c)"
    then have i: "i < cluster_bytes_n fs" by (simp add: same_geometryD [OF geo(1)])
    then have "cluster_data byte fs1 c ! i = byte (dev_state fs1) (cluster_at fs c + i)"
      by (simp add: cluster_data_def same_geometryD [OF geo(1)])
    also have "\<dots> = (if unat co \<le> i \<and> i < unat co + unat amount then bs ! (i - unat co) else byte (dev_state fs) (cluster_at fs c + i))"
      using i le by (simp add: byte)
    also have "\<dots> = put_at (cluster_data byte fs c) (unat co) bs ! i"
      using i co len by (simp add: nth_put_at) (simp add: cluster_data_def)
    finally show "cluster_data byte fs1 c ! i = put_at (cluster_data byte fs c) (unat co) bs ! i" .
  qed (use co len in \<open>simp add: length_put_at same_geometryD [OF geo(1)]\<close>)
  have "cluster_data byte fs1 x = cluster_data byte fs x" if x: "cluster_on dsize fs x" "x \<noteq> c" for x
  proof (rule nth_equalityI)
    fix i assume "i < length (cluster_data byte fs1 x)"
    then have i: "i < cluster_bytes_n fs" by (simp add: same_geometryD [OF geo(1)])
    have "\<not> (cluster_at fs c + unat co \<le> cluster_at fs x + i \<and> cluster_at fs x + i < cluster_at fs c + unat co + unat amount)"
    proof
      assume *: "cluster_at fs c + unat co \<le> cluster_at fs x + i \<and> cluster_at fs x + i < cluster_at fs c + unat co + unat amount"
      then have "cluster_at fs x + i - cluster_at fs c < cluster_bytes_n fs" using co by linarith
      then have "cluster_at fs x + i \<noteq> cluster_at fs c + (cluster_at fs x + i - cluster_at fs c)"
        by (rule clusters_apart [OF x(1) on x(2) i])
      with * show False by simp
    qed
    then have "byte (dev_state fs1) (cluster_at fs x + i) = byte (dev_state fs) (cluster_at fs x + i)"
      using x(1) i by (subst byte) (auto simp: cluster_on_def)
    then show "cluster_data byte fs1 x ! i = cluster_data byte fs x ! i"
      using i by (simp add: cluster_data_def same_geometryD [OF geo(1)])
  qed (simp add: same_geometryD [OF geo(1)])
  then show "keeps byte dsize fs fs1 {c}" by (simp add: keeps_def)
qed

lemma chain_data_write:
  assumes "keeps byte dsize fs fs1 {c}" "cluster_data byte fs1 c = put_at (cluster_data byte fs c) co bs"
    and "distinct cs" "\<forall>x \<in> set cs. cluster_on dsize fs x" "i < length cs" "cs ! i = c" "co + length bs \<le> cluster_bytes_n fs"
  shows "chain_data byte fs1 cs = put_at (chain_data byte fs cs) (i * cluster_bytes_n fs + co) bs"
  using assms(3-6)
proof (induction cs arbitrary: i)
  case (Cons x xs)
  show ?case
  proof (cases i)
    case 0
    then have "chain_data byte fs1 xs = chain_data byte fs xs"
      using Cons.prems by (intro keeps_chain_data [OF assms(1)]) auto
    then show ?thesis using 0 Cons.prems assms(2,7) by (simp add: put_at_append1)
  next
    case (Suc j)
    then have "x \<noteq> c" using Cons.prems by auto
    then have "cluster_data byte fs1 x = cluster_data byte fs x" using assms(1) Cons.prems(2) by (simp add: keeps_def)
    moreover have "chain_data byte fs1 xs = put_at (chain_data byte fs xs) (j * cluster_bytes_n fs + co) bs"
      using Cons.IH [of j] Cons.prems Suc by simp
    ultimately show ?thesis
      using put_at_append2 [of "cluster_data byte fs x" "chain_data byte fs xs" "j * cluster_bytes_n fs + co" bs] Suc
      by (simp add: add.assoc)
  qed
qed simp

text \<open>The loop, from a place in a cluster of the chain. The bytes named are those of the grown chain.\<close>

lemma write_loop_runs:
  assumes "volume_ok dsize fs" "chain fs s cs" "\<forall>x \<in> set cs. \<not> free_in fs x" "\<forall>x \<in> set cs. cluster_on dsize fs x" "i < length cs"
    and "unat co < cluster_bytes_n fs" "0 < unat left" "unat wr + unat left \<le> length buf" "unat wr + unat left < 18446744073709551616"
    and "supplied fs (N - length cs)" "i * cluster_bytes_n fs + unat co + unat left \<le> N * cluster_bytes_n fs"
  shows "\<exists>n new fs'. write_cluster_loop dev fs (cs ! i) co left wr buf = Some (wr + of_nat n, fs') \<and> n \<le> unat left \<and>
    chain_grown dsize s fs fs' cs new \<and> keeps byte dsize fs fs' (set (cs @ new)) \<and>
    i * cluster_bytes_n fs + unat co + n \<le> length (cs @ new) * cluster_bytes_n fs \<and>
    chain_data byte fs' (cs @ new) =
      put_at (chain_data byte fs (cs @ new)) (i * cluster_bytes_n fs + unat co) (take n (drop (unat wr) buf)) \<and>
    (n < unat left \<longrightarrow> no_free fs')"
  using assms
proof (induction "unat left" arbitrary: fs cs i co left wr rule: less_induct)
  case less
  define B where "B = cluster_bytes_n fs"
  define c where "c = cs ! i"
  have c: "c \<in> set cs" "cluster_on dsize fs c" using less.prems(4,5) by (simp_all add: c_def)
  have co: "unat co < B" using less.prems(6) by (simp add: B_def)
  define amount where "amount = min left (ucast (bytes_per_cluster (bios_parameter_block fs) - co))"
  have "unat (ucast (bytes_per_cluster (bios_parameter_block fs) - co) :: u64) = B - unat co"
    using less.prems(6) by (simp add: B_def cluster_bytes_n_def unat_sub word_le_nat_alt)
  then have am: "unat amount = min (unat left) (B - unat co)"
    by (auto simp: amount_def min_def word_le_nat_alt)
  define bs where "bs = take (unat amount) (drop (unat wr) buf)"
  have bs: "length bs = unat amount" using less.prems(8) am by (simp add: bs_def)
  define fs1 where "fs1 = fs \<lparr> dev_state := snd (blk_write dev (dev_state fs) (cluster_base_addr fs c + ucast co) amount bs) \<rparr>"
  have "unat co + unat amount \<le> cluster_bytes_n fs" using am co by (simp add: B_def)
  note w = cluster_write [OF c(2) this bs fs1_def]
  have vol1: "volume_ok dsize fs1"
    using less.prems(1) w(5) by (intro volume_ok_cong [OF less.prems(1) w(3)]) (simp add: volume_ok_def)
  have ch1: "chain fs1 s cs" by (rule chain_cong [OF less.prems(2)]) (simp add: w(4))
  have used1: "\<forall>x \<in> set cs. \<not> free_in fs1 x" using less.prems(3) w(4) by (simp add: free_in_def)
  have sup1: "supplied fs1 m = supplied fs m" for m by (rule supplied_cong [OF w(3,4,6)])
  have data1: "chain_data byte fs1 ds = put_at (chain_data byte fs ds) (i * B + unat co) bs"
    if "distinct ds" "\<forall>x \<in> set ds. cluster_on dsize fs x" "i < length ds" "ds ! i = c" for ds
    using chain_data_write [OF w(1,2) that] am co bs by (simp add: B_def)
  have rest: "unat (left - amount) = unat left - unat amount"
    using am by (intro unat_sub64) (simp add: word_le_nat_alt)
  have step: "write_cluster_loop dev fs (cs ! i) co left wr buf =
      (if left - amount > 0
       then Option.bind (next_or_extend dev fs1 c) (\<lambda>r. if fst r = 0 then Some (wr + amount, snd r)
         else write_cluster_loop dev (snd r) (fst r) 0 (left - amount) (wr + amount) buf)
       else Some (wr + amount, fs1))"
    using less.prems(7) unfolding c_def [symmetric]
    apply (subst write_cluster_loop.simps)
    unfolding Let_def amount_def [symmetric] bs_def [symmetric] fs1_def [symmetric]
    by (simp add: word_less_nat_alt)
  have wr: "unat (wr + amount) = unat wr + unat amount"
    using less.prems(9) am by (intro unat_add64) linarith
  have pos: "i * B + unat co + unat amount \<le> Suc i * B" using am co by simp
  have here: "Suc i * B \<le> length cs * B" using less.prems(5) by (intro mult_right_mono) simp_all
  show ?case
  proof (cases "unat left \<le> B - unat co")
    case True
    then have a: "amount = left" using am by (simp add: word_unat_eq_iff)
    then have r: "write_cluster_loop dev fs (cs ! i) co left wr buf = Some (wr + of_nat (unat left), fs1)" using step by simp
    have "keeps byte dsize fs fs1 (set cs)" using w(1) c(1) by (auto simp: keeps_def)
    moreover have "chain_data byte fs1 cs = put_at (chain_data byte fs cs) (i * B + unat co) (take (unat left) (drop (unat wr) buf))"
      using data1 [OF chain_distinct [OF less.prems(2)] less.prems(4,5)] a by (simp add: c_def bs_def)
    moreover have "chain_grown dsize s fs fs1 cs []"
      using vol1 ch1 used1 w(3,4) sup1 by (simp add: chain_grown_def)
    moreover have "i * B + unat co + unat left \<le> length cs * B" using le_trans [OF pos here] unfolding a .
    ultimately show ?thesis using r
      by (intro exI [of _ "unat left"] exI [of _ "[]"] exI [of _ fs1]) (simp add: B_def)
  next
    case False
    then have a: "unat amount = B - unat co" "left - amount > 0" using am rest by (simp_all add: word_less_nat_alt)
    obtain nx fs2 add where n: "next_or_extend dev fs1 c = Some (nx, fs2)" "chain_grown dsize s fs1 fs2 cs add"
      "keeps byte dsize fs1 fs2 {}" "if nx = 0 then add = [] \<and> no_free fs2 \<and> length cs = Suc i
        else Suc i < length (cs @ add) \<and> nx = (cs @ add) ! Suc i"
    proof -
      have need: "Suc i = length cs \<longrightarrow> supplied fs1 1"
      proof
        assume at_end: "Suc i = length cs"
        have "Suc i * B < i * B + unat co + unat left" using False co by simp
        then have "Suc i * B < N * B" using less.prems(11) by (simp add: B_def)
        then have "Suc i < N" using mult_less_cancel2 by blast
        then show "supplied fs1 1" using supplied_mono [OF less.prems(10), of 1] at_end sup1 by simp
      qed
      from next_or_extend_runs [OF vol1 ch1 used1 less.prems(5) need] show thesis
        unfolding c_def [symmetric] by (elim exE conjE) (rule that)
    qed
    show ?thesis
    proof (cases "nx = 0")
      case True
      then have r: "write_cluster_loop dev fs (cs ! i) co left wr buf = Some (wr + of_nat (unat amount), fs2)"
        and full: "add = []" "no_free fs2" "length cs = Suc i"
        using step a(2) n by simp_all
      have "keeps byte dsize fs fs2 (set cs)"
        by (rule keeps_trans [OF w(1) n(3) w(3)]) (use c(1) in simp)
      moreover have "chain_data byte fs2 cs = put_at (chain_data byte fs cs) (i * B + unat co) bs"
        using data1 [OF chain_distinct [OF less.prems(2)] less.prems(4,5)] less.prems(4) same_geometryD(3) [OF w(3), of dsize]
        by (subst keeps_chain_data [OF n(3)]) (simp_all add: c_def)
      moreover have "chain_grown dsize s fs fs2 cs []"
        using n(2) w(3,4) full(1) sup1 same_geometry_trans by (auto simp: chain_grown_def)
      moreover have "i * B + unat co + unat amount \<le> length cs * B" by (rule le_trans [OF pos here])
      ultimately show ?thesis using r full(2) am
        by (intro exI [of _ "unat amount"] exI [of _ "[]"] exI [of _ fs2]) (simp add: B_def bs_def)
    next
      case False
      then have nx: "Suc i < length (cs @ add)" "nx = (cs @ add) ! Suc i" using n(4) by simp_all
      have g: "chain_grown dsize s fs fs2 cs add" using chain_grown_from [OF n(2) w(3,4,6)] .
      have geo: "same_geometry fs fs2" using g by (simp add: chain_grown_def)
      have B2: "cluster_bytes_n fs2 = B" using same_geometryD(1) [OF geo] by (simp add: B_def)
      have p2: "volume_ok dsize fs2" "chain fs2 s (cs @ add)" "\<forall>x \<in> set (cs @ add). \<not> free_in fs2 x"
        "\<forall>x \<in> set (cs @ add). cluster_on dsize fs2 x"
        using g chain_grown_on [OF g less.prems(4)] by (simp_all add: chain_grown_def)
      have amt: "unat amount \<le> unat left" "0 < unat amount" using am co less.prems(7) by simp_all
      have "unat (left - amount) < unat left" "unat (0 :: u32) < cluster_bytes_n fs2" "0 < unat (left - amount)"
        "unat (wr + amount) + unat (left - amount) \<le> length buf"
        "unat (wr + amount) + unat (left - amount) < 18446744073709551616"
        using rest amt a(2) wr less.prems(8,9) co by (simp_all add: B2 word_less_nat_alt)
      moreover have "supplied fs2 (N - length (cs @ add))" by (rule grown_supplied [OF g less.prems(10)])
      moreover have "Suc i * cluster_bytes_n fs2 + unat (0 :: u32) + unat (left - amount) \<le> N * cluster_bytes_n fs2"
        using less.prems(11) a(1) rest co amt(1) by (simp add: B2) (simp add: B_def)
      ultimately obtain n2 new fs3 where ih:
        "write_cluster_loop dev fs2 nx 0 (left - amount) (wr + amount) buf = Some (wr + amount + of_nat n2, fs3)"
        "n2 \<le> unat (left - amount)" "chain_grown dsize s fs2 fs3 (cs @ add) new" "keeps byte dsize fs2 fs3 (set ((cs @ add) @ new))"
        "Suc i * B + unat (0 :: u32) + n2 \<le> length ((cs @ add) @ new) * B"
        "chain_data byte fs3 ((cs @ add) @ new) = put_at (chain_data byte fs2 ((cs @ add) @ new)) (Suc i * B + unat (0 :: u32))
          (take n2 (drop (unat (wr + amount)) buf))"
        "n2 < unat (left - amount) \<longrightarrow> no_free fs3"
        using less.hyps [OF _ p2 nx(1), folded nx(2), unfolded B2] unfolding B2 by blast
      define V where "V = cs @ add @ new"
      define D where "D = take n2 (drop (unat wr + unat amount) buf)"
      have run: "write_cluster_loop dev fs (cs ! i) co left wr buf = Some (wr + of_nat (unat amount + n2), fs3)"
        using step a(2) n(1) False ih(1) by (simp add: add.assoc)
      have g3: "chain_grown dsize s fs fs3 cs (add @ new)"
        using less.prems(5) by (intro chain_grown_trans [OF g ih(3)]) auto
      have "keeps byte dsize fs fs2 {c}" by (rule keeps_trans [OF w(1) n(3) w(3)]) simp
      then have k3: "keeps byte dsize fs fs3 (set V)"
        by (rule keeps_trans [OF _ ih(4) geo]) (use c(1) in \<open>auto simp: V_def\<close>)
      have Von: "\<forall>x \<in> set V. cluster_on dsize fs x"
        using less.prems(4) g3 by (auto simp: chain_grown_def V_def)
      have "chain fs3 s V" using g3 by (simp add: chain_grown_def V_def)
      then have "distinct V" by (rule chain_distinct)
      then have d1: "chain_data byte fs1 V = put_at (chain_data byte fs V) (i * B + unat co) bs"
        using Von less.prems(5) by (intro data1) (simp_all add: V_def c_def nth_append)
      have d2: "chain_data byte fs2 V = chain_data byte fs1 V"
        using Von same_geometryD(3) [OF w(3), of dsize] by (intro keeps_chain_data [OF n(3)]) simp
      have len: "length D \<le> n2" by (simp add: D_def)
      have here2: "i * B + unat co + length bs = Suc i * B" using bs a(1) co by simp
      have "chain_data byte fs3 V = put_at (put_at (chain_data byte fs V) (i * B + unat co) bs) (Suc i * B) D"
        using ih(6) by (simp add: V_def [symmetric] d1 d2 wr D_def)
      also have "\<dots> = put_at (chain_data byte fs V) (i * B + unat co) (bs @ D)"
        unfolding here2 [symmetric]
        by (rule put_at_put_at) (use here2 ih(5) len in \<open>simp add: V_def B_def add.assoc\<close>)
      also have "bs @ D = take (unat amount + n2) (drop (unat wr) buf)"
        unfolding bs_def D_def by (simp only: take_add drop_drop add.commute [of "unat wr"])
      finally have data: "chain_data byte fs3 V = put_at (chain_data byte fs V) (i * B + unat co) (take (unat amount + n2) (drop (unat wr) buf))" .
      have "i * B + unat co + (unat amount + n2) \<le> length V * B" using ih(5) pos by (simp add: V_def)
      moreover have "unat amount + n2 \<le> unat left" using ih(2) amt(1) unfolding rest by linarith
      moreover have "unat amount + n2 < unat left \<longrightarrow> no_free fs3"
        using ih(7) amt(1) unfolding rest by (simp add: less_diff_conv)
      ultimately show ?thesis using run g3 k3 data unfolding V_def B_def by blast
    qed
  qed
qed

lemma write_contents_runs:
  assumes vol: "volume_ok dsize fs" and ch: "chain fs s cs" and used: "\<forall>x \<in> set cs. \<not> free_in fs x"
    and on: "\<forall>x \<in> set cs. cluster_on dsize fs x"
    and skip: "unat off div cluster_bytes_n fs < 4294967296" and len: "unat len \<le> length buf"
    and sup: "supplied fs (N - length cs)" and fits: "unat off + unat len \<le> N * cluster_bytes_n fs"
  shows "\<exists>k new fs'. write_contents dev fs (ucast s) off len buf = Some (of_nat k, fs') \<and> k \<le> unat len \<and>
    chain_grown dsize s fs fs' cs new \<and> keeps byte dsize fs fs' (set (cs @ new)) \<and>
    (0 < k \<longrightarrow> unat off + k \<le> length (cs @ new) * cluster_bytes_n fs) \<and>
    chain_data byte fs' (cs @ new) = put_at (chain_data byte fs (cs @ new)) (unat off) (take k buf) \<and>
    (k < unat len \<longrightarrow> no_free fs')"
proof (cases "len = 0")
  case True
  then have "write_contents dev fs (ucast s) off len buf = Some (of_nat 0, fs)" by (simp add: write_contents_def)
  then show ?thesis using True chain_grown_refl [OF vol ch used]
    by (intro exI [of _ 0] exI [of _ "[]"] exI [of _ fs]) (simp add: keeps_def put_at_def)
next
  case False
  define B where "B = cluster_bytes_n fs"
  define b where "b = bytes_per_cluster (bios_parameter_block fs)"
  have b: "unat b = B" "b \<noteq> 0" "0 < B" using vol by (auto simp: b_def B_def cluster_bytes_n_def volume_ok_def)
  define q where "q = unat off div B"
  have q: "unat (ucast (off div ucast b) :: u32) = q" "unat off = q * B + unat off mod B"
    using skip b by (subst unat_trunc32) (simp_all add: unat_div_distrib q_def B_def)
  define o' where "o' = (ucast (off mod ucast b) :: u32)"
  have o': "unat o' = unat off mod B" "unat off mod B < B"
  proof -
    show m: "unat off mod B < B" using b(3) by simp
    then have "unat off mod B < 4294967296" using b(1) unat_lt32 [of b] by linarith
    then show "unat o' = unat off mod B"
      unfolding o'_def using b(1) by (subst unat_trunc32) (simp_all add: unat_mod_distrib)
  qed
  have "s = cs ! 0" "0 < length cs" using ch by (cases cs; simp)+
  then obtain r fs1 add where sk: "write_seek dev q fs s = Some (r, fs1)" "chain_grown dsize s fs fs1 cs add" "keeps byte dsize fs fs1 {}"
    "case r of None \<Rightarrow> no_free fs1 \<and> length (cs @ add) \<le> q | Some c \<Rightarrow> q < length (cs @ add) \<and> c = (cs @ add) ! q"
  proof -
    have "unat off < N * B" using fits False by (simp add: B_def unat_eq_zero [symmetric])
    then have "q < N" using b(3) by (simp add: q_def div_less_iff_less_mult)
    then have "supplied fs (Suc (0 + q) - length cs)" by (intro supplied_mono [OF sup]) simp
    from write_seek_runs [OF vol ch used \<open>0 < length cs\<close> this] show thesis
      unfolding \<open>s = cs ! 0\<close> [symmetric] add_0 by (elim exE conjE) (rule that)
  qed
  have s: "\<not> ((ucast s :: u64) < 2 \<and> (ucast s :: u64) \<noteq> 0)" "(ucast (ucast s :: u64) :: u32) = s"
    using chain_start [OF ch] unat_trunc32 [of "ucast s"] unat_lt32 [of s]
    by (simp_all add: word_less_nat_alt word_le_nat_alt word_unat_eq_iff)
  have unfold: "write_contents dev fs (ucast s) off len buf =
      (case r of None \<Rightarrow> Some (0, fs1) | Some c \<Rightarrow> map_option (\<lambda>(n, fs). (ucast n, fs)) (write_cluster_loop dev fs1 c o' len 0 buf))"
    using False b(2) s sk(1) unfolding write_contents_def b_def [symmetric] Let_def q o'_def [symmetric] by auto
  have geo: "same_geometry fs fs1" using sk(2) by (simp add: chain_grown_def)
  have on1: "\<forall>x \<in> set (cs @ add). cluster_on dsize fs1 x" by (rule chain_grown_on [OF sk(2) on])
  show ?thesis
  proof (cases r)
    case None
    have "chain_data byte fs1 (cs @ add) = chain_data byte fs (cs @ add)"
      using on1 same_geometryD(3) [OF geo, of dsize] by (intro keeps_chain_data [OF sk(3)]) simp
    moreover have "keeps byte dsize fs fs1 (set (cs @ add))" using sk(3) by (simp add: keeps_def)
    ultimately show ?thesis using unfold None sk(2,4)
      by (intro exI [of _ 0] exI [of _ add] exI [of _ fs1]) (simp add: put_at_def)
  next
    case (Some c)
    then have c: "q < length (cs @ add)" "c = (cs @ add) ! q" using sk(4) by simp_all
    have p1: "volume_ok dsize fs1" "chain fs1 s (cs @ add)" "\<forall>x \<in> set (cs @ add). \<not> free_in fs1 x"
      using sk(2) by (simp_all add: chain_grown_def)
    have B1: "cluster_bytes_n fs1 = B" using same_geometryD(1) [OF geo] by (simp add: B_def)
    have l0: "unat o' < cluster_bytes_n fs1" "0 < unat len" "unat (0 :: u64) + unat len \<le> length buf"
      "unat (0 :: u64) + unat len < 18446744073709551616"
      using o' False len unat_lt64 [of len] by (simp_all add: B1 unat_gt_0)
    obtain n new fs2 where w: "write_cluster_loop dev fs1 c o' len 0 buf = Some (0 + of_nat n, fs2)" "n \<le> unat len"
      "chain_grown dsize s fs1 fs2 (cs @ add) new" "keeps byte dsize fs1 fs2 (set ((cs @ add) @ new))"
      "q * B + unat o' + n \<le> length ((cs @ add) @ new) * B"
      "chain_data byte fs2 ((cs @ add) @ new) = put_at (chain_data byte fs1 ((cs @ add) @ new)) (q * B + unat o') (take n (drop (unat (0 :: u64)) buf))"
      "n < unat len \<longrightarrow> no_free fs2"
    proof -
      have "supplied fs1 (N - length (cs @ add))" by (rule grown_supplied [OF sk(2) sup])
      moreover have "q * cluster_bytes_n fs1 + unat o' + unat len \<le> N * cluster_bytes_n fs1"
        using fits q(2) o'(1) by (simp add: B1) (simp add: B_def)
      ultimately show thesis
        using write_loop_runs [OF p1 on1 c(1) l0, of N] that unfolding c(2) [symmetric] B1 by metis
    qed
    have off: "q * B + unat o' = unat off" using q(2) o'(1) by simp
    have "cs \<noteq> []" using ch by auto
    then have g: "chain_grown dsize s fs fs2 cs (add @ new)" by (rule chain_grown_trans [OF sk(2) w(3)])
    have k: "keeps byte dsize fs fs2 (set (cs @ add @ new))" by (rule keeps_trans [OF sk(3) w(4) geo]) simp
    have "\<forall>x \<in> set (cs @ add @ new). cluster_on dsize fs x" using g on by (auto simp: chain_grown_def)
    then have "chain_data byte fs1 (cs @ add @ new) = chain_data byte fs (cs @ add @ new)"
      by (intro keeps_chain_data [OF sk(3)]) simp
    then have "chain_data byte fs2 (cs @ add @ new) = put_at (chain_data byte fs (cs @ add @ new)) (unat off) (take n buf)"
      using w(6) by (simp add: off)
    moreover have "write_contents dev fs (ucast s) off len buf = Some (of_nat n, fs2)"
      using unfold Some w(1) by (simp add: ucast_of_nat32)
    ultimately show ?thesis using w(2,5,7) g k off
      by (intro exI [of _ n] exI [of _ "add @ new"] exI [of _ fs2]) (simp add: B_def)
  qed
qed

end

text \<open>C28: A read from a chain on the device returns the part asked for of the bytes of its clusters, in their order, and
  the number of bytes there were; it stops at the end of the chain.\<close>

theorem read_contents_chain:
  assumes "byte_device dev n byte" "chain fs c cs" "\<forall>x \<in> set cs. cluster_on n fs x" "0 < cluster_bytes_n fs"
    and "unat off div cluster_bytes_n fs < 4294967296" "unat len \<le> length buf"
    and "k = min (unat len) (length cs * cluster_bytes_n fs - unat off)"
  shows "read_contents dev fs (ucast c) off len buf =
    Some (of_nat k, take k (drop (unat off) (chain_data byte fs cs)) @ drop k buf)"
  by (rule byte_device.read_contents_on [OF assms])

text \<open>C29: A write into a file's chain changes exactly the bytes it covers, extends the chain by clusters that were free,
  keeps the bytes of every other cluster and the entries of every other chain, and reading the place gives the bytes
  back; it is short only when no cluster of the volume is free. \<open>N\<close> clusters hold the file up to the end of the write.
  Where the sector count of the volume bounds the search for free clusters to the table this holds however full the
  disk is; where it is 0, as FAT32 prescribes, and the search has no bound, the volume must have as many free clusters
  from the hint on as the write adds to the chain.\<close>

theorem write_contents_reads_back:
  assumes "byte_device dev n byte" "volume_ok n fs" "chain fs s cs" "\<forall>x \<in> set cs. \<not> free_in fs x \<and> cluster_on n fs x"
    and "unat off div cluster_bytes_n fs < 4294967296" "unat len \<le> length buf"
    and "unat off + unat len \<le> N * cluster_bytes_n fs" "supplied fs (N - length cs)"
  shows "\<exists>k new fs'. write_contents dev fs (ucast s) off len buf = Some (of_nat k, fs') \<and> (k < unat len \<longrightarrow> no_free fs') \<and>
    chain fs' s (cs @ new) \<and> (\<forall>x \<in> set new. free_in fs x) \<and>
    chain_data byte fs' (cs @ new) = put_at (chain_data byte fs (cs @ new)) (unat off) (take k buf) \<and>
    (\<forall>x. x \<notin> set new \<and> x \<noteq> last cs \<longrightarrow> read_fat_entry fs' x = read_fat_entry fs x) \<and>
    (\<forall>x. cluster_on n fs x \<and> x \<notin> set (cs @ new) \<longrightarrow> cluster_data byte fs' x = cluster_data byte fs x) \<and>
    (k = unat len \<longrightarrow> read_contents dev fs' (ucast s) off len (replicate (unat len) 0) = Some (of_nat k, take k buf))"
proof -
  have p: "\<forall>x \<in> set cs. \<not> free_in fs x" "\<forall>x \<in> set cs. cluster_on n fs x" using assms(4) by simp_all
  obtain k new fs' where w: "write_contents dev fs (ucast s) off len buf = Some (of_nat k, fs')" "k \<le> unat len"
    "chain_grown n s fs fs' cs new" "keeps byte n fs fs' (set (cs @ new))"
    "0 < k \<longrightarrow> unat off + k \<le> length (cs @ new) * cluster_bytes_n fs"
    "chain_data byte fs' (cs @ new) = put_at (chain_data byte fs (cs @ new)) (unat off) (take k buf)"
    "k < unat len \<longrightarrow> no_free fs'"
    using byte_device.write_contents_runs [OF assms(1-3) p assms(5,6,8,7)] by (elim exE conjE) (rule that)
  have geo: "same_geometry fs fs'" and ch: "chain fs' s (cs @ new)" using w(3) by (simp_all add: chain_grown_def)
  have B: "cluster_bytes_n fs' = cluster_bytes_n fs" "0 < cluster_bytes_n fs"
    using same_geometryD(1) [OF geo] assms(2) by (simp_all add: volume_ok_def)
  have again: "read_contents dev fs' (ucast s) off len (replicate (unat len) 0) = Some (of_nat k, take k buf)" if k: "k = unat len"
  proof (cases "k = 0")
    case True
    then show ?thesis using k by (simp add: read_contents_def unat_eq_zero)
  next
    case False
    define X where "X = chain_data byte fs (cs @ new)"
    have fits: "unat off + k \<le> length (cs @ new) * cluster_bytes_n fs" using w(5) False by simp
    then have lX: "unat off + length (take k buf) \<le> length X" using assms(6) k by (simp add: X_def)
    have "k = min (unat len) (length (cs @ new) * cluster_bytes_n fs' - unat off)" using k fits by (simp add: B)
    from byte_device.read_contents_on [OF assms(1) ch chain_grown_on [OF w(3) p(2)] _ _ _ this, of "replicate (unat len) 0"]
    have "read_contents dev fs' (ucast s) off len (replicate (unat len) 0) =
        Some (of_nat k, take k (drop (unat off) (put_at X (unat off) (take k buf))) @ drop k (replicate (unat len) 0))"
      using B assms(5) w(6) by (simp add: X_def)
    moreover have "take k (drop (unat off) (put_at X (unat off) (take k buf))) = take k buf"
    proof -
      have "length (take k buf) = k" using assms(6) k by simp
      moreover have "length (take (unat off) X) = unat off" using lX by simp
      ultimately show ?thesis unfolding put_at_def by simp
    qed
    moreover have "drop k (replicate (unat len) (0 :: u8)) = []" using k by simp
    ultimately show ?thesis by (simp only: append_Nil2)
  qed
  show ?thesis
  proof (intro exI conjI)
    show "write_contents dev fs (ucast s) off len buf = Some (of_nat k, fs')" by (rule w(1))
    show "k < unat len \<longrightarrow> no_free fs'" by (rule w(7))
    show "chain fs' s (cs @ new)" by (rule ch)
    show "chain_data byte fs' (cs @ new) = put_at (chain_data byte fs (cs @ new)) (unat off) (take k buf)" by (rule w(6))
  qed (use w(3,4) again in \<open>simp_all add: chain_grown_def keeps_def\<close>)
qed

text \<open>A write of forty bytes to a chain of two clusters of sixteen bytes takes a third.\<close>

lemma example_geometry:
  "cluster_bytes_n example_fat = 16" "data_start_offset example_fat = 48" "fat_offset example_fat = 16" "fat_size example_fat = 32"
  "scan_limit (bios_parameter_block example_fat) = 6"
  by (simp_all add: example_fat_def example_bpb_def cluster_bytes_n_def bytes_per_cluster_def data_start_offset_def Let_def
      fat_offset_def fat_size_def scan_limit_def)

lemma example_cluster_on: "2 \<le> x \<Longrightarrow> x < 6 \<Longrightarrow> cluster_on 65536 example_fat x"
  by (simp add: cluster_on_def cluster_at_def example_geometry word_less_nat_alt)

lemma example_volume:
  "volume_ok 65536 example_fat" "chain example_fat 2 [2, 4]" "\<forall>x \<in> set [2, 4]. \<not> free_in example_fat x \<and> cluster_on 65536 example_fat x"
proof -
  show "volume_ok 65536 example_fat"
    by (simp add: volume_ok_def example_geometry example_cluster_on hint_ok_def FAT32_END_OF_CHAIN_def)
      (simp add: example_fat_def example_bpb_def)
  show "chain example_fat 2 [2, 4]" by (simp add: read_fat_entry_def example_fat_def is_eoc_def FAT32_END_OF_CHAIN_def)
  show "\<forall>x \<in> set [2, 4]. \<not> free_in example_fat x \<and> cluster_on 65536 example_fat x"
    by (simp add: example_cluster_on free_in_def) (simp add: read_fat_entry_def example_fat_def)
qed

theorem read_contents_chain_witness:
  "read_contents (mem_disk 16) example_fat 2 20 40 (replicate 40 7) =
    Some (12, take 12 (drop 20 (chain_data (\<lambda>m i. m (of_nat i)) example_fat [2, 4])) @ replicate 28 7)"
proof -
  have "drop 12 (replicate 40 7) = replicate 28 (7 :: u8)" by simp
  then show ?thesis
    using read_contents_chain [OF mem_disk_device [of 65536 16] example_volume(2), of 20 40 "replicate 40 7" 12] example_volume(3)
    by (simp add: example_geometry)
qed

text \<open>The same volume with a sector count of 0: the free clusters from the hint on, 6 and 7, are enough.\<close>

definition example_fat0 :: "mem fat32" where
  "example_fat0 = example_fat \<lparr> bios_parameter_block := example_bpb \<lparr> total_sectors := 0 \<rparr> \<rparr>"

lemma example_fat0_geometry:
  "cluster_bytes_n example_fat0 = 16" "data_start_offset example_fat0 = 48" "fat_offset example_fat0 = 16" "fat_size example_fat0 = 32"
  "scan_limit (bios_parameter_block example_fat0) = 0xFFFFFFFF" "length (fat_table example_fat0) = 8" "scan_start example_fat0 = 5"
  by (simp_all add: example_fat0_def example_fat_def example_bpb_def cluster_bytes_n_def bytes_per_cluster_def data_start_offset_def Let_def
      fat_offset_def fat_size_def scan_limit_def scan_start_def)

lemma example_fat0_on: "2 \<le> x \<Longrightarrow> unat x < 8 \<Longrightarrow> cluster_on 65536 example_fat0 x"
  by (simp add: cluster_on_def cluster_at_def example_fat0_geometry)

lemma example_fat0_volume:
  "volume_ok 65536 example_fat0" "chain example_fat0 2 [2, 4]"
  "\<forall>x \<in> set [2, 4]. \<not> free_in example_fat0 x \<and> cluster_on 65536 example_fat0 x" "supplied example_fat0 1"
proof -
  show "volume_ok 65536 example_fat0"
    by (simp add: volume_ok_def example_fat0_geometry example_fat0_on hint_ok_def FAT32_END_OF_CHAIN_def)
      (simp add: example_fat0_def example_fat_def)
  show "chain example_fat0 2 [2, 4]"
    by (simp add: read_fat_entry_def example_fat0_def example_fat_def is_eoc_def FAT32_END_OF_CHAIN_def)
  show "\<forall>x \<in> set [2, 4]. \<not> free_in example_fat0 x \<and> cluster_on 65536 example_fat0 x"
    by (simp add: example_fat0_on free_in_def) (simp add: read_fat_entry_def example_fat0_def example_fat_def)
  have "6 \<in> free_from example_fat0 5"
    by (simp add: free_from_def example_fat0_geometry free_in_def read_fat_entry_def) (simp add: example_fat0_def example_fat_def)
  then have "0 < card (free_from example_fat0 5)" by (auto simp: card_gt_0_iff)
  then show "supplied example_fat0 1" by (simp add: supplied_def example_fat0_geometry)
qed

theorem write_contents_reads_back_witness:
  "\<exists>k new fs'. write_contents (mem_disk 16) example_fat0 2 5 40 (replicate 40 7) = Some (of_nat k, fs') \<and>
    (k < 40 \<longrightarrow> no_free fs') \<and> chain fs' 2 ([2, 4] @ new) \<and> (\<forall>x \<in> set new. free_in example_fat0 x) \<and>
    chain_data (\<lambda>m i. m (of_nat i)) fs' ([2, 4] @ new) =
      put_at (chain_data (\<lambda>m i. m (of_nat i)) example_fat0 ([2, 4] @ new)) 5 (take k (replicate 40 7))"
proof -
  have "unat (5 :: u64) + unat (40 :: u64) \<le> 3 * cluster_bytes_n example_fat0"
    "unat (5 :: u64) div cluster_bytes_n example_fat0 < 4294967296" "unat (40 :: u64) \<le> length (replicate 40 (7 :: u8))"
    "supplied example_fat0 (3 - length [2, 4 :: u32])"
    using example_fat0_volume(4) by (simp_all add: example_fat0_geometry)
  from write_contents_reads_back [OF mem_disk_device [of 65536 16, simplified] example_fat0_volume(1-3) this(2,3,1,4)]
  obtain k new fs' where "write_contents (mem_disk 16) example_fat0 (ucast (2 :: u32)) 5 40 (replicate 40 7) = Some (of_nat k, fs')"
    "k < unat (40 :: u64) \<longrightarrow> no_free fs'" "chain fs' 2 ([2, 4] @ new)" "\<forall>x \<in> set new. free_in example_fat0 x"
    "chain_data (\<lambda>m i. m (of_nat i)) fs' ([2, 4] @ new) =
      put_at (chain_data (\<lambda>m i. m (of_nat i)) example_fat0 ([2, 4] @ new)) (unat (5 :: u64)) (take k (replicate 40 7))"
    by (elim exE conjE) (rule that)
  moreover have "(ucast (2 :: u32) :: u64) = 2" "unat (40 :: u64) = 40" "unat (5 :: u64) = 5" by simp_all
  ultimately show ?thesis by metis
qed

end
