(* ===== verification/Fat32_Dirs.thy ===== *)
theory Fat32_Dirs
  imports Fat32_Write
begin

text \<open>
  Directories of FAT32 (filesystem/fat32/fat32.cpp): slots of 32 bytes in the chain of the directory, the searches
  through them, linking a new entry with its long name, creating files and directories, and the operations of the
  vnodes. A step past the end of the table in memory, a store past the name of a vnode and a loop that does not
  advance are \<open>None\<close>. The theory shows what a search finds, that two long names can share one short name, and on which
  slots the listing of a directory hangs.
\<close>

subsection \<open>Slots\<close>

text \<open>An entry is its 32 bytes.\<close>

definition entry_name :: "u8 list \<Rightarrow> u8 list" where "entry_name e = field e 0 11"
definition entry_attributes :: "u8 list \<Rightarrow> u8" where "entry_attributes e = of_nat (le_nat (field e 11 1))"
definition entry_winnt_flags :: "u8 list \<Rightarrow> u8" where "entry_winnt_flags e = of_nat (le_nat (field e 12 1))"

definition entry_first_cluster :: "u8 list \<Rightarrow> u32" where
  "entry_first_cluster e = (push_bit 16 (of_nat (le_nat (field e 20 2)))) OR of_nat (le_nat (field e 26 2))"

definition entry_file_size :: "u8 list \<Rightarrow> u32" where "entry_file_size e = of_nat (le_nat (field e 28 4))"

definition make_entry :: "u8 list \<Rightarrow> u8 \<Rightarrow> u8 \<Rightarrow> u32 \<Rightarrow> u8 list" where
  "make_entry name attributes winnt_flags cluster =
     put_at (put_at (put_at (put_at (put_at (replicate 32 0) 0 name) 11 [attributes]) 12 [winnt_flags])
       20 (nat_bytes 2 (unat (drop_bit 16 cluster)))) 26 (nat_bytes 2 (unat (cluster AND 0xFFFF)))"

definition le16s :: "u16 list \<Rightarrow> u8 list" where
  "le16s cs = concat (map (\<lambda>c. nat_bytes 2 (unat c)) cs)"

definition get16s :: "u8 list \<Rightarrow> nat \<Rightarrow> nat \<Rightarrow> u16 list" where
  "get16s e at n = map (\<lambda>i. of_nat (le_nat (field e (at + 2 * i) 2))) [0..<n]"

definition lfn_bytes :: "lfn_slot \<Rightarrow> u8 list" where
  "lfn_bytes l = [sequence l] @ le16s (name1 l) @ [lfn_attributes l, long_entry_type l, lfn_check l] @ le16s (name2 l) @
     nat_bytes 2 (unat (lfn_rsv l)) @ le16s (name3 l)"

definition lfn_of_bytes :: "u8 list \<Rightarrow> lfn_slot" where
  "lfn_of_bytes e = \<lparr> sequence = of_nat (le_nat (field e 0 1)), name1 = get16s e 1 5, lfn_attributes = entry_attributes e,
     long_entry_type = of_nat (le_nat (field e 12 1)), lfn_check = of_nat (le_nat (field e 13 1)), name2 = get16s e 14 6,
     lfn_rsv = of_nat (le_nat (field e 26 2)), name3 = get16s e 28 2 \<rparr>"

definition slots :: "u8 list \<Rightarrow> u8 list list" where
  "slots bs = map (\<lambda>i. field bs (32 * i) 32) [0..<length bs div 32]"

definition first_byte :: "u8 list \<Rightarrow> u8" where "first_byte e = (case e of [] \<Rightarrow> 0 | b # _ \<Rightarrow> b)"

subsection \<open>Searches\<close>

definition zero_cluster :: "'d blkdev \<Rightarrow> 'd fat32 \<Rightarrow> u32 \<Rightarrow> 'd fat32" where
  "zero_cluster blk fs cluster =
     (let cluster_size = bytes_per_cluster (bios_parameter_block fs)
      in fs \<lparr> dev_state := snd (blk_write blk (dev_state fs) (get_cluster_offset fs cluster) (ucast cluster_size)
           (replicate (unat cluster_size) 0)) \<rparr>)"

text \<open>The whole directory in a fresh block; \<open>Some None\<close> when nothing could be read.\<close>

definition read_table :: "'d blkdev \<Rightarrow> (nat \<Rightarrow> u8 list) \<Rightarrow> 'd fat32 \<Rightarrow> u32 \<Rightarrow> u8 list list option option" where
  "read_table blk fresh fs cluster =
     Option.bind (get_total_size fs cluster) (\<lambda>buffer_size.
       map_option (\<lambda>(ret, table). if ret = 0 then None else Some (slots table))
         (read_contents blk fs (ucast cluster) 0 buffer_size (fresh (unat buffer_size))))"

definition DOT_NAME :: "u8 list" where "DOT_NAME = 46 # replicate 10 32"
definition DOTDOT_NAME :: "u8 list" where "DOTDOT_NAME = 46 # 46 # replicate 9 32"

fun scan_empty :: "u8 list list \<Rightarrow> bool option" where
  "scan_empty [] = None"
| "scan_empty (e # es) =
     (if first_byte e = 0 then Some True
      else if first_byte e = 0xE5 then scan_empty es
      else if entry_attributes e = FAT_LFN then scan_empty es
      else if entry_name e = DOT_NAME then scan_empty es
      else if entry_name e = DOTDOT_NAME then scan_empty es
      else Some False)"

definition is_dir_empty :: "'d blkdev \<Rightarrow> (nat \<Rightarrow> u8 list) \<Rightarrow> 'd fat32 \<Rightarrow> u32 \<Rightarrow> bool option" where
  "is_dir_empty blk fresh fs cluster =
     Option.bind (read_table blk fresh fs cluster) (\<lambda>t. case t of None \<Rightarrow> Some False | Some es \<Rightarrow> scan_empty es)"

text \<open>The index and bytes of the first entry of a short name.\<close>

fun scan_name :: "u8 list list \<Rightarrow> nat \<Rightarrow> u8 list \<Rightarrow> (nat \<times> u8 list) option option" where
  "scan_name [] i name = None"
| "scan_name (e # es) i name =
     (if first_byte e = 0 then Some None
      else if first_byte e = 0xE5 then scan_name es (i + 1) name
      else if entry_attributes e = FAT_LFN then scan_name es (i + 1) name
      else if entry_name e = name then Some (Some (i, e))
      else scan_name es (i + 1) name)"

definition load_directory_entry ::
  "'d blkdev \<Rightarrow> (nat \<Rightarrow> u8 list) \<Rightarrow> 'd fat32 \<Rightarrow> u32 \<Rightarrow> u8 list \<Rightarrow> u8 list option option" where
  "load_directory_entry blk fresh fs parent_cluster name =
     Option.bind (read_table blk fresh fs parent_cluster) (\<lambda>t.
       case t of None \<Rightarrow> Some None | Some es \<Rightarrow> map_option (map_option snd) (scan_name es 0 name))"

definition update_directory_entry ::
  "'d blkdev \<Rightarrow> (nat \<Rightarrow> u8 list) \<Rightarrow> 'd fat32 \<Rightarrow> u32 \<Rightarrow> u8 list \<Rightarrow> u8 list \<Rightarrow> (bool \<times> 'd fat32) option" where
  "update_directory_entry blk fresh fs parent_cluster name entry =
     Option.bind (read_table blk fresh fs parent_cluster) (\<lambda>t.
       case t of None \<Rightarrow> Some (False, fs)
       | Some es \<Rightarrow> Option.bind (scan_name es 0 name) (\<lambda>r.
           case r of None \<Rightarrow> Some (False, fs)
           | Some (i, _) \<Rightarrow> map_option (\<lambda>(_, fs). (True, fs))
               (write_contents blk fs (ucast parent_cluster) (of_nat (32 * i)) 32 entry)))"

text \<open>Slot by slot through the chain: the place of the first free slot.\<close>

partial_function (option) find_slot :: "'d blkdev \<Rightarrow> 'd fat32 \<Rightarrow> u32 \<Rightarrow> u32 \<Rightarrow> u8 list \<Rightarrow> u32 option" where
  "find_slot blk fs parent_cluster offset temp =
     Option.bind (read_contents blk fs (ucast parent_cluster) (ucast offset) 32 temp) (\<lambda>r.
       if fst r = 0 \<or> first_byte (snd r) = 0 \<or> first_byte (snd r) = 0xE5 then Some offset
       else find_slot blk fs parent_cluster (offset + 32) (snd r))"

definition push_dir_entry :: "'d blkdev \<Rightarrow> 'd fat32 \<Rightarrow> u32 \<Rightarrow> u8 list \<Rightarrow> u8 list \<Rightarrow> (u32 \<times> 'd fat32) option" where
  "push_dir_entry blk fs parent_cluster entry temp =
     Option.bind (find_slot blk fs parent_cluster 0 temp) (\<lambda>offset.
       map_option (\<lambda>(_, fs). (offset, fs)) (write_contents blk fs (ucast parent_cluster) (ucast offset) 32 entry))"

text \<open>The place of a hole of \<open>total_slots\<close> deleted slots, or of the end of the directory.\<close>

partial_function (option) find_hole ::
  "'d blkdev \<Rightarrow> 'd fat32 \<Rightarrow> u32 \<Rightarrow> nat \<Rightarrow> u32 \<Rightarrow> u32 \<Rightarrow> nat \<Rightarrow> u8 list \<Rightarrow> u32 option" where
  "find_hole blk fs parent_cluster total_slots offset hole_start consecutive_free temp =
     Option.bind (read_contents blk fs (ucast parent_cluster) (ucast offset) 32 temp) (\<lambda>r.
       if fst r = 0 \<or> first_byte (snd r) = 0 then
         Some (if consecutive_free < total_slots then offset - of_nat consecutive_free * 32 else hole_start)
       else if first_byte (snd r) = 0xE5 then
         let hole_start = (if consecutive_free = 0 then offset else hole_start)
         in if consecutive_free + 1 = total_slots then Some hole_start
            else find_hole blk fs parent_cluster total_slots (offset + 32) hole_start (consecutive_free + 1) (snd r)
       else find_hole blk fs parent_cluster total_slots (offset + 32) hole_start 0 (snd r))"

subsection \<open>Linking and creating\<close>

fun write_slots :: "'d blkdev \<Rightarrow> 'd fat32 \<Rightarrow> u32 \<Rightarrow> u32 \<Rightarrow> u8 list list \<Rightarrow> 'd fat32 option" where
  "write_slots blk fs parent_cluster woff [] = Some fs"
| "write_slots blk fs parent_cluster woff (e # es) =
     Option.bind (write_contents blk fs (ucast parent_cluster) (ucast woff) 32 e) (\<lambda>(_, fs).
       write_slots blk fs parent_cluster (woff + 32) es)"

text \<open>The slots of a new entry, in the order in which they are written.\<close>

definition entry_slots :: "u8 list \<Rightarrow> u32 \<Rightarrow> u8 \<Rightarrow> u8 list list" where
  "entry_slots name target_cluster attributes =
     (if is_valid_8_3 name
      then let (sfn, nt_resv) = format_8_3 name in [make_entry sfn attributes nt_resv target_cluster]
      else let sfn = generate_sfn name
           in map lfn_bytes (lfn_chain name (lfn_checksum sfn)) @ [make_entry sfn attributes 0 target_cluster])"

definition link_entry :: "'d blkdev \<Rightarrow> 'd fat32 \<Rightarrow> u32 \<Rightarrow> u8 list \<Rightarrow> u32 \<Rightarrow> u8 \<Rightarrow> u8 list \<Rightarrow> 'd fat32 option" where
  "link_entry blk fs parent_cluster name target_cluster attributes temp =
     (let es = entry_slots name target_cluster attributes
      in Option.bind (find_hole blk fs parent_cluster (length es) 0 0 0 temp) (\<lambda>at.
           write_slots blk fs parent_cluster at es))"

definition ENOSPC :: u32 where "ENOSPC = 28"
definition FAT_DIR :: u8 where "FAT_DIR = 0x10"

definition create_dir :: "'d blkdev \<Rightarrow> 'd fat32 \<Rightarrow> u32 \<Rightarrow> u8 list \<Rightarrow> u8 list \<Rightarrow> (u32 \<times> 'd fat32) option" where
  "create_dir blk fs parent_cluster name temp =
     Option.bind (find_free_cluster fs) (\<lambda>(new_cluster, fs).
       if new_cluster = 0 then Some (- ENOSPC, fs)
       else Option.bind (write_fat_entry blk fs new_cluster 0x0FFFFFFF) (\<lambda>fs.
         let fs = zero_cluster blk fs new_cluster;
             dot = make_entry DOT_NAME FAT_DIR 0 new_cluster;
             parent_ref = (if parent_cluster = root_dir_cluster fs then 0 else parent_cluster);
             dotdot = make_entry DOTDOT_NAME FAT_DIR 0 parent_ref
         in Option.bind (write_contents blk fs (ucast new_cluster) 0 32 dot) (\<lambda>(_, fs).
            Option.bind (write_contents blk fs (ucast new_cluster) 32 32 dotdot) (\<lambda>(_, fs).
            map_option (\<lambda>fs. (0, fs)) (link_entry blk fs parent_cluster name new_cluster FAT_DIR temp)))))"

definition create_file :: "'d blkdev \<Rightarrow> 'd fat32 \<Rightarrow> u32 \<Rightarrow> u8 list \<Rightarrow> bool \<Rightarrow> u8 list \<Rightarrow> (u32 \<times> 'd fat32) option" where
  "create_file blk fs parent_cluster name preallocate temp =
     (if preallocate
      then Option.bind (find_free_cluster fs) (\<lambda>(new_cluster, fs).
        if new_cluster = 0 then Some (- ENOSPC, fs)
        else Option.bind (write_fat_entry blk fs new_cluster 0x0FFFFFFF) (\<lambda>fs.
          map_option (\<lambda>fs. (0, fs)) (link_entry blk (zero_cluster blk fs new_cluster) parent_cluster name new_cluster 0 temp)))
      else map_option (\<lambda>fs. (0, fs)) (link_entry blk fs parent_cluster name 0 0 temp))"

subsection \<open>The vnodes\<close>

record fat_info =
  sfn_name :: "u8 list"
  parent_start_cluster :: u32
  start_cluster :: u32

record fat_node =
  node_name :: "u8 list"
  node_is_dir :: bool
  node_size :: u64
  file_info :: "fat_info option"

definition EFAULT32 :: u32 where "EFAULT32 = 14"
definition ENOTEMPTY :: u32 where "ENOTEMPTY = 39"

definition fat32_vnode_read ::
  "'d blkdev \<Rightarrow> 'd fat32 \<Rightarrow> u64 \<Rightarrow> u64 \<Rightarrow> u8 list \<Rightarrow> fat_node \<Rightarrow> (u32 \<times> u8 list) option" where
  "fat32_vnode_read blk fs offset len buffer this_node =
     (case file_info this_node of None \<Rightarrow> Some (- EFAULT32, buffer)
      | Some info \<Rightarrow>
          map_option (\<lambda>(ret, buffer). (ucast (min (scast ret) (node_size this_node - offset)), buffer))
            (read_contents blk fs (ucast (start_cluster info)) offset len buffer))"

text \<open>The new size is the end of the write; the entry is looked up, and its copy changed, but not written back.\<close>

definition fat32_vnode_write ::
  "'d blkdev \<Rightarrow> (nat \<Rightarrow> u8 list) \<Rightarrow> 'd fat32 \<Rightarrow> u64 \<Rightarrow> u64 \<Rightarrow> u8 list \<Rightarrow> fat_node \<Rightarrow> (u32 \<times> fat_node \<times> 'd fat32) option" where
  "fat32_vnode_write blk fresh fs offset len buffer this_node =
     (case file_info this_node of None \<Rightarrow> Some (- EFAULT32, this_node, fs)
      | Some info \<Rightarrow>
          Option.bind (write_contents blk fs (ucast (start_cluster info)) offset len buffer) (\<lambda>(ret, fs).
            let new_size = offset + scast ret
            in Option.bind (load_directory_entry blk fresh fs (parent_start_cluster info) (sfn_name info)) (\<lambda>_.
                 Some (ucast new_size, this_node \<lparr> node_size := new_size \<rparr>, fs))))"

definition fat32_vnode_unlink ::
  "'d blkdev \<Rightarrow> (nat \<Rightarrow> u8 list) \<Rightarrow> 'd fat32 \<Rightarrow> fat_node \<Rightarrow> (u32 \<times> fat_node \<times> 'd fat32) option" where
  "fat32_vnode_unlink blk fresh fs this_node =
     (case file_info this_node of None \<Rightarrow> Some (- EFAULT32, this_node, fs)
      | Some info \<Rightarrow>
          Option.bind (if node_is_dir this_node then is_dir_empty blk fresh fs (start_cluster info) else Some True) (\<lambda>ok.
            if \<not> ok then Some (- ENOTEMPTY, this_node, fs)
            else Option.bind (free_cluster_chain blk fs (start_cluster info)) (\<lambda>fs.
              Option.bind (load_directory_entry blk fresh fs (parent_start_cluster info) (sfn_name info)) (\<lambda>r.
                map_option (\<lambda>fs. (0, this_node \<lparr> file_info := None \<rparr>, fs))
                  (case r of None \<Rightarrow> Some fs
                   | Some entry \<Rightarrow> map_option snd
                       (update_directory_entry blk fresh fs (parent_start_cluster info) (sfn_name info)
                         (put_at (put_at entry 0 [0xE5]) 20 [0, 0])))))))"

definition fat32_vnode_mkdir ::
  "'d blkdev \<Rightarrow> 'd fat32 \<Rightarrow> u8 list \<Rightarrow> u8 list \<Rightarrow> fat_node \<Rightarrow> (u32 \<times> 'd fat32) option" where
  "fat32_vnode_mkdir blk fs name temp this_node =
     (case file_info this_node of None \<Rightarrow> Some (- EFAULT32, fs)
      | Some info \<Rightarrow> map_option (\<lambda>(_, fs). (0, fs)) (create_dir blk fs (start_cluster info) name temp))"

definition fat32_vnode_creat ::
  "'d blkdev \<Rightarrow> 'd fat32 \<Rightarrow> u8 list \<Rightarrow> u8 list \<Rightarrow> fat_node \<Rightarrow> (u32 \<times> 'd fat32) option" where
  "fat32_vnode_creat blk fs name temp this_node =
     (case file_info this_node of None \<Rightarrow> Some (- EFAULT32, fs)
      | Some info \<Rightarrow> map_option (\<lambda>(_, fs). (0, fs)) (create_file blk fs (start_cluster info) name True temp))"

text \<open>Listing. The name goes into 128 bytes with its terminator.\<close>

definition make_node :: "u32 \<Rightarrow> u8 list \<Rightarrow> u8 list \<Rightarrow> fat_node option" where
  "make_node cluster entry entry_name' =
     (if length entry_name' < 128
      then Some \<lparr> node_name = entry_name', node_is_dir = (entry_attributes entry AND FAT_DIR \<noteq> 0),
        node_size = ucast (entry_file_size entry),
        file_info = Some \<lparr> sfn_name = entry_name entry, parent_start_cluster = cluster, start_cluster = entry_first_cluster entry \<rparr> \<rparr>
      else None)"

partial_function (option) read_dir_loop :: "u32 \<Rightarrow> u8 list list \<Rightarrow> bool \<Rightarrow> u8 list \<Rightarrow> u8 \<Rightarrow> fat_node list option" where
  "read_dir_loop cluster es lfn_found lfn_buffer expected =
     (if es = [] then None
      else let entry = hd es in
        if first_byte entry = 0 then Some []
        else if first_byte entry = 0xE5 then read_dir_loop cluster (tl es) False lfn_buffer expected
        else if entry_attributes entry = FAT_LFN then
          Option.bind (parse_lfn (map lfn_of_bytes es) (replicate 512 0) expected) (\<lambda>r.
            read_dir_loop cluster (drop (length es - length (fst r)) es) True (fst (snd r)) (snd (snd r)))
        else let long = (lfn_found \<and> lfn_checksum (entry_name entry) = expected);
                 name = (if long then takeWhile (\<lambda>c. c \<noteq> 0) lfn_buffer
                         else parse_sfn (entry_name entry) (entry_winnt_flags entry))
             in Option.bind (make_node cluster entry name) (\<lambda>node.
                  Option.bind (read_dir_loop cluster (tl es) False lfn_buffer expected) (\<lambda>nodes. Some (node # nodes))))"

text \<open>The buffers are uninitialised on entry.\<close>

definition fat32_vnode_read_dir ::
  "'d blkdev \<Rightarrow> (nat \<Rightarrow> u8 list) \<Rightarrow> 'd fat32 \<Rightarrow> u8 list \<Rightarrow> fat_node \<Rightarrow> fat_node list option" where
  "fat32_vnode_read_dir blk fresh fs lfn_buffer this_node =
     (if \<not> node_is_dir this_node then Some []
      else let cluster = (case file_info this_node of None \<Rightarrow> root_dir_cluster fs | Some info \<Rightarrow> start_cluster info)
           in Option.bind (read_table blk fresh fs cluster) (\<lambda>t. case t of None \<Rightarrow> Some []
                | Some es \<Rightarrow> read_dir_loop cluster es False lfn_buffer 0))"

text \<open>Mounting: the boot record and the table are read, whatever the results of the device.\<close>

definition bpb_of_bytes :: "u8 list \<Rightarrow> fat_bpb" where
  "bpb_of_bytes bs = \<lparr> bytes_per_sector = of_nat (le_nat (field bs 11 2)), sectors_per_cluster = of_nat (le_nat (field bs 13 1)),
     reserved_sectors = of_nat (le_nat (field bs 14 2)), fat_count = of_nat (le_nat (field bs 16 1)),
     root_entry_count = of_nat (le_nat (field bs 17 2)), total_sectors = of_nat (le_nat (field bs 19 2)),
     large_sector_count = of_nat (le_nat (field bs 32 4)) \<rparr>"

definition FAT32_EBR_OFFSET :: u64 where "FAT32_EBR_OFFSET = 36"

text \<open>The characters \<^verbatim>\<open>FAT32\<close> and three blanks, at byte 46 of the extended boot record.\<close>

definition FAT32_IDENTIFIER :: "u8 list" where
  "FAT32_IDENTIFIER = [0x46, 0x41, 0x54, 0x33, 0x32, 0x20, 0x20, 0x20]"

definition is_fat32 :: "'d blkdev \<Rightarrow> 'd \<Rightarrow> u8 list \<Rightarrow> bool" where
  "is_fat32 blk d fresh =
     (let (ret, got) = blk_read blk d FAT32_EBR_OFFSET 476
      in if sint ret \<le> 0 then False else field (put_at fresh 0 got) 46 8 = FAT32_IDENTIFIER)"

definition new_fat32 :: "'d blkdev \<Rightarrow> (nat \<Rightarrow> u8 list) \<Rightarrow> 'd \<Rightarrow> 'd fat32" where
  "new_fat32 blk fresh d =
     (let bpb = put_at (replicate 36 0) 0 (snd (blk_read blk d 0 36));
          ebr = put_at (replicate 476 0) 0 (snd (blk_read blk d FAT32_EBR_OFFSET 476))
      in snd (load_fat blk fresh \<lparr> bios_parameter_block = bpb_of_bytes bpb, sectors_per_fat = of_nat (le_nat (field ebr 0 4)),
           root_dir_cluster = of_nat (le_nat (field ebr 8 4)), fat_table = [], last_free_cluster = 0, root_size = 0,
           dev_state = d \<rparr>))"

text \<open>The space in use is counted from the table.\<close>

definition total_clusters :: "'d fat32 \<Rightarrow> u32" where
  "total_clusters fs =
     (let b = bios_parameter_block fs;
          bps = (ucast (bytes_per_sector b) :: u32);
          root_dir_sectors = (ucast (root_entry_count b) * 32 + (bps - 1)) div bps;
          sectors = (if total_sectors b = 0 then large_sector_count b else ucast (total_sectors b));
          data_sectors = sectors - (ucast (reserved_sectors b) + ucast (fat_count b) * sectors_per_fat fs + root_dir_sectors)
      in data_sectors div ucast (sectors_per_cluster b))"

fun sum_used :: "u32 list \<Rightarrow> u64 \<Rightarrow> u64 \<Rightarrow> u64" where
  "sum_used [] step acc = acc"
| "sum_used (e # es) step acc = sum_used es step (if e AND 0x0FFFFFFF \<noteq> 0 then acc + step else acc)"

definition calculate_space :: "'d fat32 \<Rightarrow> 'd fat32 option" where
  "calculate_space fs =
     (let b = bios_parameter_block fs in
      if bytes_per_sector b = 0 \<or> sectors_per_cluster b = 0 \<or> length (fat_table fs) < unat (total_clusters fs) then None
      else Some (fs \<lparr> root_size := sum_used (take (unat (total_clusters fs)) (fat_table fs)) (ucast (bytes_per_cluster b)) (root_size fs) \<rparr>))"

subsection \<open>Slots and their fields\<close>

lemma field_simps:
  "field bs at 0 = []" "field (b # bs) 0 (Suc n) = b # field bs 0 n" "field (b # bs) (Suc at) n = field bs at n"
  by (simp_all add: field_def)

lemma field_append: "length pre = at \<Longrightarrow> field (pre @ bs) (at + k) n = field bs k n"
  by (simp add: field_def)

lemma of_nat_le_nat2: "(of_nat (le_nat (nat_bytes 2 (unat (c :: u16)))) :: u16) = c"
  using unsigned_less [where ?'a = nat, of c] by (subst le_nat_of_bytes) simp_all

lemma field_le16s:
  "i < length cs \<Longrightarrow> field (le16s cs @ post) (2 * i) 2 = nat_bytes 2 (unat (cs ! i))"
proof (induction cs arbitrary: i)
  case (Cons c cs)
  show ?case
  proof (cases i)
    case 0
    then show ?thesis by (simp add: le16s_def field_def)
  next
    case (Suc j)
    then show ?thesis using Cons field_append [of "nat_bytes 2 (unat c)" 2 "le16s cs @ post" "2 * j" 2]
      by (simp add: le16s_def)
  qed
qed simp

lemma get16s_le16s:
  assumes "length pre = at" "length cs = n"
  shows "get16s (pre @ le16s cs @ post) at n = cs"
  using assms field_append [OF assms(1), of "le16s cs @ post"]
  by (intro nth_equalityI) (simp_all add: get16s_def field_le16s of_nat_le_nat2)

lemma length_le16s [simp]: "length (le16s cs) = 2 * length cs"
  by (induction cs) (simp_all add: le16s_def)

lemma byte_field: "length pre = at \<Longrightarrow> (of_nat (le_nat (field (pre @ b # post) at 1)) :: u8) = b"
  by (simp add: field_def)

lemma lfn_bytes_fields:
  assumes "lfn_shape l"
  shows "lfn_of_bytes (lfn_bytes l) = l" "length (lfn_bytes l) = 32" "first_byte (lfn_bytes l) = sequence l"
    and "entry_attributes (lfn_bytes l) = lfn_attributes l"
proof -
  have len: "length (name1 l) = 5" "length (name2 l) = 6" "length (name3 l) = 2" using assms by (simp_all add: lfn_shape_def)
  define n1 n2 n3 where n: "n1 = le16s (name1 l)" "n2 = le16s (name2 l)" "n3 = le16s (name3 l)"
  define rs where "rs = nat_bytes 2 (unat (lfn_rsv l))"
  have ln: "length n1 = 10" "length n2 = 12" "length n3 = 4" "length rs = 2" using len by (simp_all add: n rs_def)
  have b: "lfn_bytes l = sequence l # n1 @ lfn_attributes l # long_entry_type l # lfn_check l # n2 @ rs @ n3"
    by (simp add: lfn_bytes_def n rs_def)
  show "length (lfn_bytes l) = 32" "first_byte (lfn_bytes l) = sequence l" using ln by (simp_all add: b first_byte_def)
  have f: "(of_nat (le_nat (field (lfn_bytes l) 0 1)) :: u8) = sequence l"
    "(of_nat (le_nat (field (lfn_bytes l) 11 1)) :: u8) = lfn_attributes l"
    "(of_nat (le_nat (field (lfn_bytes l) 12 1)) :: u8) = long_entry_type l"
    "(of_nat (le_nat (field (lfn_bytes l) 13 1)) :: u8) = lfn_check l"
    using byte_field [of "[]" 0] byte_field [of "sequence l # n1" 11] byte_field [of "sequence l # n1 @ [lfn_attributes l]" 12]
      byte_field [of "sequence l # n1 @ [lfn_attributes l, long_entry_type l]" 13] ln by (simp_all add: b)
  have g: "get16s (lfn_bytes l) 1 5 = name1 l" "get16s (lfn_bytes l) 14 6 = name2 l" "get16s (lfn_bytes l) 28 2 = name3 l"
    using get16s_le16s [of "[sequence l]" 1 "name1 l" 5] len
      get16s_le16s [of "sequence l # n1 @ [lfn_attributes l, long_entry_type l, lfn_check l]" 14 "name2 l" 6 "rs @ n3"]
      get16s_le16s [of "sequence l # n1 @ [lfn_attributes l, long_entry_type l, lfn_check l] @ n2 @ rs" 28 "name3 l" 2 "[]"] ln
    by (simp_all add: b n)
  have "field (lfn_bytes l) 26 2 = rs"
    using field_append [of "sequence l # n1 @ [lfn_attributes l, long_entry_type l, lfn_check l] @ n2" 26 "rs @ n3" 0 2] ln
    by (simp add: b) (simp add: field_def)
  then have rv: "(of_nat (le_nat (field (lfn_bytes l) 26 2)) :: u16) = lfn_rsv l" by (simp add: rs_def of_nat_le_nat2)
  show "entry_attributes (lfn_bytes l) = lfn_attributes l" using f by (simp add: entry_attributes_def)
  then show "lfn_of_bytes (lfn_bytes l) = l" using f g rv by (simp add: lfn_of_bytes_def)
qed

lemma make_entry_fields:
  assumes "length name = 11"
  shows "length (make_entry name a w c) = 32" "entry_name (make_entry name a w c) = name"
    and "entry_attributes (make_entry name a w c) = a" "entry_winnt_flags (make_entry name a w c) = w"
    and "entry_first_cluster (make_entry name a w c) = c" "entry_file_size (make_entry name a w c) = 0"
    and "first_byte (make_entry name a w c) = hd name"
proof -
  define h l where hl: "h = nat_bytes 2 (unat (drop_bit 16 c))" "l = nat_bytes 2 (unat (c AND 0xFFFF))"
  have "unat (drop_bit 16 c) < 256 ^ 2"
    unfolding unat_drop_bit_eq using unat_lt32 [of c] by (simp add: drop_bit_eq_div)
  then have h: "(of_nat (le_nat h) :: u32) = drop_bit 16 c" by (simp add: hl le_nat_of_bytes)
  have m: "(0xFFFF :: u32) = mask 16" by (simp add: mask_eq_exp_minus_1)
  have "unat (c AND 0xFFFF) < 256 ^ 2" unfolding m unat_and_mask by simp
  then have l: "(of_nat (le_nat l) :: u32) = c AND 0xFFFF" by (simp add: hl le_nat_of_bytes)
  have c: "push_bit 16 (drop_bit 16 c) OR (c AND 0xFFFF) = c"
    unfolding m by (rule bit_eqI) (auto simp: bit_simps)
  have "length h = 2" "length l = 2" by (simp_all add: hl)
  then obtain h0 h1 l0 l1 where parts: "h = [h0, h1]" "l = [l0, l1]"
    by (auto simp: numeral_2_eq_2 length_Suc_conv)
  have "length name = Suc (Suc (Suc (Suc (Suc (Suc (Suc (Suc (Suc (Suc (Suc 0))))))))))" using assms by simp
  then obtain a0 a1 a2 a3 a4 a5 a6 a7 a8 a9 a10 where n: "name = [a0, a1, a2, a3, a4, a5, a6, a7, a8, a9, a10]"
    by (auto simp only: length_Suc_conv length_0_conv)
  have e: "make_entry name a w c = [a0, a1, a2, a3, a4, a5, a6, a7, a8, a9, a10, a, w, 0, 0, 0, 0, 0, 0, 0,
      h0, h1, 0, 0, 0, 0, l0, l1, 0, 0, 0, 0]"
    unfolding make_entry_def hl [symmetric] parts n by (simp add: put_at_def numeral_eq_Suc)
  show "length (make_entry name a w c) = 32" "entry_name (make_entry name a w c) = name"
    "entry_attributes (make_entry name a w c) = a" "entry_winnt_flags (make_entry name a w c) = w"
    "entry_file_size (make_entry name a w c) = 0" "first_byte (make_entry name a w c) = hd name"
    unfolding e by (simp_all add: n entry_name_def entry_attributes_def entry_winnt_flags_def entry_file_size_def field_def first_byte_def)
  show "entry_first_cluster (make_entry name a w c) = c"
    using h l c unfolding e by (simp add: entry_first_cluster_def field_def parts)
qed

subsection \<open>Listing what was linked\<close>

lemma length_format_8_3: "length (fst (format_8_3 name)) = 11"
proof -
  have "length (fst (format_base cs j out nt)) = length out" for cs j out nt
    by (induction cs arbitrary: j out nt) auto
  moreover have "length (fst (format_ext cs j out nt)) = length out" for cs j out nt
    by (induction cs arbitrary: j out nt) auto
  ultimately show ?thesis by (auto simp: format_8_3_def Let_def split: list.splits prod.splits) (metis fst_conv length_replicate)+
qed

lemma length_generate_sfn: "length (generate_sfn name) = 11"
proof -
  have "length (sfn_base cs j out) = length out" for cs j out by (induction cs arbitrary: j out) auto
  moreover have "length (sfn_ext cs j out) = length out" for cs j out by (induction cs arbitrary: j out) auto
  ultimately show ?thesis by (simp add: generate_sfn_def Let_def)
qed

text \<open>The name that the short entry of a file carries.\<close>

definition linked_sfn :: "u8 list \<Rightarrow> u8 list" where
  "linked_sfn name = (if is_valid_8_3 name then fst (format_8_3 name) else generate_sfn name)"

definition linkable :: "u8 list \<Rightarrow> u8 \<Rightarrow> bool" where
  "linkable name a \<longleftrightarrow> name \<noteq> [] \<and> 0 \<notin> set name \<and> length name < 128 \<and> \<not> (is_valid_8_3 name \<and> last name = 46) \<and>
     hd (linked_sfn name) \<noteq> 0 \<and> hd (linked_sfn name) \<noteq> 0xE5 \<and> a \<noteq> FAT_LFN"

definition linked_node :: "u32 \<Rightarrow> u8 list \<times> u32 \<times> u8 \<Rightarrow> fat_node" where
  "linked_node cluster = (\<lambda>(name, target, a). \<lparr> node_name = name, node_is_dir = (a AND FAT_DIR \<noteq> 0), node_size = 0,
     file_info = Some \<lparr> sfn_name = linked_sfn name, parent_start_cluster = cluster, start_cluster = target \<rparr> \<rparr>)"

lemma read_dir_short:
  assumes "is_valid_8_3 name" "linkable name a"
  shows "read_dir_loop cluster (entry_slots name target a @ es) False buf x =
    Option.bind (read_dir_loop cluster es False buf x) (\<lambda>nodes. Some (linked_node cluster (name, target, a) # nodes))"
proof -
  obtain sfn nt where f: "format_8_3 name = (sfn, nt)" by fastforce
  have l: "length sfn = 11" using length_format_8_3 [of name] f by simp
  have p: "parse_sfn sfn nt = name"
    using short_name_parse [OF assms(1)] assms f by (simp add: linkable_def)
  have s: "linked_sfn name = sfn" using assms(1) f by (simp add: linked_sfn_def)
  have "hd sfn \<noteq> 0" "hd sfn \<noteq> 0xE5" "a \<noteq> FAT_LFN" "length name < 128" using assms(2) by (simp_all add: linkable_def s)
  then show ?thesis
    using assms(1) f p s
    by (subst read_dir_loop.simps) (simp add: entry_slots_def make_entry_fields [OF l] make_node_def linked_node_def)
qed

lemma lfn_chain_bytes:
  assumes "name \<noteq> []" "length name \<le> 403" "0 \<notin> set name"
  shows "map lfn_of_bytes (map lfn_bytes (lfn_chain name ck)) = lfn_chain name ck"
    and "lfn_chain name ck \<noteq> []"
    and "\<forall>e \<in> set (map lfn_bytes (lfn_chain name ck)). first_byte e \<noteq> 0 \<and> first_byte e \<noteq> 0xE5 \<and> entry_attributes e = FAT_LFN"
proof -
  define n where "n = lfn_entries_needed name"
  have n: "0 < n" "n \<le> 31" "13 * n < length name + 13"
    using assms(1,2) by (simp_all add: n_def lfn_entries_needed_def Suc_le_eq [symmetric] div_le_mono less_eq_div_iff_mult_less_eq
      split: if_splits) (cases name; simp; linarith | linarith)+
  have at: "(i - 1) * 13 \<le> length name" if "i \<le> n" for i
  proof -
    have "(i - 1) * 13 \<le> (n - 1) * 13" using that by (intro mult_right_mono) simp_all
    also have "\<dots> \<le> length name" using n(1,3) by (simp add: diff_mult_distrib)
    finally show ?thesis .
  qed
  have facts: "lfn_shape (lfn_entry name ck i)" if "i \<le> n" for i
    using lfn_entry_facts(1) [OF assms(3) at [OF that]] .
  then show "map lfn_of_bytes (map lfn_bytes (lfn_chain name ck)) = lfn_chain name ck"
    by (auto simp: lfn_chain_def n_def [symmetric] lfn_bytes_fields)
  show "lfn_chain name ck \<noteq> []" using n(1) by (simp add: lfn_chain_def n_def [symmetric])
  have "first_byte (lfn_bytes l) \<noteq> 0 \<and> first_byte (lfn_bytes l) \<noteq> 0xE5 \<and> entry_attributes (lfn_bytes l) = FAT_LFN"
    if i: "l = lfn_entry name ck i" "0 < i" "i \<le> n" for l i
  proof -
    have "sequence l = of_nat i OR 0x40 \<or> sequence l = of_nat i"
      using lfn_entry_facts(4) [OF assms(3) at [OF i(3)], where ck = ck] i(1) by auto
    moreover have "i \<le> 31" using i(3) n(2) by simp
    note sequence_facts [OF i(2) this]
    ultimately have "sequence l \<noteq> 0" "sequence l \<noteq> 0xE5" using i(2) by auto
    then show ?thesis
      using lfn_bytes_fields [OF facts [OF i(3)]] lfn_entry_facts(2) [OF assms(3) at [OF i(3)], of ck] i(1) by (simp add: FAT_LFN_def)
  qed
  then show "\<forall>e \<in> set (map lfn_bytes (lfn_chain name ck)). first_byte e \<noteq> 0 \<and> first_byte e \<noteq> 0xE5 \<and> entry_attributes e = FAT_LFN"
    by (fastforce simp: lfn_chain_def n_def [symmetric])
qed

lemma read_dir_long:
  assumes "\<not> is_valid_8_3 name" "linkable name a"
  shows "\<exists>buf' x'. read_dir_loop cluster (entry_slots name target a @ es) False buf x =
    Option.bind (read_dir_loop cluster es False buf' x') (\<lambda>nodes. Some (linked_node cluster (name, target, a) # nodes))"
proof -
  define sfn where "sfn = generate_sfn name"
  define ck where "ck = lfn_checksum sfn"
  define e where "e = make_entry sfn a 0 target"
  note f = make_entry_fields [OF length_generate_sfn [of name, folded sfn_def], of a 0 target, folded e_def]
  have s: "linked_sfn name = sfn" using assms(1) by (simp add: linked_sfn_def sfn_def)
  have nm: "name \<noteq> []" "length name \<le> 403" "0 \<notin> set name" "length name < 128" "hd sfn \<noteq> 0" "hd sfn \<noteq> 0xE5" "a \<noteq> FAT_LFN"
    using assms(2) by (simp_all add: linkable_def s)
  define ls where "ls = map lfn_bytes (lfn_chain name ck)"
  have slots: "entry_slots name target a = ls @ [e]"
    using assms(1) by (simp add: entry_slots_def Let_def sfn_def ck_def e_def ls_def)
  have parse: "parse_lfn (map lfn_of_bytes (ls @ e # es)) (replicate 512 0) x =
      Some (map lfn_of_bytes (e # es), name @ replicate (512 - length name) 0, ck)"
    using long_name_parse [OF nm(1-3), of "lfn_of_bytes e" ck "map lfn_of_bytes es" x] nm(7) f(3) lfn_chain_bytes(1) [OF nm(1-3), of ck]
    by (simp add: ls_def lfn_of_bytes_def)
  obtain l ls' where "ls = l # ls'"
    using lfn_chain_bytes(2) [OF nm(1-3), of ck] unfolding ls_def by (cases "lfn_chain name ck") auto
  then have l: "ls = l # ls'" "first_byte l \<noteq> 0" "first_byte l \<noteq> 0xE5" "entry_attributes l = FAT_LFN"
    using lfn_chain_bytes(3) [OF nm(1-3), of ck, folded ls_def] by auto
  have "read_dir_loop cluster (ls @ e # es) False buf x =
      read_dir_loop cluster (e # es) True (name @ replicate (512 - length name) 0) ck"
    using l parse by (subst read_dir_loop.simps) (simp add: l(1))
  moreover have "takeWhile (\<lambda>c. c \<noteq> 0) (name @ replicate (512 - length name) 0) = name"
    using nm(3) by (subst takeWhile_append2) (auto simp: takeWhile_replicate)
  ultimately have "read_dir_loop cluster (ls @ e # es) False buf x =
      Option.bind (read_dir_loop cluster es False (name @ replicate (512 - length name) 0) ck)
        (\<lambda>nodes. Some (linked_node cluster (name, target, a) # nodes))"
    using nm f s by (simp add: read_dir_loop.simps [of cluster "e # es"] ck_def make_node_def linked_node_def)
  then show ?thesis unfolding slots by auto
qed

text \<open>C31: A directory whose slots are those that linking writes for a list of names, short and long ones in any order, is
  listed with exactly these names in their order, each with its cluster and kind.\<close>

theorem read_dir_lists_linked:
  assumes "\<forall>(name, target, a) \<in> set links. linkable name a" "first_byte end_slot = 0"
  shows "read_dir_loop cluster (concat (map (\<lambda>(name, target, a). entry_slots name target a) links) @ end_slot # rest) False buf x =
    Some (map (linked_node cluster) links)"
  using assms(1)
proof (induction links arbitrary: buf x)
  case Nil
  then show ?case using assms(2) by (subst read_dir_loop.simps) simp
next
  case (Cons link links)
  obtain name target a where link: "link = (name, target, a)" by (cases link)
  then have l: "linkable name a" using Cons.prems by simp
  show ?case
    using Cons.IH Cons.prems read_dir_short [OF _ l] read_dir_long [OF _ l] unfolding link
    by (cases "is_valid_8_3 name") (simp, metis (no_types, lifting) append.assoc bind.bind_lunit case_prod_conv concat.simps(2) list.set_intros(2) list.simps(9))
qed

text \<open>Three names, of which the first two are long.\<close>

definition example_links :: "(u8 list \<times> u32 \<times> u8) list" where
  "example_links = [([108, 111, 110, 103, 110, 97, 109, 101, 49, 46, 116, 120, 116], 5, 0),
     ([108, 111, 110, 103, 110, 97, 109, 101, 50, 46, 116, 120, 116], 6, 0), ([98, 105, 110], 7, FAT_DIR)]"

lemma example_linkable: "\<forall>(name, target, a) \<in> set example_links. linkable name a"
proof -
  have "list_all (\<lambda>(name, target, a). linkable name a) example_links" by code_simp
  then show ?thesis by (simp add: list_all_iff)
qed

theorem read_dir_lists_linked_witness:
  "read_dir_loop 2 (concat (map (\<lambda>(name, target, a). entry_slots name target a) example_links) @ [replicate 32 0]) False [] 0 =
    Some (map (linked_node 2) example_links)"
  using read_dir_lists_linked [OF example_linkable, of "replicate 32 0" 2 "[]" "[]" 0] by (simp add: first_byte_def numeral_eq_Suc)

subsection \<open>Searches by the short name\<close>

definition linked_entry :: "u8 list \<times> u32 \<times> u8 \<Rightarrow> u8 list" where
  "linked_entry = (\<lambda>(name, target, a). make_entry (linked_sfn name) a (if is_valid_8_3 name then snd (format_8_3 name) else 0) target)"

lemma scan_name_skip:
  "\<forall>e \<in> set ls. first_byte e \<noteq> 0 \<and> first_byte e \<noteq> 0xE5 \<and> entry_attributes e = FAT_LFN \<Longrightarrow>
    scan_name (ls @ es) i name = scan_name es (i + length ls) name"
  by (induction ls arbitrary: i) auto

lemma entry_slots_parts:
  assumes "linkable name a"
  shows "\<exists>ls. entry_slots name target a = ls @ [linked_entry (name, target, a)] \<and>
    (\<forall>e \<in> set ls. first_byte e \<noteq> 0 \<and> first_byte e \<noteq> 0xE5 \<and> entry_attributes e = FAT_LFN)"
proof (cases "is_valid_8_3 name")
  case True
  then show ?thesis by (simp add: entry_slots_def linked_entry_def linked_sfn_def case_prod_beta)
next
  case False
  have "name \<noteq> []" "length name \<le> 403" "0 \<notin> set name" using assms by (simp_all add: linkable_def)
  from lfn_chain_bytes(3) [OF this] show ?thesis
    using False by (simp add: entry_slots_def linked_entry_def linked_sfn_def Let_def)
qed

lemma length_linked_sfn: "length (linked_sfn name) = 11"
  by (simp add: linked_sfn_def length_format_8_3 length_generate_sfn)

text \<open>A search by short name in a directory made by linking finds the entry of the first linked name that has
  this short name. Since the short name of a long name takes no account of the names there are, this can be another file
  than the one looked for: removing or updating the second file changes the entry of the first.\<close>

theorem scan_name_first:
  assumes "\<forall>(name, target, a) \<in> set links. linkable name a" "first_byte end_slot = 0"
  shows "map_option (map_option snd) (scan_name (concat (map (\<lambda>(name, target, a). entry_slots name target a) links) @ end_slot # rest) i sfn) =
    Some (map_option linked_entry (find (\<lambda>(name, target, a). linked_sfn name = sfn) links))"
  using assms(1)
proof (induction links arbitrary: i)
  case Nil
  then show ?case using assms(2) by simp
next
  case (Cons link links)
  obtain name target a where link: "link = (name, target, a)" by (cases link)
  then have l: "linkable name a" using Cons.prems by simp
  obtain ls where ls: "entry_slots name target a = ls @ [linked_entry (name, target, a)]"
    "\<forall>e \<in> set ls. first_byte e \<noteq> 0 \<and> first_byte e \<noteq> 0xE5 \<and> entry_attributes e = FAT_LFN"
    using entry_slots_parts [OF l] by blast
  have f: "entry_name (linked_entry link) = linked_sfn name" "first_byte (linked_entry link) = hd (linked_sfn name)"
    "entry_attributes (linked_entry link) = a"
    by (simp_all add: link linked_entry_def make_entry_fields [OF length_linked_sfn])
  show ?case
    using Cons.IH Cons.prems l f unfolding link
    by (simp add: ls(1) scan_name_skip [OF ls(2)] linkable_def)
qed

theorem scan_name_first_witness:
  "map_option (map_option snd) (scan_name (concat (map (\<lambda>(name, target, a). entry_slots name target a) example_links) @ [replicate 32 0]) 0
     (linked_sfn [108, 111, 110, 103, 110, 97, 109, 101, 50, 46, 116, 120, 116])) =
    Some (Some (linked_entry ([108, 111, 110, 103, 110, 97, 109, 101, 49, 46, 116, 120, 116], 5, 0)))"
proof -
  have "find (\<lambda>(name, target, a). linked_sfn name = linked_sfn [108, 111, 110, 103, 110, 97, 109, 101, 50, 46, 116, 120, 116]) example_links =
      Some ([108, 111, 110, 103, 110, 97, 109, 101, 49, 46, 116, 120, 116], 5, 0)" by code_simp
  then show ?thesis
    using scan_name_first [OF example_linkable, of "replicate 32 0" "[]" 0 "linked_sfn [108, 111, 110, 103, 110, 97, 109, 101, 50, 46, 116, 120, 116]"]
    by (simp add: first_byte_def numeral_eq_Suc)
qed

subsection \<open>A slot that hangs the listing\<close>

text \<open>A slot marked as part of a long name whose sequence number is 0 hangs the listing of its directory: the parser
  of long names returns without moving on.\<close>

theorem zero_sequence_hangs:
  assumes "first_byte e \<noteq> 0" "first_byte e \<noteq> 0xE5" "entry_attributes e = FAT_LFN" "sequence (lfn_of_bytes e) AND 0x1F = 0"
  shows "read_dir_loop cluster (e # es) lfn_found lfn_buffer expected = None"
proof -
  have parse: "parse_lfn (map lfn_of_bytes (e # es)) buf x = Some (map lfn_of_bytes (e # es), buf, x)" for buf x
    using assms(3,4) by (simp add: lfn_of_bytes_def FAT_LFN_def)
  have "e # es \<noteq> e # es" if run: "read_dir_loop cluster (e # es) lfn_found lfn_buffer expected = Some r" for r
  proof (rule read_dir_loop.raw_induct [where P = "\<lambda>c es' f b x r. es' \<noteq> e # es", OF _ run])
    fix loop c es' f b x r
    assume ih: "\<And>c es' f b x r. loop c es' f b x = Some r \<Longrightarrow> es' \<noteq> e # es"
      and body: "(if es' = [] then None
      else let entry = hd es' in
        if first_byte entry = 0 then Some []
        else if first_byte entry = 0xE5 then loop c (tl es') False b x
        else if entry_attributes entry = FAT_LFN then
          Option.bind (parse_lfn (map lfn_of_bytes es') (replicate 512 0) x) (\<lambda>r.
            loop c (drop (length es' - length (fst r)) es') True (fst (snd r)) (snd (snd r)))
        else let long = (f \<and> lfn_checksum (entry_name entry) = x);
                 name = (if long then takeWhile (\<lambda>c. c \<noteq> 0) b
                         else parse_sfn (entry_name entry) (entry_winnt_flags entry))
             in Option.bind (make_node c entry name) (\<lambda>node.
                  Option.bind (loop c (tl es') False b x) (\<lambda>nodes. Some (node # nodes)))) = Some r"
    show "es' \<noteq> e # es"
    proof
      assume "es' = e # es"
      with body assms parse have "loop c (e # es) True (replicate 512 0) x = Some r" by simp
      with ih show False by blast
    qed
  qed
  then show ?thesis by (cases "read_dir_loop cluster (e # es) lfn_found lfn_buffer expected") auto
qed

theorem zero_sequence_hangs_witness:
  "read_dir_loop 2 [lfn_bytes (empty_lfn \<lparr> sequence := 0x40, lfn_attributes := 0x0F \<rparr>), replicate 32 0] False [] 0 = None"
proof -
  have s: "lfn_shape (empty_lfn \<lparr> sequence := 0x40, lfn_attributes := 0x0F \<rparr>)" by (simp add: lfn_shape_def empty_lfn_def)
  show ?thesis
    by (rule zero_sequence_hangs) (simp_all add: lfn_bytes_fields [OF s] FAT_LFN_def)
qed

end
