(* ===== verification/VFS.thy ===== *)
theory VFS
  imports CStr Mem_FS Files
begin

text \<open>
  The tree of vnodes (filesystem/vfs/vfs.cpp): the lists of children as chains of pointers, opening and closing, the directory
  cache, looking up a name, the operations that change the tree with their versions for the file system in
  memory (filesystem/memfs), mounting, resolving a path and printing the path of a vnode. Names and paths are the
  bytes before the terminating zero. A deleted vnode is absent from the store and an access to it is \<open>None\<close>. The
  operations of other file systems are the argument \<open>drv\<close>, with a state of their own. The lists that \<^verbatim>\<open>read_dir\<close> returns
  are copies that the caller frees: they are values here, and \<open>vn_real\<close> is the vnode that was copied. Spinlocks are left
  out. The callbacks \<^verbatim>\<open>open\<close> and \<^verbatim>\<open>close\<close> belong to pipes, which are not in the tree, and to this file system, where they
  do nothing.
\<close>

subsection \<open>State\<close>

datatype vnode_type = VDIR | VREG | VCHR | VLNK | VPIPE | VSOC | VBLK

text \<open>Which operations on the tree a vnode has: none, those of the file system in memory, the link /proc/self, the files of a task in
  /proc, or those of a driver.\<close>

datatype node_ops = No_Ops | Memfs_Ops | Self_Link_Ops | Task_File_Ops | Driver_Ops

record vnode =
  vn_name :: "u8 list"
  vn_type :: vnode_type
  vn_refs :: u32
  virtual_file :: bool
  vn_permissions :: u16
  vn_uid :: u32
  vn_gid :: u32
  last_accessed :: u64
  last_modified :: u64
  creation_time :: u64
  vn_size :: u64
  partition_total_size :: u64
  vn_io_block_size :: u64
  is_mounted :: bool
  mount_point :: addr
  is_mount_point :: bool
  mounted_on :: addr
  directory_cached :: bool
  should_cache_directory :: bool
  vn_ops :: node_ops
  vn_inode :: u32
  vn_fs_identifier :: u64
  file_identifier :: u64
  vn_children :: addr
  vn_next :: addr
  vn_parent :: addr
  vn_real :: addr

text \<open>The tree, the files of the file system in memory, the addresses that the heap will give out, the directory of the current
  task in /proc and the state of the drivers.\<close>

record 'd vfs_state =
  nodes :: "addr \<rightharpoonup> vnode"
  mem_files :: "addr \<rightharpoonup> memfs_file_t"
  heap_supply :: "addr list"
  root_node :: addr
  proc_vfs_dir :: addr
  drv_state :: 'd

record 'd vfs_driver =
  drv_read_link :: "(vnode \<Rightarrow> 'd \<Rightarrow> u8 list option \<times> 'd) option"
  drv_read_dir :: "(vnode \<Rightarrow> 'd \<Rightarrow> vnode list \<times> 'd) option"
  drv_mkdir :: "(u8 list \<Rightarrow> vnode \<Rightarrow> 'd \<Rightarrow> u32 \<times> 'd) option"
  drv_creat :: "(u8 list \<Rightarrow> vnode \<Rightarrow> 'd \<Rightarrow> u32 \<times> 'd) option"
  drv_unlink :: "(vnode \<Rightarrow> 'd \<Rightarrow> u32 \<times> 'd) option"
  drv_rmdir :: "(vnode \<Rightarrow> 'd \<Rightarrow> u32 \<times> 'd) option"
  drv_cleanup :: "(vnode \<Rightarrow> 'd \<Rightarrow> 'd) option"
  drv_mount :: "(vnode \<Rightarrow> 'd \<Rightarrow> 'd) option"

definition ENOENT_i :: u32 where "ENOENT_i = 2"
definition EEXIST_i :: u32 where "EEXIST_i = 17"
definition ENOTDIR_i :: u32 where "ENOTDIR_i = 20"
definition EOPNOTSUPP_i :: u32 where "EOPNOTSUPP_i = 95"

definition set_vnode :: "addr \<Rightarrow> vnode \<Rightarrow> 'd vfs_state \<Rightarrow> 'd vfs_state" where
  "set_vnode a v st = st \<lparr> nodes := (nodes st)(a \<mapsto> v) \<rparr>"

definition upd_vnode :: "addr \<Rightarrow> (vnode \<Rightarrow> vnode) \<Rightarrow> 'd vfs_state \<Rightarrow> 'd vfs_state option" where
  "upd_vnode a f st = map_option (\<lambda>v. set_vnode a (f v) st) (nodes st a)"

definition delete_vnode :: "addr \<Rightarrow> 'd vfs_state \<Rightarrow> 'd vfs_state" where
  "delete_vnode a st = st \<lparr> nodes := (nodes st)(a := None) \<rparr>"

text \<open>The constructor of a vnode.\<close>

definition fresh_vnode :: "vnode_type \<Rightarrow> vnode" where
  "fresh_vnode t = \<lparr> vn_name = [], vn_type = t, vn_refs = 0, virtual_file = False, vn_permissions = 0x1ED, vn_uid = 0, vn_gid = 0,
     last_accessed = 0, last_modified = 0, creation_time = 0, vn_size = 0, partition_total_size = 0, vn_io_block_size = 0,
     is_mounted = False, mount_point = 0, is_mount_point = False, mounted_on = 0, directory_cached = False,
     should_cache_directory = False, vn_ops = No_Ops, vn_inode = 0, vn_fs_identifier = 0, file_identifier = 0,
     vn_children = 0, vn_next = 0, vn_parent = 0, vn_real = 0 \<rparr>"

text \<open>A block of the heap for a vnode or a file; the heap running out is not modelled here.\<close>

definition take_address :: "'d vfs_state \<Rightarrow> (addr \<times> 'd vfs_state) option" where
  "take_address st = (case heap_supply st of [] \<Rightarrow> None | a # as \<Rightarrow> Some (a, st \<lparr> heap_supply := as \<rparr>))"

subsection \<open>Lists of children\<close>

partial_function (option) remove_scan :: "addr \<Rightarrow> addr \<Rightarrow> addr \<Rightarrow> 'd vfs_state \<Rightarrow> 'd vfs_state option" where
  "remove_scan kid prev chd st =
     (if chd = 0 then Some st
      else Option.bind (nodes st chd) (\<lambda>c.
        if chd = kid then upd_vnode prev (\<lambda>p. p \<lparr> vn_next := vn_next c \<rparr>) st
        else remove_scan kid chd (vn_next c) st))"

definition vnode_remove_from_child_list :: "addr \<Rightarrow> addr \<Rightarrow> 'd vfs_state \<Rightarrow> 'd vfs_state option" where
  "vnode_remove_from_child_list parent kid st =
     Option.bind (nodes st parent) (\<lambda>p.
       if vn_children p = kid
       then Option.bind (nodes st kid) (\<lambda>c. upd_vnode parent (\<lambda>p. p \<lparr> vn_children := vn_next c \<rparr>) st)
       else remove_scan kid 0 (vn_children p) st)"

partial_function (option) append_scan :: "addr \<Rightarrow> addr \<Rightarrow> 'd vfs_state \<Rightarrow> 'd vfs_state option" where
  "append_scan kid cur st =
     Option.bind (nodes st cur) (\<lambda>l.
       if vn_next l \<noteq> 0 then if cur = kid then Some st else append_scan kid (vn_next l) st
       else if cur \<noteq> kid then upd_vnode cur (\<lambda>l. l \<lparr> vn_next := kid \<rparr>) st else Some st)"

definition vnode_add_to_child_list :: "addr \<Rightarrow> addr \<Rightarrow> 'd vfs_state \<Rightarrow> 'd vfs_state option" where
  "vnode_add_to_child_list parent kid st =
     Option.bind (upd_vnode kid (\<lambda>c. c \<lparr> vn_next := 0 \<rparr>) st) (\<lambda>st.
       Option.bind (nodes st parent) (\<lambda>p.
         if vn_children p = 0 then upd_vnode parent (\<lambda>p. p \<lparr> vn_children := kid \<rparr>) st
         else append_scan kid (vn_children p) st))"

subsection \<open>Opening and closing\<close>

partial_function (option) open_vnode :: "addr \<Rightarrow> 'd vfs_state \<Rightarrow> 'd vfs_state option" where
  "open_vnode a st =
     Option.bind (nodes st a) (\<lambda>v.
       let st = set_vnode a (v \<lparr> vn_refs := vn_refs v + 1 \<rparr>) st
       in if vn_refs v = 0 \<and> vn_parent v \<noteq> 0 then open_vnode (vn_parent v) st else Some st)"

text \<open>The buffer of a file in memory goes back to the heap with its record.\<close>

definition cleanup_vnode :: "'d vfs_driver \<Rightarrow> vnode \<Rightarrow> 'd vfs_state \<Rightarrow> 'd vfs_state option" where
  "cleanup_vnode drv v st =
     (case vn_ops v of
        Memfs_Ops \<Rightarrow> map_option (\<lambda>_. st \<lparr> mem_files := (mem_files st)(file_identifier v := None) \<rparr>) (mem_files st (file_identifier v))
      | Driver_Ops \<Rightarrow> Some (case drv_cleanup drv of None \<Rightarrow> st | Some f \<Rightarrow> st \<lparr> drv_state := f v (drv_state st) \<rparr>)
      | _ \<Rightarrow> Some st)"

partial_function (option) close_vnode :: "'d vfs_driver \<Rightarrow> addr \<Rightarrow> 'd vfs_state \<Rightarrow> 'd vfs_state option" where
  "close_vnode drv a st =
     Option.bind (nodes st a) (\<lambda>v.
       let new_ref_count = vn_refs v - 1; st = set_vnode a (v \<lparr> vn_refs := new_ref_count \<rparr>) st
       in if new_ref_count \<noteq> 0 then Some st
          else if vn_parent v \<noteq> 0 then close_vnode drv (vn_parent v) st
          else map_option (delete_vnode a) (cleanup_vnode drv v st))"

subsection \<open>Listing a directory\<close>

text \<open>Entries of the driver that are gone leave the list of children.\<close>

partial_function (option) drop_stale :: "'d vfs_driver \<Rightarrow> addr \<Rightarrow> vnode list \<Rightarrow> addr \<Rightarrow> 'd vfs_state \<Rightarrow> 'd vfs_state option" where
  "drop_stale drv self entries kid st =
     (if kid = 0 then Some st
      else Option.bind (nodes st kid) (\<lambda>c.
        if virtual_file c \<or> (\<exists>e \<in> set entries. vn_name e = vn_name c) then drop_stale drv self entries (vn_next c) st
        else Option.bind (vnode_remove_from_child_list self kid st) (\<lambda>st.
          Option.bind (if vn_refs c = 0
              then Option.bind (upd_vnode kid (\<lambda>c. c \<lparr> vn_parent := 0 \<rparr>) st) (close_vnode drv kid) else Some st) (\<lambda>st.
            drop_stale drv self entries (vn_next c) st))))"

partial_function (option) find_cached :: "u8 list \<Rightarrow> addr \<Rightarrow> 'd vfs_state \<Rightarrow> addr option" where
  "find_cached name a st =
     (if a = 0 then Some 0
      else Option.bind (nodes st a) (\<lambda>v. if vn_name v = name then Some a else find_cached name (vn_next v) st))"

definition refresh_vnode :: "vnode \<Rightarrow> vnode \<Rightarrow> vnode" where
  "refresh_vnode e v = v \<lparr> vn_permissions := vn_permissions e, vn_uid := vn_uid e, vn_gid := vn_gid e,
     last_accessed := last_accessed e, last_modified := last_modified e, creation_time := creation_time e, vn_size := vn_size e,
     partition_total_size := partition_total_size e, vn_io_block_size := vn_io_block_size e, vn_inode := vn_inode e,
     vn_fs_identifier := vn_fs_identifier e, file_identifier := file_identifier e \<rparr>"

primrec merge_entries :: "addr \<Rightarrow> vnode list \<Rightarrow> 'd vfs_state \<Rightarrow> 'd vfs_state option" where
  "merge_entries self [] st = Some st"
| "merge_entries self (entry # es) st =
     Option.bind (nodes st self) (\<lambda>s.
       Option.bind (find_cached (vn_name entry) (vn_children s) st) (\<lambda>cached_entry.
         Option.bind (if cached_entry \<noteq> 0 then upd_vnode cached_entry (refresh_vnode entry) st
             else Option.bind (take_address st) (\<lambda>(clone, st).
               vnode_add_to_child_list self clone (set_vnode clone (entry \<lparr> vn_parent := self, vn_refs := 0 \<rparr>) st)))
           (merge_entries self es)))"

definition call_read_dir :: "'d vfs_driver \<Rightarrow> node_ops \<Rightarrow> vnode \<Rightarrow> 'd vfs_state \<Rightarrow> vnode list \<times> 'd vfs_state" where
  "call_read_dir drv ops v st =
     (case (ops, drv_read_dir drv) of
        (Driver_Ops, Some f) \<Rightarrow> (let (es, d) = f v (drv_state st) in (es, st \<lparr> drv_state := d \<rparr>))
      | _ \<Rightarrow> ([], st))"

definition fill_cache :: "'d vfs_driver \<Rightarrow> addr \<Rightarrow> addr \<Rightarrow> 'd vfs_state \<Rightarrow> 'd vfs_state option" where
  "fill_cache drv this self st =
     Option.bind (nodes st this) (\<lambda>t. Option.bind (nodes st self) (\<lambda>s.
       if directory_cached s then Some st
       else let (entries, st) = call_read_dir drv (vn_ops s) t st
         in Option.bind (drop_stale drv self entries (vn_children s) st) (\<lambda>st.
              Option.bind (merge_entries self entries st) (upd_vnode self (\<lambda>s. s \<lparr> directory_cached := True \<rparr>)))))"

partial_function (option) copy_children :: "addr \<Rightarrow> 'd vfs_state \<Rightarrow> vnode list option" where
  "copy_children a st =
     (if a = 0 then Some []
      else Option.bind (nodes st a) (\<lambda>v.
        Option.bind (copy_children (vn_next v) st) (\<lambda>copies. Some (v \<lparr> vn_real := a, vn_refs := 0, vn_next := 0 \<rparr> # copies))))"

partial_function (option) read_dir :: "'d vfs_driver \<Rightarrow> addr \<Rightarrow> 'd vfs_state \<Rightarrow> (u32 \<times> vnode list \<times> 'd vfs_state) option" where
  "read_dir drv this st =
     Option.bind (nodes st this) (\<lambda>t.
       let self = if vn_real t \<noteq> 0 then vn_real t else this
       in Option.bind (nodes st self) (\<lambda>s.
         if vn_type s \<noteq> VDIR then Some (- ENOTDIR_i, [], st)
         else Option.bind (fill_cache drv this self st) (\<lambda>st.
           Option.bind (nodes st self) (\<lambda>s.
             Option.bind (if is_mounted s then read_dir drv (mount_point s) st else Some (0, [], st)) (\<lambda>(cnt, ret, st).
               Option.bind (nodes st self) (\<lambda>s.
                 map_option (\<lambda>copies. (cnt + of_nat (length copies), ret @ copies, st)) (copy_children (vn_children s) st)))))))"

subsection \<open>Looking up a name\<close>

text \<open>Every entry of the name is opened and the last one is the result; the copies of \<^verbatim>\<open>read_dir\<close> all have a vnode behind them.\<close>

primrec open_matching :: "u8 list \<Rightarrow> vnode list \<Rightarrow> addr \<Rightarrow> 'd vfs_state \<Rightarrow> (addr \<times> 'd vfs_state) option" where
  "open_matching name [] ret st = Some (ret, st)"
| "open_matching name (v # vs) ret st =
     (if vn_name v = name then Option.bind (open_vnode (vn_real v) st) (open_matching name vs (vn_real v))
      else open_matching name vs ret st)"

partial_function (option) find_file :: "'d vfs_driver \<Rightarrow> addr \<Rightarrow> u8 list \<Rightarrow> 'd vfs_state \<Rightarrow> (u32 \<times> addr \<times> 'd vfs_state) option" where
  "find_file drv this filename st =
     Option.bind (nodes st this) (\<lambda>t.
       if vn_type t \<noteq> VDIR then Some (- ENOTDIR_i, 0, st)
       else if vn_real t \<noteq> 0 then find_file drv (vn_real t) filename st
       else Option.bind (read_dir drv this st) (\<lambda>(count, copies, st).
         if count = 0 then Some (- ENOENT_i, 0, st)
         else map_option (\<lambda>(ret, st). (if ret = 0 then - ENOENT_i else 0, ret, st)) (open_matching filename copies 0 st)))"

subsection \<open>Changing the tree\<close>

text \<open>A node of the parent that has the name stays open; the new node is closed, and stays where it is when nobody had opened it.\<close>

definition add_node :: "'d vfs_driver \<Rightarrow> addr \<Rightarrow> addr \<Rightarrow> 'd vfs_state \<Rightarrow> (u32 \<times> 'd vfs_state) option" where
  "add_node drv parent node st =
     Option.bind (nodes st node) (\<lambda>n.
       Option.bind (find_file drv parent (vn_name n) st) (\<lambda>(r, _, st).
         if r \<noteq> - ENOENT_i then map_option (\<lambda>st. (- EEXIST_i, st)) (close_vnode drv node st)
         else Option.bind (upd_vnode node (\<lambda>n. n \<lparr> vn_parent := parent, virtual_file := True \<rparr>) st) (\<lambda>st.
           Option.bind (vnode_add_to_child_list parent node st) (\<lambda>st.
             map_option (\<lambda>st. (0, st)) (open_vnode node st)))))"

text \<open>The name goes to an array of 128 bytes; a longer one writes over the fields behind it.\<close>

definition memfs_new :: "'d vfs_driver \<Rightarrow> vnode_type \<Rightarrow> u8 list \<Rightarrow> addr \<Rightarrow> 'd vfs_state \<Rightarrow> (u32 \<times> 'd vfs_state) option" where
  "memfs_new drv type name this st =
     Option.bind (nodes st this) (\<lambda>t.
       if vn_type t \<noteq> VDIR then Some (- ENOTDIR_i, st)
       else Option.bind (find_file drv this name st) (\<lambda>(r, found, st).
         if r \<noteq> - ENOENT_i then map_option (\<lambda>st. (- EEXIST_i, st)) (close_vnode drv found st)
         else Option.bind (take_address st) (\<lambda>(node, st). Option.bind (take_address st) (\<lambda>(file_info, st).
           if length name \<ge> 128 then None
           else let n = (fresh_vnode type) \<lparr> file_identifier := file_info, vn_name := name, vn_ops := Memfs_Ops \<rparr>;
                    st = (set_vnode node n st) \<lparr> mem_files := (mem_files st)(file_info \<mapsto> new_memfs_file) \<rparr>
                in map_option (\<lambda>(_, st). (0, st)) (add_node drv this node st)))))"

definition memfs_mkdir :: "'d vfs_driver \<Rightarrow> u8 list \<Rightarrow> addr \<Rightarrow> 'd vfs_state \<Rightarrow> (u32 \<times> 'd vfs_state) option" where
  "memfs_mkdir drv = memfs_new drv VDIR"

definition memfs_creat :: "'d vfs_driver \<Rightarrow> u8 list \<Rightarrow> addr \<Rightarrow> 'd vfs_state \<Rightarrow> (u32 \<times> 'd vfs_state) option" where
  "memfs_creat drv = memfs_new drv VREG"

definition create_memfs :: "'d vfs_state \<Rightarrow> (addr \<times> 'd vfs_state) option" where
  "create_memfs st =
     Option.bind (take_address st) (\<lambda>(node, st). map_option (\<lambda>(file_info, st).
       (node, (set_vnode node ((fresh_vnode VDIR) \<lparr> file_identifier := file_info, vn_ops := Memfs_Ops \<rparr>) st)
          \<lparr> mem_files := (mem_files st)(file_info \<mapsto> new_memfs_file) \<rparr>)) (take_address st))"

text \<open>An operation of the vnode; \<open>None\<close> inside when the file system does not have it.\<close>

definition call_mkdir :: "'d vfs_driver \<Rightarrow> u8 list \<Rightarrow> addr \<Rightarrow> 'd vfs_state \<Rightarrow> (u32 \<times> 'd vfs_state) option option" where
  "call_mkdir drv name a st =
     (case nodes st a of None \<Rightarrow> Some None
      | Some v \<Rightarrow> (case vn_ops v of
            Memfs_Ops \<Rightarrow> Some (memfs_mkdir drv name a st)
          | Driver_Ops \<Rightarrow> map_option (\<lambda>f. let (r, d) = f name v (drv_state st) in Some (r, st \<lparr> drv_state := d \<rparr>)) (drv_mkdir drv)
          | _ \<Rightarrow> None))"

definition call_creat :: "'d vfs_driver \<Rightarrow> u8 list \<Rightarrow> addr \<Rightarrow> 'd vfs_state \<Rightarrow> (u32 \<times> 'd vfs_state) option option" where
  "call_creat drv name a st =
     (case nodes st a of None \<Rightarrow> Some None
      | Some v \<Rightarrow> (case vn_ops v of
            Memfs_Ops \<Rightarrow> Some (memfs_creat drv name a st)
          | Driver_Ops \<Rightarrow> map_option (\<lambda>f. let (r, d) = f name v (drv_state st) in Some (r, st \<lparr> drv_state := d \<rparr>)) (drv_creat drv)
          | _ \<Rightarrow> None))"

definition forget_cache :: "addr \<Rightarrow> 'd vfs_state \<Rightarrow> 'd vfs_state option" where
  "forget_cache a = upd_vnode a (\<lambda>v. v \<lparr> should_cache_directory := directory_cached v \<or> should_cache_directory v, directory_cached := False \<rparr>)"

partial_function (option) vnode_mkdir :: "'d vfs_driver \<Rightarrow> addr \<Rightarrow> u8 list \<Rightarrow> 'd vfs_state \<Rightarrow> (u32 \<times> 'd vfs_state) option" where
  "vnode_mkdir drv this name st =
     Option.bind (nodes st this) (\<lambda>t.
       if vn_type t \<noteq> VDIR then Some (- ENOTDIR_i, st)
       else if vn_real t \<noteq> 0 then vnode_mkdir drv (vn_real t) name st
       else Option.bind (find_file drv this name st) (\<lambda>(_, node, st).
         if node \<noteq> 0 then map_option (\<lambda>st. (- EEXIST_i, st)) (close_vnode drv node st)
         else Option.bind (nodes st this) (\<lambda>t.
           Option.bind (case (if is_mounted t then call_mkdir drv name (mount_point t) st else None) of
               Some r \<Rightarrow> r
             | None \<Rightarrow> (case call_mkdir drv name this st of Some r \<Rightarrow> r | None \<Rightarrow> Some (- EOPNOTSUPP_i, st))) (\<lambda>(ret, st).
             map_option (\<lambda>st. (ret, st)) (forget_cache this st)))))"

partial_function (option) vnode_creat :: "'d vfs_driver \<Rightarrow> addr \<Rightarrow> u8 list \<Rightarrow> 'd vfs_state \<Rightarrow> (u32 \<times> 'd vfs_state) option" where
  "vnode_creat drv this name st =
     Option.bind (nodes st this) (\<lambda>t.
       if vn_type t \<noteq> VDIR then Some (- ENOTDIR_i, st)
       else if vn_real t \<noteq> 0 then vnode_creat drv (vn_real t) name st
       else Option.bind (find_file drv this name st) (\<lambda>(ret, node, st).
         Option.bind (if node \<noteq> 0 then map_option (\<lambda>st. (- EEXIST_i, st)) (close_vnode drv node st)
             else (case call_creat drv name this st of Some r \<Rightarrow> r | None \<Rightarrow> Some (ret, st))) (\<lambda>(ret, st).
           map_option (\<lambda>st. (ret, st)) (forget_cache this st))))"

subsection \<open>Removing\<close>

definition memfs_unlink :: "addr \<Rightarrow> 'd vfs_state \<Rightarrow> (u32 \<times> 'd vfs_state) option" where
  "memfs_unlink this st =
     Option.bind (nodes st this) (\<lambda>t. Option.bind (mem_files st (file_identifier t)) (\<lambda>f.
       let st = st \<lparr> mem_files := (mem_files st)(file_identifier t \<mapsto> f \<lparr> to_be_removed := True \<rparr>) \<rparr>
       in Option.bind (vnode_remove_from_child_list (vn_parent t) this st) (\<lambda>st.
            Option.bind (upd_vnode this (\<lambda>t. t \<lparr> virtual_file := False \<rparr>) st) (\<lambda>st.
              Option.bind (nodes st this) (\<lambda>t.
                if vn_refs t = 0
                then Some (0, delete_vnode this (st \<lparr> mem_files := (mem_files st)(file_identifier t := None) \<rparr>))
                else Some (0, st))))))"

text \<open>After the operation: the vnode leaves its parent, and a directory that keeps it is listed anew.\<close>

definition after_unlink :: "addr \<Rightarrow> u32 \<times> 'd vfs_state \<Rightarrow> (u32 \<times> 'd vfs_state) option" where
  "after_unlink this = (\<lambda>(ret, st).
     Option.bind (nodes st this) (\<lambda>t.
       Option.bind (if ret = 0
           then Option.bind (if vn_parent t \<noteq> 0 then vnode_remove_from_child_list (vn_parent t) this st else Some st)
                  (upd_vnode this (\<lambda>t. t \<lparr> vn_parent := 0 \<rparr>))
           else Some st) (\<lambda>st.
         Option.bind (nodes st this) (\<lambda>t.
           if vn_parent t = 0 then Some (ret, st)
           else Option.bind (nodes st (vn_parent t)) (\<lambda>p.
             if \<not> directory_cached p then Some (ret, st)
             else Option.bind (upd_vnode this (\<lambda>t. t \<lparr> should_cache_directory := True \<rparr>) st) (\<lambda>st.
               map_option (\<lambda>st. (ret, st)) (upd_vnode (vn_parent t) (\<lambda>p. p \<lparr> directory_cached := False \<rparr>) st)))))))"

text \<open>Three functions that call each other: \<^verbatim>\<open>vnode_t::unlink\<close>, \<^verbatim>\<open>vnode_t::rmdir\<close> and the loop of \<^verbatim>\<open>memfs_rmdir\<close> over
  the children. Unlinking a file of a task deletes its vnode first.\<close>

datatype unlink_call = Unlink | Rmdir | Unlink_Children

partial_function (option) tree_unlink :: "'d vfs_driver \<Rightarrow> unlink_call \<Rightarrow> addr \<Rightarrow> 'd vfs_state \<Rightarrow> (u32 \<times> 'd vfs_state) option" where
  "tree_unlink drv call this st =
     (case call of
        Unlink_Children \<Rightarrow>
          if this = 0 then Some (0, st)
          else Option.bind (nodes st this) (\<lambda>kid.
            Option.bind (tree_unlink drv Unlink this st) (\<lambda>(_, st). tree_unlink drv Unlink_Children (vn_next kid) st))
      | Unlink \<Rightarrow>
          Option.bind (nodes st this) (\<lambda>t.
            if vn_real t \<noteq> 0 then tree_unlink drv Unlink (vn_real t) st
            else if vn_type t = VDIR then tree_unlink drv Rmdir this st
            else (case (vn_ops t, drv_unlink drv) of
                (Memfs_Ops, _) \<Rightarrow> Option.bind (memfs_unlink this st) (after_unlink this)
              | (Task_File_Ops, _) \<Rightarrow> after_unlink this (0, delete_vnode this st)
              | (Driver_Ops, Some f) \<Rightarrow> (let (r, d) = f t (drv_state st) in after_unlink this (r, st \<lparr> drv_state := d \<rparr>))
              | _ \<Rightarrow> Some (- EOPNOTSUPP_i, st)))
      | Rmdir \<Rightarrow>
          Option.bind (nodes st this) (\<lambda>t.
            if vn_type t \<noteq> VDIR then Some (- ENOTDIR_i, st)
            else if vn_real t \<noteq> 0 then tree_unlink drv Rmdir (vn_real t) st
            else (case (vn_ops t, drv_rmdir drv) of
                (Memfs_Ops, _) \<Rightarrow> Option.bind (tree_unlink drv Unlink_Children (vn_children t) st) (\<lambda>(_, st).
                   Option.bind (memfs_unlink this st) (after_unlink this))
              | (Driver_Ops, Some f) \<Rightarrow> (let (r, d) = f t (drv_state st) in after_unlink this (r, st \<lparr> drv_state := d \<rparr>))
              | _ \<Rightarrow> Some (- EOPNOTSUPP_i, st))))"

subsection \<open>Mounting\<close>

definition mount :: "'d vfs_driver \<Rightarrow> addr \<Rightarrow> addr \<Rightarrow> 'd vfs_state \<Rightarrow> (u32 \<times> 'd vfs_state) option" where
  "mount drv node mount_target st =
     Option.bind (nodes st mount_target) (\<lambda>t.
       if is_mounted t then Some (- EEXIST_i, st)
       else Option.bind (nodes st node) (\<lambda>n.
         let st = (case (vn_ops n, drv_mount drv) of (Driver_Ops, Some f) \<Rightarrow> st \<lparr> drv_state := f n (drv_state st) \<rparr> | _ \<Rightarrow> st)
         in Option.bind (open_vnode node st) (\<lambda>st.
              Option.bind (upd_vnode mount_target (\<lambda>t. t \<lparr> mount_point := node, is_mounted := True, virtual_file := True \<rparr>) st) (\<lambda>st.
                map_option (\<lambda>st. (0, st)) (upd_vnode node (\<lambda>n. n \<lparr> is_mount_point := True, mounted_on := mount_target \<rparr>) st)))))"

subsection \<open>Paths\<close>

text \<open>The buffer has 2048 bytes.\<close>

partial_function (option) recursive_path_builder :: "addr \<Rightarrow> u8 list \<Rightarrow> 'd vfs_state \<Rightarrow> u8 list option" where
  "recursive_path_builder a buffer st =
     (if a = 0 then Some buffer
      else Option.bind (nodes st a) (\<lambda>v.
        if mounted_on v \<noteq> 0 then recursive_path_builder (mounted_on v) buffer st
        else Option.bind (if vn_parent v \<noteq> 0 \<and> a \<noteq> root_node st then recursive_path_builder (vn_parent v) buffer st else Some buffer) (\<lambda>buffer.
          let buffer = (if buffer \<noteq> [] \<and> last buffer \<noteq> 47 then buffer @ [47] else buffer) @ vn_name v
          in if length buffer \<ge> 2048 then None else Some buffer)))"

definition get_full_path_name :: "addr \<Rightarrow> 'd vfs_state \<Rightarrow> u8 list option" where
  "get_full_path_name a st = recursive_path_builder a [] st"

definition procfs_read_link :: "'d vfs_state \<Rightarrow> u8 list option" where
  "procfs_read_link st = (if proc_vfs_dir st = 0 then Some [47] else get_full_path_name (proc_vfs_dir st) st)"

text \<open>The inner \<open>None\<close> is a null pointer.\<close>

partial_function (option) read_link :: "'d vfs_driver \<Rightarrow> addr \<Rightarrow> 'd vfs_state \<Rightarrow> (u8 list option \<times> 'd vfs_state) option" where
  "read_link drv this st =
     Option.bind (nodes st this) (\<lambda>t.
       if vn_type t \<noteq> VLNK then Some (None, st)
       else if vn_real t \<noteq> 0 then read_link drv (vn_real t) st
       else (case (vn_ops t, drv_read_link drv) of
           (Self_Link_Ops, _) \<Rightarrow> map_option (\<lambda>p. (Some p, st)) (procfs_read_link st)
         | (Driver_Ops, Some f) \<Rightarrow> (let (r, d) = f t (drv_state st) in Some (r, st \<lparr> drv_state := d \<rparr>))
         | _ \<Rightarrow> Some (None, st)))"

definition MAX_SYMLINK_DEPTH :: nat where "MAX_SYMLINK_DEPTH = 8"
definition PATH_SEPARATOR :: u8 where "PATH_SEPARATOR = 47"
definition dot :: "u8 list" where "dot = [46]"
definition dotdot :: "u8 list" where "dotdot = [46, 46]"

definition parent_dir :: "addr \<Rightarrow> 'd vfs_state \<Rightarrow> addr option" where
  "parent_dir current st =
     Option.bind (nodes st current) (\<lambda>c.
       if mounted_on c \<noteq> 0
       then map_option (\<lambda>m. if vn_parent m \<noteq> 0 then vn_parent m else mounted_on c) (nodes st (mounted_on c))
       else Some (if vn_parent c \<noteq> 0 then vn_parent c else current))"

definition cross_mount :: "'d vfs_driver \<Rightarrow> addr \<Rightarrow> 'd vfs_state \<Rightarrow> (addr \<times> 'd vfs_state) option" where
  "cross_mount drv a st =
     Option.bind (nodes st a) (\<lambda>n.
       if is_mounted n \<and> mount_point n \<noteq> 0
       then Option.bind (open_vnode (mount_point n) st) (\<lambda>st. map_option (\<lambda>st. (mount_point n, st)) (close_vnode drv a st))
       else Some (a, st))"

text \<open>\<^verbatim>\<open>_resolve_path_recursion\<close> on the tokens of the path; the result 0 is a null pointer. The depth is looked at before the
  first token. A link that is followed releases the directory before the recursion, when it is absolute, and again after it; a
  name that is not found releases nothing.\<close>

partial_function (option) resolve_path_recursion ::
    "'d vfs_driver \<Rightarrow> addr \<Rightarrow> u8 list list \<Rightarrow> nat \<Rightarrow> bool \<Rightarrow> bool \<Rightarrow> 'd vfs_state \<Rightarrow> (addr \<times> 'd vfs_state) option" where
  "resolve_path_recursion drv current names depth follow_links follow_trailing st =
     (if depth > MAX_SYMLINK_DEPTH then map_option (\<lambda>st. (0, st)) (close_vnode drv current st)
      else case names of
        [] \<Rightarrow> Some (current, st)
      | token # rest \<Rightarrow>
          if token = dotdot then
            Option.bind (parent_dir current st) (\<lambda>next_node. Option.bind (open_vnode next_node st) (\<lambda>st. Option.bind (close_vnode drv current st) (\<lambda>st.
              resolve_path_recursion drv next_node rest depth follow_links follow_trailing st)))
          else if token = dot then resolve_path_recursion drv current rest depth follow_links follow_trailing st
          else Option.bind (find_file drv current token st) (\<lambda>(r, next_node, st).
            if r \<noteq> 0 then Some (0, st)
            else Option.bind (cross_mount drv next_node st) (\<lambda>(next_node, st). Option.bind (nodes st next_node) (\<lambda>n.
              Option.bind
               (if vn_type n = VLNK \<and> follow_links \<and> (rest \<noteq> [] \<or> follow_trailing)
                then Option.bind (read_link drv next_node st) (\<lambda>(link_path, st). case link_path of
                    None \<Rightarrow> map_option (\<lambda>st. (0, st)) (close_vnode drv current st)
                  | Some target \<Rightarrow> Option.bind (close_vnode drv next_node st) (\<lambda>st.
                      let absolute = (target \<noteq> [] \<and> hd target = 47); link_base = (if absolute then root_node st else current)
                      in Option.bind (if absolute then close_vnode drv current st else Some st) (\<lambda>st.
                           Option.bind (open_vnode link_base st)
                             (resolve_path_recursion drv link_base (tokens {PATH_SEPARATOR} target) (depth + 1) True True))))
                else Some (next_node, st)) (\<lambda>(next_node, st).
               if next_node = 0 then Some (0, st)
               else Option.bind (close_vnode drv current st) (\<lambda>st.
                 resolve_path_recursion drv next_node rest depth follow_links follow_trailing st))))))"

definition resolve_path :: "'d vfs_driver \<Rightarrow> u8 list \<Rightarrow> bool \<Rightarrow> bool \<Rightarrow> 'd vfs_state \<Rightarrow> (addr \<times> 'd vfs_state) option" where
  "resolve_path drv pathname follow_links follow_trailing st =
     Option.bind (open_vnode (root_node st) st)
       (resolve_path_recursion drv (root_node st) (tokens {PATH_SEPARATOR} pathname) 0 follow_links follow_trailing)"

subsection \<open>Reading, writing and other calls that go to the operations\<close>

definition EISDIR_i :: u32 where "EISDIR_i = 21"
definition ENOSYS_i :: u32 where "ENOSYS_i = 38"

text \<open>\<^verbatim>\<open>read\<close> and \<^verbatim>\<open>write\<close> with their arguments given: \<open>io\<close> is the operation of the vnode, if it has one.\<close>

partial_function (option) vnode_io ::
    "(vnode \<Rightarrow> ('d vfs_state \<Rightarrow> u32 \<times> 'd vfs_state) option) \<Rightarrow> addr \<Rightarrow> 'd vfs_state \<Rightarrow> (u32 \<times> 'd vfs_state) option" where
  "vnode_io io this st =
     Option.bind (nodes st this) (\<lambda>t.
       if vn_type t = VDIR then Some (- EISDIR_i, st)
       else if vn_real t \<noteq> 0 then vnode_io io (vn_real t) st
       else (case io t of Some f \<Rightarrow> Some (f st) | None \<Rightarrow> Some (0, st)))"

partial_function (option) vnode_truncate ::
    "(vnode \<Rightarrow> ('d vfs_state \<Rightarrow> u32 \<times> 'd vfs_state) option) \<Rightarrow> addr \<Rightarrow> 'd vfs_state \<Rightarrow> (u32 \<times> 'd vfs_state) option" where
  "vnode_truncate op this st =
     Option.bind (nodes st this) (\<lambda>t. case op t of
         None \<Rightarrow> Some (- EOPNOTSUPP_i, st)
       | Some f \<Rightarrow> if vn_real t \<noteq> 0 then vnode_truncate op (vn_real t) st else Some (f st))"

definition vnode_ioctl :: "(vnode \<Rightarrow> ('d vfs_state \<Rightarrow> u32 \<times> 'd vfs_state) option) \<Rightarrow> addr \<Rightarrow> 'd vfs_state \<Rightarrow> (u32 \<times> 'd vfs_state) option" where
  "vnode_ioctl op this st =
     map_option (\<lambda>t. case op t of Some f \<Rightarrow> f st | None \<Rightarrow> (- ENOSYS_i, st)) (nodes st this)"

definition save_metadata :: "(vnode \<Rightarrow> ('d vfs_state \<Rightarrow> 'd vfs_state) option) \<Rightarrow> addr \<Rightarrow> 'd vfs_state \<Rightarrow> 'd vfs_state option" where
  "save_metadata op this st = map_option (\<lambda>t. case op t of Some f \<Rightarrow> f st | None \<Rightarrow> st) (nodes st this)"

definition null_read :: u32 where "null_read = 0"

definition null_write :: "u64 \<Rightarrow> u32" where "null_write n = ucast n"

subsection \<open>The first tree\<close>

definition rm_node :: "addr \<Rightarrow> addr \<Rightarrow> 'd vfs_state \<Rightarrow> (u32 \<times> 'd vfs_state) option" where
  "rm_node parent node st = map_option (\<lambda>st. (0, st)) (vnode_remove_from_child_list parent node st)"

definition name_dev :: "u8 list" where "name_dev = [100, 101, 118]"
definition name_null :: "u8 list" where "name_null = [110, 117, 108, 108]"
definition name_proc :: "u8 list" where "name_proc = [112, 114, 111, 99]"
definition name_bus :: "u8 list" where "name_bus = [98, 117, 115]"
definition name_sys :: "u8 list" where "name_sys = [115, 121, 115]"
definition name_self :: "u8 list" where "name_self = [115, 101, 108, 102]"
definition name_kernel :: "u8 list" where "name_kernel = [107, 101, 114, 110, 101, 108]"
definition name_osrelease :: "u8 list" where "name_osrelease = [111, 115, 114, 101, 108, 101, 97, 115, 101]"

text \<open>A node of the root or a directory that has just been resolved, closed again when \<open>close\<close> says so; a path that is not there is
  passed over.\<close>

definition with_path :: "'d vfs_driver \<Rightarrow> u8 list list \<Rightarrow> bool \<Rightarrow> (addr \<Rightarrow> 'd vfs_state \<Rightarrow> 'd vfs_state option) \<Rightarrow> 'd vfs_state \<Rightarrow> 'd vfs_state option" where
  "with_path drv names closes f st =
     Option.bind (resolve_path drv (concat (map ((#) PATH_SEPARATOR) names)) True True st) (\<lambda>(node, st).
       if node = 0 then Some st
       else Option.bind (f node st) (\<lambda>st. if closes then close_vnode drv node st else Some st))"

text \<open>The directory of processes stays open after its first use, as in the code: it is closed before the second \<^verbatim>\<open>mkdir\<close>. \<open>write\<close> puts the
  version of the kernel into the last file.\<close>

definition initialize_vfs :: "'d vfs_driver \<Rightarrow> (addr \<Rightarrow> 'd vfs_state \<Rightarrow> 'd vfs_state option) \<Rightarrow> 'd vfs_state \<Rightarrow> 'd vfs_state option" where
  "initialize_vfs drv write st =
     Option.bind (create_memfs st) (\<lambda>(root, st).
     Option.bind (upd_vnode root (\<lambda>v. v \<lparr> vn_name := [PATH_SEPARATOR], virtual_file := True \<rparr>) (st \<lparr> root_node := root \<rparr>)) (\<lambda>st.
     Option.bind (create_memfs st) (\<lambda>(dev_dir, st).
     Option.bind (upd_vnode dev_dir (\<lambda>v. v \<lparr> vn_name := name_dev, virtual_file := True, vn_type := VDIR \<rparr>) st) (\<lambda>st.
     Option.bind (add_node drv root dev_dir st) (\<lambda>(_, st).
     Option.bind (take_address st) (\<lambda>(null, st).
     Option.bind (add_node drv dev_dir null (set_vnode null ((fresh_vnode VCHR) \<lparr> vn_name := name_null \<rparr>) st)) (\<lambda>(_, st).
     Option.bind (upd_vnode null (\<lambda>v. v \<lparr> vn_permissions := 0x1FF \<rparr>) st) (\<lambda>st.
     Option.bind (vnode_mkdir drv root name_proc st) (\<lambda>(_, st).
     Option.bind (with_path drv [name_proc] False (\<lambda>proc st.
       Option.bind (vnode_mkdir drv proc name_bus st) (\<lambda>(_, st).
       Option.bind (close_vnode drv proc st) (\<lambda>st.
       Option.bind (vnode_mkdir drv proc name_sys st) (\<lambda>(_, st).
       Option.bind (take_address st) (\<lambda>(link, st).
         map_option snd (add_node drv proc link (set_vnode link ((fresh_vnode VLNK) \<lparr> vn_name := name_self, vn_ops := Self_Link_Ops \<rparr>) st))))))) st) (\<lambda>st.
     Option.bind (with_path drv [name_proc, name_sys] True (\<lambda>sys st. map_option snd (vnode_mkdir drv sys name_kernel st)) st) (\<lambda>st.
     Option.bind (with_path drv [name_proc, name_sys, name_kernel] True (\<lambda>k st. map_option snd (vnode_creat drv k name_osrelease st)) st)
       (with_path drv [name_proc, name_sys, name_kernel, name_osrelease] True write))))))))))))"

end
