(* ===== verification/VFS_Paths.thy ===== *)
theory VFS_Paths
  imports VFS
begin

text \<open>
  What resolving a path does to the tree of vnodes. A well-formed tree has its lists of children as chains without
  repetition, each name once, and a reference to every vnode; a directory that is not cached has virtual children only. On
  such a tree a path is a walk from vnode to vnode, and resolving it ends where the walk ends with one more reference
  there and none elsewhere.
\<close>

subsection \<open>Well-formed trees\<close>

primrec siblings :: "'d vfs_state \<Rightarrow> addr \<Rightarrow> addr list \<Rightarrow> bool" where
  "siblings st a [] \<longleftrightarrow> a = 0"
| "siblings st a (x # xs) \<longleftrightarrow> a = x \<and> x \<noteq> 0 \<and> (case nodes st x of None \<Rightarrow> False | Some v \<Rightarrow> siblings st (vn_next v) xs)"

definition vnode_at :: "'d vfs_state \<Rightarrow> addr \<Rightarrow> vnode" where "vnode_at st a = the (nodes st a)"

definition dir_ok :: "'d vfs_state \<Rightarrow> addr \<Rightarrow> vnode \<Rightarrow> bool" where
  "dir_ok st a v \<longleftrightarrow> (\<exists>xs. siblings st (vn_children v) xs \<and> length xs < 4294967296 \<and> distinct (map (\<lambda>x. vn_name (vnode_at st x)) xs) \<and>
     (\<forall>x \<in> set xs. vn_parent (vnode_at st x) = a) \<and>
     (directory_cached v \<or> (vn_ops v \<noteq> Driver_Ops \<and> (\<forall>x \<in> set xs. virtual_file (vnode_at st x)))))"

definition tree_ok :: "'d vfs_state \<Rightarrow> bool" where
  "tree_ok st \<longleftrightarrow> nodes st 0 = None \<and> (\<forall>a v. nodes st a = Some v \<longrightarrow>
     vn_real v = 0 \<and> 0 < unat (vn_refs v) \<and> unat (vn_refs v) < 4294967292 \<and> (vn_type v = VDIR \<longrightarrow> dir_ok st a v))"

lemma siblings_nodes: "siblings st a xs \<Longrightarrow> x \<in> set xs \<Longrightarrow> x \<noteq> 0 \<and> nodes st x = Some (vnode_at st x)"
  by (induction xs arbitrary: a) (auto simp: vnode_at_def split: option.splits)

lemma siblings_unique: "siblings st a xs \<Longrightarrow> siblings st a ys \<Longrightarrow> xs = ys"
proof (induction xs arbitrary: a ys)
  case (Cons x xs)
  then show ?case by (cases ys) (auto split: option.splits)
qed (case_tac ys; auto)

subsection \<open>Changes that keep the tree\<close>

text \<open>References and the mark of a filled cache do not belong to the shape of the tree.\<close>

definition erased :: "vnode \<Rightarrow> vnode" where "erased v = v \<lparr> vn_refs := 0, directory_cached := True \<rparr>"

definition shape :: "'d vfs_state \<Rightarrow> 'd vfs_state" where
  "shape st = st \<lparr> nodes := \<lambda>a. map_option erased (nodes st a) \<rparr>"

definition refs :: "'d vfs_state \<Rightarrow> addr \<Rightarrow> u32" where "refs st a = vn_refs (vnode_at st a)"

text \<open>The tree of \<open>st0\<close> with one more reference to \<open>c\<close> and maybe more filled caches.\<close>

definition held :: "'d vfs_state \<Rightarrow> 'd vfs_state \<Rightarrow> (addr \<Rightarrow> u32) \<Rightarrow> bool" where
  "held st0 st d \<longleftrightarrow> shape st = shape st0 \<and>
     (\<forall>a v0. nodes st0 a = Some v0 \<longrightarrow> refs st a = vn_refs v0 + d a \<and> (directory_cached v0 \<longrightarrow> directory_cached (vnode_at st a)))"

lemma shape_nodes:
  assumes "shape st = shape st0"
  shows "map_option erased (nodes st a) = map_option erased (nodes st0 a)"
  using fun_cong [OF arg_cong [OF assms, of nodes], of a] by (simp add: shape_def)

lemma erased_fields:
  assumes "erased v = erased w"
  shows "vn_name v = vn_name w" "vn_type v = vn_type w" "virtual_file v = virtual_file w" "is_mounted v = is_mounted w"
    "mount_point v = mount_point w" "mounted_on v = mounted_on w" "vn_ops v = vn_ops w"
    "vn_children v = vn_children w" "vn_next v = vn_next w" "vn_parent v = vn_parent w" "vn_real v = vn_real w"
  using arg_cong [OF assms, of vn_name] arg_cong [OF assms, of vn_type] arg_cong [OF assms, of virtual_file] arg_cong [OF assms, of is_mounted]
    arg_cong [OF assms, of mount_point] arg_cong [OF assms, of mounted_on] arg_cong [OF assms, of vn_ops]
    arg_cong [OF assms, of vn_children] arg_cong [OF assms, of vn_next] arg_cong [OF assms, of vn_parent] arg_cong [OF assms, of vn_real]
  by (simp_all add: erased_def)

lemma held_node:
  assumes "held st0 st d" "nodes st0 a = Some v0"
  shows "\<exists>v. nodes st a = Some v \<and> erased v = erased v0 \<and> vn_refs v = vn_refs v0 + d a \<and> (directory_cached v0 \<longrightarrow> directory_cached v)"
proof -
  obtain v where v: "nodes st a = Some v" "erased v = erased v0"
    using assms shape_nodes [of st st0 a] by (cases "nodes st a") (auto simp: held_def)
  have "refs st a = vn_refs v0 + d a \<and> (directory_cached v0 \<longrightarrow> directory_cached (vnode_at st a))"
    using assms by (simp add: held_def)
  then show ?thesis using v by (simp add: refs_def vnode_at_def)
qed

lemma held_siblings: "held st0 st d \<Longrightarrow> siblings st a xs \<longleftrightarrow> siblings st0 a xs"
proof (induction xs arbitrary: a)
  case (Cons x xs)
  have e: "map_option erased (nodes st x) = map_option erased (nodes st0 x)" using Cons.prems by (intro shape_nodes) (simp add: held_def)
  show ?case
  proof (cases "nodes st x")
    case None
    then have "nodes st0 x = None" using e by simp
    then show ?thesis using None by simp
  next
    case (Some v)
    then obtain v0 where "nodes st0 x = Some v0" "erased v = erased v0" using e by (cases "nodes st0 x") auto
    then show ?thesis using Some Cons.IH [OF Cons.prems] erased_fields(9) [of v v0] by simp
  qed
qed simp

lemma held_refl: "held st st (\<lambda>_. 0)"
  by (simp add: held_def refs_def vnode_at_def)

text \<open>A change of one vnode that keeps its shape.\<close>

lemma held_set:
  assumes h: "held st0 st d" and v: "nodes st a = Some v" and w: "erased w = erased v" "directory_cached v \<longrightarrow> directory_cached w"
  shows "held st0 (set_vnode a w st) (d(a := d a + (vn_refs w - vn_refs v)))"
proof -
  have s: "shape (set_vnode a w st) = shape st"
    using v w(1) by (auto simp: shape_def set_vnode_def fun_eq_iff)
  have "vn_refs w = vn_refs v0 + (d a + (vn_refs w - vn_refs v)) \<and> (directory_cached v0 \<longrightarrow> directory_cached w)"
    if "nodes st0 a = Some v0" for v0
    using held_node [OF h that] v w(2) by auto
  then show ?thesis using h s by (auto simp: held_def refs_def vnode_at_def set_vnode_def)
qed

lemma open_held:
  assumes "held st0 st d" "nodes st0 a = Some v0" "vn_refs v0 + d a \<noteq> 0"
  shows "\<exists>st'. open_vnode a st = Some st' \<and> held st0 st' (d(a := d a + 1))"
proof -
  obtain v where v: "nodes st a = Some v" "vn_refs v = vn_refs v0 + d a" using held_node [OF assms(1,2)] by blast
  have "held st0 (set_vnode a (v \<lparr> vn_refs := vn_refs v + 1 \<rparr>) st) (d(a := d a + (vn_refs (v \<lparr> vn_refs := vn_refs v + 1 \<rparr>) - vn_refs v)))"
    by (rule held_set [OF assms(1) v(1)]) (simp_all add: erased_def)
  then show ?thesis using v assms(3) by (subst open_vnode.simps) simp
qed

lemma close_held:
  assumes "held st0 st d" "nodes st0 a = Some v0" "vn_refs v0 + d a \<noteq> 1"
  shows "\<exists>st'. close_vnode drv a st = Some st' \<and> held st0 st' (d(a := d a - 1))"
proof -
  obtain v where v: "nodes st a = Some v" "vn_refs v = vn_refs v0 + d a" using held_node [OF assms(1,2)] by blast
  have "held st0 (set_vnode a (v \<lparr> vn_refs := vn_refs v - 1 \<rparr>) st) (d(a := d a + (vn_refs (v \<lparr> vn_refs := vn_refs v - 1 \<rparr>) - vn_refs v)))"
    by (rule held_set [OF assms(1) v(1)]) (simp_all add: erased_def)
  moreover have "vn_refs v - 1 \<noteq> 0" using v(2) assms(3) by simp
  ultimately show ?thesis using v by (subst close_vnode.simps) simp
qed

subsection \<open>Looking up a name\<close>

lemma tree_okD:
  assumes "tree_ok st" "nodes st a = Some v"
  shows "vn_real v = 0" "0 < unat (vn_refs v)" "unat (vn_refs v) < 4294967292" "vn_type v = VDIR \<Longrightarrow> dir_ok st a v" "a \<noteq> 0"
proof -
  show "a \<noteq> 0" using assms by (cases "a = 0") (simp_all add: tree_ok_def)
qed (use assms in \<open>simp_all add: tree_ok_def\<close>)

lemma drop_stale_virtual:
  "siblings st k xs \<Longrightarrow> \<forall>x \<in> set xs. virtual_file (vnode_at st x) \<Longrightarrow> drop_stale drv self es k st = Some st"
proof (induction xs arbitrary: k)
  case (Cons x xs)
  then show ?case by (subst drop_stale.simps) (auto simp: vnode_at_def split: option.splits)
qed (simp add: drop_stale.simps)

definition listed :: "'d vfs_state \<Rightarrow> addr \<Rightarrow> vnode" where
  "listed st x = (vnode_at st x) \<lparr> vn_real := x, vn_refs := 0, vn_next := 0 \<rparr>"

lemma copy_children_siblings: "siblings st k xs \<Longrightarrow> copy_children k st = Some (map (listed st) xs)"
proof (induction xs arbitrary: k)
  case (Cons x xs)
  then show ?case by (subst copy_children.simps) (auto simp: listed_def vnode_at_def split: option.splits)
qed (simp add: copy_children.simps)

lemma fill_cache_held:
  assumes ok: "dir_ok st0 c v0" and h: "held st0 st d" and c: "nodes st0 c = Some v0"
  shows "\<exists>st'. fill_cache drv c c st = Some st' \<and> held st0 st' d"
proof -
  obtain v where v: "nodes st c = Some v" "erased v = erased v0" "directory_cached v0 \<longrightarrow> directory_cached v" using held_node [OF h c] by blast
  note f = erased_fields [OF v(2)]
  obtain xs where xs: "siblings st0 (vn_children v0) xs"
    "directory_cached v0 \<or> (vn_ops v0 \<noteq> Driver_Ops \<and> (\<forall>x \<in> set xs. virtual_file (vnode_at st0 x)))"
    using ok unfolding dir_ok_def by blast
  show ?thesis
  proof (cases "directory_cached v")
    case True
    then show ?thesis using v(1) h by (simp add: fill_cache_def)
  next
    case False
    then have nd: "vn_ops v0 \<noteq> Driver_Ops" "\<forall>x \<in> set xs. virtual_file (vnode_at st0 x)" using xs(2) v(3) by auto
    have xs': "siblings st (vn_children v) xs" using xs(1) held_siblings [OF h] f by simp
    have virt: "virtual_file (vnode_at st x)" if x: "x \<in> set xs" for x
    proof -
      obtain w where w: "nodes st x = Some w" "erased w = erased (vnode_at st0 x)"
        using held_node [OF h conjunct2 [OF siblings_nodes [OF xs(1) x]]] by blast
      then show ?thesis using nd(2) x erased_fields(3) [OF w(2)] by (simp add: vnode_at_def)
    qed
    have cr: "call_read_dir drv (vn_ops v) v st = ([], st)"
      using nd(1) f by (simp add: call_read_dir_def split: node_ops.splits)
    have "held st0 (set_vnode c (v \<lparr> directory_cached := True \<rparr>) st) (d(c := d c + (vn_refs (v \<lparr> directory_cached := True \<rparr>) - vn_refs v)))"
      by (rule held_set [OF h v(1)]) (simp_all add: erased_def)
    then have "held st0 (set_vnode c (v \<lparr> directory_cached := True \<rparr>) st) d" by simp
    moreover have "fill_cache drv c c st = Some (set_vnode c (v \<lparr> directory_cached := True \<rparr>) st)"
      using v(1) False drop_stale_virtual [OF xs'] virt by (simp add: fill_cache_def cr upd_vnode_def)
    ultimately show ?thesis by blast
  qed
qed

lemma read_dir_held:
  assumes ok: "dir_ok st0 c v0" "vn_real v0 = 0" and h: "held st0 st d" and c: "nodes st0 c = Some v0" "vn_type v0 = VDIR" "\<not> is_mounted v0"
    and xs: "siblings st0 (vn_children v0) xs"
  shows "\<exists>st'. read_dir drv c st = Some (of_nat (length xs), map (listed st') xs, st') \<and> held st0 st' d"
proof -
  obtain st' where s: "fill_cache drv c c st = Some st'" "held st0 st' d" using fill_cache_held [OF ok(1) h c(1)] by blast
  obtain v where v: "nodes st c = Some v" "erased v = erased v0" using held_node [OF h c(1)] by blast
  obtain v' where v': "nodes st' c = Some v'" "erased v' = erased v0" using held_node [OF s(2) c(1)] by blast
  have "vn_real v = 0" using ok(2) erased_fields(11) [OF v(2)] by simp
  moreover have "siblings st' (vn_children v') xs" using xs held_siblings [OF s(2)] erased_fields(8) [OF v'(2)] by simp
  ultimately have "read_dir drv c st = Some (of_nat (length xs), map (listed st') xs, st')"
    using v v' c(2,3) s(1) erased_fields(2,4) [OF v(2)] erased_fields(4) [OF v'(2)] copy_children_siblings
    by (subst read_dir.simps) simp
  then show ?thesis using s(2) by blast
qed

lemma open_matching_none: "\<forall>v \<in> set vs. vn_name v \<noteq> name \<Longrightarrow> open_matching name vs ret st = Some (ret, st)"
  by (induction vs) auto

lemma open_matching_one:
  assumes "distinct (map vn_name vs)" "v \<in> set vs" "vn_name v = name" "open_vnode (vn_real v) st = Some st'"
  shows "open_matching name vs ret st = Some (vn_real v, st')"
  using assms
proof (induction vs arbitrary: ret)
  case (Cons w vs)
  show ?case
  proof (cases "w = v")
    case True
    then have "\<forall>u \<in> set vs. vn_name u \<noteq> name" using Cons.prems(1,3) by (simp add: image_iff) metis
    then show ?thesis using True Cons.prems by (simp add: open_matching_none)
  next
    case False
    then have "vn_name w \<noteq> name" "v \<in> set vs" using Cons.prems by auto
    then show ?thesis using Cons by simp
  qed
qed simp

lemma held_names:
  assumes "held st0 st d" "siblings st0 k xs" "x \<in> set xs"
  shows "vn_name (listed st x) = vn_name (vnode_at st0 x)" "vn_real (listed st x) = x"
proof -
  obtain w where w: "nodes st x = Some w" "erased w = erased (vnode_at st0 x)"
    using held_node [OF assms(1) conjunct2 [OF siblings_nodes [OF assms(2,3)]]] by blast
  then show "vn_name (listed st x) = vn_name (vnode_at st0 x)" using erased_fields(1) [OF w(2)] by (simp add: listed_def vnode_at_def)
qed (simp add: listed_def)

lemma find_file_held:
  assumes ok: "dir_ok st0 c v0" "vn_real v0 = 0" and h: "held st0 st d" and c: "nodes st0 c = Some v0" "vn_type v0 = VDIR" "\<not> is_mounted v0"
    and xs: "siblings st0 (vn_children v0) xs"
  shows "(\<forall>x \<in> set xs. vn_name (vnode_at st0 x) \<noteq> t) \<Longrightarrow> \<exists>st'. find_file drv c t st = Some (- ENOENT_i, 0, st') \<and> held st0 st' d"
    "x \<in> set xs \<Longrightarrow> vn_name (vnode_at st0 x) = t \<Longrightarrow> refs st0 x + d x \<noteq> 0 \<Longrightarrow>
      \<exists>st'. find_file drv c t st = Some (0, x, st') \<and> held st0 st' (d(x := d x + 1))"
proof -
  obtain v where v: "nodes st c = Some v" "erased v = erased v0" using held_node [OF h c(1)] by blast
  have vt: "vn_type v = VDIR" "vn_real v = 0"
    using ok(2) c(2) erased_fields(2,11) [OF v(2)] by simp_all
  obtain st1 where r: "read_dir drv c st = Some (of_nat (length xs), map (listed st1) xs, st1)" "held st0 st1 d"
    using read_dir_held [OF ok h c xs] by blast
  obtain ys where ys: "siblings st0 (vn_children v0) ys" "length ys < 4294967296" "distinct (map (\<lambda>x. vn_name (vnode_at st0 x)) ys)"
    using ok(1) unfolding dir_ok_def by blast
  then have len: "length xs < 4294967296" and dist: "distinct (map (\<lambda>x. vn_name (vnode_at st0 x)) xs)"
    using siblings_unique [OF xs ys(1)] by simp_all
  note names = held_names [OF r(2) xs]
  have e: "find_file drv c t st = (if xs = [] then Some (- ENOENT_i, 0, st1)
      else map_option (\<lambda>(ret, st). (if ret = 0 then - ENOENT_i else 0, ret, st)) (open_matching t (map (listed st1) xs) 0 st1))"
  proof -
    have "unat (of_nat (length xs) :: u32) = length xs" using len by (simp add: unat_of_nat take_bit_nat_eq_self)
    then have "(of_nat (length xs) :: u32) = 0 \<longleftrightarrow> xs = []" by (metis length_0_conv unat_eq_zero)
    then show ?thesis using v(1) vt r(1) by (subst find_file.simps) simp
  qed
  show "\<exists>st'. find_file drv c t st = Some (- ENOENT_i, 0, st') \<and> held st0 st' d" if "\<forall>x \<in> set xs. vn_name (vnode_at st0 x) \<noteq> t"
  proof -
    have "open_matching t (map (listed st1) xs) 0 st1 = Some (0, st1)" using that names by (intro open_matching_none) auto
    then show ?thesis using e r(2) by simp
  qed
  show "\<exists>st'. find_file drv c t st = Some (0, x, st') \<and> held st0 st' (d(x := d x + 1))"
    if x: "x \<in> set xs" and n: "vn_name (vnode_at st0 x) = t" and p: "refs st0 x + d x \<noteq> 0"
  proof -
    have x0: "x \<noteq> 0" "nodes st0 x = Some (vnode_at st0 x)" using siblings_nodes [OF xs x] by simp_all
    obtain st' where o: "open_vnode x st1 = Some st'" "held st0 st' (d(x := d x + 1))"
      using open_held [OF r(2) x0(2)] p by (auto simp: refs_def)
    have "map (vn_name \<circ> listed st1) xs = map (\<lambda>x. vn_name (vnode_at st0 x)) xs" using names by (intro map_cong) simp_all
    then have "open_matching t (map (listed st1) xs) 0 st1 = Some (vn_real (listed st1 x), st')"
      using dist x n names o(1) by (intro open_matching_one) (simp_all only: map_map list.set_map, auto)
    then show ?thesis using e o(2) x x0(1) names(2) [OF x] by auto
  qed
qed

subsection \<open>Walking along a path\<close>

text \<open>Where a list of names leads from a vnode: up, through mounts, and down to a child; a link that would be followed ends the
  walk.\<close>

inductive leads :: "'d vfs_state \<Rightarrow> bool \<Rightarrow> bool \<Rightarrow> addr \<Rightarrow> u8 list list \<Rightarrow> addr \<Rightarrow> bool" for st follow trailing where
  stay: "leads st follow trailing a [] a"
| here: "leads st follow trailing a ts c \<Longrightarrow> leads st follow trailing a (dot # ts) c"
| up: "parent_dir a st = Some b \<Longrightarrow> nodes st b \<noteq> None \<Longrightarrow> leads st follow trailing b ts c \<Longrightarrow> leads st follow trailing a (dotdot # ts) c"
| down: "nodes st a = Some v \<Longrightarrow> vn_type v = VDIR \<Longrightarrow> \<not> is_mounted v \<Longrightarrow> siblings st (vn_children v) xs \<Longrightarrow> x \<in> set xs \<Longrightarrow>
    vn_name (vnode_at st x) = t \<Longrightarrow> t \<noteq> dot \<Longrightarrow> t \<noteq> dotdot \<Longrightarrow>
    b = (if is_mounted (vnode_at st x) \<and> mount_point (vnode_at st x) \<noteq> 0 then mount_point (vnode_at st x) else x) \<Longrightarrow>
    nodes st b = Some w \<Longrightarrow> \<not> (vn_type w = VLNK \<and> follow \<and> (ts \<noteq> [] \<or> trailing)) \<Longrightarrow>
    leads st follow trailing b ts c \<Longrightarrow> leads st follow trailing a (t # ts) c"

definition one :: "addr \<Rightarrow> addr \<Rightarrow> u32" where "one a = (\<lambda>x. if x = a then 1 else 0)"

lemma count_room:
  assumes "tree_ok st" "nodes st a = Some v" "unat k \<le> 3"
  shows "vn_refs v + k \<noteq> 0" "k \<noteq> 0 \<Longrightarrow> vn_refs v + k \<noteq> 1"
proof -
  note b = tree_okD(2,3) [OF assms(1,2)]
  have s: "unat (vn_refs v + k) = unat (vn_refs v) + unat k" using b assms(3) by (simp add: unat_word_ariths)
  then show "vn_refs v + k \<noteq> 0" using b(1) by (metis add_is_0 not_less_zero unat_0)
  assume "k \<noteq> 0"
  then have "0 < unat k" by (simp add: unat_gt_0)
  then show "vn_refs v + k \<noteq> 1" using s b(1) by (metis One_nat_def add_is_1 less_not_refl unat_1)
qed

lemma open_one:
  assumes "tree_ok st0" "held st0 st d" "nodes st0 a = Some v0" "unat (d a) \<le> 3"
  shows "\<exists>st'. open_vnode a st = Some st' \<and> held st0 st' (\<lambda>x. d x + one a x)"
proof -
  have "d(a := d a + 1) = (\<lambda>x. d x + one a x)" by (simp add: fun_eq_iff one_def)
  then show ?thesis using open_held [OF assms(2,3)] count_room(1) [OF assms(1,3,4)] by simp
qed

lemma close_one:
  assumes "tree_ok st0" "held st0 st (\<lambda>x. d x + one a x)" "nodes st0 a = Some v0" "unat (d a) \<le> 2"
  shows "\<exists>st'. close_vnode drv a st = Some st' \<and> held st0 st' d"
proof -
  have e: "(\<lambda>x. d x + one a x)(a := d a + one a a - 1) = d" by (simp add: fun_eq_iff one_def)
  have "unat (d a + 1) \<le> 3 \<and> d a + 1 \<noteq> 0"
  proof -
    have "unat (d a + 1) = unat (d a) + 1" using assms(4) by (simp add: unat_word_ariths)
    then show ?thesis using assms(4) by (metis Suc_eq_plus1 Suc_le_mono eval_nat_numeral(3) nat.simps(3) unat_0)
  qed
  then show ?thesis using close_held [OF assms(2,3)] count_room(2) [OF assms(1,3), of "d a + 1"] e by (simp add: one_def)
qed

lemma held_parent_dir:
  assumes h: "held st0 st d"
  shows "parent_dir a st = parent_dir a st0"
proof -
  have e: "map_option erased (nodes st x) = map_option erased (nodes st0 x)" for x using h by (intro shape_nodes) (simp add: held_def)
  show ?thesis
  proof (cases "nodes st a")
    case None
    then show ?thesis using e [of a] by (simp add: parent_dir_def)
  next
    case (Some v)
    then obtain v0 where v0: "nodes st0 a = Some v0" "erased v = erased v0" using e [of a] by (cases "nodes st0 a") auto
    note f = erased_fields(6,10) [OF v0(2)]
    have "map_option vn_parent (nodes st x) = map_option vn_parent (nodes st0 x)" for x
      using e [of x] by (cases "nodes st x"; cases "nodes st0 x") (auto dest: erased_fields(10))
    from arg_cong [OF this, of "map_option (\<lambda>p. if p \<noteq> 0 then p else mounted_on v0)"] show ?thesis
      using Some v0(1) by (simp add: parent_dir_def option.map_comp comp_def f cong: if_cong)
  qed
qed

text \<open>Entering a child, through what is mounted on it.\<close>

lemma enter_child:
  assumes ok: "tree_ok st0" and h: "held st0 st (one a)" and c: "nodes st0 a = Some v0" "vn_type v0 = VDIR" "\<not> is_mounted v0"
    and xs: "siblings st0 (vn_children v0) xs" "x \<in> set xs" "vn_name (vnode_at st0 x) = t"
    and b: "b = (if is_mounted (vnode_at st0 x) \<and> mount_point (vnode_at st0 x) \<noteq> 0 then mount_point (vnode_at st0 x) else x)" "nodes st0 b = Some w0"
  shows "\<exists>st1 st2. find_file drv a t st = Some (0, x, st1) \<and> cross_mount drv x st1 = Some (b, st2) \<and> held st0 st2 (\<lambda>y. one a y + one b y)"
proof -
  have x: "nodes st0 x = Some (vnode_at st0 x)" using siblings_nodes [OF xs(1,2)] by blast
  have u: "unat (one p q) \<le> 1" for p q by (simp add: one_def)
  have u2: "unat (one p q + one r q) \<le> 2" for p q r by (simp add: one_def)
  have "refs st0 x + one a x \<noteq> 0" using count_room(1) [OF ok x, of "one a x"] u [of a x] by (simp add: refs_def)
  then obtain st1 where f: "find_file drv a t st = Some (0, x, st1)" "held st0 st1 ((one a)(x := one a x + 1))"
    using find_file_held(2) [OF tree_okD(4,1) [OF ok c(1)] h c xs(1,2,3)] c(2) by blast
  have "(one a)(x := one a x + 1) = (\<lambda>y. one a y + one x y)" by (simp add: fun_eq_iff one_def)
  then have h1: "held st0 st1 (\<lambda>y. one a y + one x y)" using f(2) by simp
  obtain v1 where v1: "nodes st1 x = Some v1" "erased v1 = erased (vnode_at st0 x)" using held_node [OF h1 x] by blast
  note m = erased_fields(4,5) [OF v1(2)]
  show ?thesis
  proof (cases "is_mounted (vnode_at st0 x) \<and> mount_point (vnode_at st0 x) \<noteq> 0")
    case True
    obtain st2 where o: "open_vnode b st1 = Some st2" "held st0 st2 (\<lambda>y. one a y + one x y + one b y)"
      using open_one [OF ok h1 b(2)] u2 [of a b x] by auto
    have "held st0 st2 (\<lambda>y. (one a y + one b y) + one x y)" using o(2) by (simp add: ac_simps)
    from close_one [OF ok this x] obtain st3 where k: "close_vnode drv x st2 = Some st3" "held st0 st3 (\<lambda>y. one a y + one b y)"
      using u2 [of a x b] by auto
    have "cross_mount drv x st1 = Some (b, st3)" using v1(1) m True o(1) k(1) b(1) by (simp add: cross_mount_def)
    then show ?thesis using f(1) k(2) by blast
  next
    case False
    then have "b = x" "cross_mount drv x st1 = Some (x, st1)" using b(1) v1(1) m by (auto simp: cross_mount_def)
    then show ?thesis using f(1) h1 by blast
  qed
qed

lemma resolve_leads:
  assumes "leads st0 follow (us \<noteq> [] \<or> trailing) a ts c" "tree_ok st0" "held st0 st (one a)" "nodes st0 a \<noteq> None" "n \<le> MAX_SYMLINK_DEPTH"
  shows "\<exists>st'. resolve_path_recursion drv a (ts @ us) n follow trailing st = resolve_path_recursion drv c us n follow trailing st' \<and>
    held st0 st' (one c) \<and> nodes st0 c \<noteq> None"
  using assms
proof (induction arbitrary: st rule: leads.induct)
  case (stay a)
  then show ?case by auto
next
  case (here a ts c)
  have "resolve_path_recursion drv a ((dot # ts) @ us) n follow trailing st = resolve_path_recursion drv a (ts @ us) n follow trailing st"
    using here.prems by (subst resolve_path_recursion.simps) (simp add: dot_def dotdot_def)
  then show ?case using here.IH [OF here.prems] by simp
next
  case (up a b ts c)
  obtain va vb where v: "nodes st0 a = Some va" "nodes st0 b = Some vb" using up by auto
  have u: "unat (one p q) \<le> 1" for p q by (simp add: one_def)
  have p: "parent_dir a st = Some b" using up.hyps(1) held_parent_dir [OF up.prems(2)] by simp
  obtain st1 where o: "open_vnode b st = Some st1" "held st0 st1 (\<lambda>x. one a x + one b x)"
    using open_one [OF up.prems(1,2) v(2)] u [of a b] by auto
  have "held st0 st1 (\<lambda>x. one b x + one a x)" using o(2) by (simp add: ac_simps)
  from close_one [OF up.prems(1) this v(1)] obtain st2 where k: "close_vnode drv a st1 = Some st2" "held st0 st2 (one b)"
    using u [of b a] by auto
  have "resolve_path_recursion drv a ((dotdot # ts) @ us) n follow trailing st = resolve_path_recursion drv b (ts @ us) n follow trailing st2"
    using up.prems(4) p o(1) k(1) by (subst resolve_path_recursion.simps) simp
  then show ?case using up.IH [OF up.prems(1) k(2) up.hyps(2) up.prems(4)] by simp
next
  case (down a v xs x t b w ts c)
  have u: "unat (one p q) \<le> 1" for p q by (simp add: one_def)
  obtain st1 st2 where e: "find_file drv a t st = Some (0, x, st1)" "cross_mount drv x st1 = Some (b, st2)" "held st0 st2 (\<lambda>y. one a y + one b y)"
    using enter_child [OF down.prems(1,2) down.hyps(1-6,9,10)] by blast
  obtain w' where w': "nodes st2 b = Some w'" "erased w' = erased w" using held_node [OF e(3) down.hyps(10)] by blast
  have "held st0 st2 (\<lambda>x. one b x + one a x)" using e(3) by (simp add: ac_simps)
  from close_one [OF down.prems(1) this down.hyps(1)] obtain st3 where k: "close_vnode drv a st2 = Some st3" "held st0 st3 (one b)"
    using u [of b a] by auto
  have b0: "b \<noteq> 0" using tree_okD(5) [OF down.prems(1) down.hyps(10)] .
  have nb: "nodes st0 b \<noteq> None" using down.hyps(10) by simp
  have "resolve_path_recursion drv a ((t # ts) @ us) n follow trailing st = resolve_path_recursion drv b (ts @ us) n follow trailing st3"
    using down.prems(4) down.hyps(7,8,11) e(1,2) k(1) w' b0 erased_fields(2) [OF w'(2)]
    by (subst resolve_path_recursion.simps) auto
  then show ?case using down.IH [OF down.prems(1) k(2) nb down.prems(4)] by simp
qed

text \<open>From the root.\<close>

lemma resolve_path_leads:
  assumes ok: "tree_ok st" and root: "nodes st (root_node st) \<noteq> None" and ts: "tokens {PATH_SEPARATOR} pathname = ts @ us"
    and l: "leads st follow (us \<noteq> [] \<or> trailing) (root_node st) ts c"
  shows "\<exists>st'. resolve_path drv pathname follow trailing st = resolve_path_recursion drv c us 0 follow trailing st' \<and> held st st' (one c) \<and> nodes st c \<noteq> None"
proof -
  obtain v where v: "nodes st (root_node st) = Some v" using root by blast
  obtain st1 where o: "open_vnode (root_node st) st = Some st1" "held st st1 (\<lambda>x. 0 + one (root_node st) x)"
    using open_one [OF ok held_refl v] by auto
  then have "held st st1 (one (root_node st))" by simp
  from resolve_leads [OF l ok this root, of 0] show ?thesis using o(1) ts by (auto simp: resolve_path_def)
qed

lemma held_refs: "held st0 st d \<Longrightarrow> nodes st0 a = Some v \<Longrightarrow> refs st a = refs st0 a + d a"
  by (auto simp: held_def refs_def vnode_at_def)


text \<open>C39: A defect: when the path leads to a directory that has no entry of the next name, \<open>resolve_path\<close> returns null and keeps
  one more reference to this directory, which nobody gives back.\<close>

theorem failed_lookup_leaks:
  assumes "tree_ok st" "nodes st (root_node st) \<noteq> None" "tokens {PATH_SEPARATOR} pathname = ts @ t # us" "t \<noteq> dot" "t \<noteq> dotdot"
    and "leads st follow True (root_node st) ts c" "nodes st c = Some v" "vn_type v = VDIR" "\<not> is_mounted v"
    and "siblings st (vn_children v) xs" "\<forall>x \<in> set xs. vn_name (vnode_at st x) \<noteq> t"
  shows "\<exists>st'. resolve_path drv pathname follow trailing st = Some (0, st') \<and> shape st' = shape st \<and>
    (\<forall>a v. nodes st a = Some v \<longrightarrow> refs st' a = refs st a + (if a = c then 1 else 0))"
proof -
  obtain st1 where r: "resolve_path drv pathname follow trailing st = resolve_path_recursion drv c (t # us) 0 follow trailing st1" "held st st1 (one c)"
    using resolve_path_leads [where drv = drv and trailing = trailing and follow = follow, OF assms(1-3)] assms(6) by auto
  obtain st2 where f: "find_file drv c t st1 = Some (- ENOENT_i, 0, st2)" "held st st2 (one c)"
    using find_file_held(1) [OF tree_okD(4,1) [OF assms(1,7)] r(2) assms(7-11)] assms(8) by blast
  have "- ENOENT_i \<noteq> 0" by (simp add: ENOENT_i_def)
  then have "resolve_path drv pathname follow trailing st = Some (0, st2)"
    unfolding r(1) using f(1) assms(4,5) by (subst resolve_path_recursion.simps) (simp add: MAX_SYMLINK_DEPTH_def)
  then show ?thesis using f(2) held_refs [OF f(2)] by (auto simp: held_def one_def)
qed

subsection \<open>The path of a vnode\<close>

text \<open>Where the names on the way from the root to a vnode can be printed and read back: no mounts on the way, and names that are
  not empty, have no slash and are not "." or "..".\<close>

inductive below :: "'d vfs_state \<Rightarrow> u8 list list \<Rightarrow> addr \<Rightarrow> bool" for st where
  top: "nodes st (root_node st) = Some v \<Longrightarrow> vn_name v = [47] \<Longrightarrow> mounted_on v = 0 \<Longrightarrow> below st [] (root_node st)"
| kid: "below st ns a \<Longrightarrow> nodes st a = Some v \<Longrightarrow> vn_type v = VDIR \<Longrightarrow> \<not> is_mounted v \<Longrightarrow> siblings st (vn_children v) xs \<Longrightarrow> x \<in> set xs \<Longrightarrow>
    vn_name (vnode_at st x) = n \<Longrightarrow> n \<noteq> [] \<Longrightarrow> 47 \<notin> set n \<Longrightarrow> n \<noteq> dot \<Longrightarrow> n \<noteq> dotdot \<Longrightarrow> x \<noteq> root_node st \<Longrightarrow>
    mounted_on (vnode_at st x) = 0 \<Longrightarrow> \<not> is_mounted (vnode_at st x) \<Longrightarrow> below st (ns @ [n]) x"

definition path_string :: "u8 list list \<Rightarrow> u8 list" where
  "path_string ns = (if ns = [] then [47] else concat (map ((#) 47) ns))"

lemma tokens_slash: "tokens {47} (47 # s) = tokens {47} s"
  by (subst (1 2) tokens.simps) simp

lemma tokens_name:
  assumes "n \<noteq> []" "47 \<notin> set n" "s = [] \<or> hd s = 47"
  shows "tokens {47} (n @ s) = n # tokens {47} s"
proof -
  obtain c m where n: "n = c # m" using assms(1) by (cases n) auto
  have t: "takeWhile (\<lambda>c. c \<noteq> 47) (m @ s) = m" "dropWhile (\<lambda>c. c \<noteq> 47) (m @ s) = s"
    using assms(2,3) unfolding n by (subst takeWhile_append2 dropWhile_append2; cases s; auto)+
  have "c \<noteq> 47" using assms(2) n by auto
  then show ?thesis unfolding n by (subst tokens.simps) (simp add: t)
qed

lemma tokens_path_string:
  assumes "\<forall>n \<in> set ns. n \<noteq> [] \<and> 47 \<notin> set n"
  shows "tokens {47} (path_string ns) = ns"
proof -
  have "tokens {47} (concat (map ((#) 47) ns)) = ns"
    using assms
  proof (induction ns)
    case Nil
    then show ?case by (subst tokens.simps) simp
  next
    case (Cons n ns)
    have "concat (map ((#) 47) ns) = [] \<or> hd (concat (map ((#) 47) ns)) = (47 :: u8)" by (cases ns) simp_all
    then show ?case using Cons tokens_name [of n] by (simp add: tokens_slash)
  qed
  moreover have "tokens {47} [47] = ([] :: u8 list list)" by (subst tokens.simps) simp
  ultimately show ?thesis by (simp add: path_string_def)
qed

lemma below_names: "below st ns a \<Longrightarrow> \<forall>n \<in> set ns. n \<noteq> [] \<and> 47 \<notin> set n"
  by (induction rule: below.induct) auto

lemma below_builder:
  assumes "below st ns a" "tree_ok st" "length (path_string ns) < 2048"
  shows "recursive_path_builder a [] st = Some (path_string ns)"
  using assms
proof (induction rule: below.induct)
  case (top v)
  have "root_node st \<noteq> 0" using tree_okD(5) [OF top.prems(1) top.hyps(1)] .
  then show ?case using top by (subst recursive_path_builder.simps) (simp add: path_string_def)
next
  case (kid ns a v xs x n)
  note x = siblings_nodes [OF kid.hyps(5,6)]
  obtain ys where "siblings st (vn_children v) ys" "\<forall>y \<in> set ys. vn_parent (vnode_at st y) = a"
    using tree_okD(4) [OF kid.prems(1) kid.hyps(2,3)] unfolding dir_ok_def by blast
  then have p: "vn_parent (vnode_at st x) = a" using siblings_unique [OF kid.hyps(5)] kid.hyps(6) by blast
  have a0: "a \<noteq> 0" using tree_okD(5) [OF kid.prems(1) kid.hyps(2)] .
  have "length (path_string ns) < 2048" using kid.prems(2) kid.hyps(8) by (cases ns) (auto simp: path_string_def neq_Nil_conv)
  with kid.IH kid.prems(1) have b: "recursive_path_builder a [] st = Some (path_string ns)" by simp
  have e: "(if path_string ns \<noteq> [] \<and> last (path_string ns) \<noteq> 47 then path_string ns @ [47] else path_string ns) @ n = path_string (ns @ [n])"
  proof (cases "ns = []")
    case False
    then obtain ms m where ns: "ns = ms @ [m]" by (metis rev_exhaust)
    have "m \<noteq> [] \<and> 47 \<notin> set m" using below_names [OF kid.hyps(1)] ns by simp
    then have "last (path_string ns) \<noteq> 47" "path_string ns \<noteq> []" using ns by (auto simp: path_string_def) (metis last_in_set)
    then show ?thesis using False by (simp add: path_string_def)
  qed (simp add: path_string_def)
  have "recursive_path_builder x [] st = Option.bind (Some (path_string ns)) (\<lambda>buffer.
      let buffer = (if buffer \<noteq> [] \<and> last buffer \<noteq> 47 then buffer @ [47] else buffer) @ n
      in if length buffer \<ge> 2048 then None else Some buffer)"
    using x p a0 b kid.hyps(7,12,13) by (subst recursive_path_builder.simps) simp
  also have "\<dots> = Some (path_string (ns @ [n]))"
    using kid.prems(2) unfolding bind.bind_lunit Let_def e by simp
  finally show ?case .
qed

lemma leads_mono: "leads st follow True a ts c \<Longrightarrow> leads st follow trailing a ts c"
  by (induction rule: leads.induct) (auto intro: leads.intros)

lemma leads_append: "leads st follow True a ts b \<Longrightarrow> leads st follow True b us c \<Longrightarrow> leads st follow True a (ts @ us) c"
  by (induction rule: leads.induct) (auto intro: leads.intros)

lemma below_leads:
  assumes "below st ns a" "vn_type (vnode_at st a) \<noteq> VLNK"
  shows "leads st follow True (root_node st) ns a"
  using assms
proof (induction rule: below.induct)
  case (top v)
  then show ?case by (intro leads.stay)
next
  case (kid ns a v xs x n)
  have x: "nodes st x = Some (vnode_at st x)" using siblings_nodes [OF kid.hyps(5,6)] by blast
  have "vn_type (vnode_at st a) \<noteq> VLNK" using kid.hyps(2,3) by (simp add: vnode_at_def)
  then have "leads st follow True (root_node st) ns a" using kid.IH by blast
  moreover have "leads st follow True a [n] x"
    by (rule leads.down [OF kid.hyps(2,3,4,5,6,7,10,11) _ x _ leads.stay]) (use kid in simp_all)
  ultimately show ?case by (rule leads_append)
qed


text \<open>A path is printed the same way when only counts and caches differ.\<close>

lemma shape_fields:
  assumes "shape st = shape st0"
  shows "root_node st = root_node st0" "proc_vfs_dir st = proc_vfs_dir st0"
  using arg_cong [OF assms, of root_node] arg_cong [OF assms, of proc_vfs_dir] by (simp_all add: shape_def)

lemma builder_shape:
  assumes run: "recursive_path_builder a buffer st0 = Some p" and s: "shape st = shape st0"
  shows "recursive_path_builder a buffer st = Some p"
proof -
  have "shape st = shape st0 \<longrightarrow> recursive_path_builder a buffer st = Some p"
  proof (rule recursive_path_builder.raw_induct [where P = "\<lambda>a b s r. shape st = shape s \<longrightarrow> recursive_path_builder a b st = Some r", OF _ run])
    fix builder a b st0 p
    assume IH: "\<And>a b s r. builder a b s = Some r \<Longrightarrow> shape st = shape s \<longrightarrow> recursive_path_builder a b st = Some r"
      and body: "(if a = 0 then Some b
        else Option.bind (nodes st0 a) (\<lambda>v.
          if mounted_on v \<noteq> 0 then builder (mounted_on v) b st0
          else Option.bind (if vn_parent v \<noteq> 0 \<and> a \<noteq> root_node st0 then builder (vn_parent v) b st0 else Some b) (\<lambda>b.
            let b = (if b \<noteq> [] \<and> last b \<noteq> 47 then b @ [47] else b) @ vn_name v in if length b \<ge> 2048 then None else Some b))) = Some p"
    show "shape st = shape st0 \<longrightarrow> recursive_path_builder a b st = Some p"
    proof (cases "a = 0")
      case True
      then show ?thesis using body by (subst recursive_path_builder.simps) simp
    next
      case a0: False
      then obtain v0 where v0: "nodes st0 a = Some v0" using body by (cases "nodes st0 a") auto
      show ?thesis
      proof
        assume s: "shape st = shape st0"
        then obtain v where v: "nodes st a = Some v" "erased v = erased v0"
          using shape_nodes [OF s, of a] v0 by (cases "nodes st a") auto
        note f = erased_fields(1,6,10) [OF v(2)]
        have up: "builder x b st0 = Some q \<Longrightarrow> recursive_path_builder x b st = Some q" for x q using IH s by blast
        show "recursive_path_builder a b st = Some p"
        proof (cases "mounted_on v0 = 0")
          case False
          then show ?thesis using up body a0 v0 v f by (subst recursive_path_builder.simps) simp
        next
          case True
          obtain q where q: "(if vn_parent v0 \<noteq> 0 \<and> a \<noteq> root_node st0 then builder (vn_parent v0) b st0 else Some b) = Some q"
            "(let b = (if q \<noteq> [] \<and> last q \<noteq> 47 then q @ [47] else q) @ vn_name v0 in if length b \<ge> 2048 then None else Some b) = Some p"
            using body a0 v0 True by (auto simp: bind_eq_Some_conv)
          have "(if vn_parent v0 \<noteq> 0 \<and> a \<noteq> root_node st0 then recursive_path_builder (vn_parent v0) b st else Some b) = Some q"
            using q(1) up by (auto split: if_splits)
          then have "Option.bind (if vn_parent v \<noteq> 0 \<and> a \<noteq> root_node st then recursive_path_builder (vn_parent v) b st else Some b) (\<lambda>b.
              let b = (if b \<noteq> [] \<and> last b \<noteq> 47 then b @ [47] else b) @ vn_name v in if length b \<ge> 2048 then None else Some b) = Some p"
            unfolding f shape_fields(1) [OF s] using q(2) by simp
          then show ?thesis using a0 v(1) f(2) True by (subst recursive_path_builder.simps) simp
        qed
      qed
    qed
  qed
  then show ?thesis using s by blast
qed

lemma path_string_absolute: "path_string ns \<noteq> [] \<and> hd (path_string ns) = 47"
  by (cases ns) (simp_all add: path_string_def)

text \<open>C40: A defect: following a link with an absolute target gives back the reference to the directory of the link twice.
  Resolving a path that ends at the link /proc/self, whose target is the full path of the directory of the current
  task, returns this directory, but the directory that holds the link has one reference less than before.\<close>

theorem absolute_link_releases_twice:
  assumes "tree_ok st" "nodes st (root_node st) \<noteq> None" "tokens {PATH_SEPARATOR} pathname = ts @ [t]" "t \<noteq> dot" "t \<noteq> dotdot"
    and "leads st True True (root_node st) ts a" "nodes st a = Some v" "vn_type v = VDIR" "\<not> is_mounted v"
    and "siblings st (vn_children v) xs" "x \<in> set xs" "vn_name (vnode_at st x) = t"
    and "vn_type (vnode_at st x) = VLNK" "vn_ops (vnode_at st x) = Self_Link_Ops" "\<not> is_mounted (vnode_at st x)"
    and "proc_vfs_dir st \<noteq> 0" "below st ns (proc_vfs_dir st)" "length (path_string ns) < 2048" "vn_type (vnode_at st (proc_vfs_dir st)) \<noteq> VLNK"
    and "2 \<le> unat (vn_refs v)"
  shows "\<exists>st'. resolve_path drv pathname True True st = Some (proc_vfs_dir st, st') \<and>
    (\<forall>y w. nodes st y = Some w \<longrightarrow> refs st' y = refs st y + (if y = proc_vfs_dir st then 1 else 0) - (if y = a then 1 else 0))"
proof -
  define d where "d = proc_vfs_dir st"
  have x: "nodes st x = Some (vnode_at st x)" using siblings_nodes [OF assms(10,11)] by blast
  have u: "unat (one p q) \<le> 1" for p q by (simp add: one_def)
  obtain st0 where r: "resolve_path drv pathname True True st = resolve_path_recursion drv a [t] 0 True True st0" "held st st0 (one a)"
    using resolve_path_leads [where drv = drv and trailing = True and follow = True, OF assms(1-3)] assms(6) by auto
  obtain st1 st2 where e: "find_file drv a t st0 = Some (0, x, st1)" "cross_mount drv x st1 = Some (x, st2)" "held st st2 (\<lambda>y. one a y + one x y)"
    using enter_child [where drv = drv and b = x, OF assms(1) r(2) assms(7-12) _ x] assms(15) by auto
  obtain w2 where w2: "nodes st2 x = Some w2" "erased w2 = erased (vnode_at st x)" using held_node [OF e(3) x] by blast
  note wf = erased_fields(2,7,11) [OF w2(2)]
  have sh: "shape st2 = shape st" using e(3) by (simp add: held_def)
  have "proc_vfs_dir st2 = d" using shape_fields(2) [OF sh] by (simp add: d_def)
  moreover have "recursive_path_builder d [] st2 = Some (path_string ns)"
    using builder_shape [OF below_builder [OF assms(17,1,18)] sh] by (simp add: d_def)
  ultimately have link: "read_link drv x st2 = Some (Some (path_string ns), st2)"
    using w2(1) wf assms(13,14,16) tree_okD(1) [OF assms(1) x]
    by (subst read_link.simps) (simp add: procfs_read_link_def get_full_path_name_def d_def)
  obtain st3 where c3: "close_vnode drv x st2 = Some st3" "held st st3 (one a)" using close_one [OF assms(1) e(3) x] u [of a x] by auto
  then have "held st st3 (\<lambda>y. 0 + one a y)" by simp
  from close_one [OF assms(1) this assms(7)] obtain st4 where c4: "close_vnode drv a st3 = Some st4" "held st st4 (\<lambda>y. 0)" by auto
  have root3: "root_node st3 = root_node st" using c3(2) by (intro shape_fields(1)) (simp add: held_def)
  obtain rv where rv: "nodes st (root_node st) = Some rv" using assms(2) by blast
  obtain st5 where o: "open_vnode (root_node st) st4 = Some st5" "held st st5 (\<lambda>y. 0 + one (root_node st) y)"
    using open_one [OF assms(1) c4(2) rv] by auto
  then have h5: "held st st5 (one (root_node st))" by simp
  have t: "tokens {PATH_SEPARATOR} (path_string ns) = ns"
    using tokens_path_string [OF below_names [OF assms(17)]] by (simp add: PATH_SEPARATOR_def)
  have "leads st True ([] \<noteq> ([] :: u8 list list) \<or> True) (root_node st) ns d" using below_leads [OF assms(17,19)] by (simp add: d_def)
  from resolve_leads [OF this assms(1) h5 assms(2), of 1] obtain st6 where
    "resolve_path_recursion drv (root_node st) ns 1 True True st5 = resolve_path_recursion drv d [] 1 True True st6" "held st st6 (one d)"
    by (auto simp: MAX_SYMLINK_DEPTH_def)
  then have s6: "resolve_path_recursion drv (root_node st) ns 1 True True st5 = Some (d, st6)" "held st st6 (one d)"
    by (simp_all add: resolve_path_recursion.simps [of drv d "[]"] MAX_SYMLINK_DEPTH_def)
  have "vn_refs v + one d a \<noteq> 1"
  proof -
    have "unat (vn_refs v + one d a) = unat (vn_refs v) + unat (one d a)"
      using tree_okD(3) [OF assms(1,7)] u [of d a] by (simp add: unat_word_ariths)
    then show ?thesis using assms(20) by (metis add_leD1 not_less_eq_eq numeral_2_eq_2 One_nat_def order_refl trans_le_add1 unat_1)
  qed
  from close_held [OF s6(2) assms(7) this] obtain st7 where c7: "close_vnode drv a st6 = Some st7" "held st st7 ((one d)(a := one d a - 1))" by blast
  have ne: "t \<noteq> dotdot" "t \<noteq> dot" using assms(4,5) by simp_all
  have "resolve_path_recursion drv a [t] 0 True True st0 = resolve_path_recursion drv d [] 0 True True st7"
    using ne e(1,2) w2(1) wf(1) assms(13) link path_string_absolute [of ns] c3(1) c4(1) root3 o(1) t s6(1) c7(1) assms(16)
    by (subst resolve_path_recursion.simps) (simp add: MAX_SYMLINK_DEPTH_def d_def)
  then have "resolve_path drv pathname True True st = Some (d, st7)"
    unfolding r(1) by (simp add: resolve_path_recursion.simps [of drv d "[]"] MAX_SYMLINK_DEPTH_def)
  then show ?thesis using held_refs [OF c7(2)] by (auto simp: d_def one_def)
qed

subsection \<open>An example\<close>

text \<open>The tree /, /proc, /proc/self (the link) and /proc/7, the directory of the current task.\<close>

definition example_proc :: "u8 list" where "example_proc = [112, 114, 111, 99]"
definition example_self :: "u8 list" where "example_self = [115, 101, 108, 102]"
definition example_task :: "u8 list" where "example_task = [55]"

definition example_vnode :: "vnode_type \<Rightarrow> node_ops \<Rightarrow> u8 list \<Rightarrow> addr \<Rightarrow> addr \<Rightarrow> addr \<Rightarrow> vnode" where
  "example_vnode t ops name up kids sibling = (fresh_vnode t) \<lparr> vn_name := name, vn_refs := 2, virtual_file := True, vn_ops := ops,
     vn_parent := up, vn_children := kids, vn_next := sibling \<rparr>"

definition example_tree :: "unit vfs_state" where
  "example_tree = \<lparr> nodes = [16 \<mapsto> example_vnode VDIR Memfs_Ops [47] 0 32 0, 32 \<mapsto> example_vnode VDIR Memfs_Ops example_proc 16 48 0,
       48 \<mapsto> example_vnode VLNK Self_Link_Ops example_self 32 0 64, 64 \<mapsto> example_vnode VDIR Memfs_Ops example_task 32 0 0],
     mem_files = (\<lambda>_. None), heap_supply = [], root_node = 16, proc_vfs_dir = 64, drv_state = () \<rparr>"

definition no_driver :: "unit vfs_driver" where
  "no_driver = \<lparr> drv_read_link = None, drv_read_dir = None, drv_mkdir = None, drv_creat = None, drv_unlink = None, drv_rmdir = None,
     drv_cleanup = None, drv_mount = None \<rparr>"

lemma example_nodes:
  "nodes example_tree 16 = Some (example_vnode VDIR Memfs_Ops [47] 0 32 0)"
  "nodes example_tree 32 = Some (example_vnode VDIR Memfs_Ops example_proc 16 48 0)"
  "nodes example_tree 48 = Some (example_vnode VLNK Self_Link_Ops example_self 32 0 64)"
  "nodes example_tree 64 = Some (example_vnode VDIR Memfs_Ops example_task 32 0 0)"
  "root_node example_tree = 16" "proc_vfs_dir example_tree = 64" "nodes example_tree 0 = None"
  by (auto simp: example_tree_def split: if_splits)

lemma example_cases:
  "nodes example_tree a = Some v \<Longrightarrow> (a = 16 \<and> v = example_vnode VDIR Memfs_Ops [47] 0 32 0) \<or>
    (a = 32 \<and> v = example_vnode VDIR Memfs_Ops example_proc 16 48 0) \<or> (a = 48 \<and> v = example_vnode VLNK Self_Link_Ops example_self 32 0 64) \<or>
    (a = 64 \<and> v = example_vnode VDIR Memfs_Ops example_task 32 0 0)"
  by (auto simp: example_tree_def split: if_splits)

lemmas example_fields = example_vnode_def fresh_vnode_def vnode_at_def example_nodes example_proc_def example_self_def example_task_def
  dot_def dotdot_def

lemma example_lists:
  "siblings example_tree 32 [32]" "siblings example_tree 48 [48, 64]" "siblings example_tree 0 []"
  by (simp_all add: example_fields)

lemma example_tree_ok: "tree_ok example_tree"
proof -
  have "dir_ok example_tree 16 (example_vnode VDIR Memfs_Ops [47] 0 32 0)" unfolding dir_ok_def
    by (intro exI [of _ "[32]"]) (simp add: example_fields)
  moreover have "dir_ok example_tree 32 (example_vnode VDIR Memfs_Ops example_proc 16 48 0)" unfolding dir_ok_def
    by (intro exI [of _ "[48, 64]"]) (simp add: example_fields)
  moreover have "dir_ok example_tree 64 (example_vnode VDIR Memfs_Ops example_task 32 0 0)" unfolding dir_ok_def
    by (intro exI [of _ "[]"]) (simp add: example_fields)
  ultimately have "vn_real v = 0 \<and> 0 < unat (vn_refs v) \<and> unat (vn_refs v) < 4294967292 \<and> (vn_type v = VDIR \<longrightarrow> dir_ok example_tree a v)"
    if "nodes example_tree a = Some v" for a v
    using example_cases [OF that] by (elim disjE conjE) (simp_all add: example_vnode_def fresh_vnode_def)
  then show ?thesis by (simp add: tree_ok_def example_nodes)
qed

lemma example_below: "below example_tree [] 16" "below example_tree [example_proc] 32" "below example_tree [example_proc, example_task] 64"
proof -
  show 0: "below example_tree [] 16"
    using below.top [of example_tree] by (simp add: example_fields)
  have "below example_tree ([] @ [example_proc]) 32"
    by (rule below.kid [OF 0 example_nodes(1) _ _ _, of "[32]"]) (simp_all add: example_fields)
  then show 1: "below example_tree [example_proc] 32" by simp
  have "below example_tree ([example_proc] @ [example_task]) 64"
    by (rule below.kid [OF 1 example_nodes(2) _ _ _, of "[48, 64]"]) (simp_all add: example_fields)
  then show "below example_tree [example_proc, example_task] 64" by simp
qed

lemma example_proc_leads: "leads example_tree follow trailing 16 [example_proc] 32"
  by (rule leads_mono) (use below_leads [OF example_below(2)] in \<open>simp add: example_fields\<close>)


lemma example_tokens: "tokens {PATH_SEPARATOR} (path_string ns) = ns" if "\<forall>n \<in> set ns. n \<noteq> [] \<and> 47 \<notin> set n"
  using tokens_path_string [OF that] by (simp add: PATH_SEPARATOR_def)


lemma example_names: "\<forall>n \<in> {example_proc, example_self, example_task, dot, dotdot}. n \<noteq> [] \<and> 47 \<notin> set n"
  by (simp add: example_fields)


theorem failed_lookup_leaks_witness:
  "\<exists>st'. resolve_path no_driver (path_string [example_proc, example_proc]) True True example_tree = Some (0, st') \<and>
    refs st' 32 = refs example_tree 32 + 1"
proof -
  have "tokens {PATH_SEPARATOR} (path_string [example_proc, example_proc]) = [example_proc] @ example_proc # []"
    using example_names by (subst example_tokens) auto
  from failed_lookup_leaks [where drv = no_driver and follow = True and trailing = True and xs = "[48, 64]", OF example_tree_ok _ this _ _ _ example_nodes(2)] show ?thesis
    using example_proc_leads [of True True] example_lists by (auto simp: example_fields)
qed

theorem absolute_link_releases_twice_witness:
  "\<exists>st'. resolve_path no_driver (path_string [example_proc, example_self]) True True example_tree = Some (64, st') \<and>
    refs st' 32 = refs example_tree 32 - 1"
proof -
  have "tokens {PATH_SEPARATOR} (path_string [example_proc, example_self]) = [example_proc] @ [example_self]"
    using example_names by (subst example_tokens) auto
  from absolute_link_releases_twice [where drv = no_driver and xs = "[48, 64]" and x = 48 and ns = "[example_proc, example_task]",
      OF example_tree_ok _ this _ _ _ example_nodes(2)]
  show ?thesis
    using example_proc_leads [of True True] example_lists example_below(3) by (auto simp: example_fields path_string_def)
qed

end
