(* ===== verification/Ext2.thy ===== *)
theory Ext2
  imports Partitions
begin

text \<open>
  The second extended file system (filesystem/ext2): its structures on the disk, its state in memory, mounting, and
  the bitmaps from which blocks and inodes are allocated. The device is the argument \<open>blk\<close>; \<open>fresh n\<close> is what
  a block of \<open>n\<close> bytes from the heap holds. An access outside a buffer or outside the table of groups and a
  division by zero are \<open>None\<close>.
\<close>

subsection \<open>Packed structures\<close>

definition u16_at :: "u8 list \<Rightarrow> nat \<Rightarrow> u16" where "u16_at bs at = of_nat (le_nat (field bs at 2))"
definition u32_at :: "u8 list \<Rightarrow> nat \<Rightarrow> u32" where "u32_at bs at = of_nat (le_nat (field bs at 4))"
definition enc16 :: "u16 \<Rightarrow> u8 list" where "enc16 v = nat_bytes 2 (unat v)"
definition enc32 :: "u32 \<Rightarrow> u8 list" where "enc32 v = nat_bytes 4 (unat v)"

record ext2_superblock =
  total_inode_count :: u32
  total_block_count :: u32
  reserved_block_count :: u32
  unallocated_block_count :: u32
  unallocated_inode_count :: u32
  first_data_block :: u32
  log2_block_size :: u32
  log2_fragment_size :: u32
  blocks_per_block_group :: u32
  fragments_per_block_group :: u32
  inodes_per_block_group :: u32
  last_mount_time :: u32
  last_written_time :: u32
  mount_count :: u16
  consistency_check :: u16
  signature :: u16
  filesystem_state :: u16
  error_handling :: u16
  minor_version :: u16
  last_consistency_check_time :: u32
  force_consistency_check_interval :: u32
  creator_os_id :: u32
  major_version :: u32
  uid_rsv_blocks :: u16
  gid_rsv_blocks :: u16

definition superblock_bytes :: "ext2_superblock \<Rightarrow> u8 list" where
  "superblock_bytes s =
     enc32 (total_inode_count s) @ enc32 (total_block_count s) @ enc32 (reserved_block_count s) @
     enc32 (unallocated_block_count s) @ enc32 (unallocated_inode_count s) @ enc32 (first_data_block s) @
     enc32 (log2_block_size s) @ enc32 (log2_fragment_size s) @ enc32 (blocks_per_block_group s) @
     enc32 (fragments_per_block_group s) @ enc32 (inodes_per_block_group s) @ enc32 (last_mount_time s) @
     enc32 (last_written_time s) @ enc16 (mount_count s) @ enc16 (consistency_check s) @ enc16 (signature s) @
     enc16 (filesystem_state s) @ enc16 (error_handling s) @ enc16 (minor_version s) @
     enc32 (last_consistency_check_time s) @ enc32 (force_consistency_check_interval s) @
     enc32 (creator_os_id s) @ enc32 (major_version s) @ enc16 (uid_rsv_blocks s) @ enc16 (gid_rsv_blocks s)"

definition superblock_of :: "u8 list \<Rightarrow> ext2_superblock" where
  "superblock_of bs = \<lparr> total_inode_count = u32_at bs 0, total_block_count = u32_at bs 4,
     reserved_block_count = u32_at bs 8, unallocated_block_count = u32_at bs 12,
     unallocated_inode_count = u32_at bs 16, first_data_block = u32_at bs 20, log2_block_size = u32_at bs 24,
     log2_fragment_size = u32_at bs 28, blocks_per_block_group = u32_at bs 32,
     fragments_per_block_group = u32_at bs 36, inodes_per_block_group = u32_at bs 40,
     last_mount_time = u32_at bs 44, last_written_time = u32_at bs 48, mount_count = u16_at bs 52,
     consistency_check = u16_at bs 54, signature = u16_at bs 56, filesystem_state = u16_at bs 58,
     error_handling = u16_at bs 60, minor_version = u16_at bs 62, last_consistency_check_time = u32_at bs 64,
     force_consistency_check_interval = u32_at bs 68, creator_os_id = u32_at bs 72, major_version = u32_at bs 76,
     uid_rsv_blocks = u16_at bs 80, gid_rsv_blocks = u16_at bs 82 \<rparr>"

text \<open>The fields of the extended superblock that the code uses; it is read and never written.\<close>

record ext2_extended =
  first_non_reserved_inode :: u32
  inode_size :: u16
  required_features :: u32
  ro_features :: u32
  dir_block_preallocation_count :: u8

definition extended_of :: "u8 list \<Rightarrow> ext2_extended" where
  "extended_of bs = \<lparr> first_non_reserved_inode = u32_at bs 0, inode_size = u16_at bs 4,
     required_features = u32_at bs 12, ro_features = u32_at bs 16,
     dir_block_preallocation_count = of_nat (le_nat (field bs 121 1)) \<rparr>"

record ext2_group =
  block_of_block_usage_bitmap :: u32
  block_of_inode_usage_bitmap :: u32
  inode_table_block_address :: u32
  group_unallocated_block_count :: u16
  group_unallocated_inode_count :: u16
  directory_count :: u16
  group_rsv :: "u8 list"

definition group_bytes :: "ext2_group \<Rightarrow> u8 list" where
  "group_bytes g = enc32 (block_of_block_usage_bitmap g) @ enc32 (block_of_inode_usage_bitmap g) @
     enc32 (inode_table_block_address g) @ enc16 (group_unallocated_block_count g) @
     enc16 (group_unallocated_inode_count g) @ enc16 (directory_count g) @ group_rsv g"

definition group_of :: "u8 list \<Rightarrow> ext2_group" where
  "group_of bs = \<lparr> block_of_block_usage_bitmap = u32_at bs 0, block_of_inode_usage_bitmap = u32_at bs 4,
     inode_table_block_address = u32_at bs 8, group_unallocated_block_count = u16_at bs 12,
     group_unallocated_inode_count = u16_at bs 14, directory_count = u16_at bs 16, group_rsv = field bs 18 14 \<rparr>"

record ext2_inode =
  type_permissions :: u16
  owner_uid :: u16
  size_low :: u32
  last_access_time :: u32
  change_time :: u32
  last_modification_time :: u32
  deletion_time :: u32
  owner_gid :: u16
  hard_link_count :: u16
  sectors_used :: u32
  inode_flags :: u32
  inode_rsv :: u32
  direct_block_pointer :: "u32 list"
  single_indirect_block_pointer :: u32
  double_indirect_block_pointer :: u32
  triple_indirect_block_pointer :: u32
  generation_number :: u32
  extended_attribute_block :: u32
  size_upper :: u32
  fragment_block_address :: u32
  os_specific :: u32

definition inode_bytes :: "ext2_inode \<Rightarrow> u8 list" where
  "inode_bytes i =
     enc16 (type_permissions i) @ enc16 (owner_uid i) @ enc32 (size_low i) @ enc32 (last_access_time i) @
     enc32 (change_time i) @ enc32 (last_modification_time i) @ enc32 (deletion_time i) @ enc16 (owner_gid i) @
     enc16 (hard_link_count i) @ enc32 (sectors_used i) @ enc32 (inode_flags i) @ enc32 (inode_rsv i) @
     concat (map enc32 (direct_block_pointer i)) @ enc32 (single_indirect_block_pointer i) @
     enc32 (double_indirect_block_pointer i) @ enc32 (triple_indirect_block_pointer i) @
     enc32 (generation_number i) @ enc32 (extended_attribute_block i) @ enc32 (size_upper i) @
     enc32 (fragment_block_address i) @ enc32 (os_specific i)"

definition inode_of :: "u8 list \<Rightarrow> ext2_inode" where
  "inode_of bs = \<lparr> type_permissions = u16_at bs 0, owner_uid = u16_at bs 2, size_low = u32_at bs 4,
     last_access_time = u32_at bs 8, change_time = u32_at bs 12, last_modification_time = u32_at bs 16,
     deletion_time = u32_at bs 20, owner_gid = u16_at bs 24, hard_link_count = u16_at bs 26,
     sectors_used = u32_at bs 28, inode_flags = u32_at bs 32, inode_rsv = u32_at bs 36,
     direct_block_pointer = map (\<lambda>k. u32_at bs (40 + 4 * k)) [0..<12],
     single_indirect_block_pointer = u32_at bs 88, double_indirect_block_pointer = u32_at bs 92,
     triple_indirect_block_pointer = u32_at bs 96, generation_number = u32_at bs 100,
     extended_attribute_block = u32_at bs 104, size_upper = u32_at bs 108, fragment_block_address = u32_at bs 112,
     os_specific = u32_at bs 116 \<rparr>"

subsection \<open>State\<close>

record 'd ext2 =
  block_size :: u64
  block_group_count :: u64
  superblock :: ext2_superblock
  extended_superblock :: ext2_extended
  block_group_table :: "ext2_group list"
  mounted :: bool
  ref_count :: u32
  root_total_size :: u64
  root_used_size :: u64
  dev_state :: 'd

definition ENOSPC64 :: u64 where "ENOSPC64 = 28"
definition EIO64 :: u64 where "EIO64 = 5"
definition EINVAL64 :: u64 where "EINVAL64 = 22"
definition ENOENT64 :: u64 where "ENOENT64 = 2"

definition EXT2_SUPERBLOCK_OFFSET :: u64 where "EXT2_SUPERBLOCK_OFFSET = 1024"
definition EXT2_SIGNATURE :: u16 where "EXT2_SIGNATURE = 0xEF53"

definition block_to_offset :: "'d ext2 \<Rightarrow> u32 \<Rightarrow> u64" where
  "block_to_offset fs block = ucast block * block_size fs"

subsection \<open>Mounting\<close>

definition is_ext2 :: "'d blkdev \<Rightarrow> 'd \<Rightarrow> u8 list \<Rightarrow> bool" where
  "is_ext2 blk d sblock =
     (let (ret, got) = blk_read blk d EXT2_SUPERBLOCK_OFFSET 84
      in ret \<noteq> 0 \<and> signature (superblock_of (put_at sblock 0 got)) = EXT2_SIGNATURE)"

text \<open>The objects that the loads fill are the ones the constructor has allocated.\<close>

definition load_superblock :: "'d blkdev \<Rightarrow> 'd ext2 \<Rightarrow> bool \<times> 'd ext2" where
  "load_superblock blk fs =
     (let (ret, got) = blk_read blk (dev_state fs) EXT2_SUPERBLOCK_OFFSET 84
      in (ret = 84, fs \<lparr> superblock := superblock_of (put_at (superblock_bytes (superblock fs)) 0 got) \<rparr>))"

definition save_superblock :: "'d blkdev \<Rightarrow> 'd ext2 \<Rightarrow> bool \<times> 'd ext2" where
  "save_superblock blk fs =
     (let (ret, d) = blk_write blk (dev_state fs) EXT2_SUPERBLOCK_OFFSET 84 (superblock_bytes (superblock fs))
      in (ret = 84, fs \<lparr> dev_state := d \<rparr>))"

definition load_extended_superblock :: "'d blkdev \<Rightarrow> u8 list \<Rightarrow> 'd ext2 \<Rightarrow> bool \<times> 'd ext2" where
  "load_extended_superblock blk buf fs =
     (let (ret, got) = blk_read blk (dev_state fs) (EXT2_SUPERBLOCK_OFFSET + 84) 940
      in (ret = 940, fs \<lparr> extended_superblock := extended_of (put_at buf 0 got) \<rparr>))"

definition group_table_block :: "'d ext2 \<Rightarrow> u32" where
  "group_table_block fs = (if block_size fs = 1024 then 2 else 1)"

text \<open>The table is allocated when the first mount loads it; a later load fills the same block.\<close>

definition load_block_group_table :: "'d blkdev \<Rightarrow> (nat \<Rightarrow> u8 list) \<Rightarrow> 'd ext2 \<Rightarrow> (bool \<times> 'd ext2) option" where
  "load_block_group_table blk fresh fs =
     (let bpg = blocks_per_block_group (superblock fs) in
      if bpg = 0 then None
      else let count = ucast ((total_block_count (superblock fs) + (bpg - 1)) div bpg * bpg div bpg) :: u64;
               bytes = 32 * count;
               fs = fs \<lparr> block_group_count := count \<rparr>;
               buf = (if block_group_table fs = [] then fresh (unat bytes) else concat (map group_bytes (block_group_table fs)));
               (ret, got) = blk_read blk (dev_state fs) (block_to_offset fs (group_table_block fs)) bytes;
               buf = put_at buf 0 got
           in Some ((scast ret :: u64) = bytes,
                fs \<lparr> block_group_table := map (\<lambda>i. group_of (field buf (32 * i) 32)) [0..<unat count] \<rparr>))"

definition save_block_group_table :: "'d blkdev \<Rightarrow> 'd ext2 \<Rightarrow> bool \<times> 'd ext2" where
  "save_block_group_table blk fs =
     (let bytes = 32 * block_group_count fs;
          (ret, d) = blk_write blk (dev_state fs) (block_to_offset fs (group_table_block fs)) bytes
             (take (unat bytes) (concat (map group_bytes (block_group_table fs))))
      in ((scast ret :: u64) = bytes, fs \<lparr> dev_state := d \<rparr>))"

definition ext2_total_size :: "'d ext2 \<Rightarrow> u64" where
  "ext2_total_size fs = ucast (total_block_count (superblock fs)) * block_size fs"

definition ext2_used_space :: "'d ext2 \<Rightarrow> u64" where
  "ext2_used_space fs =
     ucast (total_block_count (superblock fs) - unallocated_block_count (superblock fs)) * block_size fs"

definition ext2_mount :: "'d blkdev \<Rightarrow> (nat \<Rightarrow> u8 list) \<Rightarrow> u32 \<Rightarrow> 'd ext2 \<Rightarrow> (bool \<times> 'd ext2) option" where
  "ext2_mount blk fresh now fs =
     (if mounted fs then Some (True, fs \<lparr> ref_count := ref_count fs + 1 \<rparr>)
      else let (ok, fs) = load_superblock blk fs in
        if \<not> ok then Some (False, fs)
        else if major_version (superblock fs) < 1 then Some (False, fs)
        else let (ok, fs) = load_extended_superblock blk (fresh 940) fs in
          if \<not> ok then Some (False, fs)
          else if required_features (extended_superblock fs) AND 5 \<noteq> 0 then Some (False, fs)
          else if unat (log2_block_size (superblock fs)) \<ge> 32 then None
          else let fs = fs \<lparr> block_size := scast (push_bit (unat (log2_block_size (superblock fs))) 1024 :: u32) \<rparr> in
            case load_block_group_table blk fresh fs of None \<Rightarrow> None
            | Some (ok, fs) \<Rightarrow>
              if \<not> ok then Some (False, fs)
              else let fs = fs \<lparr> superblock := superblock fs
                     \<lparr> last_mount_time := now, mount_count := mount_count (superblock fs) + 1 \<rparr> \<rparr>;
                       fs = snd (save_superblock blk fs);
                       fs = fs \<lparr> ref_count := 1, mounted := True \<rparr>
                   in Some (True, fs \<lparr> root_total_size := ext2_total_size fs, root_used_size := ext2_used_space fs \<rparr>))"

subsection \<open>Bitmaps\<close>

text \<open>Blocks and inodes have a bitmap in every group, and a count of the free ones in every group and in the
  superblock.\<close>

datatype bitmap_kind = Blocks | Inodes

definition group_free :: "bitmap_kind \<Rightarrow> ext2_group \<Rightarrow> u16" where
  "group_free k g = (case k of Blocks \<Rightarrow> group_unallocated_block_count g | Inodes \<Rightarrow> group_unallocated_inode_count g)"

definition group_bitmap :: "bitmap_kind \<Rightarrow> ext2_group \<Rightarrow> u32" where
  "group_bitmap k g = (case k of Blocks \<Rightarrow> block_of_block_usage_bitmap g | Inodes \<Rightarrow> block_of_inode_usage_bitmap g)"

definition per_group :: "bitmap_kind \<Rightarrow> 'd ext2 \<Rightarrow> u32" where
  "per_group k fs = (case k of Blocks \<Rightarrow> blocks_per_block_group (superblock fs) | Inodes \<Rightarrow> inodes_per_block_group (superblock fs))"

definition group_add :: "bitmap_kind \<Rightarrow> u32 \<Rightarrow> ext2_group \<Rightarrow> ext2_group" where
  "group_add k c g = (case k of
     Blocks \<Rightarrow> g \<lparr> group_unallocated_block_count := group_unallocated_block_count g + ucast c \<rparr>
   | Inodes \<Rightarrow> g \<lparr> group_unallocated_inode_count := group_unallocated_inode_count g + ucast c \<rparr>)"

definition superblock_add :: "bitmap_kind \<Rightarrow> u32 \<Rightarrow> ext2_superblock \<Rightarrow> ext2_superblock" where
  "superblock_add k c s = (case k of
     Blocks \<Rightarrow> s \<lparr> unallocated_block_count := unallocated_block_count s + c \<rparr>
   | Inodes \<Rightarrow> s \<lparr> unallocated_inode_count := unallocated_inode_count s + c \<rparr>)"

text \<open>The counts in memory change, then both structures go to the device.\<close>

definition count_free :: "'d blkdev \<Rightarrow> bitmap_kind \<Rightarrow> nat \<Rightarrow> u32 \<Rightarrow> 'd ext2 \<Rightarrow> 'd ext2" where
  "count_free blk k indx c fs =
     (let fs = fs \<lparr> block_group_table := (block_group_table fs)[indx := group_add k c (block_group_table fs ! indx)],
                    superblock := superblock_add k c (superblock fs) \<rparr>;
          fs = snd (save_block_group_table blk fs)
      in snd (save_superblock blk fs))"

text \<open>The bitmap is used as 32-bit words.\<close>

definition get_word :: "u8 list \<Rightarrow> nat \<Rightarrow> u32 option" where
  "get_word bm i = (if 4 * i + 4 \<le> length bm then Some (u32_at bm (4 * i)) else None)"

definition set_word :: "u8 list \<Rightarrow> nat \<Rightarrow> u32 \<Rightarrow> u8 list" where
  "set_word bm i w = put_at bm (4 * i) (enc32 w)"

definition bit_mask :: "nat \<Rightarrow> u32" where "bit_mask b = push_bit (b mod 32) 1"

text \<open>The first clear bit from \<open>b\<close> below \<open>n\<close>.\<close>

function first_zero :: "u8 list \<Rightarrow> nat \<Rightarrow> nat \<Rightarrow> nat option option" where
  "first_zero bm b n =
     (if b < n then
        case get_word bm (b div 32) of None \<Rightarrow> None
        | Some w \<Rightarrow> if w AND bit_mask b = 0 then Some (Some b) else first_zero bm (b + 1) n
      else Some None)"
  by pat_completeness auto
termination by (relation "measure (\<lambda>(bm, b, n). n - b)") auto

declare first_zero.simps [simp del]

definition mark_used :: "u8 list \<Rightarrow> nat \<Rightarrow> u8 list option" where
  "mark_used bm b = map_option (\<lambda>w. set_word bm (b div 32) (w OR bit_mask b)) (get_word bm (b div 32))"

definition bitmap_offset :: "bitmap_kind \<Rightarrow> 'd ext2 \<Rightarrow> nat \<Rightarrow> u64" where
  "bitmap_offset k fs indx = block_to_offset fs (group_bitmap k (block_group_table fs ! indx))"

text \<open>The search over groups, with the buffer that it goes on filling.\<close>

datatype 'd search = Not_Found "u8 list" | IO_Error "'d ext2" | Found nat nat "'d ext2"

primrec alloc_groups :: "'d blkdev \<Rightarrow> bitmap_kind \<Rightarrow> 'd ext2 \<Rightarrow> u8 list \<Rightarrow> nat list \<Rightarrow> 'd search option" where
  "alloc_groups blk k fs buf [] = Some (Not_Found buf)"
| "alloc_groups blk k fs buf (indx # is) =
     (if indx \<ge> length (block_group_table fs) then None
      else if group_free k (block_group_table fs ! indx) = 0 then alloc_groups blk k fs buf is
      else let (ret, got) = blk_read blk (dev_state fs) (bitmap_offset k fs indx) (block_size fs);
               buf = put_at buf 0 got in
        if ret <s 0 then Some (IO_Error fs)
        else case first_zero buf 0 (unat (per_group k fs)) of None \<Rightarrow> None
          | Some None \<Rightarrow> alloc_groups blk k fs buf is
          | Some (Some b) \<Rightarrow>
              Option.bind (mark_used buf b) (\<lambda>buf.
                let (ret, d) = blk_write blk (dev_state fs) (bitmap_offset k fs indx) (block_size fs) buf;
                    fs = fs \<lparr> dev_state := d \<rparr>
                in if ret <s 0 then Some (IO_Error fs) else Some (Found indx b (count_free blk k indx (- 1) fs))))"

text \<open>From the group asked for to the last, then from the first.\<close>

definition alloc_search :: "'d blkdev \<Rightarrow> (nat \<Rightarrow> u8 list) \<Rightarrow> bitmap_kind \<Rightarrow> 'd ext2 \<Rightarrow> u32 \<Rightarrow> 'd search option" where
  "alloc_search blk fresh k fs start_group =
     Option.bind (alloc_groups blk k fs (fresh (unat (block_size fs)))
         [unat start_group..<unat (ucast (block_group_count fs) :: u32)])
       (\<lambda>s. case s of Not_Found buf \<Rightarrow> alloc_groups blk k fs buf [0..<unat start_group] | _ \<Rightarrow> Some s)"

definition allocate_block :: "'d blkdev \<Rightarrow> (nat \<Rightarrow> u8 list) \<Rightarrow> 'd ext2 \<Rightarrow> u32 \<Rightarrow> (u64 \<times> 'd ext2) option" where
  "allocate_block blk fresh fs start_group =
     map_option (\<lambda>s. case s of
         Found indx b fs \<Rightarrow> (ucast (first_data_block (superblock fs)) + of_nat b +
             of_nat indx * ucast (blocks_per_block_group (superblock fs)), fs)
       | IO_Error fs \<Rightarrow> (- EIO64, fs)
       | Not_Found _ \<Rightarrow> (- ENOSPC64, fs)) (alloc_search blk fresh Blocks fs start_group)"

definition allocate_inode :: "'d blkdev \<Rightarrow> (nat \<Rightarrow> u8 list) \<Rightarrow> 'd ext2 \<Rightarrow> u32 \<Rightarrow> (u64 \<times> 'd ext2) option" where
  "allocate_inode blk fresh fs start_group =
     map_option (\<lambda>s. case s of
         Found indx b fs \<Rightarrow> (of_nat indx * ucast (inodes_per_block_group (superblock fs)) + of_nat b + 1, fs)
       | IO_Error fs \<Rightarrow> (- EIO64, fs)
       | Not_Found _ \<Rightarrow> (- ENOSPC64, fs)) (alloc_search blk fresh Inodes fs start_group)"

text \<open>Freeing takes only a result of 0 for an error of the device.\<close>

definition free_bit :: "'d blkdev \<Rightarrow> (nat \<Rightarrow> u8 list) \<Rightarrow> bitmap_kind \<Rightarrow> 'd ext2 \<Rightarrow> u32 \<Rightarrow> 'd ext2 option" where
  "free_bit blk fresh k fs real_index =
     (if per_group k fs = 0 then None
      else let indx = real_index div per_group k fs; rel = unat (real_index mod per_group k fs) in
        if ucast indx \<ge> block_group_count fs then Some fs
        else if unat indx \<ge> length (block_group_table fs) then None
        else let (ret, got) = blk_read blk (dev_state fs) (bitmap_offset k fs (unat indx)) (block_size fs);
                 buf = put_at (fresh (unat (block_size fs))) 0 got in
          if ret = 0 then Some fs
          else case get_word buf (rel div 32) of None \<Rightarrow> None
            | Some w \<Rightarrow>
                if w AND bit_mask rel \<noteq> 0
                then let (ret, d) = blk_write blk (dev_state fs) (bitmap_offset k fs (unat indx)) (block_size fs)
                           (set_word buf (rel div 32) (w AND NOT (bit_mask rel)));
                         fs = fs \<lparr> dev_state := d \<rparr>
                     in if ret = 0 then Some fs else Some (count_free blk k (unat indx) 1 fs)
                else Some fs)"

definition free_block :: "'d blkdev \<Rightarrow> (nat \<Rightarrow> u8 list) \<Rightarrow> 'd ext2 \<Rightarrow> u32 \<Rightarrow> 'd ext2 option" where
  "free_block blk fresh fs block =
     (if block \<le> first_data_block (superblock fs) then Some fs
      else free_bit blk fresh Blocks fs (block - first_data_block (superblock fs)))"

definition free_inode :: "'d blkdev \<Rightarrow> (nat \<Rightarrow> u8 list) \<Rightarrow> 'd ext2 \<Rightarrow> u32 \<Rightarrow> 'd ext2 option" where
  "free_inode blk fresh fs inode =
     (if inode < first_non_reserved_inode (extended_superblock fs) then Some fs
      else free_bit blk fresh Inodes fs (inode - 1))"

subsection \<open>Runs of blocks\<close>

text \<open>The longest run so far: its length, group and first bit. A run that is long enough ends the search (\<open>Inl\<close>).\<close>

type_synonym run = "nat \<times> nat \<times> nat"

function scan_runs :: "u8 list \<Rightarrow> nat \<Rightarrow> nat \<Rightarrow> nat \<Rightarrow> nat \<Rightarrow> bool \<Rightarrow> nat \<Rightarrow> nat \<Rightarrow> run \<Rightarrow> (run + run) option" where
  "scan_runs bm indx req b n inside_run run_start current_run best =
     (if b < n then
        case get_word bm (b div 32) of None \<Rightarrow> None
        | Some w \<Rightarrow>
            if w AND bit_mask b = 0 then
              let run_start = (if inside_run then run_start else b);
                  current_run = (if inside_run then current_run + 1 else 1)
              in if current_run = req then Some (Inl (req, indx, run_start))
                 else scan_runs bm indx req (b + 1) n True run_start current_run best
            else scan_runs bm indx req (b + 1) n False run_start 0
                   (if inside_run \<and> current_run > fst best then (current_run, indx, run_start) else best)
      else Some (Inr (if inside_run \<and> current_run > fst best then (current_run, indx, run_start) else best)))"
  by pat_completeness auto
termination by (relation "measure (\<lambda>(bm, indx, req, b, n, _). n - b)") auto

declare scan_runs.simps [simp del]

datatype run_search = Run "u8 list" run | Best "u8 list" run | Read_Error

primrec run_groups :: "'d blkdev \<Rightarrow> 'd ext2 \<Rightarrow> nat \<Rightarrow> u8 list \<Rightarrow> run \<Rightarrow> nat list \<Rightarrow> run_search option" where
  "run_groups blk fs req buf best [] = Some (Best buf best)"
| "run_groups blk fs req buf best (indx # is) =
     (if indx \<ge> length (block_group_table fs) then None
      else let free = unat (group_unallocated_block_count (block_group_table fs ! indx)) in
        if free = 0 then run_groups blk fs req buf best is
        else if free < fst best then run_groups blk fs req buf best is
        else let (ret, got) = blk_read blk (dev_state fs) (bitmap_offset Blocks fs indx) (block_size fs);
                 buf = put_at buf 0 got in
          if ret <s 0 then Some Read_Error
          else case scan_runs buf indx req 0 (unat (blocks_per_block_group (superblock fs))) False 0 0 best of
            None \<Rightarrow> None
          | Some (Inl r) \<Rightarrow> Some (Run buf r)
          | Some (Inr best) \<Rightarrow> run_groups blk fs req buf best is)"

primrec mark_run :: "u8 list \<Rightarrow> nat \<Rightarrow> nat \<Rightarrow> u8 list option" where
  "mark_run bm b 0 = Some bm"
| "mark_run bm b (Suc k) = Option.bind (mark_used bm b) (\<lambda>bm. mark_run bm (b + 1) k)"

definition perform_allocation ::
    "'d blkdev \<Rightarrow> u8 list \<Rightarrow> 'd ext2 \<Rightarrow> run \<Rightarrow> (u64 \<times> nat option \<times> 'd ext2) option" where
  "perform_allocation blk buf fs r =
     (case r of (len, indx, start) \<Rightarrow>
       if indx \<ge> length (block_group_table fs) then None
       else let (ret, got) = blk_read blk (dev_state fs) (bitmap_offset Blocks fs indx) (block_size fs);
                buf = put_at buf 0 got in
         if ret <s 0 then Some (- EIO64, None, fs)
         else Option.bind (mark_run buf start len) (\<lambda>buf.
           let (ret, d) = blk_write blk (dev_state fs) (bitmap_offset Blocks fs indx) (block_size fs) buf;
               fs = fs \<lparr> dev_state := d \<rparr> in
           if ret <s 0 then Some (- EIO64, None, fs)
           else let fs = count_free blk Blocks indx (- of_nat len) fs
                in Some (ucast (first_data_block (superblock fs)) + of_nat start +
                     of_nat indx * ucast (blocks_per_block_group (superblock fs)), Some len, fs)))"

text \<open>The second component is what goes to \<^verbatim>\<open>out_allocated_count\<close>.\<close>

definition allocate_blocks ::
    "'d blkdev \<Rightarrow> (nat \<Rightarrow> u8 list) \<Rightarrow> 'd ext2 \<Rightarrow> u32 \<Rightarrow> u32 \<Rightarrow> (u64 \<times> nat option \<times> 'd ext2) option" where
  "allocate_blocks blk fresh fs start_group requested_count =
     (if requested_count = 0 then Some (- EINVAL64, None, fs)
      else if requested_count > unallocated_block_count (superblock fs) then Some (- ENOSPC64, None, fs)
      else let req = unat (min requested_count (blocks_per_block_group (superblock fs))) in
        Option.bind (run_groups blk fs req (fresh (unat (block_size fs))) (0, 0, 0)
            [unat start_group..<unat (ucast (block_group_count fs) :: u32)])
          (\<lambda>s. Option.bind (case s of Best buf best \<Rightarrow> run_groups blk fs req buf best [0..<unat start_group] | _ \<Rightarrow> Some s)
            (\<lambda>s. case s of
               Run buf r \<Rightarrow> perform_allocation blk buf fs r
             | Read_Error \<Rightarrow> Some (- EIO64, None, fs)
             | Best buf best \<Rightarrow>
                 if fst best = 0 then Some (- ENOSPC64, None, fs) else perform_allocation blk buf fs best)))"

end
