(* ===== verification/Ext2_Alloc.thy ===== *)
theory Ext2_Alloc
  imports Ext2
begin

text \<open>
  The structures of ext2 survive the way to the disk and back, and the bitmaps are kept: an allocation takes the first free
  bit of the first group that has one and changes nothing else outside the counts, freeing the block brings the old
  bitmap and the old counts back, and a run of blocks is free, in one group, and the longest there is.
\<close>

subsection \<open>Packed structures\<close>

lemma length_enc [simp]: "length (enc16 v) = 2" "length (enc32 w) = 4"
  by (simp_all add: enc16_def enc32_def)

lemma u16_enc: "of_nat (le_nat (enc16 v)) = v"
  using le_nat_of_bytes [of "unat v" 2] unsigned_less [of v, where ?'a = nat] by (simp add: enc16_def)

lemma u32_enc: "of_nat (le_nat (enc32 v)) = v"
  using le_nat_of_bytes [of "unat v" 4] unsigned_less [of v, where ?'a = nat] by (simp add: enc32_def)

lemma nat_bytes_le_nat: "nat_bytes (length bs) (le_nat bs) = bs"
proof (induction bs)
  case (Cons b bs)
  have "unat b < 256" using unsigned_less [of b, where ?'a = nat] by simp
  then show ?case using Cons by (simp add: of_nat_unat)
qed simp

lemma enc32_u32: "at + 4 \<le> length bs \<Longrightarrow> enc32 (u32_at bs at) = field bs at 4"
  using nat_bytes_le_nat [of "field bs at 4"] le_nat_less [of "field bs at 4"]
  by (simp add: enc32_def u32_at_def field_def unat_of_nat)

lemma enc16_u16: "at + 2 \<le> length bs \<Longrightarrow> enc16 (u16_at bs at) = field bs at 2"
  using nat_bytes_le_nat [of "field bs at 2"] le_nat_less [of "field bs at 2"]
  by (simp add: enc16_def u16_at_def field_def unat_of_nat)

lemma field_skip: "length xs \<le> at \<Longrightarrow> field (xs @ ys) at n = field ys (at - length xs) n"
  by (simp add: field_def)

lemma field_here: "length xs = n \<Longrightarrow> field (xs @ ys) 0 n = xs"
  by (simp add: field_def)

lemma field_all: "length xs = n \<Longrightarrow> field xs 0 n = xs"
  by (simp add: field_def)

lemma field_drop: "j = k + n \<Longrightarrow> field bs k n @ drop j bs = drop k bs"
  by (simp add: field_def) (metis append_take_drop_id drop_drop add.commute)

lemma field_end: "length bs = k + n \<Longrightarrow> field bs k n = drop k bs"
  by (simp add: field_def)

lemma superblock_roundtrip: "superblock_of (superblock_bytes s) = s"
  by (simp add: superblock_of_def superblock_bytes_def u16_at_def u32_at_def field_skip field_here field_all u16_enc u32_enc)

lemma superblock_bytes_of: "length bs = 84 \<Longrightarrow> superblock_bytes (superblock_of bs) = bs"
  by (simp add: superblock_of_def superblock_bytes_def enc16_u16 enc32_u32 field_end [of bs 82] field_drop)

lemma length_superblock_bytes [simp]: "length (superblock_bytes s) = 84"
  by (simp add: superblock_bytes_def)

lemma length_group_bytes: "length (group_rsv g) = 14 \<Longrightarrow> length (group_bytes g) = 32"
  by (simp add: group_bytes_def)

lemma group_roundtrip: "length (group_rsv g) = 14 \<Longrightarrow> group_of (group_bytes g) = g"
  by (simp add: group_of_def group_bytes_def u16_at_def u32_at_def field_skip field_here field_all u16_enc u32_enc)

lemma group_bytes_of: "length bs = 32 \<Longrightarrow> group_bytes (group_of bs) = bs"
  by (simp add: group_of_def group_bytes_def enc16_u16 enc32_u32 field_end [of bs 18] field_drop)

lemma length_concat_enc32 [simp]: "length (concat (map enc32 ds)) = 4 * length ds"
  by (induction ds) simp_all

lemma field_concat_enc32: "k < length ds \<Longrightarrow> field (concat (map enc32 ds) @ r) (4 * k) 4 = enc32 (ds ! k)"
proof (induction ds arbitrary: k)
  case (Cons d ds)
  then show ?case by (cases k) (simp_all add: field_here field_skip)
qed simp

lemma concat_fields:
  "a + 4 * n \<le> length bs \<Longrightarrow> concat (map (\<lambda>k. field bs (a + 4 * k) 4) [0..<n]) = field bs a (4 * n)"
proof (induction n)
  case (Suc n)
  have "take (4 * n + 4) (drop a bs) = take (4 * n) (drop a bs) @ take 4 (drop (4 * n) (drop a bs))" by (rule take_add)
  then show ?case using Suc by (simp add: field_def add.commute)
qed (simp add: field_def)

lemma inode_roundtrip:
  assumes "length (direct_block_pointer i) = 12"
  shows "inode_of (inode_bytes i) = i"
proof -
  let ?ds = "direct_block_pointer i"
  have 1: "u32_at (concat (map enc32 ?ds) @ r) (4 * k) = ?ds ! k" if "k < 12" for k r
    using that assms by (simp add: u32_at_def field_concat_enc32 u32_enc)
  have "map (\<lambda>k. u32_at (inode_bytes i) (40 + 4 * k)) [0..<12] = ?ds"
  proof (rule nth_equalityI)
    fix k assume "k < length (map (\<lambda>k. u32_at (inode_bytes i) (40 + 4 * k)) [0..<12])"
    then have k: "k < 12" by simp
    show "map (\<lambda>k. u32_at (inode_bytes i) (40 + 4 * k)) [0..<12] ! k = ?ds ! k"
      using k 1 [OF k, unfolded u32_at_def] by (simp add: inode_bytes_def u32_at_def field_skip)
  qed (simp add: assms)
  then show ?thesis using assms
    by (simp add: inode_of_def)
      (simp add: inode_bytes_def u16_at_def u32_at_def field_skip field_here field_all u16_enc u32_enc)
qed

lemma inode_bytes_of:
  assumes "length bs = 120"
  shows "inode_bytes (inode_of bs) = bs"
proof -
  have "map (\<lambda>k. enc32 (u32_at bs (40 + 4 * k))) [0..<12] = map (\<lambda>k. field bs (40 + 4 * k) 4) [0..<12]"
    using assms by (intro map_cong refl) (simp add: enc32_u32)
  then have "concat (map enc32 (map (\<lambda>k. u32_at bs (40 + 4 * k)) [0..<12])) = field bs 40 48"
    unfolding map_map comp_def using concat_fields [of 40 12 bs] assms by (simp only: list.size) simp
  then show ?thesis using assms
    by (simp add: inode_of_def inode_bytes_def enc16_u16 enc32_u32 field_end [of bs 116] field_drop del: upt_rec_numeral)
qed

lemma length_inode_bytes: "length (direct_block_pointer i) = 12 \<Longrightarrow> length (inode_bytes i) = 120"
  by (simp add: inode_bytes_def)

subsection \<open>Bitmaps in a buffer\<close>

definition bm_bit :: "u8 list \<Rightarrow> nat \<Rightarrow> bool" where
  "bm_bit bm b \<longleftrightarrow> bit (u32_at bm (4 * (b div 32))) (b mod 32)"

lemma bit_mask_exp: "bit_mask b = 2 ^ (b mod 32)"
  by (simp add: bit_mask_def push_bit_eq_mult)

lemma and_bit_mask: "w AND bit_mask b = 0 \<longleftrightarrow> \<not> bit w (b mod 32)"
  by (simp add: bit_mask_exp and_exp_eq_0_iff_not_bit)

lemma bit_bit_mask: "bit (bit_mask b) k \<longleftrightarrow> k = b mod 32"
  using mod_less_divisor [of 32 b] by (auto simp: bit_mask_exp bit_exp_iff)

lemma field_put_at:
  assumes "at + length bs \<le> length buf" "at' + n \<le> at \<or> at + length bs \<le> at'"
  shows "field (put_at buf at bs) at' n = field buf at' n"
proof (rule nth_equalityI)
  show "length (field (put_at buf at bs) at' n) = length (field buf at' n)"
    using assms(1) by (simp add: field_def length_put_at)
next
  fix i assume "i < length (field (put_at buf at bs) at' n)"
  then have "i < n" "at' + i < length buf" using assms(1) by (auto simp: field_def length_put_at)
  then show "field (put_at buf at bs) at' n ! i = field buf at' n ! i"
    using assms by (auto simp: field_def length_put_at nth_put_at)
qed

lemma field_put_same: "at + length bs \<le> length buf \<Longrightarrow> field (put_at buf at bs) at (length bs) = bs"
  by (simp add: field_def put_at_def)

lemma u32_at_set_word:
  assumes "4 * i + 4 \<le> length bm"
  shows "u32_at (set_word bm i w) (4 * j) = (if j = i then w else u32_at bm (4 * j))"
proof (cases "j = i")
  case True
  then show ?thesis using field_put_same [of "4 * i" "enc32 w" bm] assms
    by (simp add: set_word_def u32_at_def u32_enc)
next
  case False
  then have "4 * j + 4 \<le> 4 * i \<or> 4 * i + 4 \<le> 4 * j" by linarith
  then show ?thesis using field_put_at [of "4 * i" "enc32 w" bm "4 * j" 4] assms False
    by (simp add: set_word_def u32_at_def)
qed

lemma length_set_word [simp]: "4 * i + 4 \<le> length bm \<Longrightarrow> length (set_word bm i w) = length bm"
  by (simp add: set_word_def length_put_at)

lemma set_word_set_word: "4 * i + 4 \<le> length bm \<Longrightarrow> set_word (set_word bm i v) i w = set_word bm i w"
  by (simp add: set_word_def put_at_def)

lemma set_word_same: "4 * i + 4 \<le> length bm \<Longrightarrow> set_word bm i (u32_at bm (4 * i)) = bm"
  by (simp add: set_word_def enc32_u32 put_at_def field_def) (metis append_take_drop_id drop_drop add.commute take_add)

lemma same_word: "(a div 32 = b div 32 \<and> a mod 32 = b mod 32) = (a = (b :: nat))"
  by (metis div_mult_mod_eq)

lemma bm_bit_set_word:
  assumes "4 * (b div 32) + 4 \<le> length bm"
  shows "bm_bit (set_word bm (b div 32) w) c = (if c div 32 = b div 32 then bit w (c mod 32) else bm_bit bm c)"
  using assms by (simp add: bm_bit_def u32_at_set_word)

text \<open>A bit below 8 times the length of a buffer of whole words lies in it.\<close>

lemma word_in:
  assumes "b < 8 * length bm" "4 dvd length bm"
  shows "4 * (b div 32) + 4 \<le> length bm"
proof -
  obtain k where k: "length bm = 4 * k" using assms(2) by (elim dvdE)
  then have "b div 32 < k" using assms(1) by (intro less_mult_imp_div_less) simp
  then show ?thesis using k by simp
qed

lemma mark_used_bit:
  assumes "b < 8 * length bm" "4 dvd length bm"
  shows "\<exists>bm'. mark_used bm b = Some bm' \<and> length bm' = length bm \<and> (\<forall>c. bm_bit bm' c \<longleftrightarrow> c = b \<or> bm_bit bm c) \<and>
    bm' = set_word bm (b div 32) (u32_at bm (4 * (b div 32)) OR bit_mask b)"
proof -
  note in_bm = word_in [OF assms]
  have "bm_bit (set_word bm (b div 32) (u32_at bm (4 * (b div 32)) OR bit_mask b)) c \<longleftrightarrow> c = b \<or> bm_bit bm c" for c
    unfolding bm_bit_set_word [OF in_bm] using same_word [of c b] by (auto simp: bit_or_iff bit_bit_mask bm_bit_def)
  then show ?thesis using in_bm by (simp add: mark_used_def get_word_def)
qed

lemma clear_bit:
  assumes "b < 8 * length bm" "4 dvd length bm"
  shows "bm_bit (set_word bm (b div 32) (u32_at bm (4 * (b div 32)) AND NOT (bit_mask b))) c \<longleftrightarrow> c \<noteq> b \<and> bm_bit bm c"
  unfolding bm_bit_set_word [OF word_in [OF assms]] using same_word [of c b]
  by (auto simp: bit_and_iff bit_not_iff bit_bit_mask bm_bit_def)

lemma mark_clear:
  assumes "b < 8 * length bm" "4 dvd length bm" "\<not> bm_bit bm b" "mark_used bm b = Some bm'"
  shows "set_word bm' (b div 32) (u32_at bm' (4 * (b div 32)) AND NOT (bit_mask b)) = bm"
proof -
  note in_bm = word_in [OF assms(1,2)]
  let ?w = "u32_at bm (4 * (b div 32))"
  have bm': "bm' = set_word bm (b div 32) (?w OR bit_mask b)"
    using mark_used_bit [OF assms(1,2)] assms(4) by simp
  have "(?w OR bit_mask b) AND NOT (bit_mask b) = ?w"
    using assms(3) by (intro bit_eqI) (auto simp: bit_and_iff bit_or_iff bit_not_iff bit_bit_mask bm_bit_def)
  then show ?thesis
    by (simp add: bm' u32_at_set_word in_bm set_word_set_word set_word_same)
qed

lemma first_zero_finds:
  assumes "n \<le> 8 * length bm" "4 dvd length bm"
  shows "\<exists>r. first_zero bm b n = Some r \<and> (case r of None \<Rightarrow> \<forall>c. b \<le> c \<and> c < n \<longrightarrow> bm_bit bm c
    | Some x \<Rightarrow> b \<le> x \<and> x < n \<and> \<not> bm_bit bm x \<and> (\<forall>c. b \<le> c \<and> c < x \<longrightarrow> bm_bit bm c))"
  using assms(1)
proof (induction "n - b" arbitrary: b)
  case 0
  then show ?case by (subst first_zero.simps) auto
next
  case (Suc k)
  then have b: "b < n" "4 * (b div 32) + 4 \<le> length bm" using word_in [OF _ assms(2)] by auto
  show ?case
  proof (cases "bm_bit bm b")
    case False
    then have "first_zero bm b n = Some (Some b)"
      using b by (subst first_zero.simps) (simp add: get_word_def and_bit_mask bm_bit_def)
    then show ?thesis using b False by (intro exI [of _ "Some b"]) auto
  next
    case True
    have "k = n - (b + 1)" using Suc.hyps(2) by simp
    from Suc.hyps(1) [OF this Suc.prems] obtain r where r: "first_zero bm (b + 1) n = Some r"
      "case r of None \<Rightarrow> \<forall>c. b + 1 \<le> c \<and> c < n \<longrightarrow> bm_bit bm c
      | Some x \<Rightarrow> b + 1 \<le> x \<and> x < n \<and> \<not> bm_bit bm x \<and> (\<forall>c. b + 1 \<le> c \<and> c < x \<longrightarrow> bm_bit bm c)" by blast
    have "first_zero bm b n = Some r"
      using b True r(1) by (subst first_zero.simps) (simp add: get_word_def and_bit_mask bm_bit_def)
    moreover have "bm_bit bm c" if "b \<le> c" "b + 1 \<le> c \<longrightarrow> bm_bit bm c" for c
      using that True by (cases "c = b") auto
    ultimately show ?thesis using r(2) by (intro exI [of _ r]) (auto split: option.splits)
  qed
qed

subsection \<open>A volume on a device\<close>

definition bsz :: "'d ext2 \<Rightarrow> nat" where "bsz fs = unat (block_size fs)"
definition ngroups :: "'d ext2 \<Rightarrow> nat" where "ngroups fs = unat (block_group_count fs)"
definition bitmap_at :: "bitmap_kind \<Rightarrow> 'd ext2 \<Rightarrow> nat \<Rightarrow> nat" where
  "bitmap_at k fs g = unat (group_bitmap k (block_group_table fs ! g))"

definition block_region :: "'d ext2 \<Rightarrow> nat \<Rightarrow> nat set" where
  "block_region fs x = {x * bsz fs..<x * bsz fs + bsz fs}"

definition block_bytes :: "('d \<Rightarrow> nat \<Rightarrow> u8) \<Rightarrow> 'd ext2 \<Rightarrow> nat \<Rightarrow> u8 list" where
  "block_bytes byte fs x = map (byte (dev_state fs)) [x * bsz fs..<x * bsz fs + bsz fs]"

definition used_bit :: "('d \<Rightarrow> nat \<Rightarrow> u8) \<Rightarrow> bitmap_kind \<Rightarrow> 'd ext2 \<Rightarrow> nat \<Rightarrow> nat \<Rightarrow> bool" where
  "used_bit byte k fs g b = bm_bit (block_bytes byte fs (bitmap_at k fs g)) b"

text \<open>The superblock and the table of groups on the device.\<close>

definition gdt_at :: "'d ext2 \<Rightarrow> nat" where "gdt_at fs = unat (group_table_block fs) * bsz fs"

definition tables_region :: "'d ext2 \<Rightarrow> nat set" where
  "tables_region fs = {1024..<1108} \<union> {gdt_at fs..<gdt_at fs + 32 * ngroups fs}"

definition clear_of_tables :: "nat \<Rightarrow> 'd ext2 \<Rightarrow> nat \<Rightarrow> bool" where
  "clear_of_tables n fs x \<longleftrightarrow> x * bsz fs + bsz fs \<le> n \<and> (1108 \<le> x * bsz fs \<or> x * bsz fs + bsz fs \<le> 1024) \<and>
     (x * bsz fs + bsz fs \<le> gdt_at fs \<or> gdt_at fs + 32 * ngroups fs \<le> x * bsz fs)"

text \<open>What does not change while the volume is mounted.\<close>

definition geo where
  "geo fs = (block_size fs, block_group_count fs, extended_superblock fs,
     superblock fs \<lparr> unallocated_block_count := 0, unallocated_inode_count := 0 \<rparr>,
     map (\<lambda>g. g \<lparr> group_unallocated_block_count := 0, group_unallocated_inode_count := 0 \<rparr>) (block_group_table fs))"

definition ext2_ok :: "nat \<Rightarrow> 'd ext2 \<Rightarrow> bool" where
  "ext2_ok n fs \<longleftrightarrow> length (block_group_table fs) = ngroups fs \<and> ngroups fs < 134217728 \<and>
     (\<forall>g \<in> set (block_group_table fs). length (group_rsv g) = 14) \<and>
     1024 dvd bsz fs \<and> 1024 \<le> bsz fs \<and> bsz fs \<le> 65536 \<and> n < 18446744073709551616 \<and> 1108 \<le> n \<and> gdt_at fs + 32 * ngroups fs \<le> n \<and>
     (\<forall>k. 0 < unat (per_group k fs) \<and> unat (per_group k fs) \<le> 8 * bsz fs) \<and>
     unat (first_data_block (superblock fs)) + ngroups fs * unat (per_group Blocks fs) < 4294967296 \<and>
     ngroups fs * unat (per_group Inodes fs) < 4294967295 \<and>
     (\<forall>k. \<forall>g<ngroups fs. clear_of_tables n fs (bitmap_at k fs g)) \<and>
     (\<forall>k k'. \<forall>g<ngroups fs. \<forall>g'<ngroups fs. bitmap_at k fs g = bitmap_at k' fs g' \<longrightarrow> k = k' \<and> g = g')"

lemma nth_geo:
  assumes "geo fs' = geo fs" "g < length (block_group_table fs)"
  shows "group_bitmap k (block_group_table fs' ! g) = group_bitmap k (block_group_table fs ! g) \<and>
    inode_table_block_address (block_group_table fs' ! g) = inode_table_block_address (block_group_table fs ! g) \<and>
    group_rsv (block_group_table fs' ! g) = group_rsv (block_group_table fs ! g)"
proof -
  let ?f = "\<lambda>g. g \<lparr> group_unallocated_block_count := 0, group_unallocated_inode_count := 0 \<rparr>"
  have m: "map ?f (block_group_table fs') = map ?f (block_group_table fs)" using assms(1) by (simp add: geo_def)
  then have len: "length (block_group_table fs') = length (block_group_table fs)" by (rule map_eq_imp_length_eq)
  have "map ?f (block_group_table fs') ! g = map ?f (block_group_table fs) ! g" by (simp only: m)
  then have "?f (block_group_table fs' ! g) = ?f (block_group_table fs ! g)" using len assms(2) by (simp only: nth_map)
  from arg_cong [OF this, of block_of_block_usage_bitmap] arg_cong [OF this, of block_of_inode_usage_bitmap]
    arg_cong [OF this, of inode_table_block_address] arg_cong [OF this, of group_rsv]
  show ?thesis by (simp add: group_bitmap_def split: bitmap_kind.split)
qed

lemma geoD:
  assumes "geo fs' = geo fs"
  shows "block_size fs' = block_size fs" "block_group_count fs' = block_group_count fs" "bsz fs' = bsz fs"
    "ngroups fs' = ngroups fs" "extended_superblock fs' = extended_superblock fs" "per_group k fs' = per_group k fs"
    "first_data_block (superblock fs') = first_data_block (superblock fs)"
    "length (block_group_table fs') = length (block_group_table fs)" "gdt_at fs' = gdt_at fs"
    "block_to_offset fs' x = block_to_offset fs x" "block_region fs' = block_region fs" "tables_region fs' = tables_region fs"
    "clear_of_tables n fs' = clear_of_tables n fs"
proof -
  have *: "block_size fs' = block_size fs" "block_group_count fs' = block_group_count fs"
    "extended_superblock fs' = extended_superblock fs"
    "superblock fs' \<lparr> unallocated_block_count := 0, unallocated_inode_count := 0 \<rparr> =
     superblock fs \<lparr> unallocated_block_count := 0, unallocated_inode_count := 0 \<rparr>"
    using assms by (simp_all add: geo_def)
  then show "block_size fs' = block_size fs" "block_group_count fs' = block_group_count fs" "bsz fs' = bsz fs"
    "ngroups fs' = ngroups fs" "extended_superblock fs' = extended_superblock fs"
    "gdt_at fs' = gdt_at fs" "block_to_offset fs' x = block_to_offset fs x"
    "block_region fs' = block_region fs" "tables_region fs' = tables_region fs" "clear_of_tables n fs' = clear_of_tables n fs"
    by (simp_all add: bsz_def ngroups_def gdt_at_def group_table_block_def block_to_offset_def block_region_def
      tables_region_def clear_of_tables_def fun_eq_iff)
  show "per_group k fs' = per_group k fs" "first_data_block (superblock fs') = first_data_block (superblock fs)"
    using arg_cong [OF *(4), of blocks_per_block_group] arg_cong [OF *(4), of inodes_per_block_group]
      arg_cong [OF *(4), of first_data_block] by (simp_all add: per_group_def split: bitmap_kind.split)
  have "map (\<lambda>g. g \<lparr> group_unallocated_block_count := 0, group_unallocated_inode_count := 0 \<rparr>) (block_group_table fs') =
      map (\<lambda>g. g \<lparr> group_unallocated_block_count := 0, group_unallocated_inode_count := 0 \<rparr>) (block_group_table fs)"
    using assms by (simp add: geo_def)
  then show "length (block_group_table fs') = length (block_group_table fs)" by (rule map_eq_imp_length_eq)
qed

lemma bitmap_at_geo: "geo fs' = geo fs \<Longrightarrow> g < length (block_group_table fs) \<Longrightarrow> bitmap_at k fs' g = bitmap_at k fs g"
  using nth_geo [of fs' fs g k] by (simp add: bitmap_at_def)

lemma ext2_ok_geo: "geo fs' = geo fs \<Longrightarrow> ext2_ok n fs \<Longrightarrow> ext2_ok n fs'"
proof -
  assume g: "geo fs' = geo fs" and ok: "ext2_ok n fs"
  note eqs = geoD [OF g]
  have len: "length (block_group_table fs) = ngroups fs" using ok by (simp add: ext2_ok_def)
  have "length (group_rsv x) = 14" if "x \<in> set (block_group_table fs')" for x
    using that nth_geo [OF g] ok eqs(8) by (metis ext2_ok_def in_set_conv_nth)
  moreover have "bitmap_at k fs' x = bitmap_at k fs x" if "x < ngroups fs" for k x
    using bitmap_at_geo [OF g] that len by simp
  ultimately show "ext2_ok n fs'" using ok eqs unfolding ext2_ok_def by auto
qed

lemma ext2_okD:
  assumes "ext2_ok n fs"
  shows "length (block_group_table fs) = ngroups fs" "ngroups fs < 134217728" "4 dvd bsz fs" "1024 \<le> bsz fs"
    "bsz fs \<le> 65536" "n < 18446744073709551616" "1108 \<le> n" "gdt_at fs + 32 * ngroups fs \<le> n" "0 < unat (per_group k fs)"
    "unat (per_group k fs) \<le> 8 * bsz fs" "g < ngroups fs \<Longrightarrow> clear_of_tables n fs (bitmap_at k fs g)"
    "g < ngroups fs \<Longrightarrow> g' < ngroups fs \<Longrightarrow> bitmap_at k fs g = bitmap_at k' fs g' \<Longrightarrow> k = k' \<and> g = g'"
    "unat (first_data_block (superblock fs)) + ngroups fs * unat (per_group Blocks fs) < 4294967296"
    "g < ngroups fs \<Longrightarrow> length (group_rsv (block_group_table fs ! g)) = 14"
    "ngroups fs * unat (per_group Inodes fs) < 4294967295"
  using assms dvd_trans [of 4 1024 "bsz fs"] by (simp_all add: ext2_ok_def)

subsection \<open>Changing a bitmap\<close>

text \<open>The bytes outside a region.\<close>

definition keeps_outside :: "('d \<Rightarrow> nat \<Rightarrow> u8) \<Rightarrow> nat \<Rightarrow> 'd ext2 \<Rightarrow> 'd ext2 \<Rightarrow> nat set \<Rightarrow> bool" where
  "keeps_outside byte n fs fs' X \<longleftrightarrow> (\<forall>i<n. i \<notin> X \<longrightarrow> byte (dev_state fs') i = byte (dev_state fs) i)"

lemma keeps_outside_trans:
  "keeps_outside byte n fs fs1 X \<Longrightarrow> keeps_outside byte n fs1 fs2 Y \<Longrightarrow> keeps_outside byte n fs fs2 (X \<union> Y)"
  by (simp add: keeps_outside_def)

lemma keeps_outside_mono: "keeps_outside byte n fs fs' X \<Longrightarrow> X \<subseteq> Y \<Longrightarrow> keeps_outside byte n fs fs' Y"
  by (auto simp: keeps_outside_def)

lemma block_bytes_kept:
  assumes "keeps_outside byte n fs fs' X" "block_size fs' = block_size fs" "block_region fs x \<inter> X = {}" "x * bsz fs + bsz fs \<le> n"
  shows "block_bytes byte fs' x = block_bytes byte fs x"
proof -
  have b: "bsz fs' = bsz fs" using assms(2) by (simp add: bsz_def)
  have "byte (dev_state fs') i = byte (dev_state fs) i" if "x * bsz fs \<le> i" "i < x * bsz fs + bsz fs" for i
    using that assms(1,3,4) unfolding keeps_outside_def block_region_def by (metis atLeastLessThan_iff disjoint_iff less_le_trans)
  then show ?thesis by (simp add: block_bytes_def b)
qed

lemma length_block_bytes [simp]: "length (block_bytes byte fs x) = bsz fs"
  by (simp add: block_bytes_def)

lemma regions_apart: "x \<noteq> y \<Longrightarrow> block_region fs x \<inter> block_region fs y = {}"
proof -
  have *: "x * bsz fs + bsz fs \<le> y * bsz fs" if "x < y" for x y
  proof -
    have "Suc x * bsz fs \<le> y * bsz fs" using that by (intro mult_right_mono) simp_all
    then show ?thesis by simp
  qed
  assume "x \<noteq> y"
  then show ?thesis using *[of x y] *[of y x] by (cases "x < y") (auto simp: block_region_def)
qed

lemma clear_region: "clear_of_tables n fs x \<Longrightarrow> block_region fs x \<inter> tables_region fs = {}"
  by (auto simp: clear_of_tables_def block_region_def tables_region_def)

lemma length_table_bytes:
  "\<forall>g \<in> set gs. length (group_rsv g) = 14 \<Longrightarrow> length (concat (map group_bytes gs)) = 32 * length gs"
  by (induction gs) (simp_all add: length_group_bytes)

lemma unat_block_to_offset:
  assumes "ext2_ok n fs"
  shows "unat (block_to_offset fs x) = unat x * bsz fs"
proof -
  have "unat x * bsz fs \<le> 4294967295 * 65536"
    using unat_lt32 [of x] ext2_okD(5) [OF assms] by (intro mult_le_mono) simp_all
  then show ?thesis by (subst block_to_offset_def, subst unat_mul64) (simp_all add: bsz_def)
qed

text \<open>The copies of the superblock and the table on the device are those in memory.\<close>

definition synced :: "('d \<Rightarrow> nat \<Rightarrow> u8) \<Rightarrow> 'd ext2 \<Rightarrow> bool" where
  "synced byte fs \<longleftrightarrow> map (byte (dev_state fs)) [1024..<1108] = superblock_bytes (superblock fs) \<and>
     map (byte (dev_state fs)) [gdt_at fs..<gdt_at fs + 32 * ngroups fs] = concat (map group_bytes (block_group_table fs))"

lemma geo_dev [simp]: "geo (fs \<lparr> dev_state := d \<rparr>) = geo fs"
  by (simp add: geo_def)

lemmas geo_dev_simps [simp] = geoD [OF geo_dev]

lemma gdt_at_lower:
  assumes "ext2_ok n fs"
  shows "2048 \<le> gdt_at fs"
proof -
  obtain k where k: "bsz fs = 1024 * k" using assms by (auto simp: ext2_ok_def elim: dvdE)
  show ?thesis
  proof (cases "k = 1")
    case True
    then have "unat (block_size fs) = unat (1024 :: u64)" using k by (simp add: bsz_def)
    then have "block_size fs = 1024" by (simp only: word_unat_eq_iff)
    then show ?thesis using k True by (simp add: gdt_at_def group_table_block_def)
  next
    case False
    have "bsz fs \<noteq> 0" using ext2_okD(4) [OF assms] by simp
    then have "2 \<le> k" using k False by (cases k) auto
    then show ?thesis using k by (simp add: gdt_at_def group_table_block_def)
  qed
qed

definition counted :: "bitmap_kind \<Rightarrow> nat \<Rightarrow> u32 \<Rightarrow> 'd ext2 \<Rightarrow> 'd ext2" where
  "counted k g c fs = fs \<lparr> block_group_table := (block_group_table fs)[g := group_add k c (block_group_table fs ! g)],
     superblock := superblock_add k c (superblock fs) \<rparr>"

lemma geo_counted: "geo (counted k g c fs) = geo fs"
proof -
  let ?f = "\<lambda>g. g \<lparr> group_unallocated_block_count := 0, group_unallocated_inode_count := 0 \<rparr>"
  have 1: "?f (group_add k c x) = ?f x" for x by (simp add: group_add_def split: bitmap_kind.split)
  have "map ?f ((block_group_table fs)[g := group_add k c (block_group_table fs ! g)]) = map ?f (block_group_table fs)"
  proof (cases "g < length (block_group_table fs)")
    case True
    then show ?thesis by (simp add: map_update 1 list_update_same_conv)
  qed (simp add: list_update_beyond)
  moreover have "superblock_add k c s \<lparr> unallocated_block_count := 0, unallocated_inode_count := 0 \<rparr> =
      s \<lparr> unallocated_block_count := 0, unallocated_inode_count := 0 \<rparr>" for s
    by (simp add: superblock_add_def split: bitmap_kind.split)
  ultimately show ?thesis by (simp add: geo_def counted_def)
qed

lemma counted_dev [simp]: "dev_state (counted k g c fs) = dev_state fs" "counted k g c (fs \<lparr> dev_state := d \<rparr>) = counted k g c fs \<lparr> dev_state := d \<rparr>"
  by (simp_all add: counted_def)

text \<open>One bitmap has become \<open>bm\<close>, the count of its free bits has changed by \<open>c\<close>, and nothing else has.\<close>

definition bitmap_replaced :: "('d \<Rightarrow> nat \<Rightarrow> u8) \<Rightarrow> nat \<Rightarrow> bitmap_kind \<Rightarrow> nat \<Rightarrow> u8 list \<Rightarrow> u32 \<Rightarrow> 'd ext2 \<Rightarrow> 'd ext2 \<Rightarrow> bool" where
  "bitmap_replaced byte n k g bm c fs fs' \<longleftrightarrow> fs' = counted k g c fs \<lparr> dev_state := dev_state fs' \<rparr> \<and> synced byte fs' \<and>
     keeps_outside byte n fs fs' (tables_region fs \<union> block_region fs (bitmap_at k fs g)) \<and>
     block_bytes byte fs' (bitmap_at k fs g) = bm"

lemma bitmap_replaced_geo:
  assumes "bitmap_replaced byte n k g bm c fs fs'"
  shows "geo fs' = geo fs"
proof -
  have "geo fs' = geo (counted k g c fs \<lparr> dev_state := dev_state fs' \<rparr>)"
    using assms unfolding bitmap_replaced_def by (intro arg_cong [of fs' _ geo]) blast
  then show ?thesis by (simp add: geo_counted)
qed

lemma bitmap_replaced_bits:
  assumes rep: "bitmap_replaced byte n k g bm c fs fs'" and ok: "ext2_ok n fs" and g: "g < ngroups fs" "g' < ngroups fs"
  shows "used_bit byte k' fs' g' b = (if k' = k \<and> g' = g then bm_bit bm b else used_bit byte k' fs g' b)"
proof -
  note geo' = bitmap_replaced_geo [OF rep]
  have at: "bitmap_at k' fs' g' = bitmap_at k' fs g'"
    using bitmap_at_geo [OF geo'] ext2_okD(1) [OF ok] g by simp
  show ?thesis
  proof (cases "k' = k \<and> g' = g")
    case True
    then show ?thesis using rep at by (simp add: used_bit_def bitmap_replaced_def)
  next
    case False
    then have ne: "bitmap_at k' fs g' \<noteq> bitmap_at k fs g"
      using ext2_okD(12) [OF ok g(2,1), of k' k] by blast
    note clear = ext2_okD(11) [OF ok g(2), of k']
    have "block_region fs (bitmap_at k' fs g') \<inter> (tables_region fs \<union> block_region fs (bitmap_at k fs g)) = {}"
      using clear_region [OF clear] regions_apart [OF ne] by blast
    moreover have "bitmap_at k' fs g' * bsz fs + bsz fs \<le> n" using clear by (simp add: clear_of_tables_def)
    ultimately have "block_bytes byte fs' (bitmap_at k' fs g') = block_bytes byte fs (bitmap_at k' fs g')"
      using rep geoD(1) [OF geo'] by (intro block_bytes_kept) (auto simp: bitmap_replaced_def)
    then show ?thesis using False by (simp add: used_bit_def at) blast
  qed
qed

lemma device_result:
  assumes "ext2_ok n fs"
  shows "\<not> (ucast (block_size fs) :: u32) <s 0 \<and> (ucast (block_size fs) :: u32) \<noteq> 0"
proof -
  have b: "unat (block_size fs) \<le> 65536" "1024 \<le> unat (block_size fs)"
    using ext2_okD(4,5) [OF assms] by (simp_all add: bsz_def)
  then have u: "unat (ucast (block_size fs) :: u32) = unat (block_size fs)" by (intro unat_trunc32) simp
  have "\<not> bit (ucast (block_size fs) :: u32) 31" using u b(1) by (intro not_bit_small [where n = 31]) simp_all
  then have "\<not> bit (uint (ucast (block_size fs) :: u32)) 31" by (simp add: bit_uint_iff)
  then have "0 \<le> sint (ucast (block_size fs) :: u32)" unfolding sint_uint by (simp add: signed_take_bit_nonnegative_iff)
  moreover have "(ucast (block_size fs) :: u32) \<noteq> 0" using u b(2) by auto
  ultimately show ?thesis by (simp add: word_sless_alt)
qed

text \<open>A group without a free bit, or one that is taken to have none.\<close>

definition full :: "('d \<Rightarrow> nat \<Rightarrow> u8) \<Rightarrow> bitmap_kind \<Rightarrow> 'd ext2 \<Rightarrow> nat \<Rightarrow> bool" where
  "full byte k fs g \<longleftrightarrow> (group_free k (block_group_table fs ! g) \<noteq> 0 \<longrightarrow> (\<forall>b<unat (per_group k fs). used_bit byte k fs g b))"

definition marked_bit :: "u8 list \<Rightarrow> nat \<Rightarrow> u8 list" where
  "marked_bit bm b = set_word bm (b div 32) (u32_at bm (4 * (b div 32)) OR bit_mask b)"

text \<open>The result of a successful search: the first free bit of a group, now used.\<close>

definition took :: "('d \<Rightarrow> nat \<Rightarrow> u8) \<Rightarrow> nat \<Rightarrow> bitmap_kind \<Rightarrow> nat \<Rightarrow> nat \<Rightarrow> 'd ext2 \<Rightarrow> 'd ext2 \<Rightarrow> bool" where
  "took byte n k g b fs fs' \<longleftrightarrow> g < ngroups fs \<and> b < unat (per_group k fs) \<and> group_free k (block_group_table fs ! g) \<noteq> 0 \<and>
     \<not> used_bit byte k fs g b \<and> (\<forall>b'<b. used_bit byte k fs g b') \<and>
     bitmap_replaced byte n k g (marked_bit (block_bytes byte fs (bitmap_at k fs g)) b) (- 1) fs fs'"

text \<open>The number of the block with a bit, and of the inode.\<close>

definition block_no :: "'d ext2 \<Rightarrow> nat \<Rightarrow> nat \<Rightarrow> nat" where
  "block_no fs g b = unat (first_data_block (superblock fs)) + b + g * unat (per_group Blocks fs)"

definition inode_no :: "'d ext2 \<Rightarrow> nat \<Rightarrow> nat \<Rightarrow> nat" where
  "inode_no fs g b = g * unat (per_group Inodes fs) + b + 1"

lemma group_bit_bound: "g < n \<Longrightarrow> b < p \<Longrightarrow> b + g * p < n * (p :: nat)"
proof -
  assume a: "g < n" "b < p"
  have "(g + 1) * p \<le> n * p" using a(1) by (intro mult_right_mono) simp_all
  then show ?thesis using a(2) by simp
qed

lemma group_bit_div: "b < p \<Longrightarrow> (b + g * p) div p = g \<and> (b + g * p) mod p = (b :: nat)"
  by simp

definition cleared_bit :: "u8 list \<Rightarrow> nat \<Rightarrow> u8 list" where
  "cleared_bit bm b = set_word bm (b div 32) (u32_at bm (4 * (b div 32)) AND NOT (bit_mask b))"

lemma counted_back: "g < length (block_group_table fs) \<Longrightarrow> counted k g 1 (counted k g (- 1) fs) = fs"
proof -
  assume g: "g < length (block_group_table fs)"
  have 1: "(ucast (- 1 :: u32) :: u16) = - 1" by (rule bit_word_eqI) (simp add: bit_ucast_iff)
  have "group_add k 1 (group_add k (- 1) x) = x" for x by (simp add: group_add_def 1 split: bitmap_kind.split)
  moreover have "superblock_add k 1 (superblock_add k (- 1) s) = s" for s
    by (simp add: superblock_add_def split: bitmap_kind.split)
  ultimately show ?thesis using g by (simp add: counted_def)
qed

text \<open>The counts change, and both structures go to their places.\<close>

context byte_device
begin

lemma map_upt_eq: "b = a + length xs \<Longrightarrow> (\<And>i. i < length xs \<Longrightarrow> f (a + i) = xs ! i) \<Longrightarrow> map f [a..<b] = xs"
  by (intro nth_equalityI) simp_all

lemma save_block_group_table_keeps:
  assumes ok: "ext2_ok dsize fs"
  shows "\<exists>d. snd (save_block_group_table dev fs) = fs \<lparr> dev_state := d \<rparr> \<and> (\<forall>i<dsize. byte d i =
    (if gdt_at fs \<le> i \<and> i < gdt_at fs + 32 * ngroups fs
     then concat (map group_bytes (block_group_table fs)) ! (i - gdt_at fs) else byte (dev_state fs) i))"
proof -
  have g: "ngroups fs < 134217728" using ext2_okD(2) [OF ok] .
  have b: "unat (32 * block_group_count fs) = 32 * ngroups fs"
    using g by (subst unat_mul64) (simp_all add: ngroups_def)
  have l: "length (concat (map group_bytes (block_group_table fs))) = 32 * ngroups fs"
    using ok by (simp add: length_table_bytes ext2_ok_def)
  have a: "unat (block_to_offset fs (group_table_block fs)) = gdt_at fs"
    by (simp add: unat_block_to_offset [OF ok] gdt_at_def)
  define r where "r = blk_write dev (dev_state fs) (block_to_offset fs (group_table_block fs)) (32 * block_group_count fs)
      (concat (map group_bytes (block_group_table fs)))"
  have "byte (snd r) i = (if gdt_at fs \<le> i \<and> i < gdt_at fs + 32 * ngroups fs
     then concat (map group_bytes (block_group_table fs)) ! (i - gdt_at fs) else byte (dev_state fs) i)" if "i < dsize" for i
    unfolding r_def using that ext2_okD(8) [OF ok] by (subst write_bytes) (simp_all add: a b l)
  then show ?thesis
    by (intro exI [of _ "snd r"]) (simp add: save_block_group_table_def r_def [symmetric] b l split: prod.split)
qed

lemma save_superblock_keeps:
  assumes ok: "ext2_ok dsize fs"
  shows "\<exists>d. snd (save_superblock dev fs) = fs \<lparr> dev_state := d \<rparr> \<and> (\<forall>i<dsize. byte d i =
    (if 1024 \<le> i \<and> i < 1108 then superblock_bytes (superblock fs) ! (i - 1024) else byte (dev_state fs) i))"
proof -
  define r where "r = blk_write dev (dev_state fs) EXT2_SUPERBLOCK_OFFSET 84 (superblock_bytes (superblock fs))"
  have "byte (snd r) i =
    (if 1024 \<le> i \<and> i < 1108 then superblock_bytes (superblock fs) ! (i - 1024) else byte (dev_state fs) i)" if "i < dsize" for i
    unfolding r_def using that ext2_okD(7) [OF ok]
    by (subst write_bytes) (simp_all add: EXT2_SUPERBLOCK_OFFSET_def)
  then show ?thesis
    by (intro exI [of _ "snd r"]) (simp add: save_superblock_def r_def [symmetric] split: prod.split)
qed

lemma count_free_keeps:
  assumes ok: "ext2_ok dsize fs"
  shows "\<exists>d. count_free dev k g c fs = counted k g c fs \<lparr> dev_state := d \<rparr> \<and> synced byte (counted k g c fs \<lparr> dev_state := d \<rparr>) \<and>
    keeps_outside byte dsize fs (counted k g c fs \<lparr> dev_state := d \<rparr>) (tables_region fs)"
proof -
  define fs1 where "fs1 = counted k g c fs"
  have geo1: "geo fs1 = geo fs" by (simp add: fs1_def geo_counted)
  have ok1: "ext2_ok dsize fs1" by (rule ext2_ok_geo [OF geo1 ok])
  obtain d1 where d1: "snd (save_block_group_table dev fs1) = fs1 \<lparr> dev_state := d1 \<rparr>"
    "\<And>i. i < dsize \<Longrightarrow> byte d1 i = (if gdt_at fs1 \<le> i \<and> i < gdt_at fs1 + 32 * ngroups fs1
     then concat (map group_bytes (block_group_table fs1)) ! (i - gdt_at fs1) else byte (dev_state fs1) i)"
    using save_block_group_table_keeps [OF ok1] by blast
  have ok2: "ext2_ok dsize (fs1 \<lparr> dev_state := d1 \<rparr>)" by (rule ext2_ok_geo [OF _ ok1]) simp
  obtain d where d: "snd (save_superblock dev (fs1 \<lparr> dev_state := d1 \<rparr>)) = fs1 \<lparr> dev_state := d \<rparr>"
    "\<And>i. i < dsize \<Longrightarrow> byte d i = (if 1024 \<le> i \<and> i < 1108 then superblock_bytes (superblock fs1) ! (i - 1024) else byte d1 i)"
    using save_superblock_keeps [OF ok2] by auto
  note low = gdt_at_lower [OF ok1] and fit = ext2_okD(7,8) [OF ok1]
  have len: "length (concat (map group_bytes (block_group_table fs1))) = 32 * ngroups fs1"
    using ok1 by (simp add: length_table_bytes ext2_ok_def)
  have geo2: "gdt_at (fs1 \<lparr> dev_state := d \<rparr>) = gdt_at fs1" "ngroups (fs1 \<lparr> dev_state := d \<rparr>) = ngroups fs1"
    by simp_all
  have "map (byte d) [1024..<1108] = superblock_bytes (superblock fs1)"
    using fit by (intro map_upt_eq) (simp_all add: d(2))
  moreover have "map (byte d) [gdt_at fs1..<gdt_at fs1 + 32 * ngroups fs1] = concat (map group_bytes (block_group_table fs1))"
    using fit low by (intro map_upt_eq) (simp_all add: d(2) d1(2) len)
  ultimately have "synced byte (fs1 \<lparr> dev_state := d \<rparr>)" by (simp add: synced_def geo2)
  moreover have "keeps_outside byte dsize fs (fs1 \<lparr> dev_state := d \<rparr>) (tables_region fs)"
    using geoD(4,9) [OF geo1] counted_dev(1) [of k g c fs, folded fs1_def]
    by (auto simp: keeps_outside_def tables_region_def d(2) d1(2))
  ultimately show ?thesis
    using d(1) by (intro exI [of _ d]) (simp add: count_free_def counted_def [symmetric] fs1_def [symmetric] d1(1))
qed

text \<open>A new bitmap on the device, and the counts after it.\<close>

lemma write_bitmap_keeps:
  assumes ok: "ext2_ok dsize fs" and g: "g < ngroups fs" and len: "length bm = bsz fs"
  shows "fst (blk_write dev (dev_state fs) (bitmap_offset k fs g) (block_size fs) bm) = ucast (block_size fs)"
    "keeps_outside byte dsize fs (fs \<lparr> dev_state := snd (blk_write dev (dev_state fs) (bitmap_offset k fs g) (block_size fs) bm) \<rparr>)
       (block_region fs (bitmap_at k fs g))"
    "map (byte (snd (blk_write dev (dev_state fs) (bitmap_offset k fs g) (block_size fs) bm)))
       [bitmap_at k fs g * bsz fs..<bitmap_at k fs g * bsz fs + bsz fs] = bm"
proof -
  have a: "unat (bitmap_offset k fs g) = bitmap_at k fs g * bsz fs"
    by (simp add: bitmap_offset_def unat_block_to_offset [OF ok] bitmap_at_def)
  have fit: "bitmap_at k fs g * bsz fs + bsz fs \<le> dsize"
    using ext2_okD(11) [OF ok g] by (simp add: clear_of_tables_def)
  have u: "unat (block_size fs) = bsz fs" by (simp add: bsz_def)
  show "fst (blk_write dev (dev_state fs) (bitmap_offset k fs g) (block_size fs) bm) = ucast (block_size fs)"
    using fit ext2_okD(4) [OF ok] len by (intro write_result) (simp_all add: a u)
  have w: "byte (snd (blk_write dev (dev_state fs) (bitmap_offset k fs g) (block_size fs) bm)) i =
      (if bitmap_at k fs g * bsz fs \<le> i \<and> i < bitmap_at k fs g * bsz fs + bsz fs then bm ! (i - bitmap_at k fs g * bsz fs)
       else byte (dev_state fs) i)" if "i < dsize" for i
    using that fit len by (subst write_bytes) (simp_all add: a u)
  show "keeps_outside byte dsize fs (fs \<lparr> dev_state := snd (blk_write dev (dev_state fs) (bitmap_offset k fs g) (block_size fs) bm) \<rparr>)
       (block_region fs (bitmap_at k fs g))"
    by (auto simp: keeps_outside_def block_region_def w)
  show "map (byte (snd (blk_write dev (dev_state fs) (bitmap_offset k fs g) (block_size fs) bm)))
       [bitmap_at k fs g * bsz fs..<bitmap_at k fs g * bsz fs + bsz fs] = bm"
    using fit len by (intro nth_equalityI) (simp_all add: w)
qed

lemma read_bitmap:
  assumes ok: "ext2_ok dsize fs" and g: "g < ngroups fs"
  shows "blk_read dev (dev_state fs) (bitmap_offset k fs g) (block_size fs) =
    (ucast (block_size fs), block_bytes byte fs (bitmap_at k fs g))"
proof -
  have a: "unat (bitmap_offset k fs g) = bitmap_at k fs g * bsz fs"
    by (simp add: bitmap_offset_def unat_block_to_offset [OF ok] bitmap_at_def)
  have "bitmap_at k fs g * bsz fs + bsz fs \<le> dsize"
    using ext2_okD(11) [OF ok g] by (simp add: clear_of_tables_def)
  then show ?thesis by (subst read_bytes) (simp_all add: a block_bytes_def bsz_def)
qed

lemma commit_bitmap:
  assumes ok: "ext2_ok dsize fs" and g: "g < ngroups fs" and len: "length bm = bsz fs"
  shows "bitmap_replaced byte dsize k g bm c fs (count_free dev k g c
    (fs \<lparr> dev_state := snd (blk_write dev (dev_state fs) (bitmap_offset k fs g) (block_size fs) bm) \<rparr>))"
proof -
  define d1 where "d1 = snd (blk_write dev (dev_state fs) (bitmap_offset k fs g) (block_size fs) bm)"
  note w = write_bitmap_keeps [OF ok g len, of k, folded d1_def]
  have ok1: "ext2_ok dsize (fs \<lparr> dev_state := d1 \<rparr>)" by (rule ext2_ok_geo [OF _ ok]) simp
  obtain d where d: "count_free dev k g c (fs \<lparr> dev_state := d1 \<rparr>) = counted k g c fs \<lparr> dev_state := d \<rparr>"
    "synced byte (counted k g c fs \<lparr> dev_state := d \<rparr>)"
    "keeps_outside byte dsize (fs \<lparr> dev_state := d1 \<rparr>) (counted k g c fs \<lparr> dev_state := d \<rparr>) (tables_region fs)"
    using count_free_keeps [OF ok1, of k g c] by auto
  define fs' where "fs' = counted k g c fs \<lparr> dev_state := d \<rparr>"
  have geo': "geo fs' = geo fs" by (simp add: fs'_def geo_counted)
  have clear: "clear_of_tables dsize fs (bitmap_at k fs g)" using ext2_okD(11) [OF ok g] .
  have "block_bytes byte fs' (bitmap_at k fs g) = block_bytes byte (fs \<lparr> dev_state := d1 \<rparr>) (bitmap_at k fs g)"
    using d(3) clear clear_region [OF clear] geoD(1) [OF geo'] unfolding fs'_def [symmetric]
    by (intro block_bytes_kept) (auto simp: clear_of_tables_def)
  then have "block_bytes byte fs' (bitmap_at k fs g) = bm" using w(3) by (simp add: block_bytes_def)
  moreover have "keeps_outside byte dsize fs fs' (block_region fs (bitmap_at k fs g) \<union> tables_region fs)"
    using keeps_outside_trans [OF w(2) d(3)] by (simp add: fs'_def)
  ultimately have "bitmap_replaced byte dsize k g bm c fs fs'"
    using d(2) by (simp add: bitmap_replaced_def fs'_def Un_commute)
  then show ?thesis by (simp only: d(1) d1_def [symmetric] fs'_def)
qed

lemma alloc_groups_finds:
  assumes ok: "ext2_ok dsize fs" and "\<forall>g \<in> set is. g < ngroups fs" "length buf = bsz fs"
  shows "\<exists>s. alloc_groups dev k fs buf is = Some s \<and> (case s of
      Not_Found buf' \<Rightarrow> length buf' = bsz fs \<and> (\<forall>g \<in> set is. full byte k fs g)
    | IO_Error fs' \<Rightarrow> False
    | Found g b fs' \<Rightarrow> g \<in> set is \<and> (\<forall>g' \<in> set (takeWhile (\<lambda>x. x \<noteq> g) is). full byte k fs g') \<and> took byte dsize k g b fs fs')"
  using assms(2,3)
proof (induction "is" arbitrary: buf)
  case (Cons g "is")
  then have g: "g < ngroups fs" and ih: "\<And>buf. length buf = bsz fs \<Longrightarrow> \<exists>s. alloc_groups dev k fs buf is = Some s \<and> (case s of
      Not_Found buf' \<Rightarrow> length buf' = bsz fs \<and> (\<forall>g \<in> set is. full byte k fs g)
    | IO_Error fs' \<Rightarrow> False
    | Found g b fs' \<Rightarrow> g \<in> set is \<and> (\<forall>g' \<in> set (takeWhile (\<lambda>x. x \<noteq> g) is). full byte k fs g') \<and> took byte dsize k g b fs fs')"
    by simp_all
  have len: "g < length (block_group_table fs)" using g ext2_okD(1) [OF ok] by simp
  define bm where "bm = block_bytes byte fs (bitmap_at k fs g)"
  have lbm: "length bm = bsz fs" by (simp add: bm_def)
  have buf: "put_at buf 0 bm = bm" using Cons.prems(2) lbm by (simp add: put_at_def)
  have skip: ?case
    if b': "alloc_groups dev k fs buf (g # is) = alloc_groups dev k fs b' is" "length b' = bsz fs" "full byte k fs g" for b'
  proof -
    obtain s where s: "alloc_groups dev k fs b' is = Some s" "case s of
        Not_Found buf' \<Rightarrow> length buf' = bsz fs \<and> (\<forall>g \<in> set is. full byte k fs g)
      | IO_Error fs' \<Rightarrow> False
      | Found g b fs' \<Rightarrow> g \<in> set is \<and> (\<forall>g' \<in> set (takeWhile (\<lambda>x. x \<noteq> g) is). full byte k fs g') \<and> took byte dsize k g b fs fs'"
      using ih [OF b'(2)] by blast
    show ?thesis unfolding b'(1) using s b'(3) by (intro exI [of _ s]) (auto split: search.splits)
  qed
  show ?case
  proof (cases "group_free k (block_group_table fs ! g) = 0")
    case True
    show ?thesis by (rule skip [of buf]) (use True len Cons.prems(2) in \<open>simp_all add: full_def\<close>)
  next
    case False
    obtain r where r: "first_zero bm 0 (unat (per_group k fs)) = Some r"
      "case r of None \<Rightarrow> \<forall>c. 0 \<le> c \<and> c < unat (per_group k fs) \<longrightarrow> bm_bit bm c
      | Some x \<Rightarrow> 0 \<le> x \<and> x < unat (per_group k fs) \<and> \<not> bm_bit bm x \<and> (\<forall>c. 0 \<le> c \<and> c < x \<longrightarrow> bm_bit bm c)"
      using first_zero_finds [of "unat (per_group k fs)" bm 0] ext2_okD(3,10) [OF ok] lbm by auto
    note rd = read_bitmap [OF ok g, of k, folded bm_def] and res = device_result [OF ok]
    show ?thesis
    proof (cases r)
      case None
      have "alloc_groups dev k fs buf (g # is) = alloc_groups dev k fs bm is"
        using len False rd res r None by (simp add: buf)
      moreover have "full byte k fs g" using r(2) None by (simp add: full_def used_bit_def bm_def)
      ultimately show ?thesis using skip lbm by blast
    next
      case (Some x)
      have x: "x < unat (per_group k fs)" "\<not> bm_bit bm x" "\<forall>c<x. bm_bit bm c" using r(2) Some by auto
      have m: "mark_used bm x = Some (marked_bit bm x)" "length (marked_bit bm x) = bsz fs"
        using mark_used_bit [of x bm] x(1) ext2_okD(3,10) [OF ok] lbm by (auto simp: marked_bit_def intro: less_le_trans)
      obtain d where w: "blk_write dev (dev_state fs) (bitmap_offset k fs g) (block_size fs) (marked_bit bm x) = (ucast (block_size fs), d)"
        using write_bitmap_keeps(1) [OF ok g m(2), of k] by (metis prod.collapse)
      define fs' where "fs' = count_free dev k g (- 1) (fs \<lparr> dev_state := d \<rparr>)"
      have "alloc_groups dev k fs buf (g # is) = Some (Found g x fs')"
        using len False rd res r(1) Some m(1) w by (simp add: buf fs'_def)
      moreover have "took byte dsize k g x fs fs'"
        using g x False commit_bitmap [OF ok g m(2), of k "- 1"]
        by (simp add: took_def used_bit_def bm_def [symmetric] fs'_def w)
      ultimately show ?thesis by simp
    qed
  qed
qed simp

lemma alloc_search_finds:
  assumes ok: "ext2_ok dsize fs" and start: "unat start \<le> ngroups fs" and fresh: "length (fresh (bsz fs)) = bsz fs"
  shows "\<exists>s. alloc_search dev fresh k fs start = Some s \<and> (case s of
      Not_Found buf' \<Rightarrow> \<forall>g<ngroups fs. full byte k fs g
    | IO_Error fs' \<Rightarrow> False
    | Found g b fs' \<Rightarrow> took byte dsize k g b fs fs')"
proof -
  have n: "unat (ucast (block_group_count fs) :: u32) = ngroups fs"
    using ext2_okD(2) [OF ok] by (subst unat_trunc32) (simp_all add: ngroups_def)
  obtain s where s: "alloc_groups dev k fs (fresh (bsz fs)) [unat start..<ngroups fs] = Some s" "case s of
      Not_Found buf' \<Rightarrow> length buf' = bsz fs \<and> (\<forall>g \<in> set [unat start..<ngroups fs]. full byte k fs g)
    | IO_Error fs' \<Rightarrow> False
    | Found g b fs' \<Rightarrow> g \<in> set [unat start..<ngroups fs] \<and>
        (\<forall>g' \<in> set (takeWhile (\<lambda>x. x \<noteq> g) [unat start..<ngroups fs]). full byte k fs g') \<and> took byte dsize k g b fs fs'"
    using alloc_groups_finds [OF ok, of "[unat start..<ngroups fs]" "fresh (bsz fs)" k] fresh by auto
  show ?thesis
  proof (cases s)
    case (Not_Found buf)
    then obtain s2 where s2: "alloc_groups dev k fs buf [0..<unat start] = Some s2" "case s2 of
        Not_Found buf' \<Rightarrow> length buf' = bsz fs \<and> (\<forall>g \<in> set [0..<unat start]. full byte k fs g)
      | IO_Error fs' \<Rightarrow> False
      | Found g b fs' \<Rightarrow> g \<in> set [0..<unat start] \<and>
          (\<forall>g' \<in> set (takeWhile (\<lambda>x. x \<noteq> g) [0..<unat start]). full byte k fs g') \<and> took byte dsize k g b fs fs'"
      using alloc_groups_finds [OF ok, of "[0..<unat start]" buf k] start s(2) by auto
    have "alloc_search dev fresh k fs start = Some s2"
      using s(1) s2(1) Not_Found by (simp add: alloc_search_def n bsz_def [symmetric])
    moreover have "full byte k fs g" if "g < ngroups fs" "\<forall>g \<in> set [0..<unat start]. full byte k fs g" for g
      using that s(2) Not_Found by (cases "g < unat start") auto
    ultimately show ?thesis using s2(2) by (intro exI [of _ s2]) (auto split: search.splits)
  next
    case (Found g b fs')
    then show ?thesis using s by (simp add: alloc_search_def n bsz_def [symmetric])
  qed (use s in simp)
qed

lemma allocate_block_runs:
  assumes ok: "ext2_ok dsize fs" and start: "unat start \<le> ngroups fs" and fresh: "length (fresh (bsz fs)) = bsz fs"
  shows "\<exists>r fs'. allocate_block dev fresh fs start = Some (r, fs') \<and>
    ((\<exists>g b. took byte dsize Blocks g b fs fs' \<and> r = of_nat (block_no fs g b)) \<or>
     (r = - ENOSPC64 \<and> fs' = fs \<and> (\<forall>g<ngroups fs. full byte Blocks fs g)))"
proof -
  obtain s where s: "alloc_search dev fresh Blocks fs start = Some s" "case s of
      Not_Found buf' \<Rightarrow> \<forall>g<ngroups fs. full byte Blocks fs g
    | IO_Error fs' \<Rightarrow> False
    | Found g b fs' \<Rightarrow> took byte dsize Blocks g b fs fs'"
    using alloc_search_finds [where fresh = fresh and k = Blocks, OF assms] by blast
  show ?thesis
  proof (cases s)
    case (Found g b fs')
    then have t: "took byte dsize Blocks g b fs fs'" using s(2) by simp
    then have "geo fs' = geo fs" by (auto simp: took_def intro: bitmap_replaced_geo)
    from geoD(6) [OF this, of Blocks] geoD(7) [OF this] have "ucast (first_data_block (superblock fs')) + of_nat b +
        of_nat g * ucast (blocks_per_block_group (superblock fs')) = (of_nat (block_no fs g b) :: u64)"
      by (simp add: block_no_def per_group_def of_nat_unat)
    then show ?thesis using s(1) t Found by (auto simp: allocate_block_def)
  qed (use s in \<open>simp_all add: allocate_block_def\<close>)
qed

lemma allocate_inode_runs:
  assumes ok: "ext2_ok dsize fs" and start: "unat start \<le> ngroups fs" and fresh: "length (fresh (bsz fs)) = bsz fs"
  shows "\<exists>r fs'. allocate_inode dev fresh fs start = Some (r, fs') \<and>
    ((\<exists>g b. took byte dsize Inodes g b fs fs' \<and> r = of_nat (inode_no fs g b)) \<or>
     (r = - ENOSPC64 \<and> fs' = fs \<and> (\<forall>g<ngroups fs. full byte Inodes fs g)))"
proof -
  obtain s where s: "alloc_search dev fresh Inodes fs start = Some s" "case s of
      Not_Found buf' \<Rightarrow> \<forall>g<ngroups fs. full byte Inodes fs g
    | IO_Error fs' \<Rightarrow> False
    | Found g b fs' \<Rightarrow> took byte dsize Inodes g b fs fs'"
    using alloc_search_finds [where fresh = fresh and k = Inodes, OF assms] by blast
  show ?thesis
  proof (cases s)
    case (Found g b fs')
    then have t: "took byte dsize Inodes g b fs fs'" using s(2) by simp
    then have "geo fs' = geo fs" by (auto simp: took_def intro: bitmap_replaced_geo)
    from geoD(6) [OF this, of Inodes] have "of_nat g * ucast (inodes_per_block_group (superblock fs')) + of_nat b + 1 = (of_nat (inode_no fs g b) :: u64)"
      by (simp add: inode_no_def per_group_def of_nat_unat)
    then show ?thesis using s(1) t Found by (auto simp: allocate_inode_def)
  qed (use s in \<open>simp_all add: allocate_inode_def\<close>)
qed

lemma free_bit_runs:
  assumes ok: "ext2_ok dsize fs" and fresh: "length (fresh (bsz fs)) = bsz fs" and g: "g < ngroups fs" "b < unat (per_group k fs)"
    and real: "unat real = b + g * unat (per_group k fs)"
  shows "\<exists>fs'. free_bit dev fresh k fs real = Some fs' \<and>
    (if used_bit byte k fs g b then bitmap_replaced byte dsize k g (cleared_bit (block_bytes byte fs (bitmap_at k fs g)) b) 1 fs fs' else fs' = fs)"
proof -
  define bm where "bm = block_bytes byte fs (bitmap_at k fs g)"
  have lbm: "length bm = bsz fs" by (simp add: bm_def)
  have len: "g < length (block_group_table fs)" using g ext2_okD(1) [OF ok] by simp
  have dm: "unat (real div per_group k fs) = g" "unat (real mod per_group k fs) = b"
    using group_bit_div [OF g(2), of g] real by (simp_all add: unat_div unat_mod)
  have per: "per_group k fs \<noteq> 0" using ext2_okD(9) [OF ok, of k] by auto
  have inside: "\<not> ucast (real div per_group k fs) \<ge> block_group_count fs"
    using g(1) dm(1) by (simp add: word_le_nat_alt ngroups_def)
  have w: "b < 8 * length bm" "4 dvd length bm" using g(2) ext2_okD(3,10) [OF ok] lbm by (auto intro: less_le_trans)
  note rd = read_bitmap [OF ok g(1), of k, folded bm_def] and res = device_result [OF ok]
  have buf: "put_at (fresh (unat (block_size fs))) 0 bm = bm" using fresh lbm by (simp add: put_at_def bsz_def)
  have l: "length (cleared_bit bm b) = bsz fs" using word_in [OF w] lbm by (simp add: cleared_bit_def)
  obtain d where wr: "blk_write dev (dev_state fs) (bitmap_offset k fs g) (block_size fs) (cleared_bit bm b) = (ucast (block_size fs), d)"
    using write_bitmap_keeps(1) [OF ok g(1) l, of k] by (metis prod.collapse)
  have "free_bit dev fresh k fs real = Some (if bm_bit bm b then count_free dev k g 1 (fs \<lparr> dev_state := d \<rparr>) else fs)"
    using per inside len res word_in [OF w] wr
    by (simp add: free_bit_def Let_def dm rd buf get_word_def and_bit_mask bm_bit_def cleared_bit_def)
  moreover have "bitmap_replaced byte dsize k g (cleared_bit bm b) 1 fs (count_free dev k g 1 (fs \<lparr> dev_state := d \<rparr>))"
    using commit_bitmap [OF ok g(1) l, of k 1] wr by simp
  ultimately show ?thesis by (simp add: used_bit_def bm_def)
qed

text \<open>Taking a bit and giving it back.\<close>

lemma take_free_back:
  assumes ok: "ext2_ok dsize fs" and fresh: "length (fresh (bsz fs)) = bsz fs" and t: "took byte dsize k g b fs fs1"
    and real: "unat real = b + g * unat (per_group k fs)"
  shows "\<exists>fs2. free_bit dev fresh k fs1 real = Some fs2 \<and> fs2 = fs \<lparr> dev_state := dev_state fs2 \<rparr> \<and> synced byte fs2 \<and>
    keeps_outside byte dsize fs fs2 (tables_region fs)"
proof -
  define bm where "bm = block_bytes byte fs (bitmap_at k fs g)"
  have g: "g < ngroups fs" "b < unat (per_group k fs)" "\<not> bm_bit bm b" and rep: "bitmap_replaced byte dsize k g (marked_bit bm b) (- 1) fs fs1"
    using t by (simp_all add: took_def bm_def used_bit_def)
  note geo1 = bitmap_replaced_geo [OF rep]
  have ok1: "ext2_ok dsize fs1" by (rule ext2_ok_geo [OF geo1 ok])
  have at1: "bitmap_at k fs1 g = bitmap_at k fs g" using bitmap_at_geo [OF geo1] g ext2_okD(1) [OF ok] by simp
  have w: "b < 8 * length bm" "4 dvd length bm" using g(2) ext2_okD(3,10) [OF ok] by (auto simp: bm_def intro: less_le_trans)
  have m: "mark_used bm b = Some (marked_bit bm b)" "\<forall>c. bm_bit (marked_bit bm b) c \<longleftrightarrow> c = b \<or> bm_bit bm c"
    using mark_used_bit [OF w] by (auto simp: marked_bit_def)
  have b1: "block_bytes byte fs1 (bitmap_at k fs1 g) = marked_bit bm b" using rep by (simp add: bitmap_replaced_def at1)
  have "cleared_bit (marked_bit bm b) b = bm" unfolding cleared_bit_def using mark_clear [OF w g(3) m(1)] .
  moreover have "used_bit byte k fs1 g b" using m(2) by (simp add: used_bit_def b1)
  ultimately obtain fs2 where fs2: "free_bit dev fresh k fs1 real = Some fs2" "bitmap_replaced byte dsize k g bm 1 fs1 fs2"
    using free_bit_runs [OF ok1, of fresh g b k real] fresh g real geoD(3,4,6) [OF geo1] by (auto simp: b1)
  have len: "g < length (block_group_table fs)" using g ext2_okD(1) [OF ok] by simp
  have "fs1 = counted k g (- 1) fs \<lparr> dev_state := dev_state fs1 \<rparr>" using rep by (simp add: bitmap_replaced_def)
  then have "counted k g 1 fs1 = fs \<lparr> dev_state := dev_state fs1 \<rparr>" using counted_back [OF len, of k] counted_dev(2) by metis
  then have eq: "fs2 = fs \<lparr> dev_state := dev_state fs2 \<rparr>" using fs2(2) by (simp add: bitmap_replaced_def)
  have out: "keeps_outside byte dsize fs fs2 (tables_region fs \<union> block_region fs (bitmap_at k fs g))"
    using keeps_outside_trans [of byte dsize fs fs1 _ fs2] rep fs2(2) geoD(11,12) [OF geo1]
    unfolding bitmap_replaced_def at1 by (metis Un_absorb)
  have "byte (dev_state fs2) i = byte (dev_state fs) i"
    if "i < dsize" "i \<notin> tables_region fs" "bitmap_at k fs g * bsz fs \<le> i" "i < bitmap_at k fs g * bsz fs + bsz fs" for i
  proof -
    have "block_bytes byte fs2 (bitmap_at k fs g) = bm" using fs2(2) by (simp add: bitmap_replaced_def at1)
    moreover have "bsz fs2 = bsz fs" using eq by (metis geo_dev geoD(3))
    ultimately have "block_bytes byte fs2 (bitmap_at k fs g) ! (i - bitmap_at k fs g * bsz fs) =
        block_bytes byte fs (bitmap_at k fs g) ! (i - bitmap_at k fs g * bsz fs)" by (simp add: bm_def)
    then show ?thesis using that \<open>bsz fs2 = bsz fs\<close> by (simp add: block_bytes_def)
  qed
  then have "keeps_outside byte dsize fs fs2 (tables_region fs)"
    using out by (auto simp: keeps_outside_def block_region_def)
  then show ?thesis using fs2 eq by (auto simp: bitmap_replaced_def)
qed

end

end
