(* ===== verification/Ext2_Runs.thy ===== *)
theory Ext2_Runs
  imports Ext2_Alloc
begin

text \<open>
  Allocation of ext2 blocks as properties of the volume, and runs of blocks: the search finds a run of the length asked
  for or else the longest one, and marks just its blocks.
\<close>

subsection \<open>Single blocks and inodes\<close>

text \<open>C32: On a device that keeps what is written to it, allocating a block returns: the block of the first free bit of a group
  that counts free blocks, with this bit set, the two counts of free blocks one lower, the superblock and the table of
  groups written, and no other byte of the device changed; or \<^verbatim>\<open>-ENOSPC\<close> with nothing changed, when every group that
  counts free blocks has all its bits set.\<close>

theorem allocate_block_takes_free:
  assumes "byte_device dev n byte" "ext2_ok n fs" "unat start \<le> ngroups fs" "length (fresh (bsz fs)) = bsz fs"
  shows "\<exists>r fs'. allocate_block dev fresh fs start = Some (r, fs') \<and>
    ((\<exists>g b. r = of_nat (block_no fs g b) \<and> g < ngroups fs \<and> b < unat (per_group Blocks fs) \<and>
        group_free Blocks (block_group_table fs ! g) \<noteq> 0 \<and> \<not> used_bit byte Blocks fs g b \<and> (\<forall>b'<b. used_bit byte Blocks fs g b') \<and>
        (\<forall>k g' b'. g' < ngroups fs \<and> b' < 8 * bsz fs \<longrightarrow> used_bit byte k fs' g' b' = ((k = Blocks \<and> g' = g \<and> b' = b) \<or> used_bit byte k fs g' b')) \<and>
        fs' = counted Blocks g (- 1) fs \<lparr> dev_state := dev_state fs' \<rparr> \<and> synced byte fs' \<and>
        keeps_outside byte n fs fs' (tables_region fs \<union> block_region fs (bitmap_at Blocks fs g))) \<or>
     (r = - ENOSPC64 \<and> fs' = fs \<and>
        (\<forall>g<ngroups fs. group_free Blocks (block_group_table fs ! g) \<noteq> 0 \<longrightarrow> (\<forall>b<unat (per_group Blocks fs). used_bit byte Blocks fs g b))))"
proof -
  obtain r fs' where a: "allocate_block dev fresh fs start = Some (r, fs')"
    "(\<exists>g b. took byte n Blocks g b fs fs' \<and> r = of_nat (block_no fs g b)) \<or>
     (r = - ENOSPC64 \<and> fs' = fs \<and> (\<forall>g<ngroups fs. full byte Blocks fs g))"
    using byte_device.allocate_block_runs [OF assms(1), where fresh = fresh, OF assms(2-4)] by blast
  have bits: "used_bit byte k fs' g' b' = ((k = Blocks \<and> g' = g \<and> b' = b) \<or> used_bit byte k fs g' b')"
    if t: "took byte n Blocks g b fs fs'" and "g' < ngroups fs" for g b k g' b'
  proof -
    define bm where "bm = block_bytes byte fs (bitmap_at Blocks fs g)"
    have w: "b < 8 * length bm" "4 dvd length bm"
      using t ext2_okD(3,10) [OF assms(2)] by (auto simp: took_def bm_def intro: less_le_trans)
    have "bm_bit (marked_bit bm b) b' \<longleftrightarrow> b' = b \<or> bm_bit bm b'"
      using mark_used_bit [OF w] by (simp add: marked_bit_def)
    then show ?thesis
      using bitmap_replaced_bits [OF _ assms(2), of byte Blocks g "marked_bit bm b" "- 1" fs' g' k b'] t that(2)
      by (auto simp: took_def bm_def [symmetric]) (auto simp: used_bit_def bm_def)
  qed
  show ?thesis using a(2)
  proof (elim disjE exE conjE)
    fix g b assume t: "took byte n Blocks g b fs fs'" "r = of_nat (block_no fs g b)"
    then show ?thesis using bits [OF t(1)] a(1)
      by (intro exI [of _ r] exI [of _ fs'] conjI disjI1 exI [of _ g] exI [of _ b]) (simp_all add: took_def bitmap_replaced_def)
  qed (use a(1) in \<open>auto simp: full_def\<close>)
qed

text \<open>A volume of one group: 32 blocks of 1024 bytes from block 1, of which five are in use, and 8 inodes.\<close>

definition example_superblock :: ext2_superblock where
  "example_superblock = superblock_of (replicate 84 0) \<lparr> total_block_count := 33, unallocated_block_count := 27,
     total_inode_count := 8, unallocated_inode_count := 6, first_data_block := 1, blocks_per_block_group := 32,
     inodes_per_block_group := 8, major_version := 1 \<rparr>"

definition example_group :: ext2_group where
  "example_group = \<lparr> block_of_block_usage_bitmap = 3, block_of_inode_usage_bitmap = 4, inode_table_block_address = 5,
     group_unallocated_block_count = 27, group_unallocated_inode_count = 6, directory_count = 1, group_rsv = replicate 14 0 \<rparr>"

definition example_ext2 :: "mem ext2" where
  "example_ext2 = \<lparr> block_size = 1024, block_group_count = 1, superblock = example_superblock,
     extended_superblock = \<lparr> first_non_reserved_inode = 3, inode_size = 128, required_features = 2, ro_features = 0,
       dir_block_preallocation_count = 0 \<rparr>,
     block_group_table = [example_group], mounted = True, ref_count = 1, root_total_size = 0, root_used_size = 0,
     dev_state = (\<lambda>a. if a = 3072 then 0x1F else if a = 4096 then 3 else 0) \<rparr>"

lemma all_kinds: "(\<forall>k. P k) \<longleftrightarrow> P Blocks \<and> P Inodes"
  by (metis bitmap_kind.exhaust)

lemma example_ext2_simps:
  "bsz example_ext2 = 1024" "ngroups example_ext2 = 1" "gdt_at example_ext2 = 2048"
  "per_group Blocks example_ext2 = 32" "per_group Inodes example_ext2 = 8"
  "bitmap_at Blocks example_ext2 0 = 3" "bitmap_at Inodes example_ext2 0 = 4"
  "first_data_block (superblock example_ext2) = 1" "block_group_table example_ext2 = [example_group]"
  "length (group_rsv example_group) = 14"
  by (simp_all add: example_ext2_def example_superblock_def example_group_def bsz_def ngroups_def gdt_at_def group_table_block_def
    per_group_def bitmap_at_def group_bitmap_def)

lemma example_ext2_ok: "ext2_ok 65536 example_ext2"
  unfolding ext2_ok_def all_kinds by (simp add: example_ext2_simps clear_of_tables_def)

theorem allocate_block_takes_free_witness:
  "\<exists>r fs'. allocate_block (mem_disk 0x200) (\<lambda>n. replicate n 0) example_ext2 0 = Some (r, fs') \<and>
    ((\<exists>g b. r = of_nat (block_no example_ext2 g b) \<and> g < 1 \<and> \<not> used_bit (\<lambda>m i. m (of_nat i)) Blocks example_ext2 g b \<and>
        synced (\<lambda>m i. m (of_nat i)) fs') \<or> r = - ENOSPC64)"
  using allocate_block_takes_free [OF mem_disk_device [of 65536 "0x200"] example_ext2_ok, of 0 "\<lambda>n. replicate n 0"]
  by (simp add: example_ext2_simps) blast

lemma ucast_of_nat32': "(ucast (of_nat k :: u64) :: u32) = of_nat k"
  by (rule bit_word_eqI) (simp add: bit_ucast_iff bit_of_nat_iff)

text \<open>C33: Allocating a block or an inode and freeing it brings back the counts, the bitmap and every other byte of the device outside the
  superblock and the table of groups, and these too where the device had the counts that were in memory. The block is
  above the first data block and the inode not reserved, as the code wants them.\<close>

theorem allocate_then_free:
  assumes "byte_device dev n byte" "ext2_ok n fs" "unat start \<le> ngroups fs" "length (fresh (bsz fs)) = bsz fs"
    and "(allocate_block dev fresh fs start = Some (r, fs1) \<and> ucast r > first_data_block (superblock fs) \<and> free = free_block) \<or>
      (allocate_inode dev fresh fs start = Some (r, fs1) \<and> ucast r \<ge> first_non_reserved_inode (extended_superblock fs) \<and> free = free_inode)"
    and "r \<noteq> - ENOSPC64"
  shows "\<exists>fs2. free dev fresh fs1 (ucast r) = Some fs2 \<and> fs2 = fs \<lparr> dev_state := dev_state fs2 \<rparr> \<and>
    keeps_outside byte n fs fs2 (tables_region fs) \<and>
    (synced byte fs \<longrightarrow> (\<forall>i<n. byte (dev_state fs2) i = byte (dev_state fs) i))"
proof -
  obtain k g b where t: "took byte n k g b fs fs1"
    and real: "\<And>fs2. free_bit dev fresh k fs1 (of_nat (b + g * unat (per_group k fs))) = Some fs2 \<Longrightarrow> free dev fresh fs1 (ucast r) = Some fs2"
    using assms(5)
  proof (elim disjE conjE)
    assume a: "allocate_block dev fresh fs start = Some (r, fs1)" "ucast r > first_data_block (superblock fs)" "free = free_block"
    then obtain g b where t: "took byte n Blocks g b fs fs1" "r = of_nat (block_no fs g b)"
      using byte_device.allocate_block_runs [OF assms(1), where fresh = fresh, OF assms(2-4)] assms(6) by auto
    have geo1: "geo fs1 = geo fs" using t(1) by (auto simp: took_def intro: bitmap_replaced_geo)
    have "(ucast r :: u32) - first_data_block (superblock fs) = of_nat (b + g * unat (per_group Blocks fs))"
      unfolding t(2) ucast_of_nat32' by (simp add: block_no_def)
    then show thesis using that [OF t(1)] a(2,3) geoD(7) [OF geo1] by (simp add: free_block_def not_le)
  next
    assume a: "allocate_inode dev fresh fs start = Some (r, fs1)" "ucast r \<ge> first_non_reserved_inode (extended_superblock fs)" "free = free_inode"
    then obtain g b where t: "took byte n Inodes g b fs fs1" "r = of_nat (inode_no fs g b)"
      using byte_device.allocate_inode_runs [OF assms(1), where fresh = fresh, OF assms(2-4)] assms(6) by auto
    have geo1: "geo fs1 = geo fs" using t(1) by (auto simp: took_def intro: bitmap_replaced_geo)
    have "(ucast r :: u32) - 1 = of_nat (b + g * unat (per_group Inodes fs))"
      unfolding t(2) ucast_of_nat32' by (simp add: inode_no_def)
    then show thesis using that [OF t(1)] a(2,3) geoD(5) [OF geo1] by (simp add: free_inode_def not_less)
  qed
  have gb: "g < ngroups fs" "b < unat (per_group k fs)" using t by (simp_all add: took_def)
  have "b + g * unat (per_group k fs) < 4294967296"
    using group_bit_bound [OF gb] ext2_okD(13,15) [OF assms(2)] by (cases k) auto
  then have u: "unat (of_nat (b + g * unat (per_group k fs)) :: u32) = b + g * unat (per_group k fs)"
    by (simp only: unat_of_nat) simp
  obtain fs2 where fs2: "free_bit dev fresh k fs1 (of_nat (b + g * unat (per_group k fs))) = Some fs2"
    "fs2 = fs \<lparr> dev_state := dev_state fs2 \<rparr>" "synced byte fs2" "keeps_outside byte n fs fs2 (tables_region fs)"
    using byte_device.take_free_back [where fresh = fresh, OF assms(1,2,4) t u] by (elim exE conjE) (rule that)
  have "byte (dev_state fs2) i = byte (dev_state fs) i" if "synced byte fs" "i < n" for i
  proof (cases "i \<in> tables_region fs")
    case True
    have eqs: "superblock fs2 = superblock fs" "block_group_table fs2 = block_group_table fs" "gdt_at fs2 = gdt_at fs" "ngroups fs2 = ngroups fs"
      by (subst fs2(2), simp)+
    have "map (byte (dev_state fs2)) [1024..<1108] = map (byte (dev_state fs)) [1024..<1108]"
      "map (byte (dev_state fs2)) [gdt_at fs..<gdt_at fs + 32 * ngroups fs] = map (byte (dev_state fs)) [gdt_at fs..<gdt_at fs + 32 * ngroups fs]"
      using fs2(3) that(1) unfolding synced_def eqs by simp_all
    then show ?thesis using True unfolding tables_region_def map_eq_conv set_upt by blast
  qed (use fs2(4) that(2) in \<open>simp add: keeps_outside_def\<close>)
  then show ?thesis by (intro exI [of _ fs2] conjI impI allI real fs2(1,2,4))
qed

lemma u32_at_map: "a + k + 4 \<le> b \<Longrightarrow> u32_at (map f [a..<b]) k =
    of_nat (le_nat [f (a + k), f (a + k + 1), f (a + k + 2), f (a + k + 3)])"
proof -
  assume a: "a + k + 4 \<le> b"
  have "[x..<x + 4] = [x, x + 1, x + 2, x + 3]" for x :: nat by (simp add: numeral_eq_Suc)
  then show ?thesis using a by (simp add: u32_at_def field_def drop_map take_map add.commute)
qed

lemma example_used_bit:
  "b < 32 \<Longrightarrow> used_bit (\<lambda>m i. m (of_nat i)) Blocks example_ext2 0 b \<longleftrightarrow> b < 5"
  "b < 32 \<Longrightarrow> used_bit (\<lambda>m i. m (of_nat i)) Inodes example_ext2 0 b \<longleftrightarrow> b < 2"
proof -
  have m: "bit (31 :: u32) b \<longleftrightarrow> b < 5" "bit (3 :: u32) b \<longleftrightarrow> b < 2" if "b < 32" for b
  proof -
    have *: "(31 :: u32) = mask 5" "(3 :: u32) = mask 2" by (simp_all add: mask_eq_exp_minus_1)
    show "bit (31 :: u32) b \<longleftrightarrow> b < 5" "bit (3 :: u32) b \<longleftrightarrow> b < 2"
      unfolding * using that by (auto simp: bit_mask_iff)
  qed
  have "u32_at (block_bytes (\<lambda>m i. m (of_nat i)) example_ext2 3) 0 = 31"
    "u32_at (block_bytes (\<lambda>m i. m (of_nat i)) example_ext2 4) 0 = 3"
    unfolding block_bytes_def example_ext2_simps by (subst u32_at_map; simp add: example_ext2_def)+
  then show "b < 32 \<Longrightarrow> used_bit (\<lambda>m i. m (of_nat i)) Blocks example_ext2 0 b \<longleftrightarrow> b < 5"
    "b < 32 \<Longrightarrow> used_bit (\<lambda>m i. m (of_nat i)) Inodes example_ext2 0 b \<longleftrightarrow> b < 2"
    using m by (simp_all add: used_bit_def example_ext2_simps bm_bit_def)
qed

lemma example_allocate_inode:
  "\<exists>fs1. allocate_inode (mem_disk 0x200) (\<lambda>n. replicate n 0) example_ext2 0 = Some (3, fs1)"
proof -
  have pre: "unat (0 :: u32) \<le> ngroups example_ext2" "length (replicate (bsz example_ext2) (0 :: u8)) = bsz example_ext2" by simp_all
  obtain r fs1 where a: "allocate_inode (mem_disk 0x200) (\<lambda>n. replicate n 0) example_ext2 0 = Some (r, fs1)"
    "(\<exists>g b. took (\<lambda>m i. m (of_nat i)) 65536 Inodes g b example_ext2 fs1 \<and> r = of_nat (inode_no example_ext2 g b)) \<or>
     (\<forall>g<ngroups example_ext2. full (\<lambda>m i. m (of_nat i)) Inodes example_ext2 g)"
    using byte_device.allocate_inode_runs [OF mem_disk_device [of 65536 "0x200"], where fresh = "\<lambda>n. replicate n 0", OF _ example_ext2_ok pre]
    by auto
  have "\<not> full (\<lambda>m i. m (of_nat i)) Inodes example_ext2 0"
    using example_used_bit(2) [of 2]
    by (auto simp: full_def example_ext2_simps group_free_def example_group_def intro!: exI [of _ 2])
  then obtain b where b: "took (\<lambda>m i. m (of_nat i)) 65536 Inodes 0 b example_ext2 fs1" "r = of_nat (inode_no example_ext2 0 b)"
    using a(2) by (auto simp: example_ext2_simps took_def)
  have "b < 8" "\<not> b < 2" "\<forall>b'<b. b' < 2"
    using b(1) example_used_bit(2) by (auto simp: took_def example_ext2_simps)
  then have "b = 2" by (metis less_not_refl linorder_neqE_nat)
  then show ?thesis using a(1) b(2) by (auto simp: inode_no_def)
qed

theorem allocate_then_free_witness:
  "\<exists>fs1 fs2. allocate_inode (mem_disk 0x200) (\<lambda>n. replicate n 0) example_ext2 0 = Some (3, fs1) \<and>
    free_inode (mem_disk 0x200) (\<lambda>n. replicate n 0) fs1 3 = Some fs2 \<and> fs2 = example_ext2 \<lparr> dev_state := dev_state fs2 \<rparr>"
proof -
  have pre: "unat (0 :: u32) \<le> ngroups example_ext2" "length (replicate (bsz example_ext2) (0 :: u8)) = bsz example_ext2" by simp_all
  obtain fs1 where a: "allocate_inode (mem_disk 0x200) (\<lambda>n. replicate n 0) example_ext2 0 = Some (3, fs1)"
    using example_allocate_inode by blast
  have "first_non_reserved_inode (extended_superblock example_ext2) = 3" "(3 :: u64) \<noteq> - ENOSPC64"
    by (simp_all add: example_ext2_def ENOSPC64_def)
  then show ?thesis
    using allocate_then_free [OF mem_disk_device [of 65536 "0x200"], where fresh = "\<lambda>n. replicate n 0" and r = 3 and free = free_inode,
      OF _ example_ext2_ok pre] a by auto
qed

subsection \<open>Runs of blocks\<close>

definition free_run :: "(nat \<Rightarrow> bool) \<Rightarrow> nat \<Rightarrow> nat \<Rightarrow> bool" where
  "free_run used s l \<longleftrightarrow> (\<forall>c. s \<le> c \<and> c < s + l \<longrightarrow> \<not> used c)"

lemma free_run_less: "free_run used s l \<Longrightarrow> l' \<le> l \<Longrightarrow> free_run used s l'"
  by (simp add: free_run_def)

text \<open>What the search over the bits of a group knows at bit \<open>b\<close>: the open run ends here, and no run that ends by here is longer
  than it and the best one.\<close>

definition scanned :: "(nat \<Rightarrow> bool) \<Rightarrow> nat \<Rightarrow> bool \<Rightarrow> nat \<Rightarrow> nat \<Rightarrow> nat \<Rightarrow> nat \<Rightarrow> bool" where
  "scanned used b inside start cur best req \<longleftrightarrow> best < req \<and> (if inside then start + cur = b \<and> 0 < cur \<and> cur < req \<and> free_run used start cur else True) \<and>
     (\<forall>s l. s + l \<le> b \<and> free_run used s l \<longrightarrow> l \<le> max best (if inside then cur else 0)) \<and>
     (\<forall>s l. s + l = b \<and> free_run used s l \<longrightarrow> l \<le> (if inside then cur else 0))"

lemma scannedD:
  "scanned used b inside start cur best req \<Longrightarrow> s + l \<le> b \<Longrightarrow> free_run used s l \<Longrightarrow> l \<le> max best (if inside then cur else 0)"
  unfolding scanned_def by blast

lemma scanned_free:
  assumes "scanned used b inside start cur best req" "\<not> used b"
    and "start' = (if inside then start else b)" "cur' = (if inside then cur + 1 else 1)"
  shows "start' + cur' = b + 1 \<and> free_run used start' cur' \<and> cur' \<le> req \<and> (cur' < req \<longrightarrow> scanned used (b + 1) True start' cur' best req)"
proof -
  have 1: "start' + cur' = b + 1" "free_run used start' cur'" "cur' \<le> req" "best < req" "0 < cur'"
    using assms by (auto simp: scanned_def free_run_def less_Suc_eq split: if_splits)
  have 2: "l \<le> cur'" if "s + l = b + 1" "free_run used s l" for s l
  proof (cases l)
    case (Suc l')
    then have "s + l' = b" "free_run used s l'" using that by (auto intro: free_run_less)
    then have "l' \<le> (if inside then cur else 0)" using assms(1) by (simp add: scanned_def)
    then show ?thesis using Suc assms(4) by (simp split: if_splits)
  qed simp
  have 3: "l \<le> max best cur'" if "s + l \<le> b + 1" "free_run used s l" for s l
  proof (cases "s + l = b + 1")
    case False
    then have "l \<le> max best (if inside then cur else 0)" using that by (intro scannedD [OF assms(1)]) simp_all
    then show ?thesis using assms(4) by (auto split: if_splits)
  qed (use 2 that in fastforce)
  have "scanned used (b + 1) True start' cur' best req" if "cur' < req"
    unfolding scanned_def using 1 that by (simp only: if_True) (intro conjI allI impI; (elim conjE)?; blast intro: 2 3)
  then show ?thesis using 1 by blast
qed

lemma scanned_used:
  assumes "scanned used b inside start cur best req" "used b"
    and "best' = (if inside \<and> cur > best then cur else best)"
  shows "scanned used (b + 1) False start' 0 best' req"
proof -
  have b: "best' < req" "max best (if inside then cur else 0) \<le> best'" using assms(1,3) by (auto simp: scanned_def split: if_splits)
  have 1: "l = 0" if "s + l = b + 1" "free_run used s l" for s l
    using that assms(2) by (cases l) (auto simp: free_run_def)
  have 2: "l \<le> best'" if "s + l \<le> b + 1" "free_run used s l" for s l
  proof (cases "s + l = b + 1")
    case False
    then have "l \<le> max best (if inside then cur else 0)" using that by (intro scannedD [OF assms(1)]) simp_all
    then show ?thesis using b(2) by (rule le_trans)
  next
    case True
    then have "l = 0" using 1 that(2) by blast
    then show ?thesis by simp
  qed
  show ?thesis unfolding scanned_def using b(1)
    by (simp only: if_False if_True) (intro conjI allI impI TrueI; (elim conjE)?; simp add: 1 2)
qed

lemma scan_runs_best:
  assumes "n \<le> 8 * length bm" "4 dvd length bm" "scanned (bm_bit bm) b inside start cur (fst best) req" "b \<le> n"
  shows "\<exists>r. scan_runs bm indx req b n inside start cur best = Some r \<and> (case r of
      Inl (len, g, s) \<Rightarrow> len = req \<and> g = indx \<and> s + req \<le> n \<and> free_run (bm_bit bm) s req
    | Inr best' \<Rightarrow> fst best \<le> fst best' \<and> fst best' < req \<and>
        (best' = best \<or> (case best' of (len, g, s) \<Rightarrow> g = indx \<and> s + len \<le> n \<and> free_run (bm_bit bm) s len)) \<and>
        (\<forall>s l. s + l \<le> n \<and> free_run (bm_bit bm) s l \<longrightarrow> l \<le> fst best'))"
  using assms(3,4)
proof (induction "n - b" arbitrary: b inside start cur best)
  case 0
  then have b: "b = n" by simp
  have "scan_runs bm indx req b n inside start cur best = Some (Inr (if inside \<and> cur > fst best then (cur, indx, start) else best))"
    using b by (subst scan_runs.simps) simp
  then show ?case using 0 b by (auto simp: scanned_def max_def split: if_splits)
next
  case (Suc k)
  then have b: "b < n" "4 * (b div 32) + 4 \<le> length bm" using word_in [OF _ assms(2)] assms(1) by auto
  have k: "k = n - (b + 1)" "b + 1 \<le> n" using Suc.hyps(2) by simp_all
  show ?case
  proof (cases "bm_bit bm b")
    case True
    define best' where "best' = (if inside \<and> cur > fst best then (cur, indx, start) else best)"
    have f: "fst best' = (if inside \<and> cur > fst best then cur else fst best)" by (simp add: best'_def)
    have eq: "scan_runs bm indx req b n inside start cur best = scan_runs bm indx req (b + 1) n False start 0 best'"
      using b True by (subst scan_runs.simps) (simp add: get_word_def and_bit_mask bm_bit_def best'_def)
    have run: "best' = best \<or> (case best' of (len, g, s) \<Rightarrow> g = indx \<and> s + len \<le> n \<and> free_run (bm_bit bm) s len)"
      using Suc.prems b by (auto simp: best'_def scanned_def)
    have le: "fst best \<le> fst best'" by (simp add: f)
    have "scanned (bm_bit bm) (b + 1) False start 0 (fst best') req"
      using scanned_used [OF Suc.prems(1) True f] .
    from Suc.hyps(1) [OF k(1) this k(2)] show ?thesis
      unfolding eq using run le by (elim exE conjE) (auto split: sum.splits intro: le_trans)
  next
    case False
    define start' where "start' = (if inside then start else b)"
    define cur' where "cur' = (if inside then cur + 1 else 1)"
    note st = scanned_free [OF Suc.prems(1) False start'_def cur'_def]
    have eq: "scan_runs bm indx req b n inside start cur best =
        (if cur' = req then Some (Inl (req, indx, start')) else scan_runs bm indx req (b + 1) n True start' cur' best)"
      using b False by (subst scan_runs.simps) (simp add: get_word_def and_bit_mask bm_bit_def start'_def cur'_def)
    show ?thesis
    proof (cases "cur' = req")
      case True
      then show ?thesis unfolding eq using st b(1) by simp
    next
      case False
      then have "scanned (bm_bit bm) (b + 1) True start' cur' (fst best) req" using st by simp
      from Suc.hyps(1) [OF k(1) this k(2)] show ?thesis unfolding eq using False by simp
    qed
  qed
qed

text \<open>The search over groups. A group that counts fewer free blocks than the best run so far is skipped, so the claim about
  the longest run is on runs that the counts allow.\<close>

definition run_in :: "('d \<Rightarrow> nat \<Rightarrow> u8) \<Rightarrow> 'd ext2 \<Rightarrow> nat \<Rightarrow> nat \<Rightarrow> nat \<Rightarrow> bool" where
  "run_in byte fs g s l \<longleftrightarrow> g < ngroups fs \<and> s + l \<le> unat (per_group Blocks fs) \<and> free_run (used_bit byte Blocks fs g) s l"

definition run_counted :: "('d \<Rightarrow> nat \<Rightarrow> u8) \<Rightarrow> 'd ext2 \<Rightarrow> nat \<Rightarrow> nat \<Rightarrow> nat \<Rightarrow> bool" where
  "run_counted byte fs g s l \<longleftrightarrow> run_in byte fs g s l \<and> l \<le> unat (group_unallocated_block_count (block_group_table fs ! g))"

definition best_of :: "('d \<Rightarrow> nat \<Rightarrow> u8) \<Rightarrow> 'd ext2 \<Rightarrow> run \<Rightarrow> bool" where
  "best_of byte fs best \<longleftrightarrow> (case best of (len, g, s) \<Rightarrow> len = 0 \<or> run_in byte fs g s len)"

definition runs_ok :: "('d \<Rightarrow> nat \<Rightarrow> u8) \<Rightarrow> 'd ext2 \<Rightarrow> nat \<Rightarrow> nat \<Rightarrow> nat set \<Rightarrow> run_search \<Rightarrow> bool" where
  "runs_ok byte fs req m G s \<longleftrightarrow> (case s of
      Run buf (len, g, st) \<Rightarrow> length buf = bsz fs \<and> len = req \<and> run_in byte fs g st len
    | Best buf best \<Rightarrow> length buf = bsz fs \<and> best_of byte fs best \<and> m \<le> fst best \<and> fst best < req \<and>
        (\<forall>g \<in> G. \<forall>s l. run_counted byte fs g s l \<longrightarrow> l \<le> fst best)
    | Read_Error \<Rightarrow> False)"

lemma runs_ok_Best:
  assumes "runs_ok byte fs req m {a..<ngroups fs} (Best buf best)" "runs_ok byte fs req (fst best) {0..<a} s"
  shows "runs_ok byte fs req 0 UNIV s"
proof (cases s)
  case (Best buf' best')
  have "l \<le> fst best'" if "run_counted byte fs g st l" for g st l
  proof (cases "g < a")
    case False
    then have "g \<in> {a..<ngroups fs}" using that by (simp add: run_counted_def run_in_def)
    then have "l \<le> fst best" using assms(1) that unfolding runs_ok_def by auto
    moreover have "fst best \<le> fst best'" using assms(2) Best by (simp add: runs_ok_def)
    ultimately show ?thesis by (rule le_trans)
  next
    case True
    then have "g \<in> {0..<a}" by simp
    then show ?thesis using assms(2) Best that unfolding runs_ok_def by auto
  qed
  then show ?thesis using assms(2) Best by (simp add: runs_ok_def)
next
  case (Run buf' x)
  then show ?thesis using assms(2) by (simp add: runs_ok_def)
next
  case Read_Error
  then show ?thesis using assms(2) by (simp add: runs_ok_def)
qed

context byte_device
begin

lemma run_groups_best:
  assumes ok: "ext2_ok dsize fs" and "\<forall>g \<in> set is. g < ngroups fs" "length buf = bsz fs" "best_of byte fs best" "fst best < req"
  shows "\<exists>s. run_groups dev fs req buf best is = Some s \<and> runs_ok byte fs req (fst best) (set is) s"
  unfolding runs_ok_def
  using assms(2-)
proof (induction "is" arbitrary: buf best)
  case (Cons g "is")
  have g: "g < ngroups fs" "\<forall>g \<in> set is. g < ngroups fs" using Cons.prems(1) by simp_all
  have len: "\<not> length (block_group_table fs) \<le> g" using g ext2_okD(1) [OF ok] by simp
  define free where "free = unat (group_unallocated_block_count (block_group_table fs ! g))"
  have skip: ?case if b': "run_groups dev fs req buf best (g # is) = run_groups dev fs req b' best' is" "length b' = bsz fs"
    "best_of byte fs best'" "fst best' < req" "fst best \<le> fst best'" "\<forall>s l. run_counted byte fs g s l \<longrightarrow> l \<le> fst best'" for b' best'
  proof -
    obtain s where s: "run_groups dev fs req b' best' is = Some s" "case s of
      Run buf' (len, g, st) \<Rightarrow> length buf' = bsz fs \<and> len = req \<and> run_in byte fs g st len
    | Best buf' best'' \<Rightarrow> length buf' = bsz fs \<and> best_of byte fs best'' \<and> fst best' \<le> fst best'' \<and> fst best'' < req \<and>
        (\<forall>g \<in> set is. \<forall>s l. run_counted byte fs g s l \<longrightarrow> l \<le> fst best'')
    | Read_Error \<Rightarrow> False" using Cons.IH [OF g(2) b'(2,3,4)] by blast
    have long: "l \<le> m" if "run_counted byte fs g st l" "fst best' \<le> m" for st l m using b'(6) that le_trans by blast
    show ?thesis unfolding b'(1) using s b'(5)
      by (intro exI [of _ s]) (auto split: run_search.splits intro: le_trans long)
  qed
  show ?case
  proof (cases "free = 0 \<or> free < fst best")
    case True
    have "run_groups dev fs req buf best (g # is) = run_groups dev fs req buf best is"
      using True len by (auto simp: free_def Let_def)
    moreover have "\<forall>s l. run_counted byte fs g s l \<longrightarrow> l \<le> fst best" using True by (auto simp: run_counted_def free_def)
    ultimately show ?thesis using skip [of buf best] Cons.prems by blast
  next
    case False
    define bm where "bm = block_bytes byte fs (bitmap_at Blocks fs g)"
    have lbm: "length bm = bsz fs" by (simp add: bm_def)
    have buf: "put_at buf 0 bm = bm" using Cons.prems(2) lbm by (simp add: put_at_def)
    have used: "bm_bit bm = used_bit byte Blocks fs g" by (simp add: fun_eq_iff used_bit_def bm_def)
    have w: "unat (per_group Blocks fs) \<le> 8 * length bm" "4 dvd length bm" using ext2_okD(3,10) [OF ok] lbm by simp_all
    have "scanned (bm_bit bm) 0 False 0 0 (fst best) req" using Cons.prems(4) by (simp add: scanned_def)
    from scan_runs_best [OF w this, of g] obtain r where
      r: "scan_runs bm g req 0 (unat (per_group Blocks fs)) False 0 0 best = Some r" "case r of
      Inl (len, g', s) \<Rightarrow> len = req \<and> g' = g \<and> s + req \<le> unat (per_group Blocks fs) \<and> free_run (bm_bit bm) s req
    | Inr best' \<Rightarrow> fst best \<le> fst best' \<and> fst best' < req \<and>
        (best' = best \<or> (case best' of (len, g', s) \<Rightarrow> g' = g \<and> s + len \<le> unat (per_group Blocks fs) \<and> free_run (bm_bit bm) s len)) \<and>
        (\<forall>s l. s + l \<le> unat (per_group Blocks fs) \<and> free_run (bm_bit bm) s l \<longrightarrow> l \<le> fst best')" by auto
    note rd = read_bitmap [OF ok g(1), of Blocks, folded bm_def] and res = device_result [OF ok]
    have pg: "per_group Blocks fs = blocks_per_block_group (superblock fs)" by (simp add: per_group_def)
    have step: "run_groups dev fs req buf best (g # is) = (case r of Inl x \<Rightarrow> Some (Run bm x) | Inr best' \<Rightarrow> run_groups dev fs req bm best' is)"
      using False len rd res r(1) by (simp add: buf free_def [symmetric] pg split: sum.splits)
    show ?thesis
    proof (cases r)
      case (Inl x)
      then show ?thesis unfolding step using r(2) g(1) lbm by (auto simp: run_in_def used split: prod.splits)
    next
      case (Inr best')
      have e: "run_groups dev fs req buf best (g # is) = run_groups dev fs req bm best' is" using step Inr by simp
      have b: "best_of byte fs best'" using r(2) Inr Cons.prems(3) g(1) by (auto simp: best_of_def run_in_def used split: prod.splits)
      have "\<forall>s l. run_counted byte fs g s l \<longrightarrow> l \<le> fst best'" using r(2) Inr by (auto simp: run_counted_def run_in_def used)
      then show ?thesis using skip [OF e lbm b] r(2) Inr by simp
    qed
  qed
qed simp

lemma mark_run_marks:
  assumes "b + k \<le> 8 * length bm" "4 dvd length bm"
  shows "\<exists>bm'. mark_run bm b k = Some bm' \<and> length bm' = length bm \<and> (\<forall>c. bm_bit bm' c \<longleftrightarrow> (b \<le> c \<and> c < b + k) \<or> bm_bit bm c)"
  using assms
proof (induction k arbitrary: bm b)
  case 0
  then show ?case by auto
next
  case (Suc k)
  obtain bm1 where m: "mark_used bm b = Some bm1" "length bm1 = length bm" "\<forall>c. bm_bit bm1 c \<longleftrightarrow> c = b \<or> bm_bit bm c"
    using mark_used_bit [of b bm] Suc.prems by auto
  have "b + 1 + k \<le> 8 * length bm1" "4 dvd length bm1" using Suc.prems m(2) by simp_all
  from Suc.IH [OF this] obtain bm2 where "mark_run bm1 (b + 1) k = Some bm2" "length bm2 = length bm1"
    "\<forall>c. bm_bit bm2 c \<longleftrightarrow> (b + 1 \<le> c \<and> c < b + 1 + k) \<or> bm_bit bm1 c" by blast
  then show ?case using m by (intro exI [of _ bm2]) auto
qed

lemma perform_allocation_runs:
  assumes ok: "ext2_ok dsize fs" and len: "length buf = bsz fs" and run: "run_in byte fs g s l"
  shows "\<exists>fs' bm. perform_allocation dev buf fs (l, g, s) = Some (of_nat (block_no fs g s), Some l, fs') \<and>
    (\<forall>c. bm_bit bm c \<longleftrightarrow> (s \<le> c \<and> c < s + l) \<or> used_bit byte Blocks fs g c) \<and> bitmap_replaced byte dsize Blocks g bm (- of_nat l) fs fs'"
proof -
  have g: "g < ngroups fs" "s + l \<le> unat (per_group Blocks fs)" using run by (simp_all add: run_in_def)
  define b0 where "b0 = block_bytes byte fs (bitmap_at Blocks fs g)"
  have lb: "length b0 = bsz fs" by (simp add: b0_def)
  have "s + l \<le> 8 * length b0" "4 dvd length b0"
    using g(2) ext2_okD(3) [OF ok] ext2_okD(10) [OF ok, of Blocks] lb by simp_all
  from mark_run_marks [OF this] obtain bm where bm: "mark_run b0 s l = Some bm" "length bm = bsz fs"
    "\<forall>c. bm_bit bm c \<longleftrightarrow> (s \<le> c \<and> c < s + l) \<or> used_bit byte Blocks fs g c"
    using lb by (auto simp: used_bit_def b0_def)
  have "\<not> length (block_group_table fs) \<le> g" using g ext2_okD(1) [OF ok] by simp
  note rd = read_bitmap [OF ok g(1), of Blocks, folded b0_def] and res = device_result [OF ok]
  have buf: "put_at buf 0 b0 = b0" using len lb by (simp add: put_at_def)
  obtain d where wr: "blk_write dev (dev_state fs) (bitmap_offset Blocks fs g) (block_size fs) bm = (ucast (block_size fs), d)"
    using write_bitmap_keeps(1) [OF ok g(1) bm(2), of Blocks] by (metis prod.collapse)
  define fs' where "fs' = count_free dev Blocks g (- of_nat l) (fs \<lparr> dev_state := d \<rparr>)"
  have rep: "bitmap_replaced byte dsize Blocks g bm (- of_nat l) fs fs'"
    using commit_bitmap [OF ok g(1) bm(2), of Blocks "- of_nat l"] wr by (simp add: fs'_def)
  note geo' = bitmap_replaced_geo [OF rep]
  have "perform_allocation dev buf fs (l, g, s) = Some (of_nat (block_no fs g s), Some l, fs')"
    using \<open>\<not> length (block_group_table fs) \<le> g\<close> rd res bm(1) wr geoD(6) [OF geo', of Blocks] geoD(7) [OF geo']
    by (simp add: perform_allocation_def Let_def buf fs'_def [symmetric] block_no_def) (simp add: per_group_def)
  then show ?thesis using bm(3) rep by blast
qed

lemma allocate_blocks_runs:
  assumes ok: "ext2_ok dsize fs" and start: "unat start \<le> ngroups fs" and fresh: "length (fresh (bsz fs)) = bsz fs"
    and req: "requested \<noteq> 0" "requested \<le> unallocated_block_count (superblock fs)"
    and r: "r = unat (min requested (blocks_per_block_group (superblock fs)))"
  shows "\<exists>res. allocate_blocks dev fresh fs start requested = Some res \<and>
    ((\<exists>g s l fs' bm. res = (of_nat (block_no fs g s), Some l, fs') \<and> 0 < l \<and> l \<le> r \<and> run_in byte fs g s l \<and>
        (\<forall>c. bm_bit bm c \<longleftrightarrow> (s \<le> c \<and> c < s + l) \<or> used_bit byte Blocks fs g c) \<and>
        bitmap_replaced byte dsize Blocks g bm (- of_nat l) fs fs' \<and>
        (l < r \<longrightarrow> (\<forall>g' s' l'. run_counted byte fs g' s' l' \<longrightarrow> l' \<le> l))) \<or>
     (res = (- ENOSPC64, None, fs) \<and> (\<forall>g s l. run_counted byte fs g s l \<longrightarrow> l = 0)))"
proof -
  have n: "unat (ucast (block_group_count fs) :: u32) = ngroups fs"
    using ext2_okD(2) [OF ok] by (subst unat_trunc32) (simp_all add: ngroups_def)
  have r0: "0 < r" using req(1) ext2_okD(9) [OF ok, of Blocks]
    by (auto simp: r min_def per_group_def unat_gt_0 word_neq_0_conv)
  note p = perform_allocation_runs [OF ok]
  have u: "unat (block_size fs) = bsz fs" by (simp add: bsz_def)
  define finish where "finish = (\<lambda>s. case s of
         Run buf x \<Rightarrow> perform_allocation dev buf fs x
       | Read_Error \<Rightarrow> Some (- EIO64, None, fs)
       | Best buf best \<Rightarrow> if fst best = 0 then Some (- ENOSPC64, None, fs) else perform_allocation dev buf fs best)"
  obtain s1 where s1: "run_groups dev fs r (fresh (bsz fs)) (0, 0, 0) [unat start..<ngroups fs] = Some s1"
    "runs_ok byte fs r 0 {unat start..<ngroups fs} s1"
    using run_groups_best [OF ok, of "[unat start..<ngroups fs]" "fresh (bsz fs)" "(0, 0, 0)" r] fresh r0
    by (auto simp: best_of_def)
  have eq: "allocate_blocks dev fresh fs start requested =
      Option.bind (run_groups dev fs r (fresh (bsz fs)) (0, 0, 0) [unat start..<ngroups fs])
        (\<lambda>s. Option.bind (case s of Best buf best \<Rightarrow> run_groups dev fs r buf best [0..<unat start] | _ \<Rightarrow> Some s) finish)"
    using req by (simp add: allocate_blocks_def n u r [symmetric] finish_def not_less del: upt_rec_numeral)
  obtain s2 where s2: "allocate_blocks dev fresh fs start requested = finish s2" "runs_ok byte fs r 0 UNIV s2"
  proof (cases s1)
    case (Run buf x)
    have "runs_ok byte fs r 0 UNIV s1" using s1(2) Run by (simp add: runs_ok_def)
    then show thesis using that [of s1] s1(1) Run by (simp add: eq)
  next
    case (Best buf best)
    have b: "length buf = bsz fs" "best_of byte fs best" "fst best < r" using s1(2) Best by (auto simp: runs_ok_def)
    then obtain s where s: "run_groups dev fs r buf best [0..<unat start] = Some s" "runs_ok byte fs r (fst best) {0..<unat start} s"
      using run_groups_best [OF ok, of "[0..<unat start]" buf best r] start by auto
    have "allocate_blocks dev fresh fs start requested = finish s"
      using Best s1(1) s(1) by (simp add: eq)
    moreover have "runs_ok byte fs r 0 UNIV s" using runs_ok_Best [OF _ s(2)] s1(2) Best by blast
    ultimately show thesis by (rule that)
  qed (use s1(2) in \<open>simp add: runs_ok_def\<close>)
  show ?thesis
  proof (cases s2)
    case (Run buf x)
    obtain l g s where x: "x = (l, g, s)" by (cases x)
    have *: "length buf = bsz fs" "run_in byte fs g s l" "l = r" using s2(2) Run x by (auto simp: runs_ok_def)
    show ?thesis using p [OF *(1,2)] *(2,3) r0 s2(1) Run x
      by (elim exE conjE) (intro exI conjI disjI1, auto simp: finish_def)
  next
    case (Best buf best)
    obtain l g s where x: "best = (l, g, s)" by (cases best)
    show ?thesis
    proof (cases "l = 0")
      case True
      then show ?thesis using s2 Best x by (auto simp: finish_def runs_ok_def)
    next
      case False
      then have *: "length buf = bsz fs" "run_in byte fs g s l" "l < r" "\<forall>g s l'. run_counted byte fs g s l' \<longrightarrow> l' \<le> l"
        using s2(2) Best x by (auto simp: best_of_def runs_ok_def)
      show ?thesis using p [OF *(1,2)] *(2,3,4) False s2(1) Best x
        by (elim exE conjE) (intro exI conjI disjI1, auto simp: finish_def)
    qed
  qed (use s2 in \<open>simp add: runs_ok_def\<close>)
qed

end

text \<open>C34: A request for a run of at most as many blocks as the superblock counts as free returns a run inside one group, not longer than
  the request and a group, all of whose blocks were free; its bits and no others become set, the counts fall by its
  length and the bytes outside the bitmap and the two tables stay. If the run is shorter than asked for, it is at least as
  long as every run that the counts of its group allow; only when there is none is the answer \<^verbatim>\<open>-ENOSPC\<close>.\<close>

theorem allocate_blocks_bounds:
  assumes "byte_device dev n byte" "ext2_ok n fs" "unat start \<le> ngroups fs" "length (fresh (bsz fs)) = bsz fs"
    and "requested \<noteq> 0" "requested \<le> unallocated_block_count (superblock fs)"
    and "r = unat (min requested (blocks_per_block_group (superblock fs)))"
  shows "\<exists>res. allocate_blocks dev fresh fs start requested = Some res \<and>
    ((\<exists>g s l fs'. res = (of_nat (block_no fs g s), Some l, fs') \<and> 0 < l \<and> l \<le> r \<and> g < ngroups fs \<and>
        s + l \<le> unat (blocks_per_block_group (superblock fs)) \<and> (\<forall>c. s \<le> c \<and> c < s + l \<longrightarrow> \<not> used_bit byte Blocks fs g c) \<and>
        (\<forall>k g' c. g' < ngroups fs \<longrightarrow> used_bit byte k fs' g' c = ((k = Blocks \<and> g' = g \<and> s \<le> c \<and> c < s + l) \<or> used_bit byte k fs g' c)) \<and>
        fs' = counted Blocks g (- of_nat l) fs \<lparr> dev_state := dev_state fs' \<rparr> \<and>
        keeps_outside byte n fs fs' (tables_region fs \<union> block_region fs (bitmap_at Blocks fs g)) \<and>
        (l < r \<longrightarrow> (\<forall>g' s' l'. run_counted byte fs g' s' l' \<longrightarrow> l' \<le> l))) \<or>
     (res = (- ENOSPC64, None, fs) \<and> (\<forall>g s l. run_counted byte fs g s l \<longrightarrow> l = 0)))"
proof -
  obtain res where res: "allocate_blocks dev fresh fs start requested = Some res"
    "(\<exists>g s l fs' bm. res = (of_nat (block_no fs g s), Some l, fs') \<and> 0 < l \<and> l \<le> r \<and> run_in byte fs g s l \<and>
        (\<forall>c. bm_bit bm c \<longleftrightarrow> (s \<le> c \<and> c < s + l) \<or> used_bit byte Blocks fs g c) \<and>
        bitmap_replaced byte n Blocks g bm (- of_nat l) fs fs' \<and>
        (l < r \<longrightarrow> (\<forall>g' s' l'. run_counted byte fs g' s' l' \<longrightarrow> l' \<le> l))) \<or>
     (res = (- ENOSPC64, None, fs) \<and> (\<forall>g s l. run_counted byte fs g s l \<longrightarrow> l = 0))"
    using byte_device.allocate_blocks_runs [OF assms(1), where fresh = fresh, OF assms(2-7)] by blast
  show ?thesis using res(2)
  proof (elim disjE exE conjE)
    fix g s l fs' bm
    assume a: "res = (of_nat (block_no fs g s), Some l, fs')" "0 < l" "l \<le> r" "run_in byte fs g s l"
      "\<forall>c. bm_bit bm c \<longleftrightarrow> (s \<le> c \<and> c < s + l) \<or> used_bit byte Blocks fs g c"
      "bitmap_replaced byte n Blocks g bm (- of_nat l) fs fs'" "l < r \<longrightarrow> (\<forall>g' s' l'. run_counted byte fs g' s' l' \<longrightarrow> l' \<le> l)"
    have g: "g < ngroups fs" using a(4) by (simp add: run_in_def)
    have bits: "used_bit byte k fs' g' c = ((k = Blocks \<and> g' = g \<and> s \<le> c \<and> c < s + l) \<or> used_bit byte k fs g' c)"
      if "g' < ngroups fs" for k g' c
      unfolding bitmap_replaced_bits [OF a(6) assms(2) g that] using a(5) by auto
    show ?thesis using res(1) a(1-4,6,7) bits
      by (intro exI [of _ res] conjI disjI1 exI [of _ g] exI [of _ s] exI [of _ l] exI [of _ fs'])
        (simp_all add: run_in_def free_run_def per_group_def bitmap_replaced_def)
  qed (use res(1) in auto)
qed

theorem allocate_blocks_bounds_witness:
  "\<exists>res. allocate_blocks (mem_disk 0x200) (\<lambda>n. replicate n 0) example_ext2 0 4 = Some res \<and>
    (case res of (_, Some l, _) \<Rightarrow> 0 < l \<and> l \<le> 4 | (e, None, _) \<Rightarrow> e = - ENOSPC64)"
proof -
  have pre: "unat (0 :: u32) \<le> ngroups example_ext2" "length (replicate (bsz example_ext2) (0 :: u8)) = bsz example_ext2"
    "(4 :: u32) \<le> unallocated_block_count (superblock example_ext2)"
    "4 = unat (min 4 (blocks_per_block_group (superblock example_ext2)))"
    by (simp_all add: example_ext2_def example_superblock_def)
  show ?thesis
    using allocate_blocks_bounds [OF mem_disk_device [of 65536 "0x200"], where fresh = "\<lambda>n. replicate n 0",
      OF _ example_ext2_ok pre(1,2) _ pre(3,4)] by auto
qed

end
