(* ===== verification/Ext2_Files.thy ===== *)
theory Ext2_Files
  imports Ext2
begin

text \<open>
  Files of ext2 (ext2_inode.cpp): inodes in their tables, the block map of an inode with its three levels of indirect blocks,
  and reading, writing, truncating and freeing the contents. A result of the block map is a block number, 0 for a
  hole. \<open>now\<close> is the current time.
\<close>

subsection \<open>Inodes\<close>

definition inode_bytes_on_disk :: "'d ext2 \<Rightarrow> u32" where
  "inode_bytes_on_disk fs = (if major_version (superblock fs) \<ge> 1 then ucast (inode_size (extended_superblock fs)) else 128)"

text \<open>The place of an inode; offsets in the table are of 32 bits.\<close>

definition inode_offset :: "'d ext2 \<Rightarrow> u32 \<Rightarrow> u64 option" where
  "inode_offset fs inode =
     (let ipg = inodes_per_block_group (superblock fs) in
      if ipg = 0 \<or> block_size fs = 0 then None
      else let block_group = (inode - 1) div ipg; index = (inode - 1) mod ipg;
               total_byte_offset = index * inode_bytes_on_disk fs;
               containing_block = ucast (ucast total_byte_offset div block_size fs) :: u32;
               offset_in_block = ucast (ucast total_byte_offset mod block_size fs) :: u32
        in if unat block_group \<ge> length (block_group_table fs) then None
           else Some (block_to_offset fs (inode_table_block_address (block_group_table fs ! unat block_group) + containing_block)
                  + ucast offset_in_block))"

text \<open>The inner \<open>None\<close> is a null pointer.\<close>

definition fetch_inode :: "'d blkdev \<Rightarrow> 'd ext2 \<Rightarrow> u32 \<Rightarrow> ext2_inode option option" where
  "fetch_inode blk fs inode =
     map_option (\<lambda>off. let to_read = min 120 (inode_bytes_on_disk fs);
           (ret, got) = blk_read blk (dev_state fs) off (ucast to_read)
         in if ret = 0 then None else Some (inode_of (put_at (replicate 120 0) 0 got))) (inode_offset fs inode)"

definition update_inode :: "'d blkdev \<Rightarrow> u32 \<Rightarrow> 'd ext2 \<Rightarrow> u32 \<Rightarrow> ext2_inode \<Rightarrow> 'd ext2 option" where
  "update_inode blk now fs inode node =
     map_option (\<lambda>off. let to_write = min 120 (inode_bytes_on_disk fs)
         in fs \<lparr> dev_state := snd (blk_write blk (dev_state fs) off (ucast to_write)
              (take (unat to_write) (inode_bytes (node \<lparr> change_time := now \<rparr>)))) \<rparr>) (inode_offset fs inode)"

definition get_inode_size :: "'d ext2 \<Rightarrow> ext2_inode \<Rightarrow> u64" where
  "get_inode_size fs inode =
     (if ro_features (extended_superblock fs) AND 2 \<noteq> 0 then ucast (size_low inode) OR push_bit 32 (ucast (size_upper inode))
      else ucast (size_low inode))"

subsection \<open>Indirect blocks\<close>

definition create_indirect_block :: "'d blkdev \<Rightarrow> (nat \<Rightarrow> u8 list) \<Rightarrow> 'd ext2 \<Rightarrow> u32 \<Rightarrow> (u32 \<times> 'd ext2) option" where
  "create_indirect_block blk fresh fs parent_group =
     map_option (\<lambda>(block, fs).
       if block \<le>s 0 then (0, fs)
       else (ucast block, fs \<lparr> dev_state := snd (blk_write blk (dev_state fs) (block_to_offset fs (ucast block)) (block_size fs)
              (replicate (unat (block_size fs)) 0)) \<rparr>)) (allocate_block blk fresh fs parent_group)"

text \<open>The result of the read is not looked at.\<close>

definition read_block :: "'d blkdev \<Rightarrow> (nat \<Rightarrow> u8 list) \<Rightarrow> 'd ext2 \<Rightarrow> u32 \<Rightarrow> u8 list" where
  "read_block blk fresh fs block_id =
     put_at (fresh (unat (block_size fs))) 0 (snd (blk_read blk (dev_state fs) (block_to_offset fs block_id) (block_size fs)))"

definition read_indirect_entry :: "'d blkdev \<Rightarrow> (nat \<Rightarrow> u8 list) \<Rightarrow> 'd ext2 \<Rightarrow> u32 \<Rightarrow> u32 \<Rightarrow> u32 option" where
  "read_indirect_entry blk fresh fs block_id index = get_word (read_block blk fresh fs block_id) (unat index)"

definition set_indirect_entry :: "'d blkdev \<Rightarrow> (nat \<Rightarrow> u8 list) \<Rightarrow> 'd ext2 \<Rightarrow> u32 \<Rightarrow> u32 \<Rightarrow> u32 \<Rightarrow> (bool \<times> 'd ext2) option" where
  "set_indirect_entry blk fresh fs block_id index value =
     map_option (\<lambda>_. let (ret, d) = blk_write blk (dev_state fs) (block_to_offset fs block_id) (block_size fs)
             (set_word (read_block blk fresh fs block_id) (unat index) value)
         in (ret \<noteq> 0, fs \<lparr> dev_state := d \<rparr>)) (get_word (read_block blk fresh fs block_id) (unat index))"

definition get_physical_block_l1 :: "'d blkdev \<Rightarrow> (nat \<Rightarrow> u8 list) \<Rightarrow> 'd ext2 \<Rightarrow> u32 \<Rightarrow> u32 \<Rightarrow> u32 option" where
  "get_physical_block_l1 blk fresh fs l1_table logical = read_indirect_entry blk fresh fs l1_table logical"

definition get_physical_block_l2 :: "'d blkdev \<Rightarrow> (nat \<Rightarrow> u8 list) \<Rightarrow> 'd ext2 \<Rightarrow> u32 \<Rightarrow> u32 \<Rightarrow> u32 \<Rightarrow> u32 option" where
  "get_physical_block_l2 blk fresh fs l2_table logical_l2 logical_l1 =
     Option.bind (read_indirect_entry blk fresh fs l2_table logical_l2) (\<lambda>result.
       if result = 0 then Some 0 else get_physical_block_l1 blk fresh fs result logical_l1)"

definition get_physical_block_l3 :: "'d blkdev \<Rightarrow> (nat \<Rightarrow> u8 list) \<Rightarrow> 'd ext2 \<Rightarrow> u32 \<Rightarrow> u32 \<Rightarrow> u32 \<Rightarrow> u32 \<Rightarrow> u32 option" where
  "get_physical_block_l3 blk fresh fs l3_table logical_l3 logical_l2 logical_l1 =
     Option.bind (read_indirect_entry blk fresh fs l3_table logical_l3) (\<lambda>result.
       if result = 0 then Some 0 else get_physical_block_l2 blk fresh fs result logical_l2 logical_l1)"

definition p_per_block :: "'d ext2 \<Rightarrow> u32" where "p_per_block fs = ucast (block_size fs div 4)"

definition get_physical_block :: "'d blkdev \<Rightarrow> (nat \<Rightarrow> u8 list) \<Rightarrow> 'd ext2 \<Rightarrow> ext2_inode \<Rightarrow> u64 \<Rightarrow> u32 option" where
  "get_physical_block blk fresh fs inode logical_block =
     (if logical_block < 12 then Some (direct_block_pointer inode ! unat logical_block)
      else let logical_block = logical_block - 12; p = p_per_block fs in
        if logical_block < ucast p then
          if single_indirect_block_pointer inode = 0 then Some 0
          else get_physical_block_l1 blk fresh fs (single_indirect_block_pointer inode) (ucast logical_block)
        else let logical_block = logical_block - ucast p in
        if logical_block < ucast p * ucast p then
          if double_indirect_block_pointer inode = 0 then Some 0
          else get_physical_block_l2 blk fresh fs (double_indirect_block_pointer inode)
                 (ucast (logical_block div ucast p)) (ucast (logical_block mod ucast p))
        else let logical_block = logical_block - ucast (p * p) in
        if p * p = 0 then None
        else let remainder = ucast (logical_block mod ucast (p * p)) :: u32 in
          if triple_indirect_block_pointer inode = 0 then Some 0
          else get_physical_block_l3 blk fresh fs (triple_indirect_block_pointer inode)
                 (ucast (logical_block div ucast (p * p))) (remainder div p) (remainder mod p))"

definition set_physical_block_l1 ::
    "'d blkdev \<Rightarrow> (nat \<Rightarrow> u8 list) \<Rightarrow> 'd ext2 \<Rightarrow> u32 \<Rightarrow> u32 \<Rightarrow> u32 \<Rightarrow> (bool \<times> 'd ext2) option" where
  "set_physical_block_l1 blk fresh fs l1_table logical value = set_indirect_entry blk fresh fs l1_table logical value"

text \<open>The group for a new table is a division by the blocks of a group.\<close>

definition group_of_block :: "'d ext2 \<Rightarrow> u32 \<Rightarrow> u32 option" where
  "group_of_block fs block =
     (if blocks_per_block_group (superblock fs) = 0 then None else Some (block div blocks_per_block_group (superblock fs)))"

definition entry_or_create ::
    "'d blkdev \<Rightarrow> (nat \<Rightarrow> u8 list) \<Rightarrow> 'd ext2 \<Rightarrow> u32 \<Rightarrow> u32 \<Rightarrow> (u32 \<times> 'd ext2) option" where
  "entry_or_create blk fresh fs table index =
     Option.bind (read_indirect_entry blk fresh fs table index) (\<lambda>result.
       if result \<noteq> 0 then Some (result, fs)
       else Option.bind (group_of_block fs table) (\<lambda>blk_grp.
         Option.bind (create_indirect_block blk fresh fs blk_grp) (\<lambda>(result, fs).
           if result = 0 then Some (0, fs)
           else map_option (\<lambda>(_, fs). (result, fs)) (set_indirect_entry blk fresh fs table index result))))"

definition set_physical_block_l2 ::
    "'d blkdev \<Rightarrow> (nat \<Rightarrow> u8 list) \<Rightarrow> 'd ext2 \<Rightarrow> u32 \<Rightarrow> u32 \<Rightarrow> u32 \<Rightarrow> u32 \<Rightarrow> (bool \<times> 'd ext2) option" where
  "set_physical_block_l2 blk fresh fs l2_table logical_l2 logical_l1 value =
     Option.bind (entry_or_create blk fresh fs l2_table logical_l2) (\<lambda>(result, fs).
       if result = 0 then Some (False, fs) else set_physical_block_l1 blk fresh fs result logical_l1 value)"

definition set_physical_block_l3 ::
    "'d blkdev \<Rightarrow> (nat \<Rightarrow> u8 list) \<Rightarrow> 'd ext2 \<Rightarrow> u32 \<Rightarrow> u32 \<Rightarrow> u32 \<Rightarrow> u32 \<Rightarrow> u32 \<Rightarrow> (bool \<times> 'd ext2) option" where
  "set_physical_block_l3 blk fresh fs l3_table logical_l3 logical_l2 logical_l1 value =
     Option.bind (entry_or_create blk fresh fs l3_table logical_l3) (\<lambda>(result, fs).
       if result = 0 then Some (False, fs) else set_physical_block_l2 blk fresh fs result logical_l2 logical_l1 value)"

text \<open>A table that the inode lacks is created; a failure leaves block 0 in the inode, and the code goes on with it.\<close>

definition root_or_create ::
    "'d blkdev \<Rightarrow> (nat \<Rightarrow> u8 list) \<Rightarrow> 'd ext2 \<Rightarrow> u32 \<Rightarrow> u32 option \<Rightarrow> (u32 \<times> 'd ext2) option" where
  "root_or_create blk fresh fs root blk_grp =
     (if root \<noteq> 0 then Some (root, fs) else Option.bind blk_grp (create_indirect_block blk fresh fs))"

definition set_physical_block ::
    "'d blkdev \<Rightarrow> (nat \<Rightarrow> u8 list) \<Rightarrow> 'd ext2 \<Rightarrow> ext2_inode \<Rightarrow> u32 \<Rightarrow> u32 \<Rightarrow> (bool \<times> ext2_inode \<times> 'd ext2) option" where
  "set_physical_block blk fresh fs inode logical_block value =
     (if logical_block < 12
      then Some (True, inode \<lparr> direct_block_pointer := (direct_block_pointer inode)[unat logical_block := value] \<rparr>, fs)
      else let logical_block = logical_block - 12; p = p_per_block fs in
        if logical_block < p then
          Option.bind (root_or_create blk fresh fs (single_indirect_block_pointer inode) (Some 0)) (\<lambda>(root, fs).
            map_option (\<lambda>(r, fs). (r, inode \<lparr> single_indirect_block_pointer := root \<rparr>, fs))
              (set_physical_block_l1 blk fresh fs root logical_block value))
        else let logical_block = logical_block - p in
        if ucast logical_block < ucast p * (ucast p :: u64) then
          Option.bind (root_or_create blk fresh fs (double_indirect_block_pointer inode)
              (group_of_block fs (single_indirect_block_pointer inode))) (\<lambda>(root, fs).
            map_option (\<lambda>(r, fs). (r, inode \<lparr> double_indirect_block_pointer := root \<rparr>, fs))
              (set_physical_block_l2 blk fresh fs root (logical_block div p) (logical_block mod p) value))
        else let logical_block = logical_block - p * p in
        if p * p = 0 then None
        else let remainder = logical_block mod (p * p) in
          Option.bind (root_or_create blk fresh fs (triple_indirect_block_pointer inode)
              (group_of_block fs (double_indirect_block_pointer inode))) (\<lambda>(root, fs).
            map_option (\<lambda>(r, fs). (r, inode \<lparr> triple_indirect_block_pointer := root \<rparr>, fs))
              (set_physical_block_l3 blk fresh fs root (logical_block div (p * p)) (remainder div p) (remainder mod p) value)))"

text \<open>Freeing the trees goes over a block of the heap that nothing has filled.\<close>

definition free_single_indirect :: "'d blkdev \<Rightarrow> (nat \<Rightarrow> u8 list) \<Rightarrow> 'd ext2 \<Rightarrow> u32 \<Rightarrow> 'd ext2 option" where
  "free_single_indirect blk fresh fs block = (if block = 0 then Some fs else free_block blk fresh fs block)"

primrec free_listed :: "('d ext2 \<Rightarrow> u32 \<Rightarrow> 'd ext2 option) \<Rightarrow> u8 list \<Rightarrow> 'd ext2 \<Rightarrow> nat list \<Rightarrow> 'd ext2 option" where
  "free_listed free list fs [] = Some fs"
| "free_listed free list fs (i # is) =
     Option.bind (get_word list i) (\<lambda>e.
       Option.bind (if e = 0 then Some fs else free fs e) (\<lambda>fs. free_listed free list fs is))"

definition free_double_indirect :: "'d blkdev \<Rightarrow> (nat \<Rightarrow> u8 list) \<Rightarrow> 'd ext2 \<Rightarrow> u32 \<Rightarrow> 'd ext2 option" where
  "free_double_indirect blk fresh fs block =
     (if block = 0 then Some fs
      else Option.bind (free_listed (free_single_indirect blk fresh) (fresh (unat (block_size fs))) fs [0..<unat (block_size fs div 4)])
             (\<lambda>fs. free_block blk fresh fs block))"

definition free_triple_indirect :: "'d blkdev \<Rightarrow> (nat \<Rightarrow> u8 list) \<Rightarrow> 'd ext2 \<Rightarrow> u32 \<Rightarrow> 'd ext2 option" where
  "free_triple_indirect blk fresh fs block =
     (if block = 0 then Some fs
      else Option.bind (free_listed (free_double_indirect blk fresh) (fresh (unat (block_size fs))) fs [0..<unat (block_size fs div 4)])
             (\<lambda>fs. free_block blk fresh fs block))"

subsection \<open>Contents\<close>

text \<open>How many blocks from the first one follow each other on the device, as far as they are needed.\<close>

partial_function (option) contiguous_blocks ::
    "'d blkdev \<Rightarrow> (nat \<Rightarrow> u8 list) \<Rightarrow> 'd ext2 \<Rightarrow> ext2_inode \<Rightarrow> u32 \<Rightarrow> u32 \<Rightarrow> u32 \<Rightarrow> u64 \<Rightarrow> u32 \<Rightarrow> u32 option" where
  "contiguous_blocks blk fresh fs inode logical_block start_phys_block offset_in_block bytes_needed contiguous_count =
     (if ucast contiguous_count * block_size fs - ucast offset_in_block \<ge> bytes_needed then Some contiguous_count
      else Option.bind (get_physical_block blk fresh fs inode (ucast (logical_block + contiguous_count))) (\<lambda>next_phys.
        if next_phys = start_phys_block + contiguous_count
        then contiguous_blocks blk fresh fs inode logical_block start_phys_block offset_in_block bytes_needed (contiguous_count + 1)
        else Some contiguous_count))"

partial_function (option) load_inode_loop ::
    "'d blkdev \<Rightarrow> (nat \<Rightarrow> u8 list) \<Rightarrow> 'd ext2 \<Rightarrow> ext2_inode \<Rightarrow> u32 \<Rightarrow> u32 \<Rightarrow> u32 \<Rightarrow> u32 \<Rightarrow> u8 list \<Rightarrow> (u64 \<times> u8 list) option" where
  "load_inode_loop blk fresh fs inode logical_block offset_in_block total_read total_to_read buffer =
     (if total_read < total_to_read then
        Option.bind (get_physical_block blk fresh fs inode (ucast logical_block)) (\<lambda>start_phys_block.
          if start_phys_block = 0 then
            let remaining_in_block = ucast (block_size fs - ucast offset_in_block) :: u32;
                zero_len = min remaining_in_block (total_to_read - total_read)
            in load_inode_loop blk fresh fs inode (logical_block + 1) 0 (total_read + zero_len) total_to_read
                 (put_at buffer (unat total_read) (replicate (unat zero_len) 0))
          else let bytes_needed = ucast (total_to_read - total_read) :: u64 in
            Option.bind (contiguous_blocks blk fresh fs inode logical_block start_phys_block offset_in_block bytes_needed 1)
              (\<lambda>contiguous_count.
                let disk_offset = block_to_offset fs start_phys_block + ucast offset_in_block;
                    run_length_bytes = ucast contiguous_count * block_size fs - ucast offset_in_block;
                    actual_read_size = min bytes_needed run_length_bytes;
                    (ret, got) = blk_read blk (dev_state fs) disk_offset actual_read_size;
                    buffer = put_at buffer (unat total_read) got
                in if ret = 0 then Some (- EIO64, buffer)
                   else load_inode_loop blk fresh fs inode (logical_block + contiguous_count) 0
                          (ucast (ucast total_read + actual_read_size)) total_to_read buffer))
      else Some (ucast total_read, buffer))"

text \<open>The result of the fetch is used without a check for null.\<close>

definition load_inode_contents ::
    "'d blkdev \<Rightarrow> (nat \<Rightarrow> u8 list) \<Rightarrow> 'd ext2 \<Rightarrow> u32 \<Rightarrow> u64 \<Rightarrow> u64 \<Rightarrow> u8 list \<Rightarrow> (u64 \<times> u8 list) option" where
  "load_inode_contents blk fresh fs inode_num offset n buffer =
     Option.bind (Option.bind (fetch_inode blk fs inode_num) id) (\<lambda>inode.
       let file_size = get_inode_size fs inode in
       if offset \<ge> file_size then Some (0, buffer)
       else load_inode_loop blk fresh fs inode (ucast (offset div block_size fs)) (ucast (offset mod block_size fs)) 0
              (ucast (min n (file_size - offset))) buffer)"

text \<open>The block for one turn of a write: the one of the map, or a new one that is put into the map. \<open>None\<close> inside ends the
  write.\<close>

definition block_for_write ::
    "'d blkdev \<Rightarrow> (nat \<Rightarrow> u8 list) \<Rightarrow> 'd ext2 \<Rightarrow> ext2_inode \<Rightarrow> u32 \<Rightarrow> u32 \<Rightarrow> bool \<Rightarrow>
     (u32 option \<times> ext2_inode \<times> bool \<times> 'd ext2) option" where
  "block_for_write blk fresh fs inode inode_group logical_block inode_modified =
     Option.bind (get_physical_block blk fresh fs inode (ucast logical_block)) (\<lambda>physical_block.
       if physical_block \<noteq> 0 then Some (Some physical_block, inode, inode_modified, fs)
       else Option.bind (allocate_block blk fresh fs inode_group) (\<lambda>(alloc_ret, fs).
         if alloc_ret <s 0 then Some (None, inode, inode_modified, fs)
         else let physical_block = ucast alloc_ret in
           Option.bind (set_physical_block blk fresh fs inode logical_block physical_block) (\<lambda>(linked, inode, fs).
             if \<not> linked then map_option (\<lambda>fs. (None, inode, inode_modified, fs)) (free_block blk fresh fs physical_block)
             else Some (Some physical_block,
                    inode \<lparr> sectors_used := sectors_used inode + ucast (block_size fs div 512) \<rparr>, True, fs))))"

partial_function (option) write_inode_loop ::
    "'d blkdev \<Rightarrow> (nat \<Rightarrow> u8 list) \<Rightarrow> u32 \<Rightarrow> u64 \<Rightarrow> u8 list \<Rightarrow> 'd ext2 \<Rightarrow> ext2_inode \<Rightarrow> bool \<Rightarrow> u32 \<Rightarrow> u32 \<Rightarrow> u64 \<Rightarrow>
     (u64 \<times> ext2_inode \<times> bool \<times> 'd ext2) option" where
  "write_inode_loop blk fresh inode_group n buffer fs inode inode_modified logical_block offset_in_block total_written =
     (if total_written < n then
        Option.bind (block_for_write blk fresh fs inode inode_group logical_block inode_modified)
          (\<lambda>(physical_block, inode, inode_modified, fs). case physical_block of
             None \<Rightarrow> Some (total_written, inode, inode_modified, fs)
           | Some physical_block \<Rightarrow>
               let remaining_on_block = ucast (block_size fs - ucast offset_in_block) :: u32;
                   to_write = min (n - total_written) (ucast remaining_on_block);
                   phys_offset = block_to_offset fs physical_block + ucast offset_in_block;
                   (ret, d) = blk_write blk (dev_state fs) phys_offset to_write (take (unat to_write) (drop (unat total_written) buffer));
                   fs = fs \<lparr> dev_state := d \<rparr>
               in if ret = 0 then Some (total_written, inode, inode_modified, fs)
                  else write_inode_loop blk fresh inode_group n buffer fs inode inode_modified
                         (logical_block + 1) 0 (total_written + to_write))
      else Some (total_written, inode, inode_modified, fs))"

text \<open>The size of the inode grows to the end of the write; its upper half is the lower half of a 64-bit shift by 32.\<close>

definition extend_size :: "'d ext2 \<Rightarrow> u32 \<Rightarrow> ext2_inode \<Rightarrow> u64 \<Rightarrow> ext2_inode" where
  "extend_size fs now inode end_pos =
     (let inode = inode \<lparr> last_modification_time := now, size_low := ucast end_pos \<rparr>
      in if ro_features (extended_superblock fs) AND 2 \<noteq> 0 then inode \<lparr> size_upper := ucast (push_bit 32 end_pos) \<rparr> else inode)"

definition write_inode_contents ::
    "'d blkdev \<Rightarrow> (nat \<Rightarrow> u8 list) \<Rightarrow> u32 \<Rightarrow> 'd ext2 \<Rightarrow> u32 \<Rightarrow> u64 \<Rightarrow> u64 \<Rightarrow> u8 list \<Rightarrow> (u64 \<times> 'd ext2) option" where
  "write_inode_contents blk fresh now fs inode_num offset n buffer =
     (if n = 0 then Some (0, fs)
      else Option.bind (fetch_inode blk fs inode_num) (\<lambda>inode. case inode of
          None \<Rightarrow> Some (- ENOENT64, fs)
        | Some inode \<Rightarrow>
            let inode_group = (inode_num - 1) div inodes_per_block_group (superblock fs) in
            Option.bind (write_inode_loop blk fresh inode_group n buffer fs inode False
                (ucast (offset div block_size fs)) (ucast (offset mod block_size fs)) 0)
              (\<lambda>(total_written, inode, inode_modified, fs).
                let end_pos = offset + total_written;
                    grown = end_pos > get_inode_size fs inode;
                    inode = (if grown then extend_size fs now inode end_pos else inode)
                in map_option (\<lambda>fs. (if total_written = 0 then - ENOSPC64 else total_written, fs))
                     (if grown \<or> inode_modified then update_inode blk now fs inode_num inode else Some fs))))"

subsection \<open>Truncating and freeing\<close>

text \<open>The bytes of the last block after the smaller size become zeros.\<close>

definition zero_tail :: "'d blkdev \<Rightarrow> (nat \<Rightarrow> u8 list) \<Rightarrow> 'd ext2 \<Rightarrow> ext2_inode \<Rightarrow> u64 \<Rightarrow> 'd ext2 option" where
  "zero_tail blk fresh fs inode boundary_limit =
     (if boundary_limit mod block_size fs = 0 then Some fs
      else let last_logical_blk = ucast (boundary_limit div block_size fs) :: u32;
               offset_in_blk = ucast (boundary_limit mod block_size fs) :: u32
        in map_option (\<lambda>phys.
             if phys = 0 then fs
             else let buf = put_at (read_block blk fresh fs phys) (unat offset_in_blk)
                        (replicate (unat (block_size fs - ucast offset_in_blk)) 0)
                  in fs \<lparr> dev_state := snd (blk_write blk (dev_state fs) (block_to_offset fs phys) (block_size fs) buf) \<rparr>)
             (get_physical_block blk fresh fs inode (ucast last_logical_blk)))"

primrec drop_blocks :: "'d blkdev \<Rightarrow> (nat \<Rightarrow> u8 list) \<Rightarrow> 'd ext2 \<Rightarrow> ext2_inode \<Rightarrow> u32 list \<Rightarrow> (ext2_inode \<times> 'd ext2) option" where
  "drop_blocks blk fresh fs inode [] = Some (inode, fs)"
| "drop_blocks blk fresh fs inode (logical_idx # is) =
     Option.bind (get_physical_block blk fresh fs inode (ucast logical_idx)) (\<lambda>phys_block.
       if phys_block = 0 then drop_blocks blk fresh fs inode is
       else Option.bind (free_block blk fresh fs phys_block) (\<lambda>fs.
         let sectors_per_blk = ucast (block_size fs div 512) :: u32;
             inode = inode \<lparr> sectors_used := (if sectors_used inode \<ge> sectors_per_blk then sectors_used inode - sectors_per_blk else 0) \<rparr>
         in Option.bind (set_physical_block blk fresh fs inode logical_idx 0) (\<lambda>(_, inode, fs).
              drop_blocks blk fresh fs inode is)))"

text \<open>New blocks for the larger size; an error of the device or of the block map ends the call (\<open>Inl\<close>). When the disk is full the
  zero buffer is freed twice, which is \<open>None\<close>.\<close>

primrec add_blocks :: "'d blkdev \<Rightarrow> (nat \<Rightarrow> u8 list) \<Rightarrow> u32 \<Rightarrow> 'd ext2 \<Rightarrow> ext2_inode \<Rightarrow> u32 list \<Rightarrow> ('d ext2 + ext2_inode \<times> 'd ext2) option" where
  "add_blocks blk fresh group_hint fs inode [] = Some (Inr (inode, fs))"
| "add_blocks blk fresh group_hint fs inode (logical_idx # is) =
     Option.bind (allocate_block blk fresh fs group_hint) (\<lambda>(phys_block, fs).
       if phys_block \<le>s 0 then None
       else let phys = ucast phys_block;
                (ret, d) = blk_write blk (dev_state fs) (block_to_offset fs phys) (block_size fs) (replicate (unat (block_size fs)) 0);
                fs = fs \<lparr> dev_state := d \<rparr>
         in if ret = 0 then map_option Inl (free_block blk fresh fs phys)
            else Option.bind (set_physical_block blk fresh fs inode logical_idx phys) (\<lambda>(linked, inode, fs).
              if \<not> linked then map_option Inl (free_block blk fresh fs phys)
              else add_blocks blk fresh group_hint fs
                     (inode \<lparr> sectors_used := sectors_used inode + ucast (block_size fs div 512) \<rparr>) is))"

definition truncate_inode ::
    "'d blkdev \<Rightarrow> (nat \<Rightarrow> u8 list) \<Rightarrow> u32 \<Rightarrow> 'd ext2 \<Rightarrow> u32 \<Rightarrow> u64 \<Rightarrow> (u64 \<times> 'd ext2) option" where
  "truncate_inode blk fresh now fs inode_num new_size =
     Option.bind (fetch_inode blk fs inode_num) (\<lambda>inode. case inode of
         None \<Rightarrow> Some (- ENOENT64, fs)
       | Some inode \<Rightarrow>
           let old_size = get_inode_size fs inode in
           if new_size = old_size then Some (0, fs)
           else Option.bind (zero_tail blk fresh fs inode (if new_size < old_size then new_size else old_size)) (\<lambda>fs.
             let old_block_count = ucast ((old_size + block_size fs - 1) div block_size fs) :: u32;
                 new_block_count = ucast ((new_size + block_size fs - 1) div block_size fs) :: u32
             in Option.bind
               (if new_size < old_size
                then map_option Inr (drop_blocks blk fresh fs inode (map of_nat (rev [unat new_block_count..<unat old_block_count])))
                else add_blocks blk fresh ((inode_num - 1) div inodes_per_block_group (superblock fs)) fs inode
                       (map of_nat [unat old_block_count..<unat new_block_count]))
               (\<lambda>r. case r of
                  Inl fs \<Rightarrow> Some (- EIO64, fs)
                | Inr (inode, fs) \<Rightarrow>
                    let inode = inode \<lparr> size_low := ucast new_size \<rparr>;
                        inode = (if ro_features (extended_superblock fs) AND 2 \<noteq> 0
                                 then inode \<lparr> size_upper := ucast (drop_bit 32 new_size) \<rparr> else inode)
                    in map_option (\<lambda>fs. (0, fs)) (update_inode blk now fs inode_num inode))))"

primrec free_contents :: "'d blkdev \<Rightarrow> (nat \<Rightarrow> u8 list) \<Rightarrow> ext2_inode \<Rightarrow> 'd ext2 \<Rightarrow> nat list \<Rightarrow> 'd ext2 option" where
  "free_contents blk fresh node fs [] = Some fs"
| "free_contents blk fresh node fs (b # bs) =
     Option.bind (get_physical_block blk fresh fs node (of_nat b)) (\<lambda>phys.
       Option.bind (if phys = 0 then Some fs else free_block blk fresh fs phys) (\<lambda>fs. free_contents blk fresh node fs bs))"

definition EXT2_INODE_SYM :: u16 where "EXT2_INODE_SYM = 0xA000"

definition free_inode_contents ::
    "'d blkdev \<Rightarrow> (nat \<Rightarrow> u8 list) \<Rightarrow> u32 \<Rightarrow> 'd ext2 \<Rightarrow> u32 \<Rightarrow> (u64 \<times> 'd ext2) option" where
  "free_inode_contents blk fresh now fs inode =
     Option.bind (fetch_inode blk fs inode) (\<lambda>node. case node of
         None \<Rightarrow> Some (- ENOENT64, fs)
       | Some node \<Rightarrow>
           let bs = block_size fs;
               total_blocks = ucast ((get_inode_size fs node + bs - 1) div bs) :: u32;
               blocks = (if type_permissions node AND 0xF000 = EXT2_INODE_SYM \<and> get_inode_size fs node \<le> 60 then Some fs
                 else Option.bind (free_contents blk fresh node fs [0..<unat total_blocks]) (\<lambda>fs.
                   Option.bind (free_single_indirect blk fresh fs (single_indirect_block_pointer node)) (\<lambda>fs.
                     Option.bind (free_double_indirect blk fresh fs (double_indirect_block_pointer node)) (\<lambda>fs.
                       free_triple_indirect blk fresh fs (triple_indirect_block_pointer node)))))
           in Option.bind blocks (\<lambda>fs.
                Option.bind (update_inode blk now fs inode (node \<lparr> deletion_time := now \<rparr>)) (\<lambda>fs.
                  map_option (\<lambda>fs. (0, fs)) (free_inode blk fresh fs inode))))"

end
