(* ===== verification/Ext2_Dirs.thy ===== *)
theory Ext2_Dirs
  imports Ext2_Files VFS
begin

text \<open>
  Directories of ext2 (ext2_directories.cpp, ext2_files.cpp) and the operations of its vnodes (ext2_vfs.cpp, the listing in ext2.cpp).
  A directory is a file of entries, each of which says where the next one starts. A name is the list of its bytes
  without the final zero. An entry whose header or name leaves the buffer is \<open>None\<close>, and so is a walk that does not end.
\<close>

subsection \<open>Entries\<close>

definition entry_inode :: "u8 list \<Rightarrow> nat \<Rightarrow> u32" where "entry_inode buf at = u32_at buf at"
definition entry_size :: "u8 list \<Rightarrow> nat \<Rightarrow> u16" where "entry_size buf at = u16_at buf (at + 4)"
definition name_size_low :: "u8 list \<Rightarrow> nat \<Rightarrow> u8" where "name_size_low buf at = of_nat (le_nat (field buf (at + 6) 1))"
definition entry_fits :: "u8 list \<Rightarrow> nat \<Rightarrow> bool" where "entry_fits buf at \<longleftrightarrow> at + 8 \<le> length buf"

definition set_entry_size :: "u8 list \<Rightarrow> nat \<Rightarrow> u16 \<Rightarrow> u8 list" where "set_entry_size buf at v = put_at buf (at + 4) (enc16 v)"

definition EXT2_REQ_FEATURE_DIR_TYPE :: u32 where "EXT2_REQ_FEATURE_DIR_TYPE = 2"
definition EXT2_INODE_DIR :: u16 where "EXT2_INODE_DIR = 0x4000"
definition EXT2_INODE_REG :: u16 where "EXT2_INODE_REG = 0x8000"

text \<open>8 bytes and the name, rounded up to 4.\<close>

definition padded_size :: "nat \<Rightarrow> u16" where "padded_size name_len = (of_nat (8 + name_len + 3)) AND NOT 3"

text \<open>The fields of a new entry; the type is stored only with the feature for it.\<close>

definition put_entry :: "'d ext2 \<Rightarrow> u8 list \<Rightarrow> nat \<Rightarrow> u32 \<Rightarrow> u16 \<Rightarrow> u8 list \<Rightarrow> u8 \<Rightarrow> u8 list option" where
  "put_entry fs buf at inode esize name etype =
     (if at + 8 + length name > length buf then None
      else let buf = put_at buf at (enc32 inode @ enc16 esize @ [of_nat (length name)]);
               buf = (if required_features (extended_superblock fs) AND EXT2_REQ_FEATURE_DIR_TYPE \<noteq> 0 then put_at buf (at + 7) [etype] else buf)
           in Some (put_at buf (at + 8) name))"

text \<open>The last entry of the block that has room after it. An entry of size 0 stays where it is.\<close>

partial_function (option) find_slack :: "u8 list \<Rightarrow> nat \<Rightarrow> u16 \<Rightarrow> nat \<Rightarrow> nat option option" where
  "find_slack buf bs required_size at =
     (if at < bs then
        if \<not> entry_fits buf at then None
        else let esize = entry_size buf at; real_used_size = padded_size (unat (name_size_low buf at)) in
          if esize \<noteq> real_used_size \<and> at + unat esize \<ge> bs \<and> esize - real_used_size \<ge> required_size
          then Some (Some at) else find_slack buf bs required_size (at + unat esize)
      else Some None)"

definition split_entry :: "'d ext2 \<Rightarrow> u8 list \<Rightarrow> nat \<Rightarrow> u32 \<Rightarrow> u8 list \<Rightarrow> u8 \<Rightarrow> u8 list option" where
  "split_entry fs buf at new_inode_num name etype =
     (let original_len = entry_size buf at; real_used_size = padded_size (unat (name_size_low buf at))
      in put_entry fs (set_entry_size buf at real_used_size) (at + unat real_used_size) new_inode_num
           (original_len - real_used_size) name etype)"

text \<open>The results of the reads and writes inside are not looked at.\<close>

partial_function (option) add_entry_loop ::
    "'d blkdev \<Rightarrow> (nat \<Rightarrow> u8 list) \<Rightarrow> u32 \<Rightarrow> 'd ext2 \<Rightarrow> u32 \<Rightarrow> u32 \<Rightarrow> u8 list \<Rightarrow> u8 \<Rightarrow> u64 \<Rightarrow> u64 \<Rightarrow> u8 list \<Rightarrow> (bool \<times> u8 list \<times> 'd ext2) option" where
  "add_entry_loop blk fresh now fs dir_inode_num new_inode_num name etype dir_size offset block_buf =
     (if offset < dir_size then
        Option.bind (load_inode_contents blk fresh fs dir_inode_num offset (block_size fs) block_buf) (\<lambda>(_, block_buf).
          Option.bind (find_slack block_buf (unat (block_size fs)) (padded_size (length name)) 0) (\<lambda>slack. case slack of
              Some at \<Rightarrow>
                Option.bind (split_entry fs block_buf at new_inode_num name etype) (\<lambda>block_buf.
                  map_option (\<lambda>(_, fs). (True, block_buf, fs))
                    (write_inode_contents blk fresh now fs dir_inode_num offset (block_size fs) block_buf))
            | None \<Rightarrow> add_entry_loop blk fresh now fs dir_inode_num new_inode_num name etype dir_size (offset + block_size fs) block_buf))
      else Some (False, block_buf, fs))"

definition directory_add_entry ::
    "'d blkdev \<Rightarrow> (nat \<Rightarrow> u8 list) \<Rightarrow> u32 \<Rightarrow> 'd ext2 \<Rightarrow> u32 \<Rightarrow> u32 \<Rightarrow> u8 list \<Rightarrow> u16 \<Rightarrow> (u64 \<times> 'd ext2) option" where
  "directory_add_entry blk fresh now fs dir_inode_num new_inode_num name type_bits =
     Option.bind (Option.bind (fetch_inode blk fs dir_inode_num) id) (\<lambda>dir_inode.
       let dir_size = get_inode_size fs dir_inode; etype = (if type_bits = EXT2_INODE_DIR then 2 else 1) in
       Option.bind (add_entry_loop blk fresh now fs dir_inode_num new_inode_num name etype dir_size 0 (fresh (unat (block_size fs))))
         (\<lambda>(saved, block_buf, fs).
           if saved then Some (0, fs)
           else Option.bind (put_entry fs (replicate (unat (block_size fs)) 0) 0 new_inode_num (ucast (block_size fs)) name etype) (\<lambda>block_buf.
             map_option (\<lambda>(_, fs). (0, fs)) (write_inode_contents blk fresh now fs dir_inode_num dir_size (block_size fs) block_buf))))"

text \<open>Removal in a chunk: the entry before takes the room of the entry, or the first one loses its inode.\<close>

partial_function (option) remove_in_chunk :: "u8 list \<Rightarrow> u8 list \<Rightarrow> nat \<Rightarrow> nat \<Rightarrow> nat option \<Rightarrow> u8 list option option" where
  "remove_in_chunk name buf bytes_read at prev =
     (if at < bytes_read then
        if \<not> entry_fits buf at then None
        else if entry_size buf at = 0 then Some None
        else if unat (name_size_low buf at) = length name \<and> at + 8 + length name > length buf then None
        else if unat (name_size_low buf at) = length name \<and> field buf (at + 8) (length name) = name
        then Some (Some (case prev of
             Some p \<Rightarrow> set_entry_size buf p (entry_size buf p + entry_size buf at)
           | None \<Rightarrow> put_at buf at (enc32 0)))
        else remove_in_chunk name buf bytes_read (at + unat (entry_size buf at)) (Some at)
      else Some None)"

partial_function (option) remove_entry_loop ::
    "'d blkdev \<Rightarrow> (nat \<Rightarrow> u8 list) \<Rightarrow> u32 \<Rightarrow> 'd ext2 \<Rightarrow> u32 \<Rightarrow> u8 list \<Rightarrow> u64 \<Rightarrow> u8 list \<Rightarrow> (u64 \<times> 'd ext2) option" where
  "remove_entry_loop blk fresh now fs dir_inode_num name file_offset buffer =
     Option.bind (load_inode_contents blk fresh fs dir_inode_num file_offset 4096 buffer) (\<lambda>(bytes_read, buffer).
       if bytes_read \<le>s 0 then Some (- ENOENT64, fs)
       else Option.bind (remove_in_chunk name buffer (unat bytes_read) 0 None) (\<lambda>found. case found of
           Some buffer \<Rightarrow> map_option (\<lambda>(_, fs). (0, fs)) (write_inode_contents blk fresh now fs dir_inode_num file_offset 4096 buffer)
         | None \<Rightarrow> remove_entry_loop blk fresh now fs dir_inode_num name (file_offset + bytes_read) buffer))"

definition directory_remove_entry ::
    "'d blkdev \<Rightarrow> (nat \<Rightarrow> u8 list) \<Rightarrow> u32 \<Rightarrow> 'd ext2 \<Rightarrow> u32 \<Rightarrow> u8 list \<Rightarrow> (u64 \<times> 'd ext2) option" where
  "directory_remove_entry blk fresh now fs dir_inode_num name =
     remove_entry_loop blk fresh now fs dir_inode_num name 0 (fresh 4096)"

subsection \<open>Creating\<close>

text \<open>\<open>self\<close> holds the effective user and group of the current task, when there is one.\<close>

definition new_inode :: "u32 \<Rightarrow> (u16 \<times> u16) option \<Rightarrow> u16 \<Rightarrow> u16 \<Rightarrow> ext2_inode" where
  "new_inode now self perms links =
     (let i = (inode_of (replicate 120 0)) \<lparr> type_permissions := perms, hard_link_count := links, change_time := now,
            last_access_time := now, last_modification_time := now \<rparr>
      in case self of None \<Rightarrow> i | Some (euid, egid) \<Rightarrow> i \<lparr> owner_uid := euid, owner_gid := egid \<rparr>)"

definition preallocate :: "'d blkdev \<Rightarrow> (nat \<Rightarrow> u8 list) \<Rightarrow> u32 \<Rightarrow> 'd ext2 \<Rightarrow> u32 \<Rightarrow> 'd ext2 option" where
  "preallocate blk fresh now fs inode_num =
     (let n = dir_block_preallocation_count (extended_superblock fs) in
      if n = 0 then Some fs else map_option snd (truncate_inode blk fresh now fs inode_num (ucast n * block_size fs)))"

definition create_directory ::
    "'d blkdev \<Rightarrow> (nat \<Rightarrow> u8 list) \<Rightarrow> u32 \<Rightarrow> (u16 \<times> u16) option \<Rightarrow> 'd ext2 \<Rightarrow> u32 \<Rightarrow> u8 list \<Rightarrow> (u64 \<times> 'd ext2) option" where
  "create_directory blk fresh now self fs parent_inode_num name =
     (let ipg = inodes_per_block_group (superblock fs) in
      if ipg = 0 then None
      else Option.bind (allocate_inode blk fresh fs ((parent_inode_num - 1) div ipg)) (\<lambda>(new_inode_num, fs).
        if new_inode_num <s 0 then Some (- ENOSPC64, fs)
        else let num = ucast new_inode_num in
          Option.bind (update_inode blk now fs num (new_inode now self (EXT2_INODE_DIR OR 0x1ED) 2)) (\<lambda>fs.
          Option.bind (put_entry fs (replicate (unat (block_size fs)) 0) 0 num 12 [46] 2) (\<lambda>buffer.
          Option.bind (put_entry fs buffer 12 parent_inode_num (ucast (block_size fs - 12)) [46, 46] 2) (\<lambda>buffer.
          Option.bind (preallocate blk fresh now fs num) (\<lambda>fs.
          Option.bind (write_inode_contents blk fresh now fs num 0 (block_size fs) buffer) (\<lambda>(_, fs).
          Option.bind (directory_add_entry blk fresh now fs parent_inode_num num name EXT2_INODE_DIR) (\<lambda>(_, fs).
          Option.bind (Option.bind (fetch_inode blk fs parent_inode_num) id) (\<lambda>parent.
            map_option (\<lambda>fs. (0, fs))
              (update_inode blk now fs parent_inode_num (parent \<lparr> hard_link_count := hard_link_count parent + 1 \<rparr>)))))))))))"

definition ext2_create_file ::
    "'d blkdev \<Rightarrow> (nat \<Rightarrow> u8 list) \<Rightarrow> u32 \<Rightarrow> (u16 \<times> u16) option \<Rightarrow> 'd ext2 \<Rightarrow> u32 \<Rightarrow> u8 list \<Rightarrow> (u64 \<times> 'd ext2) option" where
  "ext2_create_file blk fresh now self fs parent_inode_num name =
     (let ipg = inodes_per_block_group (superblock fs) in
      if ipg = 0 then None
      else Option.bind (allocate_inode blk fresh fs ((parent_inode_num - 1) div ipg)) (\<lambda>(new_inode_num, fs).
        if new_inode_num <s 0 then Some (- ENOSPC64, fs)
        else let num = ucast new_inode_num in
          Option.bind (update_inode blk now fs num (new_inode now self (EXT2_INODE_REG OR 0x1ED) 1)) (\<lambda>fs.
          Option.bind (preallocate blk fresh now fs num) (\<lambda>fs.
          map_option (\<lambda>(_, fs). (0, fs)) (directory_add_entry blk fresh now fs parent_inode_num num name EXT2_INODE_REG)))))"

subsection \<open>Operations of the vnodes\<close>

definition get_inode_type :: "ext2_inode \<Rightarrow> vnode_type" where
  "get_inode_type inode =
     (let t = type_permissions inode AND 0xF000 in
      if t = 0x1000 then VPIPE else if t = 0x2000 then VCHR else if t = EXT2_INODE_DIR then VDIR
      else if t = 0x6000 then VBLK else if t = EXT2_INODE_REG then VREG else if t = EXT2_INODE_SYM then VLNK
      else if t = 0xC000 then VSOC else VREG)"

text \<open>What a listing gives to the vnode of an entry.\<close>

record ext2_node =
  node_name :: "u8 list"
  node_type :: vnode_type
  node_inode :: u32
  node_size :: u64
  node_permissions :: u16
  node_uid :: u32
  node_gid :: u32

definition node_of :: "'d ext2 \<Rightarrow> u32 \<Rightarrow> u8 list \<Rightarrow> ext2_inode \<Rightarrow> ext2_node" where
  "node_of fs num name inode =
     \<lparr> node_name = take 127 name, node_type = get_inode_type inode, node_inode = num, node_size = get_inode_size fs inode,
       node_permissions = type_permissions inode AND 0xFFF, node_uid = ucast (owner_uid inode), node_gid = ucast (owner_gid inode) \<rparr>"

partial_function (option) list_chunk ::
    "'d blkdev \<Rightarrow> 'd ext2 \<Rightarrow> u8 list \<Rightarrow> nat \<Rightarrow> nat \<Rightarrow> ext2_node list \<Rightarrow> ext2_node list option" where
  "list_chunk blk fs buf bytes_read at acc =
     (if at < bytes_read then
        if \<not> entry_fits buf at then None
        else if entry_size buf at = 0 then Some acc
        else let len = unat (name_size_low buf at) in
          Option.bind (if entry_inode buf at = 0 then Some acc
              else Option.bind (fetch_inode blk fs (entry_inode buf at)) (\<lambda>inode. case inode of
                  None \<Rightarrow> Some acc
                | Some inode \<Rightarrow> if at + 8 + min len 127 > length buf then None
                    else Some (acc @ [node_of fs (entry_inode buf at) (field buf (at + 8) len) inode])))
            (list_chunk blk fs buf bytes_read (at + unat (entry_size buf at)))
      else Some acc)"

partial_function (option) list_loop ::
    "'d blkdev \<Rightarrow> (nat \<Rightarrow> u8 list) \<Rightarrow> 'd ext2 \<Rightarrow> u32 \<Rightarrow> u64 \<Rightarrow> u8 list \<Rightarrow> ext2_node list \<Rightarrow> ext2_node list option" where
  "list_loop blk fresh fs inode file_offset buffer acc =
     Option.bind (load_inode_contents blk fresh fs inode file_offset 4096 buffer) (\<lambda>(bytes_read, buffer).
       if bytes_read \<le>s 0 then Some acc
       else Option.bind (list_chunk blk fs buffer (unat bytes_read) 0 acc)
              (list_loop blk fresh fs inode (file_offset + bytes_read) buffer))"

definition ENOTDIR32 :: u32 where "ENOTDIR32 = 20"
definition EISDIR32 :: u32 where "EISDIR32 = 21"

definition ext2_vnode_read_dir ::
    "'d blkdev \<Rightarrow> (nat \<Rightarrow> u8 list) \<Rightarrow> 'd ext2 \<Rightarrow> vnode_type \<Rightarrow> u32 \<Rightarrow> (u32 \<times> ext2_node list) option" where
  "ext2_vnode_read_dir blk fresh fs ntype inode =
     (if ntype \<noteq> VDIR then Some (- ENOTDIR32, [])
      else map_option (\<lambda>ns. (of_nat (length ns), ns)) (list_loop blk fresh fs inode 0 (fresh 4096) []))"

text \<open>The link target and a final zero are put into a block of just the size of the target: the zero leaves it, so the call is
  undefined for every link.\<close>

definition ext2_vnode_read_link ::
    "'d blkdev \<Rightarrow> (nat \<Rightarrow> u8 list) \<Rightarrow> 'd ext2 \<Rightarrow> vnode_type \<Rightarrow> u32 \<Rightarrow> u8 list option option" where
  "ext2_vnode_read_link blk fresh fs ntype inode_num =
     (if ntype \<noteq> VLNK then Some None
      else Option.bind (Option.bind (fetch_inode blk fs inode_num) id) (\<lambda>inode.
        let n = get_inode_size fs inode; block = fresh (unat n) in
        Option.bind (if n \<le> 60 then Some (put_at block 0 (take (unat n) (field (inode_bytes inode) 40 60)))
            else map_option snd (load_inode_contents blk fresh fs inode_num 0 n block))
          (\<lambda>block. if length block \<le> unat n then None else Some (Some (take (unat n) block)))))"

text \<open>The size of the vnode after the call is the third component.\<close>

definition ext2_vnode_mkdir ::
    "'d blkdev \<Rightarrow> (nat \<Rightarrow> u8 list) \<Rightarrow> u32 \<Rightarrow> (u16 \<times> u16) option \<Rightarrow> 'd ext2 \<Rightarrow> vnode_type \<Rightarrow> u32 \<Rightarrow> u8 list \<Rightarrow>
     (u32 \<times> 'd ext2 \<times> u64 option) option" where
  "ext2_vnode_mkdir blk fresh now self fs ntype inode_num name =
     (if ntype \<noteq> VDIR then Some (- ENOTDIR32, fs, None)
      else Option.bind (create_directory blk fresh now self fs inode_num name) (\<lambda>(ret, fs).
        map_option (\<lambda>node. (ucast ret, fs, Some (get_inode_size fs node))) (Option.bind (fetch_inode blk fs inode_num) id)))"

definition ext2_vnode_creat ::
    "'d blkdev \<Rightarrow> (nat \<Rightarrow> u8 list) \<Rightarrow> u32 \<Rightarrow> (u16 \<times> u16) option \<Rightarrow> 'd ext2 \<Rightarrow> vnode_type \<Rightarrow> u32 \<Rightarrow> u8 list \<Rightarrow>
     (u32 \<times> 'd ext2 \<times> u64 option) option" where
  "ext2_vnode_creat blk fresh now self fs ntype inode_num name =
     (if ntype \<noteq> VDIR then Some (- ENOTDIR32, fs, None)
      else Option.bind (ext2_create_file blk fresh now self fs inode_num name) (\<lambda>(ret, fs).
        map_option (\<lambda>node. (ucast ret, fs, Some (get_inode_size fs node))) (Option.bind (fetch_inode blk fs inode_num) id)))"

definition ext2_vnode_read ::
    "'d blkdev \<Rightarrow> (nat \<Rightarrow> u8 list) \<Rightarrow> 'd ext2 \<Rightarrow> vnode_type \<Rightarrow> u32 \<Rightarrow> u64 \<Rightarrow> u64 \<Rightarrow> u8 list \<Rightarrow> (u32 \<times> u8 list) option" where
  "ext2_vnode_read blk fresh fs ntype inode_num offset n buffer =
     (if ntype = VDIR then Some (- EISDIR32, buffer)
      else map_option (\<lambda>(r, buffer). (ucast r, buffer)) (load_inode_contents blk fresh fs inode_num offset n buffer))"

definition ext2_vnode_write ::
    "'d blkdev \<Rightarrow> (nat \<Rightarrow> u8 list) \<Rightarrow> u32 \<Rightarrow> 'd ext2 \<Rightarrow> vnode_type \<Rightarrow> u32 \<Rightarrow> u64 \<Rightarrow> u64 \<Rightarrow> u8 list \<Rightarrow> (u32 \<times> 'd ext2) option" where
  "ext2_vnode_write blk fresh now fs ntype inode_num offset n buffer =
     (if ntype = VDIR then Some (- EISDIR32, fs)
      else map_option (\<lambda>(r, fs). (ucast r, fs)) (write_inode_contents blk fresh now fs inode_num offset n buffer))"

definition ext2_vnode_truncate ::
    "'d blkdev \<Rightarrow> (nat \<Rightarrow> u8 list) \<Rightarrow> u32 \<Rightarrow> 'd ext2 \<Rightarrow> vnode_type \<Rightarrow> u32 \<Rightarrow> u64 \<Rightarrow> (u32 \<times> 'd ext2) option" where
  "ext2_vnode_truncate blk fresh now fs ntype inode_num new_size =
     (if ntype = VDIR then Some (- EISDIR32, fs)
      else map_option (\<lambda>(r, fs). (ucast r, fs)) (truncate_inode blk fresh now fs inode_num new_size))"

definition EFAULT_ext2 :: u32 where "EFAULT_ext2 = 14"

text \<open>\<open>parent\<close> is the inode of the parent, when the vnode has one.\<close>

definition ext2_vnode_unlink ::
    "'d blkdev \<Rightarrow> (nat \<Rightarrow> u8 list) \<Rightarrow> u32 \<Rightarrow> 'd ext2 \<Rightarrow> vnode_type \<Rightarrow> u32 \<Rightarrow> u32 option \<Rightarrow> u8 list \<Rightarrow> (u32 \<times> 'd ext2) option" where
  "ext2_vnode_unlink blk fresh now fs ntype inode_num parent name =
     (if ntype = VDIR then Some (- EISDIR32, fs)
      else Option.bind (fetch_inode blk fs inode_num) (\<lambda>inode. case inode of
          None \<Rightarrow> Some (- EFAULT_ext2, fs)
        | Some inode \<Rightarrow>
            let inode = inode \<lparr> hard_link_count := hard_link_count inode - 1 \<rparr> in
            Option.bind (update_inode blk now fs inode_num inode) (\<lambda>fs.
            Option.bind (case parent of None \<Rightarrow> Some fs | Some p \<Rightarrow> map_option snd (directory_remove_entry blk fresh now fs p name)) (\<lambda>fs.
            map_option (\<lambda>fs. (0, fs))
              (if hard_link_count inode = 0 then map_option snd (free_inode_contents blk fresh now fs inode_num) else Some fs)))))"

definition is_dot_entry :: "u8 list \<Rightarrow> nat \<Rightarrow> bool" where
  "is_dot_entry buf at \<longleftrightarrow> (name_size_low buf at = 1 \<and> field buf (at + 8) 1 = [46]) \<or>
     (name_size_low buf at = 2 \<and> field buf (at + 8) 2 = [46, 46])"

partial_function (option) others_in_chunk :: "u8 list \<Rightarrow> nat \<Rightarrow> nat \<Rightarrow> bool option" where
  "others_in_chunk buf bytes_read at =
     (if at < bytes_read then
        if \<not> entry_fits buf at then None
        else if entry_size buf at = 0 then Some False
        else if entry_inode buf at \<noteq> 0 \<and> name_size_low buf at \<in> {1, 2} \<and> at + 8 + unat (name_size_low buf at) > length buf then None
        else if entry_inode buf at \<noteq> 0 \<and> \<not> is_dot_entry buf at then Some True
        else others_in_chunk buf bytes_read (at + unat (entry_size buf at))
      else Some False)"

partial_function (option) found_other_files ::
    "'d blkdev \<Rightarrow> (nat \<Rightarrow> u8 list) \<Rightarrow> 'd ext2 \<Rightarrow> u32 \<Rightarrow> u64 \<Rightarrow> u8 list \<Rightarrow> bool option" where
  "found_other_files blk fresh fs inode file_offset buffer =
     Option.bind (load_inode_contents blk fresh fs inode file_offset 4096 buffer) (\<lambda>(bytes_read, buffer).
       if bytes_read \<le>s 0 then Some False
       else Option.bind (others_in_chunk buffer (unat bytes_read) 0) (\<lambda>found.
         if found then Some True else found_other_files blk fresh fs inode (file_offset + bytes_read) buffer))"

definition ENOTEMPTY_ext2 :: u32 where "ENOTEMPTY_ext2 = 39"

definition ext2_vnode_rmdir ::
    "'d blkdev \<Rightarrow> (nat \<Rightarrow> u8 list) \<Rightarrow> u32 \<Rightarrow> 'd ext2 \<Rightarrow> vnode_type \<Rightarrow> u32 \<Rightarrow> u32 option \<Rightarrow> u8 list \<Rightarrow> (u32 \<times> 'd ext2) option" where
  "ext2_vnode_rmdir blk fresh now fs ntype inode_num parent name =
     (if ntype \<noteq> VDIR then Some (- ENOTDIR32, fs)
      else if inode_num = 2 then Some (- EFAULT_ext2, fs)
      else Option.bind (found_other_files blk fresh fs inode_num 0 (fresh 4096)) (\<lambda>found.
        if found then Some (- ENOTEMPTY_ext2, fs)
        else Option.bind (case parent of
            None \<Rightarrow> Some fs
          | Some p \<Rightarrow> Option.bind (map_option snd (directory_remove_entry blk fresh now fs p name)) (\<lambda>fs.
              Option.bind (fetch_inode blk fs p) (\<lambda>node. case node of
                  None \<Rightarrow> Some fs
                | Some node \<Rightarrow> update_inode blk now fs p
                    (if hard_link_count node > 0 then node \<lparr> hard_link_count := hard_link_count node - 1 \<rparr> else node)))) (\<lambda>fs.
          Option.bind (Option.bind (fetch_inode blk fs inode_num) (\<lambda>node. case node of
              None \<Rightarrow> Some fs
            | Some node \<Rightarrow> update_inode blk now fs inode_num (node \<lparr> hard_link_count := 0 \<rparr>))) (\<lambda>fs.
            map_option (\<lambda>(_, fs). (0, fs)) (free_inode_contents blk fresh now fs inode_num)))))"

definition ext2_save_metadata ::
    "'d blkdev \<Rightarrow> u32 \<Rightarrow> 'd ext2 \<Rightarrow> u32 \<Rightarrow> u32 \<Rightarrow> u32 \<Rightarrow> u16 \<Rightarrow> 'd ext2 option" where
  "ext2_save_metadata blk now fs inode_num uid gid permissions =
     Option.bind (fetch_inode blk fs inode_num) (\<lambda>inode. case inode of
         None \<Rightarrow> Some fs
       | Some inode \<Rightarrow> update_inode blk now fs inode_num
           (inode \<lparr> owner_uid := ucast uid, owner_gid := ucast gid,
              type_permissions := (type_permissions inode AND 0xF000) OR (permissions AND 0xFFF) \<rparr>))"

end
