(* ===== verification/Ext2_Map.thy ===== *)
theory Ext2_Map
  imports Ext2_Alloc Ext2_Files
begin

text \<open>
  The block map of an ext2 inode as a function from paths to blocks. A path starts with one of the 15 pointers of the
  inode and goes on with indices into indirect blocks. The theory shows that getting a block is a look-up in this
  function, and that setting one is an update at its path, apart from new tables on the way, as long as the
  tables of the inode are different blocks that are marked used.
\<close>

subsection \<open>Blocks of data\<close>

definition inode_bytes_n :: "'d ext2 \<Rightarrow> nat" where "inode_bytes_n fs = unat (inode_bytes_on_disk fs)"

definition inode_table_region :: "'d ext2 \<Rightarrow> nat \<Rightarrow> nat set" where
  "inode_table_region fs g = (let t = unat (inode_table_block_address (block_group_table fs ! g)) * bsz fs in
     {t..<t + unat (per_group Inodes fs) * inode_bytes_n fs})"

text \<open>A block that holds neither the tables of the volume nor a bitmap nor inodes.\<close>

definition data_block :: "nat \<Rightarrow> 'd ext2 \<Rightarrow> nat \<Rightarrow> bool" where
  "data_block n fs x \<longleftrightarrow> 0 < x \<and> x < 4294967296 \<and> clear_of_tables n fs x \<and>
     (\<forall>g<ngroups fs. (\<forall>k. bitmap_at k fs g \<noteq> x) \<and> block_region fs x \<inter> inode_table_region fs g = {})"

definition block_used :: "('d \<Rightarrow> nat \<Rightarrow> u8) \<Rightarrow> 'd ext2 \<Rightarrow> nat \<Rightarrow> bool" where
  "block_used byte fs x \<longleftrightarrow>
     (\<exists>g b. g < ngroups fs \<and> b < unat (per_group Blocks fs) \<and> x = block_no fs g b \<and> used_bit byte Blocks fs g b)"

text \<open>What is marked free is for data.\<close>

definition free_ok :: "('d \<Rightarrow> nat \<Rightarrow> u8) \<Rightarrow> nat \<Rightarrow> 'd ext2 \<Rightarrow> bool" where
  "free_ok byte n fs \<longleftrightarrow> (\<forall>g<ngroups fs. \<forall>b<unat (per_group Blocks fs).
     \<not> used_bit byte Blocks fs g b \<longrightarrow> data_block n fs (block_no fs g b))"

lemma inode_bytes_geo: "geo fs' = geo fs \<Longrightarrow> inode_bytes_n fs' = inode_bytes_n fs"
proof -
  assume g: "geo fs' = geo fs"
  then have "superblock fs' \<lparr> unallocated_block_count := 0, unallocated_inode_count := 0 \<rparr> =
     superblock fs \<lparr> unallocated_block_count := 0, unallocated_inode_count := 0 \<rparr>" by (simp add: geo_def)
  from arg_cong [OF this, of major_version] geoD(5) [OF g] show ?thesis
    by (simp add: inode_bytes_n_def inode_bytes_on_disk_def)
qed

lemma inode_table_region_geo:
  "geo fs' = geo fs \<Longrightarrow> g < length (block_group_table fs) \<Longrightarrow> inode_table_region fs' g = inode_table_region fs g"
  using nth_geo [of fs' fs g] geoD(3,6) [of fs' fs] inode_bytes_geo [of fs' fs] by (simp add: inode_table_region_def)

lemma data_block_geo: "geo fs' = geo fs \<Longrightarrow> ext2_ok n fs \<Longrightarrow> data_block n fs' x \<longleftrightarrow> data_block n fs x"
  using geoD(4,11,13) [of fs' fs] bitmap_at_geo [of fs' fs] inode_table_region_geo [of fs' fs] ext2_okD(1) [of n fs]
  by (simp add: data_block_def)

lemma block_no_geo: "geo fs' = geo fs \<Longrightarrow> block_no fs' = block_no fs"
  using geoD(6,7) [of fs' fs] by (simp add: fun_eq_iff block_no_def)

lemma block_no_inj:
  assumes "b < unat (per_group Blocks fs)" "b' < unat (per_group Blocks fs)" "block_no fs g b = block_no fs g' b'"
  shows "g = g' \<and> b = b'"
  using assms group_bit_div [of b "unat (per_group Blocks fs)" g] group_bit_div [of b' "unat (per_group Blocks fs)" g']
  by (metis (no_types, lifting) add.assoc add_left_cancel block_no_def)

lemma block_no_less: "ext2_ok n fs \<Longrightarrow> g < ngroups fs \<Longrightarrow> b < unat (per_group Blocks fs) \<Longrightarrow> block_no fs g b < 4294967296"
  using group_bit_bound [of g "ngroups fs" b "unat (per_group Blocks fs)"] ext2_okD(13) [of n fs] by (simp add: block_no_def)

text \<open>How an operation changes the device: blocks written, blocks allocated.\<close>

definition changes :: "('d \<Rightarrow> nat \<Rightarrow> u8) \<Rightarrow> nat \<Rightarrow> 'd ext2 \<Rightarrow> 'd ext2 \<Rightarrow> nat set \<Rightarrow> nat set \<Rightarrow> bool" where
  "changes byte n fs fs' W A \<longleftrightarrow> geo fs' = geo fs \<and>
     (\<forall>x. data_block n fs x \<and> x \<notin> W \<longrightarrow> block_bytes byte fs' x = block_bytes byte fs x) \<and>
     (\<forall>x. block_used byte fs' x \<longleftrightarrow> block_used byte fs x \<or> x \<in> A) \<and>
     (\<forall>g<ngroups fs. \<forall>i \<in> inode_table_region fs g. byte (dev_state fs') i = byte (dev_state fs) i)"

lemma changes_refl [simp]: "changes byte n fs fs {} {}"
  by (simp add: changes_def)

lemma changes_trans:
  assumes "changes byte n fs fs1 W A" "changes byte n fs1 fs2 W' A'" "ext2_ok n fs"
  shows "changes byte n fs fs2 (W \<union> W') (A \<union> A')"
proof -
  have g: "geo fs1 = geo fs" using assms(1) by (simp add: changes_def)
  have r: "inode_table_region fs1 x = inode_table_region fs x" if "x < ngroups fs" for x
    using inode_table_region_geo [OF g] that ext2_okD(1) [OF assms(3)] by simp
  show ?thesis using assms data_block_geo [OF g assms(3)] r geoD(4) [OF g] unfolding changes_def by auto
qed

lemma changes_mono: "changes byte n fs fs' W A \<Longrightarrow> W \<subseteq> W' \<Longrightarrow> changes byte n fs fs' W' A"
  by (auto simp: changes_def)

lemma free_ok_changes:
  assumes "free_ok byte n fs" "changes byte n fs fs' W A" "ext2_ok n fs"
  shows "free_ok byte n fs'"
proof -
  have g: "geo fs' = geo fs" using assms(2) by (simp add: changes_def)
  have "data_block n fs (block_no fs x b)"
    if "x < ngroups fs" "b < unat (per_group Blocks fs)" "\<not> used_bit byte Blocks fs' x b" for x b
  proof -
    have "\<not> block_used byte fs' (block_no fs x b)"
      using that block_no_inj [of b fs _ x] geoD(4,6) [OF g] block_no_geo [OF g] by (auto simp: block_used_def)
    then have "\<not> block_used byte fs (block_no fs x b)" using assms(2) by (simp add: changes_def)
    then show ?thesis using assms(1) that by (auto simp: free_ok_def block_used_def)
  qed
  then show ?thesis using data_block_geo [OF g assms(3)] geoD(4,6) [OF g] block_no_geo [OF g] by (simp add: free_ok_def)
qed

text \<open>The tables of inodes are on the device, apart from each other, from the bitmaps and from the tables of the volume.\<close>

definition inodes_ok :: "nat \<Rightarrow> 'd ext2 \<Rightarrow> bool" where
  "inodes_ok n fs \<longleftrightarrow> 120 \<le> inode_bytes_n fs \<and> inode_bytes_n fs dvd bsz fs \<and>
     unat (per_group Inodes fs) * inode_bytes_n fs < 4294967296 \<and>
     (\<forall>g<ngroups fs. unat (inode_table_block_address (block_group_table fs ! g)) * bsz fs + unat (per_group Inodes fs) * inode_bytes_n fs \<le> n \<and>
        unat (inode_table_block_address (block_group_table fs ! g)) + unat (per_group Inodes fs) * inode_bytes_n fs div bsz fs < 4294967296 \<and>
        inode_table_region fs g \<inter> tables_region fs = {} \<and>
        (\<forall>g'<ngroups fs. (\<forall>k. inode_table_region fs g \<inter> block_region fs (bitmap_at k fs g') = {}) \<and>
           (g' \<noteq> g \<longrightarrow> inode_table_region fs g \<inter> inode_table_region fs g' = {})))"

lemma inodes_ok_geo:
  assumes g: "geo fs' = geo fs" and ok: "ext2_ok n fs" and i: "inodes_ok n fs"
  shows "inodes_ok n fs'"
proof -
  have len: "length (block_group_table fs) = ngroups fs" using ext2_okD(1) [OF ok] .
  have "bitmap_at k fs' x = bitmap_at k fs x" "inode_table_region fs' x = inode_table_region fs x"
    "inode_table_block_address (block_group_table fs' ! x) = inode_table_block_address (block_group_table fs ! x)"
    if "x < ngroups fs" for k x
    using that len bitmap_at_geo [OF g] inode_table_region_geo [OF g] nth_geo [OF g] by simp_all
  then show ?thesis using i geoD [OF g] inode_bytes_geo [OF g] unfolding inodes_ok_def by simp
qed

definition layout :: "nat \<Rightarrow> 'd ext2 \<Rightarrow> bool" where
  "layout n fs \<longleftrightarrow> ext2_ok n fs \<and> inodes_ok n fs \<and> unat (first_data_block (superblock fs)) \<le> unat (per_group Blocks fs)"

lemma layoutD: "layout n fs \<Longrightarrow> ext2_ok n fs" "layout n fs \<Longrightarrow> inodes_ok n fs"
  by (simp_all add: layout_def)

lemma layout_geo: "geo fs' = geo fs \<Longrightarrow> layout n fs \<Longrightarrow> layout n fs'"
  using ext2_ok_geo [of fs' fs] inodes_ok_geo [of fs' fs] geoD(6,7) [of fs' fs] unfolding layout_def by simp

lemma inode_table_less: "layout n fs \<Longrightarrow> g < ngroups fs \<Longrightarrow> i \<in> inode_table_region fs g \<Longrightarrow> i < n"
  by (auto simp: layout_def inodes_ok_def inode_table_region_def Let_def)

context byte_device
begin

lemma read_block_bytes:
  assumes ok: "ext2_ok dsize fs" and x: "unat x * bsz fs + bsz fs \<le> dsize" and fresh: "length (fresh (bsz fs)) = bsz fs"
  shows "read_block dev fresh fs x = block_bytes byte fs (unat x)"
proof -
  have u: "unat (block_size fs) = bsz fs" by (simp add: bsz_def)
  have "blk_read dev (dev_state fs) (block_to_offset fs x) (block_size fs) = (ucast (block_size fs), block_bytes byte fs (unat x))"
    using x by (subst read_bytes) (simp_all add: unat_block_to_offset [OF ok] u block_bytes_def)
  then show ?thesis using fresh by (simp add: read_block_def put_at_def u)
qed

text \<open>A write of one block.\<close>

lemma write_block_bytes:
  assumes ok: "ext2_ok dsize fs" and fit: "unat x * bsz fs + bsz fs \<le> dsize" and len: "length bs = bsz fs"
  shows "\<exists>d. blk_write dev (dev_state fs) (block_to_offset fs x) (block_size fs) bs = (ucast (block_size fs), d) \<and>
    (\<forall>i<dsize. byte d i = (if i \<in> block_region fs (unat x) then bs ! (i - unat x * bsz fs) else byte (dev_state fs) i)) \<and>
    block_bytes byte (fs \<lparr> dev_state := d \<rparr>) (unat x) = bs"
proof -
  have u: "unat (block_size fs) = bsz fs" by (simp add: bsz_def)
  define r where "r = blk_write dev (dev_state fs) (block_to_offset fs x) (block_size fs) bs"
  have w: "byte (snd r) i = (if i \<in> block_region fs (unat x) then bs ! (i - unat x * bsz fs) else byte (dev_state fs) i)" if "i < dsize" for i
    unfolding r_def block_region_def using that fit len by (subst write_bytes) (simp_all add: unat_block_to_offset [OF ok] u)
  have ret: "fst r = ucast (block_size fs)"
    unfolding r_def using fit len ext2_okD(4) [OF ok] by (intro write_result) (simp_all add: unat_block_to_offset [OF ok] u)
  have self: "block_bytes byte (fs \<lparr> dev_state := snd r \<rparr>) (unat x) = bs"
    unfolding block_bytes_def using fit len by (intro map_upt_eq) (simp_all add: w block_region_def)
  show ?thesis using ret w self by (intro exI [of _ "snd r"]) (simp add: r_def prod_eq_iff)
qed

lemma write_block_changes:
  assumes lay: "layout dsize fs" and x: "data_block dsize fs (unat x)" and len: "length bs = bsz fs"
  shows "\<exists>d. blk_write dev (dev_state fs) (block_to_offset fs x) (block_size fs) bs = (ucast (block_size fs), d) \<and>
    changes byte dsize fs (fs \<lparr> dev_state := d \<rparr>) {unat x} {} \<and> block_bytes byte (fs \<lparr> dev_state := d \<rparr>) (unat x) = bs"
proof -
  note ok = layoutD(1) [OF lay]
  have fit: "unat x * bsz fs + bsz fs \<le> dsize" using x by (simp add: data_block_def clear_of_tables_def)
  obtain d where ret: "blk_write dev (dev_state fs) (block_to_offset fs x) (block_size fs) bs = (ucast (block_size fs), d)"
    and w: "\<And>i. i < dsize \<Longrightarrow> byte d i = (if i \<in> block_region fs (unat x) then bs ! (i - unat x * bsz fs) else byte (dev_state fs) i)"
    and self: "block_bytes byte (fs \<lparr> dev_state := d \<rparr>) (unat x) = bs"
    using write_block_bytes [OF ok fit len] by blast
  have keep: "keeps_outside byte dsize fs (fs \<lparr> dev_state := d \<rparr>) (block_region fs (unat x))"
    by (auto simp: keeps_outside_def w)
  have other: "block_bytes byte (fs \<lparr> dev_state := d \<rparr>) y = block_bytes byte fs y"
    if "y * bsz fs + bsz fs \<le> dsize" "y \<noteq> unat x" for y
    using that by (intro block_bytes_kept [OF keep]) (simp_all add: regions_apart)
  have bits: "used_bit byte k (fs \<lparr> dev_state := d \<rparr>) g b = used_bit byte k fs g b" if g: "g < ngroups fs" for k g b
  proof -
    have "bitmap_at k fs g \<noteq> unat x" using x g by (simp add: data_block_def)
    moreover have "bitmap_at k fs g * bsz fs + bsz fs \<le> dsize" using ext2_okD(11) [OF ok g] by (simp add: clear_of_tables_def)
    moreover have "bitmap_at k (fs \<lparr> dev_state := d \<rparr>) g = bitmap_at k fs g" by (simp add: bitmap_at_def)
    ultimately show ?thesis using other by (simp add: used_bit_def)
  qed
  have itab: "byte (d) i = byte (dev_state fs) i" if "g < ngroups fs" "i \<in> inode_table_region fs g" for g i
  proof -
    have "i \<notin> block_region fs (unat x)" using x that unfolding data_block_def by blast
    then show ?thesis using w [OF inode_table_less [OF lay that]] by auto
  qed
  have used: "block_used byte (fs \<lparr> dev_state := d \<rparr>) y \<longleftrightarrow> block_used byte fs y" for y
    using bits by (auto simp: block_used_def block_no_def)
  have "changes byte dsize fs (fs \<lparr> dev_state := d \<rparr>) {unat x} {}"
    using other used itab by (simp add: changes_def data_block_def clear_of_tables_def)
  then show ?thesis using ret self by blast
qed

end

lemma took_bits:
  assumes ok: "ext2_ok n fs" and t: "took byte n k g b fs fs'" and g': "g' < ngroups fs"
  shows "used_bit byte k' fs' g' b' \<longleftrightarrow> (k' = k \<and> g' = g \<and> b' = b) \<or> used_bit byte k' fs g' b'"
proof -
  define bm where "bm = block_bytes byte fs (bitmap_at k fs g)"
  have w: "b < 8 * length bm" "4 dvd length bm"
    using t ext2_okD(3,10) [OF ok] by (auto simp: took_def bm_def intro: less_le_trans)
  have "bm_bit (marked_bit bm b) b' \<longleftrightarrow> b' = b \<or> bm_bit bm b'"
    using mark_used_bit [OF w] by (simp add: marked_bit_def)
  then show ?thesis
    using bitmap_replaced_bits [OF _ ok, of byte k g "marked_bit bm b" "- 1" fs' g' k' b'] t g'
    by (auto simp: took_def bm_def [symmetric]) (auto simp: used_bit_def bm_def)
qed

lemma took_changes:
  assumes lay: "layout n fs" and t: "took byte n Blocks g b fs fs'"
  shows "changes byte n fs fs' {} {block_no fs g b} \<and> \<not> block_used byte fs (block_no fs g b)"
proof -
  note ok = layoutD(1) [OF lay]
  have gb: "g < ngroups fs" "b < unat (per_group Blocks fs)" "\<not> used_bit byte Blocks fs g b"
    and keep: "keeps_outside byte n fs fs' (tables_region fs \<union> block_region fs (bitmap_at Blocks fs g))" and geo: "geo fs' = geo fs"
    using t by (auto simp: took_def bitmap_replaced_def intro: bitmap_replaced_geo)
  have 1: "block_bytes byte fs' x = block_bytes byte fs x" if x: "data_block n fs x" for x
  proof (rule block_bytes_kept [OF keep geoD(1) [OF geo]])
    have "clear_of_tables n fs x" "x \<noteq> bitmap_at Blocks fs g" using x gb(1) by (auto simp: data_block_def)
    then show "block_region fs x \<inter> (tables_region fs \<union> block_region fs (bitmap_at Blocks fs g)) = {}"
      using clear_region [of n fs x] regions_apart [of x "bitmap_at Blocks fs g" fs] by blast
    show "x * bsz fs + bsz fs \<le> n" using x by (simp add: data_block_def clear_of_tables_def)
  qed
  have 2: "block_used byte fs' x \<longleftrightarrow> block_used byte fs x \<or> x = block_no fs g b" for x
  proof -
    have "block_used byte fs' x \<longleftrightarrow> (\<exists>h c. h < ngroups fs \<and> c < unat (per_group Blocks fs) \<and> x = block_no fs h c \<and>
        ((h = g \<and> c = b) \<or> used_bit byte Blocks fs h c))"
      using took_bits [OF ok t] block_no_geo [OF geo] geoD(4,6) [OF geo] by (simp add: block_used_def cong: conj_cong)
    then show ?thesis using gb by (auto simp: block_used_def)
  qed
  have 3: "byte (dev_state fs') i = byte (dev_state fs) i" if i: "h < ngroups fs" "i \<in> inode_table_region fs h" for h i
  proof -
    have "i \<notin> tables_region fs" "i \<notin> block_region fs (bitmap_at Blocks fs g)"
      using layoutD(2) [OF lay] i gb(1) unfolding inodes_ok_def by blast+
    then show ?thesis using keep inode_table_less [OF lay i] by (simp add: keeps_outside_def)
  qed
  have 4: "\<not> block_used byte fs (block_no fs g b)"
  proof
    assume "block_used byte fs (block_no fs g b)"
    then obtain h c where hc: "c < unat (per_group Blocks fs)" "block_no fs g b = block_no fs h c" "used_bit byte Blocks fs h c"
      unfolding block_used_def by blast
    show False using block_no_inj [OF gb(2) hc(1,2)] hc(3) gb(3) by simp
  qed
  show ?thesis using geo 1 2 3 4 by (simp add: changes_def)
qed

text \<open>No free block that the counts admit.\<close>

definition disk_full :: "('d \<Rightarrow> nat \<Rightarrow> u8) \<Rightarrow> 'd ext2 \<Rightarrow> bool" where
  "disk_full byte fs \<longleftrightarrow> (\<forall>g<ngroups fs. full byte Blocks fs g)"

context byte_device
begin

lemma allocate_block_changes:
  assumes lay: "layout dsize fs" and free: "free_ok byte dsize fs" and start: "unat start \<le> ngroups fs" and fresh: "length (fresh (bsz fs)) = bsz fs"
  shows "(disk_full byte fs \<and> allocate_block dev fresh fs start = Some (- ENOSPC64, fs)) \<or>
    (\<not> disk_full byte fs \<and> (\<exists>x fs'. allocate_block dev fresh fs start = Some (of_nat x, fs') \<and> changes byte dsize fs fs' {} {x} \<and>
       data_block dsize fs x \<and> \<not> block_used byte fs x))"
proof -
  note ok = layoutD(1) [OF lay]
  obtain r fs' where a: "allocate_block dev fresh fs start = Some (r, fs')"
    "(\<exists>g b. took byte dsize Blocks g b fs fs' \<and> r = of_nat (block_no fs g b)) \<or> (r = - ENOSPC64 \<and> fs' = fs \<and> disk_full byte fs)"
    using allocate_block_runs [where fresh = fresh, OF ok start fresh] unfolding disk_full_def by blast
  show ?thesis using a(2)
  proof (elim disjE exE conjE)
    fix g b assume t: "took byte dsize Blocks g b fs fs'" "r = of_nat (block_no fs g b)"
    have "g < ngroups fs" "\<not> full byte Blocks fs g" "data_block dsize fs (block_no fs g b)"
      using t(1) free by (auto simp: took_def full_def free_ok_def)
    then show ?thesis using a(1) t(2) took_changes [OF lay t(1)] by (auto simp: disk_full_def)
  qed (use a(1) in auto)
qed

lemma create_indirect_block_changes:
  assumes lay: "layout dsize fs" and free: "free_ok byte dsize fs" and start: "unat start \<le> ngroups fs" and fresh: "length (fresh (bsz fs)) = bsz fs"
  shows "(disk_full byte fs \<and> create_indirect_block dev fresh fs start = Some (0, fs)) \<or>
    (\<not> disk_full byte fs \<and> (\<exists>x fs'. create_indirect_block dev fresh fs start = Some (x, fs') \<and> x \<noteq> 0 \<and> changes byte dsize fs fs' {unat x} {unat x} \<and>
       data_block dsize fs (unat x) \<and> \<not> block_used byte fs (unat x) \<and> block_bytes byte fs' (unat x) = replicate (bsz fs) 0))"
  using allocate_block_changes [where fresh = fresh, OF assms]
proof (elim disjE exE conjE)
  assume a: "disk_full byte fs" "allocate_block dev fresh fs start = Some (- ENOSPC64, fs)"
  have "- ENOSPC64 \<le>s (0 :: u64)" by (simp add: ENOSPC64_def word_sle_eq)
  then show ?thesis using a by (simp add: create_indirect_block_def)
next
  fix x fs'
  assume a: "\<not> disk_full byte fs" "allocate_block dev fresh fs start = Some (of_nat x, fs')" "changes byte dsize fs fs' {} {x}"
    "data_block dsize fs x" "\<not> block_used byte fs x"
  have x: "0 < x" "x < 4294967296" using a(4) by (simp_all add: data_block_def)
  have u: "unat (of_nat x :: u32) = x" "unat (of_nat x :: u64) = x" using x(2) by (simp_all add: unat_of_nat)
  have "\<not> bit (of_nat x :: u64) 63" using u(2) x(2) by (intro not_bit_small [where n = 32]) simp_all
  then have "0 \<le> sint (of_nat x :: u64)" unfolding sint_uint by (simp add: signed_take_bit_nonnegative_iff bit_uint_iff)
  moreover have nz: "(of_nat x :: u64) \<noteq> 0" "(of_nat x :: u32) \<noteq> 0" using u x(1) by (metis unat_0 less_irrefl)+
  ultimately have pos: "\<not> (of_nat x :: u64) \<le>s 0" using signed_word_eqI [of "of_nat x :: u64" 0] by (auto simp: word_sle_eq)
  have geo: "geo fs' = geo fs" using a(3) by (simp add: changes_def)
  have lay': "layout dsize fs'" by (rule layout_geo [OF geo lay])
  have data': "data_block dsize fs' (unat (of_nat x :: u32))" using a(4) data_block_geo [OF geo layoutD(1) [OF lay]] by (simp add: u)
  have uc: "(ucast (of_nat x :: u64) :: u32) = of_nat x" by (rule bit_word_eqI) (simp add: bit_ucast_iff bit_of_nat_iff)
  have "length (replicate (bsz fs) (0 :: u8)) = bsz fs'" using geoD(3) [OF geo] by simp
  from write_block_changes [OF lay' data' this] obtain d where
    d: "blk_write dev (dev_state fs') (block_to_offset fs' (of_nat x)) (block_size fs') (replicate (bsz fs) 0) = (ucast (block_size fs'), d)"
    "changes byte dsize fs' (fs' \<lparr> dev_state := d \<rparr>) {x} {}" "block_bytes byte (fs' \<lparr> dev_state := d \<rparr>) x = replicate (bsz fs) 0"
    by (auto simp: u)
  have "create_indirect_block dev fresh fs start = Some (of_nat x, fs' \<lparr> dev_state := d \<rparr>)"
    using a(2) pos d(1) geoD(1) [OF geo] by (simp add: create_indirect_block_def uc bsz_def)
  moreover have "changes byte dsize fs (fs' \<lparr> dev_state := d \<rparr>) {x} {x}"
    using changes_trans [OF a(3) d(2) layoutD(1) [OF lay]] by simp
  ultimately show ?thesis using a(1,4,5) d(3) nz u(1)
    by (intro disjI2 conjI exI [of _ "of_nat x"] exI [of _ "fs' \<lparr> dev_state := d \<rparr>"]) simp_all
qed

end

subsection \<open>The map of an inode\<close>

definition ppb :: "'d ext2 \<Rightarrow> nat" where "ppb fs = bsz fs div 4"

definition entry :: "('d \<Rightarrow> nat \<Rightarrow> u8) \<Rightarrow> 'd ext2 \<Rightarrow> nat \<Rightarrow> nat \<Rightarrow> nat" where
  "entry byte fs t i = unat (u32_at (block_bytes byte fs t) (4 * i))"

definition roots :: "ext2_inode \<Rightarrow> nat list" where
  "roots ino = map unat (direct_block_pointer ino @
     [single_indirect_block_pointer ino, double_indirect_block_pointer ino, triple_indirect_block_pointer ino])"

definition node_step :: "('d \<Rightarrow> nat \<Rightarrow> u8) \<Rightarrow> 'd ext2 \<Rightarrow> nat \<Rightarrow> nat \<Rightarrow> nat" where
  "node_step byte fs t i = (if t = 0 then 0 else entry byte fs t i)"

definition node :: "('d \<Rightarrow> nat \<Rightarrow> u8) \<Rightarrow> 'd ext2 \<Rightarrow> ext2_inode \<Rightarrow> nat list \<Rightarrow> nat" where
  "node byte fs ino p = (case p of [] \<Rightarrow> 0 | r # is \<Rightarrow> foldl (node_step byte fs) (roots ino ! r) is)"

text \<open>Paths, and those that end at a table.\<close>

definition depth :: "nat \<Rightarrow> nat" where "depth r = r - 11"

definition vpath :: "'d ext2 \<Rightarrow> nat list \<Rightarrow> bool" where
  "vpath fs p = (case p of [] \<Rightarrow> False | r # is \<Rightarrow> r < 15 \<and> length is \<le> depth r \<and> (\<forall>i \<in> set is. i < ppb fs))"

definition tpath :: "'d ext2 \<Rightarrow> nat list \<Rightarrow> bool" where
  "tpath fs p \<longleftrightarrow> vpath fs p \<and> length (tl p) < depth (hd p)"

lemma node_Nil [simp]: "node byte fs ino [] = 0" and node_root [simp]: "node byte fs ino [r] = roots ino ! r"
  by (simp_all add: node_def)

lemma node_snoc: "p \<noteq> [] \<Longrightarrow> node byte fs ino (p @ [i]) = node_step byte fs (node byte fs ino p) i"
  by (cases p) (simp_all add: node_def)

lemma vpath_Nil [simp]: "\<not> vpath fs []" and tpath_Nil [simp]: "\<not> tpath fs []"
  by (simp_all add: vpath_def tpath_def)

lemma vpath_root: "vpath fs [r] \<longleftrightarrow> r < 15" and tpath_root: "tpath fs [r] \<longleftrightarrow> 12 \<le> r \<and> r < 15"
  by (auto simp: vpath_def tpath_def depth_def)

lemma vpath_snoc: "p \<noteq> [] \<Longrightarrow> vpath fs (p @ [i]) \<longleftrightarrow> tpath fs p \<and> i < ppb fs"
  by (cases p) (auto simp: vpath_def tpath_def)

lemma tpath_vpath: "tpath fs p \<Longrightarrow> vpath fs p"
  by (simp add: tpath_def)

lemma paths_geo: "geo fs' = geo fs \<Longrightarrow> vpath fs' = vpath fs \<and> tpath fs' = tpath fs \<and> ppb fs' = ppb fs"
proof -
  assume "geo fs' = geo fs"
  then have "ppb fs' = ppb fs" using geoD(3) [of fs' fs] by (simp add: ppb_def)
  moreover from this have "vpath fs' = vpath fs" by (intro ext) (simp add: vpath_def split: list.split)
  moreover from this have "tpath fs' = tpath fs" by (intro ext) (simp add: tpath_def)
  ultimately show ?thesis by simp
qed

lemma vpath_induct [consumes 1, case_names root snoc]:
  assumes "vpath fs q" "\<And>r. r < 15 \<Longrightarrow> Q [r]" "\<And>q j. tpath fs q \<Longrightarrow> j < ppb fs \<Longrightarrow> Q q \<Longrightarrow> Q (q @ [j])"
  shows "Q q"
  using assms(1)
proof (induction q rule: rev_induct)
  case (snoc j q)
  show ?case
  proof (cases "q = []")
    case True
    then show ?thesis using snoc.prems assms(2) by (simp add: vpath_root)
  next
    case False
    then have "tpath fs q" "j < ppb fs" using snoc.prems by (simp_all add: vpath_snoc)
    then show ?thesis using assms(3) snoc.IH tpath_vpath by blast
  qed
qed simp

text \<open>The blocks of an inode are for data, in use, and no two of them are the same.\<close>

definition map_ok :: "('d \<Rightarrow> nat \<Rightarrow> u8) \<Rightarrow> nat \<Rightarrow> 'd ext2 \<Rightarrow> ext2_inode \<Rightarrow> bool" where
  "map_ok byte n fs ino \<longleftrightarrow> length (direct_block_pointer ino) = 12 \<and>
     (\<forall>p. vpath fs p \<and> node byte fs ino p \<noteq> 0 \<longrightarrow> data_block n fs (node byte fs ino p) \<and> block_used byte fs (node byte fs ino p)) \<and>
     (\<forall>p q. vpath fs p \<and> vpath fs q \<and> node byte fs ino p = node byte fs ino q \<and> node byte fs ino p \<noteq> 0 \<longrightarrow> p = q)"

lemma map_okD:
  assumes "map_ok byte n fs ino"
  shows "length (direct_block_pointer ino) = 12"
    "vpath fs p \<Longrightarrow> node byte fs ino p \<noteq> 0 \<Longrightarrow> data_block n fs (node byte fs ino p) \<and> block_used byte fs (node byte fs ino p)"
    "vpath fs p \<Longrightarrow> vpath fs q \<Longrightarrow> node byte fs ino p = node byte fs ino q \<Longrightarrow> node byte fs ino p \<noteq> 0 \<Longrightarrow> p = q"
  using assms unfolding map_ok_def by blast+

lemma entry_kept:
  "changes byte n fs fs' W A \<Longrightarrow> data_block n fs t \<Longrightarrow> t \<notin> W \<Longrightarrow> entry byte fs' t i = entry byte fs t i"
  by (simp add: changes_def entry_def)

text \<open>An operation that writes no table of the inode keeps its map.\<close>

lemma node_kept:
  assumes "changes byte n fs fs' W A" "map_ok byte n fs ino" "\<And>p. tpath fs p \<Longrightarrow> node byte fs ino p \<notin> W"
    and "vpath fs q"
  shows "node byte fs' ino q = node byte fs ino q"
  using assms(4)
proof (induction rule: vpath_induct)
  case (snoc q j)
  then have "q \<noteq> []" by auto
  then show ?case
    using snoc entry_kept [OF assms(1), of "node byte fs ino q" j] assms(3) map_okD(2) [OF assms(2) tpath_vpath]
    by (simp add: node_snoc node_step_def)
qed simp

text \<open>A pointer of the inode that had no table gets one without entries, or a direct pointer any block.\<close>

lemma node_set_root:
  assumes "r < 15" "length (roots ino) = 15" "roots ino' = (roots ino)[r := v]"
    and "12 \<le> r \<Longrightarrow> roots ino ! r = 0" "\<And>i. 12 \<le> r \<Longrightarrow> v \<noteq> 0 \<Longrightarrow> i < ppb fs \<Longrightarrow> entry byte fs v i = 0" "vpath fs q"
  shows "node byte fs ino' q = (if q = [r] then v else node byte fs ino q)"
  using assms(6)
proof (induction rule: vpath_induct)
  case (root x)
  then show ?case using assms(1-3) by (simp add: nth_list_update)
next
  case (snoc q j)
  have q: "q \<noteq> []" using snoc(1) by auto
  show ?case
  proof (cases "q = [r]")
    case True
    then have "12 \<le> r" using snoc(1) by (simp add: tpath_root)
    then show ?thesis unfolding node_snoc [OF q] using True snoc assms(4,5) by (auto simp: node_step_def)
  qed (use snoc q in \<open>simp add: node_snoc\<close>)
qed

text \<open>An entry of a table is written: it had no block, or it is not for a table.\<close>

lemma node_set_entry:
  assumes ch: "changes byte n fs fs' {node byte fs ino p} A" and ok: "map_ok byte n fs ino" and p: "tpath fs p" "node byte fs ino p \<noteq> 0"
    and i: "i < ppb fs" and e: "\<And>j. j < ppb fs \<Longrightarrow> entry byte fs' (node byte fs ino p) j = (if j = i then v else entry byte fs (node byte fs ino p) j)"
    and new: "tpath fs (p @ [i]) \<Longrightarrow> node byte fs ino (p @ [i]) = 0" "\<And>j. tpath fs (p @ [i]) \<Longrightarrow> v \<noteq> 0 \<Longrightarrow> j < ppb fs \<Longrightarrow> entry byte fs' v j = 0"
    and q: "vpath fs q"
  shows "node byte fs' ino q = (if q = p @ [i] then v else node byte fs ino q)"
  using q
proof (induction rule: vpath_induct)
  case (root x)
  have "p \<noteq> []" using p(1) by auto
  then show ?case by simp
next
  case (snoc q j)
  have q: "q \<noteq> []" using snoc(1) by auto
  consider "q = p" | "q = p @ [i]" | "q \<noteq> p" "q \<noteq> p @ [i]" by blast
  then show ?case
  proof cases
    case 1
    then show ?thesis using snoc e p q by (simp add: node_snoc node_step_def)
  next
    case 2
    then show ?thesis unfolding node_snoc [OF q] using snoc new by (simp add: node_step_def)
  next
    case 3
    have "node byte fs ino q \<noteq> node byte fs ino p" if "node byte fs ino q \<noteq> 0"
      using map_okD(3) [OF ok tpath_vpath [OF snoc(1)] tpath_vpath [OF p(1)]] 3 that by blast
    then show ?thesis
      using 3 snoc(3) entry_kept [OF ch, of "node byte fs ino q" j] map_okD(2) [OF ok tpath_vpath [OF snoc(1)]]
      by (simp add: node_snoc [OF q] node_step_def)
  qed
qed

subsection \<open>Changes of the map\<close>

lemma map_ok_update:
  assumes lay: "layout n fs" and ok: "map_ok byte n fs ino" and ch: "changes byte n fs fs' W A"
    and len: "length (direct_block_pointer ino') = 12"
    and upd: "\<And>q. vpath fs q \<Longrightarrow> node byte fs' ino' q = (if q = p then v else node byte fs ino q)"
    and v: "v \<noteq> 0 \<Longrightarrow> data_block n fs v \<and> block_used byte fs' v \<and> (\<forall>q. vpath fs q \<and> q \<noteq> p \<longrightarrow> node byte fs ino q \<noteq> v)"
  shows "map_ok byte n fs' ino'"
proof -
  have g: "geo fs' = geo fs" using ch by (simp add: changes_def)
  have vp: "vpath fs' = vpath fs" using paths_geo [OF g] by simp
  have db: "data_block n fs' x = data_block n fs x" for x by (rule data_block_geo [OF g layoutD(1) [OF lay]])
  have used: "block_used byte fs x \<Longrightarrow> block_used byte fs' x" for x using ch by (simp add: changes_def)
  have 1: "data_block n fs' (node byte fs' ino' q) \<and> block_used byte fs' (node byte fs' ino' q)"
    if "vpath fs q" "node byte fs' ino' q \<noteq> 0" for q
    using that upd [OF that(1)] v map_okD(2) [OF ok that(1)] used db by (auto split: if_splits)
  have 2: "q = q'" if "vpath fs q" "vpath fs q'" "node byte fs' ino' q = node byte fs' ino' q'" "node byte fs' ino' q \<noteq> 0" for q q'
    using that upd [OF that(1)] upd [OF that(2)] v map_okD(3) [OF ok that(1,2)] by (auto split: if_splits)
  show ?thesis using len 1 2 unfolding map_ok_def vp by blast
qed

text \<open>The map has become \<open>f\<close> on the paths of data; tables have been added and only tables of the inode written.\<close>

definition remapped ::
    "('d \<Rightarrow> nat \<Rightarrow> u8) \<Rightarrow> nat \<Rightarrow> 'd ext2 \<Rightarrow> ext2_inode \<Rightarrow> 'd ext2 \<Rightarrow> ext2_inode \<Rightarrow> (nat list \<Rightarrow> nat) \<Rightarrow> bool" where
  "remapped byte n fs ino fs' ino' f \<longleftrightarrow> map_ok byte n fs' ino' \<and>
     (\<forall>q. vpath fs q \<and> \<not> tpath fs q \<longrightarrow> node byte fs' ino' q = f q) \<and>
     (\<exists>W A. changes byte n fs fs' W A \<and> (\<forall>x \<in> W. \<exists>q. tpath fs q \<and> node byte fs' ino' q = x) \<and> (\<forall>x \<in> A. \<not> block_used byte fs x) \<and>
        (\<forall>q. tpath fs q \<longrightarrow> node byte fs' ino' q = node byte fs ino q \<or> (node byte fs ino q = 0 \<and> node byte fs' ino' q \<in> A)))"

lemma remappedI:
  assumes "changes byte n fs fs' W A" "map_ok byte n fs' ino'" "\<And>q. vpath fs q \<Longrightarrow> \<not> tpath fs q \<Longrightarrow> node byte fs' ino' q = f q"
    and "\<And>x. x \<in> W \<Longrightarrow> \<exists>q. tpath fs q \<and> node byte fs' ino' q = x" "\<And>x. x \<in> A \<Longrightarrow> \<not> block_used byte fs x"
    and "\<And>q. tpath fs q \<Longrightarrow> node byte fs' ino' q = node byte fs ino q \<or> (node byte fs ino q = 0 \<and> node byte fs' ino' q \<in> A)"
  shows "remapped byte n fs ino fs' ino' f"
  unfolding remapped_def using assms by blast

lemma remapped_refl: "map_ok byte n fs ino \<Longrightarrow> remapped byte n fs ino fs ino (node byte fs ino)"
  unfolding remapped_def by (auto intro!: exI [of _ "{}"])

lemma remapped_geo: "remapped byte n fs ino fs' ino' f \<Longrightarrow> geo fs' = geo fs"
  by (auto simp: remapped_def changes_def)

lemma remapped_free_ok:
  "remapped byte n fs ino fs' ino' f \<Longrightarrow> free_ok byte n fs \<Longrightarrow> ext2_ok n fs \<Longrightarrow> free_ok byte n fs'"
  unfolding remapped_def using free_ok_changes by blast

lemma remapped_trans:
  assumes 1: "remapped byte n fs ino fs1 ino1 (node byte fs ino)" and 2: "remapped byte n fs1 ino1 fs2 ino2 ((node byte fs1 ino1)(p := v))"
    and ok: "ext2_ok n fs" "map_ok byte n fs ino"
  shows "remapped byte n fs ino fs2 ino2 ((node byte fs ino)(p := v))"
proof -
  have g: "geo fs1 = geo fs" by (rule remapped_geo [OF 1])
  have paths: "vpath fs1 = vpath fs" "tpath fs1 = tpath fs" using paths_geo [OF g] by simp_all
  obtain W A where a: "changes byte n fs fs1 W A" "\<forall>x \<in> W. \<exists>q. tpath fs q \<and> node byte fs1 ino1 q = x" "\<forall>x \<in> A. \<not> block_used byte fs x"
    "\<forall>q. tpath fs q \<longrightarrow> node byte fs1 ino1 q = node byte fs ino q \<or> (node byte fs ino q = 0 \<and> node byte fs1 ino1 q \<in> A)"
    using 1 unfolding remapped_def by blast
  obtain W' A' where b: "changes byte n fs1 fs2 W' A'" "\<forall>x \<in> W'. \<exists>q. tpath fs q \<and> node byte fs2 ino2 q = x" "\<forall>x \<in> A'. \<not> block_used byte fs1 x"
    "\<forall>q. tpath fs q \<longrightarrow> node byte fs2 ino2 q = node byte fs1 ino1 q \<or> (node byte fs1 ino1 q = 0 \<and> node byte fs2 ino2 q \<in> A')"
    using 2 unfolding remapped_def paths by blast
  have ch: "changes byte n fs fs2 (W \<union> W') (A \<union> A')" by (rule changes_trans [OF a(1) b(1) ok(1)])
  have w: "\<exists>q. tpath fs q \<and> node byte fs2 ino2 q = x" if x: "x \<in> W \<union> W'" "x \<noteq> 0" for x
  proof (cases "x \<in> W'")
    case False
    then obtain q where q: "tpath fs q" "node byte fs1 ino1 q = x" using x False a(2) by blast
    then have "node byte fs2 ino2 q = x" using b(4) [rule_format, OF q(1)] x(2) by simp
    then show ?thesis using q(1) by blast
  qed (use b(2) in blast)
  have ch': "changes byte n fs fs2 (W \<union> W' - {0}) (A \<union> A')"
    using ch unfolding changes_def by (auto simp: data_block_def)
  have un: "\<forall>x \<in> A \<union> A'. \<not> block_used byte fs x" using a(1,3) b(3) by (auto simp: changes_def)
  have t: "node byte fs2 ino2 q = node byte fs ino q \<or> (node byte fs ino q = 0 \<and> node byte fs2 ino2 q \<in> A \<union> A')" if "tpath fs q" for q
    using a(4) [rule_format, OF that] b(4) [rule_format, OF that] by auto
  have f: "\<forall>q. vpath fs q \<and> \<not> tpath fs q \<longrightarrow> node byte fs2 ino2 q = ((node byte fs ino)(p := v)) q"
    using 1 2 unfolding remapped_def paths by (simp add: fun_upd_def)
  have m: "map_ok byte n fs2 ino2" using 2 by (simp add: remapped_def)
  have w': "\<forall>x \<in> W \<union> W' - {0}. \<exists>q. tpath fs q \<and> node byte fs2 ino2 q = x" using w by blast
  show ?thesis unfolding remapped_def using m f ch' w' un t by blast
qed

text \<open>What can be put at a path: nothing, or a used block of data that the inode does not have.\<close>

definition fresh_for :: "('d \<Rightarrow> nat \<Rightarrow> u8) \<Rightarrow> nat \<Rightarrow> 'd ext2 \<Rightarrow> ext2_inode \<Rightarrow> nat \<Rightarrow> bool" where
  "fresh_for byte n fs ino v \<longleftrightarrow> v \<noteq> 0 \<longrightarrow> data_block n fs v \<and> block_used byte fs v \<and> (\<forall>q. vpath fs q \<longrightarrow> node byte fs ino q \<noteq> v)"

lemma fresh_for_remapped:
  assumes r: "remapped byte n fs ino fs' ino' (node byte fs ino)" and ok: "ext2_ok n fs" and v: "fresh_for byte n fs ino v"
  shows "fresh_for byte n fs' ino' v"
proof -
  have g: "geo fs' = geo fs" by (rule remapped_geo [OF r])
  obtain W A where a: "changes byte n fs fs' W A" "\<forall>x \<in> A. \<not> block_used byte fs x"
    "\<forall>q. tpath fs q \<longrightarrow> node byte fs' ino' q = node byte fs ino q \<or> (node byte fs ino q = 0 \<and> node byte fs' ino' q \<in> A)"
    using r unfolding remapped_def by blast
  have full: "\<forall>q. vpath fs q \<and> \<not> tpath fs q \<longrightarrow> node byte fs' ino' q = node byte fs ino q" using r by (simp add: remapped_def)
  have "node byte fs' ino' q \<noteq> v" if "v \<noteq> 0" "vpath fs q" for q
    using v that a(2,3) full unfolding fresh_for_def by metis
  moreover have "block_used byte fs' v" if "v \<noteq> 0" using v that a(1) by (simp add: fresh_for_def changes_def)
  ultimately show ?thesis
    using v data_block_geo [OF g ok] paths_geo [OF g] unfolding fresh_for_def by simp
qed

lemma map_ok_kept:
  assumes "layout n fs" "map_ok byte n fs ino" "changes byte n fs fs' W A" "\<And>p. tpath fs p \<Longrightarrow> node byte fs ino p \<notin> W"
  shows "map_ok byte n fs' ino"
  by (rule map_ok_update [OF assms(1-3), where p = "[]" and v = 0])
    (use node_kept [OF assms(3,2,4)] map_okD(1) [OF assms(2)] in auto)

lemma word_ppb: "ext2_ok n fs \<Longrightarrow> i < ppb fs \<Longrightarrow> 4 * i + 4 \<le> bsz fs"
  using ext2_okD(3) [of n fs] by (auto simp: ppb_def elim: dvdE)

lemma zero_entries: "block_bytes byte fs t = replicate (bsz fs) 0 \<Longrightarrow> 4 * i + 4 \<le> bsz fs \<Longrightarrow> entry byte fs t i = 0"
  by (simp add: entry_def u32_at_def field_def min_def numeral_eq_Suc)

text \<open>The group of a block in use is one that the search can start from.\<close>

lemma group_of_used:
  assumes lay: "layout n fs" and u: "block_used byte fs (unat t)"
  shows "\<exists>g. group_of_block fs t = Some g \<and> unat g \<le> ngroups fs"
proof -
  obtain g b where gb: "g < ngroups fs" "b < unat (per_group Blocks fs)" "unat t = block_no fs g b" using u unfolding block_used_def by blast
  define c where "c = unat (per_group Blocks fs)"
  have "unat t < c + (b + g * c) + 1" using lay gb(3) by (simp add: layout_def block_no_def c_def)
  also have "\<dots> \<le> c + ngroups fs * c" using group_bit_bound [OF gb(1,2)] by (simp add: c_def)
  finally have "unat t < Suc (ngroups fs) * c" by simp
  then have "unat t div c < Suc (ngroups fs)" by (rule less_mult_imp_div_less)
  moreover have "per_group Blocks fs \<noteq> 0" using gb(2) by auto
  ultimately show ?thesis by (simp add: group_of_block_def per_group_def c_def unat_div)
qed

context byte_device
begin

lemma read_entry:
  assumes lay: "layout dsize fs" and fresh: "length (fresh (bsz fs)) = bsz fs" and t: "data_block dsize fs (unat t)" and i: "unat i < ppb fs"
  shows "read_indirect_entry dev fresh fs t i = Some (of_nat (entry byte fs (unat t) (unat i)))"
proof -
  note ok = layoutD(1) [OF lay]
  have "unat t * bsz fs + bsz fs \<le> dsize" using t by (simp add: data_block_def clear_of_tables_def)
  from read_block_bytes [where fresh = fresh, OF ok this fresh] show ?thesis
    using word_ppb [OF ok i] by (simp add: read_indirect_entry_def get_word_def entry_def)
qed

lemma set_entry_runs:
  assumes lay: "layout dsize fs" and fresh: "length (fresh (bsz fs)) = bsz fs" and t: "data_block dsize fs (unat t)" and i: "unat i < ppb fs"
  shows "\<exists>fs'. set_indirect_entry dev fresh fs t i v = Some (True, fs') \<and> changes byte dsize fs fs' {unat t} {} \<and>
    (\<forall>j<ppb fs. entry byte fs' (unat t) j = (if j = unat i then unat v else entry byte fs (unat t) j))"
proof -
  note ok = layoutD(1) [OF lay] and w = word_ppb [OF layoutD(1) [OF lay]]
  have "unat t * bsz fs + bsz fs \<le> dsize" using t by (simp add: data_block_def clear_of_tables_def)
  note rd = read_block_bytes [where fresh = fresh, OF ok this fresh]
  define bs where "bs = set_word (block_bytes byte fs (unat t)) (unat i) v"
  have "length bs = bsz fs" using w [OF i] by (simp add: bs_def)
  from write_block_changes [OF lay t this] obtain d where
    d: "blk_write dev (dev_state fs) (block_to_offset fs t) (block_size fs) bs = (ucast (block_size fs), d)"
    "changes byte dsize fs (fs \<lparr> dev_state := d \<rparr>) {unat t} {}" "block_bytes byte (fs \<lparr> dev_state := d \<rparr>) (unat t) = bs" by blast
  have "set_indirect_entry dev fresh fs t i v = Some (True, fs \<lparr> dev_state := d \<rparr>)"
    using w [OF i] d(1) device_result [OF ok] by (simp add: set_indirect_entry_def rd get_word_def bs_def [symmetric])
  moreover have "entry byte (fs \<lparr> dev_state := d \<rparr>) (unat t) j = (if j = unat i then unat v else entry byte fs (unat t) j)" for j
    using w [OF i] by (simp add: entry_def d(3) bs_def u32_at_set_word)
  ultimately show ?thesis using d(2) by blast
qed

lemma entry_or_create_runs:
  assumes lay: "layout dsize fs" and fresh: "length (fresh (bsz fs)) = bsz fs" and ok: "map_ok byte dsize fs ino" and free: "free_ok byte dsize fs"
    and p: "tpath fs p" "node byte fs ino p = unat t" "t \<noteq> 0" "tpath fs (p @ [unat i])"
  shows "\<exists>r fs'. entry_or_create dev fresh fs t i = Some (r, fs') \<and> (r = 0 \<longrightarrow> fs' = fs \<and> disk_full byte fs) \<and>
    (r \<noteq> 0 \<longrightarrow> remapped byte dsize fs ino fs' ino (node byte fs ino) \<and> node byte fs' ino (p @ [unat i]) = unat r)"
proof -
  have t0: "unat t \<noteq> 0" using p(3) by (simp add: unat_eq_zero)
  have pn: "p \<noteq> []" using p(1) by auto
  have i: "unat i < ppb fs" using tpath_vpath [OF p(4)] by (simp add: vpath_snoc [OF pn])
  have t: "data_block dsize fs (unat t)" "block_used byte fs (unat t)"
    using map_okD(2) [OF ok tpath_vpath [OF p(1)]] t0 by (simp_all add: p(2))
  have ni: "node byte fs ino (p @ [unat i]) = entry byte fs (unat t) (unat i)"
    using t0 by (simp add: node_snoc [OF pn] p(2) node_step_def)
  define e where "e = entry byte fs (unat t) (unat i)"
  have e32: "unat (of_nat e :: u32) = e" by (simp add: e_def entry_def)
  note rd = read_entry [where fresh = fresh, OF lay fresh t(1) i, folded e_def]
  show ?thesis
  proof (cases "e = 0")
    case False
    then have "(of_nat e :: u32) \<noteq> 0" using e32 by (metis unat_0)
    then show ?thesis using rd remapped_refl [OF ok] ni e32 by (simp add: entry_or_create_def e_def [symmetric])
  next
    case e0: True
    obtain g where g: "group_of_block fs t = Some g" "unat g \<le> ngroups fs" using group_of_used [OF lay t(2)] by blast
    show ?thesis
    proof (cases "disk_full byte fs")
      case True
      then have "create_indirect_block dev fresh fs g = Some (0, fs)"
        using create_indirect_block_changes [where fresh = fresh, OF lay free g(2) fresh] by blast
      then show ?thesis using rd e0 g(1) True by (simp add: entry_or_create_def)
    next
      case False
      then obtain x fs1 where x: "create_indirect_block dev fresh fs g = Some (x, fs1)" "x \<noteq> 0" "changes byte dsize fs fs1 {unat x} {unat x}"
        "data_block dsize fs (unat x)" "\<not> block_used byte fs (unat x)" "block_bytes byte fs1 (unat x) = replicate (bsz fs) 0"
        using create_indirect_block_changes [where fresh = fresh, OF lay free g(2) fresh] by blast
      have geo1: "geo fs1 = geo fs" using x(3) by (simp add: changes_def)
      have x0: "unat x \<noteq> 0" using x(2) by (simp add: unat_eq_zero)
      have nx: "node byte fs ino q \<noteq> unat x" if "vpath fs q" for q
        using map_okD(2) [OF ok that] x(5) x0 by metis
      then have nt: "node byte fs ino q \<notin> {unat x}" if "tpath fs q" for q using that tpath_vpath by blast
      have n1: "node byte fs1 ino q = node byte fs ino q" if "vpath fs q" for q by (rule node_kept [OF x(3) ok nt that])
      have lay1: "layout dsize fs1" by (rule layout_geo [OF geo1 lay])
      have ok1: "map_ok byte dsize fs1 ino" by (rule map_ok_kept [OF lay ok x(3) nt])
      have paths: "vpath fs1 = vpath fs" "tpath fs1 = tpath fs" "ppb fs1 = ppb fs" using paths_geo [OF geo1] by simp_all
      have t1: "data_block dsize fs1 (unat t)" using t(1) data_block_geo [OF geo1 layoutD(1) [OF lay]] by simp
      have "length (fresh (bsz fs1)) = bsz fs1" "unat i < ppb fs1" using fresh geoD(3) [OF geo1] i paths by simp_all
      from set_entry_runs [where fresh = fresh, OF lay1 this(1) t1 this(2)] obtain fs2 where
        s: "set_indirect_entry dev fresh fs1 t i x = Some (True, fs2)" "changes byte dsize fs1 fs2 {unat t} {}"
        "\<forall>j<ppb fs. entry byte fs2 (unat t) j = (if j = unat i then unat x else entry byte fs1 (unat t) j)"
        using paths by auto
      have p1: "node byte fs1 ino p = unat t" using n1 [OF tpath_vpath [OF p(1)]] p(2) by simp
      have zero: "entry byte fs2 (unat x) j = 0" if "j < ppb fs" for j
      proof -
        have "unat x \<noteq> unat t" using t(2) x(5) by auto
        moreover have "data_block dsize fs1 (unat x)" using x(4) data_block_geo [OF geo1 layoutD(1) [OF lay]] by simp
        ultimately have "entry byte fs2 (unat x) j = entry byte fs1 (unat x) j" using entry_kept [OF s(2)] by simp
        also have "\<dots> = 0" using x(6) word_ppb [OF layoutD(1) [OF lay] that] geoD(3) [OF geo1] by (intro zero_entries) simp_all
        finally show ?thesis .
      qed
      have ch2: "changes byte dsize fs1 fs2 {node byte fs1 ino p} {}" using s(2) by (simp add: p1)
      have n2: "node byte fs2 ino q = (if q = p @ [unat i] then unat x else node byte fs ino q)" if "vpath fs q" for q
      proof -
        have "node byte fs2 ino q = (if q = p @ [unat i] then unat x else node byte fs1 ino q)"
          using p(1) i t0 s(3) zero that n1 [OF tpath_vpath [OF p(4)]] ni e0
          by (intro node_set_entry [OF ch2 ok1]) (simp_all add: paths p1 e_def)
        then show ?thesis using n1 [OF that] by simp
      qed
      have ch: "changes byte dsize fs fs2 {unat x, unat t} {unat x}"
        using changes_trans [OF x(3) s(2) layoutD(1) [OF lay]] by (simp add: insert_commute)
      have ok2: "map_ok byte dsize fs2 ino"
        by (rule map_ok_update [OF lay ok ch map_okD(1) [OF ok] n2]) (use x(4) ch nx in \<open>auto simp: changes_def\<close>)
      have "remapped byte dsize fs ino fs2 ino (node byte fs ino)"
      proof (rule remappedI [OF ch ok2])
        show "node byte fs2 ino q = node byte fs ino q" if "vpath fs q" "\<not> tpath fs q" for q using n2 [OF that(1)] that p(4) by auto
        show "\<exists>q. tpath fs q \<and> node byte fs2 ino q = y" if "y \<in> {unat x, unat t}" for y
          using that p n2 [OF tpath_vpath [OF p(4)]] n2 [OF tpath_vpath [OF p(1)]] by auto
        show "node byte fs2 ino q = node byte fs ino q \<or> node byte fs ino q = 0 \<and> node byte fs2 ino q \<in> {unat x}" if "tpath fs q" for q
          using n2 [OF tpath_vpath [OF that]] ni e0 by (simp add: e_def)
      qed (use x(5) in auto)
      moreover have "entry_or_create dev fresh fs t i = Some (x, fs2)"
        using rd e0 g(1) x(1,2) s(1) by (simp add: entry_or_create_def)
      ultimately show ?thesis using n2 [OF tpath_vpath [OF p(4)]] x(2) by simp
    qed
  qed
qed

text \<open>The entry of a last table.\<close>

lemma put_leaf:
  assumes lay: "layout dsize fs" and fresh: "length (fresh (bsz fs)) = bsz fs" and ok: "map_ok byte dsize fs ino"
    and p: "tpath fs p" "node byte fs ino p = unat t" "t \<noteq> 0" "unat i < ppb fs" "\<not> tpath fs (p @ [unat i])"
    and v: "fresh_for byte dsize fs ino (unat value)"
  shows "\<exists>fs'. set_physical_block_l1 dev fresh fs t i value = Some (True, fs') \<and>
    remapped byte dsize fs ino fs' ino ((node byte fs ino)(p @ [unat i] := unat value))"
proof -
  have t0: "unat t \<noteq> 0" using p(3) by (simp add: unat_eq_zero)
  have t: "data_block dsize fs (unat t)" using map_okD(2) [OF ok tpath_vpath [OF p(1)]] t0 by (simp add: p(2))
  obtain fs' where s: "set_indirect_entry dev fresh fs t i value = Some (True, fs')" "changes byte dsize fs fs' {unat t} {}"
    "\<forall>j<ppb fs. entry byte fs' (unat t) j = (if j = unat i then unat value else entry byte fs (unat t) j)"
    using set_entry_runs [where fresh = fresh, OF lay fresh t p(4)] by blast
  have n: "node byte fs' ino q = (if q = p @ [unat i] then unat value else node byte fs ino q)" if "vpath fs q" for q
    using s p t0 that by (intro node_set_entry [OF _ ok]) simp_all
  have used: "block_used byte fs' x \<longleftrightarrow> block_used byte fs x" for x using s(2) by (simp add: changes_def)
  have ok': "map_ok byte dsize fs' ino"
    by (rule map_ok_update [OF lay ok s(2) map_okD(1) [OF ok] n]) (use v used in \<open>auto simp: fresh_for_def\<close>)
  have "remapped byte dsize fs ino fs' ino ((node byte fs ino)(p @ [unat i] := unat value))"
  proof (rule remappedI [OF s(2) ok'])
    show "node byte fs' ino q = ((node byte fs ino)(p @ [unat i] := unat value)) q" if "vpath fs q" for q
      using n [OF that] by simp
    show "\<exists>q. tpath fs q \<and> node byte fs' ino q = x" if "x \<in> {unat t}" for x
      using that p(1,2) n [OF tpath_vpath [OF p(1)]] by auto
    show "node byte fs' ino q = node byte fs ino q \<or> node byte fs ino q = 0 \<and> node byte fs' ino q \<in> {}" if "tpath fs q" for q
      using n [OF tpath_vpath [OF that]] that p(5) by auto
  qed simp_all
  then show ?thesis using s(1) by (simp add: set_physical_block_l1_def)
qed

text \<open>Both outcomes of a level: done, or the disk has become full on the way and the map is as it was.\<close>

lemma put_l2:
  assumes lay: "layout dsize fs" and fresh: "length (fresh (bsz fs)) = bsz fs" and ok: "map_ok byte dsize fs ino" and free: "free_ok byte dsize fs"
    and p: "tpath fs p" "node byte fs ino p = unat t" "t \<noteq> 0" "tpath fs (p @ [unat i2])" "unat i1 < ppb fs" "\<not> tpath fs (p @ [unat i2, unat i1])"
    and v: "fresh_for byte dsize fs ino (unat value)"
  shows "\<exists>r fs'. set_physical_block_l2 dev fresh fs t i2 i1 value = Some (r, fs') \<and> (\<not> r \<longrightarrow> disk_full byte fs') \<and>
    remapped byte dsize fs ino fs' ino (if r then (node byte fs ino)(p @ [unat i2, unat i1] := unat value) else node byte fs ino)"
proof -
  note ok' = layoutD(1) [OF lay]
  obtain x fs1 where e: "entry_or_create dev fresh fs t i2 = Some (x, fs1)" "x = 0 \<longrightarrow> fs1 = fs \<and> disk_full byte fs"
    "x \<noteq> 0 \<longrightarrow> remapped byte dsize fs ino fs1 ino (node byte fs ino) \<and> node byte fs1 ino (p @ [unat i2]) = unat x"
    using entry_or_create_runs [where fresh = fresh, OF lay fresh ok free p(1-4)] by blast
  show ?thesis
  proof (cases "x = 0")
    case True
    then show ?thesis using e(1,2) remapped_refl [OF ok] by (intro exI [of _ False] exI [of _ fs]) (simp add: set_physical_block_l2_def)
  next
    case False
    then have r1: "remapped byte dsize fs ino fs1 ino (node byte fs ino)" and n1: "node byte fs1 ino (p @ [unat i2]) = unat x" using e(3) by simp_all
    note g = remapped_geo [OF r1]
    have paths: "tpath fs1 = tpath fs" "ppb fs1 = ppb fs" using paths_geo [OF g] by simp_all
    have "length (fresh (bsz fs1)) = bsz fs1" "map_ok byte dsize fs1 ino" using fresh geoD(3) [OF g] r1 by (simp_all add: remapped_def)
    from put_leaf [where fresh = fresh, OF layout_geo [OF g lay] this, of "p @ [unat i2]" x i1 "value"] obtain fs2 where
      s: "set_physical_block_l1 dev fresh fs1 x i1 value = Some (True, fs2)"
      "remapped byte dsize fs1 ino fs2 ino ((node byte fs1 ino)(p @ [unat i2, unat i1] := unat value))"
      using p(4-6) n1 False fresh_for_remapped [OF r1 ok' v] by (auto simp: paths)
    have "remapped byte dsize fs ino fs2 ino ((node byte fs ino)(p @ [unat i2, unat i1] := unat value))"
      by (rule remapped_trans [OF r1 s(2) ok' ok])
    then show ?thesis using e(1) False s(1) by (intro exI [of _ True] exI [of _ fs2]) (simp add: set_physical_block_l2_def)
  qed
qed

lemma remapped_step:
  assumes "remapped byte dsize fs ino fs1 ino1 (node byte fs ino)" "ext2_ok dsize fs" "map_ok byte dsize fs ino"
    and "remapped byte dsize fs1 ino1 fs2 ino2 (if r then (node byte fs1 ino1)(q := v) else node byte fs1 ino1)"
  shows "remapped byte dsize fs ino fs2 ino2 (if r then (node byte fs ino)(q := v) else node byte fs ino)"
proof (cases r)
  case True
  then show ?thesis using remapped_trans [OF assms(1) _ assms(2,3)] assms(4) by simp
next
  case False
  have "(node byte fs1 ino1)([] := 0) = node byte fs1 ino1" by (simp add: fun_eq_iff)
  then have "remapped byte dsize fs1 ino1 fs2 ino2 ((node byte fs1 ino1)([] := 0))" using assms(4) False by simp
  from remapped_trans [OF assms(1) this assms(2,3)] have "remapped byte dsize fs ino fs2 ino2 ((node byte fs ino)([] := 0))" .
  moreover have "(node byte fs ino)([] := 0) = node byte fs ino" by (simp add: fun_eq_iff)
  ultimately show ?thesis using False by simp
qed

lemma put_l3:
  assumes lay: "layout dsize fs" and fresh: "length (fresh (bsz fs)) = bsz fs" and ok: "map_ok byte dsize fs ino" and free: "free_ok byte dsize fs"
    and p: "tpath fs p" "node byte fs ino p = unat t" "t \<noteq> 0" "tpath fs (p @ [unat i3])" "tpath fs (p @ [unat i3, unat i2])"
      "unat i1 < ppb fs" "\<not> tpath fs (p @ [unat i3, unat i2, unat i1])"
    and v: "fresh_for byte dsize fs ino (unat value)"
  shows "\<exists>r fs'. set_physical_block_l3 dev fresh fs t i3 i2 i1 value = Some (r, fs') \<and> (\<not> r \<longrightarrow> disk_full byte fs') \<and>
    remapped byte dsize fs ino fs' ino (if r then (node byte fs ino)(p @ [unat i3, unat i2, unat i1] := unat value) else node byte fs ino)"
proof -
  note ok' = layoutD(1) [OF lay]
  obtain x fs1 where e: "entry_or_create dev fresh fs t i3 = Some (x, fs1)" "x = 0 \<longrightarrow> fs1 = fs \<and> disk_full byte fs"
    "x \<noteq> 0 \<longrightarrow> remapped byte dsize fs ino fs1 ino (node byte fs ino) \<and> node byte fs1 ino (p @ [unat i3]) = unat x"
    using entry_or_create_runs [where fresh = fresh, OF lay fresh ok free p(1-4)] by blast
  show ?thesis
  proof (cases "x = 0")
    case True
    then show ?thesis using e(1,2) remapped_refl [OF ok] by (intro exI [of _ False] exI [of _ fs]) (simp add: set_physical_block_l3_def)
  next
    case False
    then have r1: "remapped byte dsize fs ino fs1 ino (node byte fs ino)" and n1: "node byte fs1 ino (p @ [unat i3]) = unat x" using e(3) by simp_all
    note g = remapped_geo [OF r1]
    have paths: "tpath fs1 = tpath fs" "ppb fs1 = ppb fs" using paths_geo [OF g] by simp_all
    have "length (fresh (bsz fs1)) = bsz fs1" "map_ok byte dsize fs1 ino" using fresh geoD(3) [OF g] r1 by (simp_all add: remapped_def)
    from put_l2 [where fresh = fresh, OF layout_geo [OF g lay] this remapped_free_ok [OF r1 free ok'], of "p @ [unat i3]" x i2 i1 "value"]
    obtain r fs2 where
      s: "set_physical_block_l2 dev fresh fs1 x i2 i1 value = Some (r, fs2)" "\<not> r \<longrightarrow> disk_full byte fs2"
      "remapped byte dsize fs1 ino fs2 ino (if r then (node byte fs1 ino)((p @ [unat i3]) @ [unat i2, unat i1] := unat value) else node byte fs1 ino)"
      using p(4-7) n1 False fresh_for_remapped [OF r1 ok' v] by (simp add: paths) blast
    have "remapped byte dsize fs ino fs2 ino (if r then (node byte fs ino)(p @ [unat i3, unat i2, unat i1] := unat value) else node byte fs ino)"
      using remapped_step [OF r1 ok' ok s(3)] by (cases r) simp_all
    then show ?thesis using e(1) False s(1,2) by (intro exI [of _ r] exI [of _ fs2]) (simp add: set_physical_block_l3_def)
  qed
qed

text \<open>A table for a pointer of the inode.\<close>

lemma root_or_create_runs:
  assumes lay: "layout dsize fs" and fresh: "length (fresh (bsz fs)) = bsz fs" and ok: "map_ok byte dsize fs ino" and free: "free_ok byte dsize fs"
    and r: "12 \<le> r" "r < 15" "unat root = roots ino ! r" and g: "grp = Some g" "unat g \<le> ngroups fs"
    and ino': "\<And>x. roots (ino' x) = (roots ino)[r := unat x]" "\<And>x. length (direct_block_pointer (ino' x)) = 12" "ino' root = ino"
    and have_block: "root \<noteq> 0 \<or> \<not> disk_full byte fs"
  shows "\<exists>x fs'. root_or_create dev fresh fs root grp = Some (x, fs') \<and> x \<noteq> 0 \<and>
    remapped byte dsize fs ino fs' (ino' x) (node byte fs ino) \<and> node byte fs' (ino' x) [r] = unat x"
proof (cases "root = 0")
  case False
  then show ?thesis using remapped_refl [OF ok] r(3) ino'(3) by (simp add: root_or_create_def)
next
  case True
  obtain x fs1 where x: "create_indirect_block dev fresh fs g = Some (x, fs1)" "x \<noteq> 0" "changes byte dsize fs fs1 {unat x} {unat x}"
    "data_block dsize fs (unat x)" "\<not> block_used byte fs (unat x)" "block_bytes byte fs1 (unat x) = replicate (bsz fs) 0"
    using create_indirect_block_changes [where fresh = fresh, OF lay free g(2) fresh] have_block True by blast
  have geo1: "geo fs1 = geo fs" using x(3) by (simp add: changes_def)
  have x0: "unat x \<noteq> 0" using x(2) by (simp add: unat_eq_zero)
  have nx: "node byte fs ino q \<noteq> unat x" if "vpath fs q" for q using map_okD(2) [OF ok that] x(5) x0 by metis
  then have nt: "node byte fs ino q \<notin> {unat x}" if "tpath fs q" for q using that tpath_vpath by blast
  have n1: "node byte fs1 ino q = node byte fs ino q" if "vpath fs q" for q by (rule node_kept [OF x(3) ok nt that])
  have paths: "vpath fs1 = vpath fs" "tpath fs1 = tpath fs" "ppb fs1 = ppb fs" using paths_geo [OF geo1] by simp_all
  have len: "length (roots ino) = 15" using map_okD(1) [OF ok] by (simp add: roots_def)
  have r0: "roots ino ! r = 0" using r(3) True by simp
  have zero: "entry byte fs1 (unat x) j = 0" if "j < ppb fs1" for j
    using x(6) that geoD(3) [OF geo1] word_ppb [OF layoutD(1) [OF lay]] paths by (intro zero_entries) simp_all
  have n2: "node byte fs1 (ino' x) q = (if q = [r] then unat x else node byte fs ino q)" if "vpath fs q" for q
  proof -
    have "node byte fs1 (ino' x) q = (if q = [r] then unat x else node byte fs1 ino q)"
      using r(2) len ino'(1) r0 zero that by (intro node_set_root) (simp_all add: paths)
    then show ?thesis using n1 [OF that] by simp
  qed
  have ok2: "map_ok byte dsize fs1 (ino' x)"
    by (rule map_ok_update [OF lay ok x(3) ino'(2) n2]) (use x(3,4) nx in \<open>auto simp: changes_def\<close>)
  have tr: "tpath fs [r]" using r by (simp add: tpath_root)
  have "remapped byte dsize fs ino fs1 (ino' x) (node byte fs ino)"
  proof (rule remappedI [OF x(3) ok2])
    show "node byte fs1 (ino' x) q = node byte fs ino q" if "vpath fs q" "\<not> tpath fs q" for q using n2 [OF that(1)] that tr by auto
    show "\<exists>q. tpath fs q \<and> node byte fs1 (ino' x) q = y" if "y \<in> {unat x}" for y
      using that tr n2 [OF tpath_vpath [OF tr]] by auto
    show "node byte fs1 (ino' x) q = node byte fs ino q \<or> node byte fs ino q = 0 \<and> node byte fs1 (ino' x) q \<in> {unat x}" if "tpath fs q" for q
      using n2 [OF tpath_vpath [OF that]] r0 by simp
  qed (use x(5) in auto)
  then show ?thesis using True x(1,2) g(1) n2 [OF tpath_vpath [OF tr]] by (simp add: root_or_create_def)
qed

end

end
