(* ===== verification/Ext2_Paths.thy ===== *)
theory Ext2_Paths
  imports Ext2_Map Ext2_Runs
begin

text \<open>
  The block map of an inode as a function from logical blocks to blocks: \<open>locate\<close> is the path of a logical block, getting
  a block is a look-up at that path, and setting one is an update of the function at the logical block.
\<close>

subsection \<open>The path of a logical block\<close>

definition locate :: "nat \<Rightarrow> nat \<Rightarrow> nat list" where
  "locate p n =
     (if n < 12 then [n]
      else let n = n - 12 in if n < p then [12, n]
      else let n = n - p in if n < p * p then [13, n div p, n mod p]
      else let n = n - p * p in [14, n div (p * p), n mod (p * p) div p, n mod (p * p) mod p])"

definition map_size :: "nat \<Rightarrow> nat" where "map_size p = 12 + p + p * p + p * p * p"

lemma locate_full:
  assumes "n < map_size (ppb fs)"
  shows "vpath fs (locate (ppb fs) n) \<and> \<not> tpath fs (locate (ppb fs) n)"
proof -
  define p where "p = ppb fs"
  have p: "0 < p" if "12 \<le> n" using that assms by (cases "p = 0") (simp_all add: map_size_def p_def)
  have d: "(n - 12 - p) div p < p" if "n - 12 - p < p * p" using that by (simp add: less_mult_imp_div_less)
  have t: "(n - 12 - p - p * p) div (p * p) < p" if "12 \<le> n" "p \<le> n - 12" "p * p \<le> n - 12 - p"
    using that assms by (intro less_mult_imp_div_less) (simp add: map_size_def p_def [symmetric] algebra_simps)
  have m: "x mod (p * p) div p < p" if "0 < p" for x
    using that mod_less_divisor [of "p * p" x] by (intro less_mult_imp_div_less) simp
  show ?thesis
    using p d t m by (auto simp: locate_def vpath_def tpath_def depth_def Let_def p_def [symmetric] mod_less_divisor not_less)
qed

lemma locate_inj:
  assumes eq: "locate p m = locate p n" and p: "0 < p"
  shows "m = n"
proof -
  have split: "x = y" if "x div k = y div k" "x mod k = y mod k" for x y k :: nat
    using that by (metis div_mult_mod_eq)
  define a b where "a = m - 12 - p" and "b = n - 12 - p"
  have d2: "a = b" if "a div p = b div p" "a mod p = b mod p" using split [OF that] .
  have d3: "a - p * p = b - p * p" if "(a - p * p) div (p * p) = (b - p * p) div (p * p)"
      "(a - p * p) mod (p * p) div p = (b - p * p) mod (p * p) div p" "(a - p * p) mod (p * p) mod p = (b - p * p) mod (p * p) mod p"
    using split [OF that(1) split [OF that(2,3)]] .
  note eq' = eq [unfolded locate_def Let_def, folded a_def b_def]
  consider "m < 12" | "12 \<le> m" "m - 12 < p" | "12 \<le> m" "p \<le> m - 12" "a < p * p" | "12 \<le> m" "p \<le> m - 12" "p * p \<le> a"
    by linarith
  then show ?thesis
  proof cases
    case 3
    then have "12 \<le> n" "p \<le> n - 12" "a div p = b div p" "a mod p = b mod p" using eq' by (simp_all split: if_splits)
    then show ?thesis using d2 3 by (simp add: a_def b_def)
  next
    case 4
    then have "12 \<le> n" "p \<le> n - 12" "p * p \<le> b" "(a - p * p) div (p * p) = (b - p * p) div (p * p)"
      "(a - p * p) mod (p * p) div p = (b - p * p) mod (p * p) div p" "(a - p * p) mod (p * p) mod p = (b - p * p) mod (p * p) mod p"
      using eq' by (simp_all split: if_splits)
    then show ?thesis using d3 4 by (simp add: a_def b_def)
  qed (use eq' in \<open>simp_all split: if_splits\<close>)
qed

subsection \<open>Words\<close>

lemma ppb_words:
  assumes "ext2_ok n fs"
  shows "ppb fs \<le> 16384" "256 \<le> ppb fs" "unat (p_per_block fs) = ppb fs" "unat (p_per_block fs * p_per_block fs) = ppb fs * ppb fs"
    "unat (ucast (p_per_block fs) * (ucast (p_per_block fs) :: u64)) = ppb fs * ppb fs" "ppb fs * ppb fs \<le> 268435456"
proof -
  show P: "ppb fs \<le> 16384" and "256 \<le> ppb fs" using ext2_okD(4,5) [OF assms] by (simp_all add: ppb_def)
  have "unat (block_size fs div 4) = ppb fs" by (simp add: ppb_def bsz_def unat_div)
  then show p: "unat (p_per_block fs) = ppb fs" using P by (simp add: p_per_block_def unsigned_ucast_eq take_bit_nat_eq_self)
  have sq: "ppb fs * ppb fs \<le> 16384 * 16384" using P by (rule mult_le_mono) (rule P)
  then show "ppb fs * ppb fs \<le> 268435456" by simp
  show "unat (p_per_block fs * p_per_block fs) = ppb fs * ppb fs" using sq by (simp add: unat_word_ariths p)
  have "unat (ucast (p_per_block fs) :: u64) = ppb fs" using P by (simp add: unsigned_ucast_eq take_bit_nat_eq_self p)
  then show "unat (ucast (p_per_block fs) * (ucast (p_per_block fs) :: u64)) = ppb fs * ppb fs" using sq by (simp add: unat_word_ariths)
qed

lemma entry_word [simp]: "unat (of_nat (entry byte fs t i) :: u32) = entry byte fs t i"
  by (simp add: entry_def)

subsection \<open>Getting a block\<close>

context byte_device
begin

lemma get_l1_node:
  assumes lay: "layout dsize fs" and fresh: "length (fresh (bsz fs)) = bsz fs" and ok: "map_ok byte dsize fs ino"
    and q: "tpath fs q" "node byte fs ino q = unat t" "t \<noteq> 0" "unat i < ppb fs"
  shows "get_physical_block_l1 dev fresh fs t i = Some (of_nat (node byte fs ino (q @ [unat i])))"
proof -
  have t: "unat t \<noteq> 0" using q(3) by (simp add: unat_eq_zero)
  have "data_block dsize fs (unat t)" using map_okD(2) [OF ok tpath_vpath [OF q(1)]] q(2) t by simp
  moreover have "node byte fs ino (q @ [unat i]) = entry byte fs (unat t) (unat i)"
    using q t by (cases "q = []") (simp_all add: node_snoc node_step_def)
  ultimately show ?thesis using read_entry [where fresh = fresh, OF lay fresh _ q(4)] by (simp add: get_physical_block_l1_def)
qed

lemma node_word: "q \<noteq> [] \<Longrightarrow> unat (of_nat (node byte fs ino (q @ [i])) :: u32) = node byte fs ino (q @ [i])"
  by (simp add: node_snoc node_step_def)

lemma node_below: "q \<noteq> [] \<Longrightarrow> node byte fs ino q = 0 \<Longrightarrow> node byte fs ino (q @ [i]) = 0"
  by (simp add: node_snoc node_step_def)

lemma get_l2_node:
  assumes lay: "layout dsize fs" and fresh: "length (fresh (bsz fs)) = bsz fs" and ok: "map_ok byte dsize fs ino"
    and q: "tpath fs q" "node byte fs ino q = unat t" "t \<noteq> 0" "tpath fs (q @ [unat i2])" "unat i1 < ppb fs"
  shows "get_physical_block_l2 dev fresh fs t i2 i1 = Some (of_nat (node byte fs ino (q @ [unat i2, unat i1])))"
proof -
  have ne: "q \<noteq> []" using q(1) by auto
  have i2: "unat i2 < ppb fs" using vpath_snoc [OF ne] tpath_vpath [OF q(4)] by blast
  define x where "x = (of_nat (node byte fs ino (q @ [unat i2])) :: u32)"
  have x: "unat x = node byte fs ino (q @ [unat i2])" using node_word [OF ne] by (simp add: x_def)
  have rd: "read_indirect_entry dev fresh fs t i2 = Some x"
    using get_l1_node [where fresh = fresh, OF lay fresh ok q(1-3) i2] by (simp add: get_physical_block_l1_def x_def)
  show ?thesis
  proof (cases "x = 0")
    case True
    then have "node byte fs ino ((q @ [unat i2]) @ [unat i1]) = 0" using x by (intro node_below [of "q @ [unat i2]"]) simp_all
    then show ?thesis using True rd by (simp add: get_physical_block_l2_def)
  next
    case False
    then show ?thesis
      using get_l1_node [where fresh = fresh, OF lay fresh ok q(4) x [symmetric] False q(5)] rd by (simp add: get_physical_block_l2_def)
  qed
qed

lemma get_l3_node:
  assumes lay: "layout dsize fs" and fresh: "length (fresh (bsz fs)) = bsz fs" and ok: "map_ok byte dsize fs ino"
    and q: "tpath fs q" "node byte fs ino q = unat t" "t \<noteq> 0" "tpath fs (q @ [unat i3])" "tpath fs (q @ [unat i3, unat i2])" "unat i1 < ppb fs"
  shows "get_physical_block_l3 dev fresh fs t i3 i2 i1 = Some (of_nat (node byte fs ino (q @ [unat i3, unat i2, unat i1])))"
proof -
  have ne: "q \<noteq> []" using q(1) by auto
  have i3: "unat i3 < ppb fs" using vpath_snoc [OF ne] tpath_vpath [OF q(4)] by blast
  define x where "x = (of_nat (node byte fs ino (q @ [unat i3])) :: u32)"
  have x: "unat x = node byte fs ino (q @ [unat i3])" using node_word [OF ne] by (simp add: x_def)
  have rd: "read_indirect_entry dev fresh fs t i3 = Some x"
    using get_l1_node [where fresh = fresh, OF lay fresh ok q(1-3) i3] by (simp add: get_physical_block_l1_def x_def)
  show ?thesis
  proof (cases "x = 0")
    case True
    then have "node byte fs ino ((q @ [unat i3]) @ [unat i2]) = 0" using x by (intro node_below [of "q @ [unat i3]"]) simp_all
    then have "node byte fs ino ((q @ [unat i3, unat i2]) @ [unat i1]) = 0" by (intro node_below [of "q @ [unat i3, unat i2]"]) simp_all
    then show ?thesis using True rd by (simp add: get_physical_block_l3_def)
  next
    case False
    from get_l2_node [where fresh = fresh, OF lay fresh ok q(4) x [symmetric] False] q(5,6)
    have "get_physical_block_l2 dev fresh fs x i2 i1 = Some (of_nat (node byte fs ino ((q @ [unat i3]) @ [unat i2, unat i1])))" by simp
    then show ?thesis using rd False by (simp add: get_physical_block_l3_def)
  qed
qed

lemma small_word: "unat m < 4294967296 \<Longrightarrow> unat (ucast (m :: u64) :: u32) = unat m"
  by (simp add: unsigned_ucast_eq take_bit_nat_eq_self)

lemma root_nodes:
  assumes "map_ok byte dsize fs ino"
  shows "n < 12 \<Longrightarrow> node byte fs ino [n] = unat (direct_block_pointer ino ! n)"
    "node byte fs ino [12] = unat (single_indirect_block_pointer ino)" "node byte fs ino [13] = unat (double_indirect_block_pointer ino)"
    "node byte fs ino [14] = unat (triple_indirect_block_pointer ino)"
  using map_okD(1) [OF assms] by (simp_all add: roots_def nth_append)

text \<open>Looking up a logical block is the map at its path.\<close>

lemma get_physical_block_node:
  assumes lay: "layout dsize fs" and fresh: "length (fresh (bsz fs)) = bsz fs" and ok: "map_ok byte dsize fs ino"
    and n: "unat n < map_size (ppb fs)"
  shows "get_physical_block dev fresh fs ino n = Some (of_nat (node byte fs ino (locate (ppb fs) (unat n))))"
proof -
  note w = ppb_words [OF layoutD(1) [OF lay]]
  define p where "p = ppb fs"
  note r = root_nodes [OF ok]
  have full: "vpath fs (locate p (unat n))" using locate_full [OF n] by (simp add: p_def)
  have zero: "node byte fs ino [k, i] = 0" "node byte fs ino [k, i, j] = 0" "node byte fs ino [k, i, j, l] = 0"
    if "node byte fs ino [k] = 0" for k i j l using that by (simp_all add: node_def node_step_def)
  have p32: "p * p < 4294967296" "p < 4294967296" using w(1,6) by (simp_all add: p_def)
  have up: "unat (ucast (p_per_block fs) :: u64) = p" "unat (ucast (p_per_block fs * p_per_block fs) :: u64) = p * p"
    using p32 w(3,4) by (simp_all add: unsigned_ucast_eq take_bit_nat_eq_self p_def)
  consider (0) "unat n < 12" | (1) "12 \<le> unat n" "unat n - 12 < p" | (2) "12 \<le> unat n" "p \<le> unat n - 12" "unat n - 12 - p < p * p"
    | (3) "12 \<le> unat n" "p \<le> unat n - 12" "p * p \<le> unat n - 12 - p" by linarith
  then show ?thesis
  proof cases
    case 0
    then show ?thesis using r(1) [OF 0] by (simp add: get_physical_block_def locate_def Let_def word_less_nat_alt)
  next
    case 1
    have s: "unat (n - 12) = unat n - 12" using 1 by (simp add: unat_sub word_le_nat_alt)
    have u: "unat (ucast (n - 12) :: u32) = unat n - 12" using 1 p32 by (simp add: s unsigned_ucast_eq take_bit_nat_eq_self)
    have l: "locate p (unat n) = [12] @ [unat n - 12]" using 1 by (simp add: locate_def Let_def)
    show ?thesis
    proof (cases "single_indirect_block_pointer ino = 0")
      case True
      then show ?thesis using 1 l r(2) zero by (simp add: get_physical_block_def Let_def word_less_nat_alt s up w(3) p_def [symmetric])
    next
      case False
      from get_l1_node [where fresh = fresh, OF lay fresh ok _ r(2) this, of "ucast (n - 12)"] have
        "get_physical_block_l1 dev fresh fs (single_indirect_block_pointer ino) (ucast (n - 12)) = Some (of_nat (node byte fs ino (locate p (unat n))))"
        using 1 u l by (simp add: tpath_root p_def)
      then show ?thesis using 1 False by (simp add: get_physical_block_def Let_def word_less_nat_alt s up w(3) p_def [symmetric])
    qed
  next
    case 2
    have s1: "unat (n - 12) = unat n - 12" using 2 by (simp add: unat_sub word_le_nat_alt)
    have "ucast (p_per_block fs) \<le> n - 12" using 2 s1 by (simp add: word_le_nat_alt up w(3) p_def [symmetric])
    then have s2: "unat (n - 12 - ucast (p_per_block fs)) = unat n - 12 - p" using s1 by (simp add: unat_sub up w(3) p_def [symmetric])
    note s = s1 s2
    have d: "(unat n - 12 - p) div p < p" "(unat n - 12 - p) mod p < p"
      using 2 w(2) by (simp_all add: less_mult_imp_div_less p_def)
    define i2 i1 where "i2 = (ucast ((n - 12 - ucast (p_per_block fs)) div ucast (p_per_block fs)) :: u32)"
      and "i1 = (ucast ((n - 12 - ucast (p_per_block fs)) mod ucast (p_per_block fs)) :: u32)"
    have e: "unat ((n - 12 - ucast (p_per_block fs)) div ucast (p_per_block fs)) = (unat n - 12 - p) div p"
      "unat ((n - 12 - ucast (p_per_block fs)) mod ucast (p_per_block fs)) = (unat n - 12 - p) mod p"
      by (simp_all only: unat_div unat_mod s up)
    have u: "unat i2 = (unat n - 12 - p) div p" "unat i1 = (unat n - 12 - p) mod p"
      unfolding i2_def i1_def using small_word [of "(n - 12 - ucast (p_per_block fs)) div ucast (p_per_block fs)"]
        small_word [of "(n - 12 - ucast (p_per_block fs)) mod ucast (p_per_block fs)"] less_trans [OF d(1) p32(2)] less_trans [OF d(2) p32(2)]
      unfolding e by blast+
    have l: "locate p (unat n) = [13] @ [unat i2, unat i1]" using 2 by (simp add: locate_def Let_def u)
    have g: "get_physical_block dev fresh fs ino n = (if double_indirect_block_pointer ino = 0 then Some 0
        else get_physical_block_l2 dev fresh fs (double_indirect_block_pointer ino) i2 i1)"
      using 2 w(3,5) by (simp add: get_physical_block_def Let_def word_less_nat_alt s up i2_def i1_def p_def [symmetric])
    show ?thesis
    proof (cases "double_indirect_block_pointer ino = 0")
      case False
      then show ?thesis using get_l2_node [where fresh = fresh, OF lay fresh ok _ r(3) False, of i2 i1] d
        by (simp add: g tpath_def vpath_def depth_def u l [unfolded u] p_def [symmetric])
    qed (use g l r(3) zero in \<open>simp add: p_def [symmetric]\<close>)
  next
    case 3
    have s1: "unat (n - 12) = unat n - 12" using 3 by (simp add: unat_sub word_le_nat_alt)
    have "ucast (p_per_block fs) \<le> n - 12" using 3 s1 by (simp add: word_le_nat_alt up w(3) p_def [symmetric])
    then have s2: "unat (n - 12 - ucast (p_per_block fs)) = unat n - 12 - p" using s1 by (simp add: unat_sub up w(3) p_def [symmetric])
    note s = s1 s2
    define m where "m = n - 12 - ucast (p_per_block fs) - ucast (p_per_block fs * p_per_block fs)"
    have "ucast (p_per_block fs * p_per_block fs) \<le> n - 12 - ucast (p_per_block fs)" using 3 s by (simp add: word_le_nat_alt up w(4) p_def [symmetric])
    then have m: "unat m = unat n - 12 - p - p * p" using s by (simp add: m_def unat_sub up w(4) p_def [symmetric])
    define i3 rem where "i3 = (ucast (m div ucast (p_per_block fs * p_per_block fs)) :: u32)"
      and "rem = (ucast (m mod ucast (p_per_block fs * p_per_block fs)) :: u32)"
    have p0: "0 < p" using w(2) by (simp add: p_def)
    have d: "(unat n - 12 - p - p * p) div (p * p) < p"
      using n 3 by (intro less_mult_imp_div_less) (simp add: map_size_def p_def [symmetric] algebra_simps)
    have dm: "x mod (p * p) < p * p" "x mod (p * p) div p < p" for x using p0 by (simp_all add: less_mult_imp_div_less)
    have u: "unat i3 = (unat n - 12 - p - p * p) div (p * p)"
      unfolding i3_def by (subst small_word) (simp_all only: unat_div up m less_trans [OF d p32(2)])
    have "unat rem = (unat n - 12 - p - p * p) mod (p * p)"
      unfolding rem_def by (subst small_word) (simp_all only: unat_mod up m less_trans [OF dm(1) p32(1)])
    then have v: "unat (rem div p_per_block fs) = (unat n - 12 - p - p * p) mod (p * p) div p"
      "unat (rem mod p_per_block fs) = (unat n - 12 - p - p * p) mod (p * p) mod p"
      using w(3) by (simp_all add: unat_div unat_mod p_def [symmetric])
    have l: "locate p (unat n) = [14] @ [unat i3, unat (rem div p_per_block fs), unat (rem mod p_per_block fs)]"
      using 3 by (simp add: locate_def Let_def u v)
    have "unat (p_per_block fs * p_per_block fs) \<noteq> 0" using p0 w(4) by (simp add: p_def)
    then have nz: "p_per_block fs * p_per_block fs \<noteq> 0" by (metis unat_0)
    have g: "get_physical_block dev fresh fs ino n = (if triple_indirect_block_pointer ino = 0 then Some 0
        else get_physical_block_l3 dev fresh fs (triple_indirect_block_pointer ino) i3 (rem div p_per_block fs) (rem mod p_per_block fs))"
      using 3 w(3,5) nz by (simp add: get_physical_block_def Let_def word_less_nat_alt s up i3_def rem_def m_def p_def [symmetric])
    show ?thesis
    proof (cases "triple_indirect_block_pointer ino = 0")
      case False
      then show ?thesis
        using get_l3_node [where fresh = fresh, OF lay fresh ok _ r(4) False, of i3 "rem div p_per_block fs" "rem mod p_per_block fs"] d dm p0
        by (simp add: g tpath_def vpath_def depth_def u v l [unfolded u v] p_def [symmetric])
    qed (use g l r(4) zero in \<open>simp add: p_def [symmetric]\<close>)
  qed
qed

end

subsection \<open>Setting a block\<close>

text \<open>The group for a new table of the inode is one that the search can start from.\<close>

lemma group_of_root:
  assumes lay: "layout n fs" and ok: "map_ok byte n fs ino" and t: "vpath fs q" "node byte fs ino q = unat t"
  shows "\<exists>g. group_of_block fs t = Some g \<and> unat g \<le> ngroups fs"
proof (cases "unat t = 0")
  case True
  have "per_group Blocks fs \<noteq> 0" using ext2_okD(9) [OF layoutD(1) [OF lay], of Blocks] by auto
  then show ?thesis using True by (simp add: group_of_block_def per_group_def unat_eq_zero)
next
  case False
  then show ?thesis using group_of_used [OF lay, of byte t] map_okD(2) [OF ok t(1)] t(2) by simp
qed

context byte_device
begin

lemma root_then_put:
  assumes lay: "layout dsize fs" and fresh: "length (fresh (bsz fs)) = bsz fs" and ok: "map_ok byte dsize fs ino" and free: "free_ok byte dsize fs"
    and r: "12 \<le> r" "r < 15" "unat root = roots ino ! r" and g: "\<exists>g. grp = Some g \<and> unat g \<le> ngroups fs"
    and ino': "\<And>x. roots (ino' x) = (roots ino)[r := unat x]" "\<And>x. length (direct_block_pointer (ino' x)) = 12" "ino' root = ino"
    and have_block: "root \<noteq> 0 \<or> \<not> disk_full byte fs" and v: "fresh_for byte dsize fs ino v"
    and put: "\<And>fs1 x. layout dsize fs1 \<Longrightarrow> length (fresh (bsz fs1)) = bsz fs1 \<Longrightarrow> map_ok byte dsize fs1 (ino' x) \<Longrightarrow> free_ok byte dsize fs1 \<Longrightarrow>
      node byte fs1 (ino' x) [r] = unat x \<Longrightarrow> x \<noteq> 0 \<Longrightarrow> fresh_for byte dsize fs1 (ino' x) v \<Longrightarrow> tpath fs1 = tpath fs \<Longrightarrow> ppb fs1 = ppb fs \<Longrightarrow>
      \<exists>ok fs2. put fs1 x = Some (ok, fs2) \<and> (\<not> ok \<longrightarrow> disk_full byte fs2) \<and>
        remapped byte dsize fs1 (ino' x) fs2 (ino' x) (if ok then (node byte fs1 (ino' x))(q := v) else node byte fs1 (ino' x))"
  shows "\<exists>ok x fs'. Option.bind (root_or_create dev fresh fs root grp) (\<lambda>(root, fs). map_option (\<lambda>(r, fs). (r, ino' root, fs)) (put fs root)) =
      Some (ok, ino' x, fs') \<and> (\<not> ok \<longrightarrow> disk_full byte fs') \<and> remapped byte dsize fs ino fs' (ino' x) (if ok then (node byte fs ino)(q := v) else node byte fs ino)"
proof -
  obtain g where g: "grp = Some g" "unat g \<le> ngroups fs" using g by blast
  obtain x fs1 where x: "root_or_create dev fresh fs root grp = Some (x, fs1)" "x \<noteq> 0"
    "remapped byte dsize fs ino fs1 (ino' x) (node byte fs ino)" "node byte fs1 (ino' x) [r] = unat x"
    using root_or_create_runs [where fresh = fresh, OF lay fresh ok free r g ino' have_block] by blast
  note ok' = layoutD(1) [OF lay] and geo = remapped_geo [OF x(3)]
  have "length (fresh (bsz fs1)) = bsz fs1" using fresh geoD(3) [OF geo] by simp
  moreover have "map_ok byte dsize fs1 (ino' x)" using x(3) by (simp add: remapped_def)
  moreover have "tpath fs1 = tpath fs" "ppb fs1 = ppb fs" using paths_geo [OF geo] by simp_all
  ultimately obtain b fs2 where p: "put fs1 x = Some (b, fs2)" "\<not> b \<longrightarrow> disk_full byte fs2"
    "remapped byte dsize fs1 (ino' x) fs2 (ino' x) (if b then (node byte fs1 (ino' x))(q := v) else node byte fs1 (ino' x))"
    using put [OF layout_geo [OF geo lay] _ _ remapped_free_ok [OF x(3) free ok'] x(4,2) fresh_for_remapped [OF x(3) ok' v]] by blast
  then have "Option.bind (root_or_create dev fresh fs root grp) (\<lambda>(root, fs). map_option (\<lambda>(r, fs). (r, ino' root, fs)) (put fs root)) =
      Some (b, ino' x, fs2)" by (simp add: x(1))
  then show ?thesis using remapped_step [OF x(3) ok' ok p(3)] p(2) by blast
qed

lemma roots_set:
  assumes "length (direct_block_pointer ino) = 12"
  shows "n < 12 \<Longrightarrow> roots (ino \<lparr> direct_block_pointer := (direct_block_pointer ino)[n := x] \<rparr>) = (roots ino)[n := unat x]"
    "roots (ino \<lparr> single_indirect_block_pointer := x \<rparr>) = (roots ino)[12 := unat x]"
    "roots (ino \<lparr> double_indirect_block_pointer := x \<rparr>) = (roots ino)[13 := unat x]"
    "roots (ino \<lparr> triple_indirect_block_pointer := x \<rparr>) = (roots ino)[14 := unat x]"
  using assms by (simp_all add: roots_def list_update_append map_update)

lemma put_direct:
  assumes lay: "layout dsize fs" and ok: "map_ok byte dsize fs ino" and n: "n < 12" and v: "fresh_for byte dsize fs ino (unat v)"
  shows "remapped byte dsize fs ino fs (ino \<lparr> direct_block_pointer := (direct_block_pointer ino)[n := v] \<rparr>) ((node byte fs ino)([n] := unat v))"
    (is "remapped _ _ _ _ _ ?ino _")
proof -
  have "length (roots ino) = 15" using map_okD(1) [OF ok] by (simp add: roots_def)
  then have s: "node byte fs ?ino q = (if q = [n] then unat v else node byte fs ino q)" if "vpath fs q" for q
    using n roots_set(1) [OF map_okD(1) [OF ok] n] that by (intro node_set_root) simp_all
  have ok': "map_ok byte dsize fs ?ino"
    by (rule map_ok_update [OF lay ok changes_refl _ s]) (use v map_okD(1) [OF ok] in \<open>auto simp: fresh_for_def\<close>)
  show ?thesis
  proof (rule remappedI [OF changes_refl ok'])
    show "node byte fs ?ino q = ((node byte fs ino)([n] := unat v)) q" if "vpath fs q" for q using s [OF that] by simp
    show "node byte fs ?ino q = node byte fs ino q \<or> node byte fs ino q = 0 \<and> node byte fs ?ino q \<in> {}" if "tpath fs q" for q
      using s [OF tpath_vpath [OF that]] that n by (auto simp: tpath_root)
  qed simp_all
qed


lemma vpath_full:
  "length is = depth r \<Longrightarrow> \<forall>i \<in> set is. i < ppb fs \<Longrightarrow> r < 15 \<Longrightarrow> vpath fs (r # is) \<and> \<not> tpath fs (r # is)"
  by (simp add: vpath_def tpath_def)

lemma set_physical_block_node:
  assumes lay: "layout dsize fs" and fresh: "length (fresh (bsz fs)) = bsz fs" and ok: "map_ok byte dsize fs ino" and free: "free_ok byte dsize fs"
    and n: "unat n < map_size (ppb fs)" and v: "fresh_for byte dsize fs ino (unat v)"
    and have_block: "unat n < 12 \<or> node byte fs ino [hd (locate (ppb fs) (unat n))] \<noteq> 0 \<or> \<not> disk_full byte fs"
  shows "\<exists>r ino' fs'. set_physical_block dev fresh fs ino n v = Some (r, ino', fs') \<and> (\<not> r \<longrightarrow> disk_full byte fs') \<and>
    remapped byte dsize fs ino fs' ino' (if r then (node byte fs ino)(locate (ppb fs) (unat n) := unat v) else node byte fs ino)"
proof -
  note w = ppb_words [OF layoutD(1) [OF lay]] and r = root_nodes [OF ok] and len = map_okD(1) [OF ok]
  note sets = roots_set [OF len]
  define p where "p = ppb fs"
  have rts: "unat (single_indirect_block_pointer ino) = roots ino ! 12" "unat (double_indirect_block_pointer ino) = roots ino ! 13"
    "unat (triple_indirect_block_pointer ino) = roots ino ! 14" using r(2-4) by simp_all
  have q2: "vpath fs [12]" "vpath fs [13]" by (simp_all add: vpath_root)
  define pp where "pp = p_per_block fs"
  have up: "unat (pp) = p" "unat (pp * pp) = p * p"
    "unat (ucast (pp) * (ucast (pp) :: u64)) = p * p" using w(3-5) by (simp_all add: p_def pp_def)
  have p0: "0 < p" using w(2) by (simp add: p_def)
  consider (0) "unat n < 12" | (1) "12 \<le> unat n" "unat n - 12 < p" | (2) "12 \<le> unat n" "p \<le> unat n - 12" "unat n - 12 - p < p * p"
    | (3) "12 \<le> unat n" "p \<le> unat n - 12" "p * p \<le> unat n - 12 - p" by linarith
  then show ?thesis
  proof cases
    case 0
    have "locate (ppb fs) (unat n) = [unat n]" using 0 by (simp add: locate_def)
    then show ?thesis using put_direct [OF lay ok 0 v] 0
      by (intro exI [of _ True]) (simp add: set_physical_block_def word_less_nat_alt)
  next
    case 1
    have s: "unat (n - 12) = unat n - 12" using 1 by (simp add: unat_sub word_le_nat_alt)
    have l: "locate p (unat n) = [12] @ [unat (n - 12)]" using 1 by (simp add: locate_def Let_def s)
    have full: "\<not> tpath fs ([12] @ [unat (n - 12)])" by (simp add: tpath_def depth_def)
    have "unat (single_indirect_block_pointer ino) \<noteq> 0 \<or> \<not> disk_full byte fs" using have_block l rts 1 by (simp add: p_def)
    then have nz: "single_indirect_block_pointer ino \<noteq> 0 \<or> \<not> disk_full byte fs" by auto
    have ex: "\<exists>ok x fs'. Option.bind (root_or_create dev fresh fs (single_indirect_block_pointer ino) (Some 0)) (\<lambda>(root, fs).
          map_option (\<lambda>(r, fs). (r, ino \<lparr> single_indirect_block_pointer := root \<rparr>, fs))
            (set_physical_block_l1 dev fresh fs root (n - 12) v)) = Some (ok, ino \<lparr> single_indirect_block_pointer := x \<rparr>, fs') \<and> (\<not> ok \<longrightarrow> disk_full byte fs') \<and>
        remapped byte dsize fs ino fs' (ino \<lparr> single_indirect_block_pointer := x \<rparr>)
          (if ok then (node byte fs ino)([12] @ [unat (n - 12)] := unat v) else node byte fs ino)"
    proof (rule root_then_put [where fresh = fresh, OF lay fresh ok free _ _ rts(1)])
      fix fs1 x assume a: "layout dsize fs1" "length (fresh (bsz fs1)) = bsz fs1" "map_ok byte dsize fs1 (ino \<lparr> single_indirect_block_pointer := x \<rparr>)"
        "node byte fs1 (ino \<lparr> single_indirect_block_pointer := x \<rparr>) [12] = unat x" "x \<noteq> 0"
        "fresh_for byte dsize fs1 (ino \<lparr> single_indirect_block_pointer := x \<rparr>) (unat v)" "tpath fs1 = tpath fs" "ppb fs1 = ppb fs"
      have "tpath fs1 [12]" "\<not> tpath fs1 ([12] @ [unat (n - 12)])" "unat (n - 12) < ppb fs1"
        using 1 s a(7,8) full by (simp_all add: tpath_root p_def)
      then show "\<exists>ok fs2. set_physical_block_l1 dev fresh fs1 x (n - 12) v = Some (ok, fs2) \<and> (\<not> ok \<longrightarrow> disk_full byte fs2) \<and>
          remapped byte dsize fs1 (ino \<lparr> single_indirect_block_pointer := x \<rparr>) fs2 (ino \<lparr> single_indirect_block_pointer := x \<rparr>)
            (if ok then (node byte fs1 (ino \<lparr> single_indirect_block_pointer := x \<rparr>))([12] @ [unat (n - 12)] := unat v)
             else node byte fs1 (ino \<lparr> single_indirect_block_pointer := x \<rparr>))"
        using put_leaf [where fresh = fresh, OF a(1-3) _ a(4,5) _ _ a(6)] by (intro exI [of _ True]) simp
    qed (use nz len v sets in simp_all)
    have eq: "set_physical_block dev fresh fs ino n v =
        Option.bind (root_or_create dev fresh fs (single_indirect_block_pointer ino) (Some 0)) (\<lambda>(root, fs).
          map_option (\<lambda>(r, fs). (r, ino \<lparr> single_indirect_block_pointer := root \<rparr>, fs))
            (set_physical_block_l1 dev fresh fs root (n - 12) v))"
      using 1 by (simp add: set_physical_block_def Let_def word_less_nat_alt pp_def [symmetric] s up)
    show ?thesis unfolding p_def [symmetric] l eq using ex by blast
  next
    case 2
    have s1: "unat (n - 12) = unat n - 12" using 2 by (simp add: unat_sub word_le_nat_alt)
    have "pp \<le> n - 12" using 2 s1 by (simp add: word_le_nat_alt up)
    then have s2: "unat (n - 12 - pp) = unat n - 12 - p" using s1 by (simp add: unat_sub up)
    have d: "unat ((n - 12 - pp) div pp) = (unat n - 12 - p) div p"
      "unat ((n - 12 - pp) mod pp) = (unat n - 12 - p) mod p" by (simp_all only: unat_div unat_mod s2 up)
    have b: "(unat n - 12 - p) div p < p" "(unat n - 12 - p) mod p < p" using 2 p0 by (simp_all add: less_mult_imp_div_less)
    have l: "locate p (unat n) = [13] @ [unat ((n - 12 - pp) div pp), unat ((n - 12 - pp) mod pp)]"
      using 2 by (simp add: locate_def Let_def d)
    have tp: "tpath fs ([13] @ [unat ((n - 12 - pp) div pp)])"
      using b by (simp add: tpath_def vpath_def depth_def d p_def [symmetric])
    have full: "vpath fs ([13] @ [unat ((n - 12 - pp) div pp), unat ((n - 12 - pp) mod pp)]) \<and> \<not> tpath fs ([13] @ [unat ((n - 12 - pp) div pp), unat ((n - 12 - pp) mod pp)])" using b by (simp add: tpath_def vpath_def depth_def d p_def [symmetric])
    have "unat (double_indirect_block_pointer ino) \<noteq> 0 \<or> \<not> disk_full byte fs" using have_block l rts 2 by (simp add: p_def)
    then have nz: "double_indirect_block_pointer ino \<noteq> 0 \<or> \<not> disk_full byte fs" by auto
    have ex: "\<exists>ok x fs'. Option.bind (root_or_create dev fresh fs (double_indirect_block_pointer ino) (group_of_block fs (single_indirect_block_pointer ino))) (\<lambda>(root, fs).
          map_option (\<lambda>(r, fs). (r, ino \<lparr> double_indirect_block_pointer := root \<rparr>, fs))
            (set_physical_block_l2 dev fresh fs root ((n - 12 - pp) div pp) ((n - 12 - pp) mod pp) v)) = Some (ok, ino \<lparr> double_indirect_block_pointer := x \<rparr>, fs') \<and> (\<not> ok \<longrightarrow> disk_full byte fs') \<and>
        remapped byte dsize fs ino fs' (ino \<lparr> double_indirect_block_pointer := x \<rparr>) (if ok then (node byte fs ino)([13] @ [unat ((n - 12 - pp) div pp), unat ((n - 12 - pp) mod pp)] := unat v) else node byte fs ino)"
    proof (rule root_then_put [where fresh = fresh, OF lay fresh ok free _ _ rts(2) group_of_root [OF lay ok q2(1) r(2)]])
      fix fs1 x assume a: "layout dsize fs1" "length (fresh (bsz fs1)) = bsz fs1" "map_ok byte dsize fs1 (ino \<lparr> double_indirect_block_pointer := x \<rparr>)" "free_ok byte dsize fs1"
        "node byte fs1 (ino \<lparr> double_indirect_block_pointer := x \<rparr>) [13] = unat x" "x \<noteq> 0" "fresh_for byte dsize fs1 (ino \<lparr> double_indirect_block_pointer := x \<rparr>) (unat v)" "tpath fs1 = tpath fs" "ppb fs1 = ppb fs"
      show "\<exists>ok fs2. set_physical_block_l2 dev fresh fs1 x ((n - 12 - pp) div pp) ((n - 12 - pp) mod pp) v = Some (ok, fs2) \<and> (\<not> ok \<longrightarrow> disk_full byte fs2) \<and>
          remapped byte dsize fs1 (ino \<lparr> double_indirect_block_pointer := x \<rparr>) fs2 (ino \<lparr> double_indirect_block_pointer := x \<rparr>) (if ok then (node byte fs1 (ino \<lparr> double_indirect_block_pointer := x \<rparr>))([13] @ [unat ((n - 12 - pp) div pp), unat ((n - 12 - pp) mod pp)] := unat v) else node byte fs1 (ino \<lparr> double_indirect_block_pointer := x \<rparr>))"
        using full tp put_l2 [where fresh = fresh, OF a(1-4) _ a(5,6) _ _ _ a(7)] a(9) by (simp add: a(8,9) tpath_root vpath_def)
    qed (use nz len v sets r in \<open>simp_all add: vpath_root\<close>)
    have eq: "set_physical_block dev fresh fs ino n v =
        Option.bind (root_or_create dev fresh fs (double_indirect_block_pointer ino) (group_of_block fs (single_indirect_block_pointer ino))) (\<lambda>(root, fs).
          map_option (\<lambda>(r, fs). (r, ino \<lparr> double_indirect_block_pointer := root \<rparr>, fs))
            (set_physical_block_l2 dev fresh fs root ((n - 12 - pp) div pp) ((n - 12 - pp) mod pp) v))"
      using 2 s2 by (simp add: set_physical_block_def Let_def word_less_nat_alt pp_def [symmetric] s1 up)
    show ?thesis unfolding p_def [symmetric] l eq using ex by blast
  next
    case 3
    have s1: "unat (n - 12) = unat n - 12" using 3 by (simp add: unat_sub word_le_nat_alt)
    have "pp \<le> n - 12" using 3 s1 by (simp add: word_le_nat_alt up)
    then have s2: "unat (n - 12 - pp) = unat n - 12 - p" using s1 by (simp add: unat_sub up)
    define sq m where "sq = pp * pp" and "m = n - 12 - pp - sq"
    have "sq \<le> n - 12 - pp" using 3 s2 by (simp add: word_le_nat_alt up sq_def)
    then have m: "unat m = unat n - 12 - p - p * p" using s2 by (simp add: m_def unat_sub up sq_def)
    have d: "unat (m div sq) = (unat n - 12 - p - p * p) div (p * p)"
      "unat (m mod sq div pp) = (unat n - 12 - p - p * p) mod (p * p) div p"
      "unat (m mod sq mod pp) = (unat n - 12 - p - p * p) mod (p * p) mod p" by (simp_all only: unat_div unat_mod m sq_def up)
    have b: "(unat n - 12 - p - p * p) div (p * p) < p"
      using n 3 by (intro less_mult_imp_div_less) (simp add: map_size_def p_def [symmetric] algebra_simps)
    have b': "x mod (p * p) div p < p" "x mod (p * p) mod p < p" for x using p0 by (simp_all add: less_mult_imp_div_less)
    have l: "locate p (unat n) = [14] @ [unat (m div sq), unat (m mod sq div pp), unat (m mod sq mod pp)]"
      using 3 by (simp add: locate_def Let_def d)
    have tp: "tpath fs ([14] @ [unat (m div sq)])" "tpath fs ([14] @ [unat (m div sq), unat (m mod sq div pp)])"
      using b b' by (simp_all add: tpath_def vpath_def depth_def d p_def [symmetric])
    have "unat sq \<noteq> 0" using p0 by (simp add: sq_def up)
    then have sq0: "sq \<noteq> 0" by auto
    have full: "vpath fs ([14] @ [unat (m div sq), unat (m mod sq div pp), unat (m mod sq mod pp)]) \<and> \<not> tpath fs ([14] @ [unat (m div sq), unat (m mod sq div pp), unat (m mod sq mod pp)])" using b b' by (simp add: tpath_def vpath_def depth_def d p_def [symmetric])
    have "unat (triple_indirect_block_pointer ino) \<noteq> 0 \<or> \<not> disk_full byte fs" using have_block l rts 3 by (simp add: p_def)
    then have nz: "triple_indirect_block_pointer ino \<noteq> 0 \<or> \<not> disk_full byte fs" by auto
    have ex: "\<exists>ok x fs'. Option.bind (root_or_create dev fresh fs (triple_indirect_block_pointer ino) (group_of_block fs (double_indirect_block_pointer ino))) (\<lambda>(root, fs).
          map_option (\<lambda>(r, fs). (r, ino \<lparr> triple_indirect_block_pointer := root \<rparr>, fs))
            (set_physical_block_l3 dev fresh fs root (m div sq) (m mod sq div pp) (m mod sq mod pp) v)) = Some (ok, ino \<lparr> triple_indirect_block_pointer := x \<rparr>, fs') \<and> (\<not> ok \<longrightarrow> disk_full byte fs') \<and>
        remapped byte dsize fs ino fs' (ino \<lparr> triple_indirect_block_pointer := x \<rparr>) (if ok then (node byte fs ino)([14] @ [unat (m div sq), unat (m mod sq div pp), unat (m mod sq mod pp)] := unat v) else node byte fs ino)"
    proof (rule root_then_put [where fresh = fresh, OF lay fresh ok free _ _ rts(3) group_of_root [OF lay ok q2(2) r(3)]])
      fix fs1 x assume a: "layout dsize fs1" "length (fresh (bsz fs1)) = bsz fs1" "map_ok byte dsize fs1 (ino \<lparr> triple_indirect_block_pointer := x \<rparr>)" "free_ok byte dsize fs1"
        "node byte fs1 (ino \<lparr> triple_indirect_block_pointer := x \<rparr>) [14] = unat x" "x \<noteq> 0" "fresh_for byte dsize fs1 (ino \<lparr> triple_indirect_block_pointer := x \<rparr>) (unat v)" "tpath fs1 = tpath fs" "ppb fs1 = ppb fs"
      show "\<exists>ok fs2. set_physical_block_l3 dev fresh fs1 x (m div sq) (m mod sq div pp) (m mod sq mod pp) v = Some (ok, fs2) \<and> (\<not> ok \<longrightarrow> disk_full byte fs2) \<and>
          remapped byte dsize fs1 (ino \<lparr> triple_indirect_block_pointer := x \<rparr>) fs2 (ino \<lparr> triple_indirect_block_pointer := x \<rparr>) (if ok then (node byte fs1 (ino \<lparr> triple_indirect_block_pointer := x \<rparr>))([14] @ [unat (m div sq), unat (m mod sq div pp), unat (m mod sq mod pp)] := unat v) else node byte fs1 (ino \<lparr> triple_indirect_block_pointer := x \<rparr>))"
        using full tp put_l3 [where fresh = fresh, OF a(1-4) _ a(5,6) _ _ _ _ a(7)] a(9) by (simp add: a(8,9) tpath_root vpath_def)
    qed (use nz len v sets r in \<open>simp_all add: vpath_root\<close>)
    have eq: "set_physical_block dev fresh fs ino n v =
        Option.bind (root_or_create dev fresh fs (triple_indirect_block_pointer ino) (group_of_block fs (double_indirect_block_pointer ino))) (\<lambda>(root, fs).
          map_option (\<lambda>(r, fs). (r, ino \<lparr> triple_indirect_block_pointer := root \<rparr>, fs))
            (set_physical_block_l3 dev fresh fs root (m div sq) (m mod sq div pp) (m mod sq mod pp) v))"
      using 3 s2 sq0 by (simp add: set_physical_block_def Let_def word_less_nat_alt pp_def [symmetric] s1 up m_def sq_def)
    show ?thesis unfolding p_def [symmetric] l eq using ex by blast
  qed
qed

end

text \<open>A used block of data that is not a table of the inode keeps its bytes.\<close>

lemma remapped_bytes:
  assumes r: "remapped byte n fs ino fs' ino' f" and x: "data_block n fs x" "block_used byte fs x"
    and t: "\<And>q. tpath fs q \<Longrightarrow> node byte fs ino q \<noteq> x"
  shows "block_bytes byte fs' x = block_bytes byte fs x"
proof -
  obtain W A where a: "changes byte n fs fs' W A" "\<forall>x \<in> W. \<exists>q. tpath fs q \<and> node byte fs' ino' q = x" "\<forall>x \<in> A. \<not> block_used byte fs x"
    "\<forall>q. tpath fs q \<longrightarrow> node byte fs' ino' q = node byte fs ino q \<or> (node byte fs ino q = 0 \<and> node byte fs' ino' q \<in> A)"
    using r unfolding remapped_def by blast
  have "x \<notin> W" using a(2-4) x(2) t by metis
  then show ?thesis using a(1) x(1) by (simp add: changes_def)
qed

text \<open>C35: On a volume whose tables, bitmaps and inodes do not overlap and whose free blocks are for data, setting a logical
  block of a well-formed inode to a block that the inode does not have is an update of the map from logical blocks to
  blocks, through any of the four ways to store it: afterwards \<open>get_physical_block\<close> returns the block there, what it
  returned before at every other logical block, and every used block of data that is not a table of the inode keeps its bytes. It
  returns false only with the map as before and the disk full. A table that the inode itself would point to is there, or a
  block is free for it.\<close>

theorem set_physical_block_updates:
  assumes "byte_device dev n byte" "layout n fs" "map_ok byte n fs ino" "free_ok byte n fs" "length (fresh (bsz fs)) = bsz fs"
    and "unat lb < map_size (ppb fs)" "fresh_for byte n fs ino (unat v)"
    and "unat lb < 12 \<or> node byte fs ino [hd (locate (ppb fs) (unat lb))] \<noteq> 0 \<or> \<not> disk_full byte fs"
  shows "\<exists>r ino' fs'. set_physical_block dev fresh fs ino lb v = Some (r, ino', fs') \<and> (\<not> r \<longrightarrow> disk_full byte fs') \<and>
    layout n fs' \<and> map_ok byte n fs' ino' \<and> free_ok byte n fs' \<and>
    (\<forall>m. unat m < map_size (ppb fs) \<longrightarrow> get_physical_block dev fresh fs' ino' m =
       (if r \<and> unat m = unat lb then Some v else get_physical_block dev fresh fs ino m)) \<and>
    (\<forall>x. data_block n fs x \<and> block_used byte fs x \<and> (\<forall>q. tpath fs q \<longrightarrow> node byte fs ino q \<noteq> x) \<longrightarrow>
       block_bytes byte fs' x = block_bytes byte fs x)"
proof -
  note ok = layoutD(1) [OF assms(2)]
  obtain r ino' fs' where s: "set_physical_block dev fresh fs ino lb v = Some (r, ino', fs')" "\<not> r \<longrightarrow> disk_full byte fs'"
    "remapped byte n fs ino fs' ino' (if r then (node byte fs ino)(locate (ppb fs) (unat lb) := unat v) else node byte fs ino)"
    using byte_device.set_physical_block_node [OF assms(1), where fresh = fresh, OF assms(2,5,3,4,6-8)] by blast
  note g = remapped_geo [OF s(3)]
  have fresh': "length (fresh (bsz fs')) = bsz fs'" and p: "ppb fs' = ppb fs" using assms(5) geoD(3) [OF g] paths_geo [OF g] by simp_all
  have lay': "layout n fs'" by (rule layout_geo [OF g assms(2)])
  have ok': "map_ok byte n fs' ino'" using s(3) by (simp add: remapped_def)
  have m: "get_physical_block dev fresh fs' ino' m = (if r \<and> unat m = unat lb then Some v else get_physical_block dev fresh fs ino m)"
    if "unat m < map_size (ppb fs)" for m :: u64
  proof -
    have "node byte fs' ino' (locate (ppb fs) (unat m)) =
        (if r then (node byte fs ino)(locate (ppb fs) (unat lb) := unat v) else node byte fs ino) (locate (ppb fs) (unat m))"
      using s(3) locate_full [OF that] unfolding remapped_def by blast
    also have "\<dots> = (if r \<and> unat m = unat lb then unat v else node byte fs ino (locate (ppb fs) (unat m)))"
      using locate_inj [of "ppb fs" "unat m" "unat lb"] ppb_words(2) [OF ok] by auto
    finally show ?thesis
      using byte_device.get_physical_block_node [OF assms(1), where fresh = fresh, OF assms(2,5,3) that]
        byte_device.get_physical_block_node [OF assms(1), where fresh = fresh, OF lay' fresh' ok', of m] that p by simp
  qed
  have bytes: "block_bytes byte fs' x = block_bytes byte fs x"
    if "data_block n fs x \<and> block_used byte fs x \<and> (\<forall>q. tpath fs q \<longrightarrow> node byte fs ino q \<noteq> x)" for x
    using that remapped_bytes [OF s(3)] by blast
  show ?thesis
    by (intro exI [of _ r] exI [of _ ino'] exI [of _ fs'] conjI allI)
      (use s(1,2) lay' ok' remapped_free_ok [OF s(3) assms(4) ok] m bytes in blast)+
qed

text \<open>The example volume with block 6 in use, and an inode without blocks.\<close>

definition example_volume :: "mem ext2" where
  "example_volume = example_ext2 \<lparr> dev_state := (dev_state example_ext2)(3072 := 0x3F) \<rparr>"

definition empty_inode :: ext2_inode where "empty_inode = inode_of (replicate 120 0)"

lemma example_volume_geo: "geo example_volume = geo example_ext2"
  by (simp add: example_volume_def geo_def)

lemma example_layout: "layout 65536 example_volume"
proof -
  have b: "inode_bytes_n example_ext2 = 128"
    by (simp add: inode_bytes_n_def inode_bytes_on_disk_def example_ext2_def example_superblock_def)
  have "inodes_ok 65536 example_ext2"
    unfolding inodes_ok_def all_kinds
    by (simp add: b inode_table_region_def example_ext2_simps tables_region_def block_region_def) (auto simp: example_group_def)
  then have "layout 65536 example_ext2" using example_ext2_ok by (simp add: layout_def example_ext2_simps)
  then show ?thesis by (rule layout_geo [OF example_volume_geo])
qed

lemma example_volume_used: "b < 32 \<Longrightarrow> used_bit (\<lambda>m i. m (of_nat i)) Blocks example_volume 0 b \<longleftrightarrow> b < 6"
proof -
  assume b: "b < 32"
  have *: "(63 :: u32) = mask 6" by (simp add: mask_eq_exp_minus_1)
  have "bit (63 :: u32) b \<longleftrightarrow> b < 6" unfolding * using b by (auto simp: bit_mask_iff)
  moreover have "u32_at (block_bytes (\<lambda>m i. m (of_nat i)) example_volume 3) 0 = 63"
    unfolding block_bytes_def example_volume_def by (simp only: bsz_def) (subst u32_at_map; simp add: example_ext2_def)
  moreover have "bitmap_at Blocks example_volume 0 = 3" using bitmap_at_geo [OF example_volume_geo] example_ext2_simps by simp
  ultimately show ?thesis using b by (simp add: used_bit_def bm_bit_def)
qed

lemma u32_at_zeros: "j + 4 \<le> k \<Longrightarrow> u32_at (replicate k 0) j = 0"
  by (simp add: u32_at_def field_def min_def numeral_eq_Suc)

lemma empty_inode_pointers: "length (direct_block_pointer empty_inode) = 12" "x \<in> set (roots empty_inode) \<Longrightarrow> x = 0"
  by (auto simp: empty_inode_def inode_of_def roots_def u32_at_zeros)

lemma empty_inode_nodes: "vpath fs q \<Longrightarrow> node byte fs empty_inode q = 0"
proof (induction rule: vpath_induct)
  case (root r)
  then have "roots empty_inode ! r \<in> set (roots empty_inode)" using empty_inode_pointers(1) by (intro nth_mem) (simp add: roots_def)
  then show ?case using empty_inode_pointers(2) by simp
next
  case (snoc q j)
  then have "q \<noteq> []" by auto
  then show ?case using snoc by (simp add: node_snoc node_step_def)
qed

lemma empty_inode_map: "map_ok byte n fs empty_inode"
  unfolding map_ok_def using empty_inode_nodes [of fs _ byte] empty_inode_pointers(1) by auto

lemma example_data_block: "5 \<le> b \<Longrightarrow> b < 32 \<Longrightarrow> data_block 65536 example_volume (Suc b)"
proof -
  assume a: "5 \<le> b" "b < 32"
  have b: "inode_bytes_n example_ext2 = 128"
    by (simp add: inode_bytes_n_def inode_bytes_on_disk_def example_ext2_def example_superblock_def)
  have "data_block 65536 example_ext2 (Suc b)"
    unfolding data_block_def all_kinds using a
    by (simp add: b inode_table_region_def example_ext2_simps tables_region_def block_region_def clear_of_tables_def) (auto simp: example_group_def)
  then show ?thesis using data_block_geo [OF example_volume_geo example_ext2_ok] by simp
qed

lemma example_free_ok: "free_ok (\<lambda>m i. m (of_nat i)) 65536 example_volume"
proof -
  have g: "ngroups example_volume = 1" "per_group Blocks example_volume = 32"
    "first_data_block (superblock example_volume) = 1"
    using example_ext2_simps geoD [OF example_volume_geo] by (simp_all add: example_volume_def example_ext2_simps(1))
  show ?thesis using example_data_block example_volume_used by (auto simp: free_ok_def g block_no_def not_less)
qed

lemma example_block: "data_block 65536 example_volume 6" "block_used (\<lambda>m i. m (of_nat i)) example_volume 6"
proof -
  have g: "ngroups example_volume = 1" "per_group Blocks example_volume = 32" "first_data_block (superblock example_volume) = 1"
    using example_ext2_simps geoD [OF example_volume_geo] by (simp_all add: example_volume_def)
  show "block_used (\<lambda>m i. m (of_nat i)) example_volume 6"
    using example_volume_used [of 5] unfolding block_used_def by (intro exI [of _ 0] exI [of _ 5]) (simp add: g block_no_def)
  show "data_block 65536 example_volume 6"
    using example_data_block [of 5] by simp
qed

theorem set_physical_block_updates_witness:
  "\<exists>r ino' fs'. set_physical_block (mem_disk 0x200) (\<lambda>n. replicate n 0) example_volume empty_inode 20 6 = Some (r, ino', fs') \<and>
    (\<not> r \<longrightarrow> disk_full (\<lambda>m i. m (of_nat i)) fs') \<and>
    (r \<longrightarrow> get_physical_block (mem_disk 0x200) (\<lambda>n. replicate n 0) fs' ino' 20 = Some 6)"
proof -
  have fresh: "fresh_for (\<lambda>m i. m (of_nat i)) 65536 example_volume empty_inode (unat (6 :: u32))"
    unfolding fresh_for_def using example_block empty_inode_nodes [of example_volume _ "\<lambda>m i. m (of_nat i)"] by auto
  have room: "\<not> disk_full (\<lambda>m i. m (of_nat i)) example_volume"
    unfolding disk_full_def full_def using example_volume_used [of 6]
    by (simp add: example_volume_def example_ext2_def example_superblock_def example_group_def ngroups_def per_group_def group_free_def)
      (intro exI [of _ 6], simp)
  have p: "20 < map_size (ppb example_volume)"
    using ppb_words(2) [OF layoutD(1) [OF example_layout]] by (simp add: map_size_def)
  show ?thesis
    using set_physical_block_updates [OF mem_disk_device [of 65536 "0x200"] example_layout empty_inode_map example_free_ok, where fresh = "\<lambda>n. replicate n 0"
      and lb = 20 and v = 6, OF _ _ _ fresh] room p by auto
qed

text \<open>C36: A defect: when the disk is full and the inode has no single indirect table yet, setting a block that would need it
  returns true, leaves the inode as it was, and writes the block number into block 0 of the volume, whose bytes 1024 to 1107
  are the superblock when blocks have at least 2048 bytes.\<close>

theorem full_disk_writes_block_zero:
  assumes "byte_device dev n byte" "layout n fs" "free_ok byte n fs" "length (fresh (bsz fs)) = bsz fs" "disk_full byte fs"
    and "12 \<le> unat lb" "unat lb < 12 + ppb fs" "single_indirect_block_pointer ino = 0" "bsz fs \<le> n"
  shows "\<exists>fs'. set_physical_block dev fresh fs ino lb v = Some (True, ino, fs') \<and>
    block_bytes byte fs' 0 = set_word (block_bytes byte fs 0) (unat lb - 12) v"
proof -
  note ok = layoutD(1) [OF assms(2)]
  have s: "unat (lb - 12) = unat lb - 12" using assms(6) by (simp add: unat_sub word_le_nat_alt)
  have lt: "unat lb - 12 < ppb fs" using assms(6,7) by simp
  have i: "4 * (unat lb - 12) + 4 \<le> bsz fs" using word_ppb [OF ok] assms(6,7) by simp
  have c: "create_indirect_block dev fresh fs 0 = Some (0, fs)"
    using byte_device.create_indirect_block_changes [OF assms(1), where fresh = fresh, OF assms(2,3) _ assms(4), of 0] assms(5) by simp
  have fit: "unat (0 :: u32) * bsz fs + bsz fs \<le> n" using assms(9) by simp
  have rd: "read_block dev fresh fs 0 = block_bytes byte fs 0"
    using byte_device.read_block_bytes [OF assms(1), where fresh = fresh, OF ok fit assms(4)] by simp
  define bs where "bs = set_word (block_bytes byte fs 0) (unat lb - 12) v"
  have "length bs = bsz fs" using i by (simp add: bs_def)
  then obtain d where d: "blk_write dev (dev_state fs) (block_to_offset fs 0) (block_size fs) bs = (ucast (block_size fs), d)"
    "block_bytes byte (fs \<lparr> dev_state := d \<rparr>) 0 = bs"
    using byte_device.write_block_bytes [OF assms(1) ok fit] by auto
  have "set_physical_block_l1 dev fresh fs 0 (lb - 12) v = Some (True, fs \<lparr> dev_state := d \<rparr>)"
    using i d(1) device_result [OF ok] by (simp add: set_physical_block_l1_def set_indirect_entry_def rd get_word_def s bs_def [symmetric])
  then have "set_physical_block dev fresh fs ino lb v = Some (True, ino, fs \<lparr> dev_state := d \<rparr>)"
    using assms(6,8) lt ppb_words(3) [OF ok] c
    by (simp add: set_physical_block_def Let_def word_less_nat_alt s root_or_create_def)
  then show ?thesis using d(2) by (auto simp: bs_def)
qed

definition example_full_disk :: "mem ext2" where
  "example_full_disk = example_ext2 \<lparr> dev_state := (dev_state example_ext2)(3072 := 255, 3073 := 255, 3074 := 255, 3075 := 255) \<rparr>"

lemma example_full_used: "b < 32 \<Longrightarrow> used_bit (\<lambda>m i. m (of_nat i)) Blocks example_full_disk 0 b"
proof -
  assume b: "b < 32"
  have *: "(4294967295 :: u32) = mask 32" by (simp add: mask_eq_exp_minus_1)
  have "bit (4294967295 :: u32) b" unfolding * using b by (simp add: bit_mask_iff)
  moreover have "u32_at (block_bytes (\<lambda>m i. m (of_nat i)) example_full_disk 3) 0 = 4294967295"
    unfolding block_bytes_def example_full_disk_def by (simp only: bsz_def) (subst u32_at_map; simp add: example_ext2_def)
  moreover have "bitmap_at Blocks example_full_disk 0 = 3"
    by (simp add: bitmap_at_def example_full_disk_def example_ext2_def example_group_def group_bitmap_def)
  ultimately show ?thesis using b by (simp add: used_bit_def bm_bit_def)
qed

theorem full_disk_writes_block_zero_witness:
  "\<exists>fs'. set_physical_block (mem_disk 0x200) (\<lambda>n. replicate n 0) example_full_disk empty_inode 13 7 = Some (True, empty_inode, fs') \<and>
    block_bytes (\<lambda>m i. m (of_nat i)) fs' 0 = set_word (block_bytes (\<lambda>m i. m (of_nat i)) example_full_disk 0) 1 7"
proof -
  have geo: "geo example_full_disk = geo example_volume" by (simp add: example_full_disk_def example_volume_def geo_def)
  have lay: "layout 65536 example_full_disk" by (rule layout_geo [OF geo example_layout])
  have g: "ngroups example_full_disk = 1" "per_group Blocks example_full_disk = 32" "bsz example_full_disk = 1024"
    by (simp_all add: example_full_disk_def example_ext2_def example_superblock_def ngroups_def per_group_def bsz_def)
  have pre: "free_ok (\<lambda>m i. m (of_nat i)) 65536 example_full_disk" "disk_full (\<lambda>m i. m (of_nat i)) example_full_disk"
    using example_full_used by (simp_all add: free_ok_def disk_full_def full_def g)
  have "single_indirect_block_pointer empty_inode = 0" by (simp add: empty_inode_def inode_of_def u32_at_zeros)
  then show ?thesis
    using full_disk_writes_block_zero [OF mem_disk_device [of 65536 "0x200"] lay pre(1), where fresh = "\<lambda>n. replicate n 0" and lb = 13 and v = 7
      and ino = empty_inode, OF _ _ pre(2)] by (simp add: g ppb_def)
qed

end
