(* ===== verification/Spec2Isabelle.thy ===== *)
theory Spec2Isabelle
  imports Prelude Mem_Ops Page_Frames VM_Tracker Page_Tables Heap_Pages Heap Sync Pipes Events CStr Credentials Mem_FS Files User_Memory File_IO Fat_Names Partitions Fat32 Fat32_Table Fat32_Write Fat32_Dirs VFS VFS_Paths Ext2 Ext2_Alloc Ext2_Runs Ext2_Files Ext2_Dirs Ext2_Map Ext2_Paths
begin

text \<open>
  A verification library for dioOS (src/kernel): the memory management of the kernel, its locks and
  queues, the file systems, and the path of file data from them to the tasks.

  \<^bold>\<open>The parts and how they interact.\<close> Physical frames come from the frame allocator, which keeps a table of
  locks and reference counts. Page tables take their frames from it and record them in the tracker of
  virtual memory of a task. The kernel heap grows by frames mapped through the page tables. Pipes, the
  files of the memory file system and the buffers of system calls are blocks of that heap. A system call
  finds a vnode through the descriptors of the task, checks the credentials of the task, and copies between
  a block of the heap and the memory of the task through the task's page tables.

  \<^bold>\<open>The theories.\<close>
  \<^item> \<open>Prelude\<close>: machine integers, the byte memory, lemmas on words and on loads and stores.
  \<^item> \<open>Mem_Ops\<close> (memory.cpp): copy, move, fill and compare in their scalar and vector variants. A move is the
    copy of the old bytes for every overlap and processor.
  \<^item> \<open>Page_Frames\<close> (paging/PageFrameAllocator.cpp): every method; first fit, conservation of frames, runs of
    frames, reference counts. The interface \<open>frame_source\<close> is what the page tables need of it.
  \<^item> \<open>VM_Tracker\<close> (scheduling/task_scheduler/vm_tracker.cpp): the list of regions as a map from addresses
    to flags, which every operation overrides or cuts.
  \<^item> \<open>Page_Tables\<close> (paging/PageEntry.cpp, PageMapIndexer.cpp, PageTableManager.cpp): the four-level tables as
    a map from pages to entries; mapping, unmapping, flags, and the exit of a tracker.
  \<^item> \<open>Heap_Pages\<close>, \<open>Heap\<close> (memory/heap.cpp): the segment list with both link directions; \<^verbatim>\<open>malloc\<close> and
    \<^verbatim>\<open>free\<close> as the interface \<open>allocator\<close>. Headers are found under their virtual addresses, which is the
    code's memory as long as every page of the heap has a frame of its own: a sound heap says so, and
    growing keeps it when four frames are free for every page it adds (one for the page, three for tables).
  \<^item> \<open>Sync\<close> (scheduling/spinlock, mutex, semaphore): step relations over any number of processors.
  \<^item> \<open>Pipes\<close> (helpers/pipes.cpp): a pipe as a queue of bytes on the heap, the interface \<open>fifo\<close>; and
    \<^verbatim>\<open>malloc\<close> on the state of the kernel, whose bytes are apart from the headers and the page tables.
  \<^item> \<open>Events\<close> (events.cpp): the ring of input events.
  \<^item> \<open>CStr\<close> (cstr.cpp): strings, tokens, numbers and their printing.
  \<^item> \<open>Credentials\<close> (syscalls/process/uid.cpp, gid.cpp, tid.cpp; the permission checks of vfs.cpp, access.cpp,
    open.cpp): what a task can become and open.
  \<^item> \<open>Mem_FS\<close> (filesystem/memfs): the contents of a file in memory.
  \<^item> \<open>Files\<close> (task_scheduler.cpp, vfs.cpp, syscalls/files/dup, fcntl, close, seek): descriptors and the
    reference counts of vnodes.
  \<^item> \<open>User_Memory\<close> (task_scheduler.cpp): access to the memory of a task through its page tables.
  \<^item> \<open>File_IO\<close> (syscalls/files/read.cpp, write.cpp): reading and writing through a window of the heap, by
    the interface \<open>readable_node\<close>, which the memory file system implements.
  \<^item> \<open>Partitions\<close> (partitions/partitions.cpp): the interface \<open>byte_device\<close> of a block device, partitions as windows
    of a disk that are such devices again, and the MBR and GPT tables as functions of the bytes of the disk.
  \<^item> \<open>Fat_Names\<close> (filesystem/fat32/fat32_helpers.cpp): short and long names and back.
  \<^item> \<open>Fat32\<close>, \<open>Fat32_Table\<close>, \<open>Fat32_Write\<close>, \<open>Fat32_Dirs\<close> (filesystem/fat32/fat32.cpp): the table and its chains,
    reading along a chain; freeing, searching and damaged tables; writing, with the growth of a chain; directories,
    their listing and the operations of the vnodes.
  \<^item> \<open>Ext2\<close>, \<open>Ext2_Alloc\<close>, \<open>Ext2_Runs\<close> (filesystem/ext2): the structures of the second extended file system, mounting
    and the bitmaps; allocating and freeing a block, an inode or a run of blocks.
  \<^item> \<open>Ext2_Files\<close>, \<open>Ext2_Dirs\<close>: inodes, the block map with its indirect blocks, contents, directories and the
    operations of the vnodes. \<open>Ext2_Map\<close>, \<open>Ext2_Paths\<close>: the block map of an inode as a function from paths in
    its trees of tables to blocks; well-formed maps; getting a block is a look-up and setting one an update of it.
  \<^item> \<open>VFS\<close>, \<open>VFS_Paths\<close> (filesystem/vfs/vfs.cpp, filesystem/memfs): the tree of vnodes, its operations, and the
    resolution of paths as a walk along the tree, with the reference counts.

  \<^bold>\<open>Conventions.\<close> A C integer is a word of its width; \<^verbatim>\<open>int\<close> results that are error numbers are words too, so
  that \<^verbatim>\<open>-EBADF\<close> is the machine's value. \<open>None\<close> is a use of freed memory, undefined behaviour or a call that
  does not return; a theorem that a call returns states \<open>Some\<close>. Loops over C counters are recursive functions
  with a measure; loops that wait for another task take the states they see as an argument. Loops without a bound
  are partial functions, and their theorems give the bound under which they end. Calls through pointers (the
  operations of a vnode) are arguments of the definitions, with their contract as a locale that is interpreted
  on the model's own operations. Locks that a function holds from its first access to its last are left out.

  \<^bold>\<open>Not modelled.\<close> The drivers, the interrupt and processor set-up, ACPI and PCI work on hardware whose behaviour
  the sources do not give. The rendering writes a frame buffer. printf.c and minidbg are third-party code, as
  are the headers under src/setup/include and include/acpica.
\<close>

end
